(* ===== verification/Prelude.thy ===== *)
theory Prelude
  imports Main "HOL-Library.Monad_Syntax"
begin

text \<open>
  Shared vocabulary of the development.

  Text.  A Rust \<open>str\<close> is modelled as a list of code points in the range U+0000 to U+00FF
  (the HOL type \<open>char\<close>), so every function of the standard library that the code applies to
  characters is written out exactly on that range: \<open>char::is_alphanumeric\<close> and
  \<open>char::is_whitespace\<close> follow the Unicode tables for Latin-1, and \<open>str::len\<close> counts the bytes
  of the UTF-8 encoding (two for a code point above U+007F).

  Panics.  A Rust operation that may panic (an index out of range, \<open>unwrap\<close> of \<open>None\<close>, a failed
  \<open>assert!\<close>) returns an \<open>option\<close>, with \<open>None\<close> for the panic.  Where the code also has an error
  value, the result is a sum with \<open>Inl\<close> for the error.
\<close>

named_theorems text_simps \<open>equations that evaluate the character classes on literals\<close>
named_theorems inv_intros \<open>the operations of a component keep its invariant\<close>

type_synonym str = string

section \<open>Characters\<close>

definition cp :: "char \<Rightarrow> nat" where
  "cp c = of_char c"

definition is_whitespace :: "char \<Rightarrow> bool" where
  "is_whitespace c \<longleftrightarrow> (9 \<le> cp c \<and> cp c \<le> 13) \<or> cp c = 32 \<or> cp c = 133 \<or> cp c = 160"

definition is_ascii_uppercase :: "char \<Rightarrow> bool" where
  "is_ascii_uppercase c \<longleftrightarrow> 65 \<le> cp c \<and> cp c \<le> 90"

definition is_alphanumeric :: "char \<Rightarrow> bool" where
  "is_alphanumeric c \<longleftrightarrow>
     (48 \<le> cp c \<and> cp c \<le> 57) \<or> (65 \<le> cp c \<and> cp c \<le> 90) \<or> (97 \<le> cp c \<and> cp c \<le> 122) \<or>
     cp c \<in> {170, 178, 179, 181, 185, 186, 188, 189, 190} \<or>
     (192 \<le> cp c \<and> cp c \<noteq> 215 \<and> cp c \<noteq> 247)"

definition to_ascii_lowercase :: "char \<Rightarrow> char" where
  "to_ascii_lowercase c = (if is_ascii_uppercase c then char_of (cp c + 32) else c)"

lemma cp_inject: "cp a = cp b \<longleftrightarrow> a = b"
  by (simp add: cp_def)

lemma lower_not_upper [simp]: "\<not> is_ascii_uppercase (to_ascii_lowercase c)"
proof (cases "is_ascii_uppercase c")
  case True
  then have "cp (to_ascii_lowercase c) = cp c + 32"
    by (simp add: to_ascii_lowercase_def cp_def is_ascii_uppercase_def)
  with True show ?thesis by (simp add: is_ascii_uppercase_def)
next
  case False
  then show ?thesis by (simp add: to_ascii_lowercase_def)
qed

lemma lower_id: "\<not> is_ascii_uppercase c \<Longrightarrow> to_ascii_lowercase c = c"
  by (simp add: to_ascii_lowercase_def)

lemma lower_lower [simp]: "to_ascii_lowercase (to_ascii_lowercase c) = to_ascii_lowercase c"
  by (rule lower_id) simp

lemmas char_class_defs [text_simps] =
  is_whitespace_def is_alphanumeric_def is_ascii_uppercase_def to_ascii_lowercase_def cp_def

section \<open>Strings\<close>

definition utf8_len :: "char \<Rightarrow> nat" where
  "utf8_len c = (if cp c < 128 then 1 else 2)"

definition str_len :: "str \<Rightarrow> nat" where
  "str_len s = sum_list (map utf8_len s)"

lemma str_len_Nil [simp]: "str_len [] = 0"
  by (simp add: str_len_def)

lemma str_len_Cons [simp]: "str_len (c # s) = utf8_len c + str_len s"
  by (simp add: str_len_def)

lemma str_len_0 [simp]: "str_len s = 0 \<longleftrightarrow> s = []"
  by (cases s) (auto simp: utf8_len_def)

definition make_ascii_lowercase :: "str \<Rightarrow> str" where
  "make_ascii_lowercase s = map to_ascii_lowercase s"

definition eq_ignore_ascii_case :: "str \<Rightarrow> str \<Rightarrow> bool" where
  "eq_ignore_ascii_case a b \<longleftrightarrow> make_ascii_lowercase a = make_ascii_lowercase b"

lemma make_lower_id:
  "\<forall>c \<in> set s. \<not> is_ascii_uppercase c \<Longrightarrow> make_ascii_lowercase s = s"
  by (simp add: make_ascii_lowercase_def map_idI lower_id)

lemma make_lower_not_upper:
  "c \<in> set (make_ascii_lowercase s) \<Longrightarrow> \<not> is_ascii_uppercase c"
  by (auto simp: make_ascii_lowercase_def)

text \<open>\<open>str::split\<close> on one character: always at least one component.\<close>

fun split_on :: "char \<Rightarrow> str \<Rightarrow> str list" where
  "split_on d [] = [[]]"
| "split_on d (c # s) =
     (if c = d then [] # split_on d s
      else (case split_on d s of
              [] \<Rightarrow> [[c]]
            | w # ws \<Rightarrow> (c # w) # ws))"

lemma split_on_not_Nil [simp]: "split_on d s \<noteq> []"
  by (induction s) (auto split: list.splits)

lemma split_on_free: "d \<notin> set s \<Longrightarrow> split_on d s = [s]"
  by (induction s) auto

lemma split_on_append:
  "d \<notin> set w \<Longrightarrow> split_on d (w @ d # s) = w # split_on d s"
  by (induction w) auto

lemma split_on_sep_free: "w \<in> set (split_on d s) \<Longrightarrow> d \<notin> set w"
  by (induction s arbitrary: w) (auto split: if_splits list.splits)

definition skip_ws :: "str \<Rightarrow> str" where
  "skip_ws s = dropWhile is_whitespace s"

lemma skip_ws_Nil [simp]: "skip_ws [] = []"
  by (simp add: skip_ws_def)

lemma skip_ws_no_ws: "s = [] \<or> \<not> is_whitespace (hd s) \<Longrightarrow> skip_ws s = s"
  by (cases s) (auto simp: skip_ws_def)

lemma skip_ws_idem [simp]: "skip_ws (skip_ws s) = skip_ws s"
  by (simp add: skip_ws_def)

lemma length_skip_ws: "length (skip_ws s) \<le> length s"
  by (simp add: skip_ws_def length_dropWhile_le)

lemma set_skip_ws: "set (skip_ws s) \<subseteq> set s"
  by (auto simp: skip_ws_def dest: set_dropWhileD)

lemma skip_ws_hd: "skip_ws s = c # r \<Longrightarrow> \<not> is_whitespace c"
  by (metis hd_dropWhile list.sel(1) list.simps(3) skip_ws_def)

section \<open>Lists\<close>

text \<open>The position at which a list is read in Rust, \<open>xs[i]\<close>, panics out of range.\<close>

definition nth_opt :: "'a list \<Rightarrow> nat \<Rightarrow> 'a option" where
  "nth_opt xs i = (if i < length xs then Some (xs ! i) else None)"

lemma nth_opt_Some [simp]: "nth_opt xs i = Some x \<longleftrightarrow> i < length xs \<and> xs ! i = x"
  by (auto simp: nth_opt_def)

lemma nth_opt_None [simp]: "nth_opt xs i = None \<longleftrightarrow> length xs \<le> i"
  by (auto simp: nth_opt_def)

definition last_opt :: "'a list \<Rightarrow> 'a option" where
  "last_opt xs = (if xs = [] then None else Some (last xs))"

lemma last_opt_simps [simp]: "last_opt [] = None" "last_opt (xs @ [x]) = Some x"
  by (simp_all add: last_opt_def)

lemma last_opt_Some: "last_opt xs = Some x \<longleftrightarrow> (\<exists>ys. xs = ys @ [x])"
  by (cases xs rule: rev_cases) (auto simp: last_opt_def)

lemma last_opt_None [simp]: "last_opt xs = None \<longleftrightarrow> xs = []"
  by (simp add: last_opt_def)

lemma in_map_filter: "x \<in> set (List.map_filter f xs) \<longleftrightarrow> (\<exists>y \<in> set xs. f y = Some x)"
  by (induction xs) (auto simp: List.map_filter_simps split: option.splits)

lemma map_filter_cong: "(\<And>x. x \<in> set xs \<Longrightarrow> f x = g x) \<Longrightarrow> List.map_filter f xs = List.map_filter g xs"
  by (induction xs) (simp_all add: List.map_filter_simps split: option.split)

end
