(* ===== verification/Keystroke.thy ===== *)
theory Keystroke
  imports Prelude
begin

text \<open>
  Keystrokes and modifiers: \<open>crates/lucie/src/platform/keystroke.rs\<close>.  The conditional
  compilation on \<open>target_os\<close> is an argument of the operations that depend on it.  The text
  rendering for the user (\<open>Display\<close>), which prints symbols outside the modelled range of code
  points, is not modelled; the round trip of the machine-readable form \<open>unparse\<close> is proved.
\<close>

datatype target_os = MacOS | Linux | FreeBSD | Windows | OtherOs

section \<open>Modifiers\<close>

record modifiers =
  control :: bool
  alt :: bool
  shift :: bool
  platform :: bool
  function_key :: bool

definition mods_none :: modifiers where
  "mods_none = \<lparr>control = False, alt = False, shift = False, platform = False, function_key = False\<rparr>"

definition modified :: "modifiers \<Rightarrow> bool" where
  "modified m \<longleftrightarrow> control m \<or> alt m \<or> shift m \<or> platform m \<or> function_key m"

definition secondary :: "target_os \<Rightarrow> modifiers \<Rightarrow> bool" where
  "secondary os m = (if os = MacOS then platform m else control m)"

definition number_of_modifiers :: "modifiers \<Rightarrow> nat" where
  "number_of_modifiers m = of_bool (control m) + of_bool (alt m) + of_bool (shift m)
     + of_bool (platform m) + of_bool (function_key m)"

definition mods_command :: modifiers where "mods_command = mods_none\<lparr>platform := True\<rparr>"

definition mods_secondary_key :: "target_os \<Rightarrow> modifiers" where
  "mods_secondary_key os =
     (if os = MacOS then mods_none\<lparr>platform := True\<rparr> else mods_none\<lparr>control := True\<rparr>)"

definition mods_windows :: modifiers where "mods_windows = mods_none\<lparr>platform := True\<rparr>"
definition mods_super_key :: modifiers where "mods_super_key = mods_none\<lparr>platform := True\<rparr>"
definition mods_control :: modifiers where "mods_control = mods_none\<lparr>control := True\<rparr>"
definition mods_alt :: modifiers where "mods_alt = mods_none\<lparr>alt := True\<rparr>"
definition mods_shift :: modifiers where "mods_shift = mods_none\<lparr>shift := True\<rparr>"
definition mods_function :: modifiers where "mods_function = mods_none\<lparr>function_key := True\<rparr>"

definition mods_command_shift :: modifiers where
  "mods_command_shift = mods_none\<lparr>shift := True, platform := True\<rparr>"

definition mods_control_shift :: modifiers where
  "mods_control_shift = mods_none\<lparr>shift := True, control := True\<rparr>"

definition bitor_assign :: "modifiers \<Rightarrow> modifiers \<Rightarrow> modifiers" where
  "bitor_assign a b = a\<lparr>control := control a \<or> control b, alt := alt a \<or> alt b,
     shift := shift a \<or> shift b, platform := platform a \<or> platform b,
     function_key := function_key a \<or> function_key b\<rparr>"

definition bitxor_assign :: "modifiers \<Rightarrow> modifiers \<Rightarrow> modifiers" where
  "bitxor_assign a b = a\<lparr>control := control a \<noteq> control b, alt := alt a \<noteq> alt b,
     shift := shift a \<noteq> shift b, platform := platform a \<noteq> platform b,
     function_key := function_key a \<noteq> function_key b\<rparr>"

definition bitand_assign :: "modifiers \<Rightarrow> modifiers \<Rightarrow> modifiers" where
  "bitand_assign a b = a\<lparr>control := control a \<and> control b, alt := alt a \<and> alt b,
     shift := shift a \<and> shift b, platform := platform a \<and> platform b,
     function_key := function_key a \<and> function_key b\<rparr>"

definition mods_bitor :: "modifiers \<Rightarrow> modifiers \<Rightarrow> modifiers" where
  "mods_bitor a b = bitor_assign a b"

definition mods_bitxor :: "modifiers \<Rightarrow> modifiers \<Rightarrow> modifiers" where
  "mods_bitxor a b = bitxor_assign a b"

definition mods_bitand :: "modifiers \<Rightarrow> modifiers \<Rightarrow> modifiers" where
  "mods_bitand a b = bitand_assign a b"

definition is_subset_of :: "modifiers \<Rightarrow> modifiers \<Rightarrow> bool" where
  "is_subset_of self other \<longleftrightarrow> mods_bitand other self = self"

lemmas mods_defs =
  mods_none_def modified_def secondary_def number_of_modifiers_def mods_bitor_def mods_bitxor_def
  mods_bitand_def bitor_assign_def bitxor_assign_def bitand_assign_def is_subset_of_def

lemma is_subset_of_iff:
  "is_subset_of a b \<longleftrightarrow> (control a \<longrightarrow> control b) \<and> (alt a \<longrightarrow> alt b) \<and> (shift a \<longrightarrow> shift b)
     \<and> (platform a \<longrightarrow> platform b) \<and> (function_key a \<longrightarrow> function_key b)"
  by (cases a; cases b) (auto simp: is_subset_of_def mods_bitand_def bitand_assign_def)

section \<open>Keystrokes\<close>

record keystroke =
  modifiers :: modifiers
  key :: str
  key_char :: "str option"

text \<open>
  The display fields of a \<open>KeybindingKeystroke\<close> exist on Windows only: \<open>display\<close> is \<open>None\<close>
  elsewhere, so that the derived equality compares what the code compares.
\<close>

record keybinding_keystroke =
  inner :: keystroke
  display :: "(modifiers \<times> str) option"

datatype invalid_keystroke_error = InvalidKeystrokeError str

definition should_match :: "target_os \<Rightarrow> keystroke \<Rightarrow> keybinding_keystroke \<Rightarrow> bool" where
  "should_match os self target =
     ((case key_char self of
         Some c \<Rightarrow>
           c \<noteq> key self \<and> key (inner target) = c \<and>
           modifiers (inner target) =
             (if os = Windows then mods_none
              else mods_none\<lparr>control := control (modifiers self),
                             platform := platform (modifiers self)\<rparr>)
       | None \<Rightarrow> False)
      \<or> (modifiers (inner target) = modifiers self \<and> key (inner target) = key self))"

section \<open>Parsing\<close>

definition ends_with_dash :: "str \<Rightarrow> bool" where
  "ends_with_dash s \<longleftrightarrow> s \<noteq> [] \<and> last s = CHR ''-''"

text \<open>The components that name a modifier, in the order in which the loop tests them.\<close>

definition component_modifier :: "target_os \<Rightarrow> str \<Rightarrow> (modifiers \<Rightarrow> modifiers) option" where
  "component_modifier os component =
     (if eq_ignore_ascii_case component ''ctrl'' then Some (control_update (\<lambda>_. True))
      else if eq_ignore_ascii_case component ''alt'' then Some (alt_update (\<lambda>_. True))
      else if eq_ignore_ascii_case component ''shift'' then Some (shift_update (\<lambda>_. True))
      else if eq_ignore_ascii_case component ''fn'' then Some (function_key_update (\<lambda>_. True))
      else if eq_ignore_ascii_case component ''secondary'' then
        Some (if os = MacOS then platform_update (\<lambda>_. True) else control_update (\<lambda>_. True))
      else if eq_ignore_ascii_case component ''cmd'' \<or> eq_ignore_ascii_case component ''super''
          \<or> eq_ignore_ascii_case component ''win'' then Some (platform_update (\<lambda>_. True))
      else None)"

text \<open>
  The loop over the components separated by a dash.  The second and third equation are the same
  step with \<open>components.peek()\<close> being \<open>None\<close> and \<open>Some\<close>; the \<open>break\<close> returns at once.
\<close>

fun parse_components ::
  "target_os \<Rightarrow> str \<Rightarrow> str list \<Rightarrow> modifiers \<Rightarrow> str option \<Rightarrow> str option \<Rightarrow>
     invalid_keystroke_error + (modifiers \<times> str option \<times> str option)" where
  "parse_components os source [] m k kc = Inr (m, k, kc)"
| "parse_components os source [component] m k kc =
     (case component_modifier os component of
        Some set_modifier \<Rightarrow> parse_components os source [] (set_modifier m) k kc
      | None \<Rightarrow>
          if str_len component = 1 \<and> is_ascii_uppercase (hd component) then
            parse_components os source [] (m\<lparr>shift := True\<rparr>)
              (Some (make_ascii_lowercase component)) kc
          else parse_components os source [] m (Some (make_ascii_lowercase component)) kc)"
| "parse_components os source (component # next # rest) m k kc =
     (case component_modifier os component of
        Some set_modifier \<Rightarrow> parse_components os source (next # rest) (set_modifier m) k kc
      | None \<Rightarrow>
          if next = [] \<and> ends_with_dash source then Inr (m, Some ''-'', kc)
          else if 1 < str_len next \<and> hd next = CHR ''>'' then
            parse_components os source rest m (Some component) (Some (tl next))
          else Inl (InvalidKeystrokeError source))"

text \<open>The modifier that stands for the key when no key was given; taking it clears it.\<close>

definition take_modifier_key :: "modifiers \<Rightarrow> modifiers \<times> str option" where
  "take_modifier_key m =
     (if shift m then (m\<lparr>shift := False\<rparr>, Some ''shift'')
      else if control m then (m\<lparr>control := False\<rparr>, Some ''control'')
      else if alt m then (m\<lparr>alt := False\<rparr>, Some ''alt'')
      else if platform m then (m\<lparr>platform := False\<rparr>, Some ''platform'')
      else if function_key m then (m\<lparr>function_key := False\<rparr>, Some ''function'')
      else (m, None))"

definition keystroke_parse :: "target_os \<Rightarrow> str \<Rightarrow> invalid_keystroke_error + keystroke" where
  "keystroke_parse os source =
     (case parse_components os source (split_on (CHR ''-'') source) mods_none None None of
        Inl e \<Rightarrow> Inl e
      | Inr (m, k, kc) \<Rightarrow>
          (case (case k of Some s \<Rightarrow> (m, Some s) | None \<Rightarrow> take_modifier_key m) of
             (m', Some s) \<Rightarrow> Inr \<lparr>modifiers = m', key = s, key_char = kc\<rparr>
           | (m', None) \<Rightarrow> Inl (InvalidKeystrokeError source)))"

definition unparse_raw :: "target_os \<Rightarrow> modifiers \<Rightarrow> str \<Rightarrow> str" where
  "unparse_raw os m k =
     (if function_key m then ''fn-'' else []) @
     (if control m then ''ctrl-'' else []) @
     (if alt m then ''alt-'' else []) @
     (if platform m then
        (case os of MacOS \<Rightarrow> ''cmd-'' | Linux \<Rightarrow> ''super-'' | FreeBSD \<Rightarrow> ''super-''
         | Windows \<Rightarrow> ''win-'' | OtherOs \<Rightarrow> [])
      else []) @
     (if shift m then ''shift-'' else []) @ k"

definition unparse :: "target_os \<Rightarrow> keystroke \<Rightarrow> str" where
  "unparse os ks = unparse_raw os (modifiers ks) (key ks)"

section \<open>Input method support\<close>

definition unprintable_keys :: "str list" where
  "unprintable_keys =
     [''f1'', ''f2'', ''f3'', ''f4'', ''f5'', ''f6'', ''f7'', ''f8'', ''f9'', ''f10'', ''f11'',
      ''f12'', ''f13'', ''f14'', ''f15'', ''f16'', ''f17'', ''f18'', ''f19'', ''f20'', ''f21'',
      ''f22'', ''f23'', ''f24'', ''f25'', ''f26'', ''f27'', ''f28'', ''f29'', ''f30'', ''f31'',
      ''f32'', ''f33'', ''f34'', ''f35'', ''backspace'', ''delete'', ''left'', ''right'', ''up'',
      ''down'', ''pageup'', ''pagedown'', ''insert'', ''home'', ''end'', ''back'', ''forward'',
      ''escape'']"

definition is_printable_key :: "str \<Rightarrow> bool" where
  "is_printable_key k \<longleftrightarrow> k \<notin> set unprintable_keys"

definition is_ime_in_progress :: "keystroke \<Rightarrow> bool" where
  "is_ime_in_progress ks \<longleftrightarrow>
     key_char ks = None \<and> (is_printable_key (key ks) \<or> key ks = []) \<and>
     \<not> (platform (modifiers ks) \<or> control (modifiers ks) \<or> function_key (modifiers ks)
        \<or> alt (modifiers ks))"

text \<open>\<open>str::to_uppercase\<close> may leave the modelled range, so it is the argument \<open>upper\<close>.\<close>

definition with_simulated_ime :: "(str \<Rightarrow> str) \<Rightarrow> keystroke \<Rightarrow> keystroke" where
  "with_simulated_ime upper ks =
     (if key_char ks = None \<and> \<not> platform (modifiers ks) \<and> \<not> control (modifiers ks)
         \<and> \<not> function_key (modifiers ks) \<and> \<not> alt (modifiers ks) then
        ks\<lparr>key_char :=
             (if key ks = ''space'' then Some '' ''
              else if key ks = ''tab'' then Some [CHR 9]
              else if key ks = ''enter'' then Some [CHR 10]
              else if \<not> is_printable_key (key ks) \<or> key ks = [] then None
              else if shift (modifiers ks) then Some (upper (key ks))
              else Some (key ks))\<rparr>
      else ks)"

section \<open>Keystrokes of a binding\<close>

definition kb_new :: "keystroke \<Rightarrow> modifiers \<Rightarrow> str \<Rightarrow> keybinding_keystroke" where
  "kb_new i dm dk = \<lparr>inner = i, display = Some (dm, dk)\<rparr>"

definition new_with_mapper ::
  "keystroke \<Rightarrow> bool \<Rightarrow> (keystroke \<Rightarrow> bool \<Rightarrow> keybinding_keystroke) \<Rightarrow> keybinding_keystroke" where
  "new_with_mapper i use_key_equivalents map_key_equivalent = map_key_equivalent i use_key_equivalents"

definition from_keystroke :: "target_os \<Rightarrow> keystroke \<Rightarrow> keybinding_keystroke" where
  "from_keystroke os ks =
     \<lparr>inner = ks, display = (if os = Windows then Some (modifiers ks, key ks) else None)\<rparr>"

definition kb_modifiers :: "keybinding_keystroke \<Rightarrow> modifiers" where
  "kb_modifiers t = (case display t of Some (m, _) \<Rightarrow> m | None \<Rightarrow> modifiers (inner t))"

definition kb_key :: "keybinding_keystroke \<Rightarrow> str" where
  "kb_key t = (case display t of Some (_, k) \<Rightarrow> k | None \<Rightarrow> key (inner t))"

definition kb_set_modifiers :: "modifiers \<Rightarrow> keybinding_keystroke \<Rightarrow> keybinding_keystroke" where
  "kb_set_modifiers m t =
     t\<lparr>inner := (inner t)\<lparr>modifiers := m\<rparr>, display := map_option (\<lambda>(_, k). (m, k)) (display t)\<rparr>"

definition kb_set_key :: "str \<Rightarrow> keybinding_keystroke \<Rightarrow> keybinding_keystroke" where
  "kb_set_key k t =
     t\<lparr>inner := (inner t)\<lparr>key := k\<rparr>, display := map_option (\<lambda>(m, _). (m, k)) (display t)\<rparr>"

definition kb_unparse :: "target_os \<Rightarrow> keybinding_keystroke \<Rightarrow> str" where
  "kb_unparse os t = unparse_raw os (kb_modifiers t) (kb_key t)"

definition remove_key_char :: "keybinding_keystroke \<Rightarrow> keybinding_keystroke" where
  "remove_key_char t = t\<lparr>inner := (inner t)\<lparr>key_char := None\<rparr>\<rparr>"

section \<open>Canonical keystrokes\<close>

definition modifier_names :: "str list" where
  "modifier_names = [''ctrl'', ''alt'', ''shift'', ''fn'', ''secondary'', ''cmd'', ''super'', ''win'']"

definition mod_tokens :: "target_os \<Rightarrow> modifiers \<Rightarrow> str list" where
  "mod_tokens os m =
     (if function_key m then [''fn''] else []) @
     (if control m then [''ctrl''] else []) @
     (if alt m then [''alt''] else []) @
     (if platform m then
        (case os of MacOS \<Rightarrow> [''cmd''] | Linux \<Rightarrow> [''super''] | FreeBSD \<Rightarrow> [''super'']
         | Windows \<Rightarrow> [''win''] | OtherOs \<Rightarrow> [])
      else []) @
     (if shift m then [''shift''] else [])"

lemma unparse_raw_tokens:
  "unparse_raw os m k = concat (map (\<lambda>t. t @ [CHR ''-'']) (mod_tokens os m)) @ k"
  by (simp add: unparse_raw_def mod_tokens_def split: target_os.split)

lemma split_on_concat:
  "\<forall>t \<in> set ts. d \<notin> set t \<Longrightarrow>
     split_on d (concat (map (\<lambda>t. t @ [d]) ts) @ s) = ts @ split_on d s"
  by (induction ts) (auto simp: split_on_append)

lemma mod_tokens_dash_free: "t \<in> set (mod_tokens os m) \<Longrightarrow> CHR ''-'' \<notin> set t"
  by (auto simp: mod_tokens_def split: if_splits target_os.splits)

lemma split_unparse:
  "split_on (CHR ''-'') (unparse_raw os m k) = mod_tokens os m @ split_on (CHR ''-'') k"
  by (simp add: unparse_raw_tokens split_on_concat mod_tokens_dash_free)

lemma eq_ignore_self_lit [text_simps]:
  "eq_ignore_ascii_case a b \<longleftrightarrow> map to_ascii_lowercase a = map to_ascii_lowercase b"
  by (simp add: eq_ignore_ascii_case_def make_ascii_lowercase_def)

lemma parse_modifier_component:
  "component_modifier os c = Some f \<Longrightarrow>
     parse_components os src (c # cs) m k kc = parse_components os src cs (f m) k kc"
  by (cases cs) simp_all

lemma component_modifier_literals [simp]:
  "component_modifier os ''fn'' = Some (function_key_update (\<lambda>_. True))"
  "component_modifier os ''ctrl'' = Some (control_update (\<lambda>_. True))"
  "component_modifier os ''alt'' = Some (alt_update (\<lambda>_. True))"
  "component_modifier os ''shift'' = Some (shift_update (\<lambda>_. True))"
  "component_modifier os ''cmd'' = Some (platform_update (\<lambda>_. True))"
  "component_modifier os ''super'' = Some (platform_update (\<lambda>_. True))"
  "component_modifier os ''win'' = Some (platform_update (\<lambda>_. True))"
  "component_modifier os [] = None"
  by (simp_all add: component_modifier_def text_simps)

lemma parse_mod_tokens:
  assumes "os \<noteq> OtherOs"
  shows "parse_components os src (mod_tokens os m @ cs) mods_none k kc =
         parse_components os src cs m k kc"
proof -
  obtain c a s p f where m: "m = \<lparr>control = c, alt = a, shift = s, platform = p, function_key = f\<rparr>"
    by (cases m) auto
  show ?thesis
    using assms unfolding m
    by (cases c; cases a; cases s; cases p; cases f; cases os)
       (simp_all add: mod_tokens_def mods_none_def parse_modifier_component)
qed

definition plain_key :: "str \<Rightarrow> bool" where
  "plain_key k \<longleftrightarrow> CHR ''-'' \<notin> set k \<and> (\<forall>c \<in> set k. \<not> is_ascii_uppercase c)
     \<and> k \<notin> set modifier_names"

definition canonical_keystroke :: "keystroke \<Rightarrow> bool" where
  "canonical_keystroke ks \<longleftrightarrow> key_char ks = None \<and>
     (plain_key (key ks) \<or> key ks = ''-''
      \<or> (key ks = ''shift'' \<and> \<not> shift (modifiers ks))
      \<or> (key ks = ''alt'' \<and> \<not> shift (modifiers ks) \<and> \<not> control (modifiers ks) \<and> \<not> alt (modifiers ks)))"

lemma modifier_names_lower: "n \<in> set modifier_names \<Longrightarrow> make_ascii_lowercase n = n"
  by (auto simp: modifier_names_def make_ascii_lowercase_def text_simps)

lemma component_modifier_None:
  "component_modifier os c = None \<longleftrightarrow> make_ascii_lowercase c \<notin> set modifier_names"
proof -
  have "component_modifier os c = None \<longleftrightarrow> (\<forall>n \<in> set modifier_names. \<not> eq_ignore_ascii_case c n)"
    by (simp add: component_modifier_def modifier_names_def)
  also have "\<dots> \<longleftrightarrow> make_ascii_lowercase c \<notin> set modifier_names"
    using modifier_names_lower by (auto simp: eq_ignore_ascii_case_def)
  finally show ?thesis .
qed

lemma ends_with_dash_unparse: "ends_with_dash (unparse_raw os m ''-'')"
  by (simp add: unparse_raw_def ends_with_dash_def)

lemma parse_components_key_char:
  "parse_components os src cs m0 k0 kc0 = Inr (m, k, kc) \<Longrightarrow> kc0 \<noteq> None \<Longrightarrow> kc \<noteq> None"
  by (induction os src cs m0 k0 kc0 rule: parse_components.induct)
     (auto split: if_splits option.splits)

lemma lower_dash: "to_ascii_lowercase c = CHR ''-'' \<Longrightarrow> c = CHR ''-''"
proof -
  assume a: "to_ascii_lowercase c = CHR ''-''"
  then have "cp (to_ascii_lowercase c) = 45" by (simp add: cp_def)
  then have "\<not> is_ascii_uppercase c"
    by (auto simp: to_ascii_lowercase_def is_ascii_uppercase_def cp_def)
  with a show ?thesis by (simp add: lower_id)
qed

lemma plain_key_lower:
  assumes "component_modifier os c = None" "CHR ''-'' \<notin> set c"
  shows "plain_key (make_ascii_lowercase c)"
proof -
  have "CHR ''-'' \<notin> set (make_ascii_lowercase c)"
    using assms(2) by (auto simp: make_ascii_lowercase_def dest!: lower_dash[OF sym])
  with assms(1) show ?thesis
    by (auto simp: plain_key_def component_modifier_None dest: make_lower_not_upper)
qed

lemma parse_components_canonical:
  assumes "parse_components os src cs m0 k0 kc0 = Inr (m, k, None)"
    and "\<forall>c \<in> set cs. CHR ''-'' \<notin> set c"
    and "\<forall>x. k0 = Some x \<longrightarrow> x = ''-'' \<or> plain_key x"
  shows "\<forall>x. k = Some x \<longrightarrow> x = ''-'' \<or> plain_key x"
  using assms
  by (induction os src cs m0 k0 kc0 rule: parse_components.induct)
     (auto split: if_splits option.splits intro: plain_key_lower dest: parse_components_key_char)



lemma parse_result_canonical:
  assumes "keystroke_parse os s = Inr ks" "key_char ks = None"
  shows "canonical_keystroke ks"
proof -
  obtain m k where p: "parse_components os s (split_on (CHR ''-'') s) mods_none None None = Inr (m, k, None)"
    using assms by (auto simp: keystroke_parse_def split: sum.splits option.splits prod.splits)
  have c: "\<forall>x. k = Some x \<longrightarrow> x = ''-'' \<or> plain_key x"
    using parse_components_canonical[OF p] split_on_sep_free by blast
  show ?thesis
  proof (cases k)
    case (Some x)
    then show ?thesis using assms p c
      by (auto simp: keystroke_parse_def canonical_keystroke_def)
  next
    case None
    have "plain_key ''control''" "plain_key ''platform''" "plain_key ''function''"
      by (simp_all add: plain_key_def modifier_names_def text_simps)
    then show ?thesis using None assms p
      by (auto simp: keystroke_parse_def canonical_keystroke_def take_modifier_key_def split: if_splits)
  qed
qed

lemma parse_unparse_canonical:
  assumes "os \<noteq> OtherOs" "canonical_keystroke ks"
  shows "keystroke_parse os (unparse os ks) = Inr ks"
proof -
  obtain m k where ks: "ks = \<lparr>modifiers = m, key = k, key_char = None\<rparr>"
    using assms(2) by (cases ks) (auto simp: canonical_keystroke_def)
  consider (plain) "plain_key k" | (dash) "k = ''-''" | (shift) "k = ''shift''" "\<not> shift m"
    | (alt) "k = ''alt''" "\<not> shift m" "\<not> control m" "\<not> alt m"
    using assms(2) ks by (auto simp: canonical_keystroke_def)
  then show ?thesis
  proof cases
    case plain
    then have "make_ascii_lowercase k = k"
      by (simp add: plain_key_def make_lower_id)
    moreover have "\<not> (str_len k = 1 \<and> is_ascii_uppercase (hd k))"
      using plain by (cases k) (auto simp: plain_key_def)
    moreover have "component_modifier os k = None"
      using plain calculation(1) by (simp add: plain_key_def component_modifier_None)
    ultimately show ?thesis using plain
      by (auto simp: ks keystroke_parse_def unparse_def split_unparse parse_mod_tokens[OF assms(1)]
        plain_key_def split_on_free)
  next
    case dash
    show ?thesis
      by (simp add: ks dash keystroke_parse_def unparse_def split_unparse parse_mod_tokens[OF assms(1)]
          ends_with_dash_unparse)
  next
    case shift
    then show ?thesis
      by (simp add: ks keystroke_parse_def unparse_def split_unparse parse_mod_tokens[OF assms(1)]
          parse_modifier_component take_modifier_key_def)
  next
    case alt
    then show ?thesis
      by (simp add: ks keystroke_parse_def unparse_def split_unparse parse_mod_tokens[OF assms(1)]
          parse_modifier_component take_modifier_key_def)
  qed
qed

section \<open>Properties\<close>

text \<open>C16: the machine-readable form of a canonical keystroke (lower-case key that names no
  modifier, the dash, or the modifier taken for the key) parses back to the same keystroke, on every
  operating system for which \<open>unparse\<close> prints the platform modifier.\<close>

theorem keystroke_roundtrip:
  assumes "os \<noteq> OtherOs" "canonical_keystroke ks"
  shows "keystroke_parse os (unparse os ks) = Inr ks"
  using assms by (rule parse_unparse_canonical)

theorem keystroke_roundtrip_witness:
  "keystroke_parse Linux (unparse Linux
     \<lparr>modifiers = mods_control\<lparr>platform := True\<rparr>, key = ''-'', key_char = None\<rparr>) =
   Inr \<lparr>modifiers = mods_control\<lparr>platform := True\<rparr>, key = ''-'', key_char = None\<rparr>"
  by (rule keystroke_roundtrip) (simp_all add: canonical_keystroke_def)

text \<open>Whatever text a keystroke was parsed from, if it has no \<open>key_char\<close> then printing it with
  \<open>unparse\<close> and parsing again returns the same keystroke, so \<open>unparse\<close> produces text that
  \<open>parse\<close> understands.\<close>

theorem keystroke_reparse:
  assumes "os \<noteq> OtherOs" "keystroke_parse os s = Inr ks" "key_char ks = None"
  shows "keystroke_parse os (unparse os ks) = Inr ks"
  using assms parse_unparse_canonical parse_result_canonical by blast

theorem keystroke_reparse_witness:
  "keystroke_parse MacOS (unparse MacOS
     \<lparr>modifiers = mods_control_shift, key = ''a'', key_char = None\<rparr>) =
   Inr \<lparr>modifiers = mods_control_shift, key = ''a'', key_char = None\<rparr>"
proof (rule keystroke_reparse)
  show "keystroke_parse MacOS ''Ctrl-A'' =
    Inr \<lparr>modifiers = mods_control_shift, key = ''a'', key_char = None\<rparr>"
    by code_simp
qed simp_all

text \<open>A component before a trailing dash is dropped: the text \<open>a-\<close> is read as the dash key.\<close>

lemma trailing_dash_drops_component:
  "keystroke_parse os ''a-'' = Inr \<lparr>modifiers = mods_none, key = ''-'', key_char = None\<rparr>"
  by (simp add: keystroke_parse_def component_modifier_def ends_with_dash_def
      make_ascii_lowercase_def text_simps)

text \<open>On modifiers, \<open>is_subset_of\<close> is a partial order, the bitwise \<open>or\<close> is its least upper
  bound and the bitwise \<open>and\<close> its greatest lower bound.\<close>

theorem modifiers_lattice:
  "is_subset_of a a \<and> (is_subset_of a b \<and> is_subset_of b a \<longleftrightarrow> a = b) \<and>
   (is_subset_of a b \<and> is_subset_of b c \<longrightarrow> is_subset_of a c) \<and>
   (is_subset_of (mods_bitor a b) c \<longleftrightarrow> is_subset_of a c \<and> is_subset_of b c) \<and>
   (is_subset_of c (mods_bitand a b) \<longleftrightarrow> is_subset_of c a \<and> is_subset_of c b)"
  unfolding is_subset_of_iff by (auto simp: mods_bitor_def mods_bitand_def bitor_assign_def
      bitand_assign_def intro: modifiers.equality)

theorem modifiers_lattice_witness:
  "is_subset_of mods_none mods_control \<and> is_subset_of mods_control mods_control_shift \<and>
   is_subset_of mods_none mods_control_shift"
proof -
  have h: "is_subset_of mods_none mods_control" "is_subset_of mods_control mods_control_shift"
    by code_simp+
  then show ?thesis using modifiers_lattice[of mods_none mods_control mods_control_shift] by blast
qed

end
