(* ===== verification/KeyContext.thy ===== *)
theory KeyContext
  imports Prelude
begin

text \<open>
  Key contexts and the predicates over them: \<open>crates/lucie/src/keymap/context.rs\<close>.  A context is
  the list of its entries.  The context parser is a recursion that may never return, so it is a
  \<open>partial_function\<close> whose value \<open>None\<close> stands for not returning; the predicate parser carries
  fuel, and the fuel that \<open>predicate_parse\<close> supplies is proved to be enough.
\<close>

section \<open>Key contexts\<close>

record context_entry =
  entry_key :: str
  entry_value :: "str option"

type_synonym key_context = "context_entry list"

definition kc_primary :: "key_context \<Rightarrow> context_entry option" where
  "kc_primary c = find (\<lambda>p. entry_value p = None) c"

definition kc_secondary :: "key_context \<Rightarrow> context_entry list" where
  "kc_secondary c = (let primary = kc_primary c in filter (\<lambda>p. Some p \<noteq> primary) c)"

definition kc_is_empty :: "key_context \<Rightarrow> bool" where
  "kc_is_empty c \<longleftrightarrow> c = []"

definition kc_clear :: "key_context \<Rightarrow> key_context" where
  "kc_clear c = []"

definition kc_contains :: "key_context \<Rightarrow> str \<Rightarrow> bool" where
  "kc_contains c k \<longleftrightarrow> list_ex (\<lambda>e. entry_key e = k) c"

definition kc_get :: "key_context \<Rightarrow> str \<Rightarrow> str option" where
  "kc_get c k = (case find (\<lambda>e. entry_key e = k) c of None \<Rightarrow> None | Some e \<Rightarrow> entry_value e)"

definition kc_add :: "str \<Rightarrow> key_context \<Rightarrow> key_context" where
  "kc_add k c =
     (if \<not> kc_contains c k then c @ [\<lparr>entry_key = k, entry_value = None\<rparr>] else c)"

definition kc_set :: "str \<Rightarrow> str \<Rightarrow> key_context \<Rightarrow> key_context" where
  "kc_set k v c =
     (if \<not> kc_contains c k then c @ [\<lparr>entry_key = k, entry_value = Some v\<rparr>] else c)"

fun kc_extend :: "key_context \<Rightarrow> key_context \<Rightarrow> key_context" where
  "kc_extend c [] = c"
| "kc_extend c (e # es) =
     kc_extend (if \<not> kc_contains c (entry_key e) then c @ [e] else c) es"

definition is_identifier_char :: "char \<Rightarrow> bool" where
  "is_identifier_char c \<longleftrightarrow> is_alphanumeric c \<or> c = CHR ''_'' \<or> c = CHR ''-''"

partial_function (option) kc_parse_expr :: "str \<Rightarrow> key_context \<Rightarrow> key_context option" where
  "kc_parse_expr source context =
     (if source = [] then Some context
      else
        let key = takeWhile is_identifier_char source;
            source = skip_ws (drop (length key) source)
        in if source \<noteq> [] \<and> hd source = CHR ''='' then
             let source = skip_ws (tl source);
                 value = takeWhile is_identifier_char source;
                 source = skip_ws (drop (length value) source)
             in kc_parse_expr source (kc_set key value context)
           else kc_parse_expr source (kc_add key context))"

definition kc_parse :: "str \<Rightarrow> key_context option" where
  "kc_parse source = kc_parse_expr (skip_ws source) []"

text \<open>The \<open>Debug\<close> form of a context.\<close>

definition entry_print :: "context_entry \<Rightarrow> str" where
  "entry_print e =
     (case entry_value e of Some v \<Rightarrow> entry_key e @ ''='' @ v | None \<Rightarrow> entry_key e)"

fun kc_print :: "key_context \<Rightarrow> str" where
  "kc_print [] = []"
| "kc_print [e] = entry_print e"
| "kc_print (e # es) = entry_print e @ '' '' @ kc_print es"

subsection \<open>Lookup\<close>

lemma kc_contains_iff: "kc_contains c k \<longleftrightarrow> k \<in> entry_key ` set c"
  by (auto simp: kc_contains_def list_ex_iff)

lemma kc_get_None_if: "\<not> kc_contains c k \<Longrightarrow> kc_get c k = None"
  by (induction c) (auto simp: kc_get_def kc_contains_def)

lemma find_append: "find P (xs @ ys) = (case find P xs of Some x \<Rightarrow> Some x | None \<Rightarrow> find P ys)"
  by (induction xs) auto

lemma kc_get_append:
  "kc_get (c @ d) k = (if kc_contains c k then kc_get c k else kc_get d k)"
proof (cases "find (\<lambda>e. entry_key e = k) c")
  case None
  then have "\<not> kc_contains c k" by (auto simp: kc_contains_iff find_None_iff)
  with None show ?thesis by (simp add: kc_get_def find_append)
next
  case (Some e)
  then have "kc_contains c k"
    by (auto simp: kc_contains_iff find_Some_iff)
  with Some show ?thesis by (simp add: kc_get_def find_append)
qed

lemma kc_contains_append [simp]: "kc_contains (c @ d) k \<longleftrightarrow> kc_contains c k \<or> kc_contains d k"
  by (simp add: kc_contains_def)

lemma kc_contains_extend: "kc_contains (kc_extend c d) k \<longleftrightarrow> kc_contains c k \<or> kc_contains d k"
  by (induction c d rule: kc_extend.induct) (auto simp: kc_contains_def)

lemma kc_get_extend:
  "kc_get (kc_extend c d) k = (if kc_contains c k then kc_get c k else kc_get d k)"
proof (induction c d rule: kc_extend.induct)
  case (1 c)
  then show ?case by (simp add: kc_get_None_if) (simp add: kc_get_def)
next
  case (2 c e es)
  then show ?case
    by (auto simp: kc_get_append) (auto simp: kc_contains_def kc_get_def)
qed

section \<open>The context parser\<close>

definition context_char :: "char \<Rightarrow> bool" where
  "context_char c \<longleftrightarrow> is_identifier_char c \<or> is_whitespace c \<or> c = CHR ''=''"

lemma drop_takeWhile: "drop (length (takeWhile P xs)) xs = dropWhile P xs"
  by (simp add: dropWhile_eq_drop)

lemma set_by_takeWhile: "set xs = set (takeWhile P xs) \<union> set (dropWhile P xs)"
  by (metis set_append takeWhile_dropWhile_id)

lemma skip_ws_chars: "(\<forall>c \<in> set (skip_ws s). context_char c) \<longleftrightarrow> (\<forall>c \<in> set s. context_char c)"
proof -
  have "\<forall>c \<in> set (takeWhile is_whitespace s). context_char c"
    by (auto simp: context_char_def dest: set_takeWhileD)
  then show ?thesis
    using set_by_takeWhile[of s is_whitespace] by (auto simp: skip_ws_def)
qed

lemma ident_chars:
  "(\<forall>c \<in> set (dropWhile is_identifier_char s). context_char c) \<longleftrightarrow> (\<forall>c \<in> set s. context_char c)"
proof -
  have "\<forall>c \<in> set (takeWhile is_identifier_char s). context_char c"
    by (auto simp: context_char_def dest: set_takeWhileD)
  then show ?thesis
    using set_by_takeWhile[of s is_identifier_char] by auto
qed

lemma kc_parse_expr_chars:
  assumes "kc_parse_expr s c = Some r"
  shows "\<forall>x \<in> set s. context_char x"
proof (rule kc_parse_expr.raw_induct [where P = "\<lambda>s c r. \<forall>x \<in> set s. context_char x", OF _ assms])
  fix f :: "str \<Rightarrow> key_context \<Rightarrow> key_context option" and s c r
  assume IH: "\<And>s c r. f s c = Some r \<Longrightarrow> \<forall>x \<in> set s. context_char x"
    and eq: "(if s = [] then Some c
      else
        let key = takeWhile is_identifier_char s;
            source = skip_ws (drop (length key) s)
        in if source \<noteq> [] \<and> hd source = CHR ''='' then
             let source = skip_ws (tl source);
                 value = takeWhile is_identifier_char source;
                 source = skip_ws (drop (length value) source)
             in f source (kc_set key value c)
           else f source (kc_add key c)) = Some r"
  let ?t = "skip_ws (dropWhile is_identifier_char s)"
  show "\<forall>x \<in> set s. context_char x"
  proof (cases "s = []")
    case False
    show ?thesis
    proof (cases "?t \<noteq> [] \<and> hd ?t = CHR ''=''")
      case True
      then obtain u where u: "?t = CHR ''='' # u" by (cases ?t) auto
      from eq False True have "f (skip_ws (dropWhile is_identifier_char (skip_ws u)))
          (kc_set (takeWhile is_identifier_char s) (takeWhile is_identifier_char (skip_ws u)) c) = Some r"
        by (simp add: Let_def drop_takeWhile u)
      from IH[OF this] have "\<forall>x \<in> set u. context_char x"
        by (simp add: skip_ws_chars ident_chars)
      then have "\<forall>x \<in> set ?t. context_char x"
        unfolding u by (simp add: context_char_def)
      then show ?thesis by (simp add: skip_ws_chars ident_chars)
    next
      case False2: False
      with eq False have "f ?t (kc_add (takeWhile is_identifier_char s) c) = Some r"
        by (simp add: Let_def drop_takeWhile)
      from IH[OF this] show ?thesis by (simp add: skip_ws_chars ident_chars)
    qed
  qed simp
qed

lemma eq_not_ident: "\<not> is_identifier_char (CHR ''='')" "\<not> is_whitespace (CHR ''='')"
  by (simp_all add: is_identifier_char_def text_simps)

lemma ident_not_ws: "is_identifier_char c \<Longrightarrow> \<not> is_whitespace c"
  by (auto simp: is_identifier_char_def is_whitespace_def is_alphanumeric_def cp_def)

lemma kc_parse_expr_returns:
  assumes "\<forall>x \<in> set s. context_char x" "skip_ws s = s"
  shows "\<exists>r. kc_parse_expr s c = Some r"
  using assms
proof (induction s arbitrary: c rule: length_induct)
  case (1 s)
  let ?t = "skip_ws (dropWhile is_identifier_char s)"
  show ?case
  proof (cases "s = []")
    case True
    then show ?thesis by (simp add: kc_parse_expr.simps)
  next
    case False
    show ?thesis
    proof (cases "?t \<noteq> [] \<and> hd ?t = CHR ''=''")
      case True
      then obtain u where u: "?t = CHR ''='' # u" by (cases ?t) auto
      let ?w = "skip_ws (dropWhile is_identifier_char (skip_ws u))"
      have "length ?w \<le> length u"
        by (meson length_dropWhile_le length_skip_ws order_trans)
      also have "length u < length ?t" by (simp add: u)
      also have "length ?t \<le> length s"
        by (meson length_dropWhile_le length_skip_ws order_trans)
      finally have "length ?w < length s" .
      moreover have "\<forall>x \<in> set ?t. context_char x"
        using "1.prems"(1) by (simp add: skip_ws_chars ident_chars)
      then have "\<forall>x \<in> set ?w. context_char x"
        unfolding u by (simp add: skip_ws_chars ident_chars)
      ultimately obtain r where "kc_parse_expr ?w (kc_set (takeWhile is_identifier_char s)
          (takeWhile is_identifier_char (skip_ws u)) c) = Some r"
        using "1.IH" by (metis skip_ws_idem)
      with False True show ?thesis
        by (subst kc_parse_expr.simps) (simp add: Let_def drop_takeWhile u)
    next
      case no_eq: False
      obtain x xs where s: "s = x # xs" using False by (cases s) auto
      have "is_identifier_char x"
      proof (rule ccontr)
        assume n: "\<not> is_identifier_char x"
        then have "?t = s" using "1.prems"(2) by (simp add: s)
        with no_eq s have "x \<noteq> CHR ''=''" by auto
        moreover have "\<not> is_whitespace x" using "1.prems"(2) s by (metis skip_ws_hd)
        ultimately show False using n "1.prems"(1) s by (auto simp: context_char_def)
      qed
      then have "length ?t < length s"
        by (simp add: s) (meson length_dropWhile_le length_skip_ws le_imp_less_Suc order_trans)
      moreover have "\<forall>x \<in> set ?t. context_char x"
        using "1.prems"(1) by (simp add: skip_ws_chars ident_chars)
      ultimately obtain r where "kc_parse_expr ?t (kc_add (takeWhile is_identifier_char s) c) = Some r"
        using "1.IH" by (metis skip_ws_idem)
      with False no_eq show ?thesis
        by (subst kc_parse_expr.simps) (auto simp: Let_def drop_takeWhile)
    qed
  qed
qed


subsection \<open>Round trip\<close>

definition ident_str :: "str \<Rightarrow> bool" where
  "ident_str s \<longleftrightarrow> s \<noteq> [] \<and> (\<forall>c \<in> set s. is_identifier_char c)"

definition printable_entry :: "context_entry \<Rightarrow> bool" where
  "printable_entry e \<longleftrightarrow> ident_str (entry_key e) \<and>
     (case entry_value e of Some v \<Rightarrow> ident_str v | None \<Rightarrow> True)"

definition kc_distinct :: "key_context \<Rightarrow> bool" where
  "kc_distinct c \<longleftrightarrow> distinct (map entry_key c)"

lemma takeWhile_ident_append:
  assumes "\<forall>c \<in> set k. P c" "r = [] \<or> \<not> P (hd r)"
  shows "takeWhile P (k @ r) = k \<and> dropWhile P (k @ r) = r"
  using assms by (cases r) (auto simp: takeWhile_append2 dropWhile_append2)

lemma skip_ws_ident_append: "ident_str k \<Longrightarrow> skip_ws (k @ r) = k @ r"
  by (rule skip_ws_no_ws) (cases k; auto simp: ident_str_def ident_not_ws)

lemma space_props [simp]: "is_whitespace (CHR '' '')" "\<not> is_identifier_char (CHR '' '')"
  "\<not> is_identifier_char (CHR ''='')" "\<not> is_whitespace (CHR ''='')"
  by (simp_all add: is_identifier_char_def text_simps)

lemma kc_parse_entry:
  assumes e: "printable_entry e" and new: "\<not> kc_contains c (entry_key e)"
    and r: "r = [] \<or> (\<exists>r'. r = CHR '' '' # r' \<and> (r' = [] \<or> hd r' \<noteq> CHR ''='') \<and> skip_ws r' = r')"
  shows "kc_parse_expr (entry_print e @ r) c = kc_parse_expr (skip_ws r) (c @ [e])"
proof -
  obtain k v where [simp]: "e = \<lparr>entry_key = k, entry_value = v\<rparr>" by (cases e) auto
  have k: "\<forall>x \<in> set k. is_identifier_char x" "k \<noteq> []"
    using e by (auto simp: printable_entry_def ident_str_def)
  have sr: "skip_ws r = [] \<or> hd (skip_ws r) \<noteq> CHR ''=''"
    using r by (auto simp: skip_ws_def)
  have ri: "r = [] \<or> \<not> is_identifier_char (hd r)" using r by auto
  show ?thesis
  proof (cases v)
    case None
    then show ?thesis
      using k takeWhile_ident_append[OF k(1) ri] sr new
      by (subst kc_parse_expr.simps) (auto simp: entry_print_def Let_def drop_takeWhile kc_add_def)
  next
    case (Some w)
    then have w: "ident_str w" "\<forall>x \<in> set w. is_identifier_char x"
      using e by (auto simp: printable_entry_def ident_str_def)
    have "takeWhile is_identifier_char (k @ CHR ''='' # w @ r) = k \<and>
        dropWhile is_identifier_char (k @ CHR ''='' # w @ r) = CHR ''='' # w @ r"
      by (rule takeWhile_ident_append[OF k(1)]) simp
    moreover have "skip_ws (CHR ''='' # w @ r) = CHR ''='' # w @ r"
      by (rule skip_ws_no_ws) simp
    moreover note skip_ws_ident_append[OF w(1), of r] takeWhile_ident_append[OF w(2) ri]
    ultimately show ?thesis
      using k Some new
      by (subst kc_parse_expr.simps) (simp add: entry_print_def Let_def drop_takeWhile kc_set_def)
  qed
qed

lemma entry_print_hd:
  assumes "printable_entry e"
  shows "entry_print e \<noteq> [] \<and> is_identifier_char (hd (entry_print e))"
  using assms by (auto simp: printable_entry_def ident_str_def entry_print_def split: option.splits)

lemma kc_print_hd:
  assumes "list_all printable_entry es" "es \<noteq> []"
  shows "kc_print es \<noteq> [] \<and> is_identifier_char (hd (kc_print es))"
  using assms entry_print_hd by (cases es rule: kc_print.cases) auto

lemma kc_parse_print:
  assumes "list_all printable_entry es" "kc_distinct (c @ es)"
  shows "kc_parse_expr (kc_print es) c = Some (c @ es)"
  using assms
proof (induction es arbitrary: c rule: kc_print.induct)
  case 1
  then show ?case by (simp add: kc_parse_expr.simps)
next
  case (2 e)
  then show ?case
    using kc_parse_entry[of e c "[]"]
    by (auto simp: kc_distinct_def kc_contains_iff kc_parse_expr.simps)
next
  case (3 e e' es)
  have hd: "kc_print (e' # es) \<noteq> [] \<and> is_identifier_char (hd (kc_print (e' # es)))"
    using "3.prems"(1) by (intro kc_print_hd) auto
  then have "skip_ws (kc_print (e' # es)) = kc_print (e' # es)"
    by (intro skip_ws_no_ws) (auto simp: ident_not_ws)
  moreover have "hd (kc_print (e' # es)) \<noteq> CHR ''=''" using hd eq_not_ident by metis
  ultimately have "kc_parse_expr (entry_print e @ '' '' @ kc_print (e' # es)) c =
      kc_parse_expr (skip_ws ('' '' @ kc_print (e' # es))) (c @ [e])"
    using "3.prems" by (intro kc_parse_entry) (auto simp: kc_distinct_def kc_contains_iff)
  also have "skip_ws ('' '' @ kc_print (e' # es)) = kc_print (e' # es)"
    using \<open>skip_ws (kc_print (e' # es)) = kc_print (e' # es)\<close> by (simp add: skip_ws_def)
  also have "kc_parse_expr (kc_print (e' # es)) (c @ [e]) = Some ((c @ [e]) @ e' # es)"
    using "3.prems" by (intro "3.IH") auto
  finally show ?case by simp
qed


subsection \<open>Keys stay distinct\<close>

lemma kc_distinct_ops [inv_intros]:
  "kc_distinct []"
  "kc_distinct c \<Longrightarrow> kc_distinct (kc_add k c)"
  "kc_distinct c \<Longrightarrow> kc_distinct (kc_set k v c)"
  by (auto simp: kc_distinct_def kc_add_def kc_set_def kc_contains_iff)

lemma kc_distinct_extend [inv_intros]: "kc_distinct c \<Longrightarrow> kc_distinct (kc_extend c d)"
  by (induction c d rule: kc_extend.induct) (auto simp: kc_distinct_def kc_contains_iff)

lemma kc_parse_expr_distinct:
  assumes "kc_parse_expr s c = Some r" "kc_distinct c"
  shows "kc_distinct r"
proof -
  have "kc_distinct c \<longrightarrow> kc_distinct r"
  proof (rule kc_parse_expr.raw_induct [where P = "\<lambda>s c r. kc_distinct c \<longrightarrow> kc_distinct r",
          OF _ assms(1)])
    fix f :: "str \<Rightarrow> key_context \<Rightarrow> key_context option" and s c r
    assume "\<And>s c r. f s c = Some r \<Longrightarrow> kc_distinct c \<longrightarrow> kc_distinct r"
      and "(if s = [] then Some c
      else
        let key = takeWhile is_identifier_char s;
            source = skip_ws (drop (length key) s)
        in if source \<noteq> [] \<and> hd source = CHR ''='' then
             let source = skip_ws (tl source);
                 value = takeWhile is_identifier_char source;
                 source = skip_ws (drop (length value) source)
             in f source (kc_set key value c)
           else f source (kc_add key c)) = Some r"
    then show "kc_distinct c \<longrightarrow> kc_distinct r"
      by (auto simp: Let_def intro: kc_distinct_ops split: if_splits)
  qed
  with assms(2) show ?thesis by blast
qed

section \<open>Properties\<close>

lemma kc_parse_defined:
  "kc_parse s \<noteq> None \<longleftrightarrow> list_all context_char s"
proof
  assume "kc_parse s \<noteq> None"
  then obtain r where "kc_parse_expr (skip_ws s) [] = Some r" by (auto simp: kc_parse_def)
  from kc_parse_expr_chars[OF this] show "list_all context_char s"
    by (simp add: skip_ws_chars list_all_iff)
next
  assume "list_all context_char s"
  then have "\<forall>x \<in> set (skip_ws s). context_char x"
    by (simp add: skip_ws_chars list_all_iff)
  then show "kc_parse s \<noteq> None"
    using kc_parse_expr_returns[of "skip_ws s" "[]"] by (auto simp: kc_parse_def)
qed

text \<open>The text of a single parenthesis is one on which the parser does not return.\<close>

lemma kc_parse_paren: "kc_parse ''('' = None"
proof -
  have "\<not> list_all context_char ''(''"
    by (simp add: context_char_def is_identifier_char_def text_simps)
  then show ?thesis using kc_parse_defined by blast
qed

text \<open>C21: the context parser returns exactly on the texts made of identifier characters,
  whitespace and equals signs; on any other text the recursion makes no progress and never
  returns.\<close>

theorem kc_parse_returns_iff: "kc_parse s \<noteq> None \<longleftrightarrow> list_all context_char s"
  by (rule kc_parse_defined)

text \<open>A context with distinct keys, whose keys and values are identifiers, is parsed back
  from its \<open>Debug\<close> text.\<close>

theorem kc_roundtrip:
  assumes "list_all printable_entry c" "kc_distinct c"
  shows "kc_parse (kc_print c) = Some c"
proof -
  have "skip_ws (kc_print c) = kc_print c"
    using kc_print_hd[OF assms(1)] by (cases c) (auto intro!: skip_ws_no_ws simp: ident_not_ws)
  then show ?thesis
    using kc_parse_print[of c "[]"] assms by (simp add: kc_parse_def)
qed

theorem kc_roundtrip_witness:
  "kc_parse (kc_print [\<lparr>entry_key = ''editor'', entry_value = None\<rparr>,
      \<lparr>entry_key = ''mode'', entry_value = Some ''full''\<rparr>]) =
   Some [\<lparr>entry_key = ''editor'', entry_value = None\<rparr>,
      \<lparr>entry_key = ''mode'', entry_value = Some ''full''\<rparr>]"
  by (rule kc_roundtrip)
     (simp_all add: printable_entry_def ident_str_def is_identifier_char_def kc_distinct_def text_simps)

text \<open>Every context a parse returns has distinct keys, and extending a context keeps them
  distinct, keeps its own entries and takes from the other context only the keys it lacks.\<close>

theorem kc_parse_extend_lookup:
  assumes "kc_parse s = Some c"
  shows "kc_distinct (kc_extend c d) \<and>
    kc_get (kc_extend c d) k = (if kc_contains c k then kc_get c k else kc_get d k) \<and>
    kc_contains (kc_extend c d) k = (kc_contains c k \<or> kc_contains d k)"
  using assms kc_parse_expr_distinct kc_distinct_ops(1)
  by (simp add: kc_parse_def kc_get_extend kc_contains_extend kc_distinct_extend)

theorem kc_parse_extend_lookup_witness:
  "kc_get (kc_extend [\<lparr>entry_key = ''a'', entry_value = None\<rparr>]
     [\<lparr>entry_key = ''b'', entry_value = Some ''c''\<rparr>]) ''b'' = Some ''c''"
proof -
  have "kc_parse ''a'' = Some [\<lparr>entry_key = ''a'', entry_value = None\<rparr>]"
    by (simp add: kc_parse_def kc_parse_expr.simps skip_ws_def Let_def kc_add_def kc_contains_def
        is_identifier_char_def text_simps)
  from kc_parse_extend_lookup[OF this, of "[\<lparr>entry_key = ''b'', entry_value = Some ''c''\<rparr>]" "''b''"]
  show ?thesis by (simp add: kc_contains_def kc_get_def)
qed

end
