(* ===== verification/ContextPredicate.thy ===== *)
theory ContextPredicate
  imports KeyContext
begin

text \<open>
  The predicates over a stack of key contexts: the type \<open>KeyBindingContextPredicate\<close> of
  \<open>crates/lucie/src/keymap/context.rs\<close>, its evaluation, the search for the deepest match, the
  superset test, and its parser and printer.  A context stack is the list from the root to the
  deepest context.
\<close>

section \<open>Predicates and their evaluation\<close>

datatype predicate =
    Identifier str
  | Equal str str
  | NotEqual str str
  | Descendant predicate predicate
  | NotP predicate
  | AndP predicate predicate
  | OrP predicate predicate

fun eval_inner :: "predicate \<Rightarrow> key_context list \<Rightarrow> key_context list \<Rightarrow> bool" where
  "eval_inner (Identifier name) contexts all_contexts =
     (case last_opt contexts of None \<Rightarrow> False | Some context \<Rightarrow> kc_contains context name)"
| "eval_inner (Equal left right) contexts all_contexts =
     (case last_opt contexts of None \<Rightarrow> False
      | Some context \<Rightarrow> (case kc_get context left of Some v \<Rightarrow> v = right | None \<Rightarrow> False))"
| "eval_inner (NotEqual left right) contexts all_contexts =
     (case last_opt contexts of None \<Rightarrow> False
      | Some context \<Rightarrow> (case kc_get context left of Some v \<Rightarrow> v \<noteq> right | None \<Rightarrow> True))"
| "eval_inner (NotP p) contexts all_contexts =
     (contexts \<noteq> [] \<and>
      \<not> list_ex (\<lambda>i. eval_inner p (take (Suc i) all_contexts) all_contexts) [0..<length all_contexts])"
| "eval_inner (Descendant parent child) contexts all_contexts =
     (contexts \<noteq> [] \<and>
      (case find (\<lambda>i. eval_inner parent (take (Suc i) contexts) all_contexts)
              [0..<length contexts - 1] of
         None \<Rightarrow> False
       | Some i \<Rightarrow> eval_inner child (drop (Suc i) contexts) (drop (Suc i) contexts)))"
| "eval_inner (AndP left right) contexts all_contexts =
     (contexts \<noteq> [] \<and> eval_inner left contexts all_contexts \<and> eval_inner right contexts all_contexts)"
| "eval_inner (OrP left right) contexts all_contexts =
     (contexts \<noteq> [] \<and> (eval_inner left contexts all_contexts \<or> eval_inner right contexts all_contexts))"

definition eval :: "predicate \<Rightarrow> key_context list \<Rightarrow> bool" where
  "eval p contexts = eval_inner p contexts contexts"

definition depth_of :: "predicate \<Rightarrow> key_context list \<Rightarrow> nat option" where
  "depth_of p contexts =
     find (\<lambda>depth. eval_inner p (take depth contexts) contexts) (rev [0..<Suc (length contexts)])"

function is_superset :: "predicate \<Rightarrow> predicate \<Rightarrow> bool" where
  "is_superset self other =
     (if self = other then True
      else case self of
          OrP left right \<Rightarrow> is_superset left other \<or> is_superset right other
        | _ \<Rightarrow>
            (case other of
               Descendant _ child \<Rightarrow> is_superset self child
             | AndP left right \<Rightarrow> is_superset self left \<or> is_superset self right
             | _ \<Rightarrow> False))"
  by pat_completeness auto
termination
  by (relation "measure (\<lambda>(a, b). size a + size b)") auto

declare is_superset.simps [simp del]

lemma is_superset_or:
  "is_superset (OrP l r) b \<longleftrightarrow> OrP l r = b \<or> is_superset l b \<or> is_superset r b"
  by (subst is_superset.simps) simp

lemma is_superset_no_or:
  assumes "a \<noteq> b" "\<nexists>l r. a = OrP l r"
  shows "is_superset a b \<longleftrightarrow>
    (case b of Descendant _ child \<Rightarrow> is_superset a child
     | AndP l r \<Rightarrow> is_superset a l \<or> is_superset a r | _ \<Rightarrow> False)"
  using assms by (subst is_superset.simps) (auto split: predicate.split)

lemma eval_inner_nonempty: "eval_inner p contexts all_contexts \<Longrightarrow> contexts \<noteq> []"
  by (cases p) (auto split: option.splits)

lemma find_rev_upt:
  "find P (rev [0..<Suc n]) = Some d \<longleftrightarrow> d \<le> n \<and> P d \<and> (\<forall>e. d < e \<and> e \<le> n \<longrightarrow> \<not> P e)"
proof (induction n)
  case 0
  then show ?case by auto
next
  case (Suc n)
  show ?case
  proof (cases "P (Suc n)")
    case True
    then have "find P (rev [0..<Suc (Suc n)]) = Some (Suc n)" by simp
    then show ?thesis using True by (metis le_antisym not_le option.inject order_refl)
  next
    case False
    then have "find P (rev [0..<Suc (Suc n)]) = find P (rev [0..<Suc n])" by simp
    then show ?thesis using Suc False by (metis le_SucE le_SucI)
  qed
qed

lemma find_rev_upt_None: "find P (rev [0..<Suc n]) = None \<longleftrightarrow> (\<forall>d \<le> n. \<not> P d)"
  by (auto simp: find_None_iff simp del: upt_Suc)

text \<open>The predicates that look at the deepest context only.\<close>

fun is_local :: "predicate \<Rightarrow> bool" where
  "is_local (Identifier _) = True"
| "is_local (Equal _ _) = True"
| "is_local (NotEqual _ _) = True"
| "is_local (Descendant _ _) = False"
| "is_local (NotP _) = False"
| "is_local (AndP l r) = (is_local l \<and> is_local r)"
| "is_local (OrP l r) = (is_local l \<and> is_local r)"

lemma eval_local:
  "is_local p \<Longrightarrow> c1 \<noteq> [] \<Longrightarrow> c2 \<noteq> [] \<Longrightarrow> last c1 = last c2 \<Longrightarrow>
     eval_inner p c1 a1 = eval_inner p c2 a2"
  by (induction p) (auto simp: last_opt_def)

lemma is_superset_sound_local:
  "is_superset a b \<Longrightarrow> is_local a \<Longrightarrow> eval_inner b contexts all_contexts \<Longrightarrow>
     eval_inner a contexts all_contexts"
proof (induction "size a + size b" arbitrary: a b contexts all_contexts rule: less_induct)
  case less
  have IH: "eval_inner a' c ac" if "size a' + size b' < size a + size b"
    "is_superset a' b'" "is_local a'" "eval_inner b' c ac" for a' b' c ac
    using less.hyps that by blast
  note ne = eval_inner_nonempty[OF less.prems(3)]
  show ?case
  proof (cases "a = b")
    case True
    with less.prems show ?thesis by simp
  next
    case False
    show ?thesis
    proof (cases "\<exists>l r. a = OrP l r")
      case True
      then obtain l r where a: "a = OrP l r" by blast
      then have "is_superset l b \<or> is_superset r b" "is_local l" "is_local r"
        using less.prems(1,2) False by (auto simp: is_superset_or)
      then show ?thesis
        using IH[of l b] IH[of r b] less.prems(3) ne a by auto
    next
      case no_or: False
      show ?thesis
      proof (cases b)
        case (Descendant parent child)
        then have sup: "is_superset a child"
          using less.prems(1) False no_or
          by (simp add: is_superset_no_or)
        from less.prems(3) Descendant obtain i where
          i: "i < length contexts - 1" "eval_inner child (drop (Suc i) contexts) (drop (Suc i) contexts)"
          by (auto simp: find_Some_iff split: option.splits)
        have "eval_inner a (drop (Suc i) contexts) (drop (Suc i) contexts)"
          using IH[OF _ sup less.prems(2) i(2)] Descendant by simp
        then show ?thesis
          using eval_local[OF less.prems(2) ne, of "drop (Suc i) contexts" all_contexts
              "drop (Suc i) contexts"] i(1) by auto
      next
        case (AndP l r)
        then have "is_superset a l \<or> is_superset a r"
          using less.prems(1) False no_or
          by (simp add: is_superset_no_or)
        then show ?thesis
          using IH[of a l] IH[of a r] less.prems(2,3) AndP by auto
      qed (use less.prems(1) False no_or in
            \<open>simp_all add: is_superset_no_or\<close>)
    qed
  qed
qed

section \<open>Properties\<close>

lemma depth_of_Some:
  "depth_of p contexts = Some d \<longleftrightarrow>
     0 < d \<and> d \<le> length contexts \<and> eval_inner p (take d contexts) contexts \<and>
     (\<forall>e. d < e \<and> e \<le> length contexts \<longrightarrow> \<not> eval_inner p (take e contexts) contexts)"
  unfolding depth_of_def find_rev_upt using eval_inner_nonempty[of p "take d contexts" contexts]
  by auto

lemma depth_of_le: "depth_of p contexts = Some d \<Longrightarrow> d \<le> length contexts"
  by (simp add: depth_of_Some)

lemma depth_of_None:
  "depth_of p contexts = None \<longleftrightarrow> (\<forall>d \<le> length contexts. \<not> eval_inner p (take d contexts) contexts)"
  unfolding depth_of_def by (rule find_rev_upt_None)

text \<open>\<open>depth_of\<close> returns the deepest prefix of the context stack at which the predicate
  evaluates to true; that prefix is never empty and never longer than the stack.\<close>

theorem depth_of_deepest:
  "(depth_of p contexts = Some d \<longleftrightarrow>
     0 < d \<and> d \<le> length contexts \<and> eval_inner p (take d contexts) contexts \<and>
     (\<forall>e. d < e \<and> e \<le> length contexts \<longrightarrow> \<not> eval_inner p (take e contexts) contexts)) \<and>
   (depth_of p contexts = None \<longleftrightarrow>
     (\<forall>e \<le> length contexts. \<not> eval_inner p (take e contexts) contexts))"
  using depth_of_Some depth_of_None by blast

theorem depth_of_deepest_witness:
  "depth_of (Identifier ''pane'') [[\<lparr>entry_key = ''pane'', entry_value = None\<rparr>],
     [\<lparr>entry_key = ''editor'', entry_value = None\<rparr>]] = Some 1"
proof -
  let ?c = "[[\<lparr>entry_key = ''pane'', entry_value = None\<rparr>], [\<lparr>entry_key = ''editor'', entry_value = None\<rparr>]]"
  have "\<forall>e. 1 < e \<and> e \<le> length ?c \<longrightarrow> \<not> eval_inner (Identifier ''pane'') (take e ?c) ?c"
  proof (intro allI impI)
    fix e assume "1 < e \<and> e \<le> length ?c"
    then have "e = 2" by simp
    then show "\<not> eval_inner (Identifier ''pane'') (take e ?c) ?c"
      by (simp add: last_opt_def kc_contains_def)
  qed
  then show ?thesis
    using depth_of_deepest[of "Identifier ''pane''" ?c 1] by (simp add: last_opt_def kc_contains_def)
qed

text \<open>C19: the superset test is sound for a first predicate that looks at the deepest context only:
  wherever the second predicate matches, the first one matches.\<close>

theorem is_superset_sound:
  assumes "is_superset a b" "is_local a" "eval_inner b contexts all_contexts"
  shows "eval_inner a contexts all_contexts"
  using assms by (rule is_superset_sound_local)

theorem is_superset_sound_witness:
  "eval_inner (Identifier ''editor'') [[\<lparr>entry_key = ''editor'', entry_value = None\<rparr>]]
     [[\<lparr>entry_key = ''editor'', entry_value = None\<rparr>]]"
proof (rule is_superset_sound)
  show "is_superset (Identifier ''editor'') (AndP (Identifier ''editor'') (NotEqual ''mode'' ''full''))"
    by (simp add: is_superset_no_or is_superset.simps)
qed (simp_all add: last_opt_def kc_contains_def kc_get_def)

text \<open>Without that restriction it is not: a negation looks at the whole stack.\<close>

lemma is_superset_unsound_negation:
  "\<exists>a b contexts. is_superset a b \<and> eval b contexts \<and> \<not> eval a contexts"
proof (intro exI conjI)
  let ?a = "NotP (Identifier ''a'')"
  let ?b = "Descendant (Identifier ''a'') ?a"
  let ?c = "[[\<lparr>entry_key = ''a'', entry_value = None\<rparr>], [\<lparr>entry_key = ''b'', entry_value = None\<rparr>]]"
  show "is_superset ?a ?b" by code_simp
  show "eval ?b ?c" by code_simp
  show "\<not> eval ?a ?c" by code_simp
qed

end
