(* ===== verification/Actions.thy ===== *)
theory Actions
  imports Prelude
begin

text \<open>
  Actions and the action registry: \<open>crates/lucie/src/action.rs\<close>.  A \<open>TypeId\<close> is a natural
  number; an action is its type and its value, and \<open>partial_eq\<close> is the one the derive macro
  generates: the types agree and the values are equal.  The builder functions of the registered
  action types are values of a type parameter.
\<close>

record 'p action =
  action_type :: nat
  action_value :: 'p

definition partial_eq :: "'p action \<Rightarrow> 'p action \<Rightarrow> bool" where
  "partial_eq a b \<longleftrightarrow> (action_type b = action_type a \<and> action_value a = action_value b)"

definition no_action_type :: nat where
  "no_action_type = 0"

definition is_no_action :: "'p action \<Rightarrow> bool" where
  "is_no_action a \<longleftrightarrow> action_type a = no_action_type"

lemma partial_eq_iff: "partial_eq a b \<longleftrightarrow> action_type a = action_type b \<and> action_value a = action_value b"
  by (auto simp: partial_eq_def)

section \<open>The registry\<close>

record 'b action_data =
  data_name :: str
  data_type_id :: nat
  data_build :: 'b
  data_deprecated_aliases :: "str list"
  data_deprecation_message :: "str option"
  data_documentation :: "str option"

record 'b action_registry =
  by_name :: "str \<rightharpoonup> 'b"
  names_by_type_id :: "nat \<rightharpoonup> str"
  all_names :: "str list"
  deprecated_aliases :: "str \<rightharpoonup> str"
  deprecation_messages :: "str \<rightharpoonup> str"
  documentation :: "str \<rightharpoonup> str"

datatype 'e action_build_error = ActionNotFound str | ActionBuildFailed str 'e

definition empty_registry :: "'b action_registry" where
  "empty_registry =
     \<lparr>by_name = Map.empty, names_by_type_id = Map.empty, all_names = [],
      deprecated_aliases = Map.empty, deprecation_messages = Map.empty, documentation = Map.empty\<rparr>"

text \<open>The loop over the deprecated aliases of one action; a name that is taken panics.\<close>

fun insert_aliases :: "str \<Rightarrow> 'b \<Rightarrow> str list \<Rightarrow> 'b action_registry \<Rightarrow> 'b action_registry option" where
  "insert_aliases name build [] r = Some r"
| "insert_aliases name build (alias # aliases) r =
     (if by_name r alias \<noteq> None then None
      else insert_aliases name build aliases
        (r\<lparr>by_name := (by_name r)(alias \<mapsto> build),
           deprecated_aliases := (deprecated_aliases r)(alias \<mapsto> name),
           all_names := all_names r @ [alias]\<rparr>))"

text \<open>The rest of \<open>insert_action\<close>, after the loop over the aliases.\<close>

definition register_names :: "'b action_data \<Rightarrow> 'b action_registry \<Rightarrow> 'b action_registry" where
  "register_names a r =
     (let name = data_name a;
          r = r\<lparr>names_by_type_id := (names_by_type_id r)(data_type_id a \<mapsto> name),
                all_names := all_names r @ [name]\<rparr>;
          r = (case data_deprecation_message a of
                 Some msg \<Rightarrow> r\<lparr>deprecation_messages := (deprecation_messages r)(name \<mapsto> msg)\<rparr>
               | None \<Rightarrow> r)
      in (case data_documentation a of
            Some d \<Rightarrow> r\<lparr>documentation := (documentation r)(name \<mapsto> d)\<rparr>
          | None \<Rightarrow> r))"

definition insert_action :: "'b action_data \<Rightarrow> 'b action_registry \<Rightarrow> 'b action_registry option" where
  "insert_action a r =
     (if by_name r (data_name a) \<noteq> None then None
      else map_option (register_names a)
        (insert_aliases (data_name a) (data_build a) (data_deprecated_aliases a)
           (r\<lparr>by_name := (by_name r)(data_name a \<mapsto> data_build a)\<rparr>)))"

fun load_actions :: "'b action_data list \<Rightarrow> 'b action_registry \<Rightarrow> 'b action_registry option" where
  "load_actions [] r = Some r"
| "load_actions (a # acts) r = do { r \<leftarrow> insert_action a r; load_actions acts r }"

text \<open>A builder is run on the optional data by the argument \<open>run\<close>.\<close>

definition build_action ::
  "('b \<Rightarrow> 'd option \<Rightarrow> 'e + 'p action) \<Rightarrow> 'b action_registry \<Rightarrow> str \<Rightarrow> 'd option \<Rightarrow>
     'e action_build_error + 'p action" where
  "build_action run r name data =
     (case by_name r name of
        None \<Rightarrow> Inl (ActionNotFound name)
      | Some build \<Rightarrow>
          (case run build data of Inl e \<Rightarrow> Inl (ActionBuildFailed name e) | Inr a \<Rightarrow> Inr a))"

datatype 'e build_type_error = NoActionTypeRegistered nat | BuildTypeFailed "'e action_build_error"

definition build_action_type ::
  "('b \<Rightarrow> 'd option \<Rightarrow> 'e + 'p action) \<Rightarrow> 'b action_registry \<Rightarrow> nat \<Rightarrow>
     'e build_type_error + 'p action" where
  "build_action_type run r type_id =
     (case names_by_type_id r type_id of
        None \<Rightarrow> Inl (NoActionTypeRegistered type_id)
      | Some name \<Rightarrow>
          (case build_action run r name None of
             Inl e \<Rightarrow> Inl (BuildTypeFailed e) | Inr a \<Rightarrow> Inr a))"

section \<open>Invariant\<close>

definition registry_inv :: "'b action_registry \<Rightarrow> bool" where
  "registry_inv r \<longleftrightarrow>
     distinct (all_names r) \<and> set (all_names r) = dom (by_name r) \<and>
     (\<forall>a n. deprecated_aliases r a = Some n \<longrightarrow> by_name r n \<noteq> None \<and> by_name r a = by_name r n) \<and>
     ran (names_by_type_id r) \<subseteq> dom (by_name r)"

lemma insert_aliases_None:
  "insert_aliases name build acts r = None \<longleftrightarrow>
     \<not> (distinct acts \<and> set acts \<inter> dom (by_name r) = {})"
proof -
  have "insert_aliases name build acts r = None \<longleftrightarrow> \<not> (distinct acts \<and> (\<forall>x \<in> set acts. by_name r x = None))"
    by (induction name build acts r rule: insert_aliases.induct) auto
  then show ?thesis by (auto simp: disjoint_iff)
qed

lemma insert_aliases_Some:
  assumes "insert_aliases name build acts r = Some r'"
  shows "distinct acts \<and> set acts \<inter> dom (by_name r) = {} \<and>
    by_name r' = (\<lambda>n. if n \<in> set acts then Some build else by_name r n) \<and>
    deprecated_aliases r' = (\<lambda>n. if n \<in> set acts then Some name else deprecated_aliases r n) \<and>
    all_names r' = all_names r @ acts \<and> names_by_type_id r' = names_by_type_id r"
  using assms
proof (induction name build acts r rule: insert_aliases.induct)
  case (2 name build x xs r)
  then show ?case by (auto split: if_splits simp: fun_eq_iff)
qed auto

lemma insert_action_None:
  "insert_action a r = None \<longleftrightarrow>
     \<not> (distinct (data_name a # data_deprecated_aliases a) \<and>
        set (data_name a # data_deprecated_aliases a) \<inter> dom (by_name r) = {})"
  by (auto simp: insert_action_def insert_aliases_None)

lemma register_names_sel:
  "by_name (register_names a r) = by_name r"
  "deprecated_aliases (register_names a r) = deprecated_aliases r"
  "all_names (register_names a r) = all_names r @ [data_name a]"
  "names_by_type_id (register_names a r) = (names_by_type_id r)(data_type_id a \<mapsto> data_name a)"
  by (simp_all add: register_names_def Let_def split: option.split)

lemma insert_action_Some:
  assumes "insert_action a r = Some r'"
  shows "by_name r' = (\<lambda>n. if n \<in> set (data_name a # data_deprecated_aliases a)
      then Some (data_build a) else by_name r n)"
    and "deprecated_aliases r' = (\<lambda>n. if n \<in> set (data_deprecated_aliases a)
      then Some (data_name a) else deprecated_aliases r n)"
    and "all_names r' = all_names r @ data_deprecated_aliases a @ [data_name a]"
    and "names_by_type_id r' = (names_by_type_id r)(data_type_id a \<mapsto> data_name a)"
proof -
  let ?r = "r\<lparr>by_name := (by_name r)(data_name a \<mapsto> data_build a)\<rparr>"
  obtain r1 where r1: "insert_aliases (data_name a) (data_build a) (data_deprecated_aliases a) ?r = Some r1"
    and upd: "by_name r' = by_name r1" "deprecated_aliases r' = deprecated_aliases r1"
      "all_names r' = all_names r1 @ [data_name a]"
      "names_by_type_id r' = (names_by_type_id r1)(data_type_id a \<mapsto> data_name a)"
    using assms by (auto simp: insert_action_def register_names_sel split: if_splits)
  note eqs = insert_aliases_Some[OF r1]
  show "by_name r' = (\<lambda>n. if n \<in> set (data_name a # data_deprecated_aliases a)
      then Some (data_build a) else by_name r n)"
    using eqs by (simp add: upd fun_eq_iff)
  show "deprecated_aliases r' = (\<lambda>n. if n \<in> set (data_deprecated_aliases a)
      then Some (data_name a) else deprecated_aliases r n)"
    using eqs by (simp add: upd fun_eq_iff)
  show "all_names r' = all_names r @ data_deprecated_aliases a @ [data_name a]"
    using eqs by (simp add: upd)
  show "names_by_type_id r' = (names_by_type_id r)(data_type_id a \<mapsto> data_name a)"
    using eqs by (simp add: upd)
qed

lemma insert_action_inv [inv_intros]:
  assumes "registry_inv r" "insert_action a r = Some r'"
  shows "registry_inv r'"
proof -
  note eqs = insert_action_Some[OF assms(2)]
  have fresh: "distinct (data_name a # data_deprecated_aliases a)"
    "set (data_name a # data_deprecated_aliases a) \<inter> dom (by_name r) = {}"
    using assms(2) insert_action_None[of a r] by auto
  have "by_name r' n \<noteq> None \<and> by_name r' x = by_name r' n"
    if "deprecated_aliases r' x = Some n" for x n
  proof (cases "x \<in> set (data_deprecated_aliases a)")
    case True
    then show ?thesis using that by (simp add: eqs)
  next
    case False
    then have old: "by_name r n \<noteq> None" "by_name r x = by_name r n"
      using that assms(1) by (auto simp: eqs registry_inv_def)
    then have "x \<notin> set (data_name a # data_deprecated_aliases a)"
      "n \<notin> set (data_name a # data_deprecated_aliases a)"
      using fresh(2) by (auto simp: disjoint_iff)
    then show ?thesis using old by (simp add: eqs)
  qed
  moreover have "distinct (all_names r')" "set (all_names r') = dom (by_name r')"
    "ran (names_by_type_id r') \<subseteq> dom (by_name r')"
    using assms(1) fresh unfolding registry_inv_def eqs by (auto simp: ran_def split: if_splits)
  ultimately show ?thesis unfolding registry_inv_def by blast
qed

lemma empty_registry_inv [inv_intros]: "registry_inv empty_registry"
  by (simp add: registry_inv_def empty_registry_def)

lemma load_actions_inv: "registry_inv r \<Longrightarrow> load_actions acts r = Some r' \<Longrightarrow> registry_inv r'"
  by (induction acts arbitrary: r) (auto simp: bind_eq_Some_conv intro: inv_intros)

lemma load_actions_keeps:
  "load_actions acts r = Some r' \<Longrightarrow> by_name r n = Some b \<Longrightarrow> by_name r' n = Some b"
proof (induction acts arbitrary: r)
  case (Cons a acts)
  then obtain r1 where r1: "insert_action a r = Some r1" "load_actions acts r1 = Some r'"
    by (auto simp: bind_eq_Some_conv)
  have "n \<notin> set (data_name a # data_deprecated_aliases a)"
    using r1(1) insert_action_None[of a r] Cons.prems(2) by auto
  then have "by_name r1 n = Some b" using Cons.prems(2) insert_action_Some(1)[OF r1(1)] by simp
  with Cons.IH r1(2) show ?case by blast
qed simp

lemma load_actions_by_name:
  "load_actions acts r = Some r' \<Longrightarrow> a \<in> set acts \<Longrightarrow>
     n \<in> set (data_name a # data_deprecated_aliases a) \<Longrightarrow> by_name r' n = Some (data_build a)"
proof (induction acts arbitrary: r)
  case (Cons x acts)
  then obtain r1 where r1: "insert_action x r = Some r1" "load_actions acts r1 = Some r'"
    by (auto simp: bind_eq_Some_conv)
  show ?case
  proof (cases "a = x")
    case True
    then have "by_name r1 n = Some (data_build a)"
      using Cons.prems(3) insert_action_Some(1)[OF r1(1)] by simp
    with r1(2) show ?thesis by (rule load_actions_keeps)
  next
    case False
    with Cons r1 show ?thesis by auto
  qed
qed simp

lemma load_actions_Some_iff:
  "(\<exists>r'. load_actions acts r = Some r') \<longleftrightarrow>
     distinct (concat (map (\<lambda>a. data_name a # data_deprecated_aliases a) acts)) \<and>
     set (concat (map (\<lambda>a. data_name a # data_deprecated_aliases a) acts)) \<inter> dom (by_name r) = {}"
proof (induction acts arbitrary: r)
  case (Cons a acts)
  show ?case
  proof (cases "insert_action a r")
    case None
    then show ?thesis using insert_action_None[of a r] by auto
  next
    case (Some r1)
    have d: "dom (by_name r1) = set (data_name a # data_deprecated_aliases a) \<union> dom (by_name r)"
      unfolding insert_action_Some(1)[OF Some] by (auto split: if_splits)
    have fresh: "distinct (data_name a # data_deprecated_aliases a)"
      "set (data_name a # data_deprecated_aliases a) \<inter> dom (by_name r) = {}"
      using Some insert_action_None[of a r] by auto
    have "(\<exists>r'. load_actions (a # acts) r = Some r') \<longleftrightarrow> (\<exists>r'. load_actions acts r1 = Some r')"
      using Some by simp
    then show ?thesis
      unfolding Cons.IH d list.map concat.simps distinct_append set_append using fresh by blast
  qed
qed auto

section \<open>Properties\<close>

text \<open>C22: loading the registered actions panics exactly when two of their names or deprecated
  aliases coincide.\<close>

theorem load_actions_panics_iff:
  "load_actions acts empty_registry = None \<longleftrightarrow>
     \<not> distinct (concat (map (\<lambda>a. data_name a # data_deprecated_aliases a) acts))"
  using load_actions_Some_iff[of acts empty_registry] by (auto simp: empty_registry_def)

text \<open>After loading, the registry invariant holds and every name and every deprecated alias of
  every registered action builds with that action's own builder.\<close>

theorem load_actions_builds:
  assumes "load_actions acts empty_registry = Some r" "a \<in> set acts"
    "n = data_name a \<or> n \<in> set (data_deprecated_aliases a)"
  shows "registry_inv r \<and> n \<in> set (all_names r) \<and>
    build_action run r n d =
      (case run (data_build a) d of Inl e \<Rightarrow> Inl (ActionBuildFailed n e) | Inr x \<Rightarrow> Inr x)"
proof -
  have inv: "registry_inv r"
    using load_actions_inv[OF empty_registry_inv assms(1)] .
  have "by_name r n = Some (data_build a)"
    using load_actions_by_name[OF assms(1,2)] assms(3) by simp
  with inv show ?thesis by (auto simp: build_action_def registry_inv_def split: sum.splits)
qed

theorem load_actions_builds_witness:
  "build_action (\<lambda>b d. Inr \<lparr>action_type = b, action_value = ()\<rparr> :: unit + unit action)
     (the (load_actions [\<lparr>data_name = ''Copy'', data_type_id = 7, data_build = 7,
        data_deprecated_aliases = [''Yank''], data_deprecation_message = None,
        data_documentation = None\<rparr>] empty_registry)) ''Yank'' (None :: nat option) =
   Inr \<lparr>action_type = (7::nat), action_value = ()\<rparr>"
proof -
  let ?a = "\<lparr>data_name = ''Copy'', data_type_id = 7, data_build = (7::nat),
        data_deprecated_aliases = [''Yank''], data_deprecation_message = None,
        data_documentation = None\<rparr>"
  obtain r where r: "load_actions [?a] empty_registry = Some r"
    using load_actions_Some_iff[of "[?a]" empty_registry] by (auto simp: empty_registry_def)
  from load_actions_builds[OF r, of ?a "''Yank''"
      "\<lambda>b d. Inr \<lparr>action_type = b, action_value = ()\<rparr> :: unit + unit action" "None :: nat option"]
  show ?thesis using r by (simp del: load_actions.simps)
qed

end
