(* ===== verification/Keymap.thy ===== *)
theory Keymap
  imports Keystroke ContextPredicate Actions "HOL-Library.Product_Lexorder"
begin

text \<open>
  Key bindings and the keymap: \<open>crates/lucie/src/keymap/binding.rs\<close> and
  \<open>crates/lucie/src/keymap.rs\<close>.  The keymap is the list of its bindings in the order in which they
  were added, with the two indices the code maintains over them.  The keymap consults a binding's
  predicate only through the depth at which it matches, which is the interface \<open>context_matcher\<close>.
\<close>

section \<open>Key bindings\<close>

record 'p key_binding =
  action :: "'p action"
  keystrokes :: "keybinding_keystroke list"
  context_predicate :: "predicate option"
  meta :: "nat option"
  action_input :: "str option"

text \<open>\<open>str::split_whitespace\<close>.\<close>

fun split_ws_acc :: "str \<Rightarrow> str \<Rightarrow> str list" where
  "split_ws_acc w [] = (if w = [] then [] else [w])"
| "split_ws_acc w (c # s) =
     (if is_whitespace c then (if w = [] then split_ws_acc [] s else w # split_ws_acc [] s)
      else split_ws_acc (w @ [c]) s)"

definition split_whitespace :: "str \<Rightarrow> str list" where
  "split_whitespace s = split_ws_acc [] s"

fun parse_keystrokes ::
  "target_os \<Rightarrow> bool \<Rightarrow> (keystroke \<Rightarrow> bool \<Rightarrow> keybinding_keystroke) \<Rightarrow> str list \<Rightarrow>
     invalid_keystroke_error + keybinding_keystroke list" where
  "parse_keystrokes os eqv mapper [] = Inr []"
| "parse_keystrokes os eqv mapper (source # rest) =
     (case keystroke_parse os source of
        Inl e \<Rightarrow> Inl e
      | Inr ks \<Rightarrow>
          (case parse_keystrokes os eqv mapper rest of
             Inl e \<Rightarrow> Inl e
           | Inr kss \<Rightarrow> Inr (new_with_mapper ks eqv mapper # kss)))"

definition load ::
  "target_os \<Rightarrow> str \<Rightarrow> 'p action \<Rightarrow> predicate option \<Rightarrow> bool \<Rightarrow> str option \<Rightarrow>
     (keystroke \<Rightarrow> bool \<Rightarrow> keybinding_keystroke) \<Rightarrow> invalid_keystroke_error + 'p key_binding" where
  "load os source act pred use_key_equivalents input mapper =
     (case parse_keystrokes os use_key_equivalents mapper (split_whitespace source) of
        Inl e \<Rightarrow> Inl e
      | Inr kss \<Rightarrow>
          Inr \<lparr>action = act, keystrokes = kss, context_predicate = pred, meta = None,
               action_input = input\<rparr>)"

definition with_meta :: "nat \<Rightarrow> 'p key_binding \<Rightarrow> 'p key_binding" where
  "with_meta m b = b\<lparr>meta := Some m\<rparr>"

definition match_keystrokes :: "target_os \<Rightarrow> 'p key_binding \<Rightarrow> keystroke list \<Rightarrow> bool option" where
  "match_keystrokes os b typed =
     (if length (keystrokes b) < length typed then None
      else if list_ex (\<lambda>(target, t). \<not> should_match os t target) (zip (keystrokes b) typed) then None
      else Some (length typed < length (keystrokes b)))"

section \<open>The keymap\<close>

record 'p keymap =
  bindings :: "'p key_binding list"
  binding_indices_by_action_id :: "nat \<rightharpoonup> nat list"
  no_action_binding_indices :: "nat list"
  version :: nat

definition keymap_default :: "'p keymap" where
  "keymap_default =
     \<lparr>bindings = [], binding_indices_by_action_id = Map.empty, no_action_binding_indices = [],
      version = 0\<rparr>"

definition push_index :: "nat \<Rightarrow> nat \<Rightarrow> (nat \<rightharpoonup> nat list) \<Rightarrow> (nat \<rightharpoonup> nat list)" where
  "push_index k ix m = m(k \<mapsto> (case m k of None \<Rightarrow> [] | Some ixs \<Rightarrow> ixs) @ [ix])"

definition add_binding :: "'p key_binding \<Rightarrow> 'p keymap \<Rightarrow> 'p keymap" where
  "add_binding b km =
     (let action_id = action_type (action b);
          km = (if is_no_action (action b) then
                  km\<lparr>no_action_binding_indices :=
                       no_action_binding_indices km @ [length (bindings km)]\<rparr>
                else
                  km\<lparr>binding_indices_by_action_id :=
                       push_index action_id (length (bindings km)) (binding_indices_by_action_id km)\<rparr>)
      in km\<lparr>bindings := bindings km @ [b]\<rparr>)"

definition add_bindings :: "'p key_binding list \<Rightarrow> 'p keymap \<Rightarrow> 'p keymap" where
  "add_bindings bs km = (let km = fold add_binding bs km in km\<lparr>version := version km + 1\<rparr>)"

definition keymap_new :: "'p key_binding list \<Rightarrow> 'p keymap" where
  "keymap_new bs = add_bindings bs keymap_default"

definition keymap_clear :: "'p keymap \<Rightarrow> 'p keymap" where
  "keymap_clear km =
     km\<lparr>bindings := [], binding_indices_by_action_id := Map.empty, no_action_binding_indices := [],
        version := version km + 1\<rparr>"

definition null_binding_matches :: "'p key_binding \<Rightarrow> 'p key_binding \<Rightarrow> bool" where
  "null_binding_matches null_binding b =
     (case (context_predicate null_binding, context_predicate b) of
        (None, _) \<Rightarrow> True
      | (Some _, None) \<Rightarrow> False
      | (Some null_predicate, Some pred) \<Rightarrow> is_superset null_predicate pred)"

text \<open>The inner loop over the indices of the null bindings: is the binding at \<open>ix\<close> disabled?\<close>

fun disabled_by_null ::
  "'p key_binding list \<Rightarrow> nat list \<Rightarrow> nat \<Rightarrow> 'p key_binding \<Rightarrow> bool option" where
  "disabled_by_null bs [] ix b = Some False"
| "disabled_by_null bs (null_ix # rest) ix b =
     (if ix < null_ix then do {
        null_binding \<leftarrow> nth_opt bs null_ix;
        if keystrokes null_binding = keystrokes b \<and> null_binding_matches null_binding b
        then Some True else disabled_by_null bs rest ix b
      } else disabled_by_null bs rest ix b)"

fun bindings_for_indices ::
  "'p key_binding list \<Rightarrow> nat list \<Rightarrow> 'p action \<Rightarrow> nat list \<Rightarrow> 'p key_binding list option" where
  "bindings_for_indices bs nulls act [] = Some []"
| "bindings_for_indices bs nulls act (ix # rest) = do {
     b \<leftarrow> nth_opt bs ix;
     keep \<leftarrow> (if \<not> partial_eq (action b) act then Some False
             else map_option Not (disabled_by_null bs nulls ix b));
     tail \<leftarrow> bindings_for_indices bs nulls act rest;
     Some (if keep then b # tail else tail)
   }"

definition bindings_for_action :: "'p keymap \<Rightarrow> 'p action \<Rightarrow> 'p key_binding list option" where
  "bindings_for_action km act =
     bindings_for_indices (bindings km) (no_action_binding_indices km) act
       (case binding_indices_by_action_id km (action_type act) of None \<Rightarrow> [] | Some ixs \<Rightarrow> ixs)"

definition all_bindings_for_input :: "target_os \<Rightarrow> 'p keymap \<Rightarrow> keystroke list \<Rightarrow> 'p key_binding list" where
  "all_bindings_for_input os km input =
     filter (\<lambda>b. match_keystrokes os b input = Some False) (rev (bindings km))"

definition binding_enabled :: "'p key_binding \<Rightarrow> key_context list \<Rightarrow> nat option" where
  "binding_enabled b contexts =
     (case context_predicate b of
        Some p \<Rightarrow> depth_of p contexts
      | None \<Rightarrow> Some (length contexts))"

text \<open>
  The first loop of \<open>bindings_for_input\<close>, over the bindings from the last to the first: the exact
  matches with their depth and index, and the bindings of which the input is a proper prefix.
\<close>

fun scan_bindings ::
  "target_os \<Rightarrow> keystroke list \<Rightarrow> key_context list \<Rightarrow> (nat \<times> 'p key_binding) list \<Rightarrow>
     (nat \<times> nat \<times> 'p key_binding) list \<times> (nat \<times> 'p key_binding) list" where
  "scan_bindings os input ctxs [] = ([], [])"
| "scan_bindings os input ctxs ((ix, b) # rest) =
     (let (matched, pending) = scan_bindings os input ctxs rest in
      case binding_enabled b ctxs of
        None \<Rightarrow> (matched, pending)
      | Some depth \<Rightarrow>
          (case match_keystrokes os b input of
             None \<Rightarrow> (matched, pending)
           | Some is_pending \<Rightarrow>
               if \<not> is_pending then ((depth, ix, b) # matched, pending)
               else (matched, (ix, b) # pending)))"

text \<open>
  The order of precedence: deeper first, then later first.  The indices are distinct, so the
  stable sort has one result.
\<close>

definition sort_by_precedence ::
  "(nat \<times> nat \<times> 'p key_binding) list \<Rightarrow> (nat \<times> nat \<times> 'p key_binding) list" where
  "sort_by_precedence xs = sort_key (\<lambda>(depth, ix, _). (- int depth, - int ix)) xs"

text \<open>
  The second loop, over the sorted matches: a null binding of the user (no metadata, or metadata 0)
  ends it, another null binding is skipped.
\<close>

fun collect_bindings ::
  "(nat \<times> nat \<times> 'p key_binding) list \<Rightarrow> 'p key_binding list \<Rightarrow> nat option \<Rightarrow>
     'p key_binding list \<times> nat option" where
  "collect_bindings [] bs first_ix = (bs, first_ix)"
| "collect_bindings ((_, ix, b) # rest) bs first_ix =
     (if is_no_action (action b) then
        (case meta b of
           Some m \<Rightarrow> if m = 0 then (bs, first_ix) else collect_bindings rest bs first_ix
         | None \<Rightarrow> (bs, first_ix))
      else collect_bindings rest (bs @ [b])
             (case first_ix of Some i \<Rightarrow> Some i | None \<Rightarrow> Some ix))"

text \<open>The third loop, over the pending bindings from the first to the last.\<close>

fun collect_pending ::
  "nat option \<Rightarrow> (nat \<times> 'p key_binding) list \<Rightarrow> keybinding_keystroke list set \<Rightarrow>
     keybinding_keystroke list set" where
  "collect_pending first_ix [] pending = pending"
| "collect_pending first_ix ((ix, b) # rest) pending =
     (if (case first_ix of Some binding_ix \<Rightarrow> ix < binding_ix | None \<Rightarrow> False) then
        collect_pending first_ix rest pending
      else if is_no_action (action b) then
        collect_pending first_ix rest (Set.remove (keystrokes b) pending)
      else collect_pending first_ix rest (insert (keystrokes b) pending))"

definition bindings_for_input ::
  "target_os \<Rightarrow> 'p keymap \<Rightarrow> keystroke list \<Rightarrow> key_context list \<Rightarrow> 'p key_binding list \<times> bool" where
  "bindings_for_input os km input ctxs =
     (let (matched, pending_bindings) =
            scan_bindings os input ctxs (rev (enumerate 0 (bindings km)));
          (bs, first_ix) = collect_bindings (sort_by_precedence matched) [] None;
          pending = collect_pending first_ix (rev pending_bindings) {}
      in (bs, \<not> Set.is_empty pending))"

definition possible_next_bindings_for_input ::
  "target_os \<Rightarrow> 'p keymap \<Rightarrow> keystroke list \<Rightarrow> key_context list \<Rightarrow> 'p key_binding list" where
  "possible_next_bindings_for_input os km input ctxs =
     map (\<lambda>(_, _, b). b) (sort_by_precedence
       (List.map_filter
          (\<lambda>(ix, b).
             case binding_enabled b ctxs of
               None \<Rightarrow> None
             | Some depth \<Rightarrow>
                 (case match_keystrokes os b input of
                    None \<Rightarrow> None
                  | Some is_pending \<Rightarrow>
                      if \<not> is_pending \<or> is_no_action (action b) then None
                      else Some (depth, ix, b)))
          (rev (enumerate 0 (bindings km)))))"

section \<open>The interface to the context predicates\<close>

text \<open>
  What the keymap relies on: a predicate matches a context stack at some depth that is at most the
  depth of the stack.
\<close>

locale context_matcher =
  fixes match_depth :: "'q \<Rightarrow> 'c list \<Rightarrow> nat option"
  assumes match_depth_le: "match_depth q cs = Some d \<Longrightarrow> d \<le> length cs"
begin

lemma enabled_depth_le:
  "(case pred of Some q \<Rightarrow> match_depth q cs | None \<Rightarrow> Some (length cs)) = Some d \<Longrightarrow> d \<le> length cs"
  by (auto split: option.splits dest: match_depth_le)

lemma global_is_deepest:
  "(case None of Some q \<Rightarrow> match_depth q cs | None \<Rightarrow> Some (length cs)) = Some d \<Longrightarrow>
   (case pred of Some q \<Rightarrow> match_depth q cs | None \<Rightarrow> Some (length cs)) = Some e \<Longrightarrow> e \<le> d"
  using enabled_depth_le by auto

end

interpretation predicate_match: context_matcher depth_of
  by unfold_locales (rule depth_of_le)

lemma binding_enabled_le: "binding_enabled b ctxs = Some d \<Longrightarrow> d \<le> length ctxs"
  unfolding binding_enabled_def by (rule predicate_match.enabled_depth_le)

section \<open>The indices over the bindings\<close>

definition keymap_inv :: "'p keymap \<Rightarrow> bool" where
  "keymap_inv km \<longleftrightarrow>
     no_action_binding_indices km =
       filter (\<lambda>i. is_no_action (action (bindings km ! i))) [0..<length (bindings km)] \<and>
     (\<forall>t. (case binding_indices_by_action_id km t of None \<Rightarrow> [] | Some ixs \<Rightarrow> ixs) =
        filter (\<lambda>i. \<not> is_no_action (action (bindings km ! i)) \<and>
            action_type (action (bindings km ! i)) = t) [0..<length (bindings km)])"

lemma filter_upt_append:
  "filter (\<lambda>i. P ((xs @ [x]) ! i)) [0..<length xs] = filter (\<lambda>i. P (xs ! i)) [0..<length xs]"
  by (rule filter_cong) (auto simp: nth_append)

lemma add_binding_inv:
  assumes "keymap_inv km" shows "keymap_inv (add_binding b km)"
proof -
  note f = filter_upt_append[of "\<lambda>b. is_no_action (action b)" "bindings km" b]
    filter_upt_append[of "\<lambda>b. \<not> is_no_action (action b) \<and> action_type (action b) = t" "bindings km" b for t]
  show ?thesis
    using assms unfolding keymap_inv_def
    by (auto simp: add_binding_def Let_def push_index_def f split: option.splits)
qed

lemma fold_add_binding_inv: "keymap_inv km \<Longrightarrow> keymap_inv (fold add_binding bs km)"
  by (induction bs arbitrary: km) (auto intro: add_binding_inv)

lemma keymap_inv_version [simp]: "keymap_inv (km\<lparr>version := v\<rparr>) = keymap_inv km"
  by (simp add: keymap_inv_def)

lemma keymap_ops_inv [inv_intros]:
  "keymap_inv keymap_default"
  "keymap_inv km \<Longrightarrow> keymap_inv (add_bindings bs km)"
  "keymap_inv (keymap_clear km)"
  by (simp_all add: keymap_inv_def keymap_default_def keymap_clear_def)
     (simp add: add_bindings_def Let_def fold_add_binding_inv flip: keymap_inv_def)

text \<open>The keymaps a program can build.\<close>

inductive keymap_reachable :: "'p keymap \<Rightarrow> bool" where
  reach_new: "keymap_reachable (keymap_new bs)"
| reach_add: "keymap_reachable km \<Longrightarrow> keymap_reachable (add_bindings bs km)"
| reach_clear: "keymap_reachable km \<Longrightarrow> keymap_reachable (keymap_clear km)"

lemma keymap_reachable_inv: "keymap_reachable km \<Longrightarrow> keymap_inv km"
  by (induction rule: keymap_reachable.induct) (auto simp: keymap_new_def intro: inv_intros)

lemma bindings_fold_add [simp]: "bindings (fold add_binding bs km) = bindings km @ bs"
  by (induction bs arbitrary: km) (auto simp: add_binding_def Let_def)

lemma bindings_add_bindings [simp]: "bindings (add_bindings bs km) = bindings km @ bs"
  by (simp add: add_bindings_def Let_def)

section \<open>Bindings of an action\<close>

definition disabled_at :: "'p key_binding list \<Rightarrow> nat \<Rightarrow> bool" where
  "disabled_at bs i \<longleftrightarrow>
     (\<exists>j < length bs. i < j \<and> is_no_action (action (bs ! j)) \<and>
        keystrokes (bs ! j) = keystrokes (bs ! i) \<and> null_binding_matches (bs ! j) (bs ! i))"

lemma disabled_by_null_eq:
  "\<forall>j \<in> set nulls. j < length bs \<Longrightarrow>
     disabled_by_null bs nulls ix b =
       Some (\<exists>j \<in> set nulls. ix < j \<and> keystrokes (bs ! j) = keystrokes b \<and> null_binding_matches (bs ! j) b)"
  by (induction nulls) (auto simp: nth_opt_def)

lemma bindings_for_indices_eq:
  assumes "\<forall>j \<in> set nulls. j < length bs" "\<forall>i \<in> set ixs. i < length bs"
  shows "bindings_for_indices bs nulls act ixs =
    Some (map ((!) bs) (filter (\<lambda>i. partial_eq (action (bs ! i)) act \<and>
      \<not> (\<exists>j \<in> set nulls. i < j \<and> keystrokes (bs ! j) = keystrokes (bs ! i) \<and>
            null_binding_matches (bs ! j) (bs ! i))) ixs))"
  using assms(2)
  by (induction ixs) (auto simp: nth_opt_def disabled_by_null_eq[OF assms(1)])

lemma bindings_for_action_eq:
  assumes "keymap_inv km"
  shows "bindings_for_action km act =
    Some (map ((!) (bindings km)) (filter (\<lambda>i. \<not> is_no_action (action (bindings km ! i)) \<and>
      partial_eq (action (bindings km ! i)) act \<and> \<not> disabled_at (bindings km) i)
      [0..<length (bindings km)]))"
proof -
  let ?bs = "bindings km"
  have nulls: "no_action_binding_indices km = filter (\<lambda>i. is_no_action (action (?bs ! i))) [0..<length ?bs]"
    and ixs: "(case binding_indices_by_action_id km (action_type act) of None \<Rightarrow> [] | Some ixs \<Rightarrow> ixs) =
      filter (\<lambda>i. \<not> is_no_action (action (?bs ! i)) \<and> action_type (action (?bs ! i)) = action_type act)
        [0..<length ?bs]"
    using assms unfolding keymap_inv_def by simp_all
  have "bindings_for_action km act = Some (map ((!) ?bs) (filter (\<lambda>i. partial_eq (action (?bs ! i)) act \<and>
      \<not> (\<exists>j \<in> set (no_action_binding_indices km). i < j \<and> keystrokes (?bs ! j) = keystrokes (?bs ! i) \<and>
            null_binding_matches (?bs ! j) (?bs ! i)))
      (filter (\<lambda>i. \<not> is_no_action (action (?bs ! i)) \<and> action_type (action (?bs ! i)) = action_type act)
        [0..<length ?bs])))"
    unfolding bindings_for_action_def ixs
    by (rule bindings_for_indices_eq) (auto simp: nulls)
  also have "\<dots> = Some (map ((!) ?bs) (filter (\<lambda>i. \<not> is_no_action (action (?bs ! i)) \<and>
      partial_eq (action (?bs ! i)) act \<and> \<not> disabled_at ?bs i) [0..<length ?bs]))"
    unfolding filter_filter nulls disabled_at_def
    by (intro arg_cong[where f = Some] map_cong filter_cong refl) (auto simp: partial_eq_iff)
  finally show ?thesis .
qed

section \<open>Bindings for an input\<close>

definition user_null :: "'p key_binding \<Rightarrow> bool" where
  "user_null b \<longleftrightarrow> is_no_action (action b) \<and> (meta b = None \<or> meta b = Some 0)"

definition exact_match :: "target_os \<Rightarrow> 'p keymap \<Rightarrow> keystroke list \<Rightarrow> key_context list \<Rightarrow> nat \<Rightarrow> nat \<Rightarrow> bool" where
  "exact_match os km input ctxs d i \<longleftrightarrow> i < length (bindings km) \<and>
     binding_enabled (bindings km ! i) ctxs = Some d \<and>
     match_keystrokes os (bindings km ! i) input = Some False"

definition prefix_match :: "target_os \<Rightarrow> 'p keymap \<Rightarrow> keystroke list \<Rightarrow> key_context list \<Rightarrow> nat \<Rightarrow> bool" where
  "prefix_match os km input ctxs i \<longleftrightarrow> i < length (bindings km) \<and>
     binding_enabled (bindings km ! i) ctxs \<noteq> None \<and>
     match_keystrokes os (bindings km ! i) input = Some True"

text \<open>The order of precedence on pairs of a depth and an index.\<close>

definition outranks :: "nat \<times> nat \<Rightarrow> nat \<times> nat \<Rightarrow> bool" where
  "outranks x y \<longleftrightarrow> fst y < fst x \<or> (fst x = fst y \<and> snd y < snd x)"

lemma enumerate_0: "enumerate 0 xs = map (\<lambda>i. (i, xs ! i)) [0..<length xs]"
  by (rule nth_equalityI) (auto simp: nth_enumerate_eq)

lemma scan_bindings_eq:
  "scan_bindings os input ctxs xs =
     (List.map_filter (\<lambda>(ix, b). case binding_enabled b ctxs of None \<Rightarrow> None
        | Some d \<Rightarrow> if match_keystrokes os b input = Some False then Some (d, ix, b) else None) xs,
      filter (\<lambda>(ix, b). binding_enabled b ctxs \<noteq> None \<and> match_keystrokes os b input = Some True) xs)"
  by (induction xs) (auto simp: map_filter_simps Let_def split: option.splits prod.splits)

lemma case_if_Some:
  "(case e of None \<Rightarrow> None | Some d \<Rightarrow> if P then Some (g d) else None) = Some x \<longleftrightarrow>
     (\<exists>d. e = Some d \<and> P \<and> x = g d)"
  by (auto split: option.splits)

lemma map_filter_map: "map g (List.map_filter f xs) = List.map_filter (map_option g \<circ> f) xs"
  by (induction xs) (auto simp: map_filter_simps split: option.splits)

lemma distinct_map_filter:
  assumes "distinct (map h xs)" "\<And>x y. f x = Some y \<Longrightarrow> g y = h x"
  shows "distinct (map g (List.map_filter f xs))"
  using assms
  by (induction xs) (fastforce simp: map_filter_simps in_map_filter split: option.splits)+

definition matched_bindings ::
  "target_os \<Rightarrow> 'p keymap \<Rightarrow> keystroke list \<Rightarrow> key_context list \<Rightarrow> (nat \<times> nat \<times> 'p key_binding) list" where
  "matched_bindings os km input ctxs =
     fst (scan_bindings os input ctxs (rev (enumerate 0 (bindings km))))"

definition precedence :: "nat \<times> nat \<times> 'p key_binding \<Rightarrow> nat \<times> nat" where
  "precedence x = (fst x, fst (snd x))"

lemma set_matched_bindings:
  "set (matched_bindings os km input ctxs) =
     {(d, i, bindings km ! i) | d i. exact_match os km input ctxs d i}"
  by (force simp: matched_bindings_def scan_bindings_eq in_map_filter enumerate_0 exact_match_def
      case_if_Some)

lemma distinct_matched_ix: "distinct (map (\<lambda>(d, ix, b). ix) (matched_bindings os km input ctxs))"
  unfolding matched_bindings_def scan_bindings_eq fst_conv
  by (rule distinct_map_filter[where h = fst])
     (auto simp: enumerate_0 rev_map[symmetric] comp_def split: option.splits if_splits)

lemma sort_by_precedence_sorted:
  assumes "distinct (map (\<lambda>(d, ix, b). ix) xs)"
  shows "sorted_wrt (\<lambda>x y. outranks (precedence x) (precedence y)) (sort_by_precedence xs)"
    "set (sort_by_precedence xs) = set xs"
proof -
  let ?k = "\<lambda>(depth, ix, b). (- int depth, - int ix)"
  have "distinct (map ?k xs)"
  proof -
    have "map (\<lambda>(d, ix, b). ix) xs = map (\<lambda>p. nat (- snd p)) (map ?k xs)" by auto
    with assms have "distinct (map (\<lambda>p. nat (- snd p)) (map ?k xs))" by simp
    then show ?thesis unfolding distinct_map[of _ "map ?k xs"] by (rule conjunct1)
  qed
  then have "distinct (map ?k (sort_by_precedence xs))"
    by (simp add: sort_by_precedence_def distinct_map)
  then have "sorted_wrt (<) (map ?k (sort_by_precedence xs))"
    by (simp add: strict_sorted_iff sort_by_precedence_def)
  then show "sorted_wrt (\<lambda>x y. outranks (precedence x) (precedence y)) (sort_by_precedence xs)"
    unfolding sorted_wrt_map
    by (rule sorted_wrt_mono_rel[rotated]) (auto simp: outranks_def precedence_def split: prod.splits)
  show "set (sort_by_precedence xs) = set xs" by (simp add: sort_by_precedence_def)
qed

lemma in_takeWhile_sorted:
  assumes "sorted_wrt R xs" "\<And>x y. R x y \<Longrightarrow> \<not> R y x"
  shows "x \<in> set (takeWhile P xs) \<longleftrightarrow> x \<in> set xs \<and> P x \<and> (\<forall>y \<in> set xs. R y x \<longrightarrow> P y)"
  using assms by (induction xs) auto

lemma collect_bindings_eq:
  "collect_bindings xs bs f =
     (let kept = filter (\<lambda>(_, _, b). \<not> is_no_action (action b)) (takeWhile (\<lambda>(_, _, b). \<not> user_null b) xs)
      in (bs @ map (\<lambda>(_, _, b). b) kept,
          case f of Some i \<Rightarrow> Some i
          | None \<Rightarrow> (case kept of [] \<Rightarrow> None | (_, i, _) # _ \<Rightarrow> Some i)))"
  by (induction xs bs f rule: collect_bindings.induct)
     (auto simp: Let_def user_null_def split: option.splits)

lemma collect_pending_append:
  "collect_pending f (xs @ ys) S = collect_pending f ys (collect_pending f xs S)"
  by (induction f xs S rule: collect_pending.induct) auto

lemma collect_pending_iff:
  assumes "sorted_wrt (<) is"
  shows "ks \<in> collect_pending f (map (\<lambda>i. (i, bs ! i)) is) {} \<longleftrightarrow>
    (\<exists>i \<in> set is. (case f of Some k \<Rightarrow> k \<le> i | None \<Rightarrow> True) \<and> \<not> is_no_action (action (bs ! i)) \<and>
       keystrokes (bs ! i) = ks \<and>
       \<not> (\<exists>j \<in> set is. i < j \<and> (case f of Some k \<Rightarrow> k \<le> j | None \<Rightarrow> True) \<and>
            is_no_action (action (bs ! j)) \<and> keystrokes (bs ! j) = ks))"
  using assms
proof (induction "is" rule: rev_induct)
  case Nil
  then show ?case by simp
next
  case (snoc m ms)
  then have lt: "\<forall>i \<in> set ms. i < m" and s: "sorted_wrt (<) ms" by (auto simp: sorted_wrt_append)
  show ?case
    using snoc.IH[OF s] lt
    by (auto simp: collect_pending_append split: option.splits)
qed

definition first_is_before :: "(nat \<times> nat) list \<Rightarrow> nat \<Rightarrow> bool" where
  "first_is_before ixs i \<longleftrightarrow> (case ixs of [] \<Rightarrow> True | (_, k) # _ \<Rightarrow> k \<le> i)"

lemma outranks_asym: "outranks x y \<Longrightarrow> \<not> outranks y x"
  by (auto simp: outranks_def)

lemma bindings_for_input_eq:
  "\<exists>ixs. fst (bindings_for_input os km input ctxs) = map (\<lambda>(d, i). bindings km ! i) ixs \<and>
     sorted_wrt outranks ixs \<and>
     (\<forall>d i. (d, i) \<in> set ixs \<longleftrightarrow>
        exact_match os km input ctxs d i \<and> \<not> is_no_action (action (bindings km ! i)) \<and>
        \<not> (\<exists>e j. exact_match os km input ctxs e j \<and> outranks (e, j) (d, i) \<and> user_null (bindings km ! j))) \<and>
     (snd (bindings_for_input os km input ctxs) \<longleftrightarrow>
        (\<exists>i. prefix_match os km input ctxs i \<and> first_is_before ixs i \<and>
           \<not> is_no_action (action (bindings km ! i)) \<and>
           \<not> (\<exists>j. i < j \<and> prefix_match os km input ctxs j \<and> is_no_action (action (bindings km ! j)) \<and>
                keystrokes (bindings km ! j) = keystrokes (bindings km ! i))))"
proof -
  let ?bs = "bindings km"
  let ?sorted = "sort_by_precedence (matched_bindings os km input ctxs)"
  let ?kept = "filter (\<lambda>(_, _, b). \<not> is_no_action (action b)) (takeWhile (\<lambda>(_, _, b). \<not> user_null b) ?sorted)"
  let ?ixs = "map precedence ?kept"
  let ?ps = "filter (\<lambda>i. prefix_match os km input ctxs i) [0..<length ?bs]"
  have srt: "sorted_wrt (\<lambda>x y. outranks (precedence x) (precedence y)) ?sorted"
    and set: "set ?sorted = {(d, i, ?bs ! i) | d i. exact_match os km input ctxs d i}"
    using sort_by_precedence_sorted[OF distinct_matched_ix, of os km input ctxs]
    by (simp_all add: set_matched_bindings)
  have kept: "x \<in> set ?kept \<longleftrightarrow> (\<exists>d i. x = (d, i, ?bs ! i) \<and> exact_match os km input ctxs d i \<and>
      \<not> is_no_action (action (?bs ! i)) \<and>
      \<not> (\<exists>e j. exact_match os km input ctxs e j \<and> outranks (e, j) (d, i) \<and> user_null (?bs ! j)))" for x
  proof -
    have "x \<in> set ?kept \<longleftrightarrow> x \<in> set ?sorted \<and> \<not> user_null (snd (snd x)) \<and>
        \<not> is_no_action (action (snd (snd x))) \<and>
        (\<forall>y \<in> set ?sorted. outranks (precedence y) (precedence x) \<longrightarrow> \<not> user_null (snd (snd y)))"
      using in_takeWhile_sorted[OF srt, of x "\<lambda>(_, _, b). \<not> user_null b"] outranks_asym
      by (auto simp: split_def)
    also have "\<dots> \<longleftrightarrow> (\<exists>d i. x = (d, i, ?bs ! i) \<and> exact_match os km input ctxs d i \<and>
        \<not> is_no_action (action (?bs ! i)) \<and>
        \<not> (\<exists>e j. exact_match os km input ctxs e j \<and> outranks (e, j) (d, i) \<and> user_null (?bs ! j)))"
      unfolding set by (auto simp: precedence_def user_null_def)
    finally show ?thesis .
  qed
  have pend: "rev (snd (scan_bindings os input ctxs (rev (enumerate 0 ?bs)))) = map (\<lambda>i. (i, ?bs ! i)) ?ps"
    unfolding scan_bindings_eq snd_conv rev_filter[symmetric] rev_rev_ident enumerate_0 filter_map
    by (intro map_cong filter_cong refl) (auto simp: prefix_match_def)
  let ?f = "case ?kept of [] \<Rightarrow> None | (_, i, _) # _ \<Rightarrow> Some i"
  have bfi: "bindings_for_input os km input ctxs =
      (map (\<lambda>(_, _, b). b) ?kept, collect_pending ?f (map (\<lambda>i. (i, ?bs ! i)) ?ps) {} \<noteq> {})"
    unfolding bindings_for_input_def pend[symmetric] matched_bindings_def
    by (simp add: Let_def collect_bindings_eq split_def)
  have f: "(case ?f of Some k \<Rightarrow> k \<le> i | None \<Rightarrow> True) = first_is_before ?ixs i" for i
    by (cases ?kept) (auto simp: first_is_before_def precedence_def)
  have sorted_ps: "sorted_wrt (<) ?ps" by (simp add: sorted_wrt_filter)
  have "fst (bindings_for_input os km input ctxs) = map (\<lambda>(d, i). ?bs ! i) ?ixs"
    unfolding bfi fst_conv map_map
    by (rule map_cong[OF refl], subst (asm) kept) (auto simp: precedence_def)
  moreover have "sorted_wrt outranks ?ixs"
    using srt unfolding sorted_wrt_map by (intro sorted_wrt_filter sorted_wrt_takeWhile)
  moreover have "(d, i) \<in> set ?ixs \<longleftrightarrow>
        exact_match os km input ctxs d i \<and> \<not> is_no_action (action (?bs ! i)) \<and>
        \<not> (\<exists>e j. exact_match os km input ctxs e j \<and> outranks (e, j) (d, i) \<and> user_null (?bs ! j))" for d i
    unfolding set_map image_iff Bex_def kept by (auto simp: precedence_def)
  moreover have "snd (bindings_for_input os km input ctxs) \<longleftrightarrow>
      (\<exists>i. prefix_match os km input ctxs i \<and> first_is_before ?ixs i \<and> \<not> is_no_action (action (?bs ! i)) \<and>
           \<not> (\<exists>j. i < j \<and> prefix_match os km input ctxs j \<and> is_no_action (action (?bs ! j)) \<and>
                keystrokes (?bs ! j) = keystrokes (?bs ! i)))"
  proof -
    have before: "first_is_before ?ixs i \<Longrightarrow> i < j \<Longrightarrow> first_is_before ?ixs j" for i j
      by (auto simp: first_is_before_def split: list.splits)
    have ps: "i \<in> set ?ps \<longleftrightarrow> prefix_match os km input ctxs i" for i
      by (auto simp: prefix_match_def)
    have "snd (bindings_for_input os km input ctxs) \<longleftrightarrow>
      (\<exists>ks. ks \<in> collect_pending ?f (map (\<lambda>i. (i, ?bs ! i)) ?ps) {})"
      unfolding bfi by auto
    then show ?thesis
      unfolding collect_pending_iff[OF sorted_ps] f Bex_def ps using before by blast
  qed
  ultimately show ?thesis by blast
qed

lemma possible_next_set:
  "set (possible_next_bindings_for_input os km input ctxs) =
     {bindings km ! i | i. prefix_match os km input ctxs i \<and> \<not> is_no_action (action (bindings km ! i))}"
proof -
  have f: "(\<lambda>(ix, b). case binding_enabled b ctxs of None \<Rightarrow> None
     | Some depth \<Rightarrow> (case match_keystrokes os b input of None \<Rightarrow> None
         | Some is_pending \<Rightarrow> if \<not> is_pending \<or> is_no_action (action b) then None else Some (depth, ix, b))) =
     (\<lambda>(ix, b). case binding_enabled b ctxs of None \<Rightarrow> None
     | Some depth \<Rightarrow> if match_keystrokes os b input = Some True \<and> \<not> is_no_action (action b)
         then Some (depth, ix, b) else None)"
    by (auto simp: fun_eq_iff split: option.splits)
  show ?thesis
    unfolding possible_next_bindings_for_input_def f sort_by_precedence_def
    by (force simp: in_map_filter enumerate_0 case_if_Some prefix_match_def image_iff)
qed

section \<open>Properties\<close>

text \<open>In every keymap a program can build, \<open>bindings_for_action\<close> does not panic and returns, in
  the order in which they were added, the bindings whose action equals the given one and that no
  later null binding with the same keystrokes and a covering context disables.\<close>

theorem bindings_for_action_spec:
  assumes "keymap_reachable km"
  shows "bindings_for_action km act =
    Some (map ((!) (bindings km)) (filter (\<lambda>i. \<not> is_no_action (action (bindings km ! i)) \<and>
      partial_eq (action (bindings km ! i)) act \<and> \<not> disabled_at (bindings km) i)
      [0..<length (bindings km)]))"
  using bindings_for_action_eq keymap_reachable_inv[OF assms] by blast

theorem bindings_for_action_spec_witness:
  "bindings_for_action
     (keymap_new [\<lparr>action = \<lparr>action_type = 1, action_value = ()\<rparr>, keystrokes = [],
        context_predicate = None, meta = None, action_input = None\<rparr>])
     \<lparr>action_type = 1, action_value = ()\<rparr> =
   Some [\<lparr>action = \<lparr>action_type = 1, action_value = ()\<rparr>, keystrokes = [],
        context_predicate = None, meta = None, action_input = None\<rparr>]"
  using bindings_for_action_spec[OF reach_new, of "[\<lparr>action = \<lparr>action_type = 1, action_value = ()\<rparr>,
      keystrokes = [], context_predicate = None, meta = None, action_input = None\<rparr>]"
      "\<lparr>action_type = 1, action_value = ()\<rparr>"]
  by (simp add: keymap_new_def is_no_action_def no_action_type_def partial_eq_def disabled_at_def
      keymap_default_def)

text \<open>C2: \<open>bindings_for_input\<close> returns, deepest context first and later addition first within a
  depth, exactly the enabled bindings that match the whole input, are not null bindings and are
  outranked by no matching null binding of the user; and it reports a pending match exactly when
  some enabled binding has the input as a proper prefix, was not added before the first returned
  binding and is disabled by no later enabled null binding with the same keystrokes.\<close>

theorem bindings_for_input_spec:
  "\<exists>ixs. fst (bindings_for_input os km input ctxs) = map (\<lambda>(d, i). bindings km ! i) ixs \<and>
     sorted_wrt outranks ixs \<and>
     (\<forall>d i. (d, i) \<in> set ixs \<longleftrightarrow>
        exact_match os km input ctxs d i \<and> \<not> is_no_action (action (bindings km ! i)) \<and>
        \<not> (\<exists>e j. exact_match os km input ctxs e j \<and> outranks (e, j) (d, i) \<and> user_null (bindings km ! j))) \<and>
     (snd (bindings_for_input os km input ctxs) \<longleftrightarrow>
        (\<exists>i. prefix_match os km input ctxs i \<and> first_is_before ixs i \<and>
           \<not> is_no_action (action (bindings km ! i)) \<and>
           \<not> (\<exists>j. i < j \<and> prefix_match os km input ctxs j \<and> is_no_action (action (bindings km ! j)) \<and>
                keystrokes (bindings km ! j) = keystrokes (bindings km ! i))))"
  by (rule bindings_for_input_eq)

text \<open>Adding a null binding without a context and without metadata unbinds its keystrokes
  everywhere: on an input it matches, no binding is returned in any context stack.\<close>

theorem global_null_unbinds:
  assumes "is_no_action (action b)" "context_predicate b = None" "meta b = None"
    "match_keystrokes os b input = Some False"
  shows "fst (bindings_for_input os (add_bindings [b] km) input ctxs) = []"
proof -
  let ?km = "add_bindings [b] km"
  obtain ixs where ixs: "fst (bindings_for_input os ?km input ctxs) = map (\<lambda>(d, i). bindings ?km ! i) ixs"
    "\<And>d i. (d, i) \<in> set ixs \<longleftrightarrow>
        exact_match os ?km input ctxs d i \<and> \<not> is_no_action (action (bindings ?km ! i)) \<and>
        \<not> (\<exists>e j. exact_match os ?km input ctxs e j \<and> outranks (e, j) (d, i) \<and> user_null (bindings ?km ! j))"
    using bindings_for_input_eq[of os ?km input ctxs] by blast
  have null: "exact_match os ?km input ctxs (length ctxs) (length (bindings km))"
    using assms by (simp add: exact_match_def binding_enabled_def)
  have "(d, i) \<notin> set ixs" for d i
  proof
    assume a: "(d, i) \<in> set ixs"
    then have e: "exact_match os ?km input ctxs d i" "\<not> is_no_action (action (bindings ?km ! i))"
      using ixs(2) by blast+
    then have "i < length (bindings km)" "d \<le> length ctxs"
      using assms(1) binding_enabled_le by (auto simp: exact_match_def less_Suc_eq)
    then have "outranks (length ctxs, length (bindings km)) (d, i)" by (auto simp: outranks_def)
    moreover have "user_null (bindings ?km ! length (bindings km))"
      using assms(1,3) by (simp add: user_null_def)
    ultimately show False using a null ixs(2)[of d i] by blast
  qed
  then have "ixs = []" by (cases ixs) auto
  with ixs(1) show ?thesis by simp
qed

theorem global_null_unbinds_witness:
  "fst (bindings_for_input Linux
     (add_bindings [\<lparr>action = \<lparr>action_type = 0, action_value = ()\<rparr>, keystrokes = [],
        context_predicate = None, meta = None, action_input = None\<rparr>] keymap_default) [] []) = []"
  by (rule global_null_unbinds)
     (simp_all add: is_no_action_def no_action_type_def match_keystrokes_def)

end
