(* ===== verification/DispatchTree.thy ===== *)
theory DispatchTree
  imports Keymap
begin

text \<open>
  The dispatch tree of a frame: \<open>crates/lucie/src/key_dispatch.rs\<close>.  Nodes live in a growing list
  and refer to their parent by index; the three stacks keep the node, context and view path of the
  node being built, with the top at the end, as the code's vectors have it.  Listeners are values of
  a type parameter.  The keymap and the action registry are shared handles in the code and arguments
  here.  A walk along the parents is a \<open>partial_function\<close>: \<open>None\<close> is a panic or a walk that
  does not end.
\<close>

section \<open>State\<close>

record 'l dispatch_node =
  key_listeners :: "'l list"
  action_listeners :: "(nat \<times> 'l) list"
  modifiers_changed_listeners :: "'l list"
  node_context :: "key_context option"
  focus_id :: "nat option"
  view_id :: "nat option"
  parent :: "nat option"

record 'l dispatch_tree =
  node_stack :: "nat list"
  context_stack :: "key_context list"
  view_stack :: "nat list"
  nodes :: "'l dispatch_node list"
  focusable_node_ids :: "nat \<rightharpoonup> nat"
  view_node_ids :: "nat \<rightharpoonup> nat"

record reused_subtree =
  old_range :: "nat \<times> nat"
  new_range :: "nat \<times> nat"
  contains_focus :: bool

text \<open>The node identifier moved from the old frame to the new one; \<open>None\<close> is the failed
  assertion of a debug build, or the subtraction that underflows.\<close>

definition refresh_node_id :: "reused_subtree \<Rightarrow> nat \<Rightarrow> nat option" where
  "refresh_node_id s nid =
     (if fst (old_range s) \<le> nid \<and> nid < snd (old_range s)
      then Some ((nid - fst (old_range s)) + fst (new_range s)) else None)"

definition default_node :: "'l dispatch_node" where
  "default_node = \<lparr>key_listeners = [], action_listeners = [], modifiers_changed_listeners = [],
     node_context = None, focus_id = None, view_id = None, parent = None\<rparr>"

definition tree_new :: "'l dispatch_tree" where
  "tree_new = \<lparr>node_stack = [], context_stack = [], view_stack = [], nodes = [],
     focusable_node_ids = Map.empty, view_node_ids = Map.empty\<rparr>"

definition tree_clear :: "'l dispatch_tree \<Rightarrow> 'l dispatch_tree" where
  "tree_clear t = t\<lparr>node_stack := [], context_stack := [], view_stack := [], nodes := [],
     focusable_node_ids := Map.empty, view_node_ids := Map.empty\<rparr>"

definition tree_len :: "'l dispatch_tree \<Rightarrow> nat" where
  "tree_len t = length (nodes t)"

section \<open>Building the tree\<close>

definition active_node_id :: "'l dispatch_tree \<Rightarrow> nat option" where
  "active_node_id t = last_opt (node_stack t)"

definition push_node :: "'l dispatch_tree \<Rightarrow> 'l dispatch_tree \<times> nat" where
  "push_node t =
     (let par = last_opt (node_stack t); node_id = length (nodes t) in
      (t\<lparr>nodes := nodes t @ [default_node\<lparr>parent := par\<rparr>],
         node_stack := node_stack t @ [node_id]\<rparr>, node_id))"

text \<open>\<open>active_node\<close>: the update \<open>f\<close> of the node on top of the stack; \<open>unwrap\<close> and the index panic.\<close>

definition update_active ::
  "('l dispatch_node \<Rightarrow> 'l dispatch_node) \<Rightarrow> 'l dispatch_tree \<Rightarrow> 'l dispatch_tree option" where
  "update_active f t = do {
     nid \<leftarrow> active_node_id t;
     n \<leftarrow> nth_opt (nodes t) nid;
     Some (t\<lparr>nodes := (nodes t)[nid := f n]\<rparr>)
   }"

definition pop_node :: "'l dispatch_tree \<Rightarrow> 'l dispatch_tree option" where
  "pop_node t = do {
     nid \<leftarrow> active_node_id t;
     n \<leftarrow> nth_opt (nodes t) nid;
     Some (t\<lparr>context_stack := (if node_context n \<noteq> None then butlast (context_stack t) else context_stack t),
             view_stack := (if view_id n \<noteq> None then butlast (view_stack t) else view_stack t),
             node_stack := butlast (node_stack t)\<rparr>)
   }"

definition set_key_context :: "key_context \<Rightarrow> 'l dispatch_tree \<Rightarrow> 'l dispatch_tree option" where
  "set_key_context c t = do {
     t \<leftarrow> update_active (\<lambda>n. n\<lparr>node_context := Some c\<rparr>) t;
     Some (t\<lparr>context_stack := context_stack t @ [c]\<rparr>)
   }"

definition set_focus_id :: "nat \<Rightarrow> 'l dispatch_tree \<Rightarrow> 'l dispatch_tree option" where
  "set_focus_id f t = do {
     nid \<leftarrow> active_node_id t;
     t \<leftarrow> update_active (\<lambda>n. n\<lparr>focus_id := Some f\<rparr>) t;
     Some (t\<lparr>focusable_node_ids := (focusable_node_ids t)(f \<mapsto> nid)\<rparr>)
   }"

definition set_view_id :: "nat \<Rightarrow> 'l dispatch_tree \<Rightarrow> 'l dispatch_tree option" where
  "set_view_id v t =
     (if last_opt (view_stack t) \<noteq> Some v then do {
        nid \<leftarrow> active_node_id t;
        t \<leftarrow> update_active (\<lambda>n. n\<lparr>view_id := Some v\<rparr>) t;
        Some (t\<lparr>view_node_ids := (view_node_ids t)(v \<mapsto> nid), view_stack := view_stack t @ [v]\<rparr>)
      } else Some t)"

lemma pop_node_shrinks: "pop_node t = Some t' \<Longrightarrow> length (node_stack t') < length (node_stack t)"
  by (auto simp: pop_node_def active_node_id_def bind_eq_Some_conv last_opt_Some)

text \<open>The first loop of \<open>set_active_node\<close>: pop until the parent of the node is on top.\<close>

function pop_until :: "nat option \<Rightarrow> 'l dispatch_tree \<Rightarrow> 'l dispatch_tree option" where
  "pop_until next_parent t =
     (if last_opt (node_stack t) \<noteq> next_parent \<and> node_stack t \<noteq> [] then
        (case pop_node t of None \<Rightarrow> None | Some t' \<Rightarrow> pop_until next_parent t')
      else Some t)"
  by pat_completeness auto
termination
  by (relation "measure (\<lambda>(p, t). length (node_stack t))") (auto dest: pop_node_shrinks)

declare pop_until.simps [simp del]

text \<open>The second loop: climb from the node to its root, pushing contexts, views and nodes.\<close>

partial_function (option) climb :: "nat option \<Rightarrow> 'l dispatch_tree \<Rightarrow> 'l dispatch_tree option" where
  "climb current t =
     (case current of
        None \<Rightarrow> Some t
      | Some nid \<Rightarrow>
          (case nth_opt (nodes t) nid of
             None \<Rightarrow> None
           | Some n \<Rightarrow>
               climb (parent n)
                 (t\<lparr>context_stack := context_stack t @ (case node_context n of Some c \<Rightarrow> [c] | None \<Rightarrow> []),
                    view_stack := view_stack t @ (case view_id n of Some v \<Rightarrow> [v] | None \<Rightarrow> []),
                    node_stack := node_stack t @ [nid]\<rparr>)))"

definition set_active_node :: "nat \<Rightarrow> 'l dispatch_tree \<Rightarrow> 'l dispatch_tree option" where
  "set_active_node node_id t = do {
     n \<leftarrow> nth_opt (nodes t) node_id;
     t \<leftarrow> pop_until (parent n) t;
     if last_opt (node_stack t) = parent n then
       Some (t\<lparr>node_stack := node_stack t @ [node_id],
               view_stack := view_stack t @ (case view_id n of Some v \<Rightarrow> [v] | None \<Rightarrow> []),
               context_stack := context_stack t @ (case node_context n of Some c \<Rightarrow> [c] | None \<Rightarrow> [])\<rparr>)
     else do {
       t \<leftarrow> climb (Some node_id) t;
       Some (t\<lparr>context_stack := rev (context_stack t), view_stack := rev (view_stack t),
               node_stack := rev (node_stack t)\<rparr>)
     }
   }"

definition on_key_event :: "'l \<Rightarrow> 'l dispatch_tree \<Rightarrow> 'l dispatch_tree option" where
  "on_key_event l = update_active (\<lambda>n. n\<lparr>key_listeners := key_listeners n @ [l]\<rparr>)"

definition on_modifiers_changed :: "'l \<Rightarrow> 'l dispatch_tree \<Rightarrow> 'l dispatch_tree option" where
  "on_modifiers_changed l =
     update_active (\<lambda>n. n\<lparr>modifiers_changed_listeners := modifiers_changed_listeners n @ [l]\<rparr>)"

definition on_action :: "nat \<Rightarrow> 'l \<Rightarrow> 'l dispatch_tree \<Rightarrow> 'l dispatch_tree option" where
  "on_action type_id l =
     update_active (\<lambda>n. n\<lparr>action_listeners := action_listeners n @ [(type_id, l)]\<rparr>)"

definition remove_ids :: "nat option list \<Rightarrow> (nat \<rightharpoonup> nat) \<Rightarrow> (nat \<rightharpoonup> nat)" where
  "remove_ids ids m = fold (\<lambda>i m. case i of Some k \<Rightarrow> m(k := None) | None \<Rightarrow> m) ids m"

definition truncate :: "nat \<Rightarrow> 'l dispatch_tree \<Rightarrow> 'l dispatch_tree option" where
  "truncate index t =
     (if length (nodes t) < index then None
      else Some (t\<lparr>focusable_node_ids := remove_ids (map focus_id (drop index (nodes t))) (focusable_node_ids t),
                   view_node_ids := remove_ids (map view_id (drop index (nodes t))) (view_node_ids t),
                   nodes := take index (nodes t)\<rparr>))"

section \<open>Reusing a subtree of the previous frame\<close>

text \<open>\<open>move_node\<close>: the tree with the node appended; the source node loses its listeners.\<close>

definition move_node :: "'l dispatch_node \<Rightarrow> 'l dispatch_tree \<Rightarrow> ('l dispatch_tree \<times> 'l dispatch_node) option" where
  "move_node source t = do {
     let t = fst (push_node t);
     t \<leftarrow> (case node_context source of Some c \<Rightarrow> set_key_context c t | None \<Rightarrow> Some t);
     t \<leftarrow> (case focus_id source of Some f \<Rightarrow> set_focus_id f t | None \<Rightarrow> Some t);
     t \<leftarrow> (case view_id source of Some v \<Rightarrow> set_view_id v t | None \<Rightarrow> Some t);
     t \<leftarrow> update_active (\<lambda>n. n\<lparr>key_listeners := key_listeners source,
             action_listeners := action_listeners source,
             modifiers_changed_listeners := modifiers_changed_listeners source\<rparr>) t;
     Some (t, source\<lparr>key_listeners := [], action_listeners := [], modifiers_changed_listeners := []\<rparr>)
   }"

text \<open>The inner \<open>while\<close>: leave the source nodes that are not the parent of the next one.  The
  source stack has its top at the head.\<close>

fun leave_ancestors :: "nat option \<Rightarrow> nat list \<Rightarrow> 'l dispatch_tree \<Rightarrow> (nat list \<times> 'l dispatch_tree) option" where
  "leave_ancestors par [] t = Some ([], t)"
| "leave_ancestors par (a # stack) t =
     (if par = Some a then Some (a # stack, t)
      else (case pop_node t of None \<Rightarrow> None | Some t' \<Rightarrow> leave_ancestors par stack t'))"

fun reuse_loop ::
  "nat option \<Rightarrow> (nat \<times> 'l dispatch_node) list \<Rightarrow> nat list \<Rightarrow> bool \<Rightarrow> 'l dispatch_node list \<Rightarrow>
     'l dispatch_tree \<Rightarrow> (nat list \<times> bool \<times> 'l dispatch_node list \<times> 'l dispatch_tree) option" where
  "reuse_loop focus [] stack found srcs t = Some (stack, found, srcs, t)"
| "reuse_loop focus ((source_id, source) # rest) stack found srcs t = do {
     (stack, t) \<leftarrow> leave_ancestors (parent source) stack t;
     let found = (found \<or> (focus_id source \<noteq> None \<and> focus_id source = focus));
     (t, source') \<leftarrow> move_node source t;
     reuse_loop focus rest (source_id # stack) found (srcs @ [source']) t
   }"

fun pop_times :: "nat list \<Rightarrow> 'l dispatch_tree \<Rightarrow> 'l dispatch_tree option" where
  "pop_times [] t = Some t"
| "pop_times (_ # stack) t = (case pop_node t of None \<Rightarrow> None | Some t' \<Rightarrow> pop_times stack t')"

text \<open>The result: the new tree, the source tree without the listeners of the moved nodes, and the
  description of the reused range.\<close>

definition reuse_subtree ::
  "nat \<times> nat \<Rightarrow> 'l dispatch_tree \<Rightarrow> nat option \<Rightarrow> 'l dispatch_tree \<Rightarrow>
     ('l dispatch_tree \<times> 'l dispatch_tree \<times> reused_subtree) option" where
  "reuse_subtree old source focus t = do {
     let n = snd old - fst old;
     let new = (length (nodes t), length (nodes t) + n);
     let moved = take n (drop (fst old) (enumerate 0 (nodes source)));
     (stack, found, srcs, t) \<leftarrow> reuse_loop focus moved [] False [] t;
     t \<leftarrow> pop_times stack t;
     Some (t,
           source\<lparr>nodes := take (fst old) (nodes source) @ srcs @
                    drop (fst old + length srcs) (nodes source)\<rparr>,
           \<lparr>old_range = old, new_range = new, contains_focus = found\<rparr>)
   }"

section \<open>Walks along the parents\<close>

partial_function (option) dispatch_path_loop ::
  "'l dispatch_tree \<Rightarrow> nat option \<Rightarrow> nat list \<Rightarrow> nat list option" where
  "dispatch_path_loop t current path =
     (case current of
        None \<Rightarrow> Some path
      | Some nid \<Rightarrow>
          dispatch_path_loop t
            (case nth_opt (nodes t) nid of Some n \<Rightarrow> parent n | None \<Rightarrow> None) (path @ [nid]))"

definition dispatch_path :: "nat \<Rightarrow> 'l dispatch_tree \<Rightarrow> nat list option" where
  "dispatch_path target t = map_option rev (dispatch_path_loop t (Some target) [])"

partial_function (option) focus_path_loop ::
  "'l dispatch_tree \<Rightarrow> nat option \<Rightarrow> nat list \<Rightarrow> nat list option" where
  "focus_path_loop t current path =
     (case current of
        None \<Rightarrow> Some path
      | Some nid \<Rightarrow>
          (case nth_opt (nodes t) nid of
             None \<Rightarrow> None
           | Some n \<Rightarrow>
               focus_path_loop t (parent n)
                 (path @ (case focus_id n of Some f \<Rightarrow> [f] | None \<Rightarrow> []))))"

definition focus_path :: "nat \<Rightarrow> 'l dispatch_tree \<Rightarrow> nat list option" where
  "focus_path f t = map_option rev (focus_path_loop t (focusable_node_ids t f) [])"

partial_function (option) view_path_loop ::
  "'l dispatch_tree \<Rightarrow> nat option \<Rightarrow> nat list \<Rightarrow> nat list option" where
  "view_path_loop t current path =
     (case current of
        None \<Rightarrow> Some path
      | Some nid \<Rightarrow>
          (case nth_opt (nodes t) nid of
             None \<Rightarrow> None
           | Some n \<Rightarrow>
               view_path_loop t (parent n) (path @ (case view_id n of Some v \<Rightarrow> [v] | None \<Rightarrow> []))))"

definition view_path_reversed :: "nat \<Rightarrow> 'l dispatch_tree \<Rightarrow> nat list option" where
  "view_path_reversed v t = view_path_loop t (view_node_ids t v) []"

partial_function (option) focus_contains_loop ::
  "'l dispatch_tree \<Rightarrow> nat \<Rightarrow> nat option \<Rightarrow> bool option" where
  "focus_contains_loop t parent_node current =
     (case current of
        None \<Rightarrow> Some False
      | Some nid \<Rightarrow>
          if nid = parent_node then Some True
          else (case nth_opt (nodes t) nid of
                  None \<Rightarrow> None
                | Some n \<Rightarrow> focus_contains_loop t parent_node (parent n)))"

definition focus_contains :: "nat \<Rightarrow> nat \<Rightarrow> 'l dispatch_tree \<Rightarrow> bool option" where
  "focus_contains par child t =
     (if par = child then Some True
      else (case focusable_node_ids t par of
              None \<Rightarrow> Some False
            | Some parent_node \<Rightarrow> focus_contains_loop t parent_node (focusable_node_ids t child)))"

definition focusable_node_id :: "nat \<Rightarrow> 'l dispatch_tree \<Rightarrow> nat option" where
  "focusable_node_id target t = focusable_node_ids t target"

definition root_node_id :: "'l dispatch_tree \<Rightarrow> nat option" where
  "root_node_id t = (if nodes t = [] then None else Some 0)"

section \<open>Paths\<close>

definition parents_ok :: "'l dispatch_node list \<Rightarrow> bool" where
  "parents_ok ns \<longleftrightarrow>
     (\<forall>i < length ns. case parent (ns ! i) of Some p \<Rightarrow> p < i | None \<Rightarrow> True)"

text \<open>A path downwards: the first node has the given parent, every other one its predecessor.\<close>

fun path_from :: "'l dispatch_node list \<Rightarrow> nat option \<Rightarrow> nat list \<Rightarrow> bool" where
  "path_from ns p [] \<longleftrightarrow> True"
| "path_from ns p (i # is) \<longleftrightarrow> i < length ns \<and> parent (ns ! i) = p \<and> path_from ns (Some i) is"

lemma path_from_snoc:
  "path_from ns p (is @ [i]) \<longleftrightarrow>
     path_from ns p is \<and> i < length ns \<and>
     parent (ns ! i) = (case last_opt is of None \<Rightarrow> p | Some j \<Rightarrow> Some j)"
proof (induction "is" arbitrary: p)
  case (Cons a xs)
  then show ?case by (cases xs) (auto simp: last_opt_def)
qed simp

lemma root_path_snoc:
  "path_from ns None (is @ [i]) \<longleftrightarrow>
     path_from ns None is \<and> i < length ns \<and> parent (ns ! i) = last_opt is"
  by (simp add: path_from_snoc split: option.split)

lemma path_from_take: "path_from ns p (xs @ ys) \<Longrightarrow> path_from ns p xs"
  by (induction xs arbitrary: p) auto

lemma path_from_range: "path_from ns p is \<Longrightarrow> i \<in> set is \<Longrightarrow> i < length ns"
  by (induction "is" arbitrary: p) auto

lemma path_from_cong:
  assumes "path_from ns p is" "\<And>i. i \<in> set is \<Longrightarrow> i < length ns' \<and> parent (ns' ! i) = parent (ns ! i)"
  shows "path_from ns' p is"
  using assms by (induction "is" arbitrary: p) auto

lemma root_path_ex:
  assumes "parents_ok ns" "n < length ns"
  shows "\<exists>is. path_from ns None (is @ [n])"
  using assms(2)
proof (induction n rule: less_induct)
  case (less n)
  show ?case
  proof (cases "parent (ns ! n)")
    case None
    then show ?thesis using less.prems by (intro exI[of _ "[]"]) simp
  next
    case (Some p)
    then have "p < n" using assms(1) less.prems by (auto simp: parents_ok_def)
    then obtain xs where "path_from ns None (xs @ [p])" using less by force
    then have "path_from ns None ((xs @ [p]) @ [n])"
      using Some less.prems by (simp add: root_path_snoc del: append_assoc)
    then show ?thesis by blast
  qed
qed

lemma root_path_unique:
  "path_from ns None is \<Longrightarrow> path_from ns None js \<Longrightarrow> last_opt is = last_opt js \<Longrightarrow> is = js"
proof (induction "is" arbitrary: js rule: rev_induct)
  case (snoc i xs)
  then obtain ys where "js = ys @ [i]" by (metis last_opt_Some last_opt_simps(2))
  with snoc show ?case by (auto simp: root_path_snoc)
qed (metis last_opt_None)

lemma path_sorted:
  assumes "parents_ok ns" "path_from ns p is"
  shows "sorted_wrt (<) is"
  using assms(2)
proof (induction "is" rule: rev_induct)
  case (snoc i xs)
  then have s: "sorted_wrt (<) xs" using path_from_take by blast
  have "j < i" if "j \<in> set xs" for j
  proof -
    from that obtain ys k where xs: "xs = ys @ [k]" by (cases xs rule: rev_cases) auto
    then have "parent (ns ! i) = Some k" "i < length ns" using snoc.prems by (simp_all add: path_from_snoc del: append_assoc)
    then have "k < i" using assms(1) by (force simp: parents_ok_def)
    moreover have "j \<le> k" using s that xs by (auto simp: sorted_wrt_append)
    ultimately show ?thesis by simp
  qed
  with s show ?case by (simp add: sorted_wrt_append)
qed simp

lemma map_filter_snoc:
  "List.map_filter f (xs @ [x]) = List.map_filter f xs @ (case f x of Some y \<Rightarrow> [y] | None \<Rightarrow> [])"
  by (simp add: List.map_filter_def split: option.split)

lemma map_filter_rev: "rev (List.map_filter f xs) = List.map_filter f (rev xs)"
  by (simp add: List.map_filter_def rev_map rev_filter)

section \<open>The walks follow the root path\<close>

lemma dispatch_path_loop_eq:
  "path_from (nodes t) None is \<Longrightarrow> dispatch_path_loop t (last_opt is) acc = Some (acc @ rev is)"
proof (induction "is" arbitrary: acc rule: rev_induct)
  case (snoc i xs)
  then show ?case
    by (subst dispatch_path_loop.simps) (auto simp: root_path_snoc nth_opt_def)
qed (subst dispatch_path_loop.simps, simp)

lemma focus_path_loop_eq:
  "path_from (nodes t) None is \<Longrightarrow>
     focus_path_loop t (last_opt is) acc = Some (acc @ List.map_filter (\<lambda>i. focus_id (nodes t ! i)) (rev is))"
proof (induction "is" arbitrary: acc rule: rev_induct)
  case (snoc i xs)
  then show ?case
    by (subst focus_path_loop.simps) (auto simp: root_path_snoc nth_opt_def map_filter_simps split: option.split)
qed (subst focus_path_loop.simps, simp add: map_filter_simps)

lemma view_path_loop_eq:
  "path_from (nodes t) None is \<Longrightarrow>
     view_path_loop t (last_opt is) acc = Some (acc @ List.map_filter (\<lambda>i. view_id (nodes t ! i)) (rev is))"
proof (induction "is" arbitrary: acc rule: rev_induct)
  case (snoc i xs)
  then show ?case
    by (subst view_path_loop.simps) (auto simp: root_path_snoc nth_opt_def map_filter_simps split: option.split)
qed (subst view_path_loop.simps, simp add: map_filter_simps)

lemma focus_contains_loop_eq:
  "path_from (nodes t) None is \<Longrightarrow> focus_contains_loop t a (last_opt is) = Some (a \<in> set is)"
proof (induction "is" rule: rev_induct)
  case (snoc i xs)
  then show ?case
    by (subst focus_contains_loop.simps) (auto simp: root_path_snoc nth_opt_def)
qed (subst focus_contains_loop.simps, simp)

lemma climb_eq:
  "path_from (nodes t) None is \<Longrightarrow>
     climb (last_opt is) t =
       Some (t\<lparr>context_stack := context_stack t @ List.map_filter (\<lambda>i. node_context (nodes t ! i)) (rev is),
               view_stack := view_stack t @ List.map_filter (\<lambda>i. view_id (nodes t ! i)) (rev is),
               node_stack := node_stack t @ rev is\<rparr>)"
proof (induction "is" arbitrary: t rule: rev_induct)
  case (snoc i xs)
  then show ?case
    by (subst climb.simps) (auto simp: root_path_snoc nth_opt_def map_filter_simps split: option.split)
qed (subst climb.simps, simp add: map_filter_simps)

section \<open>Invariant\<close>

definition contexts_on :: "'l dispatch_node list \<Rightarrow> nat list \<Rightarrow> key_context list" where
  "contexts_on ns is = List.map_filter (\<lambda>i. node_context (ns ! i)) is"

definition views_on :: "'l dispatch_node list \<Rightarrow> nat list \<Rightarrow> nat list" where
  "views_on ns is = List.map_filter (\<lambda>i. view_id (ns ! i)) is"

definition ids_ok :: "('l dispatch_node \<Rightarrow> nat option) \<Rightarrow> 'l dispatch_node list \<Rightarrow> (nat \<rightharpoonup> nat) \<Rightarrow> bool" where
  "ids_ok sel ns m \<longleftrightarrow> (\<forall>k i. m k = Some i \<longrightarrow> i < length ns \<and> sel (ns ! i) = Some k)"

definition tree_inv :: "'l dispatch_tree \<Rightarrow> bool" where
  "tree_inv t \<longleftrightarrow>
     parents_ok (nodes t) \<and> path_from (nodes t) None (node_stack t) \<and>
     context_stack t = contexts_on (nodes t) (node_stack t) \<and>
     view_stack t = views_on (nodes t) (node_stack t) \<and>
     ids_ok focus_id (nodes t) (focusable_node_ids t) \<and> ids_ok view_id (nodes t) (view_node_ids t)"

lemma on_snoc [simp]:
  "contexts_on ns (is @ [i]) = contexts_on ns is @ (case node_context (ns ! i) of Some c \<Rightarrow> [c] | None \<Rightarrow> [])"
  "views_on ns (is @ [i]) = views_on ns is @ (case view_id (ns ! i) of Some v \<Rightarrow> [v] | None \<Rightarrow> [])"
  "contexts_on ns [] = []" "views_on ns [] = []"
  by (simp_all add: contexts_on_def views_on_def map_filter_snoc map_filter_simps)

lemma contexts_on_cong:
  "(\<And>i. i \<in> set is \<Longrightarrow> node_context (ns ! i) = node_context (ns' ! i)) \<Longrightarrow> contexts_on ns is = contexts_on ns' is"
  unfolding contexts_on_def by (rule map_filter_cong) simp

lemma views_on_cong:
  "(\<And>i. i \<in> set is \<Longrightarrow> view_id (ns ! i) = view_id (ns' ! i)) \<Longrightarrow> views_on ns is = views_on ns' is"
  unfolding views_on_def by (rule map_filter_cong) simp

lemma tree_inv_stack:
  assumes "tree_inv t" "node_stack t = is @ [i]"
  shows "i < length (nodes t)" "\<forall>j \<in> set is. j < i"
  using assms path_sorted[of "nodes t" None "node_stack t"]
  by (auto simp: tree_inv_def root_path_snoc sorted_wrt_append)

text \<open>Replacing the active node by one with the same parent.\<close>

lemma update_active_inv:
  assumes inv: "tree_inv t" and st: "node_stack t = is @ [i]"
    and n: "n = nodes t ! i" and par: "parent n' = parent n"
    and c: "cs = contexts_on (nodes t) is @ (case node_context n' of Some c \<Rightarrow> [c] | None \<Rightarrow> [])"
    and v: "vs = views_on (nodes t) is @ (case view_id n' of Some v \<Rightarrow> [v] | None \<Rightarrow> [])"
    and f: "ids_ok focus_id ((nodes t)[i := n']) fm" and vm: "ids_ok view_id ((nodes t)[i := n']) vm"
  shows "tree_inv (t\<lparr>nodes := (nodes t)[i := n'], context_stack := cs, view_stack := vs,
    focusable_node_ids := fm, view_node_ids := vm\<rparr>)"
proof -
  note i = tree_inv_stack[OF inv st]
  let ?ns = "(nodes t)[i := n']"
  have par': "parent (?ns ! j) = parent (nodes t ! j)" for j
    by (cases "j = i") (use par n i in auto)
  have "parents_ok ?ns" using inv by (auto simp: tree_inv_def parents_ok_def par')
  moreover have "path_from ?ns None (is @ [i])"
    using inv st by (auto intro!: path_from_cong[where ns = "nodes t"] simp: par' tree_inv_def dest: path_from_range)
  moreover have "contexts_on ?ns is = contexts_on (nodes t) is" "views_on ?ns is = views_on (nodes t) is"
    using i by (auto intro!: contexts_on_cong views_on_cong)
  ultimately show ?thesis using f vm i c v st by (simp add: tree_inv_def)
qed

lemma push_node_inv [inv_intros]:
  assumes "tree_inv t" shows "tree_inv (fst (push_node t))"
proof -
  let ?n = "default_node\<lparr>parent := last_opt (node_stack t)\<rparr>"
  let ?ns = "nodes t @ [?n]"
  have r: "\<And>i. i \<in> set (node_stack t) \<Longrightarrow> i < length (nodes t)"
    using assms path_from_range unfolding tree_inv_def by blast
  have "parents_ok ?ns"
    using assms r by (auto simp: parents_ok_def tree_inv_def nth_append less_Suc_eq last_opt_def split: option.splits)
  moreover have "path_from ?ns None (node_stack t)"
    using assms by (auto intro!: path_from_cong[where ns = "nodes t"] simp: tree_inv_def nth_append dest: path_from_range)
  moreover have "contexts_on ?ns (node_stack t) = contexts_on (nodes t) (node_stack t)"
    "views_on ?ns (node_stack t) = views_on (nodes t) (node_stack t)"
    using r by (auto intro!: contexts_on_cong views_on_cong simp: nth_append)
  ultimately show ?thesis
    using assms
    by (simp add: tree_inv_def push_node_def Let_def root_path_snoc default_node_def)
      (auto simp: ids_ok_def nth_append intro: less_SucI)
qed

lemma pop_node_eq:
  assumes "tree_inv t" "node_stack t = is @ [i]"
  shows "pop_node t = Some (t\<lparr>context_stack := contexts_on (nodes t) is, view_stack := views_on (nodes t) is,
    node_stack := is\<rparr>)"
  using assms tree_inv_stack[OF assms]
  by (auto simp: pop_node_def active_node_id_def tree_inv_def nth_opt_def)

lemma pop_node_inv [inv_intros]:
  assumes "tree_inv t" "pop_node t = Some t'" shows "tree_inv t'"
proof -
  obtain xs i where st: "node_stack t = xs @ [i]"
    using assms(2) by (auto simp: pop_node_def active_node_id_def bind_eq_Some_conv last_opt_Some)
  show ?thesis
    using assms pop_node_eq[OF assms(1) st] st by (auto simp: tree_inv_def root_path_snoc)
qed

lemma pop_node_Some: "tree_inv t \<Longrightarrow> node_stack t \<noteq> [] \<Longrightarrow> \<exists>t'. pop_node t = Some t'"
  by (metis pop_node_eq rev_exhaust)

text \<open>A setter of the active node, when the node has no such value yet.\<close>

definition active_is :: "('l dispatch_node \<Rightarrow> bool) \<Rightarrow> 'l dispatch_tree \<Rightarrow> bool" where
  "active_is P t \<longleftrightarrow> (case active_node_id t of Some i \<Rightarrow> P (nodes t ! i) | None \<Rightarrow> False)"

lemma active_isE:
  assumes "active_is P t"
  obtains "is" i where "node_stack t = is @ [i]" "P (nodes t ! i)"
  using assms by (auto simp: active_is_def active_node_id_def last_opt_Some split: option.splits)

lemma ids_ok_same:
  assumes "ids_ok sel ns m" "i < length ns" "sel n' = sel (ns ! i)"
  shows "ids_ok sel (ns[i := n']) m"
  using assms by (auto simp: ids_ok_def nth_list_update)

lemma ids_ok_new:
  assumes "ids_ok sel ns m" "i < length ns" "sel n' = Some k" "sel (ns ! i) = None"
  shows "ids_ok sel (ns[i := n']) (m(k \<mapsto> i))"
  using assms by (auto simp: ids_ok_def nth_list_update)

lemma set_key_context_inv:
  assumes "tree_inv t" "active_is (\<lambda>n. node_context n = None) t"
  shows "\<exists>t'. set_key_context c t = Some t' \<and> tree_inv t' \<and> node_stack t' = node_stack t"
proof -
  from assms(2) obtain xs i where st: "node_stack t = xs @ [i]" and n: "node_context (nodes t ! i) = None"
    by (rule active_isE)
  note i = tree_inv_stack[OF assms(1) st]
  let ?n = "(nodes t ! i)\<lparr>node_context := Some c\<rparr>"
  have "tree_inv (t\<lparr>nodes := (nodes t)[i := ?n], context_stack := context_stack t @ [c],
      view_stack := view_stack t, focusable_node_ids := focusable_node_ids t,
      view_node_ids := view_node_ids t\<rparr>)"
    by (rule update_active_inv[OF assms(1) st refl])
      (use assms(1) st n i in \<open>auto simp: tree_inv_def intro: ids_ok_same\<close>)
  then show ?thesis
    using st i by (simp add: set_key_context_def update_active_def active_node_id_def nth_opt_def)
qed

lemma set_focus_id_inv:
  assumes "tree_inv t" "active_is (\<lambda>n. focus_id n = None) t"
  shows "\<exists>t'. set_focus_id f t = Some t' \<and> tree_inv t' \<and> node_stack t' = node_stack t"
proof -
  from assms(2) obtain xs i where st: "node_stack t = xs @ [i]" and n: "focus_id (nodes t ! i) = None"
    by (rule active_isE)
  note i = tree_inv_stack[OF assms(1) st]
  let ?n = "(nodes t ! i)\<lparr>focus_id := Some f\<rparr>"
  have "tree_inv (t\<lparr>nodes := (nodes t)[i := ?n], context_stack := context_stack t,
      view_stack := view_stack t, focusable_node_ids := (focusable_node_ids t)(f \<mapsto> i),
      view_node_ids := view_node_ids t\<rparr>)"
    by (rule update_active_inv[OF assms(1) st refl])
      (use assms(1) st n i in \<open>auto simp: tree_inv_def intro: ids_ok_same ids_ok_new\<close>)
  then show ?thesis
    using st i by (simp add: set_focus_id_def update_active_def active_node_id_def nth_opt_def)
qed

lemma set_view_id_inv:
  assumes "tree_inv t" "active_is (\<lambda>n. view_id n = None) t"
  shows "\<exists>t'. set_view_id v t = Some t' \<and> tree_inv t' \<and> node_stack t' = node_stack t"
proof (cases "last_opt (view_stack t) = Some v")
  case False
  from assms(2) obtain xs i where st: "node_stack t = xs @ [i]" and n: "view_id (nodes t ! i) = None"
    by (rule active_isE)
  note i = tree_inv_stack[OF assms(1) st]
  let ?n = "(nodes t ! i)\<lparr>view_id := Some v\<rparr>"
  have "tree_inv (t\<lparr>nodes := (nodes t)[i := ?n], context_stack := context_stack t,
      view_stack := view_stack t @ [v], focusable_node_ids := focusable_node_ids t,
      view_node_ids := (view_node_ids t)(v \<mapsto> i)\<rparr>)"
    by (rule update_active_inv[OF assms(1) st refl])
      (use assms(1) st n i in \<open>auto simp: tree_inv_def intro: ids_ok_same ids_ok_new\<close>)
  then show ?thesis
    using st i False by (simp add: set_view_id_def update_active_def active_node_id_def nth_opt_def tree_inv_def)
qed (use assms in \<open>simp add: set_view_id_def\<close>)

lemma update_listeners_inv:
  assumes "tree_inv t" "node_stack t \<noteq> []"
    and f: "\<And>n. parent (f n) = parent n \<and> node_context (f n) = node_context n \<and> view_id (f n) = view_id n \<and>
      focus_id (f n) = focus_id n"
  shows "\<exists>t'. update_active f t = Some t' \<and> tree_inv t' \<and> node_stack t' = node_stack t"
proof -
  from assms(2) obtain xs i where st: "node_stack t = xs @ [i]" by (metis rev_exhaust)
  note i = tree_inv_stack[OF assms(1) st]
  have "tree_inv (t\<lparr>nodes := (nodes t)[i := f (nodes t ! i)], context_stack := context_stack t,
      view_stack := view_stack t, focusable_node_ids := focusable_node_ids t,
      view_node_ids := view_node_ids t\<rparr>)"
    by (rule update_active_inv[OF assms(1) st refl])
      (use assms(1) st i f in \<open>auto simp: tree_inv_def intro: ids_ok_same\<close>)
  then show ?thesis
    using st i by (simp add: update_active_def active_node_id_def nth_opt_def tree_inv_def)
qed

lemma tree_new_inv [inv_intros]: "tree_inv tree_new" "tree_inv (tree_clear t)"
  by (simp_all add: tree_inv_def tree_new_def tree_clear_def parents_ok_def ids_ok_def)

lemma on_event_inv:
  assumes "tree_inv t" "node_stack t \<noteq> []"
  shows "\<exists>t'. on_key_event l t = Some t' \<and> tree_inv t' \<and> node_stack t' = node_stack t"
    and "\<exists>t'. on_modifiers_changed l t = Some t' \<and> tree_inv t' \<and> node_stack t' = node_stack t"
    and "\<exists>t'. on_action k l t = Some t' \<and> tree_inv t' \<and> node_stack t' = node_stack t"
  unfolding on_key_event_def on_modifiers_changed_def on_action_def
  by (rule update_listeners_inv[OF assms]; simp)+

lemma pop_until_spec:
  "tree_inv t \<Longrightarrow> \<exists>t'. pop_until p t = Some t' \<and> tree_inv t' \<and> nodes t' = nodes t \<and>
     focusable_node_ids t' = focusable_node_ids t \<and> view_node_ids t' = view_node_ids t \<and>
     (last_opt (node_stack t') = p \<or> node_stack t' = [])"
proof (induction p t rule: pop_until.induct)
  case (1 p t)
  show ?case
  proof (cases "last_opt (node_stack t) \<noteq> p \<and> node_stack t \<noteq> []")
    case True
    then obtain xs i where st: "node_stack t = xs @ [i]" by (metis rev_exhaust)
    note eq = pop_node_eq[OF 1(2) st]
    show ?thesis
      using 1(1)[OF True eq pop_node_inv[OF 1(2) eq]] True
      by (subst pop_until.simps) (simp add: eq)
  next
    case False
    then show ?thesis using 1(2) by (subst pop_until.simps) auto
  qed
qed

lemma on_rev: "rev (contexts_on ns is) = contexts_on ns (rev is)" "rev (views_on ns is) = views_on ns (rev is)"
  by (simp_all add: contexts_on_def views_on_def map_filter_rev)

text \<open>\<open>set_active_node\<close> makes the stacks the root path of the node, with its contexts and views.\<close>

lemma set_active_node_eq:
  assumes inv: "tree_inv t" and path: "path_from (nodes t) None (is @ [n])"
  shows "set_active_node n t = Some (t\<lparr>node_stack := is @ [n],
    context_stack := contexts_on (nodes t) (is @ [n]), view_stack := views_on (nodes t) (is @ [n])\<rparr>)"
proof -
  have n: "n < length (nodes t)" "parent (nodes t ! n) = last_opt is" "path_from (nodes t) None is"
    using path by (auto simp: root_path_snoc)
  obtain t' where t': "pop_until (last_opt is) t = Some t'" "tree_inv t'" "nodes t' = nodes t"
      "focusable_node_ids t' = focusable_node_ids t" "view_node_ids t' = view_node_ids t"
      "last_opt (node_stack t') = last_opt is \<or> node_stack t' = []"
    using pop_until_spec[OF inv] by blast
  show ?thesis
  proof (cases "last_opt (node_stack t') = last_opt is")
    case True
    then have "node_stack t' = is"
      using t' n by (auto simp: tree_inv_def intro!: root_path_unique)
    then show ?thesis
      using t' n True by (auto simp: set_active_node_def nth_opt_def tree_inv_def)
  next
    case False
    then have st: "node_stack t' = []" "context_stack t' = []" "view_stack t' = []"
      using t' by (auto simp: tree_inv_def)
    have "climb (Some n) t' = Some (t'\<lparr>context_stack := contexts_on (nodes t) (rev (is @ [n])),
        view_stack := views_on (nodes t) (rev (is @ [n])), node_stack := rev (is @ [n])\<rparr>)"
      using climb_eq[of t' "is @ [n]"] path t'(3) st by (simp add: contexts_on_def views_on_def)
    then show ?thesis
      using t'(1,3-5) n False
      by (simp add: set_active_node_def nth_opt_def on_rev del: on_snoc rev_append)
  qed
qed

lemma set_active_node_inv:
  assumes "tree_inv t" "n < length (nodes t)"
  shows "\<exists>t'. set_active_node n t = Some t' \<and> tree_inv t'"
proof -
  obtain xs where p: "path_from (nodes t) None (xs @ [n])"
    using root_path_ex assms by (auto simp: tree_inv_def)
  show ?thesis
    using assms(1) p by (simp add: set_active_node_eq[OF assms(1) p] tree_inv_def del: on_snoc)
qed

lemma remove_ids_eq: "remove_ids ids m k = (if Some k \<in> set ids then None else m k)"
proof -
  have "fold (\<lambda>i m. case i of Some k \<Rightarrow> m(k := None) | None \<Rightarrow> m) ids m k =
      (if Some k \<in> set ids then None else m k)"
    by (induction ids arbitrary: m) (auto split: option.splits)
  then show ?thesis by (simp add: remove_ids_def)
qed

lemma ids_ok_truncate:
  assumes "ids_ok sel ns m"
  shows "ids_ok sel (take k ns) (remove_ids (map sel (drop k ns)) m)"
proof -
  have "i < k" if "m f = Some i" "Some f \<notin> sel ` set (drop k ns)" for f i
  proof (rule ccontr)
    assume "\<not> i < k"
    then have "ns ! i \<in> set (drop k ns)"
      using that(1) assms by (force simp: ids_ok_def in_set_conv_nth intro!: exI[of _ "i - k"])
    with that assms show False unfolding ids_ok_def by (metis imageI)
  qed
  with assms show ?thesis by (auto simp: ids_ok_def remove_ids_eq)
qed

lemma truncate_inv:
  assumes "tree_inv t" "k \<le> length (nodes t)" "\<forall>i \<in> set (node_stack t). i < k"
  shows "\<exists>t'. truncate k t = Some t' \<and> tree_inv t' \<and> nodes t' = take k (nodes t)"
proof -
  have "parents_ok (take k (nodes t))"
    using assms by (auto simp: tree_inv_def parents_ok_def)
  moreover have "path_from (take k (nodes t)) None (node_stack t)"
    using assms by (auto intro!: path_from_cong[where ns = "nodes t"] simp: tree_inv_def)
  moreover have "contexts_on (take k (nodes t)) (node_stack t) = contexts_on (nodes t) (node_stack t)"
    "views_on (take k (nodes t)) (node_stack t) = views_on (nodes t) (node_stack t)"
    using assms by (auto intro!: contexts_on_cong views_on_cong)
  ultimately show ?thesis
    using assms by (auto simp: truncate_def tree_inv_def intro: ids_ok_truncate)
qed

section \<open>Reuse of a subtree\<close>

text \<open>A node moved from the source: what \<open>move_node\<close> makes of the tree, provided the tree is built
  by the protocol.\<close>

lemma active_push: "active_is P (fst (push_node t)) \<longleftrightarrow> P (default_node\<lparr>parent := last_opt (node_stack t)\<rparr>)"
  by (simp add: active_is_def active_node_id_def push_node_def Let_def)

definition moved_from :: "nat option \<Rightarrow> 'l dispatch_node \<Rightarrow> 'l dispatch_node \<Rightarrow> bool" where
  "moved_from par source n \<longleftrightarrow>
     parent n = par \<and> node_context n = node_context source \<and> focus_id n = focus_id source \<and>
     (view_id n = view_id source \<or> view_id n = None) \<and> key_listeners n = key_listeners source \<and>
     action_listeners n = action_listeners source \<and>
     modifiers_changed_listeners n = modifiers_changed_listeners source"

definition without_listeners :: "'l dispatch_node \<Rightarrow> 'l dispatch_node" where
  "without_listeners n = n\<lparr>key_listeners := [], action_listeners := [], modifiers_changed_listeners := []\<rparr>"

lemma set_nodes:
  assumes "node_stack t = is @ [length ns]" "nodes t = ns @ [n]"
  shows "\<exists>t'. set_key_context c t = Some t' \<and> node_stack t' = node_stack t \<and> nodes t' = ns @ [n\<lparr>node_context := Some c\<rparr>]"
    "\<exists>t'. set_focus_id f t = Some t' \<and> node_stack t' = node_stack t \<and> nodes t' = ns @ [n\<lparr>focus_id := Some f\<rparr>]"
    "\<exists>t'. set_view_id v t = Some t' \<and> node_stack t' = node_stack t \<and>
       (nodes t' = ns @ [n\<lparr>view_id := Some v\<rparr>] \<or> nodes t' = nodes t)"
    "\<exists>t'. update_active g t = Some t' \<and> node_stack t' = node_stack t \<and> nodes t' = ns @ [g n]"
  using assms
  by (simp_all add: set_key_context_def set_focus_id_def set_view_id_def update_active_def active_node_id_def nth_opt_def)

lemma move_node_spec:
  assumes inv: "tree_inv t"
  shows "\<exists>t' n. move_node source t = Some (t', without_listeners source) \<and> tree_inv t' \<and>
    nodes t' = nodes t @ [n] \<and> node_stack t' = node_stack t @ [length (nodes t)] \<and>
    moved_from (last_opt (node_stack t)) source n"
proof -
  let ?ns = "nodes t" and ?st = "node_stack t @ [length (nodes t)]"
  let ?n0 = "default_node\<lparr>parent := last_opt (node_stack t)\<rparr>"
  define t0 where "t0 = fst (push_node t)"
  have t0: "tree_inv t0" "node_stack t0 = ?st" "nodes t0 = ?ns @ [?n0]"
    using push_node_inv[OF inv] by (simp_all add: t0_def push_node_def Let_def)
  have act: "active_is P t' \<longleftrightarrow> P n" if "node_stack t' = ?st" "nodes t' = ?ns @ [n]" for P t' n
    using that by (simp add: active_is_def active_node_id_def)
  let ?n1 = "?n0\<lparr>node_context := node_context source\<rparr>"
  obtain t1 where t1: "(case node_context source of Some c \<Rightarrow> set_key_context c t0 | None \<Rightarrow> Some t0) = Some t1"
    "tree_inv t1" "node_stack t1 = ?st" "nodes t1 = ?ns @ [?n1]"
  proof (cases "node_context source")
    case None
    then show ?thesis using t0 that[of t0] by (simp add: default_node_def)
  next
    case (Some c)
    show ?thesis
      using set_key_context_inv[OF t0(1), of c] set_nodes(1)[OF t0(2,3), of c] t0 Some that act[OF t0(2,3)]
      by (auto simp: default_node_def)
  qed
  let ?n2 = "?n1\<lparr>focus_id := focus_id source\<rparr>"
  obtain t2 where t2: "(case focus_id source of Some f \<Rightarrow> set_focus_id f t1 | None \<Rightarrow> Some t1) = Some t2"
    "tree_inv t2" "node_stack t2 = ?st" "nodes t2 = ?ns @ [?n2]"
  proof (cases "focus_id source")
    case None
    then show ?thesis using t1 that[of t1] by (simp add: default_node_def)
  next
    case (Some c)
    show ?thesis
      using set_focus_id_inv[OF t1(2), of c] set_nodes(2)[OF t1(3,4), of c] t1 Some that act[OF t1(3,4)]
      by (auto simp: default_node_def)
  qed
  obtain t3 n3 where t3: "(case view_id source of Some v \<Rightarrow> set_view_id v t2 | None \<Rightarrow> Some t2) = Some t3"
    "tree_inv t3" "node_stack t3 = ?st" "nodes t3 = ?ns @ [n3]"
    "n3 = ?n2\<lparr>view_id := view_id source\<rparr> \<or> n3 = ?n2"
  proof (cases "view_id source")
    case None
    then show ?thesis using t2 that by simp
  next
    case (Some v)
    have "active_is (\<lambda>n. view_id n = None) t2"
      unfolding act[OF t2(3,4)] by (simp add: default_node_def)
    then show ?thesis
      using set_view_id_inv[OF t2(2), of v] set_nodes(3)[OF t2(3,4), of v] t2 Some that by auto
  qed
  let ?g = "\<lambda>n. n\<lparr>key_listeners := key_listeners source, action_listeners := action_listeners source,
             modifiers_changed_listeners := modifiers_changed_listeners source\<rparr>"
  obtain t4 where t4: "update_active ?g t3 = Some t4" "tree_inv t4" "node_stack t4 = ?st" "nodes t4 = ?ns @ [?g n3]"
  proof -
    have "\<exists>t'. update_active ?g t3 = Some t' \<and> tree_inv t' \<and> node_stack t' = node_stack t3"
      by (rule update_listeners_inv[OF t3(2)]) (simp_all add: t3(3))
    then show ?thesis using set_nodes(4)[OF t3(3,4), of ?g] t3 that by auto
  qed
  have "moved_from (last_opt (node_stack t)) source (?g n3)"
    using t3(5) by (auto simp: moved_from_def default_node_def)
  then show ?thesis
    using t1(1) t2(1) t3(1) t4
    by (auto simp: move_node_def Let_def without_listeners_def simp flip: t0_def)
qed


lemma leave_ancestors_spec:
  assumes "tree_inv t" "node_stack t = B @ map h (rev stack)"
  shows "\<exists>t'. leave_ancestors par stack t = Some (dropWhile (\<lambda>x. par \<noteq> Some x) stack, t') \<and> tree_inv t' \<and>
    nodes t' = nodes t \<and> node_stack t' = B @ map h (rev (dropWhile (\<lambda>x. par \<noteq> Some x) stack))"
  using assms
proof (induction stack arbitrary: t)
  case (Cons a stack)
  then have st: "node_stack t = (B @ map h (rev stack)) @ [h a]" by simp
  note eq = pop_node_eq[OF Cons.prems(1) st]
  show ?case
    using Cons.IH[OF pop_node_inv[OF Cons.prems(1) eq]] Cons.prems by (auto simp: eq)
qed simp

lemma pop_times_spec:
  assumes "tree_inv t" "node_stack t = B @ map h (rev stack)"
  shows "\<exists>t'. pop_times stack t = Some t' \<and> tree_inv t' \<and> nodes t' = nodes t \<and> node_stack t' = B"
  using assms
proof (induction stack arbitrary: t)
  case (Cons a stack)
  then have st: "node_stack t = (B @ map h (rev stack)) @ [h a]" by simp
  note eq = pop_node_eq[OF Cons.prems(1) st]
  show ?case
    using Cons.IH[OF pop_node_inv[OF Cons.prems(1) eq]] by (simp add: eq)
qed simp

text \<open>The nodes of a range are in preorder: the parent of each is outside it or an ancestor of the
  node before, or that node.\<close>

definition preorder_range :: "nat \<Rightarrow> nat \<Rightarrow> 'l dispatch_tree \<Rightarrow> bool" where
  "preorder_range a e t \<longleftrightarrow> a \<le> e \<and> e \<le> length (nodes t) \<and>
     (\<forall>c \<in> {a<..<e}. case parent (nodes t ! c) of
        Some p \<Rightarrow> a \<le> p \<longrightarrow> p \<in> set (the (dispatch_path (c - 1) t))
      | None \<Rightarrow> True)"

lemma dispatch_path_eq: "path_from (nodes t) None (is @ [n]) \<Longrightarrow> dispatch_path n t = Some (is @ [n])"
  using dispatch_path_loop_eq[of t "is @ [n]" "[]"] by (simp add: dispatch_path_def)

text \<open>The stack of the loop: the part in the range of the root path of the last node.\<close>

definition source_stack_at :: "'l dispatch_node list \<Rightarrow> nat \<Rightarrow> nat \<Rightarrow> nat list \<Rightarrow> bool" where
  "source_stack_at ns a c stack \<longleftrightarrow>
     (if c = a then stack = []
      else (\<exists>q. path_from ns None (q @ [c - 1]) \<and> stack = rev (filter (\<lambda>i. a \<le> i) (q @ [c - 1]))))"

lemma source_stack_step:
  assumes ok: "parents_ok (nodes s)" and pre: "preorder_range a e s" and c: "a \<le> c" "c < e"
    and st: "source_stack_at (nodes s) a c stack"
  defines "stack' \<equiv> dropWhile (\<lambda>x. parent (nodes s ! c) \<noteq> Some x) stack"
  shows "source_stack_at (nodes s) a (Suc c) (c # stack')"
    and "(case stack' of [] \<Rightarrow> None | p # _ \<Rightarrow> Some p) =
      (case parent (nodes s ! c) of Some p \<Rightarrow> if a \<le> p then Some p else None | None \<Rightarrow> None)"
proof -
  have len: "c < length (nodes s)" using c pre by (simp add: preorder_range_def)
  obtain r where r: "path_from (nodes s) None (r @ [c])" using root_path_ex[OF ok len] by blast
  then have par: "parent (nodes s ! c) = last_opt r" by (simp add: root_path_snoc)
  have rs: "sorted_wrt (<) (r @ [c])" by (rule path_sorted[OF ok r])
  have ge: "\<forall>x \<in> set stack. a \<le> x" using st by (auto simp: source_stack_at_def split: if_splits)
  have "stack' = rev (filter (\<lambda>i. a \<le> i) r) \<and> (case stack' of [] \<Rightarrow> None | p # _ \<Rightarrow> Some p) =
      (case last_opt r of Some p \<Rightarrow> if a \<le> p then Some p else None | None \<Rightarrow> None)"
  proof (cases "\<exists>p. last_opt r = Some p \<and> a \<le> p")
    case True
    then obtain p r0 where p: "r = r0 @ [p]" "a \<le> p" by (auto simp: last_opt_Some)
    have "p < c" using rs p by (auto simp: sorted_wrt_append)
    then have "c \<noteq> a" using p by simp
    then obtain q where q: "path_from (nodes s) None (q @ [c - 1])"
      "stack = rev (filter (\<lambda>i. a \<le> i) (q @ [c - 1]))"
      using st by (auto simp: source_stack_at_def)
    have "p \<in> set (q @ [c - 1])"
    proof -
      have "c \<in> {a<..<e}" using c \<open>c \<noteq> a\<close> by simp
      with pre have "case parent (nodes s ! c) of
        Some p \<Rightarrow> a \<le> p \<longrightarrow> p \<in> set (the (dispatch_path (c - 1) s)) | None \<Rightarrow> True"
        unfolding preorder_range_def by blast
      then show ?thesis using dispatch_path_eq[OF q(1)] by (simp add: par p)
    qed
    then obtain q1 q2 where qq: "q @ [c - 1] = q1 @ p # q2" "p \<notin> set q2" by (metis split_list_last)
    have "path_from (nodes s) None (q1 @ [p])"
      using q(1) path_from_take[of "nodes s" None "q1 @ [p]" q2] unfolding qq(1) by simp
    moreover have "path_from (nodes s) None (r0 @ [p])" using r p(1) path_from_take by blast
    ultimately have "q1 @ [p] = r0 @ [p]" by (rule root_path_unique) simp
    then have "q1 = r0" by simp
    have "stack' = p # rev (filter (\<lambda>i. a \<le> i) r0)"
      unfolding stack'_def par q(2) qq(1) using qq(2) p \<open>q1 = r0\<close>
      by (simp add: dropWhile_append)
    then show ?thesis using p by simp
  next
    case False
    have "\<forall>x \<in> set stack. last_opt r \<noteq> Some x" using ge False by auto
    then have "stack' = []" by (auto simp: stack'_def par dropWhile_eq_Nil_conv)
    moreover have "filter (\<lambda>i. a \<le> i) r = []"
    proof (cases r rule: rev_cases)
      case (snoc r0 p)
      then show ?thesis using False rs by (auto simp: sorted_wrt_append filter_empty_conv)
    qed simp
    ultimately show ?thesis using False by (auto split: option.split)
  qed
  then show "(case stack' of [] \<Rightarrow> None | p # _ \<Rightarrow> Some p) =
      (case parent (nodes s ! c) of Some p \<Rightarrow> if a \<le> p then Some p else None | None \<Rightarrow> None)"
    and "source_stack_at (nodes s) a (Suc c) (c # stack')"
    using r c by (auto simp: par source_stack_at_def)
qed


text \<open>The parent that the node moved from position \<open>k\<close> gets.\<close>

definition new_parent :: "nat \<Rightarrow> nat \<Rightarrow> nat option \<Rightarrow> 'l dispatch_node \<Rightarrow> nat option" where
  "new_parent a base outer n =
     (case parent n of Some p \<Rightarrow> if a \<le> p then Some (p - a + base) else outer | None \<Rightarrow> outer)"

lemma reuse_loop_spec:
  assumes ok: "parents_ok (nodes s)" and pre: "preorder_range a e s"
    and "a \<le> c" "c \<le> e" and base: "base + (c - a) = length (nodes t)"
    and "source_stack_at (nodes s) a c stack" "tree_inv t"
    and "node_stack t = B @ map (\<lambda>i. i - a + base) (rev stack)"
  shows "\<exists>stack' t' new. reuse_loop focus (map (\<lambda>i. (i, nodes s ! i)) [c..<e]) stack found srcs t =
      Some (stack', found \<or> (\<exists>i \<in> {c..<e}. focus_id (nodes s ! i) \<noteq> None \<and> focus_id (nodes s ! i) = focus),
        srcs @ map (\<lambda>i. without_listeners (nodes s ! i)) [c..<e], t') \<and>
    tree_inv t' \<and> node_stack t' = B @ map (\<lambda>i. i - a + base) (rev stack') \<and>
    nodes t' = nodes t @ new \<and>
    list_all2 (\<lambda>i n. moved_from (new_parent a base (last_opt B) (nodes s ! i)) (nodes s ! i) n) [c..<e] new"
  using assms(3-)
proof (induction "e - c" arbitrary: c stack found srcs t)
  case 0
  then show ?case by auto
next
  case (Suc k)
  then have c: "c < e" "[c..<e] = c # [Suc c..<e]" by (auto simp: upt_conv_Cons)
  let ?n = "nodes s ! c" and ?h = "\<lambda>i. i - a + base"
  let ?stack = "dropWhile (\<lambda>x. parent ?n \<noteq> Some x) stack"
  note step = source_stack_step[OF ok pre \<open>a \<le> c\<close> c(1) Suc.prems(4)]
  obtain t1 where t1: "leave_ancestors (parent ?n) stack t = Some (?stack, t1)" "tree_inv t1"
    "nodes t1 = nodes t" "node_stack t1 = B @ map ?h (rev ?stack)"
    using leave_ancestors_spec[OF Suc.prems(5,6)] by blast
  obtain t2 n where t2: "move_node ?n t1 = Some (t2, without_listeners ?n)" "tree_inv t2"
    "nodes t2 = nodes t1 @ [n]" "node_stack t2 = node_stack t1 @ [length (nodes t1)]"
    "moved_from (last_opt (node_stack t1)) ?n n"
    using move_node_spec[OF t1(2)] by blast
  have par: "last_opt (node_stack t1) = new_parent a base (last_opt B) ?n"
    using step(2) t1(4)
  proof (induction ?stack)
    case Nil
    then show ?case unfolding Nil.hyps[symmetric] by (auto simp: new_parent_def split: option.splits if_splits)
  next
    case (Cons p ps)
    have "last_opt (node_stack t1) = Some (?h p)"
      using Cons.prems(2) last_opt_simps(2)[of "B @ map ?h (rev ps)" "?h p"]
      unfolding Cons.hyps(2)[symmetric] by simp
    then show ?case using Cons.prems(1) unfolding Cons.hyps(2)[symmetric]
      by (auto simp: new_parent_def split: option.splits if_splits)
  qed
  have base': "base + (Suc c - a) = length (nodes t2)"
    and stack: "node_stack t2 = B @ map ?h (rev (c # ?stack))"
    using Suc.prems(1,3) t1 t2 by (auto simp: Suc_diff_le)
  obtain stack' t' new where rest:
    "reuse_loop focus (map (\<lambda>i. (i, nodes s ! i)) [Suc c..<e]) (c # ?stack)
        (found \<or> (focus_id ?n \<noteq> None \<and> focus_id ?n = focus)) (srcs @ [without_listeners ?n]) t2 =
      Some (stack', (found \<or> (focus_id ?n \<noteq> None \<and> focus_id ?n = focus)) \<or>
          (\<exists>i \<in> {Suc c..<e}. focus_id (nodes s ! i) \<noteq> None \<and> focus_id (nodes s ! i) = focus),
        (srcs @ [without_listeners ?n]) @ map (\<lambda>i. without_listeners (nodes s ! i)) [Suc c..<e], t')"
    "tree_inv t'" "node_stack t' = B @ map ?h (rev stack')" "nodes t' = nodes t2 @ new"
    "list_all2 (\<lambda>i n. moved_from (new_parent a base (last_opt B) (nodes s ! i)) (nodes s ! i) n) [Suc c..<e] new"
  proof -
    have "k = e - Suc c" "a \<le> Suc c" "Suc c \<le> e" using Suc.hyps(2) Suc.prems(1) c(1) by auto
    from Suc.hyps(1)[OF this base' step(1) t2(2) stack] that show ?thesis by blast
  qed
  have ex: "(\<exists>i \<in> {c..<e}. Q i) \<longleftrightarrow> Q c \<or> (\<exists>i \<in> {Suc c..<e}. Q i)" for Q
  proof -
    have "{c..<e} = insert c {Suc c..<e}" using c(1) by auto
    then show ?thesis by simp
  qed
  show ?case
    unfolding c(2) ex
    using rest t1 t2 par by (intro exI[of _ stack'] exI[of _ t'] exI[of _ "n # new"]) (simp add: Let_def disj_assoc)
qed

lemma without_listeners_sel [simp]:
  "parent (without_listeners n) = parent n" "node_context (without_listeners n) = node_context n"
  "view_id (without_listeners n) = view_id n" "focus_id (without_listeners n) = focus_id n"
  by (simp_all add: without_listeners_def)

lemma replace_range_nth:
  assumes "a \<le> e" "e \<le> length xs"
  shows "take a xs @ map (\<lambda>i. f (xs ! i)) [a..<e] @ drop e xs =
    map (\<lambda>i. if a \<le> i \<and> i < e then f (xs ! i) else xs ! i) [0..<length xs]"
  using assms by (intro nth_equalityI) (auto simp: nth_append min_def)

lemma same_nodes_inv:
  assumes "tree_inv t" "length ns = length (nodes t)"
    "\<And>i. i < length ns \<Longrightarrow> parent (ns ! i) = parent (nodes t ! i) \<and> node_context (ns ! i) = node_context (nodes t ! i) \<and>
      view_id (ns ! i) = view_id (nodes t ! i) \<and> focus_id (ns ! i) = focus_id (nodes t ! i)"
  shows "tree_inv (t\<lparr>nodes := ns\<rparr>)"
proof -
  have r: "i < length ns" if "i \<in> set (node_stack t)" for i
    using that assms(1,2) path_from_range[of "nodes t" None "node_stack t" i] by (auto simp: tree_inv_def)
  have "parents_ok ns" using assms by (auto simp: tree_inv_def parents_ok_def)
  moreover have "path_from ns None (node_stack t)"
    by (rule path_from_cong[of "nodes t"]) (use assms r in \<open>auto simp: tree_inv_def\<close>)
  moreover have "contexts_on ns (node_stack t) = contexts_on (nodes t) (node_stack t)"
    "views_on ns (node_stack t) = views_on (nodes t) (node_stack t)"
    using assms(3) r by (auto intro!: contexts_on_cong views_on_cong)
  moreover have "ids_ok focus_id ns (focusable_node_ids t)" "ids_ok view_id ns (view_node_ids t)"
    using assms by (auto simp: tree_inv_def ids_ok_def)
  ultimately show ?thesis using assms(1) by (simp add: tree_inv_def)
qed

lemma enumerate_0_nth: "enumerate 0 xs = map (\<lambda>i. (i, xs ! i)) [0..<length xs]"
  by (rule nth_equalityI) (auto simp: nth_enumerate_eq)

lemma reuse_subtree_eq:
  assumes inv: "tree_inv t" "tree_inv s" and pre: "preorder_range a e s"
  shows "\<exists>t' s' r new. reuse_subtree (a, e) s focus t = Some (t', s', r) \<and>
    tree_inv t' \<and> node_stack t' = node_stack t \<and>
    context_stack t' = context_stack t \<and> view_stack t' = view_stack t \<and> nodes t' = nodes t @ new \<and>
    list_all2 (\<lambda>i n. moved_from
        (new_parent a (length (nodes t)) (last_opt (node_stack t)) (nodes s ! i)) (nodes s ! i) n)
      [a..<e] new \<and>
    tree_inv s' \<and> s' = s\<lparr>nodes := take a (nodes s) @ map (\<lambda>i. without_listeners (nodes s ! i)) [a..<e] @ drop e (nodes s)\<rparr> \<and>
    r = \<lparr>old_range = (a, e), new_range = (length (nodes t), length (nodes t) + (e - a)),
      contains_focus = (\<exists>i \<in> {a..<e}. focus_id (nodes s ! i) \<noteq> None \<and> focus_id (nodes s ! i) = focus)\<rparr>"
proof -
  let ?h = "\<lambda>i. i - a + length (nodes t)"
  have ae: "a \<le> e" "e \<le> length (nodes s)" using pre by (auto simp: preorder_range_def)
  have "source_stack_at (nodes s) a a []" by (simp add: source_stack_at_def)
  then obtain stack t1 new where loop: "reuse_loop focus (map (\<lambda>i. (i, nodes s ! i)) [a..<e]) [] False [] t =
      Some (stack, (\<exists>i \<in> {a..<e}. focus_id (nodes s ! i) \<noteq> None \<and> focus_id (nodes s ! i) = focus),
        map (\<lambda>i. without_listeners (nodes s ! i)) [a..<e], t1)"
    "tree_inv t1" "node_stack t1 = node_stack t @ map ?h (rev stack)" "nodes t1 = nodes t @ new"
    "list_all2 (\<lambda>i n. moved_from (new_parent a (length (nodes t)) (last_opt (node_stack t)) (nodes s ! i))
        (nodes s ! i) n) [a..<e] new"
    using reuse_loop_spec[of s a e a "length (nodes t)" t "[]" "node_stack t" focus False "[]"] inv pre ae
    by (auto simp: tree_inv_def)
  obtain t2 where t2: "pop_times stack t1 = Some t2" "tree_inv t2" "nodes t2 = nodes t1" "node_stack t2 = node_stack t"
    using pop_times_spec[OF loop(2,3)] by blast
  have moved: "take (e - a) (drop a (enumerate 0 (nodes s))) = map (\<lambda>i. (i, nodes s ! i)) [a..<e]"
    using ae by (simp add: enumerate_0_nth drop_map take_map take_upt)
  have r: "\<And>i. i \<in> set (node_stack t) \<Longrightarrow> i < length (nodes t)"
    using inv(1) path_from_range unfolding tree_inv_def by blast
  have stacks: "context_stack t2 = context_stack t" "view_stack t2 = view_stack t"
    using t2 loop(4) inv(1) r unfolding tree_inv_def
    by (auto intro!: contexts_on_cong views_on_cong simp: nth_append)
  let ?ns = "take a (nodes s) @ map (\<lambda>i. without_listeners (nodes s ! i)) [a..<e] @ drop e (nodes s)"
  have "tree_inv (s\<lparr>nodes := ?ns\<rparr>)"
    by (rule same_nodes_inv[OF inv(2)]) (simp_all add: replace_range_nth[OF ae])
  then show ?thesis
    using loop(1,4,5) t2 stacks ae by (simp add: reuse_subtree_def moved Let_def)
qed

section \<open>Reachable trees\<close>

text \<open>
  The trees a frame can build.  An element sets its key context, focus and view on its own node, once;
  nodes are dropped only above the stack, when a transaction is rolled back; a cached view is
  reused from the tree of the previous frame.
\<close>

inductive tree_reachable :: "'l dispatch_tree \<Rightarrow> bool" where
  tr_new: "tree_reachable tree_new"
| tr_clear: "tree_reachable t \<Longrightarrow> tree_reachable (tree_clear t)"
| tr_push: "tree_reachable t \<Longrightarrow> tree_reachable (fst (push_node t))"
| tr_pop: "tree_reachable t \<Longrightarrow> pop_node t = Some t' \<Longrightarrow> tree_reachable t'"
| tr_context: "tree_reachable t \<Longrightarrow> active_is (\<lambda>n. node_context n = None) t \<Longrightarrow>
    set_key_context c t = Some t' \<Longrightarrow> tree_reachable t'"
| tr_focus: "tree_reachable t \<Longrightarrow> active_is (\<lambda>n. focus_id n = None) t \<Longrightarrow>
    set_focus_id f t = Some t' \<Longrightarrow> tree_reachable t'"
| tr_view: "tree_reachable t \<Longrightarrow> active_is (\<lambda>n. view_id n = None) t \<Longrightarrow>
    set_view_id v t = Some t' \<Longrightarrow> tree_reachable t'"
| tr_key: "tree_reachable t \<Longrightarrow> on_key_event l t = Some t' \<Longrightarrow> tree_reachable t'"
| tr_modifiers: "tree_reachable t \<Longrightarrow> on_modifiers_changed l t = Some t' \<Longrightarrow> tree_reachable t'"
| tr_action: "tree_reachable t \<Longrightarrow> on_action k l t = Some t' \<Longrightarrow> tree_reachable t'"
| tr_active: "tree_reachable t \<Longrightarrow> set_active_node n t = Some t' \<Longrightarrow> tree_reachable t'"
| tr_truncate: "tree_reachable t \<Longrightarrow> \<forall>i \<in> set (node_stack t). i < k \<Longrightarrow>
    truncate k t = Some t' \<Longrightarrow> tree_reachable t'"
| tr_reuse: "tree_reachable t \<Longrightarrow> tree_reachable s \<Longrightarrow> preorder_range a e s \<Longrightarrow>
    reuse_subtree (a, e) s focus t = Some (t', s', r) \<Longrightarrow> tree_reachable t'"
| tr_reused: "tree_reachable t \<Longrightarrow> tree_reachable s \<Longrightarrow> preorder_range a e s \<Longrightarrow>
    reuse_subtree (a, e) s focus t = Some (t', s', r) \<Longrightarrow> tree_reachable s'"

lemma update_active_needs_node: "update_active f t = Some t' \<Longrightarrow> node_stack t \<noteq> []"
  by (auto simp: update_active_def active_node_id_def bind_eq_Some_conv last_opt_Some)

lemma on_event_needs_node:
  "on_key_event l t = Some t' \<Longrightarrow> node_stack t \<noteq> []"
  "on_modifiers_changed l t = Some t' \<Longrightarrow> node_stack t \<noteq> []"
  "on_action k l t = Some t' \<Longrightarrow> node_stack t \<noteq> []"
  by (simp_all add: on_key_event_def on_modifiers_changed_def on_action_def update_active_needs_node)

lemma set_active_needs_node: "set_active_node n t = Some t' \<Longrightarrow> n < length (nodes t)"
  by (auto simp: set_active_node_def bind_eq_Some_conv)

lemma tree_reachable_inv: "tree_reachable t \<Longrightarrow> tree_inv t"
proof (induction rule: tree_reachable.induct)
  case (tr_context t c t') then show ?case using set_key_context_inv[of t c] by auto
next
  case (tr_focus t f t') then show ?case using set_focus_id_inv[of t f] by auto
next
  case (tr_view t v t') then show ?case using set_view_id_inv[of t v] by auto
next
  case (tr_key t l t') then show ?case using on_event_inv(1)[of t l] on_event_needs_node(1)[of l t] by auto
next
  case (tr_modifiers t l t') then show ?case using on_event_inv(2)[of t l] on_event_needs_node(2)[of l t] by auto
next
  case (tr_action t k l t') then show ?case using on_event_inv(3)[of t k l] on_event_needs_node(3)[of k l t] by auto
next
  case (tr_active t n t') then show ?case using set_active_node_inv[of t n] set_active_needs_node[of n t] by auto
next
  case (tr_truncate t k t')
  then have "k \<le> length (nodes t)" by (auto simp: truncate_def split: if_splits)
  with tr_truncate show ?case using truncate_inv[of t k] by auto
next
  case (tr_reuse t s a e focus t' s' r) then show ?case using reuse_subtree_eq[of t s a e focus] by auto
next
  case (tr_reused t s a e focus t' s' r) then show ?case using reuse_subtree_eq[of t s a e focus] by auto
qed (auto intro: inv_intros)

lemma reachable_path:
  assumes "tree_inv t" "n < length (nodes t)"
  obtains "is" where "path_from (nodes t) None (is @ [n])" "dispatch_path n t = Some (is @ [n])"
  using assms root_path_ex dispatch_path_eq unfolding tree_inv_def by blast

section \<open>Properties\<close>

text \<open>C18: in every tree a frame can build, each parent was pushed before its child, the node stack is a
  path from a root, and the context and view stacks are the contexts and the views of its nodes; so
  a node on the stack can be popped.\<close>

theorem stacks_follow_path:
  assumes "tree_reachable t"
  shows "parents_ok (nodes t) \<and> path_from (nodes t) None (node_stack t) \<and>
    context_stack t = contexts_on (nodes t) (node_stack t) \<and>
    view_stack t = views_on (nodes t) (node_stack t) \<and>
    (node_stack t = [] \<or> pop_node t \<noteq> None)"
  using tree_reachable_inv[OF assms] pop_node_Some[of t] by (auto simp: tree_inv_def)

theorem stacks_follow_path_witness:
  "node_stack (fst (push_node (fst (push_node (tree_new :: unit dispatch_tree))))) = [0, 1] \<and>
   path_from (nodes (fst (push_node (fst (push_node (tree_new :: unit dispatch_tree)))))) None [0, 1]"
  using stacks_follow_path[OF tr_push[OF tr_push[OF tr_new]], where ?'a = unit]
  by (simp add: push_node_def tree_new_def Let_def last_opt_def)

text \<open>\<open>dispatch_path\<close> ends without a panic on every node of the tree, and its result is the path
  from a root to the node, which is unique.\<close>

theorem dispatch_path_spec:
  assumes "tree_reachable t" "n < length (nodes t)"
  shows "dispatch_path n t \<noteq> None \<and>
    (dispatch_path n t = Some p \<longleftrightarrow> path_from (nodes t) None p \<and> last_opt p = Some n)"
proof -
  obtain xs where x: "path_from (nodes t) None (xs @ [n])" "dispatch_path n t = Some (xs @ [n])"
    using reachable_path[OF tree_reachable_inv[OF assms(1)] assms(2)] by blast
  then show ?thesis by (auto intro: root_path_unique)
qed

theorem dispatch_path_spec_witness:
  "dispatch_path 1 (fst (push_node (fst (push_node (tree_new :: unit dispatch_tree))))) = Some [0, 1]"
  using dispatch_path_spec[OF tr_push[OF tr_push[OF tr_new]], where n = 1 and p = "[0, 1]" and ?'a = unit]
  by (simp add: push_node_def tree_new_def Let_def last_opt_def default_node_def)

text \<open>\<open>set_active_node\<close> does not panic on a node of the tree; whichever of its two loops runs, the
  stacks become the dispatch path of the node with its contexts and views, and nothing else changes.\<close>

theorem set_active_node_spec:
  assumes "tree_reachable t" "n < length (nodes t)"
  shows "\<exists>path. dispatch_path n t = Some path \<and>
    set_active_node n t = Some (t\<lparr>node_stack := path, context_stack := contexts_on (nodes t) path,
      view_stack := views_on (nodes t) path\<rparr>)"
proof -
  note inv = tree_reachable_inv[OF assms(1)]
  obtain xs where x: "path_from (nodes t) None (xs @ [n])" "dispatch_path n t = Some (xs @ [n])"
    using reachable_path[OF inv assms(2)] by blast
  then show ?thesis using set_active_node_eq[OF inv x(1)] by blast
qed

theorem set_active_node_spec_witness:
  "map_option node_stack (set_active_node 0 (fst (push_node (fst (push_node (tree_new :: unit dispatch_tree)))))) =
     dispatch_path 0 (fst (push_node (fst (push_node (tree_new :: unit dispatch_tree)))))"
  using set_active_node_spec[OF tr_push[OF tr_push[OF tr_new]], where n = 0 and ?'a = unit]
  by (fastforce simp: push_node_def tree_new_def Let_def)

text \<open>The queries about focus end and follow the tree: \<open>focus_path\<close> lists the focus identifiers on
  the dispatch path of the focused node, and \<open>focus_contains\<close> says whether the node of the first
  identifier lies on the dispatch path of the second.\<close>

theorem focus_queries:
  assumes "tree_reachable t" "focusable_node_ids t f = Some n" "focusable_node_ids t g = Some m"
  shows "\<exists>path. dispatch_path n t = Some path \<and>
    focus_path f t = Some (List.map_filter (\<lambda>i. focus_id (nodes t ! i)) path) \<and>
    f \<in> set (the (focus_path f t)) \<and>
    focus_contains g f t = Some (g = f \<or> m \<in> set path)"
proof -
  note inv = tree_reachable_inv[OF assms(1)]
  have n: "n < length (nodes t)" "focus_id (nodes t ! n) = Some f"
    using inv assms(2) by (auto simp: tree_inv_def ids_ok_def)
  obtain xs where x: "path_from (nodes t) None (xs @ [n])" "dispatch_path n t = Some (xs @ [n])"
    using reachable_path[OF inv n(1)] by blast
  have "focus_path f t = Some (List.map_filter (\<lambda>i. focus_id (nodes t ! i)) (xs @ [n]))"
    using focus_path_loop_eq[OF x(1), of "[]"] assms(2) by (simp add: focus_path_def map_filter_rev del: rev_append)
  moreover have "focus_contains g f t = Some (g = f \<or> m \<in> set (xs @ [n]))"
    using focus_contains_loop_eq[OF x(1), of m] assms(2,3) by (simp add: focus_contains_def)
  ultimately show ?thesis using x(2) n(2) by (auto simp: map_filter_snoc)
qed

lemmas tree_eval = tree_new_def push_node_def set_focus_id_def update_active_def active_node_id_def
  default_node_def Let_def nth_opt_def last_opt_def active_is_def

definition two_focused :: "unit dispatch_tree" where
  "two_focused = the (set_focus_id 8 (fst (push_node (the (set_focus_id 7 (fst (push_node tree_new)))))))"

lemma two_focused_reachable: "tree_reachable two_focused"
proof -
  let ?t1 = "fst (push_node tree_new) :: unit dispatch_tree"
  let ?t2 = "fst (push_node (the (set_focus_id 7 ?t1)))"
  have "tree_reachable (the (set_focus_id 7 ?t1))"
    by (rule tr_focus[of ?t1 7, OF tr_push[OF tr_new]]) (simp_all add: tree_eval)
  then have "tree_reachable (the (set_focus_id 8 ?t2))"
    by (rule tr_focus[of ?t2 8, OF tr_push]) (simp_all add: tree_eval)
  then show ?thesis by (simp add: two_focused_def)
qed

lemma two_focused_eval:
  "two_focused = \<lparr>node_stack = [0, 1], context_stack = [], view_stack = [],
     nodes = [default_node\<lparr>focus_id := Some 7\<rparr>, default_node\<lparr>focus_id := Some 8, parent := Some 0\<rparr>],
     focusable_node_ids = [7 \<mapsto> 0, 8 \<mapsto> 1], view_node_ids = Map.empty\<rparr>"
  by (simp add: two_focused_def tree_eval)

lemma two_focused_path: "dispatch_path 0 two_focused = Some [0]" "dispatch_path 1 two_focused = Some [0, 1]"
  using dispatch_path_eq[of two_focused "[]" 0] dispatch_path_eq[of two_focused "[0]" 1]
  by (simp_all add: two_focused_eval default_node_def)

theorem focus_queries_witness:
  "focus_contains 7 8 two_focused = Some True \<and> 8 \<in> set (the (focus_path 8 two_focused))"
  using focus_queries[OF two_focused_reachable, of 8 1 7 0] two_focused_path
  by (auto simp: two_focused_eval)

text \<open>C17: reusing a range of the previous frame whose nodes are in preorder never panics and leaves the
  stacks as they were; the nodes of the range are appended in order with their contexts, focus and
  listeners, under the parent that \<open>refresh_node_id\<close> gives for the old one, or under the active node
  when the old parent is outside the range; the old nodes lose their listeners.\<close>

theorem reuse_subtree_spec:
  assumes "tree_reachable t" "tree_reachable s" "preorder_range a e s"
  shows "\<exists>t' s' r new. reuse_subtree (a, e) s focus t = Some (t', s', r) \<and>
    node_stack t' = node_stack t \<and> context_stack t' = context_stack t \<and> view_stack t' = view_stack t \<and>
    nodes t' = nodes t @ new \<and> length new = e - a \<and>
    list_all (\<lambda>k. moved_from
        (case parent (nodes s ! (a + k)) of
           Some p \<Rightarrow> if a \<le> p then refresh_node_id r p else active_node_id t
         | None \<Rightarrow> active_node_id t)
        (nodes s ! (a + k)) (new ! k)) [0..<e - a] \<and>
    nodes s' = take a (nodes s) @ map (\<lambda>i. without_listeners (nodes s ! i)) [a..<e] @ drop e (nodes s) \<and>
    (contains_focus r \<longleftrightarrow> (\<exists>i \<in> {a..<e}. focus_id (nodes s ! i) \<noteq> None \<and> focus_id (nodes s ! i) = focus))"
proof -
  note inv = tree_reachable_inv[OF assms(1)] tree_reachable_inv[OF assms(2)]
  obtain t' s' r new where r: "reuse_subtree (a, e) s focus t = Some (t', s', r)"
    "node_stack t' = node_stack t" "context_stack t' = context_stack t" "view_stack t' = view_stack t"
    "nodes t' = nodes t @ new"
    "list_all2 (\<lambda>i n. moved_from
        (new_parent a (length (nodes t)) (last_opt (node_stack t)) (nodes s ! i)) (nodes s ! i) n) [a..<e] new"
    "s' = s\<lparr>nodes := take a (nodes s) @ map (\<lambda>i. without_listeners (nodes s ! i)) [a..<e] @ drop e (nodes s)\<rparr>"
    "r = \<lparr>old_range = (a, e), new_range = (length (nodes t), length (nodes t) + (e - a)),
      contains_focus = (\<exists>i \<in> {a..<e}. focus_id (nodes s ! i) \<noteq> None \<and> focus_id (nodes s ! i) = focus)\<rparr>"
    using reuse_subtree_eq[OF inv assms(3), of focus] by blast
  have par: "new_parent a (length (nodes t)) (last_opt (node_stack t)) (nodes s ! (a + k)) =
      (case parent (nodes s ! (a + k)) of
         Some p \<Rightarrow> if a \<le> p then refresh_node_id r p else active_node_id t
       | None \<Rightarrow> active_node_id t)" if k: "k < e - a" for k
  proof (cases "parent (nodes s ! (a + k))")
    case (Some p)
    have "a + k < length (nodes s)" using k assms(3) by (auto simp: preorder_range_def)
    then have "p < a + k" using inv(2) Some unfolding tree_inv_def parents_ok_def by force
    then show ?thesis
      using Some k by (auto simp: new_parent_def r(8) refresh_node_id_def active_node_id_def)
  qed (simp add: new_parent_def active_node_id_def)
  have len: "length new = e - a" using r(6) by (auto dest: list_all2_lengthD)
  have "list_all (\<lambda>k. moved_from
        (case parent (nodes s ! (a + k)) of
           Some p \<Rightarrow> if a \<le> p then refresh_node_id r p else active_node_id t
         | None \<Rightarrow> active_node_id t)
        (nodes s ! (a + k)) (new ! k)) [0..<e - a]"
    using r(6) len by (auto simp: list_all_iff list_all2_conv_all_nth simp flip: par)
  then show ?thesis
    using r(1-5) len by (intro exI[of _ t'] exI[of _ s'] exI[of _ r] exI[of _ new] conjI) (simp_all add: r(7,8))
qed

theorem reuse_subtree_spec_witness:
  "\<exists>t' s' r. reuse_subtree (0, 2) two_focused (Some 8) tree_new = Some (t', s', r) \<and>
     contains_focus r \<and> length (nodes t') = 2"
proof -
  have "preorder_range 0 2 two_focused"
    using two_focused_path by (auto simp: preorder_range_def two_focused_eval default_node_def)
  from reuse_subtree_spec[OF tr_new two_focused_reachable this, of "Some 8"]
  obtain t' s' r new where r: "reuse_subtree (0, 2) two_focused (Some 8) tree_new = Some (t', s', r)"
    "nodes t' = nodes tree_new @ new" "length new = 2 - 0"
    "contains_focus r \<longleftrightarrow> (\<exists>i \<in> {0..<2}. focus_id (nodes two_focused ! i) \<noteq> None \<and>
       focus_id (nodes two_focused ! i) = Some 8)"
    by blast
  have "1 \<in> {0..<2::nat}" "focus_id (nodes two_focused ! 1) = Some 8" by (simp_all add: two_focused_eval)
  then have "contains_focus r" unfolding r(4) by blast
  then show ?thesis using r(1-3) by (simp add: tree_new_def)
qed

end
