(* ===== verification/SortedVec.thy ===== *)
theory SortedVec
  imports Prelude
begin

text \<open>
  Vectors kept sorted: the binary search of the standard library, \<open>slice::binary_search_by_key\<close>, and
  \<open>Vec::insert\<close>, with what they give on a strictly sorted vector.
\<close>

text \<open>\<open>slice::binary_search_by_key\<close> of the standard library: \<open>Inr\<close> the index of the key, or \<open>Inl\<close>
  the index at which it can be inserted.\<close>

function bsearch_base :: "'k::linorder \<Rightarrow> 'k list \<Rightarrow> nat \<Rightarrow> nat \<Rightarrow> nat" where
  "bsearch_base k xs base sz =
     (if sz \<le> 1 then base
      else let half = sz div 2; mid = base + half in
        bsearch_base k xs (if xs ! mid > k then base else mid) (sz - half))"
  by pat_completeness auto
termination by (relation "measure (\<lambda>(_, _, _, sz). sz)") auto

declare bsearch_base.simps [simp del]

definition binary_search :: "'k::linorder \<Rightarrow> 'k list \<Rightarrow> nat + nat" where
  "binary_search k xs =
     (if xs = [] then Inl 0
      else let base = bsearch_base k xs 0 (length xs) in
        if xs ! base = k then Inr base else Inl (if xs ! base < k then base + 1 else base))"

definition insert_at :: "nat \<Rightarrow> 'a \<Rightarrow> 'a list \<Rightarrow> 'a list" where
  "insert_at i x xs = take i xs @ x # drop i xs"

lemma bsearch_base_spec:
  assumes "sorted_wrt (<) xs" "0 < sz" "base + sz \<le> length xs"
    "\<forall>i < base. xs ! i < k" "\<forall>i < length xs. base + sz \<le> i \<longrightarrow> k < xs ! i"
  shows "bsearch_base k xs base sz < length xs \<and>
    (\<forall>i < bsearch_base k xs base sz. xs ! i < k) \<and>
    (\<forall>i < length xs. bsearch_base k xs base sz < i \<longrightarrow> k < xs ! i)"
  using assms
proof (induction k xs base sz rule: bsearch_base.induct)
  case (1 k xs base sz)
  show ?case
  proof (cases "sz \<le> 1")
    case True
    then show ?thesis using 1(3-) by (subst (1 2 3) bsearch_base.simps) auto
  next
    case False
    let ?half = "sz div 2"
    let ?base = "if xs ! (base + ?half) > k then base else base + ?half"
    have mid: "base + ?half < length xs" "0 < ?half" "?half < sz" using 1(4,5) False by auto
    have mono: "i < j \<Longrightarrow> j < length xs \<Longrightarrow> xs ! i < xs ! j" for i j
      using 1(2) by (simp add: sorted_wrt_iff_nth_less)
    have lo: "\<forall>i < ?base. xs ! i < k"
    proof (intro allI impI)
      fix i assume "i < ?base"
      then show "xs ! i < k"
        using 1(5) mono[of i "base + ?half"] mid \<open>i < ?base\<close> 1(6)
        by (cases "xs ! (base + ?half) > k") (auto intro: less_le_trans)
    qed
    have hi: "\<forall>i < length xs. ?base + (sz - ?half) \<le> i \<longrightarrow> k < xs ! i"
    proof (intro allI impI)
      fix i assume i: "i < length xs" "?base + (sz - ?half) \<le> i"
      show "k < xs ! i"
      proof (cases "xs ! (base + ?half) > k")
        case True
        then have "base + ?half \<le> i" using i False by auto
        then show ?thesis using True mono[of "base + ?half" i] i by (cases "i = base + ?half") auto
      next
        case f: False
        then have "base + sz \<le> i" using i mid by auto
        then show ?thesis using 1 i by blast
      qed
    qed
    have "?base + (sz - ?half) \<le> length xs" using 1(4) mid by auto
    from 1(1)[OF False refl refl 1(2) _ this lo hi] mid(3)
    show ?thesis using False by (subst (1 2 3) bsearch_base.simps) (simp add: Let_def)
  qed
qed

lemma binary_search_spec:
  assumes "sorted_wrt (<) xs"
  shows "(case binary_search k xs of
      Inr i \<Rightarrow> i < length xs \<and> xs ! i = k
    | Inl i \<Rightarrow> i \<le> length xs \<and> k \<notin> set xs \<and> (\<forall>j < i. xs ! j < k) \<and> (\<forall>j < length xs. i \<le> j \<longrightarrow> k < xs ! j))"
proof (cases "xs = []")
  case False
  let ?b = "bsearch_base k xs 0 (length xs)"
  have b: "?b < length xs" "\<forall>i < ?b. xs ! i < k" "\<forall>i < length xs. ?b < i \<longrightarrow> k < xs ! i"
    using bsearch_base_spec[OF assms, of "length xs" 0 k] False by auto
  show ?thesis
  proof (cases "xs ! ?b = k")
    case True
    then show ?thesis using False b(1) by (simp add: binary_search_def Let_def)
  next
    case ne: False
    define i where "i = (if xs ! ?b < k then ?b + 1 else ?b)"
    have lo: "\<forall>j < i. xs ! j < k" using b(2) by (auto simp: i_def less_Suc_eq)
    have hi: "\<forall>j < length xs. i \<le> j \<longrightarrow> k < xs ! j"
    proof (intro allI impI)
      fix j assume j: "j < length xs" "i \<le> j"
      show "k < xs ! j"
      proof (cases "j = ?b")
        case True
        then show ?thesis using j(2) ne by (auto simp: i_def split: if_splits)
      next
        case False
        then show ?thesis using j b(3) by (auto simp: i_def split: if_splits)
      qed
    qed
    have "xs ! j \<noteq> k" if "j < length xs" for j
      using that lo hi by (cases "j < i") auto
    then have "k \<notin> set xs" by (auto simp: in_set_conv_nth)
    moreover have "i \<le> length xs" using b(1) by (simp add: i_def)
    ultimately show ?thesis using False ne lo hi by (simp add: binary_search_def Let_def flip: i_def)
  qed
qed (simp add: binary_search_def)

lemma binary_search_found: "sorted_wrt (<) xs \<Longrightarrow> binary_search k xs = Inr i \<Longrightarrow> k \<in> set xs"
  using binary_search_spec[of xs k] by auto

lemma map_insert_at [simp]: "map f (insert_at i x xs) = insert_at i (f x) (map f xs)"
  by (simp add: insert_at_def take_map drop_map)

lemma set_insert_at [simp]: "set (insert_at i x xs) = insert x (set xs)"
proof -
  have "set (take i xs) \<union> set (drop i xs) = set xs" by (metis append_take_drop_id set_append)
  then show ?thesis by (auto simp: insert_at_def)
qed

lemma binary_search_insert:
  assumes "sorted_wrt (<) xs" "binary_search k xs = Inl i"
  shows "k \<notin> set xs" "sorted_wrt (<) (insert_at i k xs)"
proof -
  have i: "i \<le> length xs" "k \<notin> set xs" "\<forall>j < i. xs ! j < k" "\<forall>j < length xs. i \<le> j \<longrightarrow> k < xs ! j"
    using binary_search_spec[OF assms(1), of k] assms(2) by auto
  then show "k \<notin> set xs" by blast
  have "\<forall>x \<in> set (take i xs). x < k" "\<forall>x \<in> set (drop i xs). k < x"
    using i by (auto simp: in_set_conv_nth)
  moreover have "sorted_wrt (<) (take i xs @ drop i xs)" using assms(1) by simp
  ultimately show "sorted_wrt (<) (insert_at i k xs)"
    unfolding insert_at_def sorted_wrt_append by auto
qed

end
