(* ===== verification/KeyDispatch.thy ===== *)
theory KeyDispatch
  imports DispatchTree SortedVec
begin

text \<open>
  Dispatch of key strokes and queries for actions along a dispatch path: the second half of
  \<open>crates/lucie/src/key_dispatch.rs\<close>.  None of these functions changes the tree or the keymap, which
  are arguments.  \<open>None\<close> is a panic: an index out of range, or an element removed from an empty input.
\<close>

section \<open>Dispatch of a key stroke\<close>

record 'p replay =
  replay_keystroke :: keystroke
  replay_bindings :: "'p key_binding list"

record 'p dispatch_result =
  pending :: "keystroke list"
  pending_has_binding :: bool
  result_bindings :: "'p key_binding list"
  to_replay :: "'p replay list"
  result_context_stack :: "key_context list"

definition result_default :: "'p dispatch_result" where
  "result_default = \<lparr>pending = [], pending_has_binding = False, result_bindings = [], to_replay = [],
     result_context_stack = []\<rparr>"

text \<open>The contexts of the nodes on a dispatch path.\<close>

fun path_contexts :: "'l dispatch_tree \<Rightarrow> nat list \<Rightarrow> key_context list option" where
  "path_contexts t [] = Some []"
| "path_contexts t (i # path) = do {
     n \<leftarrow> nth_opt (nodes t) i;
     rest \<leftarrow> path_contexts t path;
     Some (case node_context n of Some c \<Rightarrow> c # rest | None \<Rightarrow> rest)
   }"

definition input_bindings ::
  "target_os \<Rightarrow> 'p keymap \<Rightarrow> 'l dispatch_tree \<Rightarrow> keystroke list \<Rightarrow> nat list \<Rightarrow>
     ('p key_binding list \<times> bool \<times> key_context list) option" where
  "input_bindings os km t input path = do {
     context_stack \<leftarrow> path_contexts t path;
     let (bs, partial) = bindings_for_input os km input context_stack in Some (bs, partial, context_stack)
   }"

text \<open>The loop of \<open>replay_prefix\<close>, from the longest prefix down; the argument is the length.\<close>

fun replay_scan ::
  "target_os \<Rightarrow> 'p keymap \<Rightarrow> 'l dispatch_tree \<Rightarrow> keystroke list \<Rightarrow> nat list \<Rightarrow> nat \<Rightarrow>
     (nat \<times> 'p key_binding list) option option" where
  "replay_scan os km t input path 0 = Some None"
| "replay_scan os km t input path (Suc ix) = do {
     (bs, _, _) \<leftarrow> input_bindings os km t (take (Suc ix) input) path;
     if bs \<noteq> [] then Some (Some (ix, bs)) else replay_scan os km t input path ix
   }"

definition replay_prefix ::
  "target_os \<Rightarrow> 'p keymap \<Rightarrow> 'l dispatch_tree \<Rightarrow> keystroke list \<Rightarrow> nat list \<Rightarrow>
     (keystroke list \<times> 'p replay list) option" where
  "replay_prefix os km t input path = do {
     found \<leftarrow> replay_scan os km t input path (length input);
     case found of
       Some (ix, bs) \<Rightarrow> do {
         k \<leftarrow> nth_opt input ix;
         Some (drop (Suc ix) input, [\<lparr>replay_keystroke = k, replay_bindings = bs\<rparr>])
       }
     | None \<Rightarrow>
         (case input of
            [] \<Rightarrow> None
          | k # rest \<Rightarrow> Some (rest, [\<lparr>replay_keystroke = k, replay_bindings = []\<rparr>]))
   }"

lemma replay_prefix_shorter:
  "replay_prefix os km t input path = Some (suffix, rs) \<Longrightarrow> length suffix < length input"
  by (auto simp: replay_prefix_def bind_eq_Some_conv split: option.splits list.splits prod.splits)

function dispatch_key ::
  "target_os \<Rightarrow> 'p keymap \<Rightarrow> 'l dispatch_tree \<Rightarrow> keystroke list \<Rightarrow> keystroke \<Rightarrow> nat list \<Rightarrow>
     'p dispatch_result option" where
  "dispatch_key os km t input k path =
     (case input_bindings os km t (input @ [k]) path of
        None \<Rightarrow> None
      | Some (bs, is_pending, ctxs) \<Rightarrow>
          if is_pending then
            Some (result_default\<lparr>pending := input @ [k], pending_has_binding := (bs \<noteq> []),
                    result_context_stack := ctxs\<rparr>)
          else if bs \<noteq> [] then
            Some (result_default\<lparr>result_bindings := bs, result_context_stack := ctxs\<rparr>)
          else if length (input @ [k]) = 1 then
            Some (result_default\<lparr>result_context_stack := ctxs\<rparr>)
          else
            (case replay_prefix os km t input path of
               None \<Rightarrow> None
             | Some (suffix, replays) \<Rightarrow>
                 map_option (\<lambda>r. r\<lparr>to_replay := replays @ to_replay r\<rparr>)
                   (dispatch_key os km t suffix k path)))"
  by pat_completeness auto
termination
  by (relation "measure (\<lambda>(_, _, _, input, _, _). length input)") (auto dest: replay_prefix_shorter)

declare dispatch_key.simps [simp del]

function flush_dispatch ::
  "target_os \<Rightarrow> 'p keymap \<Rightarrow> 'l dispatch_tree \<Rightarrow> keystroke list \<Rightarrow> nat list \<Rightarrow>
     'p replay list option" where
  "flush_dispatch os km t input path =
     (case replay_prefix os km t input path of
        None \<Rightarrow> None
      | Some (suffix, replays) \<Rightarrow>
          if suffix \<noteq> [] then
            map_option (\<lambda>rs. replays @ rs) (flush_dispatch os km t suffix path)
          else Some replays)"
  by pat_completeness auto
termination
  by (relation "measure (\<lambda>(_, _, _, input, _). length input)") (auto dest: replay_prefix_shorter)

declare flush_dispatch.simps [simp del]

section \<open>Actions along the dispatch path\<close>

text \<open>The listeners of the nodes on a path, in the order of the walk.\<close>

fun path_listeners :: "'l dispatch_tree \<Rightarrow> nat list \<Rightarrow> nat list option" where
  "path_listeners t [] = Some []"
| "path_listeners t (i # path) = do {
     n \<leftarrow> nth_opt (nodes t) i;
     rest \<leftarrow> path_listeners t path;
     Some (map fst (action_listeners n) @ rest)
   }"

definition add_available ::
  "('b \<Rightarrow> 'd option \<Rightarrow> 'e + 'p action) \<Rightarrow> 'b action_registry \<Rightarrow> nat \<Rightarrow> 'p action list \<Rightarrow> 'p action list" where
  "add_available run r ty acts =
     (case binary_search ty (map action_type acts) of
        Inr _ \<Rightarrow> acts
      | Inl ix \<Rightarrow>
          (case build_action_type run r ty of Inr a \<Rightarrow> insert_at ix a acts | Inl _ \<Rightarrow> acts))"

definition available_actions ::
  "('b \<Rightarrow> 'd option \<Rightarrow> 'e + 'p action) \<Rightarrow> 'b action_registry \<Rightarrow> nat \<Rightarrow> 'l dispatch_tree \<Rightarrow>
     'p action list option" where
  "available_actions run r target t = do {
     path \<leftarrow> dispatch_path target t;
     tys \<leftarrow> path_listeners t path;
     Some (fold (add_available run r) tys [])
   }"

fun listens_on :: "'p action \<Rightarrow> 'l dispatch_tree \<Rightarrow> nat list \<Rightarrow> bool option" where
  "listens_on act t [] = Some False"
| "listens_on act t (i # path) = do {
     n \<leftarrow> nth_opt (nodes t) i;
     if list_ex (\<lambda>(ty, _). ty = action_type act) (action_listeners n) then Some True
     else listens_on act t path
   }"

definition is_action_available :: "'p action \<Rightarrow> nat \<Rightarrow> 'l dispatch_tree \<Rightarrow> bool option" where
  "is_action_available act target t = do { path \<leftarrow> dispatch_path target t; listens_on act t path }"

section \<open>Bindings of an action for display\<close>

definition as_keystroke :: "keybinding_keystroke \<Rightarrow> keystroke" where
  "as_keystroke k = inner k"

definition binding_matches_predicate_and_not_shadowed ::
  "target_os \<Rightarrow> 'p keymap \<Rightarrow> key_context list \<Rightarrow> 'p key_binding \<Rightarrow> bool" where
  "binding_matches_predicate_and_not_shadowed os km ctxs b =
     (case fst (bindings_for_input os km (map as_keystroke (keystrokes b)) ctxs) of
        found # _ \<Rightarrow> partial_eq (action found) (action b)
      | [] \<Rightarrow> False)"

definition dispatch_bindings_for_action ::
  "target_os \<Rightarrow> 'p keymap \<Rightarrow> 'p action \<Rightarrow> key_context list \<Rightarrow> 'p key_binding list option" where
  "dispatch_bindings_for_action os km act ctxs =
     map_option (filter (binding_matches_predicate_and_not_shadowed os km ctxs)) (bindings_for_action km act)"

definition highest_precedence_binding_for_action ::
  "target_os \<Rightarrow> 'p keymap \<Rightarrow> 'p action \<Rightarrow> key_context list \<Rightarrow> 'p key_binding option option" where
  "highest_precedence_binding_for_action os km act ctxs =
     map_option (\<lambda>bs. List.find (binding_matches_predicate_and_not_shadowed os km ctxs) (rev bs))
       (bindings_for_action km act)"

section \<open>The replays\<close>

text \<open>
  What a dispatch makes of the pending key strokes: from the front, the longest prefix that has
  bindings is replayed as its last key stroke with those bindings, or one key stroke alone when no
  prefix has any; \<open>dead\<close> says which remainders must be broken up further.
\<close>

inductive replays ::
  "(keystroke list \<Rightarrow> 'p key_binding list) \<Rightarrow> (keystroke list \<Rightarrow> bool) \<Rightarrow>
     keystroke list \<Rightarrow> 'p replay list \<Rightarrow> keystroke list \<Rightarrow> bool" for f dead where
  replays_done: "replays f dead s [] s"
| replays_binding: "dead s \<Longrightarrow> 0 < n \<Longrightarrow> n \<le> length s \<Longrightarrow> f (take n s) \<noteq> [] \<Longrightarrow>
    \<forall>m. n < m \<and> m \<le> length s \<longrightarrow> f (take m s) = [] \<Longrightarrow> replays f dead (drop n s) rs s' \<Longrightarrow>
    replays f dead s (\<lparr>replay_keystroke = s ! (n - 1), replay_bindings = f (take n s)\<rparr> # rs) s'"
| replays_key: "dead (k # s) \<Longrightarrow> \<forall>m. 0 < m \<and> m \<le> length (k # s) \<longrightarrow> f (take m (k # s)) = [] \<Longrightarrow>
    replays f dead s rs s' \<Longrightarrow>
    replays f dead (k # s) (\<lparr>replay_keystroke = k, replay_bindings = []\<rparr> # rs) s'"

inductive_simps replays_Nil [simp]: "replays f dead s [] s'"

lemma replays_segments:
  "replays f dead s rs s' \<Longrightarrow> \<exists>segs. s = concat segs @ s' \<and>
     list_all2 (\<lambda>seg r. seg \<noteq> [] \<and> replay_keystroke r = last seg \<and> replay_bindings r = f seg \<and>
       (f seg \<noteq> [] \<or> length seg = 1)) segs rs"
proof (induction rule: replays.induct)
  case (replays_done s)
  then show ?case by (intro exI[of _ "[]"]) simp
next
  case (replays_binding s n rs s')
  then obtain segs where segs: "drop n s = concat segs @ s'"
    "list_all2 (\<lambda>seg r. seg \<noteq> [] \<and> replay_keystroke r = last seg \<and> replay_bindings r = f seg \<and>
       (f seg \<noteq> [] \<or> length seg = 1)) segs rs" by blast
  have "s ! (n - 1) = last (take n s)" "take n s \<noteq> []"
    using replays_binding(2,3) by (cases n; auto simp: take_Suc_conv_app_nth)+
  moreover have "s = concat (take n s # segs) @ s'"
    using segs(1) append_take_drop_id[of n s] by simp
  ultimately show ?case
    using replays_binding(4) segs(2) by (intro exI[of _ "take n s # segs"] conjI) simp_all
next
  case (replays_key k s rs s')
  then obtain segs where segs: "s = concat segs @ s'"
    "list_all2 (\<lambda>seg r. seg \<noteq> [] \<and> replay_keystroke r = last seg \<and> replay_bindings r = f seg \<and>
       (f seg \<noteq> [] \<or> length seg = 1)) segs rs" by blast
  have "f [k] = []" using replays_key(2)[rule_format, of 1] by simp
  then show ?case using segs by (intro exI[of _ "[k] # segs"]) simp
qed

lemma input_bindings_eq:
  "path_contexts t path = Some ctxs \<Longrightarrow> input_bindings os km t input path =
     Some (fst (bindings_for_input os km input ctxs), snd (bindings_for_input os km input ctxs), ctxs)"
  by (simp add: input_bindings_def split: prod.split)

lemma replay_scan_spec:
  assumes "path_contexts t path = Some ctxs"
  shows "\<exists>r. replay_scan os km t input path n = Some r \<and>
    (case r of
       None \<Rightarrow> \<forall>m. 0 < m \<and> m \<le> n \<longrightarrow> fst (bindings_for_input os km (take m input) ctxs) = []
     | Some (ix, bs) \<Rightarrow> ix < n \<and> bs = fst (bindings_for_input os km (take (Suc ix) input) ctxs) \<and> bs \<noteq> [] \<and>
         (\<forall>m. Suc ix < m \<and> m \<le> n \<longrightarrow> fst (bindings_for_input os km (take m input) ctxs) = []))"
proof (induction n)
  case (Suc n)
  let ?f = "\<lambda>m. fst (bindings_for_input os km (take m input) ctxs)"
  have "fst (bindings_for_input os km (take (Suc n) input) ctxs) = [] \<Longrightarrow> ?case"
    using Suc by (fastforce simp: input_bindings_eq[OF assms] le_Suc_eq split: option.splits)
  moreover have "fst (bindings_for_input os km (take (Suc n) input) ctxs) \<noteq> [] \<Longrightarrow> ?case"
    by (auto simp: input_bindings_eq[OF assms])
  ultimately show ?case by blast
qed simp

lemma replay_prefix_spec:
  fixes os :: target_os and km :: "'p keymap"
  assumes ctxs: "path_contexts t path = Some ctxs" and "input \<noteq> []"
  defines "f \<equiv> \<lambda>s. fst (bindings_for_input os km s ctxs)"
  shows "\<exists>s r. replay_prefix os km t input path = Some (s, [r]) \<and>
    (\<forall>dead rs s'. dead input \<longrightarrow> replays f dead s rs s' \<longrightarrow> replays f dead input (r # rs) s')"
proof -
  obtain r where r: "replay_scan os km t input path (length input) = Some r"
    "case r of
       None \<Rightarrow> \<forall>m. 0 < m \<and> m \<le> length input \<longrightarrow> f (take m input) = []
     | Some (ix, bs) \<Rightarrow> ix < length input \<and> bs = f (take (Suc ix) input) \<and> bs \<noteq> [] \<and>
         (\<forall>m. Suc ix < m \<and> m \<le> length input \<longrightarrow> f (take m input) = [])"
    using replay_scan_spec[OF ctxs, of os km input "length input"] unfolding f_def by blast
  show ?thesis
  proof (cases r)
    case None
    obtain k rest where i: "input = k # rest" using assms(2) by (cases input) auto
    have "replay_prefix os km t input path = Some (rest, [\<lparr>replay_keystroke = k, replay_bindings = []\<rparr>])"
      using r(1) None i by (simp add: replay_prefix_def)
    moreover have "\<forall>m. 0 < m \<and> m \<le> length (k # rest) \<longrightarrow> f (take m (k # rest)) = []"
      using r(2) None i by simp
    ultimately show ?thesis unfolding i using replays_key[of _ k rest f] by blast
  next
    case (Some p)
    then obtain ix bs where p: "r = Some (ix, bs)" by (cases p) auto
    then have ix: "ix < length input" "bs = f (take (Suc ix) input)" "bs \<noteq> []"
      "\<forall>m. Suc ix < m \<and> m \<le> length input \<longrightarrow> f (take m input) = []"
      using r(2) by auto
    have "replay_prefix os km t input path =
        Some (drop (Suc ix) input, [\<lparr>replay_keystroke = input ! (Suc ix - 1), replay_bindings = f (take (Suc ix) input)\<rparr>])"
      using r(1) p ix(1,2) by (simp add: replay_prefix_def nth_opt_def)
    then show ?thesis using replays_binding[of _ input "Suc ix" f] ix by (metis Suc_leI zero_less_Suc)
  qed
qed

lemma flush_dispatch_eq:
  assumes ctxs: "path_contexts t path = Some ctxs" and "input \<noteq> []"
  shows "\<exists>rs. flush_dispatch os km t input path = Some rs \<and>
    replays (\<lambda>s. fst (bindings_for_input os km s ctxs)) (\<lambda>s. s \<noteq> []) input rs []"
  using assms(2)
proof (induction "length input" arbitrary: input rule: less_induct)
  case less
  obtain s r where sr: "replay_prefix os km t input path = Some (s, [r])"
    and step: "\<forall>dead rs s'. dead input \<longrightarrow> replays (\<lambda>s. fst (bindings_for_input os km s ctxs)) dead s rs s' \<longrightarrow>
       replays (\<lambda>s. fst (bindings_for_input os km s ctxs)) dead input (r # rs) s'"
    using replay_prefix_spec[OF ctxs less.prems, of os km] by (elim exE conjE)
  note step = step[rule_format, of "\<lambda>s. s \<noteq> []", OF less.prems]
  show ?case
  proof (cases "s = []")
    case True
    then show ?thesis using sr step[of "[]" s] by (subst flush_dispatch.simps) (auto intro: replays_done)
  next
    case False
    then obtain rs where "flush_dispatch os km t s path = Some rs"
      "replays (\<lambda>s. fst (bindings_for_input os km s ctxs)) (\<lambda>s. s \<noteq> []) s rs []"
      using less.hyps[OF replay_prefix_shorter[OF sr] False] by blast
    then show ?thesis using sr False step by (subst flush_dispatch.simps) simp
  qed
qed

definition unmatched :: "target_os \<Rightarrow> 'p keymap \<Rightarrow> key_context list \<Rightarrow> keystroke \<Rightarrow> keystroke list \<Rightarrow> bool" where
  "unmatched os km ctxs k s \<longleftrightarrow> s \<noteq> [] \<and> bindings_for_input os km (s @ [k]) ctxs = ([], False)"

definition dispatch_outcome ::
  "target_os \<Rightarrow> 'p keymap \<Rightarrow> key_context list \<Rightarrow> keystroke list \<Rightarrow> 'p dispatch_result \<Rightarrow> bool" where
  "dispatch_outcome os km ctxs input r \<longleftrightarrow>
     (let (bs, partial) = bindings_for_input os km input ctxs in
      result_context_stack r = ctxs \<and>
      (if partial then pending r = input \<and> pending_has_binding r = (bs \<noteq> []) \<and> result_bindings r = []
       else pending r = [] \<and> \<not> pending_has_binding r \<and> result_bindings r = bs \<and>
         (bs \<noteq> [] \<or> length input = 1)))"

lemma dispatch_key_eq:
  assumes ctxs: "path_contexts t path = Some ctxs"
  shows "\<exists>r s. dispatch_key os km t input k path = Some r \<and>
    replays (\<lambda>s. fst (bindings_for_input os km s ctxs)) (unmatched os km ctxs k) input (to_replay r) s \<and>
    dispatch_outcome os km ctxs (s @ [k]) r"
proof (induction "length input" arbitrary: input rule: less_induct)
  case less
  note ib = input_bindings_eq[OF ctxs]
  show ?case
  proof (cases "unmatched os km ctxs k input")
    case False
    obtain bs p where m: "bindings_for_input os km (input @ [k]) ctxs = (bs, p)" by fastforce
    have "\<exists>r. dispatch_key os km t input k path = Some r \<and> to_replay r = [] \<and>
        dispatch_outcome os km ctxs (input @ [k]) r"
      using False by (subst dispatch_key.simps)
        (auto simp: ib m unmatched_def dispatch_outcome_def result_default_def)
    then show ?thesis by (metis replays_done)
  next
    case True
    then have "input \<noteq> []" by (simp add: unmatched_def)
    obtain s r where sr: "replay_prefix os km t input path = Some (s, [r])"
      and step: "\<forall>dead rs s'. dead input \<longrightarrow> replays (\<lambda>s. fst (bindings_for_input os km s ctxs)) dead s rs s' \<longrightarrow>
       replays (\<lambda>s. fst (bindings_for_input os km s ctxs)) dead input (r # rs) s'"
      using replay_prefix_spec[OF ctxs \<open>input \<noteq> []\<close>, of os km] by (elim exE conjE)
    obtain r' s' where r': "dispatch_key os km t s k path = Some r'"
      "replays (\<lambda>s. fst (bindings_for_input os km s ctxs)) (unmatched os km ctxs k) s (to_replay r') s'"
      "dispatch_outcome os km ctxs (s' @ [k]) r'"
      using less[OF replay_prefix_shorter[OF sr]] by blast
    have "dispatch_key os km t input k path = Some (r'\<lparr>to_replay := [r] @ to_replay r'\<rparr>)"
      using True sr(1) r'(1) by (subst dispatch_key.simps) (simp add: ib unmatched_def)
    then show ?thesis
      using step[rule_format, of "unmatched os km ctxs k", OF True r'(2)] r'(3)
      by (auto simp: dispatch_outcome_def)
  qed
qed

section \<open>The queries\<close>

lemma path_contexts_eq:
  "\<forall>i \<in> set path. i < length (nodes t) \<Longrightarrow> path_contexts t path = Some (contexts_on (nodes t) path)"
  by (induction path) (auto simp: contexts_on_def map_filter_simps nth_opt_def split: option.split)

lemma path_listeners_eq:
  "\<forall>i \<in> set path. i < length (nodes t) \<Longrightarrow>
     path_listeners t path = Some (concat (map (\<lambda>i. map fst (action_listeners (nodes t ! i))) path))"
  by (induction path) (auto simp: nth_opt_def)

lemma listens_on_eq:
  "\<forall>i \<in> set path. i < length (nodes t) \<Longrightarrow>
     listens_on act t path = Some (\<exists>i \<in> set path. action_type act \<in> fst ` set (action_listeners (nodes t ! i)))"
  by (induction path) (auto simp: nth_opt_def list_ex_iff rev_image_eqI)

lemma reachable_path_range:
  assumes "tree_inv t" "n < length (nodes t)"
  obtains path where "dispatch_path n t = Some path" "\<forall>i \<in> set path. i < length (nodes t)"
    "path_contexts t path = Some (contexts_on (nodes t) path)"
proof -
  obtain xs where x: "path_from (nodes t) None (xs @ [n])" "dispatch_path n t = Some (xs @ [n])"
    using reachable_path[OF assms] by blast
  have "\<forall>i \<in> set (xs @ [n]). i < length (nodes t)" using path_from_range[OF x(1)] by blast
  with that x(2) path_contexts_eq show ?thesis by blast
qed

text \<open>A registry builds each type as an action of that type.\<close>

definition builds_own_type :: "('b \<Rightarrow> 'd option \<Rightarrow> 'e + 'p action) \<Rightarrow> 'b action_registry \<Rightarrow> bool" where
  "builds_own_type run r \<longleftrightarrow>
     (\<forall>ty a. build_action_type run r ty = Inr a \<longrightarrow> action_type a = ty)"

lemma add_available_step:
  assumes own: "builds_own_type run r" and srt: "sorted_wrt (<) (map action_type acts)"
    and acts: "set acts = {a. \<exists>ty \<in> tys. build_action_type run r ty = Inr a}"
  shows "sorted_wrt (<) (map action_type (add_available run r ty acts)) \<and>
    set (add_available run r ty acts) = {a. \<exists>ty \<in> insert ty tys. build_action_type run r ty = Inr a}"
proof (cases "binary_search ty (map action_type acts)")
  case (Inr i)
  then obtain a where a: "a \<in> set acts" "action_type a = ty" using binary_search_found[OF srt] by force
  then obtain ty' where "build_action_type run r ty' = Inr a" using acts by auto
  with own a(2) have "build_action_type run r ty = Inr a" by (auto simp: builds_own_type_def)
  then show ?thesis using srt acts a(1) by (auto simp: add_available_def Inr)
next
  case (Inl i)
  note ins = binary_search_insert[OF srt Inl]
  show ?thesis
  proof (cases "build_action_type run r ty")
    case (Inr a)
    then have "action_type a = ty" using own by (auto simp: builds_own_type_def)
    then show ?thesis using ins acts by (auto simp: add_available_def Inl Inr)
  qed (use srt acts in \<open>auto simp: add_available_def Inl\<close>)
qed

lemma fold_add_available:
  assumes own: "builds_own_type run r"
  shows "sorted_wrt (<) (map action_type acts) \<Longrightarrow> set acts = {a. \<exists>ty \<in> S. build_action_type run r ty = Inr a} \<Longrightarrow>
    sorted_wrt (<) (map action_type (fold (add_available run r) tys acts)) \<and>
    set (fold (add_available run r) tys acts) = {a. \<exists>ty \<in> set tys \<union> S. build_action_type run r ty = Inr a}"
proof (induction tys arbitrary: acts S)
  case (Cons ty tys)
  have "set tys \<union> insert ty S = set (ty # tys) \<union> S" by auto
  then show ?case
    using Cons.IH[of "add_available run r ty acts" "insert ty S"] add_available_step[OF own Cons.prems] by simp
qed simp

lemma find_rev_filter: "List.find P (rev xs) = last_opt (filter P xs)"
proof (induction xs rule: rev_induct)
  case (snoc x xs)
  then show ?case by (simp add: last_opt_def)
qed (simp add: last_opt_def)

section \<open>Properties\<close>

text \<open>C1: dispatching a key along the path of a node never panics and ends.  The pending key strokes are
  broken up from the front, always at the longest prefix that has bindings, for as long as the rest
  with the new key neither matches nor is a prefix of a binding; then the rest with the key is
  pending, or its bindings are returned, or the lone key has none.\<close>

theorem dispatch_key_spec:
  assumes "tree_reachable t" "n < length (nodes t)"
  shows "\<exists>path r s. dispatch_path n t = Some path \<and> dispatch_key os km t input k path = Some r \<and>
    replays (\<lambda>s. fst (bindings_for_input os km s (contexts_on (nodes t) path)))
      (unmatched os km (contexts_on (nodes t) path) k) input (to_replay r) s \<and>
    dispatch_outcome os km (contexts_on (nodes t) path) (s @ [k]) r"
proof -
  obtain path where p: "dispatch_path n t = Some path"
    "path_contexts t path = Some (contexts_on (nodes t) path)"
    using reachable_path_range[OF tree_reachable_inv[OF assms(1)] assms(2)] by blast
  show ?thesis using p(1) dispatch_key_eq[OF p(2), of os km input k] by blast
qed

lemma two_focused_len: "length (nodes two_focused) = 2"
  by (simp add: two_focused_eval)

definition unmodified :: "str \<Rightarrow> keystroke" where
  "unmodified s = \<lparr>modifiers = mods_none, key = s, key_char = None\<rparr>"

definition two_key_map :: "unit keymap" where
  "two_key_map = keymap_new [\<lparr>action = \<lparr>action_type = 1, action_value = ()\<rparr>,
     keystrokes = [\<lparr>inner = unmodified ''g'', display = None\<rparr>, \<lparr>inner = unmodified ''h'', display = None\<rparr>],
     context_predicate = None, meta = None, action_input = None\<rparr>]"

lemma two_key_map_g: "bindings_for_input Linux two_key_map [unmodified ''g''] ctxs = ([], True)"
  by (simp add: bindings_for_input_def two_key_map_def keymap_new_def keymap_default_def
      binding_enabled_def match_keystrokes_def should_match_def sort_by_precedence_def
      is_no_action_def no_action_type_def plain_key_def Set.is_empty_iff)

theorem dispatch_key_spec_witness:
  "map_option pending (dispatch_key Linux two_key_map two_focused [] (unmodified ''g'') [0, 1]) = Some [unmodified ''g'']"
proof -
  obtain path r s where r: "dispatch_path 1 two_focused = Some path"
    "dispatch_key Linux two_key_map two_focused [] (unmodified ''g'') path = Some r"
    "replays (\<lambda>s. fst (bindings_for_input Linux two_key_map s (contexts_on (nodes two_focused) path)))
      (unmatched Linux two_key_map (contexts_on (nodes two_focused) path) (unmodified ''g'')) [] (to_replay r) s"
    "dispatch_outcome Linux two_key_map (contexts_on (nodes two_focused) path) (s @ [unmodified ''g'']) r"
    using dispatch_key_spec[OF two_focused_reachable, of 1 Linux two_key_map "[]" "unmodified ''g''"]
    by (auto simp: two_focused_len)
  have "s = []" using r(3) by (cases rule: replays.cases) (auto simp: unmatched_def)
  then show ?thesis using r(1,2,4) two_focused_path by (simp add: dispatch_outcome_def two_key_map_g)
qed

text \<open>Flushing pending key strokes never panics on a non-empty input and ends: the input is cut,
  without losing or reordering a key, into segments that have bindings, or one key each; every
  segment is replayed as its last key with its bindings, and always the longest prefix is taken.\<close>

theorem flush_dispatch_spec:
  assumes "tree_reachable t" "n < length (nodes t)" "input \<noteq> []"
  shows "\<exists>path rs segs. dispatch_path n t = Some path \<and> flush_dispatch os km t input path = Some rs \<and>
    replays (\<lambda>s. fst (bindings_for_input os km s (contexts_on (nodes t) path))) (\<lambda>s. s \<noteq> []) input rs [] \<and>
    input = concat segs \<and>
    list_all2 (\<lambda>seg r. seg \<noteq> [] \<and> replay_keystroke r = last seg \<and>
      replay_bindings r = fst (bindings_for_input os km seg (contexts_on (nodes t) path)) \<and>
      (replay_bindings r \<noteq> [] \<or> length seg = 1)) segs rs"
proof -
  obtain path where p: "dispatch_path n t = Some path"
    "path_contexts t path = Some (contexts_on (nodes t) path)"
    using reachable_path_range[OF tree_reachable_inv[OF assms(1)] assms(2)] by blast
  obtain rs where rs: "flush_dispatch os km t input path = Some rs"
    "replays (\<lambda>s. fst (bindings_for_input os km s (contexts_on (nodes t) path))) (\<lambda>s. s \<noteq> []) input rs []"
    using flush_dispatch_eq[OF p(2) assms(3)] by blast
  from replays_segments[OF rs(2)] obtain segs where segs: "input = concat segs"
    "list_all2 (\<lambda>seg r. seg \<noteq> [] \<and> replay_keystroke r = last seg \<and>
       replay_bindings r = fst (bindings_for_input os km seg (contexts_on (nodes t) path)) \<and>
       (fst (bindings_for_input os km seg (contexts_on (nodes t) path)) \<noteq> [] \<or> length seg = 1)) segs rs"
    by auto
  have "list_all2 (\<lambda>seg r. seg \<noteq> [] \<and> replay_keystroke r = last seg \<and>
      replay_bindings r = fst (bindings_for_input os km seg (contexts_on (nodes t) path)) \<and>
      (replay_bindings r \<noteq> [] \<or> length seg = 1)) segs rs"
    using segs(2) by (rule list_all2_mono) auto
  then show ?thesis using p(1) rs segs(1) by blast
qed

theorem flush_dispatch_spec_witness:
  "\<exists>rs. flush_dispatch Linux two_key_map two_focused [unmodified ''g''] [0, 1] = Some rs \<and> rs \<noteq> []"
  using flush_dispatch_spec[OF two_focused_reachable, of 1 "[unmodified ''g'']" Linux two_key_map] two_focused_path
  by (fastforce simp: two_focused_len)

text \<open>\<open>available_actions\<close> lists, in the order of their types and without repetition, the actions
  that the registry can build without data for the types listened to on the dispatch path, and
  \<open>is_action_available\<close> says whether a node on that path listens to the type of the action.\<close>

theorem available_actions_spec:
  assumes "tree_reachable t" "n < length (nodes t)" "builds_own_type run r"
  shows "\<exists>path acts. dispatch_path n t = Some path \<and> available_actions run r n t = Some acts \<and>
    sorted_wrt (<) (map action_type acts) \<and>
    set acts = {a. \<exists>i \<in> set path. \<exists>ty \<in> fst ` set (action_listeners (nodes t ! i)).
      build_action_type run r ty = Inr a} \<and>
    is_action_available act n t =
      Some (\<exists>i \<in> set path. action_type act \<in> fst ` set (action_listeners (nodes t ! i)))"
proof -
  obtain path where p: "dispatch_path n t = Some path" "\<forall>i \<in> set path. i < length (nodes t)"
    "path_contexts t path = Some (contexts_on (nodes t) path)"
    by (rule reachable_path_range[OF tree_reachable_inv[OF assms(1)] assms(2)])
  let ?tys = "concat (map (\<lambda>i. map fst (action_listeners (nodes t ! i))) path)"
  have "sorted_wrt (<) (map action_type (fold (add_available run r) ?tys []))"
    "set (fold (add_available run r) ?tys []) = {a. \<exists>ty \<in> set ?tys \<union> {}. build_action_type run r ty = Inr a}"
    using fold_add_available[OF assms(3), of "[]" "{}" ?tys] by auto
  moreover have "available_actions run r n t = Some (fold (add_available run r) ?tys [])"
    by (simp add: available_actions_def p(1) path_listeners_eq[OF p(2)])
  moreover have "is_action_available act n t =
      Some (\<exists>i \<in> set path. action_type act \<in> fst ` set (action_listeners (nodes t ! i)))"
    by (simp add: is_action_available_def p(1) listens_on_eq[OF p(2)])
  moreover have "(\<exists>ty \<in> set ?tys \<union> {}. build_action_type run r ty = Inr a) \<longleftrightarrow>
      (\<exists>i \<in> set path. \<exists>ty \<in> fst ` set (action_listeners (nodes t ! i)). build_action_type run r ty = Inr a)" for a
    by (simp add: bex_simps)
  ultimately show ?thesis using p(1) by (intro exI conjI) simp_all
qed

theorem available_actions_spec_witness:
  "available_actions (\<lambda>_ (_ :: unit option). Inl () :: unit + unit action) (empty_registry :: unit action_registry) 1 two_focused = Some []"
proof -
  have "builds_own_type (\<lambda>_ (_ :: unit option). Inl () :: unit + unit action) (empty_registry :: unit action_registry)"
    by (simp add: builds_own_type_def build_action_type_def empty_registry_def)
  from available_actions_spec[OF two_focused_reachable _ this, of 1 "\<lparr>action_type = 1, action_value = ()\<rparr>"]
  obtain acts where "available_actions (\<lambda>_ (_ :: unit option). Inl () :: unit + unit action)
      (empty_registry :: unit action_registry) 1 two_focused = Some acts" "set acts = {}"
    by (auto simp: two_focused_len build_action_type_def empty_registry_def)
  then show ?thesis by simp
qed

text \<open>The binding with the highest precedence for an action is the last of the bindings listed for
  it, as its comment promises; both keep only the bindings that their own keystrokes find first.\<close>

theorem highest_precedence_is_last:
  assumes "keymap_reachable km"
  shows "\<exists>bs. dispatch_bindings_for_action os km act ctxs = Some bs \<and>
    highest_precedence_binding_for_action os km act ctxs = Some (last_opt bs) \<and>
    list_all (\<lambda>b. partial_eq (action b) act \<and> binding_matches_predicate_and_not_shadowed os km ctxs b) bs"
  using bindings_for_action_eq[OF keymap_reachable_inv[OF assms], of act]
  by (auto simp: dispatch_bindings_for_action_def highest_precedence_binding_for_action_def find_rev_filter
      list_all_iff)

theorem highest_precedence_is_last_witness:
  "highest_precedence_binding_for_action Linux (keymap_new []) \<lparr>action_type = 1, action_value = ()\<rparr> [] = Some None"
  using highest_precedence_is_last[OF reach_new, of Linux "[]" "\<lparr>action_type = 1, action_value = ()\<rparr>" "[]"]
  by (auto simp: dispatch_bindings_for_action_def keymap_new_def bindings_for_action_def keymap_default_def
      add_bindings_def)

end
