(* ===== verification/PredicateParser.thy ===== *)
theory PredicateParser
  imports ContextPredicate
begin

text \<open>
  The parser and the printer of context predicates: \<open>KeyBindingContextPredicate::parse\<close> and its
  helpers, and the \<open>Display\<close> implementation, of \<open>crates/lucie/src/keymap/context.rs\<close>.  The
  recursive-descent parser spends one unit of fuel per call and per turn of its operator loop;
  \<open>None\<close> is running out of fuel, which the amount given by \<open>predicate_parse\<close> never does.
\<close>

datatype parse_error =
    UnexpectedEnd
  | UnexpectedCharacter char
  | ExpectedClosingParen
  | EqOperandsNotIdentifiers
  | NeqOperandsNotIdentifiers

type_synonym 'a parse_result = "(parse_error + 'a) option"

definition parse_bind :: "'a parse_result \<Rightarrow> ('a \<Rightarrow> 'b parse_result) \<Rightarrow> 'b parse_result" where
  "parse_bind m f =
     (case m of None \<Rightarrow> None | Some (Inl e) \<Rightarrow> Some (Inl e) | Some (Inr x) \<Rightarrow> f x)"

lemma parse_bind_simps [simp]:
  "parse_bind None f = None"
  "parse_bind (Some (Inl e)) f = Some (Inl e)"
  "parse_bind (Some (Inr x)) f = f x"
  by (simp_all add: parse_bind_def)

lemma parse_bind_Some:
  "parse_bind m f = Some r \<longleftrightarrow>
     (\<exists>e. m = Some (Inl e) \<and> r = Inl e) \<or> (\<exists>x. m = Some (Inr x) \<and> f x = Some r)"
  by (auto simp: parse_bind_def split: option.splits sum.splits)

section \<open>The parser\<close>

definition is_vim_operator_char :: "char \<Rightarrow> bool" where
  "is_vim_operator_char c \<longleftrightarrow>
     c = CHR ''>'' \<or> c = CHR ''<'' \<or> c = CHR ''~'' \<or> c = CHR 0x22 \<or> c = CHR ''?''"

definition precedence_child :: nat where "precedence_child = 1"
definition precedence_or :: nat where "precedence_or = 2"
definition precedence_and :: nat where "precedence_and = 3"
definition precedence_eq :: nat where "precedence_eq = 4"
definition precedence_not :: nat where "precedence_not = 5"

lemmas precedence_defs [simp] =
  precedence_child_def precedence_or_def precedence_and_def precedence_eq_def precedence_not_def

datatype operator = NewChild | NewAnd | NewOr | NewEq | NewNeq

definition operators :: "(str \<times> nat \<times> operator) list" where
  "operators =
     [(''>'', precedence_child, NewChild), (''&&'', precedence_and, NewAnd),
      (''||'', precedence_or, NewOr), (''=='', precedence_eq, NewEq),
      (''!='', precedence_eq, NewNeq)]"

definition construct :: "operator \<Rightarrow> predicate \<Rightarrow> predicate \<Rightarrow> parse_error + predicate" where
  "construct op self other =
     (case op of
        NewChild \<Rightarrow> Inr (Descendant self other)
      | NewAnd \<Rightarrow> Inr (AndP self other)
      | NewOr \<Rightarrow> Inr (OrP self other)
      | NewEq \<Rightarrow>
          (case (self, other) of (Identifier left, Identifier right) \<Rightarrow> Inr (Equal left right)
           | _ \<Rightarrow> Inl EqOperandsNotIdentifiers)
      | NewNeq \<Rightarrow>
          (case (self, other) of (Identifier left, Identifier right) \<Rightarrow> Inr (NotEqual left right)
           | _ \<Rightarrow> Inl NeqOperandsNotIdentifiers))"

definition starts_with :: "str \<Rightarrow> str \<Rightarrow> bool" where
  "starts_with source prefix \<longleftrightarrow> take (length prefix) source = prefix"

text \<open>The first operator of the table that the text starts with and that binds tightly enough.\<close>

definition pick_operator :: "str \<Rightarrow> nat \<Rightarrow> (str \<times> nat \<times> operator) option" where
  "pick_operator source min_precedence =
     find (\<lambda>(op, precedence, _). starts_with source op \<and> min_precedence \<le> precedence) operators"

fun parse_expr :: "nat \<Rightarrow> str \<Rightarrow> nat \<Rightarrow> (predicate \<times> str) parse_result"
and parse_loop :: "nat \<Rightarrow> predicate \<Rightarrow> str \<Rightarrow> nat \<Rightarrow> (predicate \<times> str) parse_result"
and parse_primary :: "nat \<Rightarrow> str \<Rightarrow> (predicate \<times> str) parse_result" where
  "parse_expr 0 source min_precedence = None"
| "parse_expr (Suc n) source min_precedence =
     parse_bind (parse_primary n source) (\<lambda>(p, rest). parse_loop n p rest min_precedence)"
| "parse_loop 0 p source min_precedence = None"
| "parse_loop (Suc n) p source min_precedence =
     (case pick_operator source min_precedence of
        None \<Rightarrow> Some (Inr (p, source))
      | Some (op, precedence, constructor) \<Rightarrow>
          parse_bind (parse_expr n (skip_ws (drop (length op) source)) (precedence + 1))
            (\<lambda>(right, rest).
               case construct constructor p right of
                 Inl e \<Rightarrow> Some (Inl e)
               | Inr p' \<Rightarrow> parse_loop n p' rest min_precedence))"
| "parse_primary 0 source = None"
| "parse_primary (Suc n) source =
     (case source of
        [] \<Rightarrow> Some (Inl UnexpectedEnd)
      | c # tail \<Rightarrow>
          if c = CHR ''('' then
            parse_bind (parse_expr n (skip_ws tail) 0)
              (\<lambda>(p, rest).
                 case rest of
                   [] \<Rightarrow> Some (Inl ExpectedClosingParen)
                 | d # stripped \<Rightarrow>
                     if d = CHR '')'' then Some (Inr (p, skip_ws stripped))
                     else Some (Inl ExpectedClosingParen))
          else if c = CHR ''!'' then
            parse_bind (parse_expr n (skip_ws tail) precedence_not)
              (\<lambda>(p, rest). Some (Inr (NotP p, rest)))
          else if is_identifier_char c then
            Some (Inr (Identifier (takeWhile (\<lambda>d. is_identifier_char d \<or> is_vim_operator_char d) source),
              skip_ws (dropWhile (\<lambda>d. is_identifier_char d \<or> is_vim_operator_char d) source)))
          else if is_vim_operator_char c then Some (Inr (Identifier [c], skip_ws tail))
          else Some (Inl (UnexpectedCharacter c)))"

definition predicate_parse :: "str \<Rightarrow> predicate parse_result" where
  "predicate_parse source =
     (let source = skip_ws source in
      parse_bind (parse_expr (2 * length source + 2) source 0)
        (\<lambda>(p, rest). case rest of [] \<Rightarrow> Some (Inr p) | c # _ \<Rightarrow> Some (Inl (UnexpectedCharacter c))))"

section \<open>The printer\<close>

fun predicate_print :: "predicate \<Rightarrow> str" where
  "predicate_print (Identifier name) = name"
| "predicate_print (Equal left right) = left @ '' == '' @ right"
| "predicate_print (NotEqual left right) = left @ '' != '' @ right"
| "predicate_print (NotP p) = ''!'' @ predicate_print p"
| "predicate_print (Descendant parent child) = predicate_print parent @ '' > '' @ predicate_print child"
| "predicate_print (AndP left right) =
     ''('' @ predicate_print left @ '' && '' @ predicate_print right @ '')''"
| "predicate_print (OrP left right) =
     ''('' @ predicate_print left @ '' || '' @ predicate_print right @ '')''"

section \<open>Enough fuel\<close>

lemma pick_operator_Some:
  assumes "pick_operator s m = Some (op, prec, c)"
  shows "op \<noteq> [] \<and> length op \<le> length s \<and> take (length op) s = op \<and> m \<le> prec \<and>
    (op, prec, c) \<in> set operators"
proof -
  from assms have mem: "(op, prec, c) \<in> set operators" and st: "starts_with s op" "m \<le> prec"
    by (auto simp: pick_operator_def find_Some_iff dest: nth_mem)
  from mem have "op \<noteq> []" by (auto simp: operators_def)
  moreover have "length op \<le> length s"
    using st(1) by (metis length_take min.cobounded1 min_def starts_with_def)
  ultimately show ?thesis using mem st by (simp add: starts_with_def)
qed

lemma parse_fuel_enough:
  "2 * length s + 2 \<le> n \<Longrightarrow> \<exists>r. parse_expr n s m = Some r \<and>
     (\<forall>p rest. r = Inr (p, rest) \<longrightarrow> length rest < length s)"
  "2 * length s + 1 \<le> n \<Longrightarrow> \<exists>r. parse_loop n q s m = Some r \<and>
     (\<forall>p rest. r = Inr (p, rest) \<longrightarrow> length rest \<le> length s)"
  "2 * length s + 1 \<le> n \<Longrightarrow> \<exists>r. parse_primary n s = Some r \<and>
     (\<forall>p rest. r = Inr (p, rest) \<longrightarrow> length rest < length s)"
proof (induction n arbitrary: s m q)
  case 0
  { case 1 then show ?case by simp }
  { case 2 then show ?case by simp }
  { case 3 then show ?case by simp }
next
  case (Suc n)
  { case 1
    then obtain r where r: "parse_primary n s = Some r"
      "\<forall>p rest. r = Inr (p, rest) \<longrightarrow> length rest < length s" using Suc.IH(3)[of s] by auto
    show ?case
    proof (cases r)
      case (Inl e)
      with r show ?thesis by simp
    next
      case (Inr x)
      obtain p rest where x: "x = (p, rest)" by (cases x)
      with r Inr have l: "length rest < length s" by simp
      with 1 obtain r' where "parse_loop n p rest m = Some r'"
        "\<forall>p' rest'. r' = Inr (p', rest') \<longrightarrow> length rest' \<le> length rest"
        using Suc.IH(2)[of rest p m] by auto
      with r Inr x l show ?thesis by fastforce
    qed }
  { case 2
    show ?case
    proof (cases "pick_operator s m")
      case None
      then show ?thesis by simp
    next
      case (Some t)
      obtain op prec c where t: "t = (op, prec, c)" by (cases t)
      note op = pick_operator_Some[OF Some[unfolded t]]
      let ?s = "skip_ws (drop (length op) s)"
      have "0 < length op" "length op \<le> length s" using op by simp_all
      then have "length (drop (length op) s) < length s" unfolding length_drop by linarith
      then have l: "length ?s < length s" using length_skip_ws[of "drop (length op) s"] by simp
      with 2 obtain r where r: "parse_expr n ?s (prec + 1) = Some r"
        "\<forall>p rest. r = Inr (p, rest) \<longrightarrow> length rest < length ?s"
        using Suc.IH(1)[of ?s "prec + 1"] by auto
      show ?thesis
      proof (cases r)
        case (Inl e)
        with r Some t show ?thesis by simp
      next
        case (Inr x)
        obtain p rest where x: "x = (p, rest)" by (cases x)
        with r Inr l have l': "length rest < length s" by force
        show ?thesis
        proof (cases "construct c q p")
          case (Inl e)
          with r Some t x Inr show ?thesis by simp
        next
          case I2: (Inr p')
          obtain r' where "parse_loop n p' rest m = Some r'"
            "\<forall>p' rest'. r' = Inr (p', rest') \<longrightarrow> length rest' \<le> length rest"
            using Suc.IH(2)[of rest p' m] l' 2 by auto
          with r Some t x Inr I2 l' show ?thesis by fastforce
        qed
      qed
    qed }
  { case 3
    show ?case
    proof (cases s)
      case Nil
      then show ?thesis by simp
    next
      case (Cons c tail)
      have l: "length (skip_ws tail) \<le> length tail" by (rule length_skip_ws)
      have IH: "\<exists>r. parse_expr n (skip_ws tail) k = Some r \<and>
          (\<forall>p rest. r = Inr (p, rest) \<longrightarrow> length rest < length (skip_ws tail))" for k
        using Suc.IH(1)[of "skip_ws tail" k] 3 l Cons by simp
      consider (paren) "c = CHR ''(''" | (bang) "c = CHR ''!''"
        | (other) "c \<noteq> CHR ''(''" "c \<noteq> CHR ''!''" by blast
      then show ?thesis
      proof cases
        case paren
        obtain r where r: "parse_expr n (skip_ws tail) 0 = Some r"
          "\<forall>p rest. r = Inr (p, rest) \<longrightarrow> length rest < length (skip_ws tail)"
          using IH by blast
        have "length (skip_ws xs) < Suc (length tail)" if "length xs < length (skip_ws tail)" for xs
          using that l length_skip_ws[of xs] by simp
        then show ?thesis using r l Cons paren
          by (cases r) (fastforce split: list.splits)+
      next
        case bang
        obtain r where "parse_expr n (skip_ws tail) precedence_not = Some r"
          "\<forall>p rest. r = Inr (p, rest) \<longrightarrow> length rest < length (skip_ws tail)"
          using IH by blast
        then show ?thesis using l Cons bang by (cases r) fastforce+
      next
        case other
        have "length (skip_ws (dropWhile (\<lambda>d. is_identifier_char d \<or> is_vim_operator_char d) tail))
            \<le> length tail"
          by (meson length_dropWhile_le length_skip_ws order_trans)
        then show ?thesis using Cons other l by auto
      qed
    qed }
qed

lemma parse_bind_mono:
  assumes "parse_bind m f = Some r" "\<And>r. m = Some r \<Longrightarrow> m' = Some r"
    "\<And>x r. f x = Some r \<Longrightarrow> f' x = Some r"
  shows "parse_bind m' f' = Some r"
  using assms by (auto simp: parse_bind_Some)

lemma parse_fuel_Suc:
  "parse_expr n s m = Some r \<Longrightarrow> parse_expr (Suc n) s m = Some r"
  "parse_loop n q s m = Some r \<Longrightarrow> parse_loop (Suc n) q s m = Some r"
  "parse_primary n s = Some r \<Longrightarrow> parse_primary (Suc n) s = Some r"
proof (induction n arbitrary: s m q r)
  case 0
  { case 1 then show ?case by simp }
  { case 2 then show ?case by simp }
  { case 3 then show ?case by simp }
next
  case (Suc n)
  { case 1
    then have "parse_bind (parse_primary n s) (\<lambda>(p, rest). parse_loop n p rest m) = Some r"
      unfolding parse_expr.simps(2)[of n] .
    then show ?case
      unfolding parse_expr.simps(2)[of "Suc n"]
      by (rule parse_bind_mono) (auto simp del: parse_loop.simps parse_primary.simps intro: Suc.IH) }
  { case 2
    show ?case
    proof (cases "pick_operator s m")
      case None
      with 2 show ?thesis by simp
    next
      case (Some t)
      obtain op prec c where t: "t = (op, prec, c)" by (cases t)
      with 2 Some have "parse_bind (parse_expr n (skip_ws (drop (length op) s)) (prec + 1))
          (\<lambda>(right, rest). case construct c q right of Inl e \<Rightarrow> Some (Inl e)
             | Inr p' \<Rightarrow> parse_loop n p' rest m) = Some r"
        unfolding parse_loop.simps(2)[of n] by simp
      then have "parse_bind (parse_expr (Suc n) (skip_ws (drop (length op) s)) (prec + 1))
          (\<lambda>(right, rest). case construct c q right of Inl e \<Rightarrow> Some (Inl e)
             | Inr p' \<Rightarrow> parse_loop (Suc n) p' rest m) = Some r"
        by (rule parse_bind_mono)
           (auto simp del: parse_loop.simps parse_expr.simps intro: Suc.IH split: sum.splits)
      then show ?thesis
        unfolding parse_loop.simps(2)[of "Suc n"] Some t by simp
    qed }
  { case 3
    show ?case
    proof (cases s)
      case Nil
      with 3 show ?thesis by simp
    next
      case (Cons c tail)
      have m: "parse_bind (parse_expr (Suc n) (skip_ws tail) k) f = Some r"
        if "parse_bind (parse_expr n (skip_ws tail) k) f = Some r" for k and f :: "predicate \<times> str \<Rightarrow> (predicate \<times> str) parse_result"
        by (rule parse_bind_mono[OF that]) (auto simp del: parse_expr.simps intro: Suc.IH)
      show ?thesis
        using 3 unfolding parse_primary.simps(2)[of n] parse_primary.simps(2)[of "Suc n"] Cons list.case
        by (auto simp del: parse_expr.simps intro: m split: if_splits)
    qed }
qed

lemma parse_fuel_mono:
  "parse_expr n s m = Some r \<Longrightarrow> n \<le> k \<Longrightarrow> parse_expr k s m = Some r"
  "parse_loop n q s m = Some r \<Longrightarrow> n \<le> k \<Longrightarrow> parse_loop k q s m = Some r"
  "parse_primary n s = Some r \<Longrightarrow> n \<le> k \<Longrightarrow> parse_primary k s = Some r"
proof -
  have step: "P k" if "P n" "n \<le> k" "\<And>k. P k \<Longrightarrow> P (Suc k)" for P :: "nat \<Rightarrow> bool"
    using that(2,1,3) by (rule dec_induct)
  show "parse_expr n s m = Some r \<Longrightarrow> n \<le> k \<Longrightarrow> parse_expr k s m = Some r"
    by (rule step[of "\<lambda>k. parse_expr k s m = Some r"]) (blast intro: parse_fuel_Suc)+
  show "parse_loop n q s m = Some r \<Longrightarrow> n \<le> k \<Longrightarrow> parse_loop k q s m = Some r"
    by (rule step[of "\<lambda>k. parse_loop k q s m = Some r"]) (blast intro: parse_fuel_Suc)+
  show "parse_primary n s = Some r \<Longrightarrow> n \<le> k \<Longrightarrow> parse_primary k s = Some r"
    by (rule step[of "\<lambda>k. parse_primary k s = Some r"]) (blast intro: parse_fuel_Suc)+
qed

section \<open>Parsing what was printed\<close>

definition exprs :: "str \<Rightarrow> nat \<Rightarrow> parse_error + (predicate \<times> str) \<Rightarrow> bool" where
  "exprs s m r \<longleftrightarrow> (\<exists>n. parse_expr n s m = Some r)"

definition loops :: "predicate \<Rightarrow> str \<Rightarrow> nat \<Rightarrow> parse_error + (predicate \<times> str) \<Rightarrow> bool" where
  "loops p s m r \<longleftrightarrow> (\<exists>n. parse_loop n p s m = Some r)"

definition prims :: "str \<Rightarrow> parse_error + (predicate \<times> str) \<Rightarrow> bool" where
  "prims s r \<longleftrightarrow> (\<exists>n. parse_primary n s = Some r)"

lemma exprsI:
  assumes "prims s (Inr (p, rest))" "loops p rest m r"
  shows "exprs s m r"
proof -
  obtain a b where "parse_primary a s = Some (Inr (p, rest))" "parse_loop b p rest m = Some r"
    using assms by (auto simp: prims_def loops_def)
  then have "parse_primary (max a b) s = Some (Inr (p, rest))" "parse_loop (max a b) p rest m = Some r"
    by (auto intro: parse_fuel_mono)
  then have "parse_expr (Suc (max a b)) s m = Some r" by simp
  then show ?thesis unfolding exprs_def by blast
qed

lemma loops_stop: "pick_operator s m = None \<Longrightarrow> loops p s m (Inr (p, s))"
  unfolding loops_def by (rule exI[of _ "Suc 0"]) simp

lemma loops_step:
  assumes "pick_operator s m = Some (op, prec, c)"
    "exprs (skip_ws (drop (length op) s)) (Suc prec) (Inr (right, rest))"
    "construct c p right = Inr p'" "loops p' rest m r"
  shows "loops p s m r"
proof -
  obtain a b where "parse_expr a (skip_ws (drop (length op) s)) (Suc prec) = Some (Inr (right, rest))"
      "parse_loop b p' rest m = Some r"
    using assms by (auto simp: exprs_def loops_def)
  then have "parse_expr (max a b) (skip_ws (drop (length op) s)) (Suc prec) = Some (Inr (right, rest))"
      "parse_loop (max a b) p' rest m = Some r"
    by (auto intro: parse_fuel_mono)
  then have "parse_loop (Suc (max a b)) p s m = Some r" using assms(1,3) by simp
  then show ?thesis unfolding loops_def by blast
qed

lemma prims_paren:
  "exprs (skip_ws tail) 0 (Inr (p, CHR '')'' # st)) \<Longrightarrow> prims (CHR ''('' # tail) (Inr (p, skip_ws st))"
  unfolding exprs_def prims_def by (erule exE, rule_tac x = "Suc n" in exI) simp

lemma prims_not:
  "exprs (skip_ws tail) 5 (Inr (p, rest)) \<Longrightarrow> prims (CHR ''!'' # tail) (Inr (NotP p, rest))"
  unfolding exprs_def prims_def by (erule exE, rule_tac x = "Suc n" in exI) simp

definition ident_ok :: "str \<Rightarrow> bool" where
  "ident_ok s \<longleftrightarrow> (\<exists>c. s = [c] \<and> is_vim_operator_char c) \<or>
     (s \<noteq> [] \<and> is_identifier_char (hd s) \<and>
      (\<forall>c \<in> set s. is_identifier_char c \<or> is_vim_operator_char c))"

fun level :: "predicate \<Rightarrow> nat" where
  "level (Descendant _ _) = 1"
| "level (Equal _ _) = 4"
| "level (NotEqual _ _) = 4"
| "level _ = 6"

lemma level_pos: "Suc 0 \<le> level p"
  by (cases p) simp_all

text \<open>
  The predicates whose printed form the parser reads back: names are single tokens, a comparison
  does not stand directly under a negation, and a descendant operator stands only at the top or as
  the parent of another one.
\<close>

fun printable :: "predicate \<Rightarrow> bool" where
  "printable (Identifier n) = ident_ok n"
| "printable (Equal l r) = (ident_ok l \<and> ident_ok r)"
| "printable (NotEqual l r) = (ident_ok l \<and> ident_ok r)"
| "printable (NotP p) = (printable p \<and> 5 \<le> level p)"
| "printable (AndP l r) = (printable l \<and> printable r \<and> 4 \<le> level l \<and> 4 \<le> level r)"
| "printable (OrP l r) = (printable l \<and> printable r \<and> 4 \<le> level l \<and> 4 \<le> level r)"
| "printable (Descendant l r) = (printable l \<and> printable r \<and> 4 \<le> level r)"

definition delim :: "str \<Rightarrow> bool" where
  "delim s \<longleftrightarrow> s = [] \<or> hd s = CHR '' '' \<or> hd s = CHR '')''"

lemma token_chars [simp]:
  "\<not> is_identifier_char (CHR ''('')" "\<not> is_identifier_char (CHR ''!'')"
  "\<not> is_identifier_char (CHR '')'')" "\<not> is_whitespace (CHR ''('')" "\<not> is_whitespace (CHR ''!'')"
  "\<not> is_whitespace (CHR '')'')" "\<not> is_whitespace (CHR ''>'')" "\<not> is_whitespace (CHR ''&'')"
  "\<not> is_whitespace (CHR ''|'')" "\<not> is_vim_operator_char (CHR ''('')"
  "\<not> is_vim_operator_char (CHR ''!'')" "\<not> is_vim_operator_char (CHR '')'')"
  "\<not> is_vim_operator_char (CHR '' '')"
  by (simp_all add: is_identifier_char_def is_vim_operator_char_def text_simps)

lemma vim_not_ws: "is_vim_operator_char c \<Longrightarrow> \<not> is_whitespace c"
  by (auto simp: is_vim_operator_char_def text_simps)

lemma ident_ok_hd:
  assumes "ident_ok s"
  shows "s \<noteq> []" "\<not> is_whitespace (hd s)" "hd s \<noteq> CHR ''(''" "hd s \<noteq> CHR ''!''"
  using assms vim_not_ws ident_not_ws token_chars by (auto simp: ident_ok_def)

lemma skip_ws_append: "s \<noteq> [] \<Longrightarrow> \<not> is_whitespace (hd s) \<Longrightarrow> skip_ws (s @ r) = s @ r"
  by (rule skip_ws_no_ws) simp

lemma skip_ws_space: "skip_ws (CHR '' '' # s) = skip_ws s"
  by (simp add: skip_ws_def)

lemma print_hd:
  "printable p \<Longrightarrow> predicate_print p \<noteq> [] \<and> \<not> is_whitespace (hd (predicate_print p))"
  by (induction p) (auto simp: ident_ok_hd)

lemma skip_ws_print: "printable p \<Longrightarrow> skip_ws (predicate_print p @ r) = predicate_print p @ r"
  using print_hd skip_ws_append by blast

lemma prims_ident:
  assumes "ident_ok s" "delim r"
  shows "prims (s @ r) (Inr (Identifier s, skip_ws r))"
proof -
  obtain c t where s: "s = c # t" using ident_ok_hd(1)[OF assms(1)] by (cases s) auto
  have n: "c \<noteq> CHR ''(''" "c \<noteq> CHR ''!''" using ident_ok_hd[OF assms(1)] s by auto
  have r: "r = [] \<or> \<not> (is_identifier_char (hd r) \<or> is_vim_operator_char (hd r))"
    using assms(2) by (auto simp: delim_def)
  show ?thesis
  proof (cases "is_identifier_char c")
    case True
    then have all: "\<forall>d \<in> set s. is_identifier_char d \<or> is_vim_operator_char d"
      using assms(1) s by (auto simp: ident_ok_def)
    have "parse_primary (Suc 0) (s @ r) = Some (Inr (Identifier s, skip_ws r))"
      using takeWhile_ident_append[OF all r] n True s by simp
    then show ?thesis unfolding prims_def by blast
  next
    case False
    then have "t = []" "is_vim_operator_char c" using assms(1) s by (auto simp: ident_ok_def)
    then have "parse_primary (Suc 0) (s @ r) = Some (Inr (Identifier s, skip_ws r))"
      using n False s by simp
    then show ?thesis unfolding prims_def by blast
  qed
qed

lemma pick_operator_lits:
  "pick_operator s 5 = None"
  "pick_operator [] m = None"
  "pick_operator (CHR '')'' # s) m = None"
  "m \<le> 4 \<Longrightarrow> pick_operator (CHR ''='' # CHR ''='' # s) m = Some (''=='', 4, NewEq)"
  "m \<le> 4 \<Longrightarrow> pick_operator (CHR ''!'' # CHR ''='' # s) m = Some (''!='', 4, NewNeq)"
  "m \<le> 3 \<Longrightarrow> pick_operator (CHR ''&'' # CHR ''&'' # s) m = Some (''&&'', 3, NewAnd)"
  "m \<le> 2 \<Longrightarrow> pick_operator (CHR ''|'' # CHR ''|'' # s) m = Some (''||'', 2, NewOr)"
  "m \<le> 1 \<Longrightarrow> pick_operator (CHR ''>'' # CHR '' '' # s) m = Some (''>'', 1, NewChild)"
  "pick_operator (CHR ''>'' # CHR '' '' # s) 2 = None"
  by (simp_all add: pick_operator_def operators_def starts_with_def)

lemma parse_comparison:
  assumes "ident_ok a" "ident_ok b" "delim rest" "m \<le> 4" "op = ''=='' \<and> p = Equal a b \<or> op = ''!='' \<and> p = NotEqual a b"
    and l: "loops p (skip_ws rest) m r"
  shows "exprs (a @ '' '' @ op @ '' '' @ b @ rest) m r"
proof (rule exprsI)
  have "skip_ws ('' '' @ op @ '' '' @ b @ rest) = op @ '' '' @ b @ rest"
    using assms(5) by (auto simp: skip_ws_def)
  then show "prims (a @ '' '' @ op @ '' '' @ b @ rest) (Inr (Identifier a, op @ '' '' @ b @ rest))"
    using prims_ident[OF assms(1), of "'' '' @ op @ '' '' @ b @ rest"] by (simp add: delim_def)
  have b: "exprs (skip_ws ('' '' @ b @ rest)) 5 (Inr (Identifier b, skip_ws rest))"
    using exprsI[OF prims_ident[OF assms(2,3)] loops_stop[OF pick_operator_lits(1)]]
      skip_ws_append[OF ident_ok_hd(1,2)[OF assms(2)]]
    by (simp add: skip_ws_space)
  show "loops (Identifier a) (op @ '' '' @ b @ rest) m r"
    using assms(4,5) b l
    by (auto simp: pick_operator_lits construct_def intro!: loops_step[OF pick_operator_lits(4)] loops_step[OF pick_operator_lits(5)])
qed

lemma parse_printed:
  assumes "printable p" "delim rest" "m \<le> level p" "loops p (skip_ws rest) m r"
    and "level p = 1 \<Longrightarrow> pick_operator (skip_ws rest) 2 = None"
  shows "exprs (predicate_print p @ rest) m r"
  using assms
proof (induction p arbitrary: rest m r)
  case (Identifier n)
  then show ?case by (auto intro: exprsI prims_ident)
next
  case (Equal a b)
  then show ?case using parse_comparison[of a b rest m "''==''"] by simp
next
  case (NotEqual a b)
  then show ?case using parse_comparison[of a b rest m "''!=''"] by simp
next
  case (Descendant l q)
  have "exprs (predicate_print l @ '' > '' @ predicate_print q @ rest) m r"
  proof (rule Descendant.IH(1))
    have "exprs (predicate_print q @ rest) 2 (Inr (q, skip_ws rest))"
      using Descendant.prems by (intro Descendant.IH(2)) (auto intro: loops_stop)
    then show "loops l (skip_ws ('' > '' @ predicate_print q @ rest)) m r"
      using Descendant.prems skip_ws_print[of q rest]
      by (auto simp: skip_ws_space skip_ws_no_ws construct_def numeral_2_eq_2
          intro!: loops_step[OF pick_operator_lits(8)])
  qed (use Descendant.prems level_pos[of l] in
        \<open>auto simp: delim_def skip_ws_space skip_ws_no_ws pick_operator_lits\<close>)
  then show ?case by simp
next
  case (NotP p)
  have "exprs (predicate_print p @ rest) 5 (Inr (p, skip_ws rest))"
    using NotP.prems by (intro NotP.IH) (auto intro: loops_stop simp: pick_operator_lits)
  then have "prims (CHR ''!'' # predicate_print p @ rest) (Inr (NotP p, skip_ws rest))"
    using NotP.prems(1) by (intro prims_not) (simp add: skip_ws_print)
  then show ?case using NotP.prems by (auto intro: exprsI)
next
  case (AndP l q)
  have "exprs (predicate_print l @ '' && '' @ predicate_print q @ '')'' @ rest) 0
      (Inr (AndP l q, '')'' @ rest))"
  proof (rule AndP.IH(1))
    have "exprs (predicate_print q @ '')'' @ rest) 4 (Inr (q, '')'' @ rest))"
      using AndP.prems by (intro AndP.IH(2))
        (auto intro: loops_stop simp: delim_def skip_ws_no_ws pick_operator_lits)
    then show "loops l (skip_ws ('' && '' @ predicate_print q @ '')'' @ rest)) 0 (Inr (AndP l q, '')'' @ rest))"
      using AndP.prems skip_ws_print[of q "'')'' @ rest"]
      by (auto simp: skip_ws_space skip_ws_no_ws construct_def eval_nat_numeral pick_operator_lits
          intro!: loops_step[OF pick_operator_lits(6)] loops_stop)
  qed (use AndP.prems in \<open>auto simp: delim_def\<close>)
  then show ?case
    using AndP.prems skip_ws_print[of l]
    by (auto intro!: exprsI[OF prims_paren])
next
  case (OrP l q)
  have "exprs (predicate_print l @ '' || '' @ predicate_print q @ '')'' @ rest) 0
      (Inr (OrP l q, '')'' @ rest))"
  proof (rule OrP.IH(1))
    have "exprs (predicate_print q @ '')'' @ rest) 3 (Inr (q, '')'' @ rest))"
      using OrP.prems by (intro OrP.IH(2))
        (auto intro: loops_stop simp: delim_def skip_ws_no_ws pick_operator_lits)
    then show "loops l (skip_ws ('' || '' @ predicate_print q @ '')'' @ rest)) 0 (Inr (OrP l q, '')'' @ rest))"
      using OrP.prems skip_ws_print[of q "'')'' @ rest"]
      by (auto simp: skip_ws_space skip_ws_no_ws construct_def eval_nat_numeral pick_operator_lits
          intro!: loops_step[OF pick_operator_lits(7)] loops_stop)
  qed (use OrP.prems in \<open>auto simp: delim_def\<close>)
  then show ?case
    using OrP.prems skip_ws_print[of l]
    by (auto intro!: exprsI[OF prims_paren])
qed

section \<open>Properties\<close>

lemma predicate_parse_expr:
  "exprs (skip_ws s) 0 r \<Longrightarrow> parse_expr (2 * length (skip_ws s) + 2) (skip_ws s) 0 = Some r"
proof -
  assume "exprs (skip_ws s) 0 r"
  then obtain n where n: "parse_expr n (skip_ws s) 0 = Some r" by (auto simp: exprs_def)
  obtain r' where r': "parse_expr (2 * length (skip_ws s) + 2) (skip_ws s) 0 = Some r'"
    using parse_fuel_enough(1)[of "skip_ws s"] by blast
  have "parse_expr (max n (2 * length (skip_ws s) + 2)) (skip_ws s) 0 = Some r"
    using n by (rule parse_fuel_mono) simp
  moreover have "parse_expr (max n (2 * length (skip_ws s) + 2)) (skip_ws s) 0 = Some r'"
    using r' by (rule parse_fuel_mono) simp
  ultimately show ?thesis using r' by simp
qed

text \<open>The predicate parser returns on every text, with a predicate or with an error, and giving
  its recursion more fuel than \<open>predicate_parse\<close> does never changes the result.\<close>

theorem predicate_parse_total:
  "(\<exists>r. predicate_parse s = Some r) \<and>
   parse_expr (2 * length (skip_ws s) + 2 + k) (skip_ws s) 0 =
     parse_expr (2 * length (skip_ws s) + 2) (skip_ws s) 0"
proof -
  obtain r where r: "parse_expr (2 * length (skip_ws s) + 2) (skip_ws s) 0 = Some r"
    using parse_fuel_enough(1)[of "skip_ws s"] by blast
  moreover have "parse_expr (2 * length (skip_ws s) + 2 + k) (skip_ws s) 0 = Some r"
    by (rule parse_fuel_mono(1)[OF r]) simp
  moreover have "\<exists>r. predicate_parse s = Some r"
    using r by (cases r) (auto simp: predicate_parse_def Let_def split: list.splits
        simp del: parse_expr.simps)
  ultimately show ?thesis by simp
qed

text \<open>C20: the text that \<open>Display\<close> prints for a printable predicate is parsed back to the same
  predicate, with the operators regrouped by their precedence.\<close>

theorem predicate_roundtrip:
  assumes "printable p"
  shows "predicate_parse (predicate_print p) = Some (Inr p)"
proof -
  have "exprs (predicate_print p @ []) 0 (Inr (p, []))"
    using assms by (rule parse_printed)
      (simp_all add: delim_def pick_operator_lits loops_stop)
  moreover have "skip_ws (predicate_print p) = predicate_print p"
    using skip_ws_print[OF assms, of "[]"] by simp
  ultimately have "parse_expr (2 * length (predicate_print p) + 2) (predicate_print p) 0 = Some (Inr (p, []))"
    using predicate_parse_expr[of "predicate_print p"] by simp
  then show ?thesis
    using \<open>skip_ws (predicate_print p) = predicate_print p\<close>
    by (simp add: predicate_parse_def Let_def del: parse_expr.simps)
qed

theorem predicate_roundtrip_witness:
  "predicate_parse ''(editor && mode == full) > !pane'' =
   Some (Inr (Descendant (AndP (Identifier ''editor'') (Equal ''mode'' ''full'')) (NotP (Identifier ''pane''))))"
proof -
  have "printable (Descendant (AndP (Identifier ''editor'') (Equal ''mode'' ''full'')) (NotP (Identifier ''pane'')))"
    by (simp add: ident_ok_def is_identifier_char_def text_simps)
  from predicate_roundtrip[OF this] show ?thesis by simp
qed

text \<open>
  Outside the printable predicates the printed text may be read differently: a negated comparison
  is rejected, and a nested child is regrouped.
\<close>

lemma print_negated_comparison:
  "predicate_parse (predicate_print (NotP (Equal ''a'' ''b''))) = Some (Inl EqOperandsNotIdentifiers)"
  by code_simp

lemma print_nested_child:
  "predicate_parse (predicate_print (Descendant (Identifier ''a'') (Descendant (Identifier ''b'') (Identifier ''c'')))) =
   Some (Inr (Descendant (Descendant (Identifier ''a'') (Identifier ''b'')) (Identifier ''c'')))"
  by code_simp

end
