(* ===== verification/Geometry.thy ===== *)
theory Geometry
  imports Prelude
begin

text \<open>
  Points, sizes, bounds, edges and corners: \<open>crates/lucie-common/src/geometry.rs\<close>.  The code is generic
  over the coordinate type; the model takes it from an ordered ring (an ordered field where the code
  divides), that is, with exact arithmetic: the rounding of \<open>f32\<close> and the overflow of \<open>i32\<close> are
  outside.  The trait \<open>Half\<close> is an argument.  The units \<open>Pixels\<close>, \<open>ScaledPixels\<close> and \<open>Rems\<close> wrap a
  number and are that number here.
\<close>

section \<open>Axes and corners\<close>

datatype axis = Vertical | Horizontal

fun axis_invert :: "axis \<Rightarrow> axis" where
  "axis_invert Vertical = Horizontal"
| "axis_invert Horizontal = Vertical"

datatype corner = TopLeft | TopRight | BottomLeft | BottomRight

fun opposite_corner :: "corner \<Rightarrow> corner" where
  "opposite_corner TopLeft = BottomRight"
| "opposite_corner TopRight = BottomLeft"
| "opposite_corner BottomLeft = TopRight"
| "opposite_corner BottomRight = TopLeft"

fun other_side_corner_along :: "axis \<Rightarrow> corner \<Rightarrow> corner" where
  "other_side_corner_along Vertical TopLeft = BottomLeft"
| "other_side_corner_along Vertical TopRight = BottomRight"
| "other_side_corner_along Vertical BottomLeft = TopLeft"
| "other_side_corner_along Vertical BottomRight = TopRight"
| "other_side_corner_along Horizontal TopLeft = TopRight"
| "other_side_corner_along Horizontal TopRight = TopLeft"
| "other_side_corner_along Horizontal BottomLeft = BottomRight"
| "other_side_corner_along Horizontal BottomRight = BottomLeft"

section \<open>Points\<close>

record 'a point =
  pt_x :: 'a
  pt_y :: 'a

definition point_new :: "'a \<Rightarrow> 'a \<Rightarrow> 'a point" where
  "point_new a b = \<lparr>pt_x = a, pt_y = b\<rparr>"

definition point_map :: "('a \<Rightarrow> 'b) \<Rightarrow> 'a point \<Rightarrow> 'b point" where
  "point_map f p = \<lparr>pt_x = f (pt_x p), pt_y = f (pt_y p)\<rparr>"

fun point_along :: "axis \<Rightarrow> 'a point \<Rightarrow> 'a" where
  "point_along Horizontal p = pt_x p"
| "point_along Vertical p = pt_y p"

fun point_apply_along :: "axis \<Rightarrow> ('a \<Rightarrow> 'a) \<Rightarrow> 'a point \<Rightarrow> 'a point" where
  "point_apply_along Horizontal f p = \<lparr>pt_x = f (pt_x p), pt_y = pt_y p\<rparr>"
| "point_apply_along Vertical f p = \<lparr>pt_x = pt_x p, pt_y = f (pt_y p)\<rparr>"

definition point_negate :: "'a::linordered_idom point \<Rightarrow> 'a point" where
  "point_negate p = point_map uminus p"

definition point_scale :: "'a::linordered_idom \<Rightarrow> 'a point \<Rightarrow> 'a point" where
  "point_scale factor p = \<lparr>pt_x = pt_x p * factor, pt_y = pt_y p * factor\<rparr>"

definition relative_to :: "'a::linordered_idom point \<Rightarrow> 'a point \<Rightarrow> 'a point" where
  "relative_to p orig = point_new (pt_x p - pt_x orig) (pt_y p - pt_y orig)"

definition point_add :: "'a::linordered_idom point \<Rightarrow> 'a point \<Rightarrow> 'a point" where
  "point_add p q = \<lparr>pt_x = pt_x p + pt_x q, pt_y = pt_y p + pt_y q\<rparr>"

definition point_sub :: "'a::linordered_idom point \<Rightarrow> 'a point \<Rightarrow> 'a point" where
  "point_sub p q = \<lparr>pt_x = pt_x p - pt_x q, pt_y = pt_y p - pt_y q\<rparr>"

definition point_mul :: "'a::linordered_idom point \<Rightarrow> 'a \<Rightarrow> 'a point" where
  "point_mul p r = \<lparr>pt_x = pt_x p * r, pt_y = pt_y p * r\<rparr>"

definition point_div :: "'a::linordered_field point \<Rightarrow> 'a \<Rightarrow> 'a point" where
  "point_div p r = \<lparr>pt_x = pt_x p / r, pt_y = pt_y p / r\<rparr>"

definition point_max :: "'a::linorder point \<Rightarrow> 'a point \<Rightarrow> 'a point" where
  "point_max p q =
     \<lparr>pt_x = (if pt_x p > pt_x q then pt_x p else pt_x q),
      pt_y = (if pt_y p > pt_y q then pt_y p else pt_y q)\<rparr>"

definition point_min :: "'a::linorder point \<Rightarrow> 'a point \<Rightarrow> 'a point" where
  "point_min p q =
     \<lparr>pt_x = (if pt_x p \<le> pt_x q then pt_x p else pt_x q),
      pt_y = (if pt_y p \<le> pt_y q then pt_y p else pt_y q)\<rparr>"

definition point_clamp :: "'a::linorder point \<Rightarrow> 'a point \<Rightarrow> 'a point \<Rightarrow> 'a point" where
  "point_clamp lo hi p = point_min (point_max p lo) hi"

section \<open>Sizes\<close>

record 'a extent =
  width :: 'a
  height :: 'a

definition size_new :: "'a \<Rightarrow> 'a \<Rightarrow> 'a extent" where
  "size_new w h = \<lparr>width = w, height = h\<rparr>"

definition size_map :: "('a \<Rightarrow> 'b) \<Rightarrow> 'a extent \<Rightarrow> 'b extent" where
  "size_map f s = \<lparr>width = f (width s), height = f (height s)\<rparr>"

definition size_center :: "('a \<Rightarrow> 'a) \<Rightarrow> 'a extent \<Rightarrow> 'a point" where
  "size_center half s = \<lparr>pt_x = half (width s), pt_y = half (height s)\<rparr>"

definition size_scale :: "'a::linordered_idom \<Rightarrow> 'a extent \<Rightarrow> 'a extent" where
  "size_scale factor s = \<lparr>width = width s * factor, height = height s * factor\<rparr>"

fun size_along :: "axis \<Rightarrow> 'a extent \<Rightarrow> 'a" where
  "size_along Horizontal s = width s"
| "size_along Vertical s = height s"

fun size_apply_along :: "axis \<Rightarrow> ('a \<Rightarrow> 'a) \<Rightarrow> 'a extent \<Rightarrow> 'a extent" where
  "size_apply_along Horizontal f s = \<lparr>width = f (width s), height = height s\<rparr>"
| "size_apply_along Vertical f s = \<lparr>width = width s, height = f (height s)\<rparr>"

definition size_max :: "'a::linorder extent \<Rightarrow> 'a extent \<Rightarrow> 'a extent" where
  "size_max s r =
     \<lparr>width = (if width s \<ge> width r then width s else width r),
      height = (if height s \<ge> height r then height s else height r)\<rparr>"

definition size_min :: "'a::linorder extent \<Rightarrow> 'a extent \<Rightarrow> 'a extent" where
  "size_min s r =
     \<lparr>width = (if width s \<ge> width r then width r else width s),
      height = (if height s \<ge> height r then height r else height s)\<rparr>"

definition size_sub :: "'a::linordered_idom extent \<Rightarrow> 'a extent \<Rightarrow> 'a extent" where
  "size_sub s r = \<lparr>width = width s - width r, height = height s - height r\<rparr>"

definition size_add :: "'a::linordered_idom extent \<Rightarrow> 'a extent \<Rightarrow> 'a extent" where
  "size_add s r = \<lparr>width = width s + width r, height = height s + height r\<rparr>"

definition size_mul :: "'a::linordered_idom extent \<Rightarrow> 'a \<Rightarrow> 'a extent" where
  "size_mul s r = \<lparr>width = width s * r, height = height s * r\<rparr>"

definition size_from_point :: "'a point \<Rightarrow> 'a extent" where
  "size_from_point p = \<lparr>width = pt_x p, height = pt_y p\<rparr>"

section \<open>Edges\<close>

record 'a edges =
  e_top :: 'a
  e_right :: 'a
  e_bottom :: 'a
  e_left :: 'a

definition edges_all :: "'a \<Rightarrow> 'a edges" where
  "edges_all v = \<lparr>e_top = v, e_right = v, e_bottom = v, e_left = v\<rparr>"

definition edges_map :: "('a \<Rightarrow> 'b) \<Rightarrow> 'a edges \<Rightarrow> 'b edges" where
  "edges_map f e = \<lparr>e_top = f (e_top e), e_right = f (e_right e), e_bottom = f (e_bottom e), e_left = f (e_left e)\<rparr>"

definition edges_any :: "('a \<Rightarrow> bool) \<Rightarrow> 'a edges \<Rightarrow> bool" where
  "edges_any P e \<longleftrightarrow> P (e_top e) \<or> P (e_right e) \<or> P (e_bottom e) \<or> P (e_left e)"

definition edges_mul :: "'a::linordered_idom edges \<Rightarrow> 'a edges \<Rightarrow> 'a edges" where
  "edges_mul e r = \<lparr>e_top = e_top e * e_top r, e_right = e_right e * e_right r,
     e_bottom = e_bottom e * e_bottom r, e_left = e_left e * e_left r\<rparr>"

definition edges_scale :: "'a::linordered_idom \<Rightarrow> 'a edges \<Rightarrow> 'a edges" where
  "edges_scale factor e = \<lparr>e_top = e_top e * factor, e_right = e_right e * factor,
     e_bottom = e_bottom e * factor, e_left = e_left e * factor\<rparr>"

definition edges_max :: "'a::linorder edges \<Rightarrow> 'a" where
  "edges_max e = max (max (max (e_top e) (e_right e)) (e_bottom e)) (e_left e)"

section \<open>Bounds\<close>

record 'a bounds =
  origin :: "'a point"
  extent :: "'a extent"

definition from_corners :: "'a::linordered_idom point \<Rightarrow> 'a point \<Rightarrow> 'a bounds" where
  "from_corners top_left bottom_right =
     \<lparr>origin = \<lparr>pt_x = pt_x top_left, pt_y = pt_y top_left\<rparr>,
      extent = \<lparr>width = pt_x bottom_right - pt_x top_left, height = pt_y bottom_right - pt_y top_left\<rparr>\<rparr>"

definition from_corner_and_size :: "corner \<Rightarrow> 'a::linordered_idom point \<Rightarrow> 'a extent \<Rightarrow> 'a bounds" where
  "from_corner_and_size c p s =
     \<lparr>origin = (case c of
          TopLeft \<Rightarrow> p
        | TopRight \<Rightarrow> \<lparr>pt_x = pt_x p - width s, pt_y = pt_y p\<rparr>
        | BottomLeft \<Rightarrow> \<lparr>pt_x = pt_x p, pt_y = pt_y p - height s\<rparr>
        | BottomRight \<Rightarrow> \<lparr>pt_x = pt_x p - width s, pt_y = pt_y p - height s\<rparr>),
      extent = s\<rparr>"

definition centered_at :: "('a \<Rightarrow> 'a) \<Rightarrow> 'a::linordered_idom point \<Rightarrow> 'a extent \<Rightarrow> 'a bounds" where
  "centered_at half center s =
     \<lparr>origin = \<lparr>pt_x = pt_x center - half (width s), pt_y = pt_y center - half (height s)\<rparr>, extent = s\<rparr>"

definition edge_top :: "'a::linordered_idom bounds \<Rightarrow> 'a" where
  "edge_top b = pt_y (origin b)"

definition edge_bottom :: "'a::linordered_idom bounds \<Rightarrow> 'a" where
  "edge_bottom b = pt_y (origin b) + height (extent b)"

definition edge_left :: "'a::linordered_idom bounds \<Rightarrow> 'a" where
  "edge_left b = pt_x (origin b)"

definition edge_right :: "'a::linordered_idom bounds \<Rightarrow> 'a" where
  "edge_right b = pt_x (origin b) + width (extent b)"

definition top_right :: "'a::linordered_idom bounds \<Rightarrow> 'a point" where
  "top_right b = \<lparr>pt_x = pt_x (origin b) + width (extent b), pt_y = pt_y (origin b)\<rparr>"

definition bottom_right :: "'a::linordered_idom bounds \<Rightarrow> 'a point" where
  "bottom_right b = \<lparr>pt_x = pt_x (origin b) + width (extent b), pt_y = pt_y (origin b) + height (extent b)\<rparr>"

definition bottom_left :: "'a::linordered_idom bounds \<Rightarrow> 'a point" where
  "bottom_left b = \<lparr>pt_x = pt_x (origin b), pt_y = pt_y (origin b) + height (extent b)\<rparr>"

fun bounds_corner :: "corner \<Rightarrow> 'a::linordered_idom bounds \<Rightarrow> 'a point" where
  "bounds_corner TopLeft b = origin b"
| "bounds_corner TopRight b = top_right b"
| "bounds_corner BottomLeft b = bottom_left b"
| "bounds_corner BottomRight b = bottom_right b"

definition intersects :: "'a::linordered_idom bounds \<Rightarrow> 'a bounds \<Rightarrow> bool" where
  "intersects a b \<longleftrightarrow>
     (let my_lower_right = bottom_right a; their_lower_right = bottom_right b in
      pt_x (origin a) < pt_x their_lower_right \<and> pt_x my_lower_right > pt_x (origin b) \<and>
      pt_y (origin a) < pt_y their_lower_right \<and> pt_y my_lower_right > pt_y (origin b))"

definition bounds_center :: "('a \<Rightarrow> 'a) \<Rightarrow> 'a::linordered_idom bounds \<Rightarrow> 'a point" where
  "bounds_center half b =
     \<lparr>pt_x = pt_x (origin b) + half (width (extent b)), pt_y = pt_y (origin b) + half (height (extent b))\<rparr>"

definition half_perimeter :: "'a::linordered_idom bounds \<Rightarrow> 'a" where
  "half_perimeter b = width (extent b) + height (extent b)"

definition dilate :: "'a::linordered_idom \<Rightarrow> 'a bounds \<Rightarrow> 'a bounds" where
  "dilate amount b =
     (let double_amount = amount + amount in
      \<lparr>origin = point_sub (origin b) (point_new amount amount),
       extent = size_add (extent b) (size_new double_amount double_amount)\<rparr>)"

definition bounds_extend :: "'a::linordered_idom edges \<Rightarrow> 'a bounds \<Rightarrow> 'a bounds" where
  "bounds_extend amount b =
     \<lparr>origin = point_sub (origin b) (point_new (e_left amount) (e_top amount)),
      extent = size_add (extent b) (size_new (e_left amount + e_right amount) (e_top amount + e_bottom amount))\<rparr>"

definition inset :: "'a::linordered_idom \<Rightarrow> 'a bounds \<Rightarrow> 'a bounds" where
  "inset amount b = dilate (- amount) b"

definition intersect :: "'a::linordered_idom bounds \<Rightarrow> 'a bounds \<Rightarrow> 'a bounds" where
  "intersect a b =
     (let upper_left = point_max (origin a) (origin b);
          lower_right = point_max (point_min (bottom_right a) (bottom_right b)) upper_left
      in from_corners upper_left lower_right)"

definition bounds_union :: "'a::linordered_idom bounds \<Rightarrow> 'a bounds \<Rightarrow> 'a bounds" where
  "bounds_union a b =
     (let top_left = point_min (origin a) (origin b);
          lower_right = point_max (bottom_right a) (bottom_right b)
      in from_corners top_left lower_right)"

definition space_within :: "'a::linordered_idom bounds \<Rightarrow> 'a bounds \<Rightarrow> 'a edges" where
  "space_within b outer =
     \<lparr>e_top = edge_top b - edge_top outer, e_right = edge_right outer - edge_right b,
      e_bottom = edge_bottom outer - edge_bottom b, e_left = edge_left b - edge_left outer\<rparr>"

definition bounds_mul :: "'a::linordered_idom bounds \<Rightarrow> 'a \<Rightarrow> 'a bounds" where
  "bounds_mul b r = \<lparr>origin = point_mul (origin b) r, extent = size_mul (extent b) r\<rparr>"

definition bounds_scale :: "'a::linordered_idom \<Rightarrow> 'a bounds \<Rightarrow> 'a bounds" where
  "bounds_scale factor b = \<lparr>origin = point_scale factor (origin b), extent = size_scale factor (extent b)\<rparr>"

definition bounds_add :: "'a::linordered_idom bounds \<Rightarrow> 'a point \<Rightarrow> 'a bounds" where
  "bounds_add b p = \<lparr>origin = point_add (origin b) p, extent = extent b\<rparr>"

definition bounds_sub :: "'a::linordered_idom bounds \<Rightarrow> 'a point \<Rightarrow> 'a bounds" where
  "bounds_sub b p = \<lparr>origin = point_sub (origin b) p, extent = extent b\<rparr>"

definition contains :: "'a::linordered_idom bounds \<Rightarrow> 'a point \<Rightarrow> bool" where
  "contains b p \<longleftrightarrow>
     pt_x p \<ge> pt_x (origin b) \<and> pt_x p < pt_x (origin b) + width (extent b) \<and>
     pt_y p \<ge> pt_y (origin b) \<and> pt_y p < pt_y (origin b) + height (extent b)"

definition is_contained_within :: "'a::linordered_idom bounds \<Rightarrow> 'a bounds \<Rightarrow> bool" where
  "is_contained_within b other \<longleftrightarrow> contains other (origin b) \<and> contains other (bottom_right b)"

definition bounds_map :: "('a \<Rightarrow> 'b) \<Rightarrow> 'a bounds \<Rightarrow> 'b bounds" where
  "bounds_map f b = \<lparr>origin = point_map f (origin b), extent = size_map f (extent b)\<rparr>"

definition map_origin :: "('a \<Rightarrow> 'a) \<Rightarrow> 'a bounds \<Rightarrow> 'a bounds" where
  "map_origin f b = \<lparr>origin = point_map f (origin b), extent = extent b\<rparr>"

definition map_size :: "('a \<Rightarrow> 'a) \<Rightarrow> 'a bounds \<Rightarrow> 'a bounds" where
  "map_size f b = \<lparr>origin = origin b, extent = size_map f (extent b)\<rparr>"

definition localize :: "'a::linordered_idom bounds \<Rightarrow> 'a point \<Rightarrow> 'a point option" where
  "localize b p = (if contains b p then Some (relative_to p (origin b)) else None)"

definition is_empty :: "'a::linordered_idom bounds \<Rightarrow> bool" where
  "is_empty b \<longleftrightarrow> width (extent b) \<le> 0 \<or> height (extent b) \<le> 0"

section \<open>Corner values\<close>

record 'a corners =
  c_top_left :: 'a
  c_top_right :: 'a
  c_bottom_right :: 'a
  c_bottom_left :: 'a

definition corners_all :: "'a \<Rightarrow> 'a corners" where
  "corners_all v = \<lparr>c_top_left = v, c_top_right = v, c_bottom_right = v, c_bottom_left = v\<rparr>"

fun corners_corner :: "corner \<Rightarrow> 'a corners \<Rightarrow> 'a" where
  "corners_corner TopLeft cs = c_top_left cs"
| "corners_corner TopRight cs = c_top_right cs"
| "corners_corner BottomLeft cs = c_bottom_left cs"
| "corners_corner BottomRight cs = c_bottom_right cs"

definition corners_map :: "('a \<Rightarrow> 'b) \<Rightarrow> 'a corners \<Rightarrow> 'b corners" where
  "corners_map f cs = \<lparr>c_top_left = f (c_top_left cs), c_top_right = f (c_top_right cs),
     c_bottom_right = f (c_bottom_right cs), c_bottom_left = f (c_bottom_left cs)\<rparr>"

definition corners_max :: "'a::linorder corners \<Rightarrow> 'a" where
  "corners_max cs = max (max (max (c_top_left cs) (c_top_right cs)) (c_bottom_right cs)) (c_bottom_left cs)"

definition clamp_radii_for_quad_size :: "'a::linordered_field extent \<Rightarrow> 'a corners \<Rightarrow> 'a corners" where
  "clamp_radii_for_quad_size s cs =
     (let m = min (width s) (height s) / 2 in
      \<lparr>c_top_left = min (c_top_left cs) m, c_top_right = min (c_top_right cs) m,
       c_bottom_right = min (c_bottom_right cs) m, c_bottom_left = min (c_bottom_left cs) m\<rparr>)"

section \<open>Lengths\<close>

datatype 'a absolute_length = LengthPixels 'a | LengthRems 'a

datatype 'a definite_length = Absolute "'a absolute_length" | Fraction 'a

fun absolute_to_pixels :: "'a::linordered_field \<Rightarrow> 'a absolute_length \<Rightarrow> 'a" where
  "absolute_to_pixels rem_size (LengthPixels p) = p"
| "absolute_to_pixels rem_size (LengthRems r) = r * rem_size"

fun absolute_to_rems :: "'a::linordered_field \<Rightarrow> 'a absolute_length \<Rightarrow> 'a" where
  "absolute_to_rems rem_size (LengthPixels p) = p / rem_size"
| "absolute_to_rems rem_size (LengthRems r) = r"

fun absolute_is_zero :: "'a::linordered_field absolute_length \<Rightarrow> bool" where
  "absolute_is_zero (LengthPixels p) \<longleftrightarrow> p = 0"
| "absolute_is_zero (LengthRems r) \<longleftrightarrow> r = 0"

fun definite_to_pixels :: "'a::linordered_field absolute_length \<Rightarrow> 'a \<Rightarrow> 'a definite_length \<Rightarrow> 'a" where
  "definite_to_pixels base rem_size (Absolute l) = absolute_to_pixels rem_size l"
| "definite_to_pixels base rem_size (Fraction f) =
     (case base of LengthPixels p \<Rightarrow> p * f | LengthRems r \<Rightarrow> r * rem_size * f)"

definition edges_to_pixels ::
  "'a::linordered_field absolute_length extent \<Rightarrow> 'a \<Rightarrow> 'a definite_length edges \<Rightarrow> 'a edges" where
  "edges_to_pixels parent_size rem_size e =
     \<lparr>e_top = definite_to_pixels (height parent_size) rem_size (e_top e),
      e_right = definite_to_pixels (width parent_size) rem_size (e_right e),
      e_bottom = definite_to_pixels (height parent_size) rem_size (e_bottom e),
      e_left = definite_to_pixels (width parent_size) rem_size (e_left e)\<rparr>"

definition corners_to_pixels :: "'a::linordered_field \<Rightarrow> 'a absolute_length corners \<Rightarrow> 'a corners" where
  "corners_to_pixels rem_size cs = corners_map (absolute_to_pixels rem_size) cs"

section \<open>Covering\<close>

text \<open>One rectangle lies within another, by their edges.\<close>

definition covers :: "'a::linordered_idom bounds \<Rightarrow> 'a bounds \<Rightarrow> bool" where
  "covers a b \<longleftrightarrow> edge_left a \<le> edge_left b \<and> edge_top a \<le> edge_top b \<and> edge_right b \<le> edge_right a \<and> edge_bottom b \<le> edge_bottom a"

named_theorems bounds_defs \<open>the edges of rectangles, spelled out\<close>

declare bottom_right_def [bounds_defs] edge_top_def [bounds_defs] edge_bottom_def [bounds_defs] edge_left_def [bounds_defs]
  edge_right_def [bounds_defs] from_corners_def [bounds_defs] intersects_def [bounds_defs]
  bounds_union_def [bounds_defs] intersect_def [bounds_defs] point_max_def [bounds_defs]
  point_min_def [bounds_defs] contains_def [bounds_defs] covers_def [bounds_defs]
  is_empty_def [bounds_defs] Let_def [bounds_defs]

lemma intersect_edges:
  "edge_left (intersect a b) = max (edge_left a) (edge_left b)"
  "edge_top (intersect a b) = max (edge_top a) (edge_top b)"
  "edge_right (intersect a b) = max (min (edge_right a) (edge_right b)) (max (edge_left a) (edge_left b))"
  "edge_bottom (intersect a b) = max (min (edge_bottom a) (edge_bottom b)) (max (edge_top a) (edge_top b))"
  by (simp_all add: bounds_defs max_def min_def)

lemma union_edges:
  "edge_left (bounds_union a b) = min (edge_left a) (edge_left b)"
  "edge_top (bounds_union a b) = min (edge_top a) (edge_top b)"
  "edge_right (bounds_union a b) = max (edge_right a) (edge_right b)"
  "edge_bottom (bounds_union a b) = max (edge_bottom a) (edge_bottom b)"
  by (simp_all add: bounds_defs max_def min_def)

lemma by_edges:
  "contains b p \<longleftrightarrow> edge_left b \<le> pt_x p \<and> pt_x p < edge_right b \<and> edge_top b \<le> pt_y p \<and> pt_y p < edge_bottom b"
  "intersects a b \<longleftrightarrow> edge_left a < edge_right b \<and> edge_left b < edge_right a \<and>
     edge_top a < edge_bottom b \<and> edge_top b < edge_bottom a"
  "is_empty b \<longleftrightarrow> edge_right b \<le> edge_left b \<or> edge_bottom b \<le> edge_top b"
  by (simp_all add: bounds_defs)

text \<open>
  What a spatial index relies on: a join that covers both arguments, and an overlap test that every
  covering rectangle passes whenever the covered one does.
\<close>

locale overlap =
  fixes hits :: "'b \<Rightarrow> 'b \<Rightarrow> bool" and join :: "'b \<Rightarrow> 'b \<Rightarrow> 'b" and cover :: "'b \<Rightarrow> 'b \<Rightarrow> bool"
  assumes cover_refl: "cover a a"
    and cover_trans: "cover a b \<Longrightarrow> cover b c \<Longrightarrow> cover a c"
    and cover_join: "cover (join a b) a" "cover (join a b) b"
    and hits_cover: "hits q b \<Longrightarrow> cover a b \<Longrightarrow> hits q a"
begin

lemma cover_join1: "cover a c \<Longrightarrow> cover (join a b) c"
  using cover_join(1) cover_trans by blast

lemma cover_join2: "cover b c \<Longrightarrow> cover (join a b) c"
  using cover_join(2) cover_trans by blast

lemma miss_all: "\<not> hits q a \<Longrightarrow> \<forall>b \<in> S. cover a b \<Longrightarrow> \<forall>b \<in> S. \<not> hits q b"
  using hits_cover by blast

end

interpretation rect: overlap intersects bounds_union covers
  by unfold_locales (auto simp: by_edges covers_def union_edges intro: less_le_trans le_less_trans)

section \<open>Properties\<close>

text \<open>The intersection of two bounds contains exactly the points that both contain.\<close>

theorem intersect_contains:
  "contains (intersect a b) p \<longleftrightarrow> contains a p \<and> contains b p"
  by (auto simp: by_edges intersect_edges less_max_iff_disj)

text \<open>Two bounds that are not empty intersect exactly when their intersection is not empty, and
  the test is symmetric.\<close>

theorem intersects_iff_overlap:
  assumes "\<not> is_empty a" "\<not> is_empty b"
  shows "(intersects a b \<longleftrightarrow> \<not> is_empty (intersect a b)) \<and> (intersects a b \<longleftrightarrow> intersects b a)"
  using assms by (auto simp: by_edges intersect_edges min_le_iff_disj not_le)

theorem intersects_iff_overlap_witness:
  "intersects \<lparr>origin = \<lparr>pt_x = 0, pt_y = 0\<rparr>, extent = \<lparr>width = 10, height = 10\<rparr>\<rparr>
     \<lparr>origin = \<lparr>pt_x = 5, pt_y = 5\<rparr>, extent = \<lparr>width = 10, height = 10 :: int\<rparr>\<rparr>"
  using intersects_iff_overlap[of "\<lparr>origin = \<lparr>pt_x = 0, pt_y = 0\<rparr>, extent = \<lparr>width = 10, height = 10\<rparr>\<rparr>"
      "\<lparr>origin = \<lparr>pt_x = 5, pt_y = 5\<rparr>, extent = \<lparr>width = 10, height = 10 :: int\<rparr>\<rparr>"]
  by (simp add: bounds_defs)

text \<open>The union is the least rectangle that covers both, and an overlap with either of them is an
  overlap with the union.\<close>

theorem union_least:
  "covers (bounds_union a b) a \<and> covers (bounds_union a b) b \<and>
   (covers c (bounds_union a b) \<longleftrightarrow> covers c a \<and> covers c b) \<and>
   (intersects q a \<or> intersects q b \<longrightarrow> intersects q (bounds_union a b))"
proof -
  have "covers c (bounds_union a b) \<longleftrightarrow> covers c a \<and> covers c b"
    by (auto simp: covers_def union_edges)
  then show ?thesis using rect.cover_join rect.hits_cover by blast
qed

theorem union_least_witness:
  "intersects \<lparr>origin = \<lparr>pt_x = 0, pt_y = 0\<rparr>, extent = \<lparr>width = 1, height = 1\<rparr>\<rparr>
     (bounds_union \<lparr>origin = \<lparr>pt_x = 0, pt_y = 0\<rparr>, extent = \<lparr>width = 1, height = 1 :: int\<rparr>\<rparr>
        \<lparr>origin = \<lparr>pt_x = 5, pt_y = 5\<rparr>, extent = \<lparr>width = 1, height = 1\<rparr>\<rparr>)"
  using union_least[of "\<lparr>origin = \<lparr>pt_x = 0, pt_y = 0\<rparr>, extent = \<lparr>width = 1, height = 1 :: int\<rparr>\<rparr>"
      "\<lparr>origin = \<lparr>pt_x = 5, pt_y = 5\<rparr>, extent = \<lparr>width = 1, height = 1\<rparr>\<rparr>"]
  by (simp add: bounds_defs)

text \<open>Bounds built from a corner and a size have that corner at that point, opposite corners are
  mirrored through both axes, and insetting undoes dilating.\<close>

theorem corner_laws:
  "bounds_corner c (from_corner_and_size c p s) = p \<and>
   extent (from_corner_and_size c p s) = s \<and>
   opposite_corner c = other_side_corner_along Vertical (other_side_corner_along Horizontal c) \<and>
   other_side_corner_along ax (other_side_corner_along ax c) = c \<and>
   inset amount (dilate amount b) = b \<and>
   bounds_extend (edges_all amount) b = dilate amount b"
proof -
  have "bounds_corner c (from_corner_and_size c p s) = p"
    by (cases c) (simp_all add: from_corner_and_size_def top_right_def bottom_left_def bottom_right_def)
  moreover have "opposite_corner c = other_side_corner_along Vertical (other_side_corner_along Horizontal c)"
    by (cases c) simp_all
  moreover have "other_side_corner_along ax (other_side_corner_along ax c) = c"
    by (cases ax; cases c) simp_all
  moreover have "inset amount (dilate amount b) = b" "bounds_extend (edges_all amount) b = dilate amount b"
    by (simp_all add: inset_def dilate_def bounds_extend_def edges_all_def point_sub_def point_new_def size_add_def
        size_new_def Let_def)
  ultimately show ?thesis by (simp add: from_corner_and_size_def)
qed

section \<open>Where the comments differ\<close>

text \<open>The comment of \<open>contains\<close> includes all four edges; the right and the bottom edge are outside.\<close>

lemma contains_excludes_far_edges:
  "\<not> contains b \<lparr>pt_x = edge_right b, pt_y = y\<rparr> \<and> \<not> contains b \<lparr>pt_x = x, pt_y = edge_bottom b\<rparr>"
  by (simp add: bounds_defs)

text \<open>The comment of \<open>intersect\<close> gives disjoint bounds an intersection with zero width and height;
  the height below is that of the common rows.\<close>

lemma intersect_of_disjoint_keeps_height:
  "\<exists>a b :: int bounds. \<not> intersects a b \<and> width (extent (intersect a b)) = 0 \<and> height (extent (intersect a b)) = 10"
  by (rule exI[of _ "\<lparr>origin = \<lparr>pt_x = 0, pt_y = 0\<rparr>, extent = \<lparr>width = 10, height = 10\<rparr>\<rparr>"],
      rule exI[of _ "\<lparr>origin = \<lparr>pt_x = 20, pt_y = 0\<rparr>, extent = \<lparr>width = 10, height = 10\<rparr>\<rparr>"])
    (simp add: bounds_defs)

end
