(* ===== verification/BoundsTree.thy ===== *)
theory BoundsTree
  imports Geometry "HOL-Library.Multiset"
begin

text \<open>
  The spatial index that orders overlapping quads: \<open>crates/lucie-common/src/bounds_tree.rs\<close>.  Nodes live
  in a growing vector and refer to their children by index.  \<open>None\<close> is a panic, or a loop that does
  not end.  The vectors \<open>insert_path\<close> and \<open>search_stack\<close> only keep their allocation between calls and
  are local here.  The orders are \<open>u32\<close> in the code and numbers here; they are bounded by the number
  of insertions.
\<close>

section \<open>State\<close>

definition max_children :: nat where
  "max_children = 12"

datatype node_kind = Leaf nat | Internal "nat list"

record 'a tree_node =
  node_bounds :: "'a bounds"
  max_order :: nat
  kind :: node_kind

record 'a bounds_tree =
  tree_nodes :: "'a tree_node list"
  root :: "nat option"
  max_leaf :: "nat option"

definition bt_default :: "'a bounds_tree" where
  "bt_default = \<lparr>tree_nodes = [], root = None, max_leaf = None\<rparr>"

definition bt_clear :: "'a bounds_tree \<Rightarrow> 'a bounds_tree" where
  "bt_clear t = t\<lparr>tree_nodes := [], root := None, max_leaf := None\<rparr>"

definition children_push :: "nat \<Rightarrow> nat list \<Rightarrow> nat list option" where
  "children_push i cs = (if length cs < max_children then Some (cs @ [i]) else None)"

definition swap :: "nat \<Rightarrow> nat \<Rightarrow> 'a list \<Rightarrow> 'a list" where
  "swap i j xs = xs[i := xs ! j, j := xs ! i]"

section \<open>Search\<close>

text \<open>The children to visit, pushed in order; the top of the stack is the head of the list.\<close>

fun push_children :: "'a tree_node list \<Rightarrow> nat \<Rightarrow> nat list \<Rightarrow> nat list \<Rightarrow> nat list option" where
  "push_children ns max_found [] stack = Some stack"
| "push_children ns max_found (c # cs) stack =
     (case nth_opt ns c of
        None \<Rightarrow> None
      | Some n \<Rightarrow> push_children ns max_found cs (if max_order n > max_found then c # stack else stack))"

partial_function (option) search_loop ::
  "'a::linordered_idom tree_node list \<Rightarrow> 'a bounds \<Rightarrow> nat list \<Rightarrow> nat \<Rightarrow> nat option" where
  "search_loop ns query stack max_found =
     (case stack of
        [] \<Rightarrow> Some max_found
      | i # stack \<Rightarrow>
          (case nth_opt ns i of
             None \<Rightarrow> None
           | Some n \<Rightarrow>
               if max_order n \<le> max_found then search_loop ns query stack max_found
               else if \<not> intersects query (node_bounds n) then search_loop ns query stack max_found
               else (case kind n of
                       Leaf order \<Rightarrow> search_loop ns query stack (max max_found order)
                     | Internal cs \<Rightarrow>
                         (case push_children ns max_found cs stack of
                            None \<Rightarrow> None
                          | Some stack \<Rightarrow> search_loop ns query stack max_found))))"

definition find_max_ordering :: "'a::linordered_idom bounds \<Rightarrow> 'a bounds_tree \<Rightarrow> nat option" where
  "find_max_ordering query t =
     (case root t of
        None \<Rightarrow> Some 0
      | Some root_idx \<Rightarrow>
          (case max_leaf t of
             None \<Rightarrow> search_loop (tree_nodes t) query [root_idx] 0
           | Some max_idx \<Rightarrow> do {
               n \<leftarrow> nth_opt (tree_nodes t) max_idx;
               if intersects query (node_bounds n) then Some (max_order n)
               else search_loop (tree_nodes t) query [root_idx] 0
             }))"

section \<open>Insertion\<close>

text \<open>The loop that picks the child whose union with the bounds has the least half perimeter.\<close>

fun pick_best ::
  "'a::linordered_idom tree_node list \<Rightarrow> 'a bounds \<Rightarrow> (nat \<times> nat) list \<Rightarrow> nat \<times> nat \<times> 'a \<Rightarrow> (nat \<times> nat) option" where
  "pick_best ns b [] (best, best_pos, best_cost) = Some (best, best_pos)"
| "pick_best ns b ((pos, c) # rest) (best, best_pos, best_cost) = do {
     n \<leftarrow> nth_opt ns c;
     let cost = half_perimeter (bounds_union b (node_bounds n));
     pick_best ns b rest (if cost < best_cost then (c, pos, cost) else (best, best_pos, best_cost))
   }"

definition best_child :: "'a::linordered_idom tree_node list \<Rightarrow> 'a bounds \<Rightarrow> nat list \<Rightarrow> (nat \<times> nat) option" where
  "best_child ns b cs = do {
     c \<leftarrow> nth_opt cs 0;
     n \<leftarrow> nth_opt ns c;
     pick_best ns b (drop 1 (enumerate 0 cs)) (c, 0, half_perimeter (bounds_union b (node_bounds n)))
   }"

text \<open>The best child is a leaf and the node has room.\<close>

definition add_to_node ::
  "'a::linordered_idom bounds \<Rightarrow> nat \<Rightarrow> nat \<Rightarrow> nat \<Rightarrow> 'a tree_node \<Rightarrow> nat list \<Rightarrow> 'a tree_node list \<Rightarrow>
     'a tree_node list option" where
  "add_to_node b order new_leaf current n cs ns = do {
     cs \<leftarrow> children_push new_leaf cs;
     let cs = (if order \<le> max_order n then swap (length cs - 1 - 1) (length cs - 1) cs else cs);
     Some (ns[current := n\<lparr>kind := Internal cs, node_bounds := bounds_union (node_bounds n) b,
                           max_order := max (max_order n) order\<rparr>])
   }"

text \<open>The best child is a leaf and the node is full: the leaf becomes an internal node.\<close>

definition split_leaf ::
  "'a::linordered_idom bounds \<Rightarrow> nat \<Rightarrow> nat \<Rightarrow> nat \<Rightarrow> 'a tree_node \<Rightarrow> nat list \<Rightarrow> nat \<Rightarrow> nat \<Rightarrow> 'a tree_node \<Rightarrow>
     'a tree_node list \<Rightarrow> 'a tree_node list" where
  "split_leaf b order new_leaf current n cs best best_pos sibling ns =
     (let new_cs = (if order > max_order sibling then [best, new_leaf] else [new_leaf, best]);
          new_internal = length ns;
          new_max = max (max_order sibling) order;
          ns = ns @ [\<lparr>node_bounds = bounds_union (node_bounds sibling) b, max_order = new_max,
                      kind = Internal new_cs\<rparr>];
          cs = cs[best_pos := new_internal];
          cs = (if new_max > max_order n then swap best_pos (length cs - 1) cs else cs)
      in ns[current := n\<lparr>kind := Internal cs\<rparr>])"

partial_function (option) descend ::
  "'a::linordered_idom bounds \<Rightarrow> nat \<Rightarrow> nat \<Rightarrow> nat \<Rightarrow> nat list \<Rightarrow> 'a tree_node list \<Rightarrow>
     ('a tree_node list \<times> nat list) option" where
  "descend b order new_leaf current path ns =
     (case nth_opt ns current of
        None \<Rightarrow> None
      | Some n \<Rightarrow>
          (case kind n of
             Leaf _ \<Rightarrow> None
           | Internal cs \<Rightarrow>
               (case best_child ns b cs of
                  None \<Rightarrow> None
                | Some (best, best_pos) \<Rightarrow>
                    (case nth_opt ns best of
                       None \<Rightarrow> None
                     | Some child \<Rightarrow>
                         (case kind child of
                            Leaf _ \<Rightarrow>
                              if length cs < max_children then
                                map_option (\<lambda>ns. (ns, path @ [current])) (add_to_node b order new_leaf current n cs ns)
                              else Some (split_leaf b order new_leaf current n cs best best_pos child ns, path @ [current])
                          | Internal _ \<Rightarrow> descend b order new_leaf best (path @ [current]) ns)))))"

fun position :: "nat \<Rightarrow> nat list \<Rightarrow> nat option" where
  "position c [] = None"
| "position c (d # cs) = (if d = c then Some 0 else map_option Suc (position c cs))"

definition move_to_end :: "nat option \<Rightarrow> 'a tree_node \<Rightarrow> 'a tree_node" where
  "move_to_end updated n =
     (case (updated, kind n) of
        (Some child, Internal cs) \<Rightarrow>
          (case position child cs of
             Some pos \<Rightarrow> if pos \<noteq> length cs - 1 then n\<lparr>kind := Internal (swap pos (length cs - 1) cs)\<rparr> else n
           | None \<Rightarrow> n)
      | _ \<Rightarrow> n)"

text \<open>The updates on the way up; the list is the path from the bottom.\<close>

fun propagate ::
  "'a::linordered_idom bounds \<Rightarrow> nat \<Rightarrow> nat list \<Rightarrow> nat option \<Rightarrow> 'a tree_node list \<Rightarrow> 'a tree_node list option" where
  "propagate b order [] updated ns = Some ns"
| "propagate b order (i # path) updated ns =
     (case nth_opt ns i of
        None \<Rightarrow> None
      | Some n \<Rightarrow>
          (let n = n\<lparr>node_bounds := bounds_union (node_bounds n) b\<rparr>;
               n = (if max_order n < order then move_to_end updated (n\<lparr>max_order := order\<rparr>) else n)
           in propagate b order path (Some i) (ns[i := n])))"

definition insert_leaf ::
  "'a::linordered_idom bounds \<Rightarrow> nat \<Rightarrow> 'a bounds_tree \<Rightarrow> ('a bounds_tree \<times> nat) option" where
  "insert_leaf b order t =
     (let new_leaf = length (tree_nodes t);
          ns = tree_nodes t @ [\<lparr>node_bounds = b, max_order = order, kind = Leaf order\<rparr>] in
      case root t of
        None \<Rightarrow> Some (t\<lparr>tree_nodes := ns, root := Some new_leaf\<rparr>, new_leaf)
      | Some root_idx \<Rightarrow>
          (case nth_opt ns root_idx of
             None \<Rightarrow> None
           | Some r \<Rightarrow>
               (case kind r of
                  Leaf _ \<Rightarrow>
                    let cs = (if order > max_order r then [root_idx, new_leaf] else [new_leaf, root_idx]) in
                    Some (t\<lparr>tree_nodes := ns @ [\<lparr>node_bounds = bounds_union (node_bounds r) b,
                              max_order = max (max_order r) order, kind = Internal cs\<rparr>],
                            root := Some (length ns)\<rparr>, new_leaf)
                | Internal _ \<Rightarrow> do {
                    (ns, path) \<leftarrow> descend b order new_leaf root_idx [] ns;
                    ns \<leftarrow> propagate b order (rev path) None ns;
                    Some (t\<lparr>tree_nodes := ns\<rparr>, new_leaf)
                  })))"

definition bt_insert :: "'a::linordered_idom bounds \<Rightarrow> 'a bounds_tree \<Rightarrow> ('a bounds_tree \<times> nat) option" where
  "bt_insert b t = do {
     max_intersecting \<leftarrow> find_max_ordering b t;
     let order = max_intersecting + 1;
     (t, new_leaf) \<leftarrow> insert_leaf b order t;
     ml \<leftarrow> (case max_leaf t of
              None \<Rightarrow> Some (Some new_leaf)
            | Some old \<Rightarrow> do {
                n \<leftarrow> nth_opt (tree_nodes t) old;
                Some (if max_order n < order then Some new_leaf else Some old)
              });
     Some (t\<lparr>max_leaf := ml\<rparr>, order)
   }"

section \<open>The tree behind the indices\<close>

text \<open>The tree that the vector of nodes represents, with the index of each node.\<close>

datatype 'a gtree = GLeaf nat "'a bounds" nat | GNode nat "'a bounds" nat "'a gtree list"

fun idx :: "'a gtree \<Rightarrow> nat" where
  "idx (GLeaf i b m) = i"
| "idx (GNode i b m ts) = i"

fun g_bounds :: "'a gtree \<Rightarrow> 'a bounds" where
  "g_bounds (GLeaf i b m) = b"
| "g_bounds (GNode i b m ts) = b"

fun g_max :: "'a gtree \<Rightarrow> nat" where
  "g_max (GLeaf i b m) = m"
| "g_max (GNode i b m ts) = m"

fun g_kind :: "'a gtree \<Rightarrow> node_kind" where
  "g_kind (GLeaf i b m) = Leaf m"
| "g_kind (GNode i b m ts) = Internal (map idx ts)"

fun ids :: "'a gtree \<Rightarrow> nat list" where
  "ids (GLeaf i b m) = [i]"
| "ids (GNode i b m ts) = i # concat (map ids ts)"

fun leaves :: "'a gtree \<Rightarrow> (nat \<times> 'a bounds \<times> nat) set" where
  "leaves (GLeaf i b m) = {(i, b, m)}"
| "leaves (GNode i b m ts) = (\<Union>t \<in> set ts. leaves t)"

definition top_ok :: "'a tree_node list \<Rightarrow> 'a gtree \<Rightarrow> bool" where
  "top_ok ns t \<longleftrightarrow> nth_opt ns (idx t) = Some \<lparr>node_bounds = g_bounds t, max_order = g_max t, kind = g_kind t\<rparr>"

fun holds :: "'a tree_node list \<Rightarrow> 'a gtree \<Rightarrow> bool" where
  "holds ns (GLeaf i b m) \<longleftrightarrow> top_ok ns (GLeaf i b m)"
| "holds ns (GNode i b m ts) \<longleftrightarrow> top_ok ns (GNode i b m ts) \<and> (\<forall>t \<in> set ts. holds ns t)"

text \<open>Bounds cover what is below, orders are at most the maximum, and the child with the maximum is
  the last one.\<close>

fun g_ok :: "'a::linordered_idom gtree \<Rightarrow> bool" where
  "g_ok (GLeaf i b m) \<longleftrightarrow> 0 < m"
| "g_ok (GNode i b m ts) \<longleftrightarrow> ts \<noteq> [] \<and> length ts \<le> max_children \<and> m = g_max (last ts) \<and>
     (\<forall>t \<in> set ts. g_ok t \<and> covers b (g_bounds t) \<and> g_max t \<le> m)"

lemma holds_top: "holds ns t \<Longrightarrow> top_ok ns t"
  by (cases t) auto

lemma top_okD: "top_ok ns t \<Longrightarrow> idx t < length ns \<and>
    ns ! idx t = \<lparr>node_bounds = g_bounds t, max_order = g_max t, kind = g_kind t\<rparr>"
  by (simp add: top_ok_def)

lemma top_ok_nth [simp]:
  "top_ok ns t \<Longrightarrow> nth_opt ns (idx t) = Some \<lparr>node_bounds = g_bounds t, max_order = g_max t, kind = g_kind t\<rparr>"
  unfolding top_ok_def .

lemma top_ok_cases:
  "top_ok ns (GLeaf i b m) \<Longrightarrow> nth_opt ns i = Some \<lparr>node_bounds = b, max_order = m, kind = Leaf m\<rparr>"
  "top_ok ns (GNode i b m ts) \<Longrightarrow>
     nth_opt ns i = Some \<lparr>node_bounds = b, max_order = m, kind = Internal (map idx ts)\<rparr>"
  by (simp_all add: top_ok_def del: nth_opt_Some)

lemma idx_ids [simp]: "idx t \<in> set (ids t)"
  by (cases t) auto

lemma holds_ids: "holds ns t \<Longrightarrow> i \<in> set (ids t) \<Longrightarrow> i < length ns"
proof (induction t)
  case (GNode j b m ts)
  then show ?case by (auto dest: top_okD)
qed (auto dest: top_okD)

lemma holds_frame:
  "holds ns t \<Longrightarrow> \<forall>i \<in> set (ids t). i < length ns' \<and> ns' ! i = ns ! i \<Longrightarrow> holds ns' t"
proof (induction t)
  case (GNode j b m ts)
  have "top_ok ns' (GNode j b m ts)" using GNode.prems by (simp add: top_ok_def)
  moreover have "holds ns' t" if "t \<in> set ts" for t
    using GNode.IH[OF that] GNode.prems that by auto
  ultimately show ?case by simp
qed (simp add: top_ok_def)

lemma holds_append: "holds ns t \<Longrightarrow> holds (ns @ xs) t"
  by (rule holds_frame) (auto dest: holds_ids simp: nth_append)

lemma holds_update_other: "holds ns t \<Longrightarrow> i \<notin> set (ids t) \<Longrightarrow> holds (ns[i := n]) t"
  by (rule holds_frame, assumption) (metis holds_ids length_list_update nth_list_update_neq)

lemma leaf_bound: "g_ok t \<Longrightarrow> (i, b, m) \<in> leaves t \<Longrightarrow> covers (g_bounds t) b \<and> m \<le> g_max t \<and> 0 < m"
proof (induction t)
  case (GNode j c k ts)
  then obtain t where t: "t \<in> set ts" "(i, b, m) \<in> leaves t" by auto
  then have "covers (g_bounds t) b \<and> m \<le> g_max t \<and> 0 < m" using GNode by auto
  then show ?case using GNode.prems(1) t(1) rect.cover_trans by (auto intro: order_trans)
qed (simp add: rect.cover_refl)

lemma leaves_node: "holds ns t \<Longrightarrow> (i, b, m) \<in> leaves t \<Longrightarrow>
    nth_opt ns i = Some \<lparr>node_bounds = b, max_order = m, kind = Leaf m\<rparr> \<and> i \<in> set (ids t)"
  by (induction t) (auto simp: top_ok_def)

section \<open>The search is right\<close>

lemma push_children_spec:
  assumes "\<forall>t \<in> set ts. holds ns t"
  shows "push_children ns m (map idx ts) st = Some (map idx (rev (filter (\<lambda>t. m < g_max t) ts)) @ st)"
  using assms
proof (induction ts arbitrary: st)
  case (Cons t ts)
  then have "top_ok ns t" by (auto dest: holds_top)
  then show ?case using Cons by simp
qed simp

definition found :: "'a::linordered_idom bounds \<Rightarrow> 'a gtree set \<Rightarrow> nat set" where
  "found q T = {m. \<exists>t \<in> T. \<exists>i b. (i, b, m) \<in> leaves t \<and> intersects q b}"

lemma finite_leaves: "finite (leaves t)"
  by (induction t) auto

lemma finite_found [simp]: "finite T \<Longrightarrow> finite (found q T)"
proof -
  assume "finite T"
  moreover have "found q T \<subseteq> (\<lambda>(i, b, m). m) ` (\<Union>t \<in> T. leaves t)" by (force simp: found_def)
  ultimately show ?thesis by (meson finite_UN_I finite_imageI finite_leaves finite_subset)
qed

definition max_found_with :: "nat \<Rightarrow> nat set \<Rightarrow> nat" where
  "max_found_with m S = Max (insert m S)"

lemma max_found_small: "finite S \<Longrightarrow> \<forall>x \<in> S'. x \<le> m \<Longrightarrow> finite S' \<Longrightarrow> max_found_with m (S \<union> S') = max_found_with m S"
  unfolding max_found_with_def by (rule antisym) (auto intro!: Max.boundedI Max_ge_iff[THEN iffD2])

lemma max_found_step: "finite S \<Longrightarrow> max_found_with (max m k) S = max_found_with m (S \<union> {k})"
  unfolding max_found_with_def by (cases "S = {}") (simp_all add: max.assoc max.left_commute max.commute)

lemma found_Un: "found q (A \<union> B) = found q A \<union> found q B"
  by (auto simp: found_def)

lemma found_small: "g_ok t \<Longrightarrow> g_max t \<le> m \<or> \<not> intersects q (g_bounds t) \<Longrightarrow> x \<in> found q {t} \<Longrightarrow> x \<le> m"
  using leaf_bound rect.hits_cover by (fastforce simp: found_def)

fun g_size :: "'a gtree \<Rightarrow> nat" where
  "g_size (GLeaf i b m) = 1"
| "g_size (GNode i b m ts) = Suc (sum_list (map g_size ts))"

lemma sum_list_filter_le: "sum_list (map f (filter P xs)) \<le> (sum_list (map f xs) :: nat)"
  by (induction xs) auto

lemma search_loop_spec:
  assumes "\<forall>t \<in> set ts. holds ns t \<and> g_ok t"
  shows "search_loop ns q (map idx ts) m = Some (max_found_with m (found q (set ts)))"
  using assms
proof (induction "sum_list (map g_size ts)" arbitrary: ts m rule: less_induct)
  case less
  show ?case
  proof (cases ts)
    case Nil
    then show ?thesis by (subst search_loop.simps) (simp add: max_found_with_def found_def)
  next
    case (Cons t rest)
    then have t: "holds ns t" "g_ok t" "top_ok ns t" and rest: "\<forall>t \<in> set rest. holds ns t \<and> g_ok t"
      using less.prems holds_top by auto
    have split: "found q (set ts) = found q (set rest) \<union> found q {t}"
      using Cons found_Un[of q "set rest" "{t}"] by simp
    have sz: "0 < g_size t" by (cases t) auto
    have IH: "search_loop ns q (map idx rest) m' = Some (max_found_with m' (found q (set rest)))" for m'
      using less.hyps[of rest] Cons rest sz by simp
    show ?thesis
    proof (cases "g_max t \<le> m \<or> \<not> intersects q (g_bounds t)")
      case True
      have "search_loop ns q (map idx ts) m = search_loop ns q (map idx rest) m"
        using True t(3) Cons by (subst search_loop.simps) auto
      moreover have "max_found_with m (found q (set ts)) = max_found_with m (found q (set rest))"
        unfolding split by (rule max_found_small) (use found_small[OF t(2) True] in auto)
      ultimately show ?thesis using IH by simp
    next
      case False
      show ?thesis
      proof (cases t)
        case (GLeaf i b k)
        have "search_loop ns q (map idx ts) m = search_loop ns q (map idx rest) (max m k)"
          using False t(3) Cons GLeaf by (subst search_loop.simps) (simp add: top_ok_cases)
        moreover have "found q {t} = {k}" using False GLeaf by (auto simp: found_def)
        moreover have "max_found_with (max m k) (found q (set rest)) = max_found_with m (found q (set rest) \<union> {k})"
          by (rule max_found_step) simp
        ultimately show ?thesis using IH split by simp
      next
        case (GNode i b k us)
        let ?us = "rev (filter (\<lambda>t. m < g_max t) us)"
        have us: "\<forall>t \<in> set us. holds ns t \<and> g_ok t" using t(1,2) GNode by auto
        have "search_loop ns q (map idx ts) m = search_loop ns q (map idx (?us @ rest)) m"
          using False t(3) Cons GNode us
          by (subst search_loop.simps) (simp add: push_children_spec top_ok_cases)
        moreover have "sum_list (map g_size (?us @ rest)) < sum_list (map g_size ts)"
          using sum_list_filter_le[of g_size "\<lambda>t. m < g_max t" us] Cons GNode
          by (simp add: rev_map[symmetric] sum_list_rev)
        then have "search_loop ns q (map idx (?us @ rest)) m =
            Some (max_found_with m (found q (set (?us @ rest))))"
          using less.hyps[of "?us @ rest"] us rest by auto
        moreover have "max_found_with m (found q (set (?us @ rest))) = max_found_with m (found q (set ts))"
        proof -
          have "found q {t} = found q (set ?us) \<union> found q {u \<in> set us. g_max u \<le> m}"
          proof -
            have "set us = set ?us \<union> {u \<in> set us. g_max u \<le> m}" by auto
            moreover have "found q {t} = found q (set us)" using GNode by (auto simp: found_def)
            ultimately show ?thesis using found_Un by metis
          qed
          then have "found q (set ts) = found q (set (?us @ rest)) \<union> found q {u \<in> set us. g_max u \<le> m}"
            using split found_Un[of q "set ?us" "set rest"] by auto
          moreover have "x \<le> m" if "x \<in> found q {u \<in> set us. g_max u \<le> m}" for x
            using that us leaf_bound by (fastforce simp: found_def)
          ultimately show ?thesis using max_found_small[of "found q (set (?us @ rest))" _ m] by simp
        qed
        ultimately show ?thesis by simp
      qed
    qed
  qed
qed

section \<open>An insertion keeps the tree\<close>

lemma swap_length [simp]: "length (swap i j xs) = length xs"
  by (simp add: swap_def)

lemma mset_swap_eq [simp]: "i < length xs \<Longrightarrow> j < length xs \<Longrightarrow> mset (swap i j xs) = mset xs"
  unfolding swap_def by (rule mset_swap) 

lemma set_swap [simp]: "i < length xs \<Longrightarrow> j < length xs \<Longrightarrow> set (swap i j xs) = set xs"
  using mset_swap_eq[of i xs j] by (metis set_mset_mset)

lemma map_swap: "i < length xs \<Longrightarrow> j < length xs \<Longrightarrow> map f (swap i j xs) = swap i j (map f xs)"
  by (simp add: swap_def map_update)

lemma last_swap: "p < length xs \<Longrightarrow> last (swap p (length xs - 1) xs) = xs ! p"
  by (cases "xs = []") (auto simp: swap_def last_conv_nth)

lemma swap_same: "p < length xs \<Longrightarrow> swap p p xs = xs"
  by (simp add: swap_def)

lemma distinct_concat_swap:
  "i < length xs \<Longrightarrow> j < length xs \<Longrightarrow> distinct (concat (map f (swap i j xs))) = distinct (concat (map f xs))"
proof -
  assume a: "i < length xs" "j < length xs"
  have "mset (concat (map f ys)) = \<Sum>\<^sub># (image_mset (\<lambda>x. mset (f x)) (mset ys))" for ys
    by (induction ys) auto
  then have "mset (concat (map f (swap i j xs))) = mset (concat (map f xs))" using a by simp
  then show ?thesis by (rule mset_eq_imp_distinct_iff)
qed

lemma distinct_concat_update:
  assumes "distinct (concat (map f xs))" "p < length xs" "distinct (f y)"
    "\<forall>q < length xs. q \<noteq> p \<longrightarrow> set (f (xs ! q)) \<inter> set (f y) = {}"
  shows "distinct (concat (map f (xs[p := y])))"
proof -
  have xs: "xs = take p xs @ xs ! p # drop (Suc p) xs" using assms(2) by (simp add: id_take_nth_drop)
  have u: "xs[p := y] = take p xs @ y # drop (Suc p) xs" using assms(2) by (simp add: upd_conv_take_nth_drop)
  have "set (f x) \<inter> set (f y) = {}" if "x \<in> set (take p xs) \<union> set (drop (Suc p) xs)" for x
  proof -
    from that consider "x \<in> set (take p xs)" | "x \<in> set (drop (Suc p) xs)" by blast
    then have "\<exists>q < length xs. q \<noteq> p \<and> x = xs ! q"
    proof cases
      case 1
      then obtain q where "q < p" "x = xs ! q" by (auto simp: in_set_conv_nth)
      then show ?thesis using assms(2) by (intro exI[of _ q]) simp
    next
      case 2
      then obtain q where "q < length xs - Suc p" "x = xs ! (Suc p + q)" by (auto simp: in_set_conv_nth)
      then show ?thesis by (intro exI[of _ "Suc p + q"]) simp
    qed
    then show ?thesis using assms(4) by blast
  qed
  moreover have "distinct (concat (map f (take p xs @ xs ! p # drop (Suc p) xs)))" using assms(1) xs by simp
  ultimately show ?thesis unfolding u using assms(3) by fastforce
qed

lemma distinct_concat_disjoint:
  "distinct (concat (map f xs)) \<Longrightarrow> p < length xs \<Longrightarrow> q < length xs \<Longrightarrow> p \<noteq> q \<Longrightarrow>
     set (f (xs ! p)) \<inter> set (f (xs ! q)) = {}"
proof (induction xs arbitrary: p q)
  case (Cons x xs)
  then show ?case by (cases p; cases q) (fastforce simp: in_set_conv_nth)+
qed simp

text \<open>The tree \<open>T'\<close> is \<open>T\<close> with the new leaf, in the nodes \<open>ns'\<close>; nothing outside \<open>T\<close> changed.\<close>

definition grown ::
  "'a::linordered_idom bounds \<Rightarrow> nat \<Rightarrow> nat \<Rightarrow> 'a gtree \<Rightarrow> 'a tree_node list \<Rightarrow> 'a tree_node list \<Rightarrow> 'a gtree \<Rightarrow> bool" where
  "grown b order leaf T ns ns' T' \<longleftrightarrow>
     holds ns' T' \<and> g_ok T' \<and> g_max T' = max (g_max T) order \<and>
     (\<forall>B. covers B (g_bounds T) \<longrightarrow> covers B b \<longrightarrow> covers B (g_bounds T')) \<and>
     leaves T' = insert (leaf, b, order) (leaves T) \<and> distinct (ids T') \<and>
     set (ids T') \<subseteq> set (ids T) \<union> {leaf} \<union> {length ns..<length ns'} \<and>
     length ns \<le> length ns' \<and> (\<forall>j < length ns. j \<notin> set (ids T) \<longrightarrow> ns' ! j = ns ! j)"

lemma covers_union_iff: "covers B (bounds_union c d) \<longleftrightarrow> covers B c \<and> covers B d"
  by (auto simp: covers_def union_edges)

lemma replace_child:
  assumes T: "T = GNode i B m ts" and hold: "holds ns T" "g_ok T" "distinct (ids T)"
    and leaf: "leaf \<notin> set (ids T)" "leaf < length ns" and p: "p < length ts"
    and g: "grown b order leaf (ts ! p) ns ns1 c"
    and B': "B' = bounds_union B b \<or> B' = bounds_union (bounds_union B b) b"
  defines "us \<equiv> (if m < order then swap p (length ts - 1) (ts[p := c]) else ts[p := c])"
  shows "grown b order leaf T ns
    (ns1[i := \<lparr>node_bounds = B', max_order = max m order, kind = Internal (map idx us)\<rparr>])
    (GNode i B' (max m order) us)"
proof -
  let ?n = "\<lparr>node_bounds = B', max_order = max m order, kind = Internal (map idx us)\<rparr>"
  let ?ns = "ns1[i := ?n]"
  note g = g[unfolded grown_def]
  have ids: "i \<notin> set (ids t)" "set (ids t) \<subseteq> set (ids T)" "holds ns t" "g_ok t" "covers B (g_bounds t)" "g_max t \<le> m"
    if "t \<in> set ts" for t
    using that T hold by auto
  have m: "m = g_max (last ts)" "ts \<noteq> []" "length ts \<le> max_children" using T hold(2) by auto
  have i: "i < length ns" using hold(1) T holds_ids by fastforce
  have tp: "ts ! p \<in> set ts" using p by simp
  have set_us: "set us = set (ts[p := c])" unfolding us_def using p by simp
  have disj: "set (ids (ts ! q)) \<inter> set (ids c) = {}" if q: "q < length ts" "q \<noteq> p" for q
  proof -
    have tq: "ts ! q \<in> set ts" using q by simp
    have "set (ids (ts ! q)) \<inter> set (ids (ts ! p)) = {}"
      using distinct_concat_disjoint[of ids ts q p] hold(3) T p q by simp
    moreover have "leaf \<notin> set (ids (ts ! q))" using ids(2)[OF tq] leaf by blast
    moreover have "j < length ns" if "j \<in> set (ids (ts ! q))" for j using holds_ids[OF ids(3)[OF tq] that] .
    ultimately show ?thesis using g by fastforce
  qed
  have i_c: "i \<notin> set (ids c)" using g ids(1)[OF tp] i leaf T by fastforce
  have cov: "covers B' B" "covers B' b"
    using B' rect.cover_join rect.cover_trans by blast+
  have c: "holds ?ns c" "g_ok c" "g_max c = max (g_max (ts ! p)) order"
    using g i_c holds_update_other by auto
  have c_cov: "covers B' (g_bounds c)"
    using g cov rect.cover_trans[OF cov(1) ids(5)[OF tp]] by blast
  have others: "holds ?ns (ts ! q)" if q: "q < length ts" "q \<noteq> p" for q
  proof (rule holds_frame)
    have tq: "ts ! q \<in> set ts" using q by simp
    show "holds ns (ts ! q)" by (rule ids(3)[OF tq])
    have "set (ids (ts ! q)) \<inter> set (ids (ts ! p)) = {}"
      using distinct_concat_disjoint[of ids ts q p] hold(3) T p q by simp
    then show "\<forall>j \<in> set (ids (ts ! q)). j < length ?ns \<and> ?ns ! j = ns ! j"
      using g holds_ids[OF ids(3)[OF tq]] ids(1)[OF tq]
      by (metis disjoint_iff length_list_update nth_list_update_neq order_less_le_trans)
  qed
  have children: "holds ?ns t \<and> g_ok t \<and> covers B' (g_bounds t) \<and> g_max t \<le> max m order" if "t \<in> set us" for t
  proof -
    from that set_us p consider "t = c" | q where "q < length ts" "q \<noteq> p" "t = ts ! q"
      by (auto simp: in_set_conv_nth nth_list_update split: if_splits)
    then show ?thesis
    proof cases
      case 1
      then show ?thesis using c c_cov ids(6)[OF tp] by auto
    next
      case 2
      then have "t \<in> set ts" by simp
      have "covers B' (g_bounds t)" using rect.cover_trans[OF cov(1) ids(5)[OF \<open>t \<in> set ts\<close>]] .
      then show ?thesis
        using others[OF 2(1,2)] ids(4,6)[OF \<open>t \<in> set ts\<close>] 2(3) by auto
    qed
  qed
  have last: "max m order = g_max (last us)"
  proof (cases "m < order")
    case True
    then have "last us = c" using p last_swap[of p "ts[p := c]"] by (simp add: us_def)
    then show ?thesis using True c(3) ids(6)[OF tp] by simp
  next
    case False
    then show ?thesis
      using m p c(3) by (cases "p = length ts - 1") (auto simp: us_def last_conv_nth nth_list_update)
  qed
  have "length us = length ts" by (simp add: us_def)
  then have "us \<noteq> []" using m(2) by auto
  moreover have "length us \<le> max_children" using m(3) by (simp add: us_def)
  ultimately have ok: "g_ok (GNode i B' (max m order) us)" using children last by auto
  have hold': "holds ?ns (GNode i B' (max m order) us)"
    using children i g by (simp add: top_ok_def)
  have lv: "leaves (GNode i B' (max m order) us) = insert (leaf, b, order) (leaves T)"
  proof -
    have "set (ts[p := c]) = insert c ((\<lambda>q. ts ! q) ` {q. q < length ts \<and> q \<noteq> p})"
      using p by (auto simp: in_set_conv_nth nth_list_update image_iff split: if_splits)
    moreover have "set ts = insert (ts ! p) ((\<lambda>q. ts ! q) ` {q. q < length ts \<and> q \<noteq> p})"
      using p by (auto simp: in_set_conv_nth image_iff)
    ultimately show ?thesis using set_us g T by auto
  qed
  have dist: "distinct (ids (GNode i B' (max m order) us))"
  proof -
    have "distinct (concat (map ids (ts[p := c])))"
      by (rule distinct_concat_update) (use hold(3) T p g disj in auto)
    then have "distinct (concat (map ids us))" using p by (simp add: us_def distinct_concat_swap)
    moreover have "i \<notin> set (ids t)" if "t \<in> set us" for t
      using that set_us i_c ids(1) set_update_subset_insert[of ts p c] by auto
    ultimately show ?thesis by auto
  qed
  have sub: "set (ids (GNode i B' (max m order) us)) \<subseteq> set (ids T) \<union> {leaf} \<union> {length ns..<length ?ns}"
  proof -
    have "set (ids t) \<subseteq> set (ids T) \<union> {leaf} \<union> {length ns..<length ns1}" if "t \<in> set us" for t
      using that set_us set_update_subset_insert[of ts p c] ids(2) ids(2)[OF tp] g by fastforce
    then show ?thesis using T by auto
  qed
  have frame: "\<forall>j < length ns. j \<notin> set (ids T) \<longrightarrow> ?ns ! j = ns ! j"
    using g ids(2)[OF tp] T by (metis idx.simps(2) idx_ids nth_list_update_neq subsetD)
  show ?thesis
    unfolding grown_def using hold' ok lv dist sub frame g T B' by (auto simp: covers_union_iff)
qed

lemma grown_leaf_pair:
  assumes s: "holds ns (GLeaf i c k)" "0 < k" and leaf: "leaf \<noteq> i" "0 < order"
    and nl: "nth_opt ns leaf = Some \<lparr>node_bounds = b, max_order = order, kind = Leaf order\<rparr>"
    and n: "kids = (if order > k then [i, leaf] else [leaf, i])"
  shows "grown b order leaf (GLeaf i c k) ns
    (ns @ [\<lparr>node_bounds = bounds_union c b, max_order = max k order, kind = Internal kids\<rparr>])
    (GNode (length ns) (bounds_union c b) (max k order)
      (if order > k then [GLeaf i c k, GLeaf leaf b order] else [GLeaf leaf b order, GLeaf i c k]))"
proof -
  define ns' where "ns' = ns @ [\<lparr>node_bounds = bounds_union c b, max_order = max k order, kind = Internal kids\<rparr>]"
  have l: "leaf < length ns" "i < length ns" using nl s(1) by (auto simp: top_ok_def)
  have "holds ns (GLeaf leaf b order)" using nl by (simp add: top_ok_def)
  then have h: "holds ns' (GLeaf leaf b order)" "holds ns' (GLeaf i c k)"
    unfolding ns'_def using s(1) by (blast intro: holds_append)+
  moreover have "top_ok ns' (GNode (length ns) (bounds_union c b) (max k order)
      (if order > k then [GLeaf i c k, GLeaf leaf b order] else [GLeaf leaf b order, GLeaf i c k]))"
    by (simp add: top_ok_def nth_append n ns'_def)
  ultimately have "holds ns' (GNode (length ns) (bounds_union c b) (max k order)
      (if order > k then [GLeaf i c k, GLeaf leaf b order] else [GLeaf leaf b order, GLeaf i c k]))"
    by simp
  then show ?thesis
    unfolding grown_def ns'_def[symmetric] using l leaf s(2)
    by (auto simp: covers_union_iff max_children_def nth_append rect.cover_join ns'_def)
qed

lemma add_child:
  assumes T: "T = GNode i B m ts" and hold: "holds ns T" "g_ok T" "distinct (ids T)"
    and leaf: "leaf \<notin> set (ids T)" "0 < order" and room: "length ts < max_children"
    and nl: "nth_opt ns leaf = Some \<lparr>node_bounds = b, max_order = order, kind = Leaf order\<rparr>"
    and B': "B' = bounds_union (bounds_union B b) b"
  defines "us \<equiv> (if order \<le> m then swap (length ts - 1) (length ts) (ts @ [GLeaf leaf b order]) else ts @ [GLeaf leaf b order])"
  shows "grown b order leaf T ns
    (ns[i := \<lparr>node_bounds = B', max_order = max m order, kind = Internal (map idx us)\<rparr>])
    (GNode i B' (max m order) us)"
proof -
  let ?ns = "ns[i := \<lparr>node_bounds = B', max_order = max m order, kind = Internal (map idx us)\<rparr>]"
  let ?L = "GLeaf leaf b order"
  have i: "i < length ns" "i \<noteq> leaf" using hold(1) T leaf(1) holds_ids[of ns T i] by auto
  have ts: "ts \<noteq> []" "m = g_max (last ts)" using hold(2) T by auto
  have set_us: "set us = insert ?L (set ts)" unfolding us_def using ts(1) by (auto simp: neq_Nil_conv)
  have len: "length us = Suc (length ts)" by (simp add: us_def)
  have cov: "covers B' B" "covers B' b"
    using B' rect.cover_join rect.cover_trans by blast+
  have "holds ns ?L" using nl by (simp add: top_ok_def)
  then have L: "holds ?ns ?L" using i(2) by (intro holds_update_other) auto
  have old: "holds ?ns t \<and> g_ok t \<and> covers B' (g_bounds t) \<and> g_max t \<le> max m order" if "t \<in> set ts" for t
  proof -
    have "i \<notin> set (ids t)" "holds ns t" "g_ok t" "covers B (g_bounds t)" "g_max t \<le> m"
      using that T hold by auto
    then show ?thesis using holds_update_other cov(1) rect.cover_trans by fastforce
  qed
  have last: "max m order = g_max (last us)"
  proof (cases "order \<le> m")
    case True
    have "last us = (ts @ [?L]) ! (length ts - 1)"
      using last_swap[of "length ts - 1" "ts @ [?L]"] ts(1) True by (simp add: us_def)
    also have "\<dots> = last ts" using ts(1) by (simp add: nth_append last_conv_nth)
    finally show ?thesis using True ts(2) by simp
  next
    case False
    then show ?thesis by (simp add: us_def)
  qed
  have "g_ok (GNode i B' (max m order) us)"
    using set_us old last len room cov(2) leaf(2) ts(1) by (auto simp: us_def)
  moreover have "holds ?ns (GNode i B' (max m order) us)"
    using set_us old L i by (auto simp: top_ok_def)
  moreover have "leaves (GNode i B' (max m order) us) = insert (leaf, b, order) (leaves T)"
    using set_us T by simp
  moreover have "distinct (ids (GNode i B' (max m order) us))"
  proof -
    have "distinct (concat (map ids (ts @ [?L])))" using hold(3) T leaf(1) by auto
    then have "distinct (concat (map ids us))"
      unfolding us_def using distinct_concat_swap[of "length ts - 1" "ts @ [?L]" "length ts" ids] ts(1) by auto
    moreover have "i \<notin> (\<Union>t \<in> set us. set (ids t))" using set_us hold(3) T i(2) by auto
    ultimately show ?thesis by simp
  qed
  moreover have "set (ids (GNode i B' (max m order) us)) \<subseteq> set (ids T) \<union> {leaf} \<union> {length ns..<length ?ns}"
    using set_us T by auto
  ultimately show ?thesis
    unfolding grown_def using T B' i by (auto simp: covers_union_iff)
qed

lemma pick_best_spec:
  assumes "\<forall>(p, c) \<in> set rest. p < length cs \<and> cs ! p = c \<and> c < length ns" "bp < length cs" "cs ! bp = bi"
  shows "\<exists>i p. pick_best ns b rest (bi, bp, bc) = Some (i, p) \<and> p < length cs \<and> cs ! p = i"
  using assms by (induction ns b rest "(bi, bp, bc)" arbitrary: bi bp bc rule: pick_best.induct)
    (auto simp: nth_opt_def Let_def)

lemma best_child_spec:
  assumes "cs \<noteq> []" "\<forall>c \<in> set cs. c < length ns"
  shows "\<exists>p < length cs. best_child ns b cs = Some (cs ! p, p)"
proof -
  have "\<forall>(p, c) \<in> set (drop 1 (enumerate 0 cs)). p < length cs \<and> cs ! p = c \<and> c < length ns"
  proof
    fix x assume "x \<in> set (drop 1 (enumerate 0 cs))"
    then have "x \<in> set (enumerate 0 cs)" by (rule in_set_dropD)
    then show "case x of (p, c) \<Rightarrow> p < length cs \<and> cs ! p = c \<and> c < length ns"
      using assms(2) by (auto simp: in_set_enumerate_eq)
  qed
  then show ?thesis
    using pick_best_spec[of "drop 1 (enumerate 0 cs)" cs ns 0 "cs ! 0" b] assms
    by (fastforce simp: best_child_def nth_opt_def)
qed

lemma propagate_append:
  "propagate b order (xs @ ys) u ns =
     (case propagate b order xs u ns of
        None \<Rightarrow> None
      | Some ns \<Rightarrow> propagate b order ys (if xs = [] then u else Some (last xs)) ns)"
proof (induction xs arbitrary: u ns)
  case (Cons x xs)
  then show ?case by (auto simp: Let_def split: option.splits)
qed simp

lemma position_nth: "distinct cs \<Longrightarrow> p < length cs \<Longrightarrow> position (cs ! p) cs = Some p"
  by (induction cs arbitrary: p) (auto simp: nth_Cons split: nat.splits)

lemma distinct_map_idx: "distinct (concat (map ids ts)) \<Longrightarrow> distinct (map idx ts)"
  by (induction ts) (auto, metis idx_ids disjoint_iff UN_I)

lemma replace_child_kind:
  assumes "p < length ts"
  shows "map idx (if P then swap p (length ts - 1) (ts[p := c]) else ts[p := c]) =
    (if P then swap p (length ts - 1) ((map idx ts)[p := idx c]) else (map idx ts)[p := idx c])"
  using assms by (simp add: map_swap map_update)

lemma descend_spec:
  assumes "holds ns T" "g_ok T" "distinct (ids T)" "leaf \<notin> set (ids T)" "0 < order"
    and nl: "nth_opt ns leaf = Some \<lparr>node_bounds = b, max_order = order, kind = Leaf order\<rparr>"
    and "\<exists>i B m ts. T = GNode i B m ts"
  shows "\<exists>ns1 p ns2 T'. (\<forall>path. descend b order leaf (idx T) path ns = Some (ns1, path @ p)) \<and>
    p \<noteq> [] \<and> hd p = idx T \<and> propagate b order (rev p) None ns1 = Some ns2 \<and>
    grown b order leaf T ns ns2 T' \<and> idx T' = idx T"
  using assms(1-5,7)
proof (induction T)
  case (GNode i B m ts)
  let ?T = "GNode i B m ts" and ?n = "\<lparr>node_bounds = B, max_order = m, kind = Internal (map idx ts)\<rparr>"
  have leaf_len: "leaf < length ns" using nl by simp
  have top: "nth_opt ns i = Some ?n" "i < length ns" "ns ! i = ?n"
    using GNode.prems(1) top_okD[of ns ?T] by (auto simp: top_ok_cases nth_opt_def)
  have "map idx ts \<noteq> []" "\<forall>c \<in> set (map idx ts). c < length ns"
    using GNode.prems(1,2) holds_ids[OF GNode.prems(1)] by auto (metis UN_I idx_ids)
  then obtain p where p: "p < length ts" "best_child ns b (map idx ts) = Some (idx (ts ! p), p)"
    using best_child_spec[of "map idx ts" ns b] by auto
  let ?c = "ts ! p"
  have c: "?c \<in> set ts" "holds ns ?c" "g_ok ?c" "g_max ?c \<le> m" "distinct (ids ?c)" "leaf \<notin> set (ids ?c)"
    using p GNode.prems by (auto simp: distinct_concat_iff)
  have nc: "nth_opt ns (idx ?c) = Some \<lparr>node_bounds = g_bounds ?c, max_order = g_max ?c, kind = g_kind ?c\<rparr>"
    using holds_top[OF c(2)] by simp
  show ?case
  proof (cases ?c)
    case (GLeaf j cb k)
    have nc': "nth_opt ns j = Some \<lparr>node_bounds = cb, max_order = k, kind = Leaf k\<rparr>"
      using nc GLeaf by (simp del: nth_opt_Some)
    show ?thesis
    proof (cases "length ts < max_children")
      case True
      define us where "us = (if order \<le> m then swap (length ts - 1) (length ts) (ts @ [GLeaf leaf b order]) else ts @ [GLeaf leaf b order])"
      have kids: "map idx us = (if order \<le> m then swap (length ts - 1) (length ts) (map idx ts @ [leaf]) else map idx ts @ [leaf])"
        unfolding us_def using p(1) by (auto simp: map_swap)
      let ?n1 = "\<lparr>node_bounds = bounds_union B b, max_order = max m order, kind = Internal (map idx us)\<rparr>"
      let ?n2 = "\<lparr>node_bounds = bounds_union (bounds_union B b) b, max_order = max m order, kind = Internal (map idx us)\<rparr>"
      have "descend b order leaf i path ns = Some (ns[i := ?n1], path @ [i])" for path
        using True GLeaf kids
        by (subst descend.simps) (simp add: top(1) p(2) nc' add_to_node_def children_push_def)
      moreover have "propagate b order (rev [i]) None (ns[i := ?n1]) = Some (ns[i := ?n2])"
        using top(2) by (simp add: nth_opt_def Let_def)
      ultimately show ?thesis
        using add_child[OF refl GNode.prems(1-5) True nl refl, folded us_def]
        by (intro exI[of _ "ns[i := ?n1]"] exI[of _ "[i]"] exI[of _ "ns[i := ?n2]"]) auto
    next
      case False
      define c' where "c' = GNode (length ns) (bounds_union cb b) (max k order)
        (if order > k then [GLeaf j cb k, GLeaf leaf b order] else [GLeaf leaf b order, GLeaf j cb k])"
      define new where "new = \<lparr>node_bounds = bounds_union cb b, max_order = max k order,
        kind = Internal (if order > k then [j, leaf] else [leaf, j])\<rparr>"
      define us where "us = (if m < order then swap p (length ts - 1) (ts[p := c']) else ts[p := c'])"
      have g: "grown b order leaf ?c ns (ns @ [new]) c'"
        unfolding GLeaf new_def c'_def
        by (rule grown_leaf_pair) (use c GLeaf GNode.prems(5) nl in \<open>auto simp: GLeaf\<close>)
      let ?n1 = "\<lparr>node_bounds = B, max_order = m, kind = Internal (map idx us)\<rparr>"
      let ?n2 = "\<lparr>node_bounds = bounds_union B b, max_order = max m order, kind = Internal (map idx us)\<rparr>"
      have kids: "map idx us = (if m < order then swap p (length ts - 1) ((map idx ts)[p := length ns]) else (map idx ts)[p := length ns])"
        unfolding us_def replace_child_kind[OF p(1)] by (simp add: c'_def)
      have gt: "m < max k order \<longleftrightarrow> m < order" using c(4) GLeaf by auto
      have "descend b order leaf i path ns = Some ((ns @ [new])[i := ?n1], path @ [i])" for path
        using False GLeaf
        by (subst descend.simps) (simp add: top(1) p(2) nc' split_leaf_def Let_def kids gt new_def)
      moreover have "propagate b order (rev [i]) None ((ns @ [new])[i := ?n1]) = Some ((ns @ [new])[i := ?n2])"
        using top(2) by (auto simp: nth_opt_def Let_def move_to_end_def max_def)
      moreover have "grown b order leaf ?T ns ((ns @ [new])[i := ?n2]) (GNode i (bounds_union B b) (max m order) us)"
        using replace_child[OF refl GNode.prems(1-4) leaf_len p(1) g, of "bounds_union B b"] by (simp add: us_def)
      ultimately show ?thesis by (intro exI conjI) (auto)
    qed
  next
    case (GNode j cb k us0)
    have nc': "nth_opt ns j = Some \<lparr>node_bounds = cb, max_order = k, kind = Internal (map idx us0)\<rparr>"
      using nc GNode by (simp del: nth_opt_Some)
    obtain ns1 q ns2 c' where IH: "\<forall>path. descend b order leaf (idx ?c) path ns = Some (ns1, path @ q)"
      "q \<noteq> []" "hd q = idx ?c" "propagate b order (rev q) None ns1 = Some ns2" "grown b order leaf ?c ns ns2 c'"
      "idx c' = idx ?c"
      using GNode.IH[OF c(1,2,3,5,6) GNode.prems(5)] GNode by blast
    define us where "us = (if m < order then swap p (length ts - 1) (ts[p := c']) else ts[p := c'])"
    let ?n2 = "\<lparr>node_bounds = bounds_union B b, max_order = max m order, kind = Internal (map idx us)\<rparr>"
    have same: "(map idx ts)[p := idx c'] = map idx ts" using IH(6) p(1) by (metis length_map list_update_id nth_map)
    have kids: "map idx us = (if m < order then swap p (length ts - 1) (map idx ts) else map idx ts)"
      unfolding us_def replace_child_kind[OF p(1)] same ..
    have i: "i \<notin> set (ids ?c)" "i < length ns2" "ns2 ! i = ?n"
      using GNode.prems(3) c(1) IH(5) top by (auto simp: grown_def)
    have pos: "position (idx ?c) (map idx ts) = Some p"
      using position_nth[of "map idx ts" p] distinct_map_idx[of ts] GNode.prems(3) p(1) by simp
    have "descend b order leaf i path ns = Some (ns1, path @ i # q)" for path
      using IH(1) GNode by (subst descend.simps) (simp add: top(1) p(2) nc')
    moreover have "propagate b order (rev (i # q)) None ns1 = Some (ns2[i := ?n2])"
      using IH(2-4) i(2,3) pos swap_same[of p "map idx ts"] p(1)
      by (auto simp: propagate_append last_rev nth_opt_def Let_def move_to_end_def kids max_def)
    moreover have "grown b order leaf ?T ns (ns2[i := ?n2]) (GNode i (bounds_union B b) (max m order) us)"
      using replace_child[OF refl GNode.prems(1-4) leaf_len p(1) IH(5), of "bounds_union B b"] by (simp add: us_def)
    ultimately show ?thesis by (intro exI[of _ ns1] exI[of _ "i # q"] exI[of _ "ns2[i := ?n2]"]) auto
  qed
qed simp

section \<open>The index represents what was inserted\<close>

definition represents :: "'a::linordered_idom bounds_tree \<Rightarrow> (nat \<times> 'a bounds \<times> nat) set \<Rightarrow> bool" where
  "represents t L \<longleftrightarrow>
     (case root t of
        None \<Rightarrow> L = {} \<and> max_leaf t = None
      | Some r \<Rightarrow> (\<exists>T m b k. idx T = r \<and> holds (tree_nodes t) T \<and> g_ok T \<and> distinct (ids T) \<and> leaves T = L \<and>
          max_leaf t = Some m \<and> (m, b, k) \<in> L \<and> (\<forall>i c j. (i, c, j) \<in> L \<longrightarrow> j \<le> k)))"

lemma representsI:
  "root t = Some (idx T) \<Longrightarrow> holds (tree_nodes t) T \<Longrightarrow> g_ok T \<Longrightarrow> distinct (ids T) \<Longrightarrow> max_leaf t = Some m \<Longrightarrow>
     (m, b, k) \<in> leaves T \<Longrightarrow> \<forall>i c j. (i, c, j) \<in> leaves T \<longrightarrow> j \<le> k \<Longrightarrow> represents t (leaves T)"
  unfolding represents_def by auto

definition hits_in :: "'a::linordered_idom bounds \<Rightarrow> (nat \<times> 'a bounds \<times> nat) set \<Rightarrow> nat set" where
  "hits_in q L = {m. \<exists>i b. (i, b, m) \<in> L \<and> intersects q b}"

lemma intersects_sym: "intersects a b \<longleftrightarrow> intersects b a"
  by (auto simp: by_edges)

lemma find_max_ordering_spec:
  assumes "represents t L"
  shows "find_max_ordering q t = Some (Max (insert 0 (hits_in q L)))"
proof (cases "root t")
  case None
  then have "hits_in q L = {}" using assms by (auto simp: represents_def hits_in_def)
  then show ?thesis using None by (simp add: find_max_ordering_def)
next
  case (Some r)
  then obtain T m b k where T: "idx T = r" "holds (tree_nodes t) T" "g_ok T" "leaves T = L"
    "max_leaf t = Some m" "(m, b, k) \<in> L" "\<forall>i c j. (i, c, j) \<in> L \<longrightarrow> j \<le> k"
    using assms by (auto simp: represents_def)
  have n: "nth_opt (tree_nodes t) m = Some \<lparr>node_bounds = b, max_order = k, kind = Leaf k\<rparr>"
    using leaves_node[OF T(2)] T(4,6) by blast
  have fin: "finite (hits_in q L)"
  proof (rule finite_subset)
    show "hits_in q L \<subseteq> (\<lambda>(i, b, m). m) ` L" by (force simp: hits_in_def)
    show "finite ((\<lambda>(i, b, m). m) ` L)" using finite_leaves[of T] T(4) by simp
  qed
  show ?thesis
  proof (cases "intersects q b")
    case True
    have "Max (insert 0 (hits_in q L)) = k"
    proof (rule Max_eqI)
      show "k \<in> insert 0 (hits_in q L)" using T(6) True by (auto simp: hits_in_def)
    qed (use fin T(7) in \<open>auto simp: hits_in_def\<close>)
    then show ?thesis using Some T(5) n True by (simp add: find_max_ordering_def del: nth_opt_Some)
  next
    case False
    have "found q (set [T]) = hits_in q L" using T(4) by (auto simp: found_def hits_in_def)
    then have "search_loop (tree_nodes t) q [r] 0 = Some (Max (insert 0 (hits_in q L)))"
      using search_loop_spec[of "[T]" "tree_nodes t" q 0] T(1-3) by (simp add: max_found_with_def)
    then show ?thesis using Some T(5) n False by (simp add: find_max_ordering_def del: nth_opt_Some)
  qed
qed

lemma insert_leaf_spec:
  assumes "represents t L" "0 < order"
  shows "\<exists>t' T. insert_leaf b order t = Some (t', length (tree_nodes t)) \<and> root t' = Some (idx T) \<and>
    holds (tree_nodes t') T \<and> g_ok T \<and> distinct (ids T) \<and>
    leaves T = insert (length (tree_nodes t), b, order) L \<and> max_leaf t' = max_leaf t"
proof (cases "root t")
  case None
  let ?T = "GLeaf (length (tree_nodes t)) b order"
  have "L = {}" using assms None by (simp add: represents_def)
  then show ?thesis
    using None assms(2) by (intro exI[of _ "fst (the (insert_leaf b order t))"] exI[of _ ?T])
      (simp add: insert_leaf_def top_ok_def Let_def)
next
  case (Some r)
  let ?leaf = "length (tree_nodes t)"
  let ?ns = "tree_nodes t @ [\<lparr>node_bounds = b, max_order = order, kind = Leaf order\<rparr>]"
  obtain T where T: "idx T = r" "holds (tree_nodes t) T" "g_ok T" "distinct (ids T)" "leaves T = L"
    using assms Some by (auto simp: represents_def)
  have hold: "holds ?ns T" using T(2) by (rule holds_append)
  have leaf: "?leaf \<notin> set (ids T)" using holds_ids[OF T(2)] by blast
  have nl: "nth_opt ?ns ?leaf = Some \<lparr>node_bounds = b, max_order = order, kind = Leaf order\<rparr>" by simp
  have r: "nth_opt ?ns r = Some \<lparr>node_bounds = g_bounds T, max_order = g_max T, kind = g_kind T\<rparr>"
    using top_ok_nth[OF holds_top[OF hold]] T(1) by simp
  show ?thesis
  proof (cases T)
    case (GLeaf i c k)
    let ?kids = "if order > k then [i, ?leaf] else [?leaf, i]"
    define T' where "T' = GNode (length ?ns) (bounds_union c b) (max k order)
      (if order > k then [GLeaf i c k, GLeaf ?leaf b order] else [GLeaf ?leaf b order, GLeaf i c k])"
    define ns' where "ns' = ?ns @ [\<lparr>node_bounds = bounds_union c b, max_order = max k order, kind = Internal ?kids\<rparr>]"
    have g: "grown b order ?leaf T ?ns ns' T'"
      unfolding GLeaf ns'_def T'_def
      by (rule grown_leaf_pair) (use hold T(3) leaf assms(2) nl GLeaf in \<open>auto simp del: nth_opt_Some\<close>)
    have "insert_leaf b order t = Some (t\<lparr>tree_nodes := ns', root := Some (length ?ns)\<rparr>, ?leaf)"
      using Some r T(1) GLeaf by (simp add: insert_leaf_def ns'_def Let_def del: nth_opt_Some)
    moreover have "holds ns' T'" "g_ok T'" "distinct (ids T')" "leaves T' = insert (?leaf, b, order) L"
      using g T(5) by (simp_all add: grown_def)
    moreover have "idx T' = length ?ns" by (simp add: T'_def)
    ultimately show ?thesis
      by (intro exI[of _ "t\<lparr>tree_nodes := ns', root := Some (length ?ns)\<rparr>"] exI[of _ T']) simp
  next
    case (GNode i c k ts)
    obtain ns1 p ns2 T' where d: "\<forall>path. descend b order ?leaf (idx T) path ?ns = Some (ns1, path @ p)"
      "propagate b order (rev p) None ns1 = Some ns2" "grown b order ?leaf T ?ns ns2 T'" "idx T' = idx T"
      using descend_spec[OF hold T(3,4) leaf assms(2) nl] GNode by blast
    have "insert_leaf b order t = Some (t\<lparr>tree_nodes := ns2\<rparr>, ?leaf)"
      using Some r T(1) GNode d(1,2) by (simp add: insert_leaf_def Let_def del: nth_opt_Some)
    moreover have "holds ns2 T'" "g_ok T'" "distinct (ids T')" "leaves T' = insert (?leaf, b, order) L"
      using d(3) T(5) by (simp_all add: grown_def)
    ultimately show ?thesis
      using d(4) T(1) Some by (intro exI[of _ "t\<lparr>tree_nodes := ns2\<rparr>"] exI[of _ T']) simp
  qed
qed

lemma bt_insert_spec:
  fixes b :: "'a::linordered_idom bounds"
  assumes "represents t L"
  defines "order \<equiv> Max (insert 0 (hits_in b L)) + 1"
  shows "\<exists>t' i. bt_insert b t = Some (t', order) \<and> represents t' (insert (i, b, order) L)"
proof -
  let ?leaf = "length (tree_nodes t)"
  obtain t' T where t': "insert_leaf b order t = Some (t', ?leaf)" "root t' = Some (idx T)"
    "holds (tree_nodes t') T" "g_ok T" "distinct (ids T)" "leaves T = insert (?leaf, b, order) L"
    "max_leaf t' = max_leaf t"
    using insert_leaf_spec[OF assms(1), of order b] by (auto simp: order_def)
  have start: "bt_insert b t = do {
      (t, new_leaf) \<leftarrow> insert_leaf b order t;
      ml \<leftarrow> (case max_leaf t of None \<Rightarrow> Some (Some new_leaf)
             | Some old \<Rightarrow> do { n \<leftarrow> nth_opt (tree_nodes t) old;
                 Some (if max_order n < order then Some new_leaf else Some old) });
      Some (t\<lparr>max_leaf := ml\<rparr>, order) }"
    unfolding bt_insert_def find_max_ordering_spec[OF assms(1)] order_def by (simp cong: option.case_cong)
  show ?thesis
  proof (cases "max_leaf t")
    case None
    then have "L = {}" using assms(1) by (auto simp: represents_def split: option.splits)
    then show ?thesis
      using start t' None by (intro exI[of _ "t'\<lparr>max_leaf := Some ?leaf\<rparr>"] exI[of _ ?leaf])
        (auto simp: represents_def)
  next
    case (Some m)
    then obtain c k where m: "(m, c, k) \<in> L" "\<forall>i c j. (i, c, j) \<in> L \<longrightarrow> j \<le> k"
      using assms(1) by (auto simp: represents_def split: option.splits)
    have n: "nth_opt (tree_nodes t') m = Some \<lparr>node_bounds = c, max_order = k, kind = Leaf k\<rparr>"
      using leaves_node[OF t'(3), of m c k] m(1) t'(6) by auto
    let ?t = "t'\<lparr>max_leaf := (if k < order then Some ?leaf else Some m)\<rparr>"
    have "bt_insert b t = Some (?t, order)"
      using start t'(1,7) Some n by (simp del: nth_opt_Some)
    moreover have "represents ?t (insert (?leaf, b, order) L)"
    proof -
      have top: "(?leaf, b, order) \<in> leaves T" "(m, c, k) \<in> leaves T" using m t'(6) by auto
      have le: "j \<le> max k order" if "(i, c, j) \<in> leaves T" for i c j
        using that m(2) t'(6) by (auto simp: le_max_iff_disj)
      show ?thesis
      proof (cases "k < order")
        case True
        then have "\<forall>i c j. (i, c, j) \<in> leaves T \<longrightarrow> j \<le> order" using le by fastforce
        then show ?thesis
          using t'(2-5) top(1) True unfolding t'(6)[symmetric] by (intro representsI) simp_all
      next
        case False
        then have "\<forall>i c j. (i, c, j) \<in> leaves T \<longrightarrow> j \<le> k" using le by fastforce
        then show ?thesis
          using t'(2-5) top(2) False unfolding t'(6)[symmetric] by (intro representsI) simp_all
      qed
    qed
    ultimately show ?thesis by blast
  qed
qed

section \<open>The specification\<close>

text \<open>The order of new bounds: one more than the greatest order of the earlier bounds they meet.\<close>

definition spec_order :: "('a::linordered_idom bounds \<times> nat) list \<Rightarrow> 'a bounds \<Rightarrow> nat" where
  "spec_order hist b = foldr max (map snd (filter (\<lambda>(c, _). intersects b c) hist)) 0 + 1"

fun spec_orders :: "('a::linordered_idom bounds \<times> nat) list \<Rightarrow> 'a bounds list \<Rightarrow> nat list" where
  "spec_orders hist [] = []"
| "spec_orders hist (b # bs) = (let k = spec_order hist b in k # spec_orders (hist @ [(b, k)]) bs)"

fun insert_all :: "'a::linordered_idom bounds list \<Rightarrow> 'a bounds_tree \<Rightarrow> ('a bounds_tree \<times> nat list) option" where
  "insert_all [] t = Some (t, [])"
| "insert_all (b # bs) t = do {
     (t, k) \<leftarrow> bt_insert b t;
     (t, ks) \<leftarrow> insert_all bs t;
     Some (t, k # ks)
   }"

lemma foldr_max: "foldr max xs (0::nat) = Max (insert 0 (set xs))"
proof (induction xs)
  case (Cons x xs)
  then show ?case by (simp add: insert_commute[of 0 x])
qed simp

lemma spec_order_eq: "snd ` L = set hist \<Longrightarrow> spec_order hist b = Max (insert 0 (hits_in b L)) + 1"
proof -
  assume h: "snd ` L = set hist"
  have "k \<in> hits_in b L \<longleftrightarrow> (\<exists>c. (c, k) \<in> set hist \<and> intersects b c)" for k
    unfolding h[symmetric] by (force simp: hits_in_def)
  then have "set (map snd (filter (\<lambda>(c, _). intersects b c) hist)) = hits_in b L" by force
  then show ?thesis by (simp add: spec_order_def foldr_max)
qed

lemma insert_all_spec:
  "represents t L \<Longrightarrow> snd ` L = set hist \<Longrightarrow>
     map_option snd (insert_all bs t) = Some (spec_orders hist bs)"
proof (induction bs arbitrary: t L hist)
  case (Cons b bs)
  let ?k = "spec_order hist b"
  obtain t' i where t': "bt_insert b t = Some (t', ?k)" "represents t' (insert (i, b, ?k) L)"
    using bt_insert_spec[OF Cons.prems(1), of b] spec_order_eq[OF Cons.prems(2)] by auto
  have "snd ` insert (i, b, ?k) L = set (hist @ [(b, ?k)])"
    using Cons.prems(2) by auto
  from Cons.IH[OF t'(2) this] show ?case using t'(1) by (auto simp: Let_def)
qed simp

lemma spec_orders_length [simp]: "length (spec_orders hist bs) = length bs"
  by (induction bs arbitrary: hist) (auto simp: Let_def)

lemma foldr_max_le: "foldr max xs (0::nat) \<le> n \<longleftrightarrow> (\<forall>x \<in> set xs. x \<le> n)"
  by (induction xs) auto

lemma spec_orders_over_hist:
  "(c, k) \<in> set hist \<Longrightarrow> j < length bs \<Longrightarrow> intersects (bs ! j) c \<Longrightarrow> k < spec_orders hist bs ! j"
proof (induction bs arbitrary: hist j)
  case (Cons b bs)
  show ?case
  proof (cases j)
    case 0
    have "k \<in> set (map snd (filter (\<lambda>(c, _). intersects b c) hist))" using Cons.prems 0 by force
    then have "k \<le> foldr max (map snd (filter (\<lambda>(c, _). intersects b c) hist)) 0"
      using foldr_max_le by blast
    then show ?thesis using 0 by (simp add: Let_def spec_order_def)
  next
    case (Suc j')
    then show ?thesis using Cons by (simp add: Let_def)
  qed
qed simp

lemma spec_orders_increase:
  "i < j \<Longrightarrow> j < length bs \<Longrightarrow> intersects (bs ! j) (bs ! i) \<Longrightarrow> spec_orders hist bs ! i < spec_orders hist bs ! j"
proof (induction bs arbitrary: hist i j)
  case (Cons b bs)
  then obtain j' where j: "j = Suc j'" by (cases j) auto
  show ?case
  proof (cases i)
    case 0
    then show ?thesis
      using Cons.prems j spec_orders_over_hist[of b "spec_order hist b" "hist @ [(b, spec_order hist b)]" j' bs]
      by (simp add: Let_def)
  next
    case (Suc i')
    then show ?thesis using Cons j by (simp add: Let_def)
  qed
qed simp

lemma spec_orders_bounded:
  "\<forall>(c, k) \<in> set hist. k \<le> n \<Longrightarrow> k \<in> set (spec_orders hist bs) \<Longrightarrow> 0 < k \<and> k \<le> n + length bs"
proof (induction bs arbitrary: hist n)
  case (Cons b bs)
  have "foldr max (map snd (filter (\<lambda>(c, _). intersects b c) hist)) 0 \<le> n"
    using Cons.prems(1) by (auto simp: foldr_max_le)
  then have b: "0 < spec_order hist b" "spec_order hist b \<le> Suc n" by (simp_all add: spec_order_def)
  then have "\<forall>(c, k) \<in> set (hist @ [(b, spec_order hist b)]). k \<le> Suc n" using Cons.prems(1) by fastforce
  from Cons.IH[OF this] Cons.prems(2) b show ?case by (auto simp: Let_def)
qed simp

section \<open>Properties\<close>

text \<open>C13: inserting any bounds one after the other into an empty index never panics and ends, and each
  insertion returns one more than the greatest order of the earlier bounds it meets, whatever shape
  the tree has taken and whether the fast path or the pruned search runs.\<close>

theorem bounds_tree_refines:
  "map_option snd (insert_all bs bt_default) = Some (spec_orders [] bs)"
  by (rule insert_all_spec[where L = "{}"]) (simp_all add: represents_def bt_default_def)

text \<open>Of two bounds that meet, the later one has the greater order, and the orders lie between 1
  and the number of insertions, so they fit in 32 bits below that many quads.\<close>

theorem bounds_tree_orders:
  assumes "insert_all bs bt_default = Some (t, ks)"
  shows "length ks = length bs \<and> list_all (\<lambda>k. 0 < k \<and> k \<le> length bs) ks \<and>
    (\<forall>i j. i < j \<and> j < length bs \<and> intersects (bs ! j) (bs ! i) \<longrightarrow> ks ! i < ks ! j)"
proof -
  have ks: "ks = spec_orders [] bs"
    using insert_all_spec[of bt_default "{}" "[]" bs] assms by (simp add: represents_def bt_default_def)
  show ?thesis
    using spec_orders_increase spec_orders_bounded[of "[]" 0 _ bs] by (auto simp: ks list_all_iff)
qed

definition three_quads :: "int bounds list" where
  "three_quads = map (\<lambda>o1. \<lparr>origin = \<lparr>pt_x = o1, pt_y = o1\<rparr>, extent = \<lparr>width = 10, height = 10\<rparr>\<rparr>) [0, 5, 20]"

theorem bounds_tree_orders_witness:
  "\<exists>t ks. insert_all three_quads bt_default = Some (t, ks) \<and> ks ! 0 < ks ! 1"
proof -
  obtain t ks where r: "insert_all three_quads bt_default = Some (t, ks)"
    using insert_all_spec[of bt_default "{}" "[]" three_quads] by (auto simp: represents_def bt_default_def)
  have "intersects (three_quads ! 1) (three_quads ! 0)" "length three_quads = 3"
    by (simp_all add: three_quads_def bounds_defs)
  then have "ks ! 0 < ks ! 1" using bounds_tree_orders[OF r] by auto
  with r show ?thesis by blast
qed

end
