(* ===== verification/Scene.thy ===== *)
theory Scene
  imports BoundsTree Complex_Main "HOL-Library.Product_Lexorder"
begin

text \<open>
  The scene of a frame: \<open>crates/lucie/src/scene.rs\<close>.  Elements insert primitives and open and close
  layers; every primitive gets a draw order, from the innermost open layer or from the spatial index of
  BoundsTree; \<open>finish\<close> sorts each kind by order, and the renderers draw the batches that the batch
  iterator cuts out of the seven sorted vectors.  A scene also records its operations, so that a view
  that has not changed is replayed from the previous frame.

  A primitive keeps its order, its rectangles, its tile and the vertices of a path; its colours and
  other attributes are one opaque value of type \<open>'p\<close>.  Draw orders are \<open>u32\<close> in the code and numbers
  here; \<open>u32_max\<close> is the value that the iterator uses for a vector that is used up.  \<open>None\<close> is a panic
  of the spatial index or of a slice.

  The first lemmas say what an arm of the iterator takes, the next that the batches are the merge of
  the seven vectors, the last that overlapping primitives are drawn in the order of their insertion and
  that a replay rebuilds a scene.
\<close>

section \<open>Primitives\<close>

type_synonym draw_order = nat

record 'a content_mask =
  mask_bounds :: "'a bounds"

definition mask_scale :: "'a::linordered_idom \<Rightarrow> 'a content_mask \<Rightarrow> 'a content_mask" where
  "mask_scale factor m = \<lparr>mask_bounds = bounds_scale factor (mask_bounds m)\<rparr>"

definition mask_intersect :: "'a::linordered_idom content_mask \<Rightarrow> 'a content_mask \<Rightarrow> 'a content_mask" where
  "mask_intersect m other = \<lparr>mask_bounds = intersect (mask_bounds m) (mask_bounds other)\<rparr>"

datatype atlas_texture_kind = MonochromeTexture | PolychromeTexture

record atlas_texture_id =
  texture_index :: nat
  texture_kind :: atlas_texture_kind

record atlas_tile =
  texture_id :: atlas_texture_id
  tile_id :: nat
  tile_padding :: nat
  tile_bounds :: "int bounds"

record ('a, 'p) quad =
  quad_order :: draw_order
  quad_bounds :: "'a bounds"
  quad_mask :: "'a content_mask"
  quad_style :: 'p

record ('a, 'p) underline =
  underline_order :: draw_order
  underline_bounds :: "'a bounds"
  underline_mask :: "'a content_mask"
  underline_style :: 'p

record ('a, 'p) shadow =
  shadow_order :: draw_order
  shadow_bounds :: "'a bounds"
  shadow_mask :: "'a content_mask"
  shadow_style :: 'p

record ('a, 'p) monochrome_sprite =
  mono_order :: draw_order
  mono_bounds :: "'a bounds"
  mono_mask :: "'a content_mask"
  mono_tile :: atlas_tile
  mono_style :: 'p

record ('a, 'p) polychrome_sprite =
  poly_order :: draw_order
  poly_bounds :: "'a bounds"
  poly_mask :: "'a content_mask"
  poly_tile :: atlas_tile
  poly_style :: 'p

record ('a, 'p) paint_surface =
  surface_order :: draw_order
  surface_bounds :: "'a bounds"
  surface_mask :: "'a content_mask"
  surface_style :: 'p

record 'a path_vertex =
  xy_position :: "'a point"
  st_position :: "rat point"
  vertex_mask :: "'a content_mask"

record ('a, 'p) scene_path =
  path_id :: nat
  path_order :: draw_order
  path_bounds :: "'a bounds"
  path_mask :: "'a content_mask"
  path_vertices :: "'a path_vertex list"
  path_style :: 'p
  path_start :: "'a point"
  path_current :: "'a point"
  contour_count :: nat

datatype ('a, 'p) primitive =
    Shadow "('a, 'p) shadow"
  | Quad "('a, 'p) quad"
  | Path "('a, 'p) scene_path"
  | Underline "('a, 'p) underline"
  | MonochromeSprite "('a, 'p) monochrome_sprite"
  | PolychromeSprite "('a, 'p) polychrome_sprite"
  | Surface "('a, 'p) paint_surface"

fun primitive_bounds_of :: "('a, 'p) primitive \<Rightarrow> 'a bounds" where
  "primitive_bounds_of (Shadow s) = shadow_bounds s"
| "primitive_bounds_of (Quad q) = quad_bounds q"
| "primitive_bounds_of (Path p) = path_bounds p"
| "primitive_bounds_of (Underline u) = underline_bounds u"
| "primitive_bounds_of (MonochromeSprite s) = mono_bounds s"
| "primitive_bounds_of (PolychromeSprite s) = poly_bounds s"
| "primitive_bounds_of (Surface s) = surface_bounds s"

fun primitive_mask :: "('a, 'p) primitive \<Rightarrow> 'a content_mask" where
  "primitive_mask (Shadow s) = shadow_mask s"
| "primitive_mask (Quad q) = quad_mask q"
| "primitive_mask (Path p) = path_mask p"
| "primitive_mask (Underline u) = underline_mask u"
| "primitive_mask (MonochromeSprite s) = mono_mask s"
| "primitive_mask (PolychromeSprite s) = poly_mask s"
| "primitive_mask (Surface s) = surface_mask s"

datatype ('a, 'p) paint_operation = PaintPrimitive "('a, 'p) primitive" | StartLayer "'a bounds" | EndLayer

section \<open>Building paths\<close>

definition zero_point :: "'a::linordered_idom point" where
  "zero_point = \<lparr>pt_x = 0, pt_y = 0\<rparr>"

definition point_bounds :: "'a::linordered_idom point \<Rightarrow> 'a bounds" where
  "point_bounds p = \<lparr>origin = p, extent = \<lparr>width = 0, height = 0\<rparr>\<rparr>"

definition default_mask :: "'a::linordered_idom content_mask" where
  "default_mask = \<lparr>mask_bounds = point_bounds zero_point\<rparr>"

definition path_new :: "'p \<Rightarrow> 'a::linordered_idom point \<Rightarrow> ('a, 'p) scene_path" where
  "path_new default_style start =
     \<lparr>path_id = 0, path_order = 0, path_bounds = point_bounds start, path_mask = default_mask,
      path_vertices = [], path_style = default_style, path_start = start, path_current = start,
      contour_count = 0\<rparr>"

definition push_triangle ::
  "'a::linordered_idom point \<times> 'a point \<times> 'a point \<Rightarrow> rat point \<times> rat point \<times> rat point \<Rightarrow>
     ('a, 'p) scene_path \<Rightarrow> ('a, 'p) scene_path" where
  "push_triangle xy st p =
     (let (a, b, c) = xy; (s, t, u) = st;
          vertex = (\<lambda>q r. \<lparr>xy_position = q, st_position = r, vertex_mask = default_mask\<rparr>)
      in p\<lparr>path_bounds :=
             bounds_union (bounds_union (bounds_union (path_bounds p) (point_bounds a)) (point_bounds b)) (point_bounds c),
           path_vertices := path_vertices p @ [vertex a s, vertex b t, vertex c u]\<rparr>)"

definition path_move_to :: "'a point \<Rightarrow> ('a, 'p) scene_path \<Rightarrow> ('a, 'p) scene_path" where
  "path_move_to to p = p\<lparr>contour_count := contour_count p + 1, path_start := to, path_current := to\<rparr>"

definition path_line_to :: "'a::linordered_idom point \<Rightarrow> ('a, 'p) scene_path \<Rightarrow> ('a, 'p) scene_path" where
  "path_line_to to p =
     (let p = p\<lparr>contour_count := contour_count p + 1\<rparr>; inner = point_new 0 1;
          p = (if contour_count p > 1 then push_triangle (path_start p, path_current p, to) (inner, inner, inner) p else p)
      in p\<lparr>path_current := to\<rparr>)"

definition path_curve_to ::
  "'a::linordered_idom point \<Rightarrow> 'a point \<Rightarrow> ('a, 'p) scene_path \<Rightarrow> ('a, 'p) scene_path" where
  "path_curve_to to ctrl p =
     (let p = p\<lparr>contour_count := contour_count p + 1\<rparr>; inner = point_new 0 1;
          p = (if contour_count p > 1 then push_triangle (path_start p, path_current p, to) (inner, inner, inner) p else p);
          p = push_triangle (path_current p, ctrl, to) (point_new 0 0, point_new (1 / 2) 0, point_new 1 1) p
      in p\<lparr>path_current := to\<rparr>)"

definition vertex_scale :: "'a::linordered_idom \<Rightarrow> 'a path_vertex \<Rightarrow> 'a path_vertex" where
  "vertex_scale factor v =
     \<lparr>xy_position = point_scale factor (xy_position v), st_position = st_position v,
      vertex_mask = mask_scale factor (vertex_mask v)\<rparr>"

definition path_scale :: "'a::linordered_idom \<Rightarrow> ('a, 'p) scene_path \<Rightarrow> ('a, 'p) scene_path" where
  "path_scale factor p =
     \<lparr>path_id = path_id p, path_order = path_order p, path_bounds = bounds_scale factor (path_bounds p),
      path_mask = mask_scale factor (path_mask p), path_vertices = map (vertex_scale factor) (path_vertices p),
      path_style = path_style p, path_start = point_map (\<lambda>x. x * factor) (path_start p),
      path_current = point_scale factor (path_current p), contour_count = contour_count p\<rparr>"

definition clipped_bounds :: "('a::linordered_idom, 'p) scene_path \<Rightarrow> 'a bounds" where
  "clipped_bounds p = intersect (path_bounds p) (mask_bounds (path_mask p))"

section \<open>The scene\<close>

record ('a, 'p) scene =
  paint_operations :: "('a, 'p) paint_operation list"
  primitive_bounds :: "'a bounds_tree"
  layer_stack :: "draw_order list"
  shadows :: "('a, 'p) shadow list"
  quads :: "('a, 'p) quad list"
  paths :: "('a, 'p) scene_path list"
  underlines :: "('a, 'p) underline list"
  monochrome_sprites :: "('a, 'p) monochrome_sprite list"
  polychrome_sprites :: "('a, 'p) polychrome_sprite list"
  surfaces :: "('a, 'p) paint_surface list"

definition scene_default :: "('a, 'p) scene" where
  "scene_default = \<lparr>paint_operations = [], primitive_bounds = bt_default, layer_stack = [], shadows = [],
     quads = [], paths = [], underlines = [], monochrome_sprites = [], polychrome_sprites = [], surfaces = []\<rparr>"

definition scene_clear :: "('a, 'p) scene \<Rightarrow> ('a, 'p) scene" where
  "scene_clear s = s\<lparr>paint_operations := [], primitive_bounds := bt_clear (primitive_bounds s), layer_stack := [],
     paths := [], shadows := [], quads := [], underlines := [], monochrome_sprites := [],
     polychrome_sprites := [], surfaces := []\<rparr>"

definition scene_len :: "('a, 'p) scene \<Rightarrow> nat" where
  "scene_len s = length (paint_operations s)"

definition push_layer :: "'a::linordered_idom bounds \<Rightarrow> ('a, 'p) scene \<Rightarrow> ('a, 'p) scene option" where
  "push_layer b s = do {
     (t, order) \<leftarrow> bt_insert b (primitive_bounds s);
     Some (s\<lparr>primitive_bounds := t, layer_stack := layer_stack s @ [order],
             paint_operations := paint_operations s @ [StartLayer b]\<rparr>)
   }"

definition pop_layer :: "('a, 'p) scene \<Rightarrow> ('a, 'p) scene" where
  "pop_layer s = s\<lparr>layer_stack := butlast (layer_stack s), paint_operations := paint_operations s @ [EndLayer]\<rparr>"

text \<open>The match of \<open>insert_primitive\<close>: the primitive gets its order and goes to the vector of its kind; a
  path is numbered.\<close>

fun place_primitive ::
  "draw_order \<Rightarrow> ('a, 'p) primitive \<Rightarrow> ('a, 'p) scene \<Rightarrow> ('a, 'p) primitive \<times> ('a, 'p) scene" where
  "place_primitive order (Shadow x) s =
     (let x = x\<lparr>shadow_order := order\<rparr> in (Shadow x, s\<lparr>shadows := shadows s @ [x]\<rparr>))"
| "place_primitive order (Quad x) s =
     (let x = x\<lparr>quad_order := order\<rparr> in (Quad x, s\<lparr>quads := quads s @ [x]\<rparr>))"
| "place_primitive order (Path x) s =
     (let x = x\<lparr>path_order := order, path_id := length (paths s)\<rparr> in (Path x, s\<lparr>paths := paths s @ [x]\<rparr>))"
| "place_primitive order (Underline x) s =
     (let x = x\<lparr>underline_order := order\<rparr> in (Underline x, s\<lparr>underlines := underlines s @ [x]\<rparr>))"
| "place_primitive order (MonochromeSprite x) s =
     (let x = x\<lparr>mono_order := order\<rparr> in (MonochromeSprite x, s\<lparr>monochrome_sprites := monochrome_sprites s @ [x]\<rparr>))"
| "place_primitive order (PolychromeSprite x) s =
     (let x = x\<lparr>poly_order := order\<rparr> in (PolychromeSprite x, s\<lparr>polychrome_sprites := polychrome_sprites s @ [x]\<rparr>))"
| "place_primitive order (Surface x) s =
     (let x = x\<lparr>surface_order := order\<rparr> in (Surface x, s\<lparr>surfaces := surfaces s @ [x]\<rparr>))"

definition primitive_clip :: "('a::linordered_idom, 'p) primitive \<Rightarrow> 'a bounds" where
  "primitive_clip p = intersect (primitive_bounds_of p) (mask_bounds (primitive_mask p))"

definition insert_primitive :: "('a::linordered_idom, 'p) primitive \<Rightarrow> ('a, 'p) scene \<Rightarrow> ('a, 'p) scene option" where
  "insert_primitive p s =
     (let clipped = primitive_clip p in
      if is_empty clipped then Some s
      else do {
        (s, order) \<leftarrow> (case last_opt (layer_stack s) of
                         Some order \<Rightarrow> Some (s, order)
                       | None \<Rightarrow> do {
                           (t, order) \<leftarrow> bt_insert clipped (primitive_bounds s);
                           Some (s\<lparr>primitive_bounds := t\<rparr>, order) });
        let (p, s) = place_primitive order p s;
        Some (s\<lparr>paint_operations := paint_operations s @ [PaintPrimitive p]\<rparr>)
      })"

fun scene_step :: "('a::linordered_idom, 'p) paint_operation \<Rightarrow> ('a, 'p) scene \<Rightarrow> ('a, 'p) scene option" where
  "scene_step (PaintPrimitive p) s = insert_primitive p s"
| "scene_step (StartLayer b) s = push_layer b s"
| "scene_step EndLayer s = Some (pop_layer s)"

fun scene_steps :: "('a::linordered_idom, 'p) paint_operation list \<Rightarrow> ('a, 'p) scene \<Rightarrow> ('a, 'p) scene option" where
  "scene_steps [] s = Some s"
| "scene_steps (x # xs) s = Option.bind (scene_step x s) (scene_steps xs)"

definition scene_replay ::
  "nat \<Rightarrow> nat \<Rightarrow> ('a::linordered_idom, 'p) scene \<Rightarrow> ('a, 'p) scene \<Rightarrow> ('a, 'p) scene option" where
  "scene_replay first_op end_op prev_scene s =
     (let ops = paint_operations prev_scene in
      if first_op \<le> end_op \<and> end_op \<le> length ops then scene_steps (drop first_op (take end_op ops)) s else None)"

definition scene_finish :: "('a, 'p) scene \<Rightarrow> ('a, 'p) scene" where
  "scene_finish s = s\<lparr>
     shadows := sort_key shadow_order (shadows s),
     quads := sort_key quad_order (quads s),
     paths := sort_key path_order (paths s),
     underlines := sort_key underline_order (underlines s),
     monochrome_sprites := sort_key (\<lambda>x. (mono_order x, tile_id (mono_tile x))) (monochrome_sprites s),
     polychrome_sprites := sort_key (\<lambda>x. (poly_order x, tile_id (poly_tile x))) (polychrome_sprites s),
     surfaces := sort_key surface_order (surfaces s)\<rparr>"

section \<open>Batches\<close>

definition u32_max :: nat where
  "u32_max = 2 ^ 32 - 1"

datatype primitive_kind =
  ShadowKind | QuadKind | PathKind | UnderlineKind | MonochromeKind | PolychromeKind | SurfaceKind

fun kind_index :: "primitive_kind \<Rightarrow> nat" where
  "kind_index ShadowKind = 0"
| "kind_index QuadKind = 1"
| "kind_index PathKind = 2"
| "kind_index UnderlineKind = 3"
| "kind_index MonochromeKind = 4"
| "kind_index PolychromeKind = 5"
| "kind_index SurfaceKind = 6"

lemma kind_index_inject: "kind_index a = kind_index b \<longleftrightarrow> a = b"
  by (cases a; cases b) simp_all

text \<open>The derived order: the kinds as they are declared.\<close>

instantiation primitive_kind :: linorder
begin

definition less_eq_primitive_kind :: "primitive_kind \<Rightarrow> primitive_kind \<Rightarrow> bool" where
  "less_eq_primitive_kind a b \<longleftrightarrow> kind_index a \<le> kind_index b"

definition less_primitive_kind :: "primitive_kind \<Rightarrow> primitive_kind \<Rightarrow> bool" where
  "less_primitive_kind a b \<longleftrightarrow> kind_index a < kind_index b"

instance
  by standard (auto simp: less_eq_primitive_kind_def less_primitive_kind_def kind_index_inject)

end

record ('a, 'p) batch_iterator =
  shadows_start :: nat
  shadows_iter :: "('a, 'p) shadow list"
  quads_start :: nat
  quads_iter :: "('a, 'p) quad list"
  paths_start :: nat
  paths_iter :: "('a, 'p) scene_path list"
  underlines_start :: nat
  underlines_iter :: "('a, 'p) underline list"
  monochrome_start :: nat
  monochrome_iter :: "('a, 'p) monochrome_sprite list"
  polychrome_start :: nat
  polychrome_iter :: "('a, 'p) polychrome_sprite list"
  surfaces_start :: nat
  surfaces_iter :: "('a, 'p) paint_surface list"

datatype primitive_batch =
    Shadows nat nat
  | Quads nat nat
  | Paths nat nat
  | Underlines nat nat
  | MonochromeSprites atlas_texture_id nat nat
  | PolychromeSprites atlas_texture_id nat nat
  | Surfaces nat nat

definition batches :: "('a, 'p) scene \<Rightarrow> ('a, 'p) batch_iterator" where
  "batches s = \<lparr>shadows_start = 0, shadows_iter = shadows s, quads_start = 0, quads_iter = quads s,
     paths_start = 0, paths_iter = paths s, underlines_start = 0, underlines_iter = underlines s,
     monochrome_start = 0, monochrome_iter = monochrome_sprites s, polychrome_start = 0,
     polychrome_iter = polychrome_sprites s, surfaces_start = 0, surfaces_iter = surfaces s\<rparr>"

fun peek :: "'b list \<Rightarrow> 'b option" where
  "peek [] = None"
| "peek (x # xs) = Some x"

definition orders_and_kinds :: "('a, 'p) batch_iterator \<Rightarrow> (draw_order option \<times> primitive_kind) list" where
  "orders_and_kinds it =
     [(map_option shadow_order (peek (shadows_iter it)), ShadowKind),
      (map_option quad_order (peek (quads_iter it)), QuadKind),
      (map_option path_order (peek (paths_iter it)), PathKind),
      (map_option underline_order (peek (underlines_iter it)), UnderlineKind),
      (map_option mono_order (peek (monochrome_iter it)), MonochromeKind),
      (map_option poly_order (peek (polychrome_iter it)), PolychromeKind),
      (map_option surface_order (peek (surfaces_iter it)), SurfaceKind)]"

definition unwrap_order :: "draw_order option \<times> primitive_kind \<Rightarrow> draw_order \<times> primitive_kind" where
  "unwrap_order x = (case fst x of None \<Rightarrow> u32_max | Some order \<Rightarrow> order, snd x)"

text \<open>The loop over \<open>next_if\<close>: how far the batch reaches and what is left.\<close>

fun next_while :: "('b \<Rightarrow> bool) \<Rightarrow> 'b list \<Rightarrow> nat \<Rightarrow> nat \<times> 'b list" where
  "next_while P [] e = (e, [])"
| "next_while P (x # xs) e = (if P x then next_while P xs (e + 1) else (e, x # xs))"

definition take_batch ::
  "primitive_kind \<Rightarrow> draw_order \<times> primitive_kind \<Rightarrow> ('a, 'p) batch_iterator \<Rightarrow>
     (primitive_batch \<times> ('a, 'p) batch_iterator) option" where
  "take_batch batch_kind max_order_and_kind it =
     (case batch_kind of
        ShadowKind \<Rightarrow>
          let (e, xs) = next_while (\<lambda>x. (shadow_order x, batch_kind) < max_order_and_kind)
                          (tl (shadows_iter it)) (shadows_start it + 1)
          in Some (Shadows (shadows_start it) e, it\<lparr>shadows_iter := xs, shadows_start := e\<rparr>)
      | QuadKind \<Rightarrow>
          let (e, xs) = next_while (\<lambda>x. (quad_order x, batch_kind) < max_order_and_kind)
                          (tl (quads_iter it)) (quads_start it + 1)
          in Some (Quads (quads_start it) e, it\<lparr>quads_iter := xs, quads_start := e\<rparr>)
      | PathKind \<Rightarrow>
          let (e, xs) = next_while (\<lambda>x. (path_order x, batch_kind) < max_order_and_kind)
                          (tl (paths_iter it)) (paths_start it + 1)
          in Some (Paths (paths_start it) e, it\<lparr>paths_iter := xs, paths_start := e\<rparr>)
      | UnderlineKind \<Rightarrow>
          let (e, xs) = next_while (\<lambda>x. (underline_order x, batch_kind) < max_order_and_kind)
                          (tl (underlines_iter it)) (underlines_start it + 1)
          in Some (Underlines (underlines_start it) e, it\<lparr>underlines_iter := xs, underlines_start := e\<rparr>)
      | MonochromeKind \<Rightarrow>
          (case peek (monochrome_iter it) of
             None \<Rightarrow> None
           | Some sprite \<Rightarrow>
               let texture = texture_id (mono_tile sprite);
                   (e, xs) = next_while (\<lambda>x. (mono_order x, batch_kind) < max_order_and_kind \<and>
                                             texture_id (mono_tile x) = texture)
                               (tl (monochrome_iter it)) (monochrome_start it + 1)
               in Some (MonochromeSprites texture (monochrome_start it) e,
                        it\<lparr>monochrome_iter := xs, monochrome_start := e\<rparr>))
      | PolychromeKind \<Rightarrow>
          (case peek (polychrome_iter it) of
             None \<Rightarrow> None
           | Some sprite \<Rightarrow>
               let texture = texture_id (poly_tile sprite);
                   (e, xs) = next_while (\<lambda>x. (poly_order x, batch_kind) < max_order_and_kind \<and>
                                             texture_id (poly_tile x) = texture)
                               (tl (polychrome_iter it)) (polychrome_start it + 1)
               in Some (PolychromeSprites texture (polychrome_start it) e,
                        it\<lparr>polychrome_iter := xs, polychrome_start := e\<rparr>))
      | SurfaceKind \<Rightarrow>
          let (e, xs) = next_while (\<lambda>x. (surface_order x, batch_kind) < max_order_and_kind)
                          (tl (surfaces_iter it)) (surfaces_start it + 1)
          in Some (Surfaces (surfaces_start it) e, it\<lparr>surfaces_iter := xs, surfaces_start := e\<rparr>))"

text \<open>\<open>BatchIterator::next\<close>: the outer \<open>None\<close> is a panic, the inner one the end.\<close>

definition batch_next ::
  "('a, 'p) batch_iterator \<Rightarrow> (primitive_batch option \<times> ('a, 'p) batch_iterator) option" where
  "batch_next it = do {
     let sorted = sort_key unwrap_order (orders_and_kinds it);
     first \<leftarrow> nth_opt sorted 0;
     second \<leftarrow> nth_opt sorted 1;
     (case fst first of
        None \<Rightarrow> Some (None, it)
      | Some _ \<Rightarrow> do {
          (b, it) \<leftarrow> take_batch (snd first) (unwrap_order second) it;
          Some (Some b, it) })
   }"

section \<open>The batches merge the vectors\<close>

text \<open>What the iterator sees of a vector: where it is and the orders and textures that are left.\<close>

fun lane :: "('a, 'p) batch_iterator \<Rightarrow> primitive_kind \<Rightarrow> nat \<times> (draw_order \<times> atlas_texture_id option) list" where
  "lane it ShadowKind = (shadows_start it, map (\<lambda>x. (shadow_order x, None)) (shadows_iter it))"
| "lane it QuadKind = (quads_start it, map (\<lambda>x. (quad_order x, None)) (quads_iter it))"
| "lane it PathKind = (paths_start it, map (\<lambda>x. (path_order x, None)) (paths_iter it))"
| "lane it UnderlineKind = (underlines_start it, map (\<lambda>x. (underline_order x, None)) (underlines_iter it))"
| "lane it MonochromeKind =
     (monochrome_start it, map (\<lambda>x. (mono_order x, Some (texture_id (mono_tile x)))) (monochrome_iter it))"
| "lane it PolychromeKind =
     (polychrome_start it, map (\<lambda>x. (poly_order x, Some (texture_id (poly_tile x)))) (polychrome_iter it))"
| "lane it SurfaceKind = (surfaces_start it, map (\<lambda>x. (surface_order x, None)) (surfaces_iter it))"

fun batch_range :: "primitive_batch \<Rightarrow> primitive_kind \<times> nat \<times> nat" where
  "batch_range (Shadows i j) = (ShadowKind, i, j)"
| "batch_range (Quads i j) = (QuadKind, i, j)"
| "batch_range (Paths i j) = (PathKind, i, j)"
| "batch_range (Underlines i j) = (UnderlineKind, i, j)"
| "batch_range (MonochromeSprites _ i j) = (MonochromeKind, i, j)"
| "batch_range (PolychromeSprites _ i j) = (PolychromeKind, i, j)"
| "batch_range (Surfaces i j) = (SurfaceKind, i, j)"

fun batch_texture :: "primitive_batch \<Rightarrow> atlas_texture_id option" where
  "batch_texture (MonochromeSprites t _ _) = Some t"
| "batch_texture (PolychromeSprites t _ _) = Some t"
| "batch_texture _ = None"

lemma next_while_spec:
  "next_while P xs e = (e + length (takeWhile P xs), dropWhile P xs)"
  by (induction xs arbitrary: e) auto

lemma dropWhile_drop: "dropWhile P xs = drop (length (takeWhile P xs)) xs"
  by (metis append_eq_conv_conj takeWhile_dropWhile_id)

text \<open>One arm: it takes the head of its vector and what follows below the limit, with one texture.\<close>

definition arm_takes :: "primitive_kind \<Rightarrow> draw_order \<times> primitive_kind \<Rightarrow>
    (draw_order \<times> atlas_texture_id option) list \<Rightarrow> nat" where
  "arm_takes k limit xs = Suc (length (takeWhile (\<lambda>x. (fst x, k) < limit \<and> snd x = snd (hd xs)) (tl xs)))"

lemma takeWhile_lane:
  "(\<And>x. P x \<longleftrightarrow> Q (f x)) \<Longrightarrow> length (takeWhile P xs) = length (takeWhile Q (map f xs))"
  by (induction xs) auto

lemma drop_Suc_tl: "drop (Suc n) xs = drop n (tl xs)"
  by (cases xs) auto

lemmas arm_simps = take_batch_def arm_takes_def next_while_spec dropWhile_drop drop_map takeWhile_map o_def Let_def

lemma lane_fun_eq:
  "lane it' = (lane it)(k := l) \<longleftrightarrow> lane it' k = l \<and> (\<forall>k' \<in> {ShadowKind, QuadKind, PathKind, UnderlineKind,
     MonochromeKind, PolychromeKind, SurfaceKind} - {k}. lane it' k' = lane it k')"
proof -
  have "k' \<in> {ShadowKind, QuadKind, PathKind, UnderlineKind, MonochromeKind, PolychromeKind, SurfaceKind}" for k'
    by (cases k') simp_all
  then show ?thesis by (auto simp: fun_eq_iff)
qed

lemma take_batch_spec:
  assumes "snd (lane it k) = x # xs"
  shows "\<exists>b it' n. n = arm_takes k limit (x # xs) \<and> take_batch k limit it = Some (b, it') \<and>
    batch_range b = (k, fst (lane it k), fst (lane it k) + n) \<and> batch_texture b = snd x \<and>
    lane it' = (lane it)(k := (fst (lane it k) + n, drop n (x # xs)))"
  unfolding lane_fun_eq using assms
  by (cases k) (auto simp: arm_simps split: prod.split)

text \<open>The head of a vector as the iterator compares it.\<close>

definition head_key :: "(draw_order \<times> 'b) list \<Rightarrow> primitive_kind \<Rightarrow> draw_order \<times> primitive_kind" where
  "head_key xs k = (case xs of [] \<Rightarrow> u32_max | x # _ \<Rightarrow> fst x, k)"

definition all_kinds :: "primitive_kind list" where
  "all_kinds = [ShadowKind, QuadKind, PathKind, UnderlineKind, MonochromeKind, PolychromeKind, SurfaceKind]"

lemma in_all_kinds: "k \<in> set all_kinds"
  by (cases k) (simp_all add: all_kinds_def)

lemma peek_map [simp]: "peek (map f xs) = map_option f (peek xs)"
  by (cases xs) auto

lemma orders_and_kinds_lane:
  "orders_and_kinds it = map (\<lambda>k. (map_option fst (peek (snd (lane it k))), k)) all_kinds"
  by (simp add: orders_and_kinds_def all_kinds_def option.map_comp o_def)

lemma unwrap_order_lane: "unwrap_order (map_option fst (peek xs), k) = head_key xs k"
  by (cases xs) (auto simp: unwrap_order_def head_key_def)

lemma two_least:
  assumes "length xs \<ge> 2" "sort_key f xs = ys"
  shows "\<exists>a b zs. ys = a # b # zs \<and> a \<in> set xs \<and> b \<in> set xs \<and> f a \<le> f b \<and>
    (\<forall>x \<in> set xs. x = a \<or> f b \<le> f x)"
proof -
  have "length ys \<ge> 2" using assms by (metis length_sort)
  then obtain a b zs where y: "ys = a # b # zs" by (metis Suc_le_length_iff numeral_2_eq_2)
  have "sorted (map f ys)" using assms(2) by (metis sorted_sort_key)
  moreover have "set xs = set ys" using assms(2) by (metis set_sort)
  ultimately show ?thesis using y by auto
qed

text \<open>\<open>next\<close> takes from the vector whose head is least, up to the least head of the others.\<close>

lemma batch_next_end:
  "(\<forall>k. snd (lane it k) = []) \<Longrightarrow> batch_next it = Some (None, it)"
proof -
  assume e: "\<forall>k. snd (lane it k) = []"
  have len: "length (orders_and_kinds it) \<ge> 2" by (simp add: orders_and_kinds_def)
  obtain a b zs where ab: "sort_key unwrap_order (orders_and_kinds it) = a # b # zs" "a \<in> set (orders_and_kinds it)"
    using two_least[OF len refl, of unwrap_order] by blast
  have "fst a = None" using ab(2) e by (auto simp: orders_and_kinds_lane)
  then show ?thesis using ab(1) by (simp add: batch_next_def nth_opt_def)
qed

lemma batch_next_spec:
  assumes "snd (lane it k0) \<noteq> []" "\<forall>k. \<forall>x \<in> set (snd (lane it k)). fst x < u32_max"
  shows "\<exists>k x xs limit b it' n. snd (lane it k) = x # xs \<and> n = arm_takes k limit (x # xs) \<and>
    (fst x, k) < limit \<and> (\<forall>k'. k' \<noteq> k \<longrightarrow> limit \<le> head_key (snd (lane it k')) k') \<and>
    batch_next it = Some (Some b, it') \<and>
    batch_range b = (k, fst (lane it k), fst (lane it k) + n) \<and> batch_texture b = snd x \<and>
    lane it' = (lane it)(k := (fst (lane it k) + n, drop n (x # xs)))"
proof -
  let ?f = "\<lambda>k. (map_option fst (peek (snd (lane it k))), k)"
  have len: "length (orders_and_kinds it) \<ge> 2" by (simp add: orders_and_kinds_def)
  obtain a b zs where ab: "sort_key unwrap_order (orders_and_kinds it) = a # b # zs"
    "a \<in> set (orders_and_kinds it)" "b \<in> set (orders_and_kinds it)" "unwrap_order a \<le> unwrap_order b"
    "\<forall>x \<in> set (orders_and_kinds it). x = a \<or> unwrap_order b \<le> unwrap_order x"
    using two_least[OF len refl, of unwrap_order] by blast
  obtain k where k: "a = ?f k" using ab(2) by (auto simp: orders_and_kinds_lane)
  obtain k2 where k2: "b = ?f k2" using ab(3) by (auto simp: orders_and_kinds_lane)
  have mem: "?f k' \<in> set (orders_and_kinds it)" for k' using in_all_kinds[of k'] by (auto simp: orders_and_kinds_lane)
  have "distinct (map snd (sort_key unwrap_order (orders_and_kinds it)))"
  proof -
    have "distinct (map snd (orders_and_kinds it))" by (simp add: orders_and_kinds_def)
    then show ?thesis by (metis distinct_map distinct_sort set_sort)
  qed
  then have ne: "k \<noteq> k2" using ab(1) k k2 by simp
  let ?limit = "unwrap_order b"
  have lim: "\<forall>k'. k' \<noteq> k \<longrightarrow> ?limit \<le> head_key (snd (lane it k')) k'"
    using ab(5) mem k by (metis snd_conv unwrap_order_lane)
  have least: "head_key (snd (lane it k)) k \<le> head_key (snd (lane it k')) k'" for k'
    using lim ab(4) k by (cases "k' = k") (auto simp: unwrap_order_lane intro: order_trans)
  have "snd (lane it k) \<noteq> []"
  proof
    assume e: "snd (lane it k) = []"
    obtain x xs where x: "snd (lane it k0) = x # xs" using assms(1) by (cases "snd (lane it k0)") auto
    then have "fst x < u32_max" using assms(2) by (metis list.set_intros(1))
    then show False using least[of k0] e x by (auto simp: head_key_def)
  qed
  then obtain x xs where x: "snd (lane it k) = x # xs" by (cases "snd (lane it k)") auto
  have "head_key (snd (lane it k)) k \<noteq> ?limit" using ne k2 by (auto simp: unwrap_order_lane head_key_def)
  moreover have "head_key (snd (lane it k)) k \<le> ?limit" using ab(4) k by (simp add: unwrap_order_lane)
  ultimately have lt: "(fst x, k) < ?limit" using x by (simp add: head_key_def)
  obtain bt it' n where t: "n = arm_takes k ?limit (x # xs)" "take_batch k ?limit it = Some (bt, it')"
    "batch_range bt = (k, fst (lane it k), fst (lane it k) + n)" "batch_texture bt = snd x"
    "lane it' = (lane it)(k := (fst (lane it k) + n, drop n (x # xs)))"
    using take_batch_spec[OF x, of ?limit] by blast
  have "batch_next it = Some (Some bt, it')"
    using ab(1) k x t(2) by (simp add: batch_next_def nth_opt_def)
  then show ?thesis using x t lt lim by blast
qed

text \<open>The renderers' loop over the iterator, with a bound on its rounds.\<close>

fun collect_batches :: "nat \<Rightarrow> ('a, 'p) batch_iterator \<Rightarrow> primitive_batch list option" where
  "collect_batches 0 it = None"
| "collect_batches (Suc rounds) it =
     (case batch_next it of
        None \<Rightarrow> None
      | Some (None, _) \<Rightarrow> Some []
      | Some (Some b, it) \<Rightarrow> map_option ((#) b) (collect_batches rounds it))"

type_synonym vectors = "primitive_kind \<Rightarrow> (draw_order \<times> atlas_texture_id option) list"

definition entry :: "vectors \<Rightarrow> primitive_kind \<Rightarrow> nat \<Rightarrow> draw_order \<times> primitive_kind \<times> nat" where
  "entry v k i = (fst (v k ! i), k, i)"

definition entries_from :: "vectors \<Rightarrow> (primitive_kind \<Rightarrow> nat) \<Rightarrow> (draw_order \<times> primitive_kind \<times> nat) set" where
  "entries_from v st = {entry v k i |k i. st k \<le> i \<and> i < length (v k)}"

definition drawn :: "vectors \<Rightarrow> primitive_batch \<Rightarrow> (draw_order \<times> primitive_kind \<times> nat) list" where
  "drawn v b = (case batch_range b of (k, i, j) \<Rightarrow> map (entry v k) [i..<j])"

definition batch_ok :: "vectors \<Rightarrow> primitive_batch \<Rightarrow> bool" where
  "batch_ok v b = (case batch_range b of (k, i, j) \<Rightarrow>
     i < j \<and> j \<le> length (v k) \<and> (\<forall>m \<in> {i..<j}. snd (v k ! m) = batch_texture b))"

definition sorted_vectors :: "vectors \<Rightarrow> bool" where
  "sorted_vectors v \<longleftrightarrow> (\<forall>k. sorted (map fst (v k)) \<and> (\<forall>x \<in> set (v k). fst x < u32_max))"

lemma entries_fromI: "st k \<le> i \<Longrightarrow> i < length (v k) \<Longrightarrow> entry v k i \<in> entries_from v st"
  by (auto simp: entries_from_def)

lemma arm_takes_props:
  assumes "(fst x, k) < limit" "m < arm_takes k limit (x # xs)"
  shows "m < length (x # xs) \<and> (fst ((x # xs) ! m), k) < limit \<and> snd ((x # xs) ! m) = snd x"
proof (cases m)
  case 0
  then show ?thesis using assms(1) by simp
next
  case (Suc i)
  let ?P = "\<lambda>y. (fst y, k) < limit \<and> snd y = snd x"
  have i: "i < length (takeWhile ?P xs)" using assms(2) Suc by (simp add: arm_takes_def)
  then have "takeWhile ?P xs ! i \<in> set (takeWhile ?P xs)" by (rule nth_mem)
  then have "?P (takeWhile ?P xs ! i)" by (blast dest: set_takeWhileD)
  moreover have "takeWhile ?P xs ! i = xs ! i" using i by (rule takeWhile_nth)
  moreover have "length (takeWhile ?P xs) \<le> length xs" by (rule length_takeWhile_le)
  ultimately show ?thesis using Suc i by simp
qed

lemma arm_takes_pos: "0 < arm_takes k limit xs"
  by (simp add: arm_takes_def)

lemma arm_takes_le: "arm_takes k limit (x # xs) \<le> length (x # xs)"
  by (simp add: arm_takes_def length_takeWhile_le)

lemma entry_less_same: "sorted (map fst (v k)) \<Longrightarrow> i < j \<Longrightarrow> j < length (v k) \<Longrightarrow> entry v k i < entry v k j"
  using sorted_nth_mono[of "map fst (v k)" i j] by (simp add: entry_def)

lemma head_key_le:
  assumes "sorted (map fst (v k))" "st \<le> j" "j < length (v k)"
  shows "head_key (drop st (v k)) k \<le> (fst (v k ! j), k)"
proof -
  have "drop st (v k) = v k ! st # drop (Suc st) (v k)" using assms by (simp add: Cons_nth_drop_Suc)
  then show ?thesis using sorted_nth_mono[OF assms(1), of st j] assms by (simp add: head_key_def)
qed

lemma batch_step:
  assumes "sorted_vectors v" "lane it = (\<lambda>k. (st k, drop (st k) (v k)))" "\<exists>k. st k < length (v k)"
  shows "\<exists>k n b it'. batch_next it = Some (Some b, it') \<and> 0 < n \<and> st k + n \<le> length (v k) \<and> batch_ok v b \<and>
    lane it' = (\<lambda>j. ((st(k := st k + n)) j, drop ((st(k := st k + n)) j) (v j))) \<and>
    drawn v b = map (entry v k) [st k..<st k + n] \<and>
    (\<forall>e \<in> set (drawn v b). \<forall>e' \<in> entries_from v (st(k := st k + n)). e < e')"
proof -
  obtain k0 where "st k0 < length (v k0)" using assms(3) by blast
  then have "snd (lane it k0) \<noteq> []" using assms(2) by simp
  moreover have "\<forall>k. \<forall>x \<in> set (snd (lane it k)). fst x < u32_max"
    using assms(1,2) by (auto simp: sorted_vectors_def dest: in_set_dropD)
  ultimately obtain k x xs limit b it' n where
    x: "snd (lane it k) = x # xs" "n = arm_takes k limit (x # xs)" "(fst x, k) < limit"
    and lim: "\<forall>k'. k' \<noteq> k \<longrightarrow> limit \<le> head_key (snd (lane it k')) k'"
    and b: "batch_next it = Some (Some b, it')" "batch_range b = (k, fst (lane it k), fst (lane it k) + n)"
      "batch_texture b = snd x" "lane it' = (lane it)(k := (fst (lane it k) + n, drop n (x # xs)))"
    using batch_next_spec[of it k0] by blast
  have d: "drop (st k) (v k) = x # xs" using x(1) assms(2) by simp
  have n: "0 < n" "st k + n \<le> length (v k)"
  proof -
    have "length (v k) - st k = length (x # xs)" using d by (metis length_drop)
    then show "0 < n" "st k + n \<le> length (v k)" using x(2) arm_takes_pos arm_takes_le[of k limit x xs] by simp_all
  qed
  have at: "(fst (v k ! i), k) < limit \<and> snd (v k ! i) = snd x" if "i \<in> {st k..<st k + n}" for i
  proof -
    have "(x # xs) ! (i - st k) = v k ! i" using that n d[symmetric] by simp
    moreover have "i - st k < arm_takes k limit (x # xs)" using that x(2) by auto
    ultimately show ?thesis using arm_takes_props[OF x(3)] by metis
  qed
  have dr: "drawn v b = map (entry v k) [st k..<st k + n]" using b(2) assms(2) by (simp add: drawn_def)
  have sv: "sorted (map fst (v j))" for j using assms(1) by (simp add: sorted_vectors_def)
  have less: "e < e'" if e: "e \<in> set (drawn v b)" "e' \<in> entries_from v (st(k := st k + n))" for e e'
  proof -
    obtain i where i: "i \<in> {st k..<st k + n}" "e = entry v k i" using e(1) dr by auto
    obtain k' j where j: "(st(k := st k + n)) k' \<le> j" "j < length (v k')" "e' = entry v k' j"
      using e(2) by (auto simp: entries_from_def)
    show ?thesis
    proof (cases "k' = k")
      case True
      then show ?thesis using entry_less_same[where v = v and k = k, OF sv, of i j] i j by simp
    next
      case False
      then have "limit \<le> (fst (v k' ! j), k')"
        using lim head_key_le[where v = v and k = k' and st = "st k'" and j = j, OF sv] j assms(2) by (auto intro: order_trans)
      then have "(fst (v k ! i), k) < (fst (v k' ! j), k')" using at[OF i(1)] less_le_trans by blast
      then show ?thesis using i(2) j(3) by (auto simp: entry_def)
    qed
  qed
  have "batch_ok v b" using b(2,3) n at assms(2) by (simp add: batch_ok_def)
  moreover have "lane it' = (\<lambda>j. ((st(k := st k + n)) j, drop ((st(k := st k + n)) j) (v j)))"
    using b(4) assms(2) d[symmetric] by (auto simp: fun_eq_iff add.commute)
  ultimately show ?thesis using b(1) n dr less by blast
qed

definition left_in :: "vectors \<Rightarrow> (primitive_kind \<Rightarrow> nat) \<Rightarrow> primitive_kind \<Rightarrow> nat" where
  "left_in v st k = length (v k) - st k"

definition left_over :: "vectors \<Rightarrow> (primitive_kind \<Rightarrow> nat) \<Rightarrow> nat" where
  "left_over v st = sum_list (map (left_in v st) all_kinds)"

lemma left_over_update: "st k < st k + n \<Longrightarrow> st k + n \<le> length (v k) \<Longrightarrow> left_over v (st(k := st k + n)) < left_over v st"
proof -
  assume "st k < st k + n" "st k + n \<le> length (v k)"
  then have "left_in v (st(k := st k + n)) k < left_in v st k" by (simp add: left_in_def)
  moreover have "left_in v (st(k := st k + n)) k' = left_in v st k'" if "k' \<noteq> k" for k'
    using that by (simp add: left_in_def)
  ultimately show ?thesis by (cases k) (simp_all add: left_over_def all_kinds_def)
qed

lemma collect_spec:
  assumes "sorted_vectors v" "lane it = (\<lambda>k. (st k, drop (st k) (v k)))" "left_over v st < rounds"
  shows "\<exists>bs. collect_batches rounds it = Some bs \<and> sorted_wrt (<) (concat (map (drawn v) bs)) \<and>
    set (concat (map (drawn v) bs)) = entries_from v st \<and> list_all (batch_ok v) bs"
  using assms(2,3)
proof (induction rounds arbitrary: it st)
  case (Suc rounds)
  show ?case
  proof (cases "\<exists>k. st k < length (v k)")
    case True
    obtain k n b it' where b: "batch_next it = Some (Some b, it')" "0 < n" "st k + n \<le> length (v k)" "batch_ok v b"
      "lane it' = (\<lambda>j. ((st(k := st k + n)) j, drop ((st(k := st k + n)) j) (v j)))"
      "drawn v b = map (entry v k) [st k..<st k + n]"
      "\<forall>e \<in> set (drawn v b). \<forall>e' \<in> entries_from v (st(k := st k + n)). e < e'"
      using batch_step[OF assms(1) Suc.prems(1) True] by blast
    have "left_over v (st(k := st k + n)) < rounds"
      using left_over_update[of st k n v] b(2,3) Suc.prems(2) by simp
    then obtain bs where bs: "collect_batches rounds it' = Some bs" "sorted_wrt (<) (concat (map (drawn v) bs))"
      "set (concat (map (drawn v) bs)) = entries_from v (st(k := st k + n))" "list_all (batch_ok v) bs"
      using Suc.IH[OF b(5)] by blast
    have "sorted_wrt (\<lambda>i j. entry v k i < entry v k j) [st k..<st k + n]"
      unfolding sorted_wrt_iff_nth_less
      using assms(1) b(3) by (auto intro: entry_less_same simp: sorted_vectors_def)
    then have "sorted_wrt (<) (drawn v b)" by (simp add: b(6) sorted_wrt_map)
    moreover have "entries_from v st = set (drawn v b) \<union> entries_from v (st(k := st k + n))"
    proof (intro set_eqI iffI)
      fix e
      assume "e \<in> entries_from v st"
      then obtain k' i where i: "e = entry v k' i" "st k' \<le> i" "i < length (v k')" by (auto simp: entries_from_def)
      show "e \<in> set (drawn v b) \<union> entries_from v (st(k := st k + n))"
      proof (cases "k' = k \<and> i < st k + n")
        case False
        then have "(st(k := st k + n)) k' \<le> i" using i by auto
        then show ?thesis using i entries_fromI by blast
      qed (use i b(6) in auto)
    next
      fix e
      assume "e \<in> set (drawn v b) \<union> entries_from v (st(k := st k + n))"
      then show "e \<in> entries_from v st"
        using b(3,6) by (fastforce simp: entries_from_def split: if_splits)
    qed
    ultimately show ?thesis using b(1,4,7) bs by (auto simp: sorted_wrt_append)
  next
    case False
    then have "\<forall>k. snd (lane it k) = []" using Suc.prems(1) by (auto simp: not_less)
    moreover have "entries_from v st = {}"
    proof (rule equals0I)
      fix e
      assume "e \<in> entries_from v st"
      then obtain k i where "st k \<le> i" "i < length (v k)" unfolding entries_from_def by blast
      then have "st k < length (v k)" by simp
      with False show False by blast
    qed
    ultimately show ?thesis by (simp add: batch_next_end)
  qed
qed simp

section \<open>Orders of a scene\<close>

definition vectors_of :: "('a, 'p) scene \<Rightarrow> vectors" where
  "vectors_of s = (\<lambda>k. snd (lane (batches s) k))"

fun primitive_order :: "('a, 'p) primitive \<Rightarrow> draw_order" where
  "primitive_order (Shadow x) = shadow_order x"
| "primitive_order (Quad x) = quad_order x"
| "primitive_order (Path x) = path_order x"
| "primitive_order (Underline x) = underline_order x"
| "primitive_order (MonochromeSprite x) = mono_order x"
| "primitive_order (PolychromeSprite x) = poly_order x"
| "primitive_order (Surface x) = surface_order x"

text \<open>The layers that are open after some operations, and the rectangle that decides the order of an
  operation: its own, or the one of the innermost open layer; each with the position at which it was
  inserted.\<close>

fun open_layers ::
  "nat \<Rightarrow> (nat \<times> 'a bounds) list \<Rightarrow> ('a, 'p) paint_operation list \<Rightarrow> (nat \<times> 'a bounds) list" where
  "open_layers i st [] = st"
| "open_layers i st (PaintPrimitive p # ops) = open_layers (Suc i) st ops"
| "open_layers i st (StartLayer b # ops) = open_layers (Suc i) ((i, b) # st) ops"
| "open_layers i st (EndLayer # ops) = open_layers (Suc i) (tl st) ops"

definition region_at ::
  "('a::linordered_idom, 'p) paint_operation list \<Rightarrow> nat \<Rightarrow> (nat \<times> 'a bounds) option" where
  "region_at ops i =
     (case ops ! i of
        PaintPrimitive p \<Rightarrow> (case open_layers 0 [] (take i ops) of [] \<Rightarrow> Some (i, primitive_clip p) | x # _ \<Rightarrow> Some x)
      | StartLayer b \<Rightarrow> Some (i, b)
      | EndLayer \<Rightarrow> None)"

text \<open>What the spatial index knows: the rectangles inserted so far, with their positions and orders.\<close>

definition index_inv :: "nat \<Rightarrow> (nat \<times> 'a::linordered_idom bounds \<times> nat) set \<Rightarrow> 'a bounds_tree \<Rightarrow> bool" where
  "index_inv n H t \<longleftrightarrow> (\<exists>L. represents t L \<and> snd ` L = snd ` H) \<and>
     (\<forall>a r k. (a, r, k) \<in> H \<longrightarrow> a < n \<and> k \<le> n) \<and>
     (\<forall>a r k b q l. (a, r, k) \<in> H \<longrightarrow> (b, q, l) \<in> H \<longrightarrow>
        (a = b \<longrightarrow> r = q \<and> k = l) \<and> (a < b \<and> intersects q r \<longrightarrow> k < l))"

lemma index_invI:
  "represents t L \<Longrightarrow> snd ` L = snd ` H \<Longrightarrow> (\<And>a r k. (a, r, k) \<in> H \<Longrightarrow> a < n \<and> k \<le> n) \<Longrightarrow>
     (\<And>a r k b q l. (a, r, k) \<in> H \<Longrightarrow> (b, q, l) \<in> H \<Longrightarrow>
        (a = b \<longrightarrow> r = q \<and> k = l) \<and> (a < b \<and> intersects q r \<longrightarrow> k < l)) \<Longrightarrow> index_inv n H t"
  unfolding index_inv_def by blast

lemma index_invD:
  assumes "index_inv n H t" "(a, r, k) \<in> H"
  shows "a < n" "k \<le> n" "(b, q, l) \<in> H \<Longrightarrow> a = b \<Longrightarrow> r = q \<and> k = l"
    "(b, q, l) \<in> H \<Longrightarrow> a < b \<Longrightarrow> intersects q r \<Longrightarrow> k < l"
  using assms unfolding index_inv_def by blast+

lemma index_inv_mono: "index_inv n H t \<Longrightarrow> n \<le> m \<Longrightarrow> index_inv m H t"
  unfolding index_inv_def by (meson le_trans less_le_trans)

lemma index_insert:
  assumes "index_inv n H t"
  shows "\<exists>t' k. bt_insert b t = Some (t', k) \<and> index_inv (Suc n) (insert (n, b, k) H) t' \<and> k \<le> Suc n"
proof -
  obtain L where L: "represents t L" "snd ` L = snd ` H" using assms unfolding index_inv_def by blast
  note H = index_invD[OF assms]
  let ?k = "Max (insert 0 (hits_in b L)) + 1"
  obtain t' i where t': "bt_insert b t = Some (t', ?k)" "represents t' (insert (i, b, ?k) L)"
    using bt_insert_spec[OF L(1)] by blast
  have hit: "m \<in> hits_in b L \<longleftrightarrow> (\<exists>a r. (a, r, m) \<in> H \<and> intersects b r)" for m
  proof -
    have "m \<in> hits_in b L \<longleftrightarrow> (\<exists>r. (r, m) \<in> snd ` L \<and> intersects b r)" by (force simp: hits_in_def)
    then show ?thesis unfolding L(2) by force
  qed
  then have le: "hits_in b L \<subseteq> {..n}" using H(2) by auto
  then have fin: "finite (hits_in b L)" by (rule finite_subset) simp
  have kn: "?k \<le> Suc n" using le fin by auto
  have less: "k < ?k" if "(a, r, k) \<in> H" "intersects b r" for a r k
    using Max_ge[of "insert 0 (hits_in b L)" k] fin hit that by fastforce
  have "snd ` insert (i, b, ?k) L = snd ` insert (n, b, ?k) H" using L(2) by simp
  then have "index_inv (Suc n) (insert (n, b, ?k) H) t'"
  proof (rule index_invI[OF t'(2)])
    fix a r k c q l
    assume m: "(a, r, k) \<in> insert (n, b, ?k) H"
    then show "a < Suc n \<and> k \<le> Suc n" using H(1,2)[of a r k] kn by fastforce
    assume o: "(c, q, l) \<in> insert (n, b, ?k) H"
    show "(a = c \<longrightarrow> r = q \<and> k = l) \<and> (a < c \<and> intersects q r \<longrightarrow> k < l)"
      using m o H(1)[of a r k] H(1)[of c q l] H(3,4)[of a r k c q l] less[of a r k] by auto
  qed
  then show ?thesis using t'(1) kn by blast
qed

definition scene_inv :: "(nat \<times> 'a::linordered_idom bounds \<times> nat) set \<Rightarrow> ('a, 'p) scene \<Rightarrow> bool" where
  "scene_inv H s \<longleftrightarrow> (let ops = paint_operations s in
     index_inv (length ops) H (primitive_bounds s) \<and>
     list_all2 (\<lambda>(a, r) k. (a, r, k) \<in> H) (rev (open_layers 0 [] ops)) (layer_stack s) \<and>
     (\<forall>i < length ops. \<forall>p. ops ! i = PaintPrimitive p \<longrightarrow>
        (\<exists>a r. region_at ops i = Some (a, r) \<and> (a, r, primitive_order p) \<in> H)) \<and>
     (\<forall>k. \<forall>x \<in> set (vectors_of s k). fst x \<le> length ops))"

lemma open_layers_append: "open_layers i st (xs @ ys) = open_layers (i + length xs) (open_layers i st xs) ys"
  by (induction i st xs rule: open_layers.induct) simp_all

lemma region_at_append: "i < length xs \<Longrightarrow> region_at (xs @ ys) i = region_at xs i"
  by (simp add: region_at_def nth_append cong: paint_operation.case_cong)

lemma region_at_snoc:
  "region_at (xs @ [PaintPrimitive p]) (length xs) =
     (case open_layers 0 [] xs of [] \<Rightarrow> Some (length xs, primitive_clip p) | x # _ \<Rightarrow> Some x)"
  by (simp add: region_at_def)

lemma place_primitive_effect:
  assumes "place_primitive k p s = (q, s')"
  shows "primitive_order q = k" "primitive_clip q = primitive_clip p" "paint_operations s' = paint_operations s"
    "primitive_bounds s' = primitive_bounds s" "layer_stack s' = layer_stack s"
    "x \<in> set (vectors_of s' j) \<Longrightarrow> x \<in> set (vectors_of s j) \<or> fst x = k"
    "place_primitive k q s = (q, s')"
  using assms
  by (cases p; cases j; auto simp: primitive_clip_def vectors_of_def batches_def Let_def)+

abbreviation stack_matches :: "(nat \<times> 'a bounds \<times> nat) set \<Rightarrow> (nat \<times> 'a bounds) list \<Rightarrow> nat list \<Rightarrow> bool" where
  "stack_matches H st ks \<equiv> list_all2 (\<lambda>(a, r) k. (a, r, k) \<in> H) (rev st) ks"

lemma scene_invD:
  assumes "scene_inv H s"
  shows "index_inv (length (paint_operations s)) H (primitive_bounds s)"
    "stack_matches H (open_layers 0 [] (paint_operations s)) (layer_stack s)"
    "i < length (paint_operations s) \<Longrightarrow> paint_operations s ! i = PaintPrimitive p \<Longrightarrow>
       \<exists>a r. region_at (paint_operations s) i = Some (a, r) \<and> (a, r, primitive_order p) \<in> H"
    "x \<in> set (vectors_of s k) \<Longrightarrow> fst x \<le> length (paint_operations s)"
  using assms unfolding scene_inv_def Let_def by blast+

lemma scene_inv_snoc:
  assumes "scene_inv H s" "paint_operations s' = paint_operations s @ [y]" "H \<subseteq> H'"
    "index_inv (Suc (length (paint_operations s))) H' (primitive_bounds s')"
    "stack_matches H' (open_layers (length (paint_operations s)) (open_layers 0 [] (paint_operations s)) [y]) (layer_stack s')"
    "\<And>q. y = PaintPrimitive q \<Longrightarrow>
       \<exists>a r. region_at (paint_operations s @ [y]) (length (paint_operations s)) = Some (a, r) \<and> (a, r, primitive_order q) \<in> H'"
    "\<And>k x. x \<in> set (vectors_of s' k) \<Longrightarrow> x \<in> set (vectors_of s k) \<or> fst x \<le> Suc (length (paint_operations s))"
  shows "scene_inv H' s'"
  unfolding scene_inv_def Let_def
proof (intro conjI allI impI ballI)
  fix i p
  assume i: "i < length (paint_operations s')" "paint_operations s' ! i = PaintPrimitive p"
  show "\<exists>a r. region_at (paint_operations s') i = Some (a, r) \<and> (a, r, primitive_order p) \<in> H'"
  proof (cases "i < length (paint_operations s)")
    case True
    then have "paint_operations s ! i = PaintPrimitive p" using i(2) assms(2) by (simp add: nth_append)
    from scene_invD(3)[OF assms(1) True this] show ?thesis
      using True assms(2,3) by (auto simp: region_at_append)
  next
    case False
    then have "i = length (paint_operations s)" using i(1) assms(2) by simp
    then show ?thesis using assms(6)[of p] i(2) assms(2) by simp
  qed
next
  fix k x
  assume "x \<in> set (vectors_of s' k)"
  then show "fst x \<le> length (paint_operations s')"
    using assms(7)[of x k] scene_invD(4)[OF assms(1), of x k] assms(2) by auto
qed (use assms(2,4,5) in \<open>simp_all add: open_layers_append\<close>)

lemma stack_matches_mono: "stack_matches H st ks \<Longrightarrow> H \<subseteq> H' \<Longrightarrow> stack_matches H' st ks"
  by (erule list_all2_mono) auto

lemma stack_matches_push: "stack_matches H st ks \<Longrightarrow> (a, r, k) \<in> H \<Longrightarrow> stack_matches H ((a, r) # st) (ks @ [k])"
  by (simp add: list_all2_appendI)

lemma stack_matches_pop: "stack_matches H st ks \<Longrightarrow> stack_matches H (tl st) (butlast ks)"
  using list_all2_takeI[of "\<lambda>(a, r) k. (a, r, k) \<in> H" "rev st" ks "length st - 1"]
  by (simp add: butlast_rev[symmetric] butlast_conv_take list_all2_lengthD[symmetric])

lemma stack_matches_top:
  assumes "stack_matches H st ks"
  shows "last_opt ks = None \<Longrightarrow> st = []"
    "last_opt ks = Some k \<Longrightarrow> \<exists>a r st'. st = (a, r) # st' \<and> (a, r, k) \<in> H"
proof -
  show "st = []" if "last_opt ks = None" using that assms by simp
  assume "last_opt ks = Some k"
  then obtain js where "ks = js @ [k]" by (auto simp: last_opt_Some)
  moreover obtain a r st' where st: "st = (a, r) # st'"
    using assms calculation by (cases st) auto
  moreover have "length (rev st') = length js" using assms calculation list_all2_lengthD by fastforce
  ultimately show "\<exists>a r st'. st = (a, r) # st' \<and> (a, r, k) \<in> H"
    using assms by (simp add: list_all2_append)
qed

text \<open>One operation: it never panics, keeps the invariant, and is recorded in a form that does the same
  when it is replayed.\<close>

definition records :: "('a::linordered_idom, 'p) scene \<Rightarrow> ('a, 'p) scene \<Rightarrow> bool" where
  "records s s' \<longleftrightarrow> s' = s \<or> (\<exists>y. paint_operations s' = paint_operations s @ [y] \<and> scene_step y s = Some s')"

lemma push_layer_inv:
  assumes "scene_inv H s"
  shows "\<exists>s' H'. push_layer b s = Some s' \<and> scene_inv H' s' \<and> records s s'"
proof -
  let ?n = "length (paint_operations s)"
  obtain t k where t: "bt_insert b (primitive_bounds s) = Some (t, k)" "index_inv (Suc ?n) (insert (?n, b, k) H) t"
    using index_insert[OF scene_invD(1)[OF assms]] by blast
  let ?s = "s\<lparr>primitive_bounds := t, layer_stack := layer_stack s @ [k],
             paint_operations := paint_operations s @ [StartLayer b]\<rparr>"
  have "push_layer b s = Some ?s" using t(1) by (simp add: push_layer_def)
  moreover have "scene_inv (insert (?n, b, k) H) ?s"
  proof (rule scene_inv_snoc[OF assms])
    show "stack_matches (insert (?n, b, k) H)
        (open_layers ?n (open_layers 0 [] (paint_operations s)) [StartLayer b]) (layer_stack ?s)"
      using stack_matches_push[OF stack_matches_mono[OF scene_invD(2)[OF assms]], of "insert (?n, b, k) H" ?n b k] by auto
    show "x \<in> set (vectors_of s j) \<or> fst x \<le> Suc ?n" if "x \<in> set (vectors_of ?s j)" for j x
      using that by (cases j) (auto simp: vectors_of_def batches_def)
  qed (use t(2) in auto)
  ultimately show ?thesis unfolding records_def by fastforce
qed

lemma pop_layer_inv:
  assumes "scene_inv H s"
  shows "scene_inv H (pop_layer s) \<and> records s (pop_layer s)"
proof
  show "records s (pop_layer s)" by (auto simp: records_def pop_layer_def intro: exI[of _ EndLayer])
  show "scene_inv H (pop_layer s)"
  proof (rule scene_inv_snoc[OF assms, of _ EndLayer])
    show "x \<in> set (vectors_of s j) \<or> fst x \<le> Suc (length (paint_operations s))"
      if "x \<in> set (vectors_of (pop_layer s) j)" for j x
      using that by (cases j) (auto simp: vectors_of_def batches_def pop_layer_def)
  qed (use stack_matches_pop[OF scene_invD(2)[OF assms]] index_inv_mono[OF scene_invD(1)[OF assms]] in
       \<open>auto simp: pop_layer_def\<close>)
qed

lemma insert_primitive_inv:
  assumes "scene_inv H s"
  shows "\<exists>s' H'. insert_primitive p s = Some s' \<and> scene_inv H' s' \<and> records s s'"
proof (cases "is_empty (primitive_clip p)")
  case True
  then show ?thesis using assms by (auto simp: insert_primitive_def records_def)
next
  case False
  let ?n = "length (paint_operations s)"
  obtain s1 k H' where k: "(case last_opt (layer_stack s) of Some k \<Rightarrow> Some (s, k)
        | None \<Rightarrow> do { (t, k) \<leftarrow> bt_insert (primitive_clip p) (primitive_bounds s); Some (s\<lparr>primitive_bounds := t\<rparr>, k) }) =
      Some (s1, k)"
    "H \<subseteq> H'" "index_inv (Suc ?n) H' (primitive_bounds s1)" "s1 = s\<lparr>primitive_bounds := primitive_bounds s1\<rparr>" "k \<le> Suc ?n"
    "\<And>q. primitive_clip q = primitive_clip p \<Longrightarrow> \<exists>a r. region_at (paint_operations s @ [PaintPrimitive q]) ?n = Some (a, r) \<and> (a, r, k) \<in> H'"
  proof (cases "last_opt (layer_stack s)")
    case None
    obtain t k where t: "bt_insert (primitive_clip p) (primitive_bounds s) = Some (t, k)"
      "index_inv (Suc ?n) (insert (?n, primitive_clip p, k) H) t" "k \<le> Suc ?n"
      using index_insert[OF scene_invD(1)[OF assms]] by blast
    have "open_layers 0 [] (paint_operations s) = []" using stack_matches_top(1)[OF scene_invD(2)[OF assms] None] .
    then show thesis
      using t None by (intro that[of "s\<lparr>primitive_bounds := t\<rparr>" k "insert (?n, primitive_clip p, k) H"]) (auto simp: region_at_snoc)
  next
    case (Some k)
    obtain a r st where st: "open_layers 0 [] (paint_operations s) = (a, r) # st" "(a, r, k) \<in> H"
      using stack_matches_top(2)[OF scene_invD(2)[OF assms] Some] by blast
    moreover have "k \<le> ?n" using index_invD(2)[OF scene_invD(1)[OF assms] st(2)] .
    ultimately show thesis
      using Some index_inv_mono[OF scene_invD(1)[OF assms]] by (intro that[of s k H]) (auto simp: region_at_snoc)
  qed
  obtain q s2 where q: "place_primitive k p s1 = (q, s2)" by (cases "place_primitive k p s1")
  note e = place_primitive_effect[OF q]
  let ?s = "s2\<lparr>paint_operations := paint_operations s2 @ [PaintPrimitive q]\<rparr>"
  have ops: "paint_operations s2 = paint_operations s" "layer_stack s2 = layer_stack s"
    unfolding e(3,5) by (subst k(4), simp)+
  have run: "insert_primitive p s = Some ?s" using False k(1) q by (simp add: insert_primitive_def Let_def)
  have again: "insert_primitive q s = Some ?s" using False k(1) e(2,7) by (simp add: insert_primitive_def Let_def)
  have "scene_inv H' ?s"
  proof (rule scene_inv_snoc[OF assms _ k(2)])
    show "index_inv (Suc ?n) H' (primitive_bounds ?s)" using k(3) e(4) by simp
    show "stack_matches H' (open_layers ?n (open_layers 0 [] (paint_operations s)) [PaintPrimitive q]) (layer_stack ?s)"
      using stack_matches_mono[OF scene_invD(2)[OF assms] k(2)] ops by simp
    show "x \<in> set (vectors_of s j) \<or> fst x \<le> Suc ?n" if "x \<in> set (vectors_of ?s j)" for j x
    proof -
      have "vectors_of ?s j = vectors_of s2 j" by (cases j) (simp_all add: vectors_of_def batches_def)
      moreover have "vectors_of s1 j = vectors_of s j"
        by (subst k(4), cases j) (simp_all add: vectors_of_def batches_def)
      ultimately show ?thesis using that e(6)[of x j] k(5) by auto
    qed
  qed (use ops k(6)[OF e(2)] e(1) in auto)
  moreover have "records s ?s" using again ops unfolding records_def by (intro disjI2 exI[of _ "PaintPrimitive q"]) simp
  ultimately show ?thesis using run by blast
qed

lemma scene_step_inv:
  "scene_inv H s \<Longrightarrow> \<exists>s' H'. scene_step x s = Some s' \<and> scene_inv H' s' \<and> records s s'"
proof (cases x)
  case (PaintPrimitive p)
  then show "scene_inv H s \<Longrightarrow> ?thesis" using insert_primitive_inv by simp
next
  case (StartLayer b)
  then show "scene_inv H s \<Longrightarrow> ?thesis" using push_layer_inv by simp
next
  case EndLayer
  then show "scene_inv H s \<Longrightarrow> ?thesis" using pop_layer_inv by auto
qed

lemma scene_default_inv: "scene_inv {} (scene_default :: ('a::linordered_idom, 'p) scene)"
proof -
  have "vectors_of (scene_default :: ('a, 'p) scene) k = []" for k
    by (cases k) (simp_all add: vectors_of_def batches_def scene_default_def)
  moreover have "represents bt_default {}" by (simp add: represents_def bt_default_def)
  moreover have "paint_operations (scene_default :: ('a, 'p) scene) = []" "layer_stack (scene_default :: ('a, 'p) scene) = []"
    "primitive_bounds (scene_default :: ('a, 'p) scene) = bt_default"
    by (simp_all add: scene_default_def)
  ultimately show ?thesis
    by (auto simp: scene_inv_def index_inv_def Let_def intro: exI[of _ "{}"])
qed

lemma scene_steps_append: "scene_steps (xs @ ys) s = Option.bind (scene_steps xs s) (scene_steps ys)"
  by (induction xs arbitrary: s) (auto split: bind_splits)

lemma scene_steps_inv:
  "\<exists>s H. scene_steps ops scene_default = Some s \<and> scene_inv H s \<and>
     scene_steps (paint_operations s) scene_default = Some s \<and> scene_len s \<le> length ops"
proof (induction ops rule: rev_induct)
  case Nil
  show ?case using scene_default_inv by (force simp: scene_default_def scene_len_def)
next
  case (snoc x ops)
  then obtain s H where s: "scene_steps ops scene_default = Some s" "scene_inv H s"
    "scene_steps (paint_operations s) scene_default = Some s" "scene_len s \<le> length ops" by blast
  obtain s' H' where s': "scene_step x s = Some s'" "scene_inv H' s'" "records s s'"
    using scene_step_inv[OF s(2)] by blast
  have "scene_steps (paint_operations s') scene_default = Some s'" "scene_len s' \<le> Suc (length ops)"
    using s' s unfolding records_def by (auto simp: scene_steps_append scene_len_def)
  then show ?case using s s' by (auto simp: scene_steps_append)
qed

text \<open>\<open>finish\<close> sorts every vector by order.\<close>

lemma sorted_fst_key: "sorted (map f (sort_key (\<lambda>x. (f x, g x)) xs))"
  using sorted_sort_key[of "\<lambda>x. (f x, g x)" xs] unfolding sorted_map
  by (rule sorted_wrt_mono_rel[rotated]) auto

lemma vectors_finish:
  "sorted (map fst (vectors_of (scene_finish s) k))" "set (vectors_of (scene_finish s) k) = set (vectors_of s k)"
  "length (vectors_of (scene_finish s) k) = length (vectors_of s k)"
  by (cases k; simp add: vectors_of_def batches_def scene_finish_def o_def sorted_fst_key)+

definition scene_total :: "('a, 'p) scene \<Rightarrow> nat" where
  "scene_total s = length (shadows s) + length (quads s) + length (paths s) + length (underlines s) +
     length (monochrome_sprites s) + length (polychrome_sprites s) + length (surfaces s)"

lemma left_over_total: "left_over (vectors_of s) (\<lambda>_. 0) = scene_total s"
  by (simp add: left_over_def left_in_def all_kinds_def scene_total_def vectors_of_def batches_def)

definition scene_entries :: "('a, 'p) scene \<Rightarrow> (draw_order \<times> primitive_kind \<times> nat) set" where
  "scene_entries s = {entry (vectors_of s) k i |k i. i < length (vectors_of s k)}"

lemma finished_batches:
  assumes "\<forall>k. \<forall>x \<in> set (vectors_of s k). fst x < u32_max"
  defines "f \<equiv> scene_finish s"
  shows "\<exists>bs. collect_batches (Suc (scene_total f)) (batches f) = Some bs \<and>
    sorted_wrt (<) (concat (map (drawn (vectors_of f)) bs)) \<and>
    set (concat (map (drawn (vectors_of f)) bs)) = scene_entries f \<and> list_all (batch_ok (vectors_of f)) bs"
proof -
  have sv: "sorted_vectors (vectors_of f)"
    using assms(1) by (simp add: sorted_vectors_def f_def vectors_finish)
  have "lane (batches f) k = (0, drop 0 (vectors_of f k))" for k
    by (cases k) (simp_all add: vectors_of_def batches_def)
  then have l: "lane (batches f) = (\<lambda>k. (0, drop 0 (vectors_of f k)))" by (simp add: fun_eq_iff)
  have "entries_from (vectors_of f) (\<lambda>_. 0) = scene_entries f"
    by (simp add: entries_from_def scene_entries_def)
  then show ?thesis
    using collect_spec[OF sv l, of "Suc (scene_total f)"] by (simp add: left_over_total)
qed

section \<open>Properties\<close>

text \<open>C11: whatever primitives are inserted and whatever layers are opened and closed, nothing panics,
  the batch iterator ends, and its batches draw every primitive of the finished scene exactly once, in
  ascending order of draw order, kind and position, each batch being a range of one vector with one
  texture.\<close>

theorem scene_batches:
  assumes "length ops < u32_max"
  shows "\<exists>s bs. scene_steps ops scene_default = Some s \<and>
    collect_batches (Suc (scene_total (scene_finish s))) (batches (scene_finish s)) = Some bs \<and>
    sorted_wrt (<) (concat (map (drawn (vectors_of (scene_finish s))) bs)) \<and>
    set (concat (map (drawn (vectors_of (scene_finish s))) bs)) = scene_entries (scene_finish s) \<and>
    list_all (batch_ok (vectors_of (scene_finish s))) bs"
proof -
  obtain s H where s: "scene_steps ops scene_default = Some s" "scene_inv H s" "scene_len s \<le> length ops"
    using scene_steps_inv by blast
  have "\<forall>k. \<forall>x \<in> set (vectors_of s k). fst x < u32_max"
    using scene_invD(4)[OF s(2)] s(3) assms unfolding scene_len_def by (meson le_less_trans le_trans)
  from finished_batches[OF this] s(1) show ?thesis by blast
qed

definition square :: "int \<Rightarrow> int bounds" where
  "square x = \<lparr>origin = \<lparr>pt_x = x, pt_y = x\<rparr>, extent = \<lparr>width = 10, height = 10\<rparr>\<rparr>"

definition square_quad :: "nat \<Rightarrow> int \<Rightarrow> (int, unit) primitive" where
  "square_quad k x = Quad \<lparr>quad_order = k, quad_bounds = square x, quad_mask = \<lparr>mask_bounds = square x\<rparr>, quad_style = ()\<rparr>"

theorem scene_batches_witness:
  "\<exists>s bs. scene_steps [PaintPrimitive (square_quad 0 0), PaintPrimitive (square_quad 0 5)] scene_default = Some s \<and>
    collect_batches (Suc (scene_total (scene_finish s))) (batches (scene_finish s)) = Some bs"
proof -
  have "length [PaintPrimitive (square_quad 0 0), PaintPrimitive (square_quad 0 5)] < u32_max"
    by (simp add: u32_max_def)
  from scene_batches[OF this] show ?thesis by blast
qed



text \<open>The operations a finished scene has recorded rebuild it: replaying them, in one range or in
  two that meet, onto a cleared scene gives the scene as it was before it was finished.\<close>

theorem scene_replay_rebuilds:
  assumes "scene_steps ops scene_default = Some s" "i \<le> scene_len s"
  shows "Option.bind (scene_replay 0 i (scene_finish s) (scene_clear other)) (scene_replay i (scene_len s) (scene_finish s)) = Some s"
proof -
  obtain H where r: "scene_steps (paint_operations s) scene_default = Some s"
    using scene_steps_inv[of ops] assms(1) by auto
  have c: "scene_clear other = scene_default"
    by (simp add: scene_clear_def scene_default_def bt_clear_def bt_default_def)
  have f: "paint_operations (scene_finish s) = paint_operations s" by (simp add: scene_finish_def)
  have "scene_steps (take i (paint_operations s) @ drop i (paint_operations s)) scene_default = Some s"
    using r by simp
  moreover have "scene_replay i (scene_len s) (scene_finish s) = scene_steps (drop i (paint_operations s))"
    using assms(2) by (simp add: fun_eq_iff scene_replay_def f scene_len_def)
  moreover have "scene_replay 0 i (scene_finish s) (scene_clear other) =
      scene_steps (take i (paint_operations s)) scene_default"
    using assms(2) by (simp add: scene_replay_def c f scene_len_def)
  ultimately show ?thesis unfolding scene_steps_append by simp
qed

theorem scene_replay_rebuilds_witness:
  "\<exists>s. scene_steps [PaintPrimitive (square_quad 0 0), StartLayer (square 3)] scene_default = Some s \<and>
    Option.bind (scene_replay 0 1 (scene_finish s) scene_default) (scene_replay 1 2 (scene_finish s)) = Some s"
proof -
  have e: "map_option scene_len (scene_steps [PaintPrimitive (square_quad 0 0), StartLayer (square 3)] scene_default) = Some 2"
    by code_simp
  then obtain s where s: "scene_steps [PaintPrimitive (square_quad 0 0), StartLayer (square 3)] scene_default = Some s"
    "scene_len s = 2" by auto
  have "scene_clear s = scene_default"
    by (simp add: scene_clear_def scene_default_def bt_clear_def bt_default_def)
  then show ?thesis using scene_replay_rebuilds[OF s(1), of 1 s] s by simp
qed

section \<open>Paths\<close>

datatype 'a path_command = MoveTo "'a point" | LineTo "'a point" | CurveTo "'a point" "'a point"

fun path_step :: "'a::linordered_idom path_command \<Rightarrow> ('a, 'p) scene_path \<Rightarrow> ('a, 'p) scene_path" where
  "path_step (MoveTo p) = path_move_to p"
| "path_step (LineTo p) = path_line_to p"
| "path_step (CurveTo p c) = path_curve_to p c"

text \<open>Whole triangles, all of them within the bounds.\<close>

definition path_ok :: "('a::linordered_idom, 'p) scene_path \<Rightarrow> bool" where
  "path_ok p \<longleftrightarrow> length (path_vertices p) mod 3 = 0 \<and>
     (\<forall>v \<in> set (path_vertices p). covers (path_bounds p) (point_bounds (xy_position v)))"

lemma covers_union: "covers b c \<Longrightarrow> covers (bounds_union b d) c"
  by (simp add: bounds_defs covers_def)

lemma covers_union_point: "covers (bounds_union b (point_bounds p)) (point_bounds p)"
  by (simp add: bounds_defs covers_def point_bounds_def)

lemma push_triangle_ok: "path_ok p \<Longrightarrow> path_ok (push_triangle (a, b, c) st p)"
  by (cases st) (auto simp: path_ok_def push_triangle_def covers_union covers_union_point)

lemma path_ok_fields:
  "path_ok (p\<lparr>path_current := c\<rparr>) = path_ok p" "path_ok (p\<lparr>path_start := c\<rparr>) = path_ok p"
  "path_ok (p\<lparr>contour_count := n\<rparr>) = path_ok p"
  by (simp_all add: path_ok_def)

lemma path_step_ok: "path_ok p \<Longrightarrow> path_ok (path_step x p)"
  by (cases x) (auto simp: path_move_to_def path_line_to_def path_curve_to_def path_ok_fields push_triangle_ok Let_def)

text \<open>C30: a path built by any moves, lines and curves consists of whole triangles, and its bounds cover
  every vertex.\<close>

theorem path_triangles_covered: "path_ok (fold path_step commands (path_new style start))"
proof (induction commands rule: rev_induct)
  case Nil
  show ?case by (simp add: path_ok_def path_new_def)
qed (simp add: path_step_ok)

end
