(* ===== verification/SumTree.thy ===== *)
theory SumTree
  imports Prelude
begin

text \<open>
  \<open>lucie-common/src/sum_tree/mod.rs\<close>: a B+ tree whose leaves hold items and whose nodes hold the sums
  of the summaries below them.  The trait \<open>Item\<close> with its \<open>Summary\<close> is a record of functions, the
  dictionary of the implementation; the context that the Rust methods pass along unchanged is part of
  those functions.  A reference-counted node is its value: \<open>Arc::make_mut\<close> copies a shared node before
  it writes.

  \<open>None\<close> stands for a panic: an \<open>ArrayVec\<close> over its capacity, \<open>unwrap\<close> or \<open>drain\<close> on a list that is
  too short, a subtraction of heights below zero, \<open>unreachable!\<close> or a failed debug assertion.

  \<open>well_formed\<close> is the invariant of the tree and \<open>flat\<close> the list it stands for; \<open>dense\<close> is the
  minimal occupancy from which the height is bounded.  The laws of a summary are the locale
  \<open>summary_laws\<close>; a zero that is neutral on the left is enough, which matters because the summary of
  the tab stops has no neutral element on the right.
\<close>

section \<open>Traits\<close>

record ('a, 's) item_impl =
  summary_zero :: 's
  add_summary :: "'s \<Rightarrow> 's \<Rightarrow> 's"
  item_summary :: "'a \<Rightarrow> 's"

record ('s, 'd) dimension_impl =
  dim_zero :: 'd
  dim_add :: "'d \<Rightarrow> 's \<Rightarrow> 'd"

definition from_summary :: "('s, 'd) dimension_impl \<Rightarrow> 's \<Rightarrow> 'd" where
  "from_summary D s = dim_add D (dim_zero D) s"

datatype bias = Left | Right

section \<open>Nodes\<close>

definition tree_base :: nat where
  "tree_base = 6"

datatype ('a, 's) sum_tree =
    Internal nat 's "'s list" "('a, 's) sum_tree list"
  | Leaf 's "'a list" "'s list"

fun is_leaf :: "('a, 's) sum_tree \<Rightarrow> bool" where
  "is_leaf (Internal _ _ _ _) = False"
| "is_leaf (Leaf _ _ _) = True"

fun node_height :: "('a, 's) sum_tree \<Rightarrow> nat" where
  "node_height (Internal h _ _ _) = h"
| "node_height (Leaf _ _ _) = 0"

fun node_summary :: "('a, 's) sum_tree \<Rightarrow> 's" where
  "node_summary (Internal _ s _ _) = s"
| "node_summary (Leaf s _ _) = s"

fun child_summaries :: "('a, 's) sum_tree \<Rightarrow> 's list" where
  "child_summaries (Internal _ _ cs _) = cs"
| "child_summaries (Leaf _ _ ss) = ss"

fun child_trees :: "('a, 's) sum_tree \<Rightarrow> ('a, 's) sum_tree list option" where
  "child_trees (Internal _ _ _ ts) = Some ts"
| "child_trees (Leaf _ _ _) = None"

fun node_items :: "('a, 's) sum_tree \<Rightarrow> 'a list option" where
  "node_items (Leaf _ its _) = Some its"
| "node_items (Internal _ _ _ _) = None"

fun is_underflowing :: "('a, 's) sum_tree \<Rightarrow> bool" where
  "is_underflowing (Internal _ _ _ ts) \<longleftrightarrow> length ts < tree_base"
| "is_underflowing (Leaf _ its _) \<longleftrightarrow> length its < tree_base"

fun st_is_empty :: "('a, 's) sum_tree \<Rightarrow> bool" where
  "st_is_empty (Internal _ _ _ _) = False"
| "st_is_empty (Leaf _ its _) \<longleftrightarrow> its = []"

definition sum_summaries :: "('a, 's) item_impl \<Rightarrow> 's list \<Rightarrow> 's" where
  "sum_summaries S ss = foldl (add_summary S) (summary_zero S) ss"

definition arrayvec :: "'b list \<Rightarrow> 'b list option" where
  "arrayvec xs = (if length xs \<le> 2 * tree_base then Some xs else None)"

definition st_new :: "('a, 's) item_impl \<Rightarrow> ('a, 's) sum_tree" where
  "st_new S = Leaf (summary_zero S) [] []"

definition st_extent :: "('s, 'd) dimension_impl \<Rightarrow> ('a, 's) sum_tree \<Rightarrow> 'd" where
  "st_extent D t = dim_add D (dim_zero D) (node_summary t)"

section \<open>Appending\<close>

text \<open>The split of an overfull node: the left part keeps the larger half.\<close>

definition midpoint :: "nat \<Rightarrow> nat" where
  "midpoint n = (n + n mod 2) div 2"

definition fit_internal ::
  "('a, 's) item_impl \<Rightarrow> nat \<Rightarrow> 's \<Rightarrow> 's list \<Rightarrow> ('a, 's) sum_tree list \<Rightarrow> 's list \<Rightarrow> ('a, 's) sum_tree list \<Rightarrow>
     (('a, 's) sum_tree \<times> ('a, 's) sum_tree option) option" where
  "fit_internal S h s cs ts summaries_to_append trees_to_append =
     (let child_count = length ts + length trees_to_append in
      if child_count > 2 * tree_base then
        let m = midpoint child_count; all_cs = cs @ summaries_to_append; all_ts = ts @ trees_to_append in
        do { left_summaries \<leftarrow> arrayvec (take m all_cs);
             right_summaries \<leftarrow> arrayvec (drop m all_cs);
             left_trees \<leftarrow> arrayvec (take m all_ts);
             right_trees \<leftarrow> arrayvec (drop m all_ts);
             Some (Internal h (sum_summaries S left_summaries) left_summaries left_trees,
                   Some (Internal h (sum_summaries S right_summaries) right_summaries right_trees)) }
      else
        do { cs \<leftarrow> arrayvec (cs @ summaries_to_append);
             ts \<leftarrow> arrayvec (ts @ trees_to_append);
             Some (Internal h s cs ts, None) })"

definition fit_leaf ::
  "('a, 's) item_impl \<Rightarrow> 's \<Rightarrow> 'a list \<Rightarrow> 's list \<Rightarrow> 's \<Rightarrow> 'a list \<Rightarrow> 's list \<Rightarrow>
     (('a, 's) sum_tree \<times> ('a, 's) sum_tree option) option" where
  "fit_leaf S s its ss other_s other_its other_ss =
     (let child_count = length its + length other_its in
      if child_count > 2 * tree_base then
        let m = midpoint child_count; all_items = its @ other_its; all_ss = ss @ other_ss in
        do { left_items \<leftarrow> arrayvec (take m all_items);
             right_items \<leftarrow> arrayvec (drop m all_items);
             left_ss \<leftarrow> arrayvec (take m all_ss);
             right_ss \<leftarrow> arrayvec (drop m all_ss);
             Some (Leaf (sum_summaries S left_ss) left_items left_ss,
                   Some (Leaf (sum_summaries S right_ss) right_items right_ss)) }
      else
        do { its \<leftarrow> arrayvec (its @ other_its);
             ss \<leftarrow> arrayvec (ss @ other_ss);
             Some (Leaf (add_summary S s other_s) its ss, None) })"

lemma size_last_child: "rev ts = l # front \<Longrightarrow> size l < Suc (size_list size ts)"
proof -
  assume "rev ts = l # front"
  then have "l \<in> set ts" by (metis list.set_intros(1) set_rev)
  then show ?thesis by (induction ts) auto
qed

function push_tree_recursive ::
  "('a, 's) item_impl \<Rightarrow> ('a, 's) sum_tree \<Rightarrow> ('a, 's) sum_tree \<Rightarrow>
     (('a, 's) sum_tree \<times> ('a, 's) sum_tree option) option" where
  "push_tree_recursive S (Internal h summary cs ts) other =
     (let s = add_summary S summary (node_summary other) in
      if h < node_height other then None
      else if h - node_height other = 0 then
        do { other_trees \<leftarrow> child_trees other;
             fit_internal S h s cs ts (child_summaries other) other_trees }
      else if h - node_height other = 1 \<and> \<not> is_underflowing other then
        fit_internal S h s cs ts [node_summary other] [other]
      else
        (case rev ts of
           [] \<Rightarrow> None
         | l # front \<Rightarrow>
             (case push_tree_recursive S l other of
                None \<Rightarrow> None
              | Some (l, tree_to_append) \<Rightarrow>
                  if cs = [] then None
                  else
                    let cs = butlast cs @ [node_summary l]; ts = rev front @ [l] in
                    (case tree_to_append of
                       None \<Rightarrow> fit_internal S h s cs ts [] []
                     | Some split_tree \<Rightarrow> fit_internal S h s cs ts [node_summary split_tree] [split_tree]))))"
| "push_tree_recursive S (Leaf s its ss) other =
     do { other_items \<leftarrow> node_items other;
          fit_leaf S s its ss (node_summary other) other_items (child_summaries other) }"
  by pat_completeness auto
termination
  by (relation "measure (\<lambda>(_, t, _). size t)") (auto dest: size_last_child)

definition merge_into_right ::
  "('a, 's) item_impl \<Rightarrow> ('a, 's) sum_tree \<Rightarrow> ('a, 's) sum_tree \<Rightarrow>
     (('a, 's) sum_tree \<times> ('a, 's) sum_tree option) option" where
  "merge_into_right S small large =
     (if node_height small \<noteq> node_height large then None
      else case (small, large) of
        (Internal _ small_s small_cs small_ts, Internal h s cs ts) \<Rightarrow>
          (let total = length ts + length small_ts in
           if total \<le> 2 * tree_base then
             do { ts \<leftarrow> arrayvec (small_ts @ ts);
                  cs \<leftarrow> arrayvec (small_cs @ cs);
                  Some (Internal h (add_summary S small_s s) cs ts, None) }
           else
             let m = midpoint total; all_ts = small_ts @ ts; all_cs = small_cs @ cs in
             do { left_trees \<leftarrow> arrayvec (take m all_ts);
                  right_trees \<leftarrow> arrayvec (drop m all_ts);
                  left_cs \<leftarrow> arrayvec (take m all_cs);
                  right_cs \<leftarrow> arrayvec (drop m all_cs);
                  Some (Internal h (sum_summaries S right_cs) right_cs right_trees,
                        Some (Internal h (sum_summaries S left_cs) left_cs left_trees)) })
      | (Leaf small_s small_its small_ss, Leaf s its ss) \<Rightarrow>
          (let total = length small_its + length its in
           if total \<le> 2 * tree_base then
             do { its \<leftarrow> arrayvec (small_its @ its);
                  ss \<leftarrow> arrayvec (small_ss @ ss);
                  Some (Leaf (add_summary S small_s s) its ss, None) }
           else
             let m = midpoint total; all_items = small_its @ its; all_ss = small_ss @ ss in
             do { left_items \<leftarrow> arrayvec (take m all_items);
                  right_items \<leftarrow> arrayvec (drop m all_items);
                  left_ss \<leftarrow> arrayvec (take m all_ss);
                  right_ss \<leftarrow> arrayvec (drop m all_ss);
                  Some (Leaf (sum_summaries S right_ss) right_items right_ss,
                        Some (Leaf (sum_summaries S left_ss) left_items left_ss)) })
      | _ \<Rightarrow> None)"

fun append_large ::
  "('a, 's) item_impl \<Rightarrow> ('a, 's) sum_tree \<Rightarrow> ('a, 's) sum_tree \<Rightarrow>
     (('a, 's) sum_tree \<times> ('a, 's) sum_tree option) option" where
  "append_large S small (Leaf s its ss) =
     (if node_height small = 0 then
        if \<not> is_underflowing small then Some (Leaf s its ss, Some small)
        else merge_into_right S small (Leaf s its ss)
      else None)"
| "append_large S small (Internal h s cs ts) =
     (if node_height small = h then
        if \<not> is_underflowing small then Some (Internal h s cs ts, Some small)
        else merge_into_right S small (Internal h s cs ts)
      else if \<not> node_height small < h then None
      else
        let s = add_summary S (node_summary small) s in
        (case (ts, cs) of
           (first # rest, _ # cs_rest) \<Rightarrow>
             (case append_large S small first of
                None \<Rightarrow> None
              | Some (first, res) \<Rightarrow>
                  let cs = node_summary first # cs_rest; ts = first # rest in
                  (case res of
                     None \<Rightarrow> Some (Internal h s cs ts, None)
                   | Some tree \<Rightarrow>
                       if length ts < 2 * tree_base then
                         do { cs \<leftarrow> arrayvec (node_summary tree # cs);
                              ts \<leftarrow> arrayvec (tree # ts);
                              Some (Internal h s cs ts, None) }
                       else if length cs < tree_base then None
                       else
                         let new_cs = node_summary tree # take tree_base cs; new_ts = tree # take tree_base ts in
                         Some (Internal h (sum_summaries S (drop tree_base cs)) (drop tree_base cs) (drop tree_base ts),
                               Some (Internal h (sum_summaries S new_cs) new_cs new_ts))))
         | _ \<Rightarrow> None))"

definition from_child_trees ::
  "('a, 's) item_impl \<Rightarrow> ('a, 's) sum_tree \<Rightarrow> ('a, 's) sum_tree \<Rightarrow> ('a, 's) sum_tree" where
  "from_child_trees S l r =
     (let cs = [node_summary l, node_summary r] in
      Internal (node_height l + 1) (sum_summaries S cs) cs [l, r])"

definition st_append ::
  "('a, 's) item_impl \<Rightarrow> ('a, 's) sum_tree \<Rightarrow> ('a, 's) sum_tree \<Rightarrow> ('a, 's) sum_tree option" where
  "st_append S t other =
     (if st_is_empty t then Some other
      else if \<not> is_leaf other \<or> node_items other \<noteq> Some [] then
        if node_height t < node_height other then
          do { (other, res) \<leftarrow> append_large S t other;
               Some (case res of Some tree \<Rightarrow> from_child_trees S tree other | None \<Rightarrow> other) }
        else
          do { (t, res) \<leftarrow> push_tree_recursive S t other;
               Some (case res of Some split_tree \<Rightarrow> from_child_trees S t split_tree | None \<Rightarrow> t) }
      else Some t)"

definition st_push :: "('a, 's) item_impl \<Rightarrow> 'a \<Rightarrow> ('a, 's) sum_tree \<Rightarrow> ('a, 's) sum_tree option" where
  "st_push S x t = (let s = item_summary S x in st_append S t (Leaf s [x] [s]))"

section \<open>Building from a list of items\<close>

function leaf_nodes :: "('a, 's) item_impl \<Rightarrow> 'a list \<Rightarrow> ('a, 's) sum_tree list" where
  "leaf_nodes S xs =
     (if xs = [] then []
      else
        let its = take (2 * tree_base) xs; ss = map (item_summary S) its in
        Leaf (foldl (add_summary S) (hd ss) (tl ss)) its ss # leaf_nodes S (drop (2 * tree_base) xs))"
  by pat_completeness auto
termination
  by (relation "measure (\<lambda>(_, xs). length xs)") (auto simp: tree_base_def)

declare leaf_nodes.simps [simp del]

text \<open>One round: the nodes are drained into parents of at most \<open>2 * TREE_BASE\<close> children.\<close>

fun parent_nodes ::
  "('a, 's) item_impl \<Rightarrow> nat \<Rightarrow> ('a, 's) sum_tree list \<Rightarrow> ('s \<times> 's list \<times> ('a, 's) sum_tree list) option \<Rightarrow>
     ('a, 's) sum_tree list" where
  "parent_nodes S h [] None = []"
| "parent_nodes S h [] (Some (s, cs, ts)) = [Internal h s cs ts]"
| "parent_nodes S h (n # ns) current_parent =
     (let (s, cs, ts) = (case current_parent of None \<Rightarrow> (summary_zero S, [], []) | Some p \<Rightarrow> p);
          s = add_summary S s (node_summary n); cs = cs @ [node_summary n]; ts = ts @ [n] in
      if length ts = 2 * tree_base then Internal h s cs ts # parent_nodes S h ns None
      else parent_nodes S h ns (Some (s, cs, ts)))"

lemma length_parent_nodes:
  "(\<forall>s cs ts. 0 < length ts \<and> length ts < 2 * tree_base \<longrightarrow>
      12 * length (parent_nodes S h ns (Some (s, cs, ts))) \<le> length ts + length ns + 11) \<and>
   12 * length (parent_nodes S h ns None) \<le> length ns + 11"
proof (induction ns)
  case (Cons n ns)
  have some: "12 * length (parent_nodes S h (n # ns) (Some (s, cs, ts))) \<le> length ts + length (n # ns) + 11"
    if "length ts < 2 * tree_base" for s cs ts
  proof (cases "length (ts @ [n]) = 2 * tree_base")
    case True
    then show ?thesis using Cons by (simp add: Let_def tree_base_def)
  next
    case False
    then have "12 * length (parent_nodes S h ns (Some (add_summary S s (node_summary n), cs @ [node_summary n], ts @ [n])))
        \<le> length (ts @ [n]) + length ns + 11"
      using conjunct1[OF Cons, rule_format, of "ts @ [n]"] that False by simp
    then show ?thesis using False by (simp add: Let_def)
  qed
  have eq: "parent_nodes S h (n # ns) None = parent_nodes S h (n # ns) (Some (summary_zero S, [], []))"
    by simp
  have "12 * length (parent_nodes S h (n # ns) None) \<le> length (n # ns) + 11"
    unfolding eq using some[of "[]" "summary_zero S" "[]"] by (simp add: tree_base_def del: parent_nodes.simps)
  with some show ?case by blast
qed (auto simp: tree_base_def Suc_le_eq)

function build_up :: "('a, 's) item_impl \<Rightarrow> nat \<Rightarrow> ('a, 's) sum_tree list \<Rightarrow> ('a, 's) sum_tree list" where
  "build_up S h ns =
     (if length ns > 1 then build_up S (h + 1) (parent_nodes S (h + 1) ns None) else ns)"
  by pat_completeness auto
termination
proof (relation "measure (\<lambda>(_, _, ns). length ns)")
  fix S h and ns :: "('a, 's) sum_tree list"
  assume "1 < length ns"
  then show "((S, h + 1, parent_nodes S (h + 1) ns None), (S, h, ns)) \<in> measure (\<lambda>(_, _, ns). length ns)"
    using length_parent_nodes[of S "h + 1" ns] by simp
qed simp

declare build_up.simps [simp del]

definition st_from_iter :: "('a, 's) item_impl \<Rightarrow> 'a list \<Rightarrow> ('a, 's) sum_tree" where
  "st_from_iter S xs =
     (case build_up S 0 (leaf_nodes S xs) of [] \<Rightarrow> st_new S | n # ns \<Rightarrow> last (n # ns))"

definition st_extend :: "('a, 's) item_impl \<Rightarrow> 'a list \<Rightarrow> ('a, 's) sum_tree \<Rightarrow> ('a, 's) sum_tree option" where
  "st_extend S xs t = st_append S t (st_from_iter S xs)"

section \<open>Reading\<close>

fun leftmost_leaf :: "('a, 's) sum_tree \<Rightarrow> ('a, 's) sum_tree option" where
  "leftmost_leaf (Leaf s its ss) = Some (Leaf s its ss)"
| "leftmost_leaf (Internal h s cs ts) = (case ts of [] \<Rightarrow> None | t # _ \<Rightarrow> leftmost_leaf t)"

function rightmost_leaf :: "('a, 's) sum_tree \<Rightarrow> ('a, 's) sum_tree option" where
  "rightmost_leaf (Leaf s its ss) = Some (Leaf s its ss)"
| "rightmost_leaf (Internal h s cs ts) = (case rev ts of [] \<Rightarrow> None | t # _ \<Rightarrow> rightmost_leaf t)"
  by pat_completeness auto
termination
  by (relation "measure size") (auto dest: size_last_child)

text \<open>\<open>first\<close> and \<open>last\<close>: the outer \<open>None\<close> is a panic.\<close>

definition st_first :: "('a, 's) sum_tree \<Rightarrow> 'a option option" where
  "st_first t = do {
     leaf \<leftarrow> leftmost_leaf t;
     its \<leftarrow> node_items leaf;
     Some (case its of [] \<Rightarrow> None | x # _ \<Rightarrow> Some x)
   }"

definition st_last :: "('a, 's) sum_tree \<Rightarrow> 'a option option" where
  "st_last t = do {
     leaf \<leftarrow> rightmost_leaf t;
     its \<leftarrow> node_items leaf;
     Some (last_opt its)
   }"

section \<open>Invariant and meaning\<close>

text \<open>The list a tree stands for.\<close>

fun flat :: "('a, 's) sum_tree \<Rightarrow> 'a list" where
  "flat (Leaf _ its _) = its"
| "flat (Internal _ _ _ ts) = concat (map flat ts)"

text \<open>Every node carries the summaries of its children and their sum, the children of a node have one
  height and are not empty, and no node is over its capacity.\<close>

fun well_formed :: "('a, 's) item_impl \<Rightarrow> ('a, 's) sum_tree \<Rightarrow> bool" where
  "well_formed S (Leaf s its ss) \<longleftrightarrow>
     ss = map (item_summary S) its \<and> s = sum_summaries S ss \<and> length its \<le> 2 * tree_base"
| "well_formed S (Internal h s cs ts) \<longleftrightarrow>
     ts \<noteq> [] \<and> length ts \<le> 2 * tree_base \<and> cs = map node_summary ts \<and> s = sum_summaries S cs \<and>
     (\<forall>t \<in> set ts. well_formed S t \<and> \<not> st_is_empty t \<and> Suc (node_height t) = h)"

text \<open>Apart from the root, every node is at least half full.\<close>

fun dense :: "('a, 's) sum_tree \<Rightarrow> bool" where
  "dense (Leaf _ _ _) = True"
| "dense (Internal _ _ _ ts) \<longleftrightarrow> (\<forall>t \<in> set ts. dense t \<and> \<not> is_underflowing t)"

definition nodes_at :: "('a, 's) item_impl \<Rightarrow> nat \<Rightarrow> ('a, 's) sum_tree list \<Rightarrow> bool" where
  "nodes_at S h ts \<longleftrightarrow> (\<forall>t \<in> set ts. well_formed S t \<and> \<not> st_is_empty t \<and> node_height t = h)"

lemma nodes_at_simps [simp]:
  "nodes_at S h []"
  "nodes_at S h (t # ts) \<longleftrightarrow> well_formed S t \<and> \<not> st_is_empty t \<and> node_height t = h \<and> nodes_at S h ts"
  "nodes_at S h (ts @ us) \<longleftrightarrow> nodes_at S h ts \<and> nodes_at S h us"
  by (auto simp: nodes_at_def)

lemma nodes_at_take [simp]: "nodes_at S h ts \<Longrightarrow> nodes_at S h (take n ts)"
  and nodes_at_drop [simp]: "nodes_at S h ts \<Longrightarrow> nodes_at S h (drop n ts)"
  by (auto simp: nodes_at_def dest: in_set_takeD in_set_dropD)

lemma well_formed_internal:
  "well_formed S (Internal h s cs ts) \<longleftrightarrow>
     ts \<noteq> [] \<and> length ts \<le> 2 * tree_base \<and> cs = map node_summary ts \<and> s = sum_summaries S cs \<and>
     (\<exists>k. h = Suc k \<and> nodes_at S k ts)"
proof -
  have "(\<forall>t \<in> set ts. well_formed S t \<and> \<not> st_is_empty t \<and> Suc (node_height t) = h) \<longleftrightarrow>
      (\<exists>k. h = Suc k \<and> nodes_at S k ts)" if "ts \<noteq> []"
    using that by (cases h; cases ts) (auto simp: nodes_at_def)
  then show ?thesis by auto
qed

declare well_formed.simps(2) [simp del]

lemma height_0_leaf: "well_formed S t \<Longrightarrow> node_height t = 0 \<longleftrightarrow> is_leaf t"
  by (cases t) (auto simp: well_formed_internal)

lemma arrayvec_Some [simp]: "length xs \<le> 2 * tree_base \<Longrightarrow> arrayvec xs = Some xs"
  by (simp add: arrayvec_def)

lemma midpoint_bounds:
  "2 * tree_base < n \<Longrightarrow> n \<le> 4 * tree_base \<Longrightarrow>
     tree_base \<le> midpoint n \<and> midpoint n \<le> 2 * tree_base \<and> tree_base \<le> n - midpoint n \<and> n - midpoint n \<le> 2 * tree_base"
  unfolding midpoint_def tree_base_def by (simp, presburger)

lemma flat_nonempty: "well_formed S t \<Longrightarrow> \<not> st_is_empty t \<Longrightarrow> flat t \<noteq> []"
proof (induction t)
  case (Internal h s cs ts)
  then obtain t where "t \<in> set ts" "well_formed S t" "\<not> st_is_empty t"
    by (cases ts) (auto simp: well_formed_internal)
  with Internal.IH show ?case by fastforce
qed simp

lemma flat_empty_iff: "well_formed S t \<Longrightarrow> flat t = [] \<longleftrightarrow> st_is_empty t"
  using flat_nonempty[of S t] by (cases t) auto

text \<open>What the operations on nodes return: one or two nodes of the same height in the order of the
  list, that keep the occupancy when \<open>d\<close> says that there is one.\<close>

definition regrown ::
  "('a, 's) item_impl \<Rightarrow> bool \<Rightarrow> ('a, 's) sum_tree \<Rightarrow> 'a list \<Rightarrow> ('a, 's) sum_tree list \<Rightarrow> bool" where
  "regrown S d old xs us \<longleftrightarrow>
     nodes_at S (node_height old) us \<and> concat (map flat us) = xs \<and> (length us = 1 \<or> length us = 2) \<and>
     (d \<longrightarrow> (\<forall>u \<in> set us. dense u \<and> (\<not> is_underflowing old \<or> length us = 2 \<longrightarrow> \<not> is_underflowing u)))"

lemma regrown_pairI:
  "nodes_at S (node_height old) [l, r] \<Longrightarrow> flat l @ flat r = xs \<Longrightarrow> (d \<Longrightarrow> dense l \<and> dense r) \<Longrightarrow>
     (d \<Longrightarrow> \<not> is_underflowing l \<and> \<not> is_underflowing r) \<Longrightarrow> regrown S d old xs [l, r]"
  by (simp add: regrown_def)

lemma regrown_singleI:
  "nodes_at S (node_height old) [u] \<Longrightarrow> flat u = xs \<Longrightarrow> (d \<Longrightarrow> dense u) \<Longrightarrow>
     (d \<Longrightarrow> \<not> is_underflowing old \<Longrightarrow> \<not> is_underflowing u) \<Longrightarrow> regrown S d old xs [u]"
  by (simp add: regrown_def)

definition option_list :: "'b option \<Rightarrow> 'b list" where
  "option_list x = (case x of None \<Rightarrow> [] | Some y \<Rightarrow> [y])"

lemma option_list_simps [simp]: "option_list None = []" "option_list (Some x) = [x]"
  by (simp_all add: option_list_def)

section \<open>The laws of a summary\<close>

locale summary_laws =
  fixes S :: "('a, 's) item_impl"
  assumes add_assoc: "add_summary S (add_summary S a b) c = add_summary S a (add_summary S b c)"
    and zero_left: "add_summary S (summary_zero S) a = a"
begin

lemma sum_Nil [simp]: "sum_summaries S [] = summary_zero S"
  by (simp add: sum_summaries_def)

lemma sum_single [simp]: "sum_summaries S [a] = a"
  by (simp add: sum_summaries_def zero_left)

lemma foldl_add: "foldl (add_summary S) a (b # bs) = add_summary S a (foldl (add_summary S) b bs)"
  by (induction bs arbitrary: b) (simp_all add: add_assoc)

lemma sum_Cons: "sum_summaries S (a # as) = foldl (add_summary S) a as"
  by (simp add: sum_summaries_def zero_left)

lemma foldl_sum: "bs \<noteq> [] \<Longrightarrow> foldl (add_summary S) a bs = add_summary S a (sum_summaries S bs)"
  by (cases bs) (simp_all add: foldl_add sum_Cons del: foldl_Cons)

lemma sum_append: "ys \<noteq> [] \<Longrightarrow> sum_summaries S (xs @ ys) = add_summary S (sum_summaries S xs) (sum_summaries S ys)"
  by (simp add: foldl_sum[symmetric]) (simp add: sum_summaries_def)

lemma sum_concat:
  "\<forall>t \<in> set ts. f t \<noteq> [] \<and> g t = sum_summaries S (f t) \<Longrightarrow>
     sum_summaries S (map g ts) = sum_summaries S (concat (map f ts))"
proof (induction ts rule: rev_induct)
  case (snoc t ts)
  then show ?case by (simp add: sum_append)
qed simp

lemma summary_flat: "well_formed S t \<Longrightarrow> node_summary t = sum_summaries S (map (item_summary S) (flat t))"
proof (induction t)
  case (Internal h s cs ts)
  have "sum_summaries S (map node_summary ts) = sum_summaries S (concat (map (map (item_summary S) \<circ> flat) ts))"
    by (rule sum_concat)
      (use Internal flat_nonempty in \<open>fastforce simp: well_formed_internal nodes_at_def\<close>)
  then show ?case using Internal.prems by (simp add: map_concat comp_def well_formed_internal)
qed simp

lemma internal_node:
  "ts \<noteq> [] \<Longrightarrow> length ts \<le> 2 * tree_base \<Longrightarrow> nodes_at S h ts \<Longrightarrow>
     well_formed S (Internal (Suc h) (sum_summaries S (map node_summary ts)) (map node_summary ts) ts)"
  by (simp add: well_formed_internal)

end

context summary_laws
begin

lemma fit_internal_spec:
  assumes "ts \<noteq> []" "length ts \<le> 2 * tree_base" "length us \<le> 2 * tree_base" "nodes_at S h (ts @ us)"
    "s = sum_summaries S (map node_summary (ts @ us))"
    "d \<longrightarrow> (\<forall>t \<in> set (ts @ us). dense t \<and> \<not> is_underflowing t)"
    "node_height old = Suc h" "\<not> is_underflowing old \<longrightarrow> tree_base \<le> length ts"
    "xs = concat (map flat (ts @ us))"
  shows "\<exists>t r. fit_internal S (Suc h) s (map node_summary ts) ts (map node_summary us) us = Some (t, r) \<and>
    regrown S d old xs (t # option_list r)"
proof (cases "length ts + length us > 2 * tree_base")
  case True
  define m where "m = midpoint (length ts + length us)"
  have m: "tree_base \<le> m" "m \<le> 2 * tree_base" "tree_base \<le> length ts + length us - m"
    "length ts + length us - m \<le> 2 * tree_base"
    using midpoint_bounds[OF True] assms(2,3) by (simp_all add: m_def)
  define l where "l = take m (ts @ us)"
  define r where "r = drop m (ts @ us)"
  let ?node = "\<lambda>ts. Internal (Suc h) (sum_summaries S (map node_summary ts)) (map node_summary ts) ts"
  have len: "length l = m" "length r = length ts + length us - m"
    using m by (simp_all add: l_def r_def tree_base_def)
  then have ne: "l \<noteq> []" "r \<noteq> []" using m by (auto simp: tree_base_def)
  have lr: "ts @ us = l @ r" unfolding l_def r_def by (rule append_take_drop_id[symmetric])
  have cs: "take m (map node_summary ts @ map node_summary us) = map node_summary l"
    "drop m (map node_summary ts @ map node_summary us) = map node_summary r"
    unfolding map_append[symmetric] l_def r_def by (simp_all only: take_map drop_map)
  have "fit_internal S (Suc h) s (map node_summary ts) ts (map node_summary us) us = Some (?node l, Some (?node r))"
    using True len m unfolding fit_internal_def
    by (simp add: m_def[symmetric] Let_def cs l_def[symmetric] r_def[symmetric] del: take_append drop_append)
  moreover have "regrown S d old xs [?node l, ?node r]"
  proof -
    have at: "nodes_at S h l" "nodes_at S h r" "xs = concat (map flat l) @ concat (map flat r)"
      using assms(4,9) unfolding lr by simp_all
    have "nodes_at S (node_height old) [?node l, ?node r]"
      using internal_node[OF ne(1) _ at(1)] internal_node[OF ne(2) _ at(2)] len m assms(7) by simp
    moreover have "d \<Longrightarrow> dense (?node l) \<and> dense (?node r)"
      using assms(6) unfolding lr dense.simps set_append by blast
    moreover have "\<not> is_underflowing (?node l) \<and> \<not> is_underflowing (?node r)" using len m by simp_all
    moreover have "flat (?node l) @ flat (?node r) = xs" using at(3) by simp
    ultimately show ?thesis by (intro regrown_pairI)
  qed
  ultimately show ?thesis by (intro exI[of _ "?node l"] exI[of _ "Some (?node r)"]) simp
next
  case False
  let ?node = "Internal (Suc h) s (map node_summary (ts @ us)) (ts @ us)"
  have "fit_internal S (Suc h) s (map node_summary ts) ts (map node_summary us) us = Some (?node, None)"
    using False unfolding fit_internal_def by simp
  moreover have "regrown S d old xs [?node]"
  proof (rule regrown_singleI)
    show "nodes_at S (node_height old) [?node]"
      using internal_node[OF _ _ assms(4)] False assms(1,5,7) by simp
  qed (use assms(6,8,9) in auto)
  ultimately show ?thesis by (intro exI[of _ ?node] exI[of _ None]) simp
qed

lemma sum_nodes: "nodes_at S h ts \<Longrightarrow> sum_summaries S (map node_summary ts) = sum_summaries S (map (item_summary S) (concat (map flat ts)))"
proof -
  assume "nodes_at S h ts"
  then have "sum_summaries S (map node_summary ts) = sum_summaries S (concat (map (map (item_summary S) \<circ> flat) ts))"
    by (intro sum_concat) (use flat_nonempty summary_flat in \<open>fastforce simp: nodes_at_def\<close>)
  then show ?thesis by (simp add: map_concat comp_def)
qed

lemma summary_add:
  "well_formed S t \<Longrightarrow> well_formed S u \<Longrightarrow> \<not> st_is_empty u \<Longrightarrow>
     add_summary S (node_summary t) (node_summary u) = sum_summaries S (map (item_summary S) (flat t @ flat u))"
  by (simp add: summary_flat sum_append flat_nonempty)

lemma fit_leaf_spec:
  assumes t: "t = Leaf s its ss" "well_formed S t" and u: "u = Leaf os oits oss" "well_formed S u" "oits \<noteq> []" "its \<noteq> []"
  shows "\<exists>t' r. fit_leaf S s its ss os oits oss = Some (t', r) \<and> regrown S d t (its @ oits) (t' # option_list r)"
proof (cases "length its + length oits > 2 * tree_base")
  case True
  define m where "m = midpoint (length its + length oits)"
  have m: "tree_base \<le> m" "m \<le> 2 * tree_base" "tree_base \<le> length its + length oits - m"
    "length its + length oits - m \<le> 2 * tree_base"
    using midpoint_bounds[OF True] t u by (simp_all add: m_def)
  define l where "l = take m (its @ oits)"
  define r where "r = drop m (its @ oits)"
  let ?node = "\<lambda>xs. Leaf (sum_summaries S (map (item_summary S) xs)) xs (map (item_summary S) xs)"
  have len: "length l = m" "length r = length its + length oits - m"
    using m by (simp_all add: l_def r_def tree_base_def)
  then have ne: "l \<noteq> []" "r \<noteq> []" using m by (auto simp: tree_base_def)
  have lr: "its @ oits = l @ r" unfolding l_def r_def by (rule append_take_drop_id[symmetric])
  have ss: "take m (ss @ oss) = map (item_summary S) l" "drop m (ss @ oss) = map (item_summary S) r"
    using t u unfolding l_def r_def by (simp_all add: take_map drop_map)
  have "fit_leaf S s its ss os oits oss = Some (?node l, Some (?node r))"
    using True len m unfolding fit_leaf_def
    by (simp add: m_def[symmetric] Let_def ss l_def[symmetric] r_def[symmetric] del: take_append drop_append)
  moreover have "regrown S d t (its @ oits) [?node l, ?node r]"
    by (rule regrown_pairI) (use t len ne m lr in simp_all)
  ultimately show ?thesis by (intro exI[of _ "?node l"] exI[of _ "Some (?node r)"]) simp
next
  case False
  have "add_summary S s os = sum_summaries S (map (item_summary S) (its @ oits))"
    using summary_add[OF t(2) u(2)] t u by simp
  then show ?thesis
    using False t u by (auto simp: fit_leaf_def regrown_def)
qed

lemma push_tree_recursive_spec:
  "well_formed S t \<Longrightarrow> well_formed S other \<Longrightarrow> \<not> st_is_empty t \<Longrightarrow> \<not> st_is_empty other \<Longrightarrow>
     node_height other \<le> node_height t \<Longrightarrow> d \<longrightarrow> dense t \<and> dense other \<Longrightarrow>
     \<exists>t' r. push_tree_recursive S t other = Some (t', r) \<and> regrown S d t (flat t @ flat other) (t' # option_list r)"
proof (induction t)
  case (Leaf s its ss)
  then obtain os oits oss where o: "other = Leaf os oits oss" by (cases other) (auto simp: well_formed_internal)
  then show ?case using fit_leaf_spec[OF refl Leaf.prems(1) o] Leaf.prems by simp
next
  case (Internal h s cs ts)
  let ?t = "Internal h s cs ts"
  obtain k where t: "ts \<noteq> []" "length ts \<le> 2 * tree_base" "cs = map node_summary ts" "h = Suc k" "nodes_at S k ts"
    using Internal.prems(1) by (auto simp: well_formed_internal)
  define s' where "s' = add_summary S s (node_summary other)"
  have s': "s' = sum_summaries S (map (item_summary S) (concat (map flat ts) @ flat other))"
    using summary_add[OF Internal.prems(1,2,4)] by (simp add: s'_def)
  have fit: "\<exists>t' r. fit_internal S (Suc k) s' (map node_summary ts') ts' (map node_summary us) us = Some (t', r) \<and>
      regrown S d ?t (flat ?t @ flat other) (t' # option_list r)"
    if "length ts' = length ts" "length us \<le> 2 * tree_base" "nodes_at S k (ts' @ us)"
      "concat (map flat (ts' @ us)) = flat ?t @ flat other"
      "d \<longrightarrow> (\<forall>u \<in> set (ts' @ us). dense u \<and> \<not> is_underflowing u)" for ts' us
  proof (rule fit_internal_spec)
    show "s' = sum_summaries S (map node_summary (ts' @ us))"
      unfolding sum_nodes[OF that(3)] that(4) s' by simp
    show "ts' \<noteq> []" using that(1) t(1) by auto
  qed (use that t in \<open>auto simp: not_less\<close>)
  consider (same) "h = node_height other" | (child) "h = Suc (node_height other)" "\<not> is_underflowing other"
    | (down) "node_height other < h" "\<not> (h = Suc (node_height other) \<and> \<not> is_underflowing other)"
    using Internal.prems(5) by fastforce
  then show ?case
  proof cases
    case same
    then obtain os ocs us where o: "other = Internal h os ocs us" using t(4) by (cases other) auto
    have "\<exists>t' r. fit_internal S (Suc k) s' (map node_summary ts) ts (map node_summary us) us = Some (t', r) \<and>
      regrown S d ?t (flat ?t @ flat other) (t' # option_list r)"
    proof (rule fit)
      show "d \<longrightarrow> (\<forall>u \<in> set (ts @ us). dense u \<and> \<not> is_underflowing u)"
        using Internal.prems(6) unfolding o by auto
    qed (use Internal.prems(2) t o in \<open>auto simp: well_formed_internal\<close>)
    then show ?thesis using o t same Internal.prems(2) by (simp add: s'_def well_formed_internal)
  next
    case child
    have "\<exists>t' r. fit_internal S (Suc k) s' (map node_summary ts) ts (map node_summary [other]) [other] = Some (t', r) \<and>
      regrown S d ?t (flat ?t @ flat other) (t' # option_list r)"
    proof (rule fit)
      show "d \<longrightarrow> (\<forall>u \<in> set (ts @ [other]). dense u \<and> \<not> is_underflowing u)"
        using child(2) Internal.prems(6) by auto
    qed (use Internal.prems t child in \<open>auto simp: tree_base_def\<close>)
    then show ?thesis using t child by (simp add: s'_def)
  next
    case down
    obtain l front where r: "rev ts = l # front" using t(1) by (cases "rev ts") auto
    then have ts: "ts = rev front @ [l]" by (metis rev.simps(2) rev_rev_ident)
    have l: "l \<in> set ts" "well_formed S l" "\<not> st_is_empty l" "node_height l = k" using t(5) ts by auto
    obtain l' x where x: "push_tree_recursive S l other = Some (l', x)"
      "regrown S d l (flat l @ flat other) (l' # option_list x)"
      using Internal.IH[OF l(1,2) Internal.prems(2) l(3) Internal.prems(4)] l(1,4) t(4) down(1) Internal.prems(6)
      by auto
    have "\<exists>t' r. fit_internal S (Suc k) s' (map node_summary (rev front @ [l'])) (rev front @ [l'])
        (map node_summary (option_list x)) (option_list x) = Some (t', r) \<and>
      regrown S d ?t (flat ?t @ flat other) (t' # option_list r)"
    proof (rule fit)
      show "d \<longrightarrow>
          (\<forall>u \<in> set ((rev front @ [l']) @ option_list x). dense u \<and> \<not> is_underflowing u)"
        using x(2) Internal.prems(6) unfolding ts regrown_def by auto
    qed (use x(2) t(5) ts l(4) in \<open>auto simp: regrown_def tree_base_def option_list_def split: option.splits\<close>)
    moreover have "push_tree_recursive S ?t other =
        fit_internal S (Suc k) s' (map node_summary (rev front @ [l'])) (rev front @ [l'])
          (map node_summary (option_list x)) (option_list x)"
      using down r x(1) t(3,4) ts by (auto simp: s'_def Let_def butlast_append split: option.splits)
    ultimately show ?thesis by simp
  qed
qed

end

context summary_laws
begin

lemma merge_into_right_spec:
  assumes "well_formed S small" "well_formed S large" "\<not> st_is_empty small" "\<not> st_is_empty large"
    "node_height small = node_height large" "is_underflowing small" "d \<longrightarrow> dense small \<and> dense large"
  shows "\<exists>t r. merge_into_right S small large = Some (t, r) \<and>
    regrown S d large (flat small @ flat large) (option_list r @ [t])"
proof (cases large)
  case (Internal h s cs ts)
  then obtain ss scs us where small: "small = Internal h ss scs us"
    using assms(1,2,5) Internal by (cases small) (auto simp: well_formed_internal)
  obtain k where t: "h = Suc k" "ts \<noteq> []" "length ts \<le> 2 * tree_base" "cs = map node_summary ts" "nodes_at S k ts"
      "us \<noteq> []" "length us \<le> 2 * tree_base" "scs = map node_summary us" "nodes_at S k us"
    using assms(1,2) Internal small by (auto simp: well_formed_internal)
  have at: "nodes_at S k (us @ ts)" using t by simp
  have dense: "d \<longrightarrow> (\<forall>t \<in> set (us @ ts). dense t \<and> \<not> is_underflowing t)"
    using assms(7) unfolding Internal small by auto
  let ?node = "\<lambda>ts. Internal (Suc k) (sum_summaries S (map node_summary ts)) (map node_summary ts) ts"
  show ?thesis
  proof (cases "length ts + length us \<le> 2 * tree_base")
    case True
    have "add_summary S ss s = sum_summaries S (map node_summary (us @ ts))"
      using summary_add[OF assms(1,2,4)] unfolding sum_nodes[OF at] by (simp add: Internal small)
    then have "merge_into_right S small large = Some (?node (us @ ts), None)"
      using True t by (simp add: merge_into_right_def Internal small)
    moreover have "regrown S d large (flat small @ flat large) [?node (us @ ts)]"
    proof (rule regrown_singleI)
      show "nodes_at S (node_height large) [?node (us @ ts)]"
        using internal_node[OF _ _ at] True t by (simp add: Internal)
    qed (use dense t in \<open>auto simp: Internal small\<close>)
    ultimately show ?thesis by (intro exI[of _ "?node (us @ ts)"] exI[of _ None]) simp
  next
    case False
    define m where "m = midpoint (length ts + length us)"
    have m: "tree_base \<le> m" "m \<le> 2 * tree_base" "tree_base \<le> length ts + length us - m"
      "length ts + length us - m \<le> 2 * tree_base"
      using midpoint_bounds[of "length ts + length us"] False t by (simp_all add: m_def)
    define l where "l = take m (us @ ts)"
    define r where "r = drop m (us @ ts)"
    have len: "length l = m" "length r = length ts + length us - m"
      using m by (simp_all add: l_def r_def tree_base_def)
    then have ne: "l \<noteq> []" "r \<noteq> []" using m by (auto simp: tree_base_def)
    have lr: "us @ ts = l @ r" unfolding l_def r_def by (rule append_take_drop_id[symmetric])
    have ss: "take m (map node_summary us @ map node_summary ts) = map node_summary l"
      "drop m (map node_summary us @ map node_summary ts) = map node_summary r"
      unfolding map_append[symmetric] l_def r_def by (simp_all only: take_map drop_map)
    have "merge_into_right S small large = Some (?node r, Some (?node l))"
      using False len m t unfolding merge_into_right_def Internal small
      by (simp add: m_def[symmetric] Let_def ss l_def[symmetric] r_def[symmetric] del: take_append drop_append)
    moreover have "regrown S d large (flat small @ flat large) [?node l, ?node r]"
    proof (rule regrown_pairI)
      have "nodes_at S k l" "nodes_at S k r" using at unfolding lr by simp_all
      then show "nodes_at S (node_height large) [?node l, ?node r]"
        using internal_node[of l k] internal_node[of r k] len m ne t(1) by (simp add: Internal)
      show "d \<Longrightarrow> dense (?node l) \<and> dense (?node r)"
        using dense unfolding lr dense.simps set_append by blast
      have "concat (map flat (us @ ts)) = concat (map flat (l @ r))" unfolding lr ..
      then show "flat (?node l) @ flat (?node r) = flat small @ flat large" by (simp add: Internal small)
    qed (use len m in simp_all)
    ultimately show ?thesis by (intro exI[of _ "?node r"] exI[of _ "Some (?node l)"]) simp
  qed
next
  case (Leaf s its ss)
  then obtain os oits oss where small: "small = Leaf os oits oss"
    using assms(1,5) by (cases small) (auto simp: well_formed_internal)
  let ?node = "\<lambda>xs. Leaf (sum_summaries S (map (item_summary S) xs)) xs (map (item_summary S) xs)"
  show ?thesis
  proof (cases "length oits + length its \<le> 2 * tree_base")
    case True
    have "add_summary S os s = sum_summaries S (map (item_summary S) (oits @ its))"
      using summary_add[OF assms(1,2,4)] by (simp add: Leaf small)
    then show ?thesis
      using True assms by (auto simp: merge_into_right_def Leaf small regrown_def)
  next
    case False
    define m where "m = midpoint (length oits + length its)"
    have m: "tree_base \<le> m" "m \<le> 2 * tree_base" "tree_base \<le> length oits + length its - m"
      "length oits + length its - m \<le> 2 * tree_base"
      using midpoint_bounds[of "length oits + length its"] False assms by (simp_all add: m_def Leaf small)
    define l where "l = take m (oits @ its)"
    define r where "r = drop m (oits @ its)"
    have len: "length l = m" "length r = length oits + length its - m"
      using m by (simp_all add: l_def r_def tree_base_def)
    then have ne: "l \<noteq> []" "r \<noteq> []" using m by (auto simp: tree_base_def)
    have lr: "oits @ its = l @ r" unfolding l_def r_def by (rule append_take_drop_id[symmetric])
    have sl: "take m (oss @ ss) = map (item_summary S) l" "drop m (oss @ ss) = map (item_summary S) r"
      using assms(1,2) unfolding l_def r_def Leaf small by (simp_all add: take_map drop_map)
    have "merge_into_right S small large = Some (?node r, Some (?node l))"
      using False len m unfolding merge_into_right_def Leaf small
      by (simp add: m_def[symmetric] Let_def sl l_def[symmetric] r_def[symmetric] del: take_append drop_append)
    moreover have "regrown S d large (flat small @ flat large) [?node l, ?node r]"
      by (rule regrown_pairI) (use Leaf small len ne m lr in simp_all)
    ultimately show ?thesis by (intro exI[of _ "?node r"] exI[of _ "Some (?node l)"]) simp
  qed
qed

text \<open>On the root of the large tree the occupancy of its own level is not needed.\<close>

lemma append_large_spec:
  "well_formed S small \<Longrightarrow> well_formed S large \<Longrightarrow> \<not> st_is_empty small \<Longrightarrow> \<not> st_is_empty large \<Longrightarrow>
     node_height small \<le> node_height large \<Longrightarrow>
     d \<longrightarrow> dense small \<and> dense large \<Longrightarrow> node_height small = node_height large \<and> d \<longrightarrow> \<not> is_underflowing large \<Longrightarrow>
     \<exists>t r. append_large S small large = Some (t, r) \<and>
       regrown S d large (flat small @ flat large) (option_list r @ [t])"
proof (induction large)
  case (Leaf s its ss)
  show ?case
  proof (cases "is_underflowing small")
    case True
    then show ?thesis using merge_into_right_spec[OF Leaf.prems(1-4) _ _ Leaf.prems(6)] Leaf.prems(5) by simp
  next
    case False
    then show ?thesis
      using Leaf.prems by (auto simp: regrown_def)
  qed
next
  case (Internal h s cs ts)
  let ?t = "Internal h s cs ts"
  obtain k where t: "ts \<noteq> []" "length ts \<le> 2 * tree_base" "cs = map node_summary ts" "h = Suc k" "nodes_at S k ts"
    using Internal.prems(2) by (auto simp: well_formed_internal)
  show ?case
  proof (cases "node_height small = h")
    case True
    show ?thesis
    proof (cases "is_underflowing small")
      case under: True
      then show ?thesis using merge_into_right_spec[OF Internal.prems(1-4) _ _ Internal.prems(6)] True by simp
    next
      case False
      have "regrown S d ?t (flat small @ flat ?t) [small, ?t]"
        unfolding regrown_def using Internal.prems True False by auto
      then show ?thesis using True False by simp
    qed
  next
    case False
    then have lt: "node_height small < h" using Internal.prems(5) by simp
    obtain first rest where ts: "ts = first # rest" using t(1) by (cases ts) auto
    have first: "first \<in> set ts" "well_formed S first" "\<not> st_is_empty first" "node_height first = k" "nodes_at S k rest"
      using t(5) ts by auto
    define s' where "s' = add_summary S (node_summary small) s"
    have s': "s' = sum_summaries S (map (item_summary S) (flat small @ flat ?t))"
      using summary_add[OF Internal.prems(1,2,4)] by (simp add: s'_def)
    have len: "length cs = length ts" using t(3) by simp
    obtain first' x where x: "append_large S small first = Some (first', x)"
      "regrown S d first (flat small @ flat first) (option_list x @ [first'])"
      using Internal.IH[OF first(1) Internal.prems(1) first(2) Internal.prems(3) first(3)] first(1,4) t(4) lt
        Internal.prems(6) by auto
    let ?node = "\<lambda>ts. Internal (Suc k) (sum_summaries S (map node_summary ts)) (map node_summary ts) ts"
    define us where "us = option_list x @ first' # rest"
    have us: "nodes_at S k us" "concat (map flat us) = flat small @ flat ?t"
      "d \<longrightarrow> (\<forall>u \<in> set us. dense u \<and> \<not> is_underflowing u)"
      using x(2) first(4,5) ts Internal.prems(6) by (auto simp: us_def regrown_def)
    have sum: "s' = sum_summaries S (map node_summary us)"
      unfolding sum_nodes[OF us(1)] us(2) s' ..
    show ?thesis
    proof (cases "length us \<le> 2 * tree_base")
      case True
      have "append_large S small ?t = Some (?node us, None)"
        using False lt x(1) ts t(3,4) True sum
        by (cases x) (auto simp: us_def s'_def Let_def)
      moreover have "regrown S d ?t (flat small @ flat ?t) [?node us]"
      proof (rule regrown_singleI)
        show "nodes_at S (node_height ?t) [?node us]"
          using internal_node[OF _ True us(1)] t(4) by (simp add: us_def)
      qed (use us(2,3) ts in \<open>auto simp: us_def\<close>)
      ultimately show ?thesis by (intro exI[of _ "?node us"] exI[of _ None]) simp
    next
      case big: False
      then obtain tree where tree: "x = Some tree" using t(2) ts by (cases x) (auto simp: us_def)
      have full: "length ts = 2 * tree_base" using big t(2) ts tree by (simp add: us_def)
      let ?l = "tree # take tree_base (first' # rest)" and ?r = "drop tree_base (first' # rest)"
      have len': "length ?l = Suc tree_base" "length ?r = tree_base" "?r \<noteq> []"
        using full ts by (auto simp: tree_base_def)
      have lr: "us = ?l @ ?r" unfolding us_def tree option_list_simps append_Cons append_Nil append_take_drop_id ..
      have "append_large S small ?t = Some (?node ?r, Some (?node ?l))"
        using False lt x(1) ts t(3,4) full tree
        by (simp add: s'_def Let_def take_map drop_map tree_base_def)
      moreover have "regrown S d ?t (flat small @ flat ?t) [?node ?l, ?node ?r]"
      proof (rule regrown_pairI)
        have at: "nodes_at S k ?l" "nodes_at S k ?r" using us(1) unfolding lr nodes_at_simps by blast+
        show "nodes_at S (node_height ?t) [?node ?l, ?node ?r]"
          using internal_node[OF _ _ at(1)] internal_node[OF len'(3) _ at(2)] len' t(4) by (simp add: tree_base_def)
        show "flat (?node ?l) @ flat (?node ?r) = flat small @ flat ?t"
          using us(2) unfolding lr map_append concat_append by simp
        show "d \<Longrightarrow> dense (?node ?l) \<and> dense (?node ?r)"
          using us(3) unfolding lr dense.simps set_append by blast
      qed (use len' in \<open>auto simp: tree_base_def\<close>)
      ultimately show ?thesis by (intro exI[of _ "?node ?r"] exI[of _ "Some (?node ?l)"]) simp
    qed
  qed
qed

lemma from_child_trees_spec:
  "nodes_at S h [l, r] \<Longrightarrow> well_formed S (from_child_trees S l r) \<and> flat (from_child_trees S l r) = flat l @ flat r \<and>
     node_height (from_child_trees S l r) = Suc h \<and>
     (dense l \<and> dense r \<and> \<not> is_underflowing l \<and> \<not> is_underflowing r \<longrightarrow> dense (from_child_trees S l r))"
  by (simp add: from_child_trees_def well_formed_internal tree_base_def Let_def)

lemma append_spec:
  assumes "well_formed S t" "well_formed S u"
  shows "\<exists>v. st_append S t u = Some v \<and> well_formed S v \<and> flat v = flat t @ flat u \<and> (dense t \<and> dense u \<longrightarrow> dense v)"
proof -
  let ?ok = "\<lambda>v. well_formed S v \<and> flat v = flat t @ flat u \<and> (dense t \<and> dense u \<longrightarrow> dense v)"
  define d where "d = (dense t \<and> dense u)"
  consider (t) "st_is_empty t" | (u) "st_is_empty u" "\<not> st_is_empty t" | (both) "\<not> st_is_empty t" "\<not> st_is_empty u" by blast
  then show ?thesis
  proof cases
    case t
    then show ?thesis using assms flat_empty_iff by (auto simp: st_append_def)
  next
    case u
    then show ?thesis using assms flat_empty_iff[OF assms(2)] by (cases u) (auto simp: st_append_def)
  next
    case both
    then have guard: "\<not> is_leaf u \<or> node_items u \<noteq> Some []" by (cases u) auto
    show ?thesis
    proof (cases "node_height t < node_height u")
      case True
      obtain v r where v: "append_large S t u = Some (v, r)"
        "regrown S d u (flat t @ flat u) (option_list r @ [v])"
        using append_large_spec[OF assms both, of d] True by (auto simp: d_def)
      show ?thesis
      proof (cases r)
        case None
        then show ?thesis using v guard both True by (auto simp: st_append_def regrown_def d_def)
      next
        case (Some w)
        then have "nodes_at S (node_height u) [w, v]" using v(2) by (simp add: regrown_def)
        then have "?ok (from_child_trees S w v)"
          using from_child_trees_spec[of "node_height u" w v] v(2) Some by (auto simp: regrown_def d_def)
        then show ?thesis using v(1) Some guard both True by (auto simp: st_append_def)
      qed
    next
      case False
      obtain v r where v: "push_tree_recursive S t u = Some (v, r)"
        "regrown S d t (flat t @ flat u) (v # option_list r)"
        using push_tree_recursive_spec[OF assms both, of d] False by (auto simp: d_def)
      show ?thesis
      proof (cases r)
        case None
        then show ?thesis using v guard both False by (auto simp: st_append_def regrown_def d_def)
      next
        case (Some w)
        then have "nodes_at S (node_height t) [v, w]" using v(2) by (simp add: regrown_def)
        then have "?ok (from_child_trees S v w)"
          using from_child_trees_spec[of "node_height t" v w] v(2) Some by (auto simp: regrown_def d_def)
        then show ?thesis using v(1) Some guard both False by (auto simp: st_append_def)
      qed
    qed
  qed
qed

lemma leaf_single: "well_formed S (Leaf (item_summary S x) [x] [item_summary S x])"
  by (simp add: tree_base_def)

lemma new_spec: "well_formed S (st_new S) \<and> flat (st_new S) = [] \<and> dense (st_new S)"
  by (simp add: st_new_def)

lemma push_spec:
  "well_formed S t \<Longrightarrow> \<exists>v. st_push S x t = Some v \<and> well_formed S v \<and> flat v = flat t @ [x] \<and> (dense t \<longrightarrow> dense v)"
  using append_spec[OF _ leaf_single, of t x] by (simp add: st_push_def Let_def)

end

context summary_laws
begin

lemma leaf_nodes_spec: "nodes_at S 0 (leaf_nodes S xs) \<and> concat (map flat (leaf_nodes S xs)) = xs"
proof (induction xs rule: length_induct)
  case (1 xs)
  show ?case
  proof (cases "xs = []")
    case True
    then show ?thesis by (simp add: leaf_nodes.simps[of S "[]"])
  next
    case False
    let ?l = "take (2 * tree_base) xs" and ?r = "drop (2 * tree_base) xs"
    have l: "?l \<noteq> []" using False by (simp add: tree_base_def)
    then have "foldl (add_summary S) (hd (map (item_summary S) ?l)) (tl (map (item_summary S) ?l)) =
        sum_summaries S (map (item_summary S) ?l)"
      by (cases ?l) (simp_all add: sum_Cons)
    then have "leaf_nodes S xs = Leaf (sum_summaries S (map (item_summary S) ?l)) ?l (map (item_summary S) ?l) # leaf_nodes S ?r"
      using False by (simp add: leaf_nodes.simps[of S xs] Let_def)
    moreover have "nodes_at S 0 (leaf_nodes S ?r)" "concat (map flat (leaf_nodes S ?r)) = ?r"
      using 1[rule_format, of ?r] False by (simp_all add: tree_base_def)
    ultimately show ?thesis using l by simp
  qed
qed

lemma parent_nodes_spec:
  "nodes_at S h ns \<Longrightarrow> nodes_at S h ts \<Longrightarrow> length ts < 2 * tree_base \<Longrightarrow>
     (ts \<noteq> [] \<longrightarrow> nodes_at S (Suc h) (parent_nodes S (Suc h) ns (Some (sum_summaries S (map node_summary ts), map node_summary ts, ts))) \<and>
       concat (map flat (parent_nodes S (Suc h) ns (Some (sum_summaries S (map node_summary ts), map node_summary ts, ts)))) =
         concat (map flat (ts @ ns))) \<and>
     nodes_at S (Suc h) (parent_nodes S (Suc h) ns None) \<and>
     concat (map flat (parent_nodes S (Suc h) ns None)) = concat (map flat ns)"
proof (induction ns arbitrary: ts)
  case Nil
  then show ?case by (simp add: internal_node less_imp_le)
next
  case (Cons n ns)
  have step: "nodes_at S (Suc h) (parent_nodes S (Suc h) (n # ns) (Some (sum_summaries S (map node_summary us), map node_summary us, us))) \<and>
      concat (map flat (parent_nodes S (Suc h) (n # ns) (Some (sum_summaries S (map node_summary us), map node_summary us, us)))) =
        concat (map flat (us @ n # ns))" if us: "nodes_at S h us" "length us < 2 * tree_base" for us
  proof -
    let ?us = "us @ [n]"
    have sum: "add_summary S (sum_summaries S (map node_summary us)) (node_summary n) = sum_summaries S (map node_summary ?us)"
      by (simp add: sum_append)
    have at: "nodes_at S h ?us" "nodes_at S h ns" using us Cons.prems by simp_all
    have sm: "map node_summary us @ [node_summary n] = map node_summary ?us" by simp
    show ?thesis
    proof (cases "length ?us = 2 * tree_base")
      case True
      then show ?thesis
        using Cons.IH[OF at(2), of "[]"] internal_node[OF _ _ at(1)]
        by (simp only: parent_nodes.simps Let_def option.case prod.case sum sm) (simp add: tree_base_def)
    next
      case False
      then show ?thesis
        using Cons.IH[OF at(2) at(1)] us
        by (simp only: parent_nodes.simps Let_def option.case prod.case sum sm) simp
    qed
  qed
  have eq: "parent_nodes S (Suc h) (n # ns) None = parent_nodes S (Suc h) (n # ns) (Some (summary_zero S, [], []))" by simp
  show ?case using step[OF Cons.prems(2,3)] step[of "[]"] unfolding eq by (simp add: tree_base_def del: parent_nodes.simps)
qed

lemma build_up_spec:
  "nodes_at S h ns \<Longrightarrow> \<exists>k. nodes_at S k (build_up S h ns) \<and> concat (map flat (build_up S h ns)) = concat (map flat ns) \<and>
     length (build_up S h ns) \<le> 1"
proof (induction ns arbitrary: h rule: length_induct)
  case (1 ns)
  show ?case
  proof (cases "length ns > 1")
    case True
    let ?ps = "parent_nodes S (Suc h) ns None"
    have p: "nodes_at S (Suc h) ?ps" "concat (map flat ?ps) = concat (map flat ns)"
      using parent_nodes_spec[OF 1(2), of "[]"] by (simp_all add: tree_base_def)
    have "length ?ps < length ns" using length_parent_nodes[of S "Suc h" ns] True by simp
    then show ?thesis using 1(1)[rule_format, OF _ p(1)] p(2) True by (simp add: build_up.simps[of S h ns])
  next
    case False
    then show ?thesis using 1(2) by (intro exI[of _ h]) (simp add: build_up.simps[of S h ns])
  qed
qed

lemma from_iter_spec: "well_formed S (st_from_iter S xs) \<and> flat (st_from_iter S xs) = xs"
proof -
  obtain k where k: "nodes_at S k (build_up S 0 (leaf_nodes S xs))"
    "concat (map flat (build_up S 0 (leaf_nodes S xs))) = xs" "length (build_up S 0 (leaf_nodes S xs)) \<le> 1"
    using build_up_spec[of 0 "leaf_nodes S xs"] leaf_nodes_spec[of xs] by auto
  show ?thesis
  proof (cases "build_up S 0 (leaf_nodes S xs)")
    case Nil
    then show ?thesis using k new_spec by (simp add: st_from_iter_def)
  next
    case (Cons n ns)
    then show ?thesis using k by (simp add: st_from_iter_def)
  qed
qed

lemma extend_spec:
  "well_formed S t \<Longrightarrow> \<exists>v. st_extend S xs t = Some v \<and> well_formed S v \<and> flat v = flat t @ xs"
  using append_spec[of t "st_from_iter S xs"] from_iter_spec[of xs] by (auto simp: st_extend_def)

end

section \<open>The height of a dense tree\<close>

lemma dense_size:
  "well_formed S t \<Longrightarrow> dense t \<Longrightarrow> \<not> is_underflowing t \<Longrightarrow> tree_base ^ Suc (node_height t) \<le> length (flat t)"
proof (induction t)
  case (Internal h s cs ts)
  obtain k where t: "h = Suc k" "nodes_at S k ts" using Internal.prems(1) by (auto simp: well_formed_internal)
  have "\<forall>t \<in> set ts. tree_base ^ h \<le> length (flat t)"
    using Internal t by (auto simp: nodes_at_def)
  then have "length ts * tree_base ^ h \<le> sum_list (map (length \<circ> flat) ts)"
    by (induction ts) auto
  moreover have "tree_base * tree_base ^ h \<le> length ts * tree_base ^ h"
    by (rule mult_le_mono1) (use Internal.prems(3) in simp)
  ultimately have "tree_base * tree_base ^ h \<le> sum_list (map (length \<circ> flat) ts)" by (rule le_trans[rotated])
  then show ?case by (simp add: length_concat)
qed simp

lemma dense_height:
  assumes "well_formed S t" "dense t" "0 < node_height t"
  shows "tree_base ^ node_height t \<le> length (flat t)"
proof (cases t)
  case (Internal h s cs ts)
  then obtain k u us where t: "h = Suc k" "ts = u # us" "well_formed S u" "node_height u = k"
    using assms(1) by (cases ts) (auto simp: well_formed_internal)
  then have "tree_base ^ Suc k \<le> length (flat u)" using dense_size[of S u] assms(2) Internal by auto
  then show ?thesis using Internal t by simp
qed (use assms in simp)

section \<open>The ends\<close>

lemma leftmost_leaf_spec:
  "well_formed S t \<Longrightarrow> \<exists>s its ss. leftmost_leaf t = Some (Leaf s its ss) \<and> (\<not> st_is_empty t \<longrightarrow> its \<noteq> []) \<and> (\<exists>r. flat t = its @ r)
     \<and> (is_leaf t \<longrightarrow> flat t = its)"
proof (induction t)
  case (Internal h s cs ts)
  then obtain k u us where t: "ts = u # us" "well_formed S u" "\<not> st_is_empty u"
    by (cases ts) (auto simp: well_formed_internal)
  then show ?case using Internal.IH[of u] by fastforce
qed simp

lemma rightmost_leaf_spec:
  "well_formed S t \<Longrightarrow> \<exists>s its ss. rightmost_leaf t = Some (Leaf s its ss) \<and> (\<not> st_is_empty t \<longrightarrow> its \<noteq> []) \<and> (\<exists>r. flat t = r @ its)
     \<and> (is_leaf t \<longrightarrow> flat t = its)"
proof (induction t)
  case (Internal h s cs ts)
  then obtain u us where r: "rev ts = u # us" by (cases "rev ts") (auto simp: well_formed_internal)
  then have ts: "ts = rev us @ [u]" by (metis rev.simps(2) rev_rev_ident)
  then have "well_formed S u" "\<not> st_is_empty u" "u \<in> set ts" using Internal.prems by (auto simp: well_formed_internal)
  then obtain s' its ss rest where "rightmost_leaf u = Some (Leaf s' its ss)" "its \<noteq> []" "flat u = rest @ its"
    using Internal.IH[of u] by blast
  then show ?case using r ts by auto
qed simp

lemma first_spec: "well_formed S t \<Longrightarrow> st_first t = Some (case flat t of [] \<Rightarrow> None | x # _ \<Rightarrow> Some x)"
  using leftmost_leaf_spec[of S t] by (cases t) (fastforce simp: st_first_def split: list.splits)+

lemma last_spec: "well_formed S t \<Longrightarrow> st_last t = Some (last_opt (flat t))"
  using rightmost_leaf_spec[of S t] by (cases t) (fastforce simp: st_last_def last_opt_def)+

end
