(* ===== verification/Ordering.thy ===== *)
theory Ordering
  imports Prelude
begin

text \<open>
  The results of a comparison, and the binary search of the standard library that takes a comparison of the
  elements with the target, \<open>slice::binary_search_by\<close>: \<open>f i\<close> is the result for the element at \<open>i\<close>.
\<close>

datatype ordering = Less | Equal | Greater

definition compare_ord :: "'a::linorder \<Rightarrow> 'a \<Rightarrow> ordering" where
  "compare_ord a b = (if a < b then Less else if a = b then Equal else Greater)"

function search_base :: "(nat \<Rightarrow> ordering) \<Rightarrow> nat \<Rightarrow> nat \<Rightarrow> nat" where
  "search_base f base sz =
     (if sz \<le> 1 then base
      else let half = sz div 2; mid = base + half in
        search_base f (if f mid = Greater then base else mid) (sz - half))"
  by pat_completeness auto
termination by (relation "measure (\<lambda>(_, _, sz). sz)") auto

declare search_base.simps [simp del]

definition binary_search_by :: "(nat \<Rightarrow> ordering) \<Rightarrow> nat \<Rightarrow> nat + nat" where
  "binary_search_by f n =
     (if n = 0 then Inl 0
      else let base = search_base f 0 n in
        if f base = Equal then Inr base else Inl (if f base = Less then base + 1 else base))"

text \<open>The elements below the target come first, those above it last.\<close>

definition ordered_by :: "(nat \<Rightarrow> ordering) \<Rightarrow> nat \<Rightarrow> bool" where
  "ordered_by f n \<longleftrightarrow>
     (\<forall>i j. i < j \<longrightarrow> j < n \<longrightarrow> (f j = Less \<longrightarrow> f i = Less) \<and> (f i = Greater \<longrightarrow> f j = Greater))"

lemma ordered_byD:
  "ordered_by f n \<Longrightarrow> i < j \<Longrightarrow> j < n \<Longrightarrow> f j = Less \<Longrightarrow> f i = Less"
  "ordered_by f n \<Longrightarrow> i < j \<Longrightarrow> j < n \<Longrightarrow> f i = Greater \<Longrightarrow> f j = Greater"
  by (simp_all add: ordered_by_def)

lemma search_base_spec:
  "ordered_by f n \<Longrightarrow> 0 < sz \<Longrightarrow> base + sz \<le> n \<Longrightarrow> (0 < base \<longrightarrow> f base \<noteq> Greater) \<Longrightarrow>
     (\<forall>i < n. base + sz \<le> i \<longrightarrow> f i = Greater) \<Longrightarrow>
     search_base f base sz < n \<and> (0 < search_base f base sz \<longrightarrow> f (search_base f base sz) \<noteq> Greater) \<and>
     (\<forall>i < n. search_base f base sz < i \<longrightarrow> f i = Greater)"
proof (induction f base sz rule: search_base.induct)
  case (1 f base sz)
  show ?case
  proof (cases "sz \<le> 1")
    case True
    then show ?thesis using 1(3-) by (subst (1 2 3 4) search_base.simps) auto
  next
    case False
    let ?half = "sz div 2"
    let ?base = "if f (base + ?half) = Greater then base else base + ?half"
    have mid: "base + ?half < n" "0 < ?half" "?half < sz" using 1(4) False by auto
    have hi: "\<forall>i < n. ?base + (sz - ?half) \<le> i \<longrightarrow> f i = Greater"
    proof (intro allI impI)
      fix i assume i: "i < n" "?base + (sz - ?half) \<le> i"
      show "f i = Greater"
      proof (cases "f (base + ?half) = Greater")
        case True
        then have "base + ?half \<le> i" using i False by auto
        then show ?thesis using ordered_byD(2)[OF 1(2) _ i(1) True] True by (cases "i = base + ?half") auto
      qed (use i 1(6) mid in auto)
    qed
    have le: "?base + (sz - ?half) \<le> n" using 1(4) mid by auto
    have ng: "0 < ?base \<longrightarrow> f ?base \<noteq> Greater" using 1(5) by auto
    have "0 < sz - ?half" using mid(3) by simp
    note IH = 1(1)[OF False refl refl 1(2) this le ng hi]
    have "search_base f base sz = search_base f ?base (sz - ?half)"
      using False by (subst search_base.simps) (simp add: Let_def)
    then show ?thesis using IH by simp
  qed
qed

text \<open>An element that equals the target, or the place between those below and those above it.\<close>

lemma binary_search_by_spec:
  assumes "ordered_by f n"
  shows "(case binary_search_by f n of
      Inr i \<Rightarrow> i < n \<and> f i = Equal
    | Inl i \<Rightarrow> i \<le> n \<and> (\<forall>j < i. f j = Less) \<and> (\<forall>j < n. i \<le> j \<longrightarrow> f j = Greater))"
proof (cases "n = 0")
  case False
  let ?b = "search_base f 0 n"
  have b: "?b < n" "0 < ?b \<longrightarrow> f ?b \<noteq> Greater" "\<forall>i < n. ?b < i \<longrightarrow> f i = Greater"
    using search_base_spec[OF assms, of n 0] False by auto
  show ?thesis
  proof (cases "f ?b")
    case Less
    then have "\<forall>j < ?b. f j = Less" using ordered_byD(1)[OF assms _ b(1)] by blast
    then show ?thesis using False Less b by (auto simp: binary_search_by_def Let_def less_Suc_eq)
  next
    case Greater
    then have "?b = 0" "\<forall>j < n. f j = Greater" using b by (metis gr0I, metis gr0I neq0_conv)
    then show ?thesis using False Greater by (simp add: binary_search_by_def Let_def)
  qed (use False b(1) in \<open>simp add: binary_search_by_def Let_def\<close>)
qed (simp add: binary_search_by_def)

end
