(* ===== verification/SumCursorSpec.thy ===== *)
theory SumCursorSpec
  imports SumCursor
begin

text \<open>
  What the search and the cursor of a sum tree do, in terms of the list of its items: \<open>pos_at\<close> is the
  position after a list of items, \<open>passed\<close> the items that a seek leaves behind, \<open>locates\<close> the item that
  a stack stands for.  A seek needs a target that is \<open>monotone\<close> over the positions of the tree.
\<close>

section \<open>Positions\<close>

definition pos_at :: "('a, 's) item_impl \<Rightarrow> ('s, 'd) dimension_impl \<Rightarrow> 'd \<Rightarrow> 'a list \<Rightarrow> 'd" where
  "pos_at S D d xs = foldl (dim_add D) d (map (item_summary S) xs)"

lemma pos_at_simps [simp]:
  "pos_at S D d [] = d"
  "pos_at S D d (x # xs) = pos_at S D (dim_add D d (item_summary S x)) xs"
  "pos_at S D d (xs @ ys) = pos_at S D (pos_at S D d xs) ys"
  by (simp_all add: pos_at_def)

text \<open>The items that a target passes, one by one.\<close>

fun passed :: "('a, 's) item_impl \<Rightarrow> ('s, 'd) dimension_impl \<Rightarrow> ('d \<Rightarrow> bool) \<Rightarrow> 'd \<Rightarrow> 'a list \<Rightarrow> 'a list" where
  "passed S D p d [] = []"
| "passed S D p d (x # xs) =
     (let e = dim_add D d (item_summary S x) in if p e then x # passed S D p e xs else [])"

text \<open>A target that passes the end of a run of items passes the end of every part of it.\<close>

definition monotone_target :: "('a, 's) item_impl \<Rightarrow> ('s, 'd) dimension_impl \<Rightarrow> ('d \<Rightarrow> bool) \<Rightarrow> 'd \<Rightarrow> 'a list \<Rightarrow> bool" where
  "monotone_target S D p d xs \<longleftrightarrow>
     (\<forall>us vs ws. xs = us @ vs @ ws \<and> us \<noteq> [] \<and> p (pos_at S D d (us @ vs)) \<longrightarrow> p (pos_at S D d us))"

lemma monotone_left: "monotone_target S D p d (xs @ ys) \<Longrightarrow> monotone_target S D p d xs"
  unfolding monotone_target_def by (metis append.assoc)

lemma monotone_right: "monotone_target S D p d (xs @ ys) \<Longrightarrow> monotone_target S D p (pos_at S D d xs) ys"
  unfolding monotone_target_def
proof (intro allI impI)
  fix us vs ws
  assume m: "\<forall>us vs ws. xs @ ys = us @ vs @ ws \<and> us \<noteq> [] \<and> p (pos_at S D d (us @ vs)) \<longrightarrow> p (pos_at S D d us)"
    and a: "ys = us @ vs @ ws \<and> us \<noteq> [] \<and> p (pos_at S D (pos_at S D d xs) (us @ vs))"
  then have "p (pos_at S D d (xs @ us))" using m[rule_format, of "xs @ us" vs ws] by simp
  then show "p (pos_at S D (pos_at S D d xs) us)" by simp
qed

lemma monotone_first:
  "monotone_target S D p d (x # xs) \<Longrightarrow> p (pos_at S D d (x # us)) \<Longrightarrow> xs = us @ vs \<Longrightarrow> p (dim_add D d (item_summary S x))"
  unfolding monotone_target_def by (drule spec[of _ "[x]"], drule spec[of _ us], drule spec[of _ vs]) simp

lemma passed_all:
  "monotone_target S D p d xs \<Longrightarrow> xs \<noteq> [] \<Longrightarrow> p (pos_at S D d xs) \<Longrightarrow> passed S D p d xs = xs"
proof (induction xs arbitrary: d)
  case (Cons x xs)
  have "p (dim_add D d (item_summary S x))"
    using monotone_first[OF Cons.prems(1,3), of "[]"] by simp
  moreover have "monotone_target S D p (dim_add D d (item_summary S x)) xs"
    using monotone_right[of S D p d "[x]" xs] Cons.prems(1) by simp
  ultimately show ?case using Cons by (cases "xs = []") (simp_all add: Let_def)
qed simp

lemma passed_append: "passed S D p d xs = xs \<Longrightarrow> passed S D p d (xs @ ys) = xs @ passed S D p (pos_at S D d xs) ys"
  by (induction xs arbitrary: d) (auto simp: Let_def split: if_splits)

lemma passed_prefix: "\<exists>ys. xs = passed S D p d xs @ ys"
  by (induction xs arbitrary: d) (auto simp: Let_def)

lemma passed_length: "length (passed S D p d xs) \<le> length xs"
  using passed_prefix[of xs S D p d] by (metis le_add1 length_append)

lemma passed_take: "passed S D p d xs = take (length (passed S D p d xs)) xs"
  using passed_prefix[of xs S D p d] by (metis append_eq_conv_conj)

lemma passed_end: "passed S D p d xs = xs \<Longrightarrow> xs \<noteq> [] \<Longrightarrow> p (pos_at S D d xs)"
proof (induction xs arbitrary: d)
  case (Cons x xs)
  then show ?case by (cases "xs = []") (auto simp: Let_def split: if_splits)
qed simp

lemma passed_stop: "passed S D p d xs \<noteq> xs \<Longrightarrow> passed S D p d (xs @ ys) = passed S D p d xs"
  by (induction xs arbitrary: d) (auto simp: Let_def split: if_splits)

lemma passed_less: "passed S D p d xs \<noteq> xs \<Longrightarrow> length (passed S D p d xs) < length xs"
  using passed_prefix[of xs S D p d] by (metis append_Nil2 length_append length_greater_0_conv less_add_same_cancel1)

lemma passed_next:
  "passed S D p d xs \<noteq> xs \<Longrightarrow> \<not> p (pos_at S D d (take (Suc (length (passed S D p d xs))) xs))"
  by (induction xs arbitrary: d) (auto simp: Let_def split: if_splits)

lemma not_passes: "\<not> passes cmp b d \<longleftrightarrow> cmp d = Less \<or> (cmp d = Equal \<and> b = Left)"
  by (cases "cmp d"; cases b) (auto simp: passes_def)

text \<open>The laws of a dimension: adding one summary after the other is adding their sum.\<close>

locale dimension_laws = summary_laws S for S :: "('a, 's) item_impl" +
  fixes D :: "('s, 'd) dimension_impl"
  assumes dim_assoc: "dim_add D (dim_add D d a) b = dim_add D d (add_summary S a b)"
begin

lemma foldl_dim: "ss \<noteq> [] \<Longrightarrow> foldl (dim_add D) d ss = dim_add D d (sum_summaries S ss)"
proof (induction ss rule: rev_induct)
  case (snoc s ss)
  then show ?case by (cases "ss = []") (simp_all add: sum_append dim_assoc)
qed simp

lemma dim_tree: "well_formed S t \<Longrightarrow> \<not> st_is_empty t \<Longrightarrow> dim_add D d (node_summary t) = pos_at S D d (flat t)"
  by (simp add: summary_flat pos_at_def foldl_dim flat_nonempty)

lemma dim_trees: "nodes_at S h ts \<Longrightarrow> foldl (dim_add D) d (map node_summary ts) = pos_at S D d (concat (map flat ts))"
proof (induction ts arbitrary: d)
  case (Cons t ts)
  then show ?case using dim_tree[of t d] by simp
qed simp

section \<open>Finding an item\<close>

definition scan :: "('d \<Rightarrow> bool) \<Rightarrow> 'd \<Rightarrow> 'a list \<Rightarrow> 'd \<times> ('a \<times> 'd) option" where
  "scan p d xs =
     (let k = length (passed S D p d xs) in
      (pos_at S D d (take k xs), if k < length xs then Some (xs ! k, pos_at S D d (take (Suc k) xs)) else None))"

lemma scan_stop: "passed S D p d xs \<noteq> xs \<Longrightarrow> scan p d (xs @ ys) = scan p d xs"
  using passed_less[of S D p d xs] by (simp add: scan_def passed_stop nth_append Let_def)

lemma scan_pass: "passed S D p d xs = xs \<Longrightarrow> scan p d (xs @ ys) = scan p (pos_at S D d xs) ys"
  by (simp add: scan_def passed_append Let_def)

lemma scan_Cons:
  "scan p d (x # xs) =
     (if p (dim_add D d (item_summary S x)) then scan p (dim_add D d (item_summary S x)) xs
      else (d, Some (x, dim_add D d (item_summary S x))))"
  by (simp add: scan_def Let_def)

lemma find_items_spec:
  "find_items D cmp b False d its (map (item_summary S) its) = scan (passes cmp b) d its"
  by (induction its arbitrary: d) (auto simp: scan_Cons Let_def not_passes[symmetric], simp add: scan_def)

lemma find_children_spec:
  assumes "\<And>d t. t \<in> set ts \<Longrightarrow> monotone_target S D (passes cmp b) d (flat t) \<Longrightarrow>
      find_recurse D cmp b False d t = scan (passes cmp b) d (flat t)"
    "nodes_at S h ts" "monotone_target S D (passes cmp b) d (concat (map flat ts))"
  shows "find_children D cmp b False d ts (map node_summary ts) = scan (passes cmp b) d (concat (map flat ts))"
  using assms
proof (induction ts arbitrary: d)
  case (Cons t ts)
  have t: "dim_add D d (node_summary t) = pos_at S D d (flat t)" "flat t \<noteq> []"
    using Cons.prems(2) dim_tree flat_nonempty by auto
  have m: "monotone_target S D (passes cmp b) d (flat t)"
    "monotone_target S D (passes cmp b) (pos_at S D d (flat t)) (concat (map flat ts))"
    using Cons.prems(3) monotone_left monotone_right by fastforce+
  show ?case
  proof (cases "passes cmp b (pos_at S D d (flat t))")
    case True
    then have "passed S D (passes cmp b) d (flat t) = flat t" using passed_all[OF m(1) t(2)] by simp
    then show ?thesis
      using Cons.IH[OF Cons.prems(1) _ m(2)] Cons.prems(2) True t(1) by (simp add: scan_pass not_passes[symmetric] Let_def)
  next
    case False
    then have "passed S D (passes cmp b) d (flat t) \<noteq> flat t" using passed_end t(2) by metis
    then show ?thesis
      using Cons.prems(1)[OF _ m(1)] False t(1) by (simp add: scan_stop not_passes[symmetric] Let_def)
  qed
qed (simp add: scan_def)

lemma find_recurse_spec:
  "well_formed S t \<Longrightarrow> monotone_target S D (passes cmp b) d (flat t) \<Longrightarrow>
     find_recurse D cmp b False d t = scan (passes cmp b) d (flat t)"
proof (induction t arbitrary: d)
  case (Internal h s cs ts)
  then obtain k where "nodes_at S k ts" "cs = map node_summary ts" by (auto simp: well_formed_internal)
  then show ?case
    using find_children_spec[of ts cmp b k d] Internal by (auto simp: nodes_at_def)
qed (simp add: find_items_spec)

lemma find_spec:
  assumes "well_formed S t" "flat t \<noteq> []" "monotone_target S D (passes cmp b) (dim_zero D) (flat t)"
  defines "k \<equiv> length (passed S D (passes cmp b) (dim_zero D) (flat t))"
  shows "st_find D cmp b t =
    (if k < length (flat t)
     then (pos_at S D (dim_zero D) (take k (flat t)), pos_at S D (dim_zero D) (take (Suc k) (flat t)), Some (flat t ! k))
     else (pos_at S D (dim_zero D) (flat t), pos_at S D (dim_zero D) (flat t), None))"
proof -
  have ne: "\<not> st_is_empty t" using assms(1,2) flat_empty_iff by blast
  note e = dim_tree[OF assms(1) ne, of "dim_zero D"]
  show ?thesis
  proof (cases "passes cmp b (pos_at S D (dim_zero D) (flat t))")
    case True
    then have "k = length (flat t)" unfolding k_def using passed_all[OF assms(3,2)] by simp
    then show ?thesis using True by (simp add: st_find_def e Let_def passes_def)
  next
    case False
    then have "passed S D (passes cmp b) (dim_zero D) (flat t) \<noteq> flat t" using passed_end assms(2) by metis
    then have "k < length (flat t)" unfolding k_def by (rule passed_less)
    then show ?thesis
      using False find_recurse_spec[OF assms(1,3)]
      by (simp add: st_find_def e Let_def passes_def scan_def k_def)
  qed
qed

end

section \<open>The item a stack stands for\<close>

inductive locates ::
  "('a, 's) item_impl \<Rightarrow> ('s, 'd) dimension_impl \<Rightarrow> ('a, 's) sum_tree \<Rightarrow> 'd \<Rightarrow> nat \<Rightarrow> ('a, 's, 'd) stack_entry list \<Rightarrow> bool"
  for S :: "('a, 's) item_impl" and D :: "('s, 'd) dimension_impl" where
  locates_leaf: "k < length its \<Longrightarrow> locates S D (Leaf s its ss) d k [\<lparr>entry_tree = Leaf s its ss, entry_index = k, entry_position = e\<rparr>]"
| locates_internal:
    "ts = ls @ t # rs \<Longrightarrow> locates S D t (pos_at S D d (concat (map flat ls))) k st \<Longrightarrow>
     i = length ls \<Longrightarrow> j = length (concat (map flat ls)) + k \<Longrightarrow>
     locates S D (Internal h s cs ts) d j
       (st @ [\<lparr>entry_tree = Internal h s cs ts, entry_index = i,
               entry_position = pos_at S D d (concat (map flat ls))\<rparr>])"

lemma locates_less: "locates S D t d k st \<Longrightarrow> k < length (flat t)"
  by (induction rule: locates.induct) auto

lemma locates_length: "locates S D t d k st \<Longrightarrow> well_formed S t \<Longrightarrow> length st = Suc (node_height t)"
proof (induction rule: locates.induct)
  case (locates_internal ts ls t rs d k st i j h s cs)
  then show ?case by (auto simp: well_formed_internal)
qed simp

lemma locates_top:
  "locates S D t d k st \<Longrightarrow> well_formed S t \<Longrightarrow>
     \<exists>i e s its ss. st = \<lparr>entry_tree = Leaf s its ss, entry_index = i, entry_position = e\<rparr> # tl st \<and> i < length its \<and>
       its ! i = flat t ! k \<and> ss = map (item_summary S) its"
proof (induction rule: locates.induct)
  case (locates_internal ts ls t rs d k st i j h s cs)
  have wt: "well_formed S t" using locates_internal by (auto simp: well_formed_internal)
  have "k < length (flat t)" using locates_internal(2) by (rule locates_less)
  then have "flat (Internal h s cs ts) ! j = flat t ! k" using locates_internal(1,4) by (simp add: nth_append)
  then show ?case using locates_internal.IH[OF wt] by (cases st) auto
qed simp

text \<open>The first item from \<open>k\<close> on that satisfies the filter, and the last before \<open>k\<close>.\<close>

definition next_index :: "('a \<Rightarrow> bool) \<Rightarrow> 'a list \<Rightarrow> nat \<Rightarrow> nat" where
  "next_index q xs k = k + length (takeWhile (\<lambda>x. \<not> q x) (drop k xs))"

lemma next_index_le: "k \<le> length xs \<Longrightarrow> next_index q xs k \<le> length xs"
  unfolding next_index_def using length_takeWhile_le[of _ "drop k xs"] by (metis add_le_cancel_left length_drop le_add_diff_inverse)

lemma next_index_Nil [simp]: "next_index q [] 0 = 0"
  by (simp add: next_index_def)

lemma next_index_0_Cons: "next_index q (x # xs) 0 = (if q x then 0 else Suc (next_index q xs 0))"
  by (simp add: next_index_def)

lemma next_index_end: "next_index q xs (length xs) = length xs"
  by (simp add: next_index_def)

lemma next_index_append_in: "k \<le> length xs \<Longrightarrow> next_index q xs k < length xs \<Longrightarrow> next_index q (xs @ ys) k = next_index q xs k"
proof -
  assume k: "k \<le> length xs" and l: "next_index q xs k < length xs"
  have "\<exists>x \<in> set (drop k xs). q x"
  proof (rule ccontr)
    assume "\<not> ?thesis"
    then have "takeWhile (\<lambda>x. \<not> q x) (drop k xs) = drop k xs" by (simp add: takeWhile_eq_all_conv)
    then have "length (takeWhile (\<lambda>x. \<not> q x) (drop k xs)) = length (drop k xs)" by (rule arg_cong)
    then show False using k l by (simp add: next_index_def)
  qed
  then show ?thesis using k by (auto simp: next_index_def takeWhile_append)
qed

lemma next_index_append_out:
  "k \<le> length xs \<Longrightarrow> next_index q xs k = length xs \<Longrightarrow> next_index q (xs @ ys) k = length xs + next_index q ys 0"
proof -
  assume k: "k \<le> length xs" and l: "next_index q xs k = length xs"
  then have "length (takeWhile (\<lambda>x. \<not> q x) (drop k xs)) = length (drop k xs)" by (simp add: next_index_def)
  then have "takeWhile (\<lambda>x. \<not> q x) (drop k xs) = drop k xs"
    by (metis take_all order_refl takeWhile_eq_take)
  then have "\<forall>x \<in> set (drop k xs). \<not> q x" by (simp add: takeWhile_eq_all_conv)
  then show ?thesis using k by (simp add: next_index_def takeWhile_append)
qed

lemma next_index_shift: "next_index q (xs @ ys) (length xs + k) = length xs + next_index q ys k"
  by (simp add: next_index_def)

text \<open>A filter on summaries must hold of a subtree as soon as it holds of one of its items.\<close>

definition sound_filter :: "('a, 's) item_impl \<Rightarrow> ('s \<Rightarrow> bool) \<Rightarrow> bool" where
  "sound_filter S f \<longleftrightarrow>
     (\<forall>t. well_formed S t \<and> (\<exists>x \<in> set (flat t). f (item_summary S x)) \<longrightarrow> f (node_summary t))"

lemma sound_filter_True [simp]: "sound_filter S (\<lambda>_. True)"
  by (simp add: sound_filter_def)

context dimension_laws
begin

section \<open>Moving forward\<close>

lemma skip_items_spec:
  "skip_summaries D f (map (item_summary S) xs) i e pos =
     (i + next_index (f \<circ> item_summary S) xs 0,
      pos_at S D e (take (next_index (f \<circ> item_summary S) xs 0) xs),
      pos_at S D pos (take (next_index (f \<circ> item_summary S) xs 0) xs))"
  by (induction xs arbitrary: i e pos) (auto simp: next_index_0_Cons)

lemma skip_children_spec:
  "nodes_at S h ts \<Longrightarrow>
     \<exists>us vs. ts = us @ vs \<and> (vs \<noteq> [] \<longrightarrow> f (node_summary (hd vs))) \<and> (\<forall>u \<in> set us. \<not> f (node_summary u)) \<and>
       skip_summaries D f (map node_summary ts) i e pos =
         (i + length us, pos_at S D e (concat (map flat us)), pos_at S D pos (concat (map flat us)))"
proof (induction ts arbitrary: i e pos)
  case (Cons t ts)
  show ?case
  proof (cases "f (node_summary t)")
    case True
    then show ?thesis by (intro exI[of _ "[]"] exI[of _ "t # ts"]) simp
  next
    case False
    obtain us vs where u: "ts = us @ vs" "vs \<noteq> [] \<longrightarrow> f (node_summary (hd vs))" "\<forall>u \<in> set us. \<not> f (node_summary u)"
      "skip_summaries D f (map node_summary ts) (Suc i) (dim_add D e (node_summary t)) (dim_add D pos (node_summary t)) =
         (Suc i + length us, pos_at S D (dim_add D e (node_summary t)) (concat (map flat us)),
          pos_at S D (dim_add D pos (node_summary t)) (concat (map flat us)))"
      using Cons.IH[of "Suc i" "dim_add D e (node_summary t)" "dim_add D pos (node_summary t)"] Cons.prems
      unfolding nodes_at_simps by blast
    then show ?thesis
      using False Cons.prems dim_tree[of t] by (intro exI[of _ "t # us"] exI[of _ vs]) simp
  qed
qed simp

lemma unfiltered_trees:
  "sound_filter S f \<Longrightarrow> nodes_at S h us \<Longrightarrow> \<forall>u \<in> set us. \<not> f (node_summary u) \<Longrightarrow>
     \<forall>x \<in> set (concat (map flat us)). \<not> f (item_summary S x)"
  by (auto simp: sound_filter_def nodes_at_def)

lemma next_index_none: "\<forall>x \<in> set xs. \<not> q x \<Longrightarrow> next_index q xs 0 = length xs"
  by (simp add: next_index_def takeWhile_eq_all_conv[THEN iffD2])

text \<open>What the loop does from an entry for the tree \<open>t\<close> at position \<open>d\<close>, having still to look from item
  \<open>k\<close> on: it stops at the next item of the filter, or leaves the tree.\<close>

definition walks ::
  "('s \<Rightarrow> bool) \<Rightarrow> ('a, 's) sum_tree \<Rightarrow> 'd \<Rightarrow> nat \<Rightarrow> ('a, 's, 'd) stack_entry list \<Rightarrow>
     (('a, 's, 'd) stack_entry list \<times> 'd) option \<Rightarrow> bool" where
  "walks f t d k rest r \<longleftrightarrow>
     (let j = next_index (f \<circ> item_summary S) (flat t) k in
      if j < length (flat t)
      then (\<exists>st. locates S D t d j st \<and> r = Some (st @ rest, pos_at S D d (take j (flat t))))
      else r = forward_loop D f rest (pos_at S D d (flat t)) False)"

lemma walks_stop:
  "next_index (f \<circ> item_summary S) (flat t) k = j \<Longrightarrow> locates S D t d j st \<Longrightarrow>
     r = Some (st @ rest, pos_at S D d (take j (flat t))) \<Longrightarrow> walks f t d k rest r"
  using locates_less[of S D t d j st] by (auto simp: walks_def)

lemma walks_cong:
  "next_index (f \<circ> item_summary S) (flat t) k = next_index (f \<circ> item_summary S) (flat t) l \<Longrightarrow>
     walks f t d k rest r \<longleftrightarrow> walks f t d l rest r"
  by (simp add: walks_def)

lemma forward_ascend:
  "entry_tree e = Internal h s cs ts \<Longrightarrow>
     forward_loop D f (e # rest) pos False =
     forward_loop D f (e\<lparr>entry_index := Suc (entry_index e), entry_position := pos\<rparr> # rest) pos True"
  by (cases e, subst (1 2) forward_loop.simps) (simp split: prod.split option.split)

lemma forward_children:
  assumes IH: "\<And>t d rest. t \<in> set rs \<Longrightarrow> well_formed S t \<Longrightarrow> length rest + node_height t < 16 \<Longrightarrow>
      walks f t d 0 rest (forward_loop D f (\<lparr>entry_tree = t, entry_index = 0, entry_position = d\<rparr> # rest) d True)"
    and f: "sound_filter S f" and rest: "length rest + Suc h < 16" "nodes_at S h (ls @ rs)"
    and node: "node = Internal (Suc h) s (map node_summary (ls @ rs)) (ls @ rs)"
    and d': "d' = pos_at S D d (concat (map flat ls))"
    and e: "e = \<lparr>entry_tree = node, entry_index = length ls, entry_position = d'\<rparr>"
    and k: "k = length (concat (map flat ls))"
  shows "walks f node d k rest (forward_loop D f (e # rest) d' True)"
  using IH rest(2) node d' e k
proof (induction "length rs" arbitrary: ls rs e d' k rule: less_induct)
  case less
  have "nodes_at S h rs" using less.prems(2) by simp
  then obtain us vs where u: "rs = us @ vs" "vs \<noteq> [] \<longrightarrow> f (node_summary (hd vs))" "\<forall>u \<in> set us. \<not> f (node_summary u)"
    "skip_summaries D f (map node_summary rs) (length ls) d' d' =
       (length ls + length us, pos_at S D d' (concat (map flat us)), pos_at S D d' (concat (map flat us)))"
    using skip_children_spec[of h rs f "length ls" d' d'] by blast
  define q where "q = f \<circ> item_summary S"
  have us: "\<forall>x \<in> set (concat (map flat us)). \<not> q x"
    using unfiltered_trees[OF f _ u(3), of h] less.prems(2) u(1) by (simp add: q_def)
  have k: "next_index q (flat node) k = k + length (concat (map flat us)) + next_index q (concat (map flat vs)) 0"
  proof -
    have "flat node = concat (map flat ls) @ concat (map flat us) @ concat (map flat vs)"
      using less.prems(3) u(1) by simp
    then have "next_index q (flat node) k = k + next_index q (concat (map flat us) @ concat (map flat vs)) 0"
      using next_index_shift[of q "concat (map flat ls)" _ 0] less.prems(6) by simp
    then show ?thesis
      using next_index_append_out[of 0 "concat (map flat us)" q] next_index_none[OF us] by simp
  qed
  let ?d = "pos_at S D d' (concat (map flat us))"
  show ?case
  proof (cases vs)
    case Nil
    then have "forward_loop D f (e # rest) d' True = forward_loop D f rest ?d False"
      using u less.prems(3,5) by (subst forward_loop.simps) (simp add: nth_opt_def)
    moreover have "?d = pos_at S D d (flat node)" using less.prems(3,4) u(1) Nil by simp
    moreover have "next_index q (flat node) k = length (flat node)"
      using k less.prems(3,6) u(1) Nil by (simp add: next_index_def)
    ultimately show ?thesis by (simp add: walks_def q_def[symmetric])
  next
    case (Cons t ws)
    have t: "well_formed S t" "node_height t = h" "t \<in> set rs" using less.prems(2) u(1) Cons by auto
    define e' where "e' = e\<lparr>entry_index := length ls + length us, entry_position := ?d\<rparr>"
    have loop: "forward_loop D f (e # rest) d' True =
        forward_loop D f (\<lparr>entry_tree = t, entry_index = 0, entry_position = ?d\<rparr> # e' # rest) ?d True"
      using u less.prems(3,5) Cons rest(1)
      by (subst forward_loop.simps) (simp add: e'_def push_entry_def nth_append nth_opt_def)
    have w: "walks f t ?d 0 (e' # rest)
        (forward_loop D f (\<lparr>entry_tree = t, entry_index = 0, entry_position = ?d\<rparr> # e' # rest) ?d True)"
      by (rule less.prems(1)[OF t(3,1)]) (use rest(1) t(2) in simp)
    define j where "j = next_index q (flat t) 0"
    show ?thesis
    proof (cases "j < length (flat t)")
      case True
      then obtain st where st: "locates S D t ?d j st"
        "forward_loop D f (\<lparr>entry_tree = t, entry_index = 0, entry_position = ?d\<rparr> # e' # rest) ?d True =
           Some (st @ e' # rest, pos_at S D ?d (take j (flat t)))"
        using w by (auto simp: walks_def q_def[symmetric] j_def[symmetric] Let_def)
      have "next_index q (concat (map flat vs)) 0 = j"
        using next_index_append_in[of 0 "flat t" q] True by (simp add: Cons j_def)
      then have J: "next_index q (flat node) k = length (concat (map flat (ls @ us))) + j"
        using k less.prems(6) by simp
      have "locates S D node d (length (concat (map flat (ls @ us))) + j)
          (st @ [\<lparr>entry_tree = node, entry_index = length (ls @ us),
            entry_position = pos_at S D d (concat (map flat (ls @ us)))\<rparr>])"
        unfolding less.prems(3)
        by (rule locates_internal[OF _ _ refl refl]) (use st(1) less.prems(4) u(1) Cons in simp_all)
      moreover have "take (length (concat (map flat (ls @ us))) + j) (flat node) =
          concat (map flat (ls @ us)) @ take j (flat t)"
        using less.prems(3) u(1) Cons True by simp
      ultimately show ?thesis
        using J True st(2) loop less.prems(3-5) u(1) Cons
        by (auto simp: walks_def q_def[symmetric] e'_def)
    next
      case False
      then have j: "j = length (flat t)" using next_index_le[of 0 "flat t" q] by (simp add: j_def)
      then have "forward_loop D f (e # rest) d' True = forward_loop D f (e' # rest) (pos_at S D ?d (flat t)) False"
        using w loop by (simp add: walks_def q_def[symmetric] j_def[symmetric])
      also have "\<dots> = forward_loop D f
          (\<lparr>entry_tree = node, entry_index = length (ls @ us @ [t]), entry_position = pos_at S D ?d (flat t)\<rparr> # rest)
          (pos_at S D ?d (flat t)) True"
        using forward_ascend[of e' "Suc h" s] less.prems(3,5) by (simp add: e'_def)
      finally have step: "forward_loop D f (e # rest) d' True = \<dots>" .
      have "walks f node d (length (concat (map flat (ls @ us @ [t])))) rest (forward_loop D f
          (\<lparr>entry_tree = node, entry_index = length (ls @ us @ [t]), entry_position = pos_at S D ?d (flat t)\<rparr> # rest)
          (pos_at S D ?d (flat t)) True)"
        by (rule less.hyps[of ws "ls @ us @ [t]"])
          (use less.prems u(1) Cons in simp_all)
      moreover have "next_index q (flat node) k = next_index q (flat node) (length (concat (map flat (ls @ us @ [t]))))"
      proof -
        have "flat node = concat (map flat (ls @ us @ [t])) @ concat (map flat ws)"
          using less.prems(3) u(1) Cons by simp
        then have "next_index q (flat node) (length (concat (map flat (ls @ us @ [t])))) =
            length (concat (map flat (ls @ us @ [t]))) + next_index q (concat (map flat ws)) 0"
          using next_index_shift[of q "concat (map flat (ls @ us @ [t]))" "concat (map flat ws)" 0] by simp
        moreover have "next_index q (concat (map flat vs)) 0 = length (flat t) + next_index q (concat (map flat ws)) 0"
          using next_index_append_out[of 0 "flat t" q] j by (simp add: Cons j_def)
        ultimately show ?thesis using k less.prems(6) by simp
      qed
      ultimately show ?thesis using step walks_cong[of f node k] by (simp add: q_def)
    qed
  qed
qed

lemma forward_fresh:
  assumes f: "sound_filter S f"
  shows "well_formed S t \<Longrightarrow> length rest + node_height t < 16 \<Longrightarrow>
    walks f t d 0 rest (forward_loop D f (\<lparr>entry_tree = t, entry_index = 0, entry_position = d\<rparr> # rest) d True)"
proof (induction t arbitrary: d rest)
  case (Leaf s its ss)
  define j where "j = next_index (f \<circ> item_summary S) its 0"
  have "ss = map (item_summary S) its" using Leaf.prems by simp
  then have loop: "forward_loop D f (\<lparr>entry_tree = Leaf s its ss, entry_index = 0, entry_position = d\<rparr> # rest) d True =
      (if j < length its
       then Some (\<lparr>entry_tree = Leaf s its ss, entry_index = j, entry_position = pos_at S D d (take j its)\<rparr> # rest,
              pos_at S D d (take j its))
       else forward_loop D f rest (pos_at S D d (take j its)) False)"
    by (subst forward_loop.simps) (simp add: skip_items_spec j_def)
  show ?case
  proof (cases "j < length its")
    case True
    have "locates S D (Leaf s its ss) d j
        [\<lparr>entry_tree = Leaf s its ss, entry_index = j, entry_position = pos_at S D d (take j its)\<rparr>]"
      by (rule locates_leaf) (rule True)
    then show ?thesis using loop True by (auto simp: walks_def j_def[symmetric])
  next
    case False
    then show ?thesis using loop by (simp add: walks_def j_def[symmetric])
  qed
next
  case (Internal h s cs ts)
  then obtain k where k: "h = Suc k" "nodes_at S k ts" "cs = map node_summary ts" by (auto simp: well_formed_internal)
  show ?case
    by (rule forward_children[where ls = "[]" and rs = ts and h = k, OF Internal.IH f])
      (use k Internal.prems in simp_all)
qed

lemma forward_resume:
  assumes f: "sound_filter S f"
  shows "locates S D t d k st \<Longrightarrow> well_formed S t \<Longrightarrow> length rest + node_height t < 16 \<Longrightarrow>
    walks f t d (Suc k) rest (forward_loop D f (st @ rest) (pos_at S D d (take k (flat t))) False)"
proof (induction arbitrary: rest rule: locates.induct)
  case (locates_leaf k its s ss d e)
  define j where "j = next_index (f \<circ> item_summary S) (drop (Suc k) its) 0"
  have ss: "ss = map (item_summary S) its" using locates_leaf by simp
  have J: "next_index (f \<circ> item_summary S) its (Suc k) = Suc k + j" by (simp add: j_def next_index_def)
  have d: "dim_add D (pos_at S D d (take k its)) (ss ! k) = pos_at S D d (take (Suc k) its)"
    using locates_leaf(1) ss by (simp add: take_Suc_conv_app_nth)
  define X where "X = pos_at S D (pos_at S D d (take (Suc k) its)) (take j (drop (Suc k) its))"
  have X: "X = pos_at S D d (take (Suc k + j) its)"
    unfolding X_def by (metis pos_at_simps(3) take_add)
  let ?e' = "pos_at S D (dim_add D e (ss ! k)) (take j (drop (Suc k) its))"
  have loop: "forward_loop D f (\<lparr>entry_tree = Leaf s its ss, entry_index = k, entry_position = e\<rparr> # rest)
        (pos_at S D d (take k its)) False =
      (if Suc k + j < length its
       then Some (\<lparr>entry_tree = Leaf s its ss, entry_index = Suc k + j, entry_position = ?e'\<rparr> # rest, X)
       else forward_loop D f rest X False)"
    using locates_leaf(1) d ss
    by (subst forward_loop.simps) (simp add: nth_opt_def drop_map skip_items_spec j_def[symmetric] X_def)
  show ?case
  proof (cases "Suc k + j < length its")
    case True
    have "locates S D (Leaf s its ss) d (Suc k + j)
        [\<lparr>entry_tree = Leaf s its ss, entry_index = Suc k + j, entry_position = ?e'\<rparr>]"
      by (rule locates.locates_leaf) (rule True)
    then show ?thesis using loop True J X by (auto simp: walks_def)
  next
    case False
    then show ?thesis using loop J X by (simp add: walks_def)
  qed
next
  case (locates_internal ts ls t rs d k st i j h s cs)
  let ?node = "Internal h s cs ts"
  let ?d = "pos_at S D d (concat (map flat ls))"
  define q where "q = f \<circ> item_summary S"
  obtain m where node: "h = Suc m" "nodes_at S m ts" "cs = map node_summary ts"
    using locates_internal.prems(1) by (auto simp: well_formed_internal)
  have t: "well_formed S t" "node_height t = m" "k < length (flat t)"
    using node(2) locates_internal(1) locates_less[OF locates_internal(2)] by simp_all
  define e where "e = \<lparr>entry_tree = ?node, entry_index = i, entry_position = ?d\<rparr>"
  have w: "walks f t ?d (Suc k) (e # rest) (forward_loop D f (st @ e # rest) (pos_at S D ?d (take k (flat t))) False)"
    by (rule locates_internal.IH[OF t(1)]) (use locates_internal.prems t(2) node(1) in simp)
  have pos: "pos_at S D ?d (take l (flat t)) = pos_at S D d (take (length (concat (map flat ls)) + l) (flat ?node))"
    if "l \<le> length (flat t)" for l
    using that locates_internal(1) by simp
  have K: "next_index q (flat ?node) (Suc j) = length (concat (map flat ls)) + next_index q (flat t @ concat (map flat rs)) (Suc k)"
    using locates_internal(1,4) next_index_shift[of q "concat (map flat ls)" _ "Suc k"] by simp
  have loop: "forward_loop D f ((st @ [e]) @ rest) (pos_at S D d (take j (flat ?node))) False =
      forward_loop D f (st @ e # rest) (pos_at S D ?d (take k (flat t))) False"
    using pos[of k] t(3) locates_internal(4) by simp
  define l where "l = next_index q (flat t) (Suc k)"
  show ?case
  proof (cases "l < length (flat t)")
    case True
    then obtain st' where st': "locates S D t ?d l st'"
      "forward_loop D f (st @ e # rest) (pos_at S D ?d (take k (flat t))) False =
         Some (st' @ e # rest, pos_at S D ?d (take l (flat t)))"
      using w by (auto simp: walks_def q_def[symmetric] l_def[symmetric] Let_def)
    have L: "next_index q (flat ?node) (Suc j) = length (concat (map flat ls)) + l"
      using K next_index_append_in[of "Suc k" "flat t" q] t(3) True by (simp add: l_def)
    have "locates S D ?node d (length (concat (map flat ls)) + l) (st' @ [e])"
      unfolding e_def by (rule locates.locates_internal[OF locates_internal(1) st'(1) locates_internal(3) refl])
    then show ?thesis
      unfolding e_def[symmetric]
      by (rule walks_stop[OF L[unfolded q_def]]) (use True st'(2) loop pos[of l] in simp)
  next
    case False
    then have l: "l = length (flat t)" using next_index_le[of "Suc k" "flat t" q] t(3) by (simp add: l_def)
    let ?d' = "pos_at S D d (concat (map flat (ls @ [t])))"
    have "forward_loop D f (st @ e # rest) (pos_at S D ?d (take k (flat t))) False =
        forward_loop D f (e # rest) ?d' False"
      using w l by (simp add: walks_def q_def[symmetric] l_def[symmetric])
    also have "\<dots> = forward_loop D f (\<lparr>entry_tree = ?node, entry_index = length (ls @ [t]), entry_position = ?d'\<rparr> # rest) ?d' True"
      using forward_ascend[of e h s cs ts] locates_internal(3) by (simp add: e_def)
    finally have step: "forward_loop D f ((st @ [e]) @ rest) (pos_at S D d (take j (flat ?node))) False = \<dots>" using loop by simp
    have "walks f ?node d (length (concat (map flat (ls @ [t])))) rest (forward_loop D f
        (\<lparr>entry_tree = ?node, entry_index = length (ls @ [t]), entry_position = ?d'\<rparr> # rest) ?d' True)"
      by (rule forward_children[where ls = "ls @ [t]" and rs = rs and h = m, OF forward_fresh[OF f] f])
        (use locates_internal.prems node locates_internal(1) in simp_all)
    moreover have "next_index q (flat ?node) (Suc j) = next_index q (flat ?node) (length (concat (map flat (ls @ [t]))))"
    proof -
      have "next_index q (flat ?node) (length (concat (map flat (ls @ [t])))) =
          length (concat (map flat (ls @ [t]))) + next_index q (concat (map flat rs)) 0"
        using next_index_shift[of q "concat (map flat (ls @ [t]))" "concat (map flat rs)" 0] locates_internal(1) by simp
      then show ?thesis
        using K next_index_append_out[of "Suc k" "flat t" q] t(3) l by (simp add: l_def)
    qed
    ultimately show ?thesis
      using step walks_cong[of f ?node "Suc j"] by (simp add: q_def e_def[symmetric])
  qed
qed

end

section \<open>Moving backward\<close>

fun prev_index :: "('a \<Rightarrow> bool) \<Rightarrow> 'a list \<Rightarrow> nat \<Rightarrow> nat option" where
  "prev_index q xs 0 = None"
| "prev_index q xs (Suc k) = (if q (xs ! k) then Some k else prev_index q xs k)"

lemma prev_index_cong: "(\<And>i. i < k \<Longrightarrow> xs ! i = ys ! i) \<Longrightarrow> prev_index q xs k = prev_index q ys k"
  by (induction k) auto

lemma prev_index_left: "k \<le> length xs \<Longrightarrow> prev_index q (xs @ ys) k = prev_index q xs k"
  by (rule prev_index_cong) (simp add: nth_append)

lemma prev_index_shift:
  "prev_index q (xs @ ys) (length xs + k) =
     (case prev_index q ys k of Some j \<Rightarrow> Some (length xs + j) | None \<Rightarrow> prev_index q xs (length xs))"
  by (induction k) (simp_all add: prev_index_left)

lemma prev_index_less: "prev_index q xs k = Some j \<Longrightarrow> j < k \<and> q (xs ! j)"
  by (induction k) (auto split: if_splits simp: less_Suc_eq)

lemma prev_index_none: "prev_index q xs k = None \<longleftrightarrow> (\<forall>j < k. \<not> q (xs ! j))"
  by (induction k) (auto simp: less_Suc_eq)

lemma child_summaries_empty: "well_formed S t \<Longrightarrow> \<not> st_is_empty t \<Longrightarrow> child_summaries t \<noteq> []"
  by (cases t) (auto simp: well_formed_internal)

context dimension_laws
begin

definition retreats ::
  "('s \<Rightarrow> bool) \<Rightarrow> ('a, 's) sum_tree \<Rightarrow> 'd \<Rightarrow> nat \<Rightarrow> ('a, 's, 'd) stack_entry list \<Rightarrow>
     (('a, 's, 'd) stack_entry list \<times> 'd) option \<Rightarrow> bool" where
  "retreats f t d k rest r \<longleftrightarrow>
     (case prev_index (f \<circ> item_summary S) (flat t) k of
        Some j \<Rightarrow> \<exists>st. locates S D t d j st \<and> r = Some (st @ rest, pos_at S D d (take j (flat t)))
      | None \<Rightarrow> r = backward_loop D f rest d False)"

lemma retreats_stop:
  "prev_index (f \<circ> item_summary S) (flat t) k = Some j \<Longrightarrow> locates S D t d j st \<Longrightarrow>
     r = Some (st @ rest, pos_at S D d (take j (flat t))) \<Longrightarrow> retreats f t d k rest r"
  by (auto simp: retreats_def)

lemma backward_descend:
  "backward_loop D f (\<lparr>entry_tree = t, entry_index = i, entry_position = pe\<rparr> # rest) pos True =
   backward_loop D f (\<lparr>entry_tree = t, entry_index = Suc i, entry_position = pe'\<rparr> # rest) pos' False"
  by (subst (1 2) backward_loop.simps) (simp add: Let_def cong: option.case_cong)

lemma backward_items:
  assumes "well_formed S (Leaf s its ss)" "below_position D rest = d"
  shows "i \<le> length its \<Longrightarrow> retreats f (Leaf s its ss) d i rest
    (backward_loop D f (\<lparr>entry_tree = Leaf s its ss, entry_index = i, entry_position = pe\<rparr> # rest) p False)"
proof (induction i arbitrary: pe p)
  case 0
  then show ?case using assms(2) by (subst backward_loop.simps) (simp add: retreats_def)
next
  case (Suc i)
  have ss: "ss = map (item_summary S) its" using assms(1) by simp
  let ?d = "pos_at S D d (take i its)"
  have step: "backward_loop D f (\<lparr>entry_tree = Leaf s its ss, entry_index = Suc i, entry_position = pe\<rparr> # rest) p False =
      (if f (item_summary S (its ! i))
       then Some (\<lparr>entry_tree = Leaf s its ss, entry_index = i, entry_position = ?d\<rparr> # rest, ?d)
       else backward_loop D f (\<lparr>entry_tree = Leaf s its ss, entry_index = i, entry_position = ?d\<rparr> # rest) ?d False)"
    using Suc.prems assms(2) ss by (subst backward_loop.simps) (simp add: nth_opt_def pos_at_def take_map Let_def)
  show ?case
  proof (cases "f (item_summary S (its ! i))")
    case True
    show ?thesis
      by (rule retreats_stop[where st = "[\<lparr>entry_tree = Leaf s its ss, entry_index = i, entry_position = ?d\<rparr>]" and j = i])
        (use True step Suc.prems in \<open>simp_all add: locates.locates_leaf\<close>)
  next
    case False
    then show ?thesis using step Suc.IH[of ?d ?d] Suc.prems by (simp add: retreats_def)
  qed
qed

lemma backward_children:
  assumes IH: "\<And>t d rest pe p. t \<in> set ls \<Longrightarrow> well_formed S t \<Longrightarrow> length rest + node_height t < 16 \<Longrightarrow>
      below_position D rest = d \<Longrightarrow>
      retreats f t d (length (flat t)) rest
        (backward_loop D f (\<lparr>entry_tree = t, entry_index = length (child_summaries t), entry_position = pe\<rparr> # rest) p False)"
    and f: "sound_filter S f" and rest: "length rest + Suc h < 16" "below_position D rest = d"
    and ts: "nodes_at S h (ls @ rs)" "node = Internal (Suc h) s (map node_summary (ls @ rs)) (ls @ rs)"
  shows "retreats f node d (length (concat (map flat ls))) rest
    (backward_loop D f (\<lparr>entry_tree = node, entry_index = length ls, entry_position = pe\<rparr> # rest) p False)"
  using IH ts
proof (induction ls arbitrary: rs pe p rule: rev_induct)
  case Nil
  then show ?case using rest(2) by (subst backward_loop.simps) (simp add: retreats_def)
next
  case (snoc t ls)
  let ?d = "pos_at S D d (concat (map flat ls))"
  let ?e = "\<lparr>entry_tree = node, entry_index = length ls, entry_position = ?d\<rparr>"
  define q where "q = f \<circ> item_summary S"
  have t: "well_formed S t" "\<not> st_is_empty t" "node_height t = h" "nodes_at S h ls" using snoc.prems(2) by simp_all
  have foldl: "foldl (dim_add D) d (map node_summary ls) = ?d" using dim_trees[OF t(4)] .
  have rec: "retreats f node d (length (concat (map flat ls))) rest (backward_loop D f (?e # rest) p' False)" for p'
    by (rule snoc.IH[of "t # rs"]) (use snoc.prems in simp_all)
  have idx: "prev_index q (flat node) (length (concat (map flat (ls @ [t])))) =
      (case prev_index q (flat t) (length (flat t)) of
         Some j \<Rightarrow> Some (length (concat (map flat ls)) + j)
       | None \<Rightarrow> prev_index q (flat node) (length (concat (map flat ls))))"
  proof -
    have "flat node = concat (map flat ls) @ flat t @ concat (map flat rs)" using snoc.prems(3) by simp
    then show ?thesis
      using prev_index_shift[of q "concat (map flat ls)" "flat t @ concat (map flat rs)" "length (flat t)"]
      by (simp add: prev_index_left split: option.split)
  qed
  show ?case
  proof (cases "f (node_summary t)")
    case True
    let ?n = "length (child_summaries t)"
    have n: "child_summaries t \<noteq> []" by (rule child_summaries_empty[OF t(1,2)])
    have "backward_loop D f (\<lparr>entry_tree = node, entry_index = length (ls @ [t]), entry_position = pe\<rparr> # rest) p False =
        backward_loop D f (\<lparr>entry_tree = t, entry_index = ?n - 1, entry_position = dim_zero D\<rparr> # ?e # rest) ?d True"
      using True rest n foldl snoc.prems(3)
      by (subst backward_loop.simps) (simp add: nth_opt_def nth_append push_entry_def Let_def)
    also have "\<dots> = backward_loop D f (\<lparr>entry_tree = t, entry_index = ?n, entry_position = dim_zero D\<rparr> # ?e # rest) ?d False"
      using n backward_descend[of f t "?n - 1"] by simp
    finally have loop: "backward_loop D f (\<lparr>entry_tree = node, entry_index = length (ls @ [t]), entry_position = pe\<rparr> # rest) p False = \<dots>" .
    have r: "retreats f t ?d (length (flat t)) (?e # rest)
        (backward_loop D f (\<lparr>entry_tree = t, entry_index = ?n, entry_position = dim_zero D\<rparr> # ?e # rest) ?d False)"
      by (rule snoc.prems(1)) (use t rest in \<open>simp_all add: below_position_def\<close>)
    show ?thesis
    proof (cases "prev_index q (flat t) (length (flat t))")
      case None
      then show ?thesis using r loop rec[of ?d] idx by (simp add: retreats_def q_def[symmetric])
    next
      case (Some j)
      then obtain st where st: "locates S D t ?d j st"
        "backward_loop D f (\<lparr>entry_tree = t, entry_index = ?n, entry_position = dim_zero D\<rparr> # ?e # rest) ?d False =
           Some (st @ ?e # rest, pos_at S D ?d (take j (flat t)))"
        using r by (auto simp: retreats_def q_def[symmetric])
      have "locates S D node d (length (concat (map flat ls)) + j) (st @ [?e])"
        unfolding snoc.prems(3) by (rule locates_internal[OF _ st(1) refl refl]) simp
      then show ?thesis
      proof (rule retreats_stop[rotated])
        have "take (length (concat (map flat ls)) + j) (flat node) = concat (map flat ls) @ take j (flat t)"
          using snoc.prems(3) locates_less[OF st(1)] by simp
        then have "pos_at S D d (take (length (concat (map flat ls)) + j) (flat node)) = pos_at S D ?d (take j (flat t))"
          by (simp only: pos_at_simps)
        then show "backward_loop D f (\<lparr>entry_tree = node, entry_index = length (ls @ [t]), entry_position = pe\<rparr> # rest) p False =
            Some ((st @ [?e]) @ rest, pos_at S D d (take (length (concat (map flat ls)) + j) (flat node)))"
          unfolding loop using st(2) by simp
        show "prev_index (f \<circ> item_summary S) (flat node) (length (concat (map flat (ls @ [t])))) =
            Some (length (concat (map flat ls)) + j)"
          using idx Some unfolding q_def by simp
      qed
    qed
  next
    case False
    then have "\<forall>x \<in> set (flat t). \<not> q x" using f t(1) by (auto simp: sound_filter_def q_def)
    then have "prev_index q (flat t) (length (flat t)) = None" by (simp add: prev_index_none)
    moreover have "backward_loop D f (\<lparr>entry_tree = node, entry_index = length (ls @ [t]), entry_position = pe\<rparr> # rest) p False =
        backward_loop D f (?e # rest) ?d False"
      using False rest foldl snoc.prems(3)
      by (subst backward_loop.simps) (simp add: nth_opt_def nth_append push_entry_def Let_def)
    ultimately show ?thesis using rec[of ?d] idx by (simp add: retreats_def q_def[symmetric])
  qed
qed

lemma backward_fresh:
  assumes f: "sound_filter S f"
  shows "well_formed S t \<Longrightarrow> length rest + node_height t < 16 \<Longrightarrow> below_position D rest = d \<Longrightarrow>
    retreats f t d (length (flat t)) rest
      (backward_loop D f (\<lparr>entry_tree = t, entry_index = length (child_summaries t), entry_position = pe\<rparr> # rest) p False)"
proof (induction t arbitrary: d rest pe p)
  case (Leaf s its ss)
  then show ?case using backward_items[OF Leaf.prems(1,3), of "length its" f pe p] by simp
next
  case (Internal h s cs ts)
  then obtain k where k: "h = Suc k" "nodes_at S k ts" "cs = map node_summary ts" by (auto simp: well_formed_internal)
  have "retreats f (Internal h s cs ts) d (length (concat (map flat ts))) rest
      (backward_loop D f (\<lparr>entry_tree = Internal h s cs ts, entry_index = length ts, entry_position = pe\<rparr> # rest) p False)"
    by (rule backward_children[where ls = ts and rs = "[]" and h = k, OF Internal.IH f])
      (use k Internal.prems in simp_all)
  then show ?case using k by simp
qed

lemma backward_resume:
  assumes f: "sound_filter S f"
  shows "locates S D t d k st \<Longrightarrow> well_formed S t \<Longrightarrow> length rest + node_height t < 16 \<Longrightarrow> below_position D rest = d \<Longrightarrow>
    retreats f t d k rest (backward_loop D f (st @ rest) p False)"
proof (induction arbitrary: rest p rule: locates.induct)
  case (locates_leaf k its s ss d e)
  then show ?case using backward_items[OF locates_leaf(2,4), of k f e p] by simp
next
  case (locates_internal ts ls t rs d k st i j h s cs)
  let ?node = "Internal h s cs ts"
  let ?d = "pos_at S D d (concat (map flat ls))"
  let ?e = "\<lparr>entry_tree = ?node, entry_index = i, entry_position = ?d\<rparr>"
  define q where "q = f \<circ> item_summary S"
  obtain m where node: "h = Suc m" "nodes_at S m ts" "cs = map node_summary ts"
    using locates_internal.prems(1) by (auto simp: well_formed_internal)
  have t: "well_formed S t" "node_height t = m" "k < length (flat t)"
    using node(2) locates_internal(1) locates_less[OF locates_internal(2)] by simp_all
  have r: "retreats f t ?d k (?e # rest) (backward_loop D f (st @ ?e # rest) p False)"
    by (rule locates_internal.IH[OF t(1)])
      (use locates_internal.prems t(2) node(1) in \<open>simp_all add: below_position_def\<close>)
  have idx: "prev_index q (flat ?node) j =
      (case prev_index q (flat t) k of
         Some l \<Rightarrow> Some (length (concat (map flat ls)) + l)
       | None \<Rightarrow> prev_index q (flat ?node) (length (concat (map flat ls))))"
    using prev_index_shift[of q "concat (map flat ls)" "flat t @ concat (map flat rs)" k] t(3) locates_internal(1,4)
    by (simp add: prev_index_left split: option.split)
  show ?case
  proof (cases "prev_index q (flat t) k")
    case None
    have "retreats f ?node d (length (concat (map flat ls))) rest
        (backward_loop D f (\<lparr>entry_tree = ?node, entry_index = length ls, entry_position = ?d\<rparr> # rest) ?d False)"
      by (rule backward_children[where ls = ls and rs = "t # rs" and h = m, OF backward_fresh[OF f] f])
        (use locates_internal.prems node locates_internal(1) in simp_all)
    then show ?thesis
      using r None idx locates_internal(3) by (simp add: retreats_def q_def[symmetric])
  next
    case (Some l)
    then obtain st' where st': "locates S D t ?d l st'"
      "backward_loop D f (st @ ?e # rest) p False = Some (st' @ ?e # rest, pos_at S D ?d (take l (flat t)))"
      using r by (auto simp: retreats_def q_def[symmetric])
    have "locates S D ?node d (length (concat (map flat ls)) + l) (st' @ [?e])"
      by (rule locates.locates_internal[OF locates_internal(1) st'(1) locates_internal(3) refl])
    then show ?thesis
    proof (rule retreats_stop[rotated])
      have "take (length (concat (map flat ls)) + l) (flat ?node) = concat (map flat ls) @ take l (flat t)"
        using locates_internal(1) locates_less[OF st'(1)] by simp
      then have "pos_at S D d (take (length (concat (map flat ls)) + l) (flat ?node)) = pos_at S D ?d (take l (flat t))"
        by (simp only: pos_at_simps)
      then show "backward_loop D f ((st @ [?e]) @ rest) p False =
          Some ((st' @ [?e]) @ rest, pos_at S D d (take (length (concat (map flat ls)) + l) (flat ?node)))"
        using st'(2) by simp
      show "prev_index (f \<circ> item_summary S) (flat ?node) j = Some (length (concat (map flat ls)) + l)"
        using idx Some unfolding q_def by simp
    qed
  qed
qed

end

section \<open>Seeking\<close>

fun absorb_items :: "('a, 's) item_impl \<Rightarrow> ('a, 's, 'g) seek_aggregate \<Rightarrow> 'g \<Rightarrow> 'a list \<Rightarrow> 'g option" where
  "absorb_items S A g [] = Some g"
| "absorb_items S A g (x # xs) = Option.bind (push_item A g x (item_summary S x)) (\<lambda>g. absorb_items S A g xs)"

text \<open>What a seek relies on of its aggregate: \<open>R g xs\<close> says that \<open>g\<close> stands for the items \<open>xs\<close>; pushing
  a tree adds its items, and pushing the items of a part of a leaf adds them.  With \<open>dns\<close> the trees that are
  pushed are dense.\<close>

locale aggregate_laws = dimension_laws S D for S :: "('a, 's) item_impl" and D :: "('s, 'd) dimension_impl" +
  fixes A :: "('a, 's, 'g) seek_aggregate" and R :: "'g \<Rightarrow> 'a list \<Rightarrow> bool" and dns :: bool
  assumes agg_tree: "R g xs \<Longrightarrow> well_formed S t \<Longrightarrow> \<not> st_is_empty t \<Longrightarrow> dns \<longrightarrow> dense t \<Longrightarrow>
      \<exists>g'. push_tree A g t (node_summary t) = Some g' \<and> R g' (xs @ flat t)"
    and agg_leaf: "R g xs \<Longrightarrow> length its \<le> 2 * tree_base \<Longrightarrow>
      \<exists>g1 g'. absorb_items S A (begin_leaf A g) its = Some g1 \<and> end_leaf A g1 = Some g' \<and> R g' (xs @ its)"
begin

definition seeks ::
  "('d \<Rightarrow> ordering) \<Rightarrow> bias \<Rightarrow> ('a, 's) sum_tree \<Rightarrow> 'd \<Rightarrow> nat \<Rightarrow> ('a, 's, 'd) stack_entry list \<Rightarrow> 'a list \<Rightarrow>
     (('a, 's, 'd) stack_entry list \<times> 'd \<times> 'g) option \<Rightarrow> bool" where
  "seeks cmp b t d k rest xs r \<longleftrightarrow>
     (let ys = drop k (flat t); n = length (passed S D (passes cmp b) (pos_at S D d (take k (flat t))) ys) in
      if n < length ys
      then (\<exists>st g'. locates S D t d (k + n) st \<and> R g' (xs @ take n ys) \<and>
              r = Some (st @ rest, pos_at S D d (take (k + n) (flat t)), g'))
      else (\<exists>g'. R g' (xs @ ys) \<and> r = seek_loop D A cmp b rest (pos_at S D d (flat t)) g' True))"

lemma seek_items_spec:
  "absorb_items S A g (passed S D (passes cmp b) pos ys) = Some g' \<Longrightarrow>
     seek_items D A cmp b ys (map (item_summary S) ys) i pos g =
       Some (i + length (passed S D (passes cmp b) pos ys), pos_at S D pos (passed S D (passes cmp b) pos ys), g',
             length (passed S D (passes cmp b) pos ys) < length ys)"
  by (induction ys arbitrary: i pos g) (auto simp: Let_def passes_def split: Option.bind_splits if_splits)

lemma seek_children_spec:
  "R g xs \<Longrightarrow> nodes_at S h ts \<Longrightarrow> monotone_target S D (passes cmp b) d (concat (map flat ts)) \<Longrightarrow>
     dns \<longrightarrow> (\<forall>t \<in> set ts. dense t) \<Longrightarrow>
     \<exists>us vs g'. ts = us @ vs \<and> R g' (xs @ concat (map flat us)) \<and>
       passed S D (passes cmp b) d (concat (map flat us)) = concat (map flat us) \<and>
       seek_children D A cmp b ts (map node_summary ts) i d d g =
         Some (i + length us, pos_at S D d (concat (map flat us)), pos_at S D d (concat (map flat us)), g',
               case vs of [] \<Rightarrow> None | t # _ \<Rightarrow> Some t) \<and>
       (vs \<noteq> [] \<longrightarrow> \<not> passes cmp b (pos_at S D d (concat (map flat us) @ flat (hd vs))))"
proof (induction ts arbitrary: i d g xs)
  case Nil
  then show ?case by auto
next
  case (Cons t ts)
  have t: "dim_add D d (node_summary t) = pos_at S D d (flat t)" "flat t \<noteq> []" "well_formed S t" "\<not> st_is_empty t"
    using Cons.prems(2) dim_tree flat_nonempty by auto
  have m: "monotone_target S D (passes cmp b) d (flat t)"
    "monotone_target S D (passes cmp b) (pos_at S D d (flat t)) (concat (map flat ts))"
    using Cons.prems(3) monotone_left monotone_right by fastforce+
  show ?case
  proof (cases "passes cmp b (pos_at S D d (flat t))")
    case True
    have p: "passed S D (passes cmp b) d (flat t) = flat t" by (rule passed_all[OF m(1) t(2) True])
    obtain g1 where g1: "push_tree A g t (node_summary t) = Some g1" "R g1 (xs @ flat t)"
      using agg_tree[OF Cons.prems(1) t(3,4)] Cons.prems(4) by auto
    obtain us vs g' where u: "ts = us @ vs" "R g' ((xs @ flat t) @ concat (map flat us))"
      "passed S D (passes cmp b) (pos_at S D d (flat t)) (concat (map flat us)) = concat (map flat us)"
      "seek_children D A cmp b ts (map node_summary ts) (Suc i) (pos_at S D d (flat t)) (pos_at S D d (flat t)) g1 =
         Some (Suc i + length us, pos_at S D (pos_at S D d (flat t)) (concat (map flat us)),
               pos_at S D (pos_at S D d (flat t)) (concat (map flat us)), g', case vs of [] \<Rightarrow> None | t # _ \<Rightarrow> Some t)"
      "vs \<noteq> [] \<longrightarrow> \<not> passes cmp b (pos_at S D (pos_at S D d (flat t)) (concat (map flat us) @ flat (hd vs)))"
      using Cons.IH[OF g1(2) _ m(2), of "Suc i"] Cons.prems(2,4) unfolding nodes_at_simps list.set by blast
    show ?thesis
      by (rule exI[of _ "t # us"], rule exI[of _ vs], rule exI[of _ g'])
        (use u g1 True t(1) passed_append[OF p] in \<open>simp add: passes_def[symmetric] Let_def\<close>)
  next
    case False
    show ?thesis
      by (rule exI[of _ "[]"], rule exI[of _ "t # ts"], rule exI[of _ g]) (use False Cons.prems(1) t(1) in \<open>auto simp: passes_def Let_def\<close>)
  qed
qed

lemma seek_node:
  assumes IH: "\<And>t d rest g xs. t \<in> set rs \<Longrightarrow> well_formed S t \<Longrightarrow> length rest + node_height t < 16 \<Longrightarrow> R g xs \<Longrightarrow>
      dns \<longrightarrow> dense t \<Longrightarrow> monotone_target S D (passes cmp b) d (flat t) \<Longrightarrow>
      seeks cmp b t d 0 rest xs (seek_loop D A cmp b (\<lparr>entry_tree = t, entry_index = 0, entry_position = d\<rparr> # rest) d g False)"
    and node: "nodes_at S h (ls @ rs)" "node = Internal (Suc h) s (map node_summary (ls @ rs)) (ls @ rs)"
      "length rest + Suc h < 16"
    and d': "d' = pos_at S D d (concat (map flat ls))" and k: "k = length (concat (map flat ls))"
    and g: "R g xs" "monotone_target S D (passes cmp b) d' (concat (map flat rs))" "dns \<longrightarrow> (\<forall>t \<in> set rs. dense t)"
  shows "seeks cmp b node d k rest xs
    (seek_loop D A cmp b (\<lparr>entry_tree = node, entry_index = length ls, entry_position = d'\<rparr> # rest) d' g False)"
proof -
  let ?p = "passes cmp b"
  obtain us vs g' where u: "rs = us @ vs" "R g' (xs @ concat (map flat us))"
    "passed S D ?p d' (concat (map flat us)) = concat (map flat us)"
    "seek_children D A cmp b rs (map node_summary rs) (length ls) d' d' g =
       Some (length ls + length us, pos_at S D d' (concat (map flat us)), pos_at S D d' (concat (map flat us)), g',
             case vs of [] \<Rightarrow> None | t # _ \<Rightarrow> Some t)"
    "vs \<noteq> [] \<longrightarrow> \<not> ?p (pos_at S D d' (concat (map flat us) @ flat (hd vs)))"
    using seek_children_spec[OF g(1) _ g(2,3), of h "length ls"] node(1) unfolding nodes_at_simps by blast
  let ?d = "pos_at S D d' (concat (map flat us))"
  have tk: "take k (flat node) = concat (map flat ls)" "drop k (flat node) = concat (map flat us) @ concat (map flat vs)"
    using node(2) u(1) k by simp_all
  have pas: "passed S D ?p (pos_at S D d (take k (flat node))) (drop k (flat node)) =
      concat (map flat us) @ passed S D ?p ?d (concat (map flat vs))"
    unfolding tk d'[symmetric] by (rule passed_append[OF u(3)])
  show ?thesis
  proof (cases vs)
    case Nil
    then have "seek_loop D A cmp b (\<lparr>entry_tree = node, entry_index = length ls, entry_position = d'\<rparr> # rest) d' g False =
        seek_loop D A cmp b rest ?d g' True"
      using u node(2) by (subst seek_loop.simps) simp
    moreover have "?d = pos_at S D d (flat node)" using node(2) d' u(1) Nil by simp
    ultimately show ?thesis using u(2) pas tk Nil by (auto simp: seeks_def)
  next
    case (Cons t ws)
    have t: "well_formed S t" "\<not> st_is_empty t" "node_height t = h" "t \<in> set rs" using node(1) u(1) Cons by simp_all
    define e where "e = \<lparr>entry_tree = node, entry_index = length ls + length us, entry_position = ?d\<rparr>"
    have loop: "seek_loop D A cmp b (\<lparr>entry_tree = node, entry_index = length ls, entry_position = d'\<rparr> # rest) d' g False =
        seek_loop D A cmp b (\<lparr>entry_tree = t, entry_index = 0, entry_position = ?d\<rparr> # e # rest) ?d g' False"
      using u node(2,3) Cons by (subst seek_loop.simps) (simp add: push_entry_def e_def)
    have m: "monotone_target S D ?p ?d (flat t)"
      using g(2) u(1) Cons monotone_left monotone_right by fastforce
    have n: "passed S D ?p ?d (flat t) \<noteq> flat t"
      using passed_end[of S D ?p ?d "flat t"] u(5) Cons flat_nonempty[OF t(1,2)] by auto
    define n where "n = length (passed S D ?p ?d (flat t))"
    have nl: "n < length (flat t)" using passed_less[OF n] by (simp add: n_def)
    have s: "seeks cmp b t ?d 0 (e # rest) (xs @ concat (map flat us))
        (seek_loop D A cmp b (\<lparr>entry_tree = t, entry_index = 0, entry_position = ?d\<rparr> # e # rest) ?d g' False)"
      by (rule IH[OF t(4,1) _ u(2) _ m]) (use node(3) t(3,4) g(3) in auto)
    obtain st g2 where st: "locates S D t ?d n st" "R g2 ((xs @ concat (map flat us)) @ take n (flat t))"
      "seek_loop D A cmp b (\<lparr>entry_tree = t, entry_index = 0, entry_position = ?d\<rparr> # e # rest) ?d g' False =
         Some (st @ e # rest, pos_at S D ?d (take n (flat t)), g2)"
      using s nl by (auto simp: seeks_def n_def[symmetric] Let_def)
    have len: "length (passed S D ?p (pos_at S D d (take k (flat node))) (drop k (flat node))) =
        length (concat (map flat us)) + n"
      unfolding pas using passed_stop[OF n] by (simp add: Cons n_def)
    have loc: "locates S D node d (k + (length (concat (map flat us)) + n)) (st @ [e])"
    proof -
      have "locates S D node d (length (concat (map flat (ls @ us))) + n)
          (st @ [\<lparr>entry_tree = node, entry_index = length (ls @ us),
                  entry_position = pos_at S D d (concat (map flat (ls @ us)))\<rparr>])"
        unfolding node(2) by (rule locates_internal[OF _ _ refl refl]) (use st(1) d' u(1) Cons in simp_all)
      then show ?thesis using d' k by (simp add: e_def add.assoc)
    qed
    have tk2: "take (k + (length (concat (map flat us)) + n)) (flat node) =
        concat (map flat ls) @ concat (map flat us) @ take n (flat t)"
      using node(2) u(1) Cons k nl by simp
    have tk3: "take (length (concat (map flat us)) + n) (drop k (flat node)) = concat (map flat us) @ take n (flat t)"
      unfolding tk(2) using Cons nl by simp
    have less: "length (concat (map flat us)) + n < length (drop k (flat node))"
      unfolding tk(2) using Cons nl by simp
    show ?thesis
      unfolding seeks_def Let_def len loop st(3) using less
      by (simp only: if_True tk2 tk3, intro exI[of _ "st @ [e]"] exI[of _ g2])
        (use loc st(2) d' in simp)
  qed
qed

lemma seek_leaf:
  assumes "well_formed S (Leaf s its ss)" "R g xs" "k \<le> length its" "pos = pos_at S D d (take k its)"
  shows "seeks cmp b (Leaf s its ss) d k rest xs
    (seek_loop D A cmp b (\<lparr>entry_tree = Leaf s its ss, entry_index = k, entry_position = e\<rparr> # rest) pos g False)"
proof -
  let ?p = "passes cmp b"
  define ys where "ys = drop k its"
  define zs where "zs = passed S D ?p pos ys"
  have ss: "ss = map (item_summary S) its" "length its \<le> 2 * tree_base" using assms(1) by simp_all
  have zt: "zs = take (length zs) ys" unfolding zs_def by (rule passed_take)
  have zl: "length zs \<le> length ys" unfolding zs_def by (rule passed_length)
  then have "length zs \<le> 2 * tree_base" using ss(2) by (simp add: ys_def)
  then obtain g1 g' where g: "absorb_items S A (begin_leaf A g) zs = Some g1" "end_leaf A g1 = Some g'" "R g' (xs @ zs)"
    using agg_leaf[OF assms(2)] by blast
  have items: "seek_items D A cmp b ys (map (item_summary S) ys) k pos (begin_leaf A g) =
      Some (k + length zs, pos_at S D pos zs, g1, length zs < length ys)"
    using seek_items_spec[OF g(1)[unfolded zs_def]] by (simp add: zs_def)
  have loop: "seek_loop D A cmp b (\<lparr>entry_tree = Leaf s its ss, entry_index = k, entry_position = e\<rparr> # rest) pos g False =
      (if length zs < length ys
       then Some (\<lparr>entry_tree = Leaf s its ss, entry_index = k + length zs, entry_position = e\<rparr> # rest, pos_at S D pos zs, g')
       else seek_loop D A cmp b rest (pos_at S D pos zs) g' True)"
    using assms(3) ss(1) items g(2) by (subst seek_loop.simps) (simp add: drop_map ys_def)
  have pos: "pos_at S D pos zs = pos_at S D d (take (k + length zs) its)"
    using zt assms(4) unfolding ys_def by (metis pos_at_simps(3) take_add)
  show ?thesis
  proof (cases "length zs < length ys")
    case True
    have "locates S D (Leaf s its ss) d (k + length zs)
        [\<lparr>entry_tree = Leaf s its ss, entry_index = k + length zs, entry_position = e\<rparr>]"
      by (rule locates_leaf) (use True in \<open>simp add: ys_def\<close>)
    moreover have "R g' (xs @ take (length zs) ys)" using g(3) zt by simp
    ultimately show ?thesis
      using True unfolding seeks_def Let_def flat.simps ys_def[symmetric] assms(4)[symmetric] zs_def[symmetric] loop pos
      by auto
  next
    case False
    then have "zs = ys" "k + length zs = length its" using zl zt assms(3) by (simp_all add: ys_def)
    then show ?thesis
      using False g(3) unfolding seeks_def Let_def flat.simps ys_def[symmetric] assms(4)[symmetric] zs_def[symmetric] loop pos
      by auto
  qed
qed

lemma seek_fresh:
  "well_formed S t \<Longrightarrow> length rest + node_height t < 16 \<Longrightarrow> R g xs \<Longrightarrow> dns \<longrightarrow> dense t \<Longrightarrow> monotone_target S D (passes cmp b) d (flat t) \<Longrightarrow>
     seeks cmp b t d 0 rest xs (seek_loop D A cmp b (\<lparr>entry_tree = t, entry_index = 0, entry_position = d\<rparr> # rest) d g False)"
proof (induction t arbitrary: d rest g xs)
  case (Leaf s its ss)
  then show ?case by (intro seek_leaf) simp_all
next
  case (Internal h s cs ts)
  then obtain k where k: "h = Suc k" "nodes_at S k ts" "cs = map node_summary ts" by (auto simp: well_formed_internal)
  have "seeks cmp b (Internal h s cs ts) d 0 rest xs
      (seek_loop D A cmp b (\<lparr>entry_tree = Internal h s cs ts, entry_index = length ([] :: ('a, 's) sum_tree list), entry_position = d\<rparr> # rest) d g False)"
    by (rule seek_node[where rs = ts and h = k and s = s, OF Internal.IH])
      (use k Internal.prems in simp_all)
  then show ?case by simp
qed

lemma seek_ascend:
  "entry_tree e = Internal h s cs ts \<Longrightarrow>
     seek_loop D A cmp b (e # rest) pos g True =
     seek_loop D A cmp b (e\<lparr>entry_index := Suc (entry_index e), entry_position := pos\<rparr> # rest) pos g False"
  by (cases e, subst (1 2) seek_loop.simps) (simp split: prod.split option.split)

lemma seek_resume:
  "locates S D t d k st \<Longrightarrow> well_formed S t \<Longrightarrow> length rest + node_height t < 16 \<Longrightarrow> R g xs \<Longrightarrow> dns \<longrightarrow> dense t \<Longrightarrow>
     monotone_target S D (passes cmp b) (pos_at S D d (take k (flat t))) (drop k (flat t)) \<Longrightarrow>
     seeks cmp b t d k rest xs (seek_loop D A cmp b (st @ rest) (pos_at S D d (take k (flat t))) g False)"
proof (induction arbitrary: rest g xs rule: locates.induct)
  case (locates_leaf k its s ss d e)
  then show ?case using seek_leaf[OF locates_leaf(2,4)] by simp
next
  case (locates_internal ts ls t rs d k st i j h s cs)
  let ?node = "Internal h s cs ts"
  let ?p = "passes cmp b"
  let ?d = "pos_at S D d (concat (map flat ls))"
  let ?e = "\<lparr>entry_tree = ?node, entry_index = i, entry_position = ?d\<rparr>"
  obtain m where node: "h = Suc m" "nodes_at S m ts" "cs = map node_summary ts"
    using locates_internal.prems(1) by (auto simp: well_formed_internal)
  have t: "well_formed S t" "node_height t = m" "k < length (flat t)"
    using node(2) locates_internal(1) locates_less[OF locates_internal(2)] by simp_all
  let ?cur = "pos_at S D ?d (take k (flat t))"
  have split: "take j (flat ?node) = concat (map flat ls) @ take k (flat t)"
    "drop j (flat ?node) = drop k (flat t) @ concat (map flat rs)"
    using locates_internal(1,4) t(3) by simp_all
  have cur: "pos_at S D d (take j (flat ?node)) = ?cur" unfolding split by simp
  have m: "monotone_target S D ?p ?cur (drop k (flat t) @ concat (map flat rs))"
    using locates_internal.prems(5) unfolding cur split(2) .
  have r: "seeks cmp b t ?d k (?e # rest) xs (seek_loop D A cmp b (st @ ?e # rest) ?cur g False)"
    by (rule locates_internal.IH[OF t(1) _ locates_internal.prems(3) _ monotone_left[OF m]])
      (use locates_internal.prems t(2) node(1) locates_internal(1) in simp_all)
  define n where "n = length (passed S D ?p ?cur (drop k (flat t)))"
  show ?case
  proof (cases "passed S D ?p ?cur (drop k (flat t)) = drop k (flat t)")
    case False
    then have n: "n < length (drop k (flat t))" unfolding n_def by (rule passed_less)
    obtain st' g' where st': "locates S D t ?d (k + n) st'" "R g' (xs @ take n (drop k (flat t)))"
      "seek_loop D A cmp b (st @ ?e # rest) ?cur g False = Some (st' @ ?e # rest, pos_at S D ?d (take (k + n) (flat t)), g')"
      using r n by (auto simp: seeks_def n_def[symmetric] Let_def)
    have loc: "locates S D ?node d (j + n) (st' @ [?e])"
      by (rule locates.locates_internal[OF locates_internal(1) st'(1) locates_internal(3)])
        (simp add: locates_internal(4))
    have "take (j + n) (flat ?node) = concat (map flat ls) @ take (k + n) (flat t)"
      using locates_internal(1,4) n by simp
    then have pos: "pos_at S D d (take (j + n) (flat ?node)) = pos_at S D ?d (take (k + n) (flat t))"
      by (simp only: pos_at_simps)
    have pas: "length (passed S D ?p ?cur (drop k (flat t) @ concat (map flat rs))) = n"
      using passed_stop[OF False] by (simp add: n_def)
    show ?thesis
      unfolding seeks_def Let_def cur split(2) pas pos
      using n st' loc by auto
  next
    case True
    then have n: "n = length (drop k (flat t))" by (simp add: n_def)
    obtain g' where g': "R g' (xs @ drop k (flat t))"
      "seek_loop D A cmp b (st @ ?e # rest) ?cur g False = seek_loop D A cmp b (?e # rest) (pos_at S D ?d (flat t)) g' True"
      using r n by (auto simp: seeks_def n_def[symmetric] Let_def)
    let ?d' = "pos_at S D d (concat (map flat (ls @ [t])))"
    let ?j' = "length (concat (map flat (ls @ [t])))"
    have endp: "pos_at S D ?cur (drop k (flat t)) = ?d'"
      by (simp add: pos_at_simps(3)[symmetric] del: pos_at_simps(3))
    have up: "seek_loop D A cmp b (?e # rest) (pos_at S D ?d (flat t)) g' True =
        seek_loop D A cmp b (\<lparr>entry_tree = ?node, entry_index = length (ls @ [t]), entry_position = ?d'\<rparr> # rest) ?d' g' False"
      using seek_ascend[of ?e h s cs ts] locates_internal(3) by simp
    have s: "seeks cmp b ?node d ?j' rest (xs @ drop k (flat t))
        (seek_loop D A cmp b (\<lparr>entry_tree = ?node, entry_index = length (ls @ [t]), entry_position = ?d'\<rparr> # rest) ?d' g' False)"
    proof (rule seek_node[where ls = "ls @ [t]" and rs = rs and h = m, OF seek_fresh])
      show "monotone_target S D ?p ?d' (concat (map flat rs))" using monotone_right[OF m] unfolding endp .
    qed (use locates_internal.prems node locates_internal(1) g'(1) in simp_all)
    have tk: "take ?j' (flat ?node) = concat (map flat (ls @ [t]))" "drop ?j' (flat ?node) = concat (map flat rs)"
      using locates_internal(1) by simp_all
    define l where "l = length (passed S D ?p ?d' (concat (map flat rs)))"
    have pas: "length (passed S D ?p ?cur (drop k (flat t) @ concat (map flat rs))) = n + l"
      using passed_append[OF True, of "concat (map flat rs)"] endp n by (simp add: l_def)
    have jn: "j + n = ?j'" "j + (n + l) = ?j' + l" using n t(3) locates_internal(4) by simp_all
    show ?thesis
      using s g'(2) up n
      unfolding seeks_def Let_def cur split(2) pas tk l_def[symmetric] jn
      by (auto simp: l_def[symmetric])
  qed
qed

end

section \<open>Cursors\<close>

text \<open>A cursor at item \<open>k\<close> of \<open>t\<close>, or past the end for \<open>k\<close> the number of items; one that has not moved
  yet; one that has moved before the first item.\<close>

definition cursor_at ::
  "('a, 's) item_impl \<Rightarrow> ('s, 'd) dimension_impl \<Rightarrow> ('a, 's) sum_tree \<Rightarrow> nat \<Rightarrow> ('a, 's, 'd) cursor \<Rightarrow> bool" where
  "cursor_at S D t k c \<longleftrightarrow>
     cursor_tree c = t \<and> did_seek c \<and> cursor_position c = pos_at S D (dim_zero D) (take k (flat t)) \<and> k \<le> length (flat t) \<and>
     (if k < length (flat t) then locates S D t (dim_zero D) k (cursor_stack c) \<and> \<not> at_end c
      else cursor_stack c = [] \<and> at_end c)"

definition cursor_fresh :: "('s, 'd) dimension_impl \<Rightarrow> ('a, 's) sum_tree \<Rightarrow> ('a, 's, 'd) cursor \<Rightarrow> bool" where
  "cursor_fresh D t c \<longleftrightarrow>
     cursor_tree c = t \<and> \<not> did_seek c \<and> cursor_stack c = [] \<and> cursor_position c = dim_zero D \<and> at_end c = st_is_empty t"

definition cursor_before :: "('s, 'd) dimension_impl \<Rightarrow> ('a, 's) sum_tree \<Rightarrow> ('a, 's, 'd) cursor \<Rightarrow> bool" where
  "cursor_before D t c \<longleftrightarrow>
     cursor_tree c = t \<and> did_seek c \<and> cursor_stack c = [] \<and> cursor_position c = dim_zero D \<and> at_end c = st_is_empty t"

lemma cursor_new_fresh: "cursor_fresh D t (cursor_new D t)"
  by (simp add: cursor_fresh_def cursor_new_def)

lemma cursor_reset_fresh: "cursor_tree c = t \<Longrightarrow> cursor_fresh D t (cursor_reset D c)"
  by (simp add: cursor_fresh_def cursor_reset_def)

lemma cursor_tree_of: "cursor_at S D t k c \<Longrightarrow> cursor_tree c = t" "cursor_fresh D t c \<Longrightarrow> cursor_tree c = t"
    "cursor_before D t c \<Longrightarrow> cursor_tree c = t"
  by (simp_all add: cursor_at_def cursor_fresh_def cursor_before_def)

lemma cursor_item_at:
  "cursor_at S D t k c \<Longrightarrow> well_formed S t \<Longrightarrow>
     cursor_item c = Some (if k < length (flat t) then Some (flat t ! k) else None)"
proof -
  assume c: "cursor_at S D t k c" and wf: "well_formed S t"
  show ?thesis
  proof (cases "k < length (flat t)")
    case True
    then obtain i e s its ss st where st: "cursor_stack c = \<lparr>entry_tree = Leaf s its ss, entry_index = i, entry_position = e\<rparr> # st"
      "i < length its" "its ! i = flat t ! k"
      using c locates_top[OF _ wf, of D "dim_zero D" k "cursor_stack c"] by (auto simp: cursor_at_def)
    then show ?thesis using c True by (simp add: cursor_item_def cursor_at_def nth_opt_def)
  next
    case False
    then show ?thesis using c by (simp add: cursor_item_def cursor_at_def)
  qed
qed

lemma cursor_item_summary_at:
  "cursor_at S D t k c \<Longrightarrow> well_formed S t \<Longrightarrow>
     cursor_item_summary c = Some (if k < length (flat t) then Some (item_summary S (flat t ! k)) else None)"
proof -
  assume c: "cursor_at S D t k c" and wf: "well_formed S t"
  show ?thesis
  proof (cases "k < length (flat t)")
    case True
    then obtain i e s its st where st: "cursor_stack c =
        \<lparr>entry_tree = Leaf s its (map (item_summary S) its), entry_index = i, entry_position = e\<rparr> # st"
      "i < length its" "its ! i = flat t ! k"
      using c locates_top[OF _ wf, of D "dim_zero D" k "cursor_stack c"] by (auto simp: cursor_at_def)
    then show ?thesis using c True by (simp add: cursor_item_summary_def cursor_at_def nth_opt_def)
  next
    case False
    then show ?thesis using c by (simp add: cursor_item_summary_def cursor_at_def)
  qed
qed

lemma cursor_item_before: "cursor_before D t c \<Longrightarrow> cursor_item c = Some None"
  by (simp add: cursor_before_def cursor_item_def)

context dimension_laws
begin

lemma search_forward_spec:
  assumes f: "sound_filter S f" and t: "well_formed S t" "node_height t < 16"
    and c: "cursor_at S D t k c \<or> ((cursor_fresh D t c \<or> cursor_before D t c) \<and> Suc k = 0)
      \<or> ((cursor_fresh D t c \<or> cursor_before D t c) \<and> k = length (flat t) \<and> st_is_empty t)"
  shows "\<exists>c'. search_forward D f c = Some c' \<and>
    cursor_at S D t (if k < length (flat t) then next_index (f \<circ> item_summary S) (flat t) (Suc k) else length (flat t)) c'"
proof -
  define q where "q = f \<circ> item_summary S"
  show ?thesis
  proof (cases "k < length (flat t)")
    case True
    have ne: "\<not> st_is_empty t" using True flat_empty_iff[OF t(1)] by auto
    then have at: "cursor_at S D t k c" using c by simp
    define j where "j = next_index q (flat t) (Suc k)"
    have "locates S D t (dim_zero D) k (cursor_stack c)" using at True by (simp add: cursor_at_def)
    then have w: "walks f t (dim_zero D) (Suc k) []
        (forward_loop D f (cursor_stack c) (pos_at S D (dim_zero D) (take k (flat t))) False)"
      using forward_resume[OF f, of t "dim_zero D" k "cursor_stack c" "[]"] t by simp
    have st: "cursor_stack c \<noteq> []"
      using at True locates_length[OF _ t(1), of D "dim_zero D" k "cursor_stack c"] by (auto simp: cursor_at_def)
    have jl: "j \<le> length (flat t)" using next_index_le[of "Suc k" "flat t" q] True by (simp add: j_def)
    show ?thesis
    proof (cases "j < length (flat t)")
      case jt: True
      then obtain st' where st': "locates S D t (dim_zero D) j st'"
        "forward_loop D f (cursor_stack c) (pos_at S D (dim_zero D) (take k (flat t))) False =
           Some (st', pos_at S D (dim_zero D) (take j (flat t)))"
        using w by (auto simp: walks_def q_def[symmetric] j_def[symmetric] Let_def)
      have "st' \<noteq> []" using locates_length[OF st'(1) t(1)] by auto
      then show ?thesis
        using at True st st' jt
        by (simp add: search_forward_def cursor_at_def q_def[symmetric] j_def[symmetric])
    next
      case False
      then have j: "j = length (flat t)" using jl by simp
      have "forward_loop D f (cursor_stack c) (pos_at S D (dim_zero D) (take k (flat t))) False =
          Some ([], pos_at S D (dim_zero D) (flat t))"
        using w j by (simp add: walks_def q_def[symmetric] j_def[symmetric] forward_loop.simps[of _ _ "[]"])
      then show ?thesis
        using at True st j
        by (simp add: search_forward_def cursor_at_def q_def[symmetric] j_def[symmetric])
    qed
  next
    case False
    then show ?thesis
      using c flat_empty_iff[OF t(1)]
      by (auto simp: search_forward_def cursor_at_def cursor_fresh_def cursor_before_def forward_loop.simps[of _ _ "[]"])
  qed
qed

lemma search_forward_first:
  assumes f: "sound_filter S f" and t: "well_formed S t" "node_height t < 16"
    and c: "cursor_fresh D t c \<or> cursor_before D t c"
  shows "\<exists>c'. search_forward D f c = Some c' \<and> cursor_at S D t (next_index (f \<circ> item_summary S) (flat t) 0) c'"
proof (cases "st_is_empty t")
  case True
  then show ?thesis
    using search_forward_spec[OF f t, of "length (flat t)" c] c flat_empty_iff[OF t(1)] by auto
next
  case False
  define q where "q = f \<circ> item_summary S"
  define j where "j = next_index q (flat t) 0"
  let ?e = "\<lparr>entry_tree = t, entry_index = 0, entry_position = dim_zero D\<rparr>"
  have w: "walks f t (dim_zero D) 0 [] (forward_loop D f [?e] (dim_zero D) True)"
    using forward_fresh[OF f t(1), of "[]"] t(2) by simp
  have jl: "j \<le> length (flat t)" using next_index_le[of 0 "flat t" q] by (simp add: j_def)
  show ?thesis
  proof (cases "j < length (flat t)")
    case jt: True
    then obtain st' where st': "locates S D t (dim_zero D) j st'"
      "forward_loop D f [?e] (dim_zero D) True = Some (st', pos_at S D (dim_zero D) (take j (flat t)))"
      using w by (auto simp: walks_def q_def[symmetric] j_def[symmetric] Let_def)
    have "st' \<noteq> []" using locates_length[OF st'(1) t(1)] by auto
    then show ?thesis
      using c False st' jt
      by (auto simp: search_forward_def cursor_at_def cursor_fresh_def cursor_before_def push_entry_def
          q_def[symmetric] j_def[symmetric])
  next
    case nj: False
    then have j: "j = length (flat t)" using jl by simp
    have "forward_loop D f [?e] (dim_zero D) True = Some ([], pos_at S D (dim_zero D) (flat t))"
      using w j by (simp add: walks_def q_def[symmetric] j_def[symmetric] forward_loop.simps[of _ _ "[]"])
    then show ?thesis
      using c False j
      by (auto simp: search_forward_def cursor_at_def cursor_fresh_def cursor_before_def push_entry_def
          q_def[symmetric] j_def[symmetric])
  qed
qed

lemma next_index_True: "k \<le> length xs \<Longrightarrow> next_index ((\<lambda>_. True) \<circ> g) xs k = k"
  by (cases "drop k xs") (simp_all add: next_index_def comp_def)

lemma next_spec:
  "well_formed S t \<Longrightarrow> node_height t < 16 \<Longrightarrow> cursor_at S D t k c \<Longrightarrow>
     \<exists>c'. cursor_next D c = Some c' \<and> cursor_at S D t (min (Suc k) (length (flat t))) c'"
  using search_forward_spec[of "\<lambda>_. True" t k c] next_index_True[of "Suc k" "flat t" "item_summary S"]
  by (auto simp: cursor_next_def min_def cursor_at_def split: if_splits)

lemma next_first:
  "well_formed S t \<Longrightarrow> node_height t < 16 \<Longrightarrow> cursor_fresh D t c \<or> cursor_before D t c \<Longrightarrow>
     \<exists>c'. cursor_next D c = Some c' \<and> cursor_at S D t 0 c'"
  using search_forward_first[of "\<lambda>_. True" t c] next_index_True[of 0 "flat t" "item_summary S"]
  by (simp add: cursor_next_def)

lemma search_backward_spec:
  assumes f: "sound_filter S f" and t: "well_formed S t" "node_height t < 16"
    and c: "cursor_at S D t k c \<or> (cursor_fresh D t c \<and> k = length (flat t))"
  shows "\<exists>c'. search_backward D f c = Some c' \<and>
    (case prev_index (f \<circ> item_summary S) (flat t) k of Some j \<Rightarrow> cursor_at S D t j c' | None \<Rightarrow> cursor_before D t c')"
proof (cases "st_is_empty t")
  case True
  then have "flat t = []" using flat_empty_iff[OF t(1)] by simp
  then show ?thesis
    using True c by (auto simp: search_backward_def cursor_at_def cursor_fresh_def cursor_before_def
        backward_loop.simps[of _ _ "[]"] Let_def)
next
  case ne: False
  define q where "q = f \<circ> item_summary S"
  define st where "st = (if k < length (flat t) then cursor_stack c
    else [\<lparr>entry_tree = t, entry_index = length (child_summaries t), entry_position = from_summary D (node_summary t)\<rparr>])"
  define p where "p = (if k < length (flat t) then cursor_position c else dim_zero D)"
  have kl: "k \<le> length (flat t)" using c by (auto simp: cursor_at_def)
  have r: "retreats f t (dim_zero D) k [] (backward_loop D f st p False)"
  proof (cases "k < length (flat t)")
    case True
    then have "locates S D t (dim_zero D) k (cursor_stack c)" using c by (auto simp: cursor_at_def cursor_fresh_def)
    then show ?thesis
      using backward_resume[OF f, of t "dim_zero D" k "cursor_stack c" "[]"] t True by (simp add: st_def below_position_def)
  next
    case False
    then show ?thesis
      using backward_fresh[OF f t(1), of "[]" "dim_zero D" "from_summary D (node_summary t)"] t kl
      by (simp add: st_def below_position_def)
  qed
  have loop: "search_backward D f c = do {
      (st, pos) \<leftarrow> backward_loop D f st p False;
      Some (c\<lparr>did_seek := True, at_end := False, cursor_stack := st, cursor_position := pos\<rparr>) }"
  proof (cases "k < length (flat t)")
    case True
    then have "did_seek c" "\<not> at_end c" using c by (auto simp: cursor_at_def cursor_fresh_def)
    then show ?thesis using True by (cases c) (simp add: search_backward_def st_def p_def)
  next
    case False
    then have "cursor_stack c = []" "cursor_tree c = t" "at_end c \<or> \<not> did_seek c" using c by (auto simp: cursor_at_def cursor_fresh_def)
    then show ?thesis using False ne by (cases c) (auto simp: search_backward_def st_def p_def push_entry_def Let_def)
  qed
  show ?thesis
  proof (cases "prev_index q (flat t) k")
    case None
    then have "backward_loop D f st p False = Some ([], dim_zero D)"
      using r by (simp add: retreats_def q_def[symmetric] backward_loop.simps[of _ _ "[]"])
    then show ?thesis
      using loop None c ne by (auto simp: cursor_before_def cursor_at_def cursor_fresh_def q_def[symmetric])
  next
    case (Some j)
    then obtain st' where st': "locates S D t (dim_zero D) j st'"
      "backward_loop D f st p False = Some (st', pos_at S D (dim_zero D) (take j (flat t)))"
      using r by (auto simp: retreats_def q_def[symmetric])
    then show ?thesis
      using loop Some c locates_less[OF st'(1)] by (auto simp: cursor_at_def cursor_fresh_def q_def[symmetric])
  qed
qed

lemma prev_index_True: "prev_index ((\<lambda>_. True) \<circ> g) xs k = (if k = 0 then None else Some (k - 1))"
  by (cases k) simp_all

lemma prev_spec:
  "well_formed S t \<Longrightarrow> node_height t < 16 \<Longrightarrow> cursor_at S D t k c \<Longrightarrow>
     \<exists>c'. cursor_prev D c = Some c' \<and> (if k = 0 then cursor_before D t c' else cursor_at S D t (k - 1) c')"
  using search_backward_spec[of "\<lambda>_. True" t k c]
  by (auto simp: cursor_prev_def prev_index_True split: if_splits)

end

context aggregate_laws
begin

lemma seek_internal_spec:
  assumes t: "well_formed S t" "node_height t < 16" "dns \<longrightarrow> dense t"
    and c: "cursor_at S D t k c \<or> (cursor_fresh D t c \<and> k = 0)"
    and cmp: "cmp (cursor_position c) \<noteq> Less" and R: "R g xs"
    and m: "monotone_target S D (passes cmp b) (pos_at S D (dim_zero D) (take k (flat t))) (drop k (flat t))"
  defines "n \<equiv> length (passed S D (passes cmp b) (pos_at S D (dim_zero D) (take k (flat t))) (drop k (flat t)))"
  shows "\<exists>c' g'. seek_internal D A cmp b g c =
      Some (c', g', cmp (pos_at S D (dim_zero D) (take (if b = Left then Suc (k + n) else k + n) (flat t))) = Equal) \<and>
    cursor_at S D t (k + n) c' \<and> R g' (xs @ take n (drop k (flat t)))"
proof -
  let ?e = "\<lparr>entry_tree = t, entry_index = 0, entry_position = dim_zero D\<rparr>"
  define pos where "pos = pos_at S D (dim_zero D) (take k (flat t))"
  define st where "st = (if did_seek c then cursor_stack c else [?e])"
  have n: "n = length (passed S D (passes cmp b) pos (drop k (flat t)))" by (simp add: n_def pos_def)
  have kl: "k \<le> length (flat t)" using c by (auto simp: cursor_at_def)
  have pos: "cursor_position c = pos" using c by (auto simp: pos_def cursor_at_def cursor_fresh_def)
  have nl: "k + n \<le> length (flat t)" using passed_length[of S D "passes cmp b" pos "drop k (flat t)"] kl by (simp add: n_def pos_def)
  have loop: "seek_loop D A cmp b st pos g False = Some (st', pos', g') \<Longrightarrow> cursor_at S D t (k + n)
      (c\<lparr>did_seek := True, cursor_stack := st', cursor_position := pos', at_end := (st' = [])\<rparr>) \<Longrightarrow>
      seek_internal D A cmp b g c =
        Some (c\<lparr>did_seek := True, cursor_stack := st', cursor_position := pos', at_end := (st' = [])\<rparr>, g',
              cmp (pos_at S D (dim_zero D) (take (if b = Left then Suc (k + n) else k + n) (flat t))) = Equal)"
    for st' pos' g'
  proof -
    assume l: "seek_loop D A cmp b st pos g False = Some (st', pos', g')"
    let ?c = "c\<lparr>did_seek := True, cursor_stack := st', cursor_position := pos', at_end := (st' = [])\<rparr>"
    assume at: "cursor_at S D t (k + n) ?c"
    have p': "pos' = pos_at S D (dim_zero D) (take (k + n) (flat t))" using at by (simp add: cursor_at_def)
    have p: "dim_add D (pos_at S D (dim_zero D) (take (k + n) (flat t))) (item_summary S (flat t ! (k + n))) =
        pos_at S D (dim_zero D) (take (Suc (k + n)) (flat t))" if "k + n < length (flat t)"
      using that by (simp add: take_Suc_conv_app_nth)
    show ?thesis
    proof (cases "did_seek c")
      case True
      then show ?thesis
        using cmp pos l cursor_item_summary_at[OF at t(1)] p p'
        by (cases c; cases b) (simp_all add: seek_internal_def st_def Let_def)
    next
      case False
      then have "cursor_stack c = []" "cursor_tree c = t" using c by (auto simp: cursor_at_def cursor_fresh_def)
      then show ?thesis
        using False cmp pos l cursor_item_summary_at[OF at t(1)] p p'
        by (cases b) (simp_all add: seek_internal_def st_def push_entry_def Let_def)
    qed
  qed
  have finish: "\<exists>c' g'. seek_internal D A cmp b g c =
      Some (c', g', cmp (pos_at S D (dim_zero D) (take (if b = Left then Suc (k + n) else k + n) (flat t))) = Equal) \<and>
      cursor_at S D t (k + n) c' \<and> R g' (xs @ take n (drop k (flat t)))"
    if "seek_loop D A cmp b st pos g False = Some (st', pos', g')" "R g' (xs @ take n (drop k (flat t)))"
      "cursor_at S D t (k + n) (c\<lparr>did_seek := True, cursor_stack := st', cursor_position := pos', at_end := (st' = [])\<rparr>)"
    for st' pos' g'
    using loop[OF that(1,3)] that(2,3) by blast
  have tree: "cursor_tree c = t" using c cursor_tree_of by blast
  show ?thesis
  proof (cases "st = []")
    case True
    then have k: "k = length (flat t)" "n = 0" using c locates_length[OF _ t(1), of D "dim_zero D" k "cursor_stack c"]
      by (auto simp: st_def cursor_at_def cursor_fresh_def n_def split: if_splits)
    then show ?thesis
      using True R tree by (intro finish[of "[]" pos g]) (auto simp: seek_loop.simps[of _ _ _ _ "[]"] cursor_at_def pos_def)
  next
    case False
    have s: "seeks cmp b t (dim_zero D) k [] xs (seek_loop D A cmp b st pos g False)"
    proof (cases "did_seek c")
      case True
      then have at: "cursor_at S D t k c" using c by (auto simp: cursor_fresh_def)
      have "locates S D t (dim_zero D) k (cursor_stack c)"
        using at False True by (auto simp: cursor_at_def st_def split: if_splits)
      then show ?thesis
        using seek_resume[of t "dim_zero D" k "cursor_stack c" "[]" g xs cmp b] t R m True by (simp add: st_def pos_def)
    next
      case nd: False
      then have "k = 0" using c by (auto simp: cursor_at_def)
      then show ?thesis
        using seek_fresh[OF t(1), of "[]" g xs cmp b "dim_zero D"] t R m nd by (simp add: st_def pos_def)
    qed
    show ?thesis
    proof (cases "k + n < length (flat t)")
      case True
      then have "n < length (drop k (flat t))" by simp
      then obtain st' g' where st': "locates S D t (dim_zero D) (k + n) st'" "R g' (xs @ take n (drop k (flat t)))"
        "seek_loop D A cmp b st pos g False = Some (st', pos_at S D (dim_zero D) (take (k + n) (flat t)), g')"
        using s unfolding seeks_def Let_def pos_def[symmetric] n[symmetric] by auto
      have "st' \<noteq> []" using locates_length[OF st'(1) t(1)] by auto
      then show ?thesis
        using st' True tree by (intro finish[of st' _ g']) (auto simp: cursor_at_def)
    next
      case False
      then have e: "k + n = length (flat t)" "n = length (drop k (flat t))" using nl kl by simp_all
      then obtain g' where g': "R g' (xs @ drop k (flat t))"
        "seek_loop D A cmp b st pos g False = seek_loop D A cmp b [] (pos_at S D (dim_zero D) (flat t)) g' True"
        using s unfolding seeks_def Let_def pos_def[symmetric] n[symmetric] by auto
      then show ?thesis
        using e tree by (intro finish[of "[]" _ g']) (auto simp: cursor_at_def seek_loop.simps[of _ _ _ _ "[]"])
    qed
  qed
qed

end

section \<open>The aggregates of the code\<close>

definition slice_holds :: "('a, 's) item_impl \<Rightarrow> bool \<Rightarrow> ('a, 's) slice_state \<Rightarrow> 'a list \<Rightarrow> bool" where
  "slice_holds S dns g xs \<longleftrightarrow>
     well_formed S (slice_tree g) \<and> flat (slice_tree g) = xs \<and> leaf_items g = [] \<and> leaf_item_summaries g = [] \<and>
     leaf_summary g = summary_zero S \<and> (dns \<longrightarrow> dense (slice_tree g))"

context summary_laws
begin

lemma absorb_slice:
  "length (leaf_items g @ xs) \<le> 2 * tree_base \<Longrightarrow> leaf_item_summaries g = map (item_summary S) (leaf_items g) \<Longrightarrow>
     leaf_summary g = sum_summaries S (leaf_item_summaries g) \<Longrightarrow>
     absorb_items S (slice_aggregate S) g xs =
       Some (g\<lparr>leaf_items := leaf_items g @ xs, leaf_item_summaries := map (item_summary S) (leaf_items g @ xs),
               leaf_summary := sum_summaries S (map (item_summary S) (leaf_items g @ xs))\<rparr>)"
proof (induction xs arbitrary: g)
  case (Cons x xs)
  define g1 where "g1 = g\<lparr>leaf_items := leaf_items g @ [x],
    leaf_item_summaries := map (item_summary S) (leaf_items g @ [x]),
    leaf_summary := sum_summaries S (map (item_summary S) (leaf_items g @ [x]))\<rparr>"
  have "push_item (slice_aggregate S) g x (item_summary S x) = Some g1"
    using Cons.prems by (cases g) (simp add: slice_aggregate_def g1_def sum_append)
  moreover have "absorb_items S (slice_aggregate S) g1 xs =
       Some (g1\<lparr>leaf_items := leaf_items g1 @ xs, leaf_item_summaries := map (item_summary S) (leaf_items g1 @ xs),
               leaf_summary := sum_summaries S (map (item_summary S) (leaf_items g1 @ xs))\<rparr>)"
    by (rule Cons.IH) (use Cons.prems in \<open>simp_all add: g1_def\<close>)
  ultimately show ?case by (simp add: g1_def)
qed (cases g, simp)

lemma slice_leaf:
  assumes "slice_holds S dns g xs" "length its \<le> 2 * tree_base"
  shows "\<exists>g1 g'. absorb_items S (slice_aggregate S) (begin_leaf (slice_aggregate S) g) its = Some g1 \<and>
    end_leaf (slice_aggregate S) g1 = Some g' \<and> slice_holds S dns g' (xs @ its)"
proof -
  let ?l = "Leaf (sum_summaries S (map (item_summary S) its)) its (map (item_summary S) its)"
  obtain v where v: "st_append S (slice_tree g) ?l = Some v" "well_formed S v" "flat v = xs @ its" "dns \<longrightarrow> dense v"
    using append_spec[of "slice_tree g" ?l] assms by (auto simp: slice_holds_def)
  show ?thesis
    using absorb_slice[of g its] assms v
    by (simp add: slice_holds_def) (simp add: slice_aggregate_def)
qed

lemma slice_push_tree:
  assumes "slice_holds S dns g xs" "well_formed S t" "dns \<longrightarrow> dense t"
  shows "\<exists>g'. push_tree (slice_aggregate S) g t s = Some g' \<and> slice_holds S dns g' (xs @ flat t)"
  using append_spec[of "slice_tree g" t] assms by (auto simp: slice_holds_def slice_aggregate_def)

end

sublocale dimension_laws \<subseteq> plain: aggregate_laws S D no_aggregate "\<lambda>_ _. True" False
proof unfold_locales
  show "\<exists>g1 g'. absorb_items S no_aggregate (begin_leaf no_aggregate g) its = Some g1 \<and>
    end_leaf no_aggregate g1 = Some g' \<and> True" for g and its :: "'a list"
  proof -
    have "absorb_items S no_aggregate g its = Some g" by (induction its) (simp_all add: no_aggregate_def)
    then show ?thesis by (simp add: no_aggregate_def)
  qed
qed (simp add: no_aggregate_def)

sublocale dimension_laws \<subseteq> slicing: aggregate_laws S D "slice_aggregate S" "slice_holds S dns" dns for dns
  by unfold_locales (use slice_push_tree slice_leaf in auto)

sublocale summary_laws \<subseteq> units: dimension_laws S unit_dimension
  by unfold_locales (simp add: unit_dimension_def)

context dimension_laws
begin

section \<open>The operations of a cursor\<close>

abbreviation start_at :: "('a, 's) sum_tree \<Rightarrow> nat \<Rightarrow> 'd" where
  "start_at t k \<equiv> pos_at S D (dim_zero D) (take k (flat t))"

definition seeked :: "('d \<Rightarrow> ordering) \<Rightarrow> bias \<Rightarrow> ('a, 's) sum_tree \<Rightarrow> nat \<Rightarrow> nat" where
  "seeked cmp b t k = k + length (passed S D (passes cmp b) (start_at t k) (drop k (flat t)))"

lemma seeked_le: "k \<le> length (flat t) \<Longrightarrow> seeked cmp b t k \<le> length (flat t)"
  using passed_length[of S D "passes cmp b" "start_at t k" "drop k (flat t)"] by (simp add: seeked_def)

lemma seek_forward_spec:
  assumes "well_formed S t" "node_height t < 16" "cursor_at S D t k c \<or> (cursor_fresh D t c \<and> k = 0)"
    "cmp (cursor_position c) \<noteq> Less" "monotone_target S D (passes cmp b) (start_at t k) (drop k (flat t))"
  shows "\<exists>c'. seek_forward D cmp b c = Some (c', cmp (start_at t (if b = Left then Suc (seeked cmp b t k) else seeked cmp b t k)) = Equal) \<and>
    cursor_at S D t (seeked cmp b t k) c'"
  using plain.seek_internal_spec[OF assms(1,2) _ assms(3,4) _ assms(5)] by (force simp: seek_forward_def seeked_def)

lemma seek_spec:
  assumes "well_formed S t" "node_height t < 16" "cursor_tree c = t"
    "cmp (dim_zero D) \<noteq> Less" "monotone_target S D (passes cmp b) (dim_zero D) (flat t)"
  shows "\<exists>c'. cursor_seek D cmp b c = Some (c', cmp (start_at t (if b = Left then Suc (seeked cmp b t 0) else seeked cmp b t 0)) = Equal) \<and>
    cursor_at S D t (seeked cmp b t 0) c'"
proof -
  have "cursor_seek D cmp b c = seek_forward D cmp b (cursor_reset D c)"
    by (simp add: cursor_seek_def seek_forward_def)
  then show ?thesis
    using seek_forward_spec[OF assms(1,2), of 0 "cursor_reset D c" cmp b] cursor_reset_fresh[OF assms(3), of D] assms(4,5)
    by (auto simp: cursor_fresh_def)
qed

lemma slice_spec:
  assumes "well_formed S t" "node_height t < 16" "cursor_at S D t k c \<or> (cursor_fresh D t c \<and> k = 0)"
    "cmp (cursor_position c) \<noteq> Less" "monotone_target S D (passes cmp b) (start_at t k) (drop k (flat t))"
  shows "\<exists>c' v. cursor_slice S D cmp b c = Some (c', v) \<and> cursor_at S D t (seeked cmp b t k) c' \<and> well_formed S v \<and>
    flat v = take (seeked cmp b t k - k) (drop k (flat t)) \<and> (dense t \<longrightarrow> dense v)"
proof -
  let ?g = "\<lparr>slice_tree = st_new S, leaf_items = [], leaf_item_summaries = [], leaf_summary = summary_zero S\<rparr>"
  have "slice_holds S (dense t) ?g []" using new_spec by (simp add: slice_holds_def)
  then obtain c' g' where "seek_internal D (slice_aggregate S) cmp b ?g c =
      Some (c', g', cmp (start_at t (if b = Left then Suc (seeked cmp b t k) else seeked cmp b t k)) = Equal)"
    "cursor_at S D t (seeked cmp b t k) c'" "slice_holds S (dense t) g' (take (seeked cmp b t k - k) (drop k (flat t)))"
    using slicing.seek_internal_spec[OF assms(1,2) _ assms(3,4) _ assms(5), of "dense t" ?g "[]"]
    by (auto simp: seeked_def)
  then show ?thesis by (simp add: cursor_slice_def slice_holds_def)
qed

lemma passed_True: "(\<And>d. p d) \<Longrightarrow> passed S D p d xs = xs"
  by (induction xs arbitrary: d) (simp_all add: Let_def)

lemma suffix_spec:
  assumes "well_formed S t" "node_height t < 16" "cursor_at S D t k c"
  shows "\<exists>c' v. cursor_suffix S D c = Some (c', v) \<and> cursor_at S D t (length (flat t)) c' \<and> well_formed S v \<and>
    flat v = drop k (flat t) \<and> (dense t \<longrightarrow> dense v)"
proof -
  have p: "passes seek_end Right d" for d :: 'd by (simp add: passes_def seek_end_def)
  have s: "seeked seek_end Right t k = length (flat t)"
    using assms(3) passed_True[of "passes seek_end Right" "start_at t k" "drop k (flat t)", OF p]
    by (simp add: seeked_def cursor_at_def)
  have m: "monotone_target S D (passes seek_end Right) (start_at t k) (drop k (flat t))"
    by (simp add: monotone_target_def p)
  have "seek_end (cursor_position c) \<noteq> Less" by (simp add: seek_end_def)
  from slice_spec[OF assms(1,2) disjI1[OF assms(3)] this m] show ?thesis
    unfolding cursor_suffix_def s by simp
qed

lemma summary_spec:
  assumes "dimension_laws S E"
    and "well_formed S t" "node_height t < 16" "cursor_at S D t k c \<or> (cursor_fresh D t c \<and> k = 0)"
    "cmp (cursor_position c) \<noteq> Less" "monotone_target S D (passes cmp b) (start_at t k) (drop k (flat t))"
  shows "\<exists>c'. cursor_summary D E cmp b c =
      Some (c', pos_at S E (dim_zero E) (take (seeked cmp b t k - k) (drop k (flat t)))) \<and>
    cursor_at S D t (seeked cmp b t k) c'"
proof -
  have abs: "absorb_items S (summary_aggregate E) g its = Some (pos_at S E g its)" for g and its :: "'a list"
    by (induction its arbitrary: g) (simp_all add: summary_aggregate_def)
  have A: "aggregate_laws S D (summary_aggregate E) (\<lambda>g xs. g = pos_at S E (dim_zero E) xs) False"
    by unfold_locales (use abs dimension_laws.dim_tree[OF assms(1)] in \<open>simp_all add: summary_aggregate_def\<close>)
  show ?thesis
    using aggregate_laws.seek_internal_spec[OF A assms(2,3) _ assms(4,5) _ assms(6), of "dim_zero E" "[]"]
    by (auto simp: cursor_summary_def seeked_def)
qed

section \<open>Inserting by key\<close>

lemma passed_takeWhile:
  assumes "\<And>d y. y \<in> set xs \<Longrightarrow> cmp (dim_add D d (item_summary S y)) = cmp' y"
  shows "passed S D (passes cmp Left) d xs = takeWhile (\<lambda>y. cmp' y = Greater) xs"
  using assms by (induction xs arbitrary: d) (simp_all add: Let_def passes_def)

lemma monotone_sorted:
  assumes "\<And>d y. y \<in> set xs \<Longrightarrow> cmp (dim_add D d (item_summary S y)) = cmp' y"
    "\<And>i j. i \<le> j \<Longrightarrow> j < length xs \<Longrightarrow> cmp' (xs ! j) = Greater \<Longrightarrow> cmp' (xs ! i) = Greater"
  shows "monotone_target S D (passes cmp Left) d xs"
proof -
  have key: "cmp (pos_at S D d (us @ [y])) = cmp' y" if "y \<in> set xs" for us y
    using assms(1)[OF that] by simp
  have "passes cmp Left (pos_at S D d us)"
    if us: "us \<noteq> []" and p: "passes cmp Left (pos_at S D d (us @ vs))" and xs: "xs = us @ vs @ ws" for us vs ws
  proof (cases "vs = []")
    case True
    then show ?thesis using p by simp
  next
    case False
    obtain us' u where u: "us = us' @ [u]" using us by (cases us rule: rev_cases) auto
    obtain vs' v where v: "vs = vs' @ [v]" using False by (cases vs rule: rev_cases) auto
    let ?i = "length us'" and ?j = "length us + length vs'"
    have at: "xs ! ?i = u" "xs ! ?j = v" "?i \<le> ?j" "?j < length xs" using xs u v by (simp_all add: nth_append)
    have "cmp' v = Greater" using p key[of v "us @ vs'"] at(2,4) by (auto simp: passes_def v)
    then have "cmp' u = Greater" using assms(2)[OF at(3,4)] at(1,2) by simp
    moreover have "u \<in> set xs" using xs u by simp
    ultimately show ?thesis using key[of u us'] u by (simp add: passes_def)
  qed
  then show ?thesis unfolding monotone_target_def by blast
qed

lemma insert_or_replace_spec:
  assumes t: "well_formed S t" "node_height t < 16"
    and key: "\<And>d y. y \<in> set (flat t) \<Longrightarrow> cmp (key x) (dim_add D d (item_summary S y)) = cmp (key x) (key y)"
    and sorted: "\<And>i j. i \<le> j \<Longrightarrow> j < length (flat t) \<Longrightarrow> cmp (key x) (key (flat t ! j)) = Greater \<Longrightarrow>
      cmp (key x) (key (flat t ! i)) = Greater"
    and zero: "cmp (key x) (dim_zero D) \<noteq> Less"
  defines "k \<equiv> length (takeWhile (\<lambda>y. cmp (key x) (key y) = Greater) (flat t))"
  defines "same \<equiv> k < length (flat t) \<and> key (flat t ! k) = key x"
  shows "\<exists>t'. insert_or_replace S D key cmp x t = Some (t', if same then Some (flat t ! k) else None) \<and> well_formed S t' \<and>
    flat t' = take k (flat t) @ x # drop (if same then Suc k else k) (flat t) \<and> (dense t \<longrightarrow> dense t')"
proof -
  note m = monotone_sorted[of "flat t" "cmp (key x)" "\<lambda>y. cmp (key x) (key y)", OF key sorted]
  have k: "seeked (cmp (key x)) Left t 0 = k" "k \<le> length (flat t)"
    using passed_takeWhile[of "flat t" "cmp (key x)" "\<lambda>y. cmp (key x) (key y)", OF key]
    by (simp_all add: seeked_def k_def length_takeWhile_le)
  have fr: "cursor_fresh D t (cursor_new D t)" "cursor_position (cursor_new D t) = dim_zero D"
    by (simp_all add: cursor_new_fresh) (simp add: cursor_new_def)
  obtain c v where c: "cursor_slice S D (cmp (key x)) Left (cursor_new D t) = Some (c, v)" "cursor_at S D t k c"
    "well_formed S v" "flat v = take k (flat t)" "dense t \<longrightarrow> dense v"
    using slice_spec[OF t, of 0 "cursor_new D t" "cmp (key x)" Left] fr zero m k(1) by auto
  note item = cursor_item_at[OF c(2) t(1)]
  define l where "l = (if same then Suc k else k)"
  obtain c1 where c1: "(case (if k < length (flat t) then Some (flat t ! k) else None) of
        Some y \<Rightarrow> if key y = key x then do { c \<leftarrow> cursor_next D c; Some (c, Some y) } else Some (c, None)
      | None \<Rightarrow> Some (c, None)) = Some (c1, if same then Some (flat t ! k) else None)" "cursor_at S D t l c1"
  proof (cases same)
    case True
    then obtain c1 where "cursor_next D c = Some c1" "cursor_at S D t (Suc k) c1"
      using next_spec[OF t c(2)] by (auto simp: same_def min_def split: if_splits)
    then show ?thesis using that[of c1] True by (simp add: l_def same_def)
  next
    case False
    then show ?thesis using that[of c] c(2) by (auto simp: l_def same_def)
  qed
  obtain v1 where v1: "st_push S x v = Some v1" "well_formed S v1" "flat v1 = take k (flat t) @ [x]" "dense v \<longrightarrow> dense v1"
    using push_spec[OF c(3), of x] c(4) by auto
  obtain c2 r where r: "cursor_suffix S D c1 = Some (c2, r)" "well_formed S r" "flat r = drop l (flat t)" "dense t \<longrightarrow> dense r"
    using suffix_spec[OF t c1(2)] by blast
  obtain t' where t': "st_append S v1 r = Some t'" "well_formed S t'" "flat t' = flat v1 @ flat r"
    "dense v1 \<and> dense r \<longrightarrow> dense t'"
    using append_spec[OF v1(2) r(2)] by blast
  show ?thesis
    using c(1,5) item c1(1) v1 r t' by (simp add: insert_or_replace_def l_def)
qed

end

context summary_laws
begin

section \<open>All items\<close>

lemma items_loop_spec:
  "well_formed S t \<Longrightarrow> node_height t < 16 \<Longrightarrow> cursor_at S unit_dimension t k c \<Longrightarrow>
     items_loop c acc = Some (acc @ drop k (flat t))"
proof (induction "length (flat t) - k" arbitrary: k c acc rule: less_induct)
  case less
  note item = cursor_item_at[OF less.prems(3,1)]
  show ?case
  proof (cases "k < length (flat t)")
    case True
    obtain c' where c': "cursor_next unit_dimension c = Some c'" "cursor_at S unit_dimension t (Suc k) c'"
      using units.next_spec[OF less.prems] True by (auto simp: min_def split: if_splits)
    have "items_loop c' (acc @ [flat t ! k]) = Some ((acc @ [flat t ! k]) @ drop (Suc k) (flat t))"
      by (rule less.hyps[OF _ less.prems(1,2) c'(2)]) (use True in simp)
    then show ?thesis using item True c'(1) by (subst items_loop.simps) (simp add: Cons_nth_drop_Suc)
  next
    case False
    then show ?thesis using item by (subst items_loop.simps) simp
  qed
qed

lemma items_spec: "well_formed S t \<Longrightarrow> node_height t < 16 \<Longrightarrow> st_items t = Some (flat t)"
  using units.next_first[of t "cursor_new unit_dimension t"] cursor_new_fresh[of unit_dimension t]
    items_loop_spec[of t 0 _ "[]"]
  by (auto simp: st_items_def)

end

context summary_laws
begin

lemma length_leaf_nodes: "12 * length (leaf_nodes S xs) \<le> length xs + 11"
proof (induction xs rule: length_induct)
  case (1 xs)
  show ?case
  proof (cases "length xs \<le> 12")
    case True
    then show ?thesis
      by (cases "xs = []") (simp_all add: leaf_nodes.simps[of S xs] leaf_nodes.simps[of S "[]"] Let_def tree_base_def Suc_le_eq)
  next
    case False
    then have "12 * length (leaf_nodes S (drop 12 xs)) \<le> length (drop 12 xs) + 11" using 1[rule_format, of "drop 12 xs"] by auto
    then show ?thesis using False by (auto simp: leaf_nodes.simps[of S xs] Let_def tree_base_def)
  qed
qed

lemma build_up_height:
  "nodes_at S h ns \<Longrightarrow> length ns \<le> 12 ^ m \<Longrightarrow> \<forall>n \<in> set (build_up S h ns). node_height n \<le> h + m"
proof (induction m arbitrary: h ns)
  case 0
  then show ?case by (auto simp: build_up.simps[of S h ns] nodes_at_def)
next
  case (Suc m)
  show ?case
  proof (cases "length ns > 1")
    case True
    let ?ps = "parent_nodes S (Suc h) ns None"
    have "nodes_at S (Suc h) ?ps" using parent_nodes_spec[OF Suc.prems(1), of "[]"] by (simp add: tree_base_def)
    moreover have "length ?ps \<le> 12 ^ m" using length_parent_nodes[of S "Suc h" ns] Suc.prems(2) by simp
    ultimately show ?thesis using Suc.IH[of "Suc h" ?ps] True by (simp add: build_up.simps[of S h ns])
  next
    case False
    then show ?thesis using Suc.prems(1) by (auto simp: build_up.simps[of S h ns] nodes_at_def)
  qed
qed

lemma from_iter_height:
  assumes "length xs \<le> 12 ^ 16"
  shows "node_height (st_from_iter S xs) < 16"
proof -
  have "length (leaf_nodes S xs) \<le> 12 ^ 15" using length_leaf_nodes[of xs] assms by simp
  then have h: "\<forall>n \<in> set (build_up S 0 (leaf_nodes S xs)). node_height n \<le> 15"
    using build_up_height[of 0 "leaf_nodes S xs" 15] leaf_nodes_spec[of xs] by simp
  show ?thesis
  proof (cases "build_up S 0 (leaf_nodes S xs)" rule: rev_cases)
    case Nil
    then show ?thesis by (simp add: st_from_iter_def st_new_def)
  next
    case (snoc ns n)
    then have "st_from_iter S xs = n"
      unfolding st_from_iter_def by (cases ns) simp_all
    then show ?thesis using h snoc by auto
  qed
qed

end

section \<open>Properties\<close>

text \<open>A summary and a dimension to instantiate the properties with: the number of items.\<close>

definition counting :: "(nat, nat) item_impl" where
  "counting = \<lparr>summary_zero = 0, add_summary = (+), item_summary = (\<lambda>_. 1)\<rparr>"

definition counting_dimension :: "(nat, nat) dimension_impl" where
  "counting_dimension = \<lparr>dim_zero = 0, dim_add = (+)\<rparr>"

interpretation counted: dimension_laws counting counting_dimension
  by unfold_locales (simp_all add: counting_def counting_dimension_def)

lemma counting_simps [simp]:
  "dim_zero counting_dimension = 0" "dim_add counting_dimension d s = d + s" "item_summary counting x = 1"
  by (simp_all add: counting_dimension_def counting_def)

lemma counting_pos: "pos_at counting counting_dimension d xs = d + length xs"
  by (induction xs arbitrary: d) simp_all

text \<open>C12: appending two trees never panics, gives the concatenation of their items in a tree with all
  its summaries right, and keeps the minimal
  occupancy of the nodes below the root, so that the height stays logarithmic.  Of the summaries it
  needs associativity and a zero that is neutral on the left.\<close>

theorem sum_tree_append:
  assumes "\<And>a b c. add_summary S (add_summary S a b) c = add_summary S a (add_summary S b c)"
    "\<And>a. add_summary S (summary_zero S) a = a"
    "well_formed S t" "well_formed S u"
  shows "\<exists>v. st_append S t u = Some v \<and> well_formed S v \<and> flat v = flat t @ flat u \<and>
    (dense t \<and> dense u \<longrightarrow> dense v \<and> (0 < node_height v \<longrightarrow> tree_base ^ node_height v \<le> length (flat v)))"
proof -
  have "summary_laws S" using assms(1,2) by unfold_locales
  from summary_laws.append_spec[OF this assms(3,4)] show ?thesis using dense_height[of S] by blast
qed

theorem sum_tree_append_witness:
  "\<exists>v. st_append counting (st_from_iter counting [0..<40]) (st_from_iter counting [40..<45]) = Some v \<and>
    flat v = [0..<40] @ [40..<45]"
proof -
  have "well_formed counting (st_from_iter counting [0..<40])" "well_formed counting (st_from_iter counting [40..<45])"
    using counted.from_iter_spec by blast+
  from sum_tree_append[OF counted.add_assoc counted.zero_left this]
  obtain v where "st_append counting (st_from_iter counting [0..<40]) (st_from_iter counting [40..<45]) = Some v"
    "flat v = flat (st_from_iter counting [0..<40]) @ flat (st_from_iter counting [40..<45])" by blast
  then show ?thesis using counted.from_iter_spec by metis
qed

text \<open>C23: the tree built from a list, read back with a cursor, gives the list, as long as it has at
  most \<open>12 ^ 16\<close> items: the loop over the cursor ends, and the stack of 16 entries is enough.\<close>

theorem sum_tree_roundtrip:
  assumes "\<And>a b c. add_summary S (add_summary S a b) c = add_summary S a (add_summary S b c)"
    "\<And>a. add_summary S (summary_zero S) a = a" "length xs \<le> 12 ^ 16"
  shows "st_items (st_from_iter S xs) = Some xs"
proof -
  have S: "summary_laws S" using assms(1,2) by unfold_locales
  show ?thesis
    using summary_laws.items_spec[OF S] summary_laws.from_iter_spec[OF S, of xs]
      summary_laws.from_iter_height[OF S assms(3)] by simp
qed

theorem sum_tree_roundtrip_witness: "st_items (st_from_iter counting [0..<30]) = Some [0..<30]"
  by (rule sum_tree_roundtrip[OF counted.add_assoc counted.zero_left]) simp

text \<open>C24: \<open>find\<close> is a new cursor, a seek and a read of the item, as its documentation says: on a tree
  that is not empty, with a target that is monotone over its positions, both give the first item whose
  end is not passed by the target and the position before it, or no item and the end of the tree.\<close>

theorem find_is_seek:
  assumes "\<And>a b c. add_summary S (add_summary S a b) c = add_summary S a (add_summary S b c)"
    "\<And>a. add_summary S (summary_zero S) a = a"
    "\<And>d a b. dim_add D (dim_add D d a) b = dim_add D d (add_summary S a b)"
    "well_formed S t" "node_height t < 16" "flat t \<noteq> []"
    "cmp (dim_zero D) \<noteq> Less" "monotone_target S D (passes cmp b) (dim_zero D) (flat t)"
  shows "\<exists>c found pos ed x. cursor_seek D cmp b (cursor_new D t) = Some (c, found) \<and> st_find D cmp b t = (pos, ed, x) \<and>
    cursor_start c = pos \<and> cursor_item c = Some x \<and>
    (case x of
       None \<Rightarrow> list_all (\<lambda>i. passes cmp b (pos_at S D (dim_zero D) (take (Suc i) (flat t)))) [0..<length (flat t)] \<and>
         pos = pos_at S D (dim_zero D) (flat t)
     | Some y \<Rightarrow> \<exists>k < length (flat t). y = flat t ! k \<and> pos = pos_at S D (dim_zero D) (take k (flat t)) \<and>
         ed = pos_at S D (dim_zero D) (take (Suc k) (flat t)) \<and> \<not> passes cmp b ed)"
proof -
  have D: "dimension_laws S D" using assms(1-3) by unfold_locales
  let ?xs = "flat t" and ?z = "dim_zero D"
  define k where "k = length (passed S D (passes cmp b) ?z ?xs)"
  obtain c found where c: "cursor_seek D cmp b (cursor_new D t) = Some (c, found)" "cursor_at S D t k c"
    using dimension_laws.seek_spec[OF D assms(4,5) _ assms(7,8), of "cursor_new D t"]
    by (auto simp: dimension_laws.seeked_def[OF D] k_def cursor_new_def)
  note find = dimension_laws.find_spec[OF D assms(4,6,8), folded k_def]
  have kl: "k \<le> length ?xs" using passed_length[of S D "passes cmp b" ?z ?xs] by (simp add: k_def)
  have start: "cursor_start c = pos_at S D ?z (take k ?xs)" using c(2) by (simp add: cursor_start_def cursor_at_def)
  note item = cursor_item_at[OF c(2) assms(4)]
  show ?thesis
  proof (cases "k < length ?xs")
    case True
    then have "passed S D (passes cmp b) ?z ?xs \<noteq> ?xs" by (auto simp: k_def)
    then have "\<not> passes cmp b (pos_at S D ?z (take (Suc k) ?xs))" unfolding k_def by (rule passed_next)
    then show ?thesis using c(1) find start item True by auto
  next
    case False
    then have k: "k = length ?xs" using kl by simp
    then have "passed S D (passes cmp b) ?z ?xs = ?xs" using passed_take[of S D "passes cmp b" ?z ?xs] by (simp add: k_def)
    then have e: "passes cmp b (pos_at S D ?z ?xs)" using passed_end assms(6) by metis
    have "passes cmp b (pos_at S D ?z (take (Suc i) ?xs))" if "i < length ?xs" for i
    proof -
      have "?xs = take (Suc i) ?xs @ drop (Suc i) ?xs @ []" "take (Suc i) ?xs \<noteq> []" using that by auto
      then show ?thesis using assms(8) e unfolding monotone_target_def by (metis append_Nil2)
    qed
    then show ?thesis using c(1) find start item k by (auto simp: list_all_iff)
  qed
qed

theorem find_is_seek_witness:
  "\<exists>c found. cursor_seek counting_dimension (compare_ord 7) Left (cursor_new counting_dimension (st_from_iter counting [0..<30])) =
      Some (c, found) \<and>
    cursor_item c = Some (snd (snd (st_find counting_dimension (compare_ord 7) Left (st_from_iter counting [0..<30]))))"
proof -
  let ?t = "st_from_iter counting [0..<30]"
  have t: "well_formed counting ?t" "flat ?t = [0..<30]" "node_height ?t < 16"
    using counted.from_iter_spec[of "[0..<30]"] counted.from_iter_height[of "[0..<30]"] by simp_all
  have "monotone_target counting counting_dimension (passes (compare_ord 7) Left) (dim_zero counting_dimension) (flat ?t)"
    by (auto simp: monotone_target_def counting_pos passes_def compare_ord_def split: if_splits)
  from find_is_seek[OF counted.add_assoc counted.zero_left counted.dim_assoc t(1,3) _ _ this] t(2)
  obtain c found pos ed x where "cursor_seek counting_dimension (compare_ord 7) Left (cursor_new counting_dimension ?t) = Some (c, found)"
    "st_find counting_dimension (compare_ord 7) Left ?t = (pos, ed, x)" "cursor_item c = Some x"
    by (auto simp: compare_ord_def split: if_splits)
  then show ?thesis by auto
qed

text \<open>C25: a slice from a new cursor up to a target and the suffix after it cut the tree in two: the slice
  holds the items that the target passes, the suffix the others, both are well-formed, and they are
  dense if the tree is; the cursor is left at the end.\<close>

theorem slice_and_suffix:
  assumes "\<And>a b c. add_summary S (add_summary S a b) c = add_summary S a (add_summary S b c)"
    "\<And>a. add_summary S (summary_zero S) a = a"
    "\<And>d a b. dim_add D (dim_add D d a) b = dim_add D d (add_summary S a b)"
    "well_formed S t" "node_height t < 16"
    "cmp (dim_zero D) \<noteq> Less" "monotone_target S D (passes cmp b) (dim_zero D) (flat t)"
  shows "\<exists>c u c' v. cursor_slice S D cmp b (cursor_new D t) = Some (c, u) \<and> cursor_suffix S D c = Some (c', v) \<and>
    flat u = passed S D (passes cmp b) (dim_zero D) (flat t) \<and> flat u @ flat v = flat t \<and>
    well_formed S u \<and> well_formed S v \<and> (dense t \<longrightarrow> dense u \<and> dense v) \<and> cursor_item c' = Some None"
proof -
  have D: "dimension_laws S D" using assms(1-3) by unfold_locales
  let ?xs = "flat t" and ?z = "dim_zero D"
  define k where "k = length (passed S D (passes cmp b) ?z ?xs)"
  have fr: "cursor_at S D t 0 (cursor_new D t) \<or> (cursor_fresh D t (cursor_new D t) \<and> (0::nat) = 0)"
    using cursor_new_fresh by blast
  have p: "cursor_position (cursor_new D t) = dim_zero D" by (simp add: cursor_new_def)
  obtain c u where u: "cursor_slice S D cmp b (cursor_new D t) = Some (c, u)" "cursor_at S D t k c" "well_formed S u"
    "flat u = take k ?xs" "dense t \<longrightarrow> dense u"
    using dimension_laws.slice_spec[OF D assms(4,5) fr, of cmp b] assms(6,7) p
    by (auto simp: dimension_laws.seeked_def[OF D] k_def)
  obtain c' v where v: "cursor_suffix S D c = Some (c', v)" "cursor_at S D t (length ?xs) c'" "well_formed S v"
    "flat v = drop k ?xs" "dense t \<longrightarrow> dense v"
    using dimension_laws.suffix_spec[OF D assms(4,5) u(2)] by blast
  have "take k ?xs = passed S D (passes cmp b) ?z ?xs" unfolding k_def by (rule passed_take[symmetric])
  then have "flat u = passed S D (passes cmp b) ?z ?xs" using u(4) by simp
  moreover have "flat u @ flat v = ?xs" unfolding u(4) v(4) by simp
  moreover have "cursor_item c' = Some None" using cursor_item_at[OF v(2) assms(4)] by simp
  ultimately show ?thesis using u(1,3,5) v(1,3,5) by blast
qed

theorem slice_and_suffix_witness:
  "\<exists>c u c' v. cursor_slice counting counting_dimension (compare_ord 17) Right
      (cursor_new counting_dimension (st_from_iter counting [0..<30])) = Some (c, u) \<and>
    cursor_suffix counting counting_dimension c = Some (c', v) \<and> flat u = [0..<17] \<and> flat v = [17..<30]"
proof -
  let ?t = "st_from_iter counting [0..<30]"
  have t: "well_formed counting ?t" "flat ?t = [0..<30]" "node_height ?t < 16"
    using counted.from_iter_spec[of "[0..<30]"] counted.from_iter_height[of "[0..<30]"] by simp_all
  have "monotone_target counting counting_dimension (passes (compare_ord 17) Right) (dim_zero counting_dimension) (flat ?t)"
    by (auto simp: monotone_target_def counting_pos passes_def compare_ord_def split: if_splits)
  from slice_and_suffix[OF counted.add_assoc counted.zero_left counted.dim_assoc t(1,3) _ this]
  obtain c u c' v where u: "cursor_slice counting counting_dimension (compare_ord 17) Right (cursor_new counting_dimension ?t) = Some (c, u)"
    "cursor_suffix counting counting_dimension c = Some (c', v)"
    "flat u = passed counting counting_dimension (passes (compare_ord 17) Right) (dim_zero counting_dimension) (flat ?t)"
    "flat u @ flat v = flat ?t"
    by (auto simp: compare_ord_def split: if_splits)
  have "passed counting counting_dimension (passes (compare_ord 17) Right) d xs = take (17 - d) xs" for d and xs :: "nat list"
    by (induction xs arbitrary: d)
      (auto simp: Let_def passes_def compare_ord_def take_Cons' split: if_splits)
  then have "flat u = [0..<17]" using u(3) t(2) by (simp add: take_upt)
  moreover have "flat v = [17..<30]"
    using u(4) t(2) \<open>flat u = [0..<17]\<close> upt_add_eq_append[of 0 17 13] by simp
  ultimately show ?thesis using u(1,2) by blast
qed

end
