(* ===== verification/TabStop.thy ===== *)
theory TabStop
  imports SumCursorSpec "HOL-Library.List_Lexorder" "HOL-Library.Multiset"
begin

text \<open>
  \<open>lucie/src/tab_stop.rs\<close>: the focus handles of a frame in tab order.  While a frame is painted, handles
  are inserted and groups are opened and closed; a handle is ordered by its path, the tab indices of
  the groups around it and its own, and then by its place in the insertion history.  The order is a
  sum tree keyed by the nodes themselves.

  A focus handle is its identifier with its tab index and its tab-stop flag; the reference-counted map
  behind it is not modelled.  An \<open>isize\<close> is an \<open>int\<close>, as the indices are only compared.  The outer
  \<open>None\<close> of a query is a panic.

  \<open>tab_rep ops m\<close> says that \<open>m\<close> is what the operations \<open>ops\<close> make of the empty map: the order is the
  stable sort of the inserted nodes by their paths.
\<close>

section \<open>Data\<close>

record focus_handle =
  handle_id :: nat
  tab_index :: int
  handle_tab_stop :: bool

datatype tab_stop_operation = Insert focus_handle | Group int | GroupEnd

fun op_focus_handle :: "tab_stop_operation \<Rightarrow> focus_handle option" where
  "op_focus_handle (Insert h) = Some h"
| "op_focus_handle _ = None"

record tab_stop_node =
  node_path :: "int list"
  node_insertion_index :: nat
  node_tab_stop :: bool

fun cmp_path :: "int list \<Rightarrow> int list \<Rightarrow> ordering" where
  "cmp_path [] [] = Equal"
| "cmp_path [] (_ # _) = Less"
| "cmp_path (_ # _) [] = Greater"
| "cmp_path (a # as) (b # bs) = (case compare_ord a b of Equal \<Rightarrow> cmp_path as bs | r \<Rightarrow> r)"

definition cmp_node :: "tab_stop_node \<Rightarrow> tab_stop_node \<Rightarrow> ordering" where
  "cmp_node a b =
     (case cmp_path (node_path a) (node_path b) of
        Equal \<Rightarrow> compare_ord (node_insertion_index a) (node_insertion_index b)
      | r \<Rightarrow> r)"

record tab_stop_summary =
  max_index :: nat
  max_path :: "int list"
  tab_stops :: nat

definition tab_item :: "(tab_stop_node, tab_stop_summary) item_impl" where
  "tab_item = \<lparr>
     summary_zero = \<lparr>max_index = 0, max_path = [], tab_stops = 0\<rparr>,
     add_summary = (\<lambda>a b. \<lparr>max_index = max_index b, max_path = max_path b, tab_stops = tab_stops a + tab_stops b\<rparr>),
     item_summary = (\<lambda>n. \<lparr>max_index = node_insertion_index n, max_path = node_path n,
                          tab_stops = (if node_tab_stop n then 1 else 0)\<rparr>)\<rparr>"

definition node_default :: tab_stop_node where
  "node_default = \<lparr>node_path = [], node_insertion_index = 0, node_tab_stop = False\<rparr>"

definition node_dimension :: "(tab_stop_summary, tab_stop_node) dimension_impl" where
  "node_dimension = \<lparr>dim_zero = node_default,
     dim_add = (\<lambda>n s. n\<lparr>node_insertion_index := max_index s, node_path := max_path s\<rparr>)\<rparr>"

definition count_dimension :: "(tab_stop_summary, nat) dimension_impl" where
  "count_dimension = \<lparr>dim_zero = 0, dim_add = (\<lambda>n s. n + tab_stops s)\<rparr>"

interpretation tab: dimension_laws tab_item node_dimension
  by unfold_locales (simp_all add: tab_item_def node_dimension_def)

interpretation tab_count: dimension_laws tab_item count_dimension
  by unfold_locales (simp add: tab_item_def count_dimension_def)

section \<open>The map\<close>

record tab_stop_map =
  current_path :: "int list"
  insertion_history :: "tab_stop_operation list"
  by_id :: "nat \<rightharpoonup> tab_stop_node"
  tab_order :: "(tab_stop_node, tab_stop_summary) sum_tree"

definition tab_default :: tab_stop_map where
  "tab_default = \<lparr>current_path = [], insertion_history = [], by_id = Map.empty, tab_order = st_new tab_item\<rparr>"

definition tab_insert :: "focus_handle \<Rightarrow> tab_stop_map \<Rightarrow> tab_stop_map option" where
  "tab_insert h m =
     (let m = m\<lparr>insertion_history := insertion_history m @ [Insert h]\<rparr>;
          n = \<lparr>node_path = current_path m @ [tab_index h],
               node_insertion_index = length (insertion_history m) - 1,
               node_tab_stop = handle_tab_stop h\<rparr>;
          m = m\<lparr>by_id := (by_id m)(handle_id h \<mapsto> n)\<rparr> in
      do { (t, _) \<leftarrow> insert_or_replace tab_item node_dimension (\<lambda>n. n) cmp_node n (tab_order m);
           Some (m\<lparr>tab_order := t\<rparr>) })"

definition begin_group :: "int \<Rightarrow> tab_stop_map \<Rightarrow> tab_stop_map" where
  "begin_group i m =
     m\<lparr>insertion_history := insertion_history m @ [Group i], current_path := current_path m @ [i]\<rparr>"

definition end_group :: "tab_stop_map \<Rightarrow> tab_stop_map" where
  "end_group m =
     m\<lparr>insertion_history := insertion_history m @ [GroupEnd], current_path := butlast (current_path m)\<rparr>"

definition tab_clear :: "tab_stop_map \<Rightarrow> tab_stop_map" where
  "tab_clear m = m\<lparr>current_path := [], insertion_history := [], by_id := Map.empty, tab_order := st_new tab_item\<rparr>"

fun tab_replay :: "tab_stop_operation list \<Rightarrow> tab_stop_map \<Rightarrow> tab_stop_map option" where
  "tab_replay [] m = Some m"
| "tab_replay (x # xs) m =
     Option.bind
       (case x of Insert h \<Rightarrow> tab_insert h m | Group i \<Rightarrow> Some (begin_group i m) | GroupEnd \<Rightarrow> Some (end_group m))
       (tab_replay xs)"

definition paint_index :: "tab_stop_map \<Rightarrow> nat" where
  "paint_index m = length (insertion_history m)"

section \<open>Queries\<close>

text \<open>The debug assertion makes a node that does not stand for a handle a panic.\<close>

definition focus_handle_for_order :: "tab_stop_node \<Rightarrow> tab_stop_map \<Rightarrow> focus_handle option option" where
  "focus_handle_for_order n m =
     (case nth_opt (insertion_history m) (node_insertion_index n) of
        None \<Rightarrow> None
      | Some x \<Rightarrow> if op_focus_handle x = None then None else Some (op_focus_handle x))"

definition tab_node_for_focus_id :: "nat \<Rightarrow> tab_stop_map \<Rightarrow> tab_stop_node option" where
  "tab_node_for_focus_id i m = by_id m i"

partial_function (option) skip_forward ::
  "(tab_stop_node, tab_stop_summary, tab_stop_node) cursor \<Rightarrow> tab_stop_node option option" where
  "skip_forward c =
     (case cursor_item c of
        None \<Rightarrow> None
      | Some None \<Rightarrow> Some None
      | Some (Some n) \<Rightarrow>
          if node_tab_stop n then Some (Some n)
          else (case cursor_next node_dimension c of None \<Rightarrow> None | Some c \<Rightarrow> skip_forward c))"

partial_function (option) skip_backward ::
  "(tab_stop_node, tab_stop_summary, tab_stop_node) cursor \<Rightarrow> tab_stop_node option option" where
  "skip_backward c =
     (case cursor_item c of
        None \<Rightarrow> None
      | Some None \<Rightarrow> Some None
      | Some (Some n) \<Rightarrow>
          if node_tab_stop n then Some (Some n)
          else (case cursor_prev node_dimension c of None \<Rightarrow> None | Some c \<Rightarrow> skip_backward c))"

definition next_inner :: "tab_stop_node \<Rightarrow> tab_stop_map \<Rightarrow> tab_stop_node option option" where
  "next_inner n m = do {
     (c, _) \<leftarrow> cursor_seek node_dimension (cmp_node n) Left (cursor_new node_dimension (tab_order m));
     c \<leftarrow> cursor_next node_dimension c;
     skip_forward c
   }"

definition prev_inner :: "tab_stop_node \<Rightarrow> tab_stop_map \<Rightarrow> tab_stop_node option option" where
  "prev_inner n m = do {
     (c, _) \<leftarrow> cursor_seek node_dimension (cmp_node n) Left (cursor_new node_dimension (tab_order m));
     c \<leftarrow> cursor_prev node_dimension c;
     skip_backward c
   }"

definition handle_for_node :: "tab_stop_node option \<Rightarrow> tab_stop_map \<Rightarrow> focus_handle option option" where
  "handle_for_node n m = (case n of None \<Rightarrow> Some None | Some n \<Rightarrow> focus_handle_for_order n m)"

text \<open>\<open>next(None)\<close>, and \<open>next\<close>, whose recursion is a call of the former.\<close>

definition tab_next_first :: "tab_stop_map \<Rightarrow> focus_handle option option" where
  "tab_next_first m = do {
     n \<leftarrow> st_first (tab_order m);
     (case n of
        None \<Rightarrow> Some None
      | Some n \<Rightarrow>
          if node_tab_stop n then focus_handle_for_order n m
          else do { r \<leftarrow> next_inner n m; handle_for_node r m })
   }"

definition tab_next :: "nat option \<Rightarrow> tab_stop_map \<Rightarrow> focus_handle option option" where
  "tab_next focused m =
     (case focused of
        None \<Rightarrow> tab_next_first m
      | Some i \<Rightarrow>
          (case tab_node_for_focus_id i m of
             None \<Rightarrow> tab_next_first m
           | Some n \<Rightarrow> do {
               r \<leftarrow> next_inner n m;
               (case r of Some x \<Rightarrow> focus_handle_for_order x m | None \<Rightarrow> tab_next_first m) }))"

definition tab_prev_last :: "tab_stop_map \<Rightarrow> focus_handle option option" where
  "tab_prev_last m = do {
     n \<leftarrow> st_last (tab_order m);
     (case n of
        None \<Rightarrow> Some None
      | Some n \<Rightarrow>
          if node_tab_stop n then focus_handle_for_order n m
          else do { r \<leftarrow> prev_inner n m; handle_for_node r m })
   }"

definition tab_prev :: "nat option \<Rightarrow> tab_stop_map \<Rightarrow> focus_handle option option" where
  "tab_prev focused m =
     (case focused of
        None \<Rightarrow> tab_prev_last m
      | Some i \<Rightarrow>
          (case tab_node_for_focus_id i m of
             None \<Rightarrow> tab_prev_last m
           | Some n \<Rightarrow> do {
               r \<leftarrow> prev_inner n m;
               (case r of Some x \<Rightarrow> focus_handle_for_order x m | None \<Rightarrow> tab_prev_last m) }))"

section \<open>What a history stands for\<close>

fun spec_path :: "int list \<Rightarrow> tab_stop_operation list \<Rightarrow> int list" where
  "spec_path p [] = p"
| "spec_path p (Insert h # ops) = spec_path p ops"
| "spec_path p (Group i # ops) = spec_path (p @ [i]) ops"
| "spec_path p (GroupEnd # ops) = spec_path (butlast p) ops"

fun spec_nodes :: "int list \<Rightarrow> nat \<Rightarrow> tab_stop_operation list \<Rightarrow> (focus_handle \<times> tab_stop_node) list" where
  "spec_nodes p i [] = []"
| "spec_nodes p i (Insert h # ops) =
     (h, \<lparr>node_path = p @ [tab_index h], node_insertion_index = i, node_tab_stop = handle_tab_stop h\<rparr>) #
     spec_nodes p (Suc i) ops"
| "spec_nodes p i (Group g # ops) = spec_nodes (p @ [g]) (Suc i) ops"
| "spec_nodes p i (GroupEnd # ops) = spec_nodes (butlast p) (Suc i) ops"

definition inserted :: "tab_stop_operation list \<Rightarrow> tab_stop_node list" where
  "inserted ops = map snd (spec_nodes [] 0 ops)"

definition in_tab_order :: "tab_stop_operation list \<Rightarrow> tab_stop_node list" where
  "in_tab_order ops = sort_key node_path (inserted ops)"

definition node_of :: "tab_stop_operation list \<Rightarrow> nat \<Rightarrow> tab_stop_node option" where
  "node_of ops i = map_of (rev (map (\<lambda>(h, n). (handle_id h, n)) (spec_nodes [] 0 ops))) i"

definition tab_rep :: "tab_stop_operation list \<Rightarrow> tab_stop_map \<Rightarrow> bool" where
  "tab_rep ops m \<longleftrightarrow>
     insertion_history m = ops \<and> current_path m = spec_path [] ops \<and> by_id m = node_of ops \<and>
     well_formed tab_item (tab_order m) \<and> dense (tab_order m) \<and> flat (tab_order m) = in_tab_order ops"

lemma spec_path_append [simp]: "spec_path p (xs @ ys) = spec_path (spec_path p xs) ys"
  by (induction p xs rule: spec_path.induct) simp_all

lemma spec_nodes_append: "spec_nodes p i (xs @ ys) = spec_nodes p i xs @ spec_nodes (spec_path p xs) (i + length xs) ys"
  by (induction p i xs rule: spec_nodes.induct) simp_all

lemma spec_nodes_index:
  "(h, n) \<in> set (spec_nodes p i ops) \<Longrightarrow>
     i \<le> node_insertion_index n \<and> node_insertion_index n < i + length ops \<and>
     ops ! (node_insertion_index n - i) = Insert h \<and> node_path n \<noteq> [] \<and> node_tab_stop n = handle_tab_stop h"
  by (induction p i ops rule: spec_nodes.induct) (fastforce simp: nth_Cons')+

lemma sorted_indices: "sorted_wrt (<) (map (node_insertion_index \<circ> snd) (spec_nodes p i ops))"
proof (induction p i ops rule: spec_nodes.induct)
  case (2 p i h ops)
  then show ?case using spec_nodes_index[of _ _ p "Suc i" ops] by fastforce
qed simp_all

lemma length_spec_nodes: "length (spec_nodes p i ops) \<le> length ops"
  by (induction p i ops rule: spec_nodes.induct) auto

lemma inserted_index:
  "n \<in> set (inserted ops) \<Longrightarrow> node_insertion_index n < length ops \<and> node_path n \<noteq> [] \<and>
     (\<exists>h. ops ! node_insertion_index n = Insert h \<and> node_tab_stop n = handle_tab_stop h)"
  using spec_nodes_index[of _ n "[]" 0 ops] by (auto simp: inserted_def)

lemma inserted_distinct: "distinct (map node_insertion_index (inserted ops))"
  using sorted_indices[of "[]" 0 ops] strict_sorted_iff by (auto simp: inserted_def comp_def)

lemma set_in_tab_order [simp]: "set (in_tab_order ops) = set (inserted ops)"
  by (simp add: in_tab_order_def)

lemma length_in_tab_order: "length (in_tab_order ops) \<le> length ops"
  using length_spec_nodes[of "[]" 0 ops] by (simp add: in_tab_order_def inserted_def)

lemma distinct_in_tab_order: "distinct (in_tab_order ops)"
  using inserted_distinct[of ops] by (simp add: in_tab_order_def distinct_map)

section \<open>The order of the nodes\<close>

lemma cmp_path_iff: "cmp_path a b = (if a < b then Less else if a = b then Equal else Greater)"
  by (induction a b rule: cmp_path.induct) (auto simp: compare_ord_def)

lemma cmp_node_Greater:
  "cmp_node a b = Greater \<longleftrightarrow> node_path b < node_path a \<or>
     (node_path b = node_path a \<and> node_insertion_index b < node_insertion_index a)"
  by (auto simp: cmp_node_def cmp_path_iff compare_ord_def)

text \<open>Nodes of one path keep the order of their insertion.\<close>

lemma in_tab_order_sorted: "sorted (map node_path (in_tab_order ops))"
  by (simp add: in_tab_order_def)

lemma in_tab_order_stable:
  "i < j \<Longrightarrow> j < length (in_tab_order ops) \<Longrightarrow>
     node_path (in_tab_order ops ! i) < node_path (in_tab_order ops ! j) \<or>
     node_path (in_tab_order ops ! i) = node_path (in_tab_order ops ! j) \<and>
     node_insertion_index (in_tab_order ops ! i) < node_insertion_index (in_tab_order ops ! j)"
proof -
  assume ij: "i < j" "j < length (in_tab_order ops)"
  let ?F = "in_tab_order ops" and ?p = "node_path (in_tab_order ops ! i)"
  have le: "?p \<le> node_path (?F ! j)"
    using in_tab_order_sorted[of ops] ij by (simp add: sorted_iff_nth_mono_less)
  show ?thesis
  proof (cases "?p = node_path (?F ! j)")
    case True
    let ?same = "\<lambda>n. node_path n = ?p"
    have "sorted_wrt (<) (map node_insertion_index (inserted ops))"
      using sorted_indices[of "[]" 0 ops] by (simp add: inserted_def comp_def)
    then have "sorted_wrt (\<lambda>a b. node_insertion_index a < node_insertion_index b) (inserted ops)"
      by (simp add: sorted_wrt_map)
    then have s: "sorted_wrt (\<lambda>a b. node_insertion_index a < node_insertion_index b) (filter ?same (inserted ops))"
      by (rule sorted_wrt_filter)
    have "filter ?same ?F = filter ?same (inserted ops)"
      unfolding in_tab_order_def by (rule sort_key_stable)
    moreover have "?F = take j ?F @ ?F ! j # drop (Suc j) ?F" using ij(2) by (rule id_take_nth_drop)
    then have "filter ?same ?F = filter ?same (take j ?F) @ filter ?same (?F ! j # drop (Suc j) ?F)"
      by (metis filter_append)
    moreover have "?F ! i \<in> set (filter ?same (take j ?F))"
      using ij by (auto simp: in_set_conv_nth intro!: exI[of _ i])
    ultimately have "node_insertion_index (?F ! i) < node_insertion_index (?F ! j)"
      using s True by (auto simp: sorted_wrt_append)
    then show ?thesis using True by simp
  qed (use le in auto)
qed

lemma cmp_node_in_order:
  "i < length (in_tab_order ops) \<Longrightarrow> j < length (in_tab_order ops) \<Longrightarrow>
     cmp_node (in_tab_order ops ! i) (in_tab_order ops ! j) = Greater \<longleftrightarrow> j < i"
  using in_tab_order_stable[of i j ops] in_tab_order_stable[of j i ops]
  by (cases i j rule: linorder_cases) (auto simp: cmp_node_Greater)

section \<open>Every operation\<close>

lemma in_tab_order_insert:
  assumes x: "inserted (ops @ [x]) = inserted ops @ [n]"
  defines "k \<equiv> length (takeWhile (\<lambda>y. node_path y \<le> node_path n) (in_tab_order ops))"
  shows "in_tab_order (ops @ [x]) = take k (in_tab_order ops) @ n # drop k (in_tab_order ops)"
proof -
  let ?F = "in_tab_order ops"
  have t: "take k ?F = takeWhile (\<lambda>y. node_path y \<le> node_path n) ?F"
    "drop k ?F = dropWhile (\<lambda>y. node_path y \<le> node_path n) ?F"
    by (simp_all add: k_def takeWhile_eq_take[symmetric] dropWhile_eq_drop[symmetric])
  have lo: "\<forall>y \<in> set (take k ?F). node_path y \<le> node_path n" unfolding t by (auto dest: set_takeWhileD)
  have hi: "\<forall>y \<in> set (drop k ?F). node_path n < node_path y"
  proof (cases "drop k ?F")
    case (Cons z zs)
    then have "\<not> node_path z \<le> node_path n" using hd_dropWhile[of "\<lambda>y. node_path y \<le> node_path n" ?F] by (simp add: t)
    moreover have "sorted (map node_path (drop k ?F))"
      using in_tab_order_sorted[of ops] by (simp add: drop_map[symmetric] sorted_wrt_drop)
    ultimately show ?thesis unfolding Cons by force
  qed simp
  have F: "?F = take k ?F @ drop k ?F" by simp
  have "in_tab_order (ops @ [x]) = sort_key node_path (inserted ops @ [n])" by (simp add: in_tab_order_def x)
  also have "\<dots> = take k ?F @ n # drop k ?F"
  proof (rule properties_for_sort_key)
    have "mset (take k ?F) + mset (drop k ?F) = mset (inserted ops)"
      by (metis F in_tab_order_def mset_append mset_sort)
    then show "mset (take k ?F @ n # drop k ?F) = mset (inserted ops @ [n])" by simp
  next
    fix y
    have "filter (\<lambda>z. node_path y = node_path z) (inserted ops) = filter (\<lambda>z. node_path y = node_path z) ?F"
      unfolding in_tab_order_def using sort_key_stable[of node_path "node_path y" "inserted ops"]
      by (simp add: eq_commute[of "node_path y"])
    moreover have "filter (\<lambda>z. node_path y = node_path z) ?F =
        filter (\<lambda>z. node_path y = node_path z) (take k ?F) @ filter (\<lambda>z. node_path y = node_path z) (drop k ?F)"
      by (metis F filter_append)
    moreover have "filter (\<lambda>z. node_path n = node_path z) (drop k ?F) = []" using hi by (auto simp: filter_empty_conv)
    ultimately show "filter (\<lambda>z. node_path y = node_path z) (take k ?F @ n # drop k ?F) =
        filter (\<lambda>z. node_path y = node_path z) (inserted ops @ [n])"
      by auto
  next
    show "sorted (map node_path (take k ?F @ n # drop k ?F))"
    proof -
      have "sorted (map node_path (take k ?F))" "sorted (map node_path (drop k ?F))"
        using in_tab_order_sorted[of ops] by (simp_all add: take_map[symmetric] drop_map[symmetric] sorted_wrt_take sorted_wrt_drop)
      moreover have "node_path x \<le> node_path y" if "x \<in> set (take k ?F)" "y \<in> set (drop k ?F)" for x y
        using lo hi that by (meson le_less_trans less_imp_le)
      ultimately show ?thesis using lo hi by (auto simp: sorted_append less_imp_le)
    qed
  qed
  finally show ?thesis .
qed

lemma small_height:
  assumes "tab_rep ops m" "length ops < 6 ^ 16"
  shows "node_height (tab_order m) < 16"
proof (rule ccontr)
  assume "\<not> ?thesis"
  then have h: "16 \<le> node_height (tab_order m)" by simp
  have "tree_base ^ node_height (tab_order m) \<le> length (flat (tab_order m))"
    by (rule dense_height[of tab_item]) (use assms(1) h in \<open>auto simp: tab_rep_def\<close>)
  moreover have "(6::nat) ^ 16 \<le> tree_base ^ node_height (tab_order m)"
    using h by (simp add: tree_base_def power_increasing del: power_numeral)
  moreover have "length (flat (tab_order m)) \<le> length ops"
    using assms(1) length_in_tab_order by (simp add: tab_rep_def)
  ultimately show False using assms(2) by linarith
qed

lemma keyed: "cmp_node x (dim_add node_dimension d (item_summary tab_item y)) = cmp_node x y"
  by (simp add: node_dimension_def tab_item_def cmp_node_def cong: ordering.case_cong)

lemma tab_insert_spec:
  assumes rep: "tab_rep ops m" and small: "length ops < 6 ^ 16"
  shows "\<exists>m'. tab_insert h m = Some m' \<and> tab_rep (ops @ [Insert h]) m'"
proof -
  define n where "n = \<lparr>node_path = spec_path [] ops @ [tab_index h], node_insertion_index = length ops,
    node_tab_stop = handle_tab_stop h\<rparr>"
  let ?F = "in_tab_order ops"
  let ?t = "tab_order m"
  have t: "well_formed tab_item ?t" "node_height ?t < 16" "dense ?t" "flat ?t = ?F"
    using rep small_height[OF rep small] by (simp_all add: tab_rep_def)
  have spec: "spec_nodes [] 0 (ops @ [Insert h]) = spec_nodes [] 0 ops @ [(h, n)]"
    by (simp add: spec_nodes_append n_def)
  have greater: "cmp_node n y = Greater \<longleftrightarrow> node_path y \<le> node_path n" if "y \<in> set ?F" for y
    using inserted_index[of y ops] that by (auto simp: cmp_node_Greater n_def order_le_less)
  define k where "k = length (takeWhile (\<lambda>y. node_path y \<le> node_path n) ?F)"
  have k: "length (takeWhile (\<lambda>y. cmp_node n y = Greater) ?F) = k"
    unfolding k_def by (rule arg_cong[of _ _ length], rule takeWhile_cong) (use greater in auto)
  have new: "\<not> (k < length ?F \<and> ?F ! k = n)"
    using inserted_index[of "?F ! k" ops] nth_mem[of k ?F] by (auto simp: n_def)
  obtain t' where t': "insert_or_replace tab_item node_dimension (\<lambda>n. n) cmp_node n ?t = Some (t', None)"
    "well_formed tab_item t'" "flat t' = take k ?F @ n # drop k ?F" "dense t'"
  proof -
    have "\<exists>t'. insert_or_replace tab_item node_dimension (\<lambda>n. n) cmp_node n ?t =
        Some (t', if k < length ?F \<and> ?F ! k = n then Some (?F ! k) else None) \<and> well_formed tab_item t' \<and>
      flat t' = take k ?F @ n # drop (if k < length ?F \<and> ?F ! k = n then Suc k else k) ?F \<and> (dense ?t \<longrightarrow> dense t')"
      unfolding k[symmetric] t(4)[symmetric]
    proof (rule tab.insert_or_replace_spec[OF t(1,2)])
      show "cmp_node n (dim_add node_dimension d (item_summary tab_item y)) = cmp_node n y" for d y by (rule keyed)
      show "cmp_node n (flat ?t ! i) = Greater" if "i \<le> j" "j < length (flat ?t)" "cmp_node n (flat ?t ! j) = Greater" for i j
      proof -
        have "node_path (?F ! i) \<le> node_path (?F ! j)" "?F ! i \<in> set ?F" "?F ! j \<in> set ?F"
          using in_tab_order_sorted[of ops] that(1,2) nth_mem[of i ?F] nth_mem[of j ?F]
          unfolding t(4) by (simp_all add: sorted_iff_nth_mono)
        then show ?thesis using that(3) greater unfolding t(4) by (meson order_trans)
      qed
      show "cmp_node n (dim_zero node_dimension) \<noteq> Less"
        by (simp add: node_dimension_def node_default_def cmp_node_def cmp_path_iff n_def)
    qed
    then show ?thesis using that new t(3) by auto
  qed
  have "in_tab_order (ops @ [Insert h]) = take k ?F @ n # drop k ?F"
    unfolding k_def by (rule in_tab_order_insert) (simp add: inserted_def spec)
  moreover have "node_of (ops @ [Insert h]) = (node_of ops)(handle_id h \<mapsto> n)"
    by (simp add: node_of_def fun_eq_iff spec)
  ultimately show ?thesis
    using rep t' by (auto simp: tab_insert_def Let_def tab_rep_def n_def[symmetric])
qed

lemma tab_replay_spec:
  "tab_rep ops m \<Longrightarrow> length (ops @ xs) < 6 ^ 16 \<Longrightarrow> \<exists>m'. tab_replay xs m = Some m' \<and> tab_rep (ops @ xs) m'"
proof (induction xs arbitrary: ops m)
  case (Cons x xs)
  have "\<exists>m'. (case x of Insert h \<Rightarrow> tab_insert h m | Group i \<Rightarrow> Some (begin_group i m) | GroupEnd \<Rightarrow> Some (end_group m)) = Some m' \<and>
      tab_rep (ops @ [x]) m'"
  proof (cases x)
    case (Insert h)
    then show ?thesis using tab_insert_spec[OF Cons.prems(1)] Cons.prems(2) by simp
  qed (use Cons.prems(1) in \<open>simp_all add: begin_group_def end_group_def tab_rep_def in_tab_order_def inserted_def
      node_of_def fun_eq_iff spec_nodes_append\<close>)
  then show ?case using Cons.IH[of "ops @ [x]"] Cons.prems(2) by force
qed simp

lemma tab_default_rep: "tab_rep [] tab_default"
  using tab.new_spec by (simp add: tab_rep_def tab_default_def in_tab_order_def inserted_def node_of_def fun_eq_iff)

section \<open>Queries\<close>

lemma skip_forward_spec:
  "well_formed tab_item t \<Longrightarrow> node_height t < 16 \<Longrightarrow> cursor_at tab_item node_dimension t k c \<Longrightarrow>
     skip_forward c = Some (find node_tab_stop (drop k (flat t)))"
proof (induction "length (flat t) - k" arbitrary: k c rule: less_induct)
  case less
  note item = cursor_item_at[OF less.prems(3,1)]
  show ?case
  proof (cases "k < length (flat t)")
    case True
    obtain c' where c': "cursor_next node_dimension c = Some c'" "cursor_at tab_item node_dimension t (Suc k) c'"
      using tab.next_spec[OF less.prems] True by (auto simp: min_def split: if_splits)
    have "skip_forward c' = Some (find node_tab_stop (drop (Suc k) (flat t)))"
      by (rule less.hyps[OF _ less.prems(1,2) c'(2)]) (use True in simp)
    then show ?thesis using item True c'(1) by (subst skip_forward.simps) (simp add: Cons_nth_drop_Suc[symmetric])
  next
    case False
    then show ?thesis using item by (subst skip_forward.simps) simp
  qed
qed

lemma skip_backward_spec:
  "well_formed tab_item t \<Longrightarrow> node_height t < 16 \<Longrightarrow> cursor_at tab_item node_dimension t k c \<Longrightarrow> k < length (flat t) \<Longrightarrow>
     skip_backward c = Some (find node_tab_stop (rev (take (Suc k) (flat t))))"
proof (induction k arbitrary: c)
  case 0
  obtain c' where c': "cursor_prev node_dimension c = Some c'" "cursor_before node_dimension t c'"
    using tab.prev_spec[OF 0(1-3)] by auto
  have "skip_backward c' = Some None" using cursor_item_before[OF c'(2)] by (subst skip_backward.simps) simp
  then show ?case
    using cursor_item_at[OF 0(3,1)] 0(4) c'(1) by (subst skip_backward.simps) (cases "flat t", simp_all)
next
  case (Suc k)
  obtain c' where c': "cursor_prev node_dimension c = Some c'" "cursor_at tab_item node_dimension t k c'"
    using tab.prev_spec[OF Suc.prems(1-3)] by auto
  have "skip_backward c' = Some (find node_tab_stop (rev (take (Suc k) (flat t))))"
    by (rule Suc.IH[OF Suc.prems(1,2) c'(2)]) (use Suc.prems(4) in simp)
  then show ?case
    using cursor_item_at[OF Suc.prems(3,1)] Suc.prems(4) c'(1)
    by (subst skip_backward.simps) (simp add: take_Suc_conv_app_nth[of "Suc k"])
qed

text \<open>The handle a node stands for, and the stop before and after a node, with the wrap-around.\<close>

definition handle_of :: "tab_stop_operation list \<Rightarrow> tab_stop_node \<Rightarrow> focus_handle" where
  "handle_of ops n = the (op_focus_handle (ops ! node_insertion_index n))"

definition next_stop :: "tab_stop_node list \<Rightarrow> tab_stop_node option \<Rightarrow> tab_stop_node option" where
  "next_stop ns focused =
     (case focused of
        None \<Rightarrow> find node_tab_stop ns
      | Some n \<Rightarrow>
          (case find node_tab_stop (tl (dropWhile (\<lambda>y. y \<noteq> n) ns)) of
             None \<Rightarrow> find node_tab_stop ns
           | Some x \<Rightarrow> Some x))"

definition prev_stop :: "tab_stop_node list \<Rightarrow> tab_stop_node option \<Rightarrow> tab_stop_node option" where
  "prev_stop ns focused =
     (case focused of
        None \<Rightarrow> find node_tab_stop (rev ns)
      | Some n \<Rightarrow>
          (case find node_tab_stop (rev (takeWhile (\<lambda>y. y \<noteq> n) ns)) of
             None \<Rightarrow> find node_tab_stop (rev ns)
           | Some x \<Rightarrow> Some x))"

definition tab_ready :: "tab_stop_operation list \<Rightarrow> tab_stop_map \<Rightarrow> bool" where
  "tab_ready ops m \<longleftrightarrow> tab_rep ops m \<and> length ops < 6 ^ 16"

lemma tab_ready_tree:
  assumes "tab_ready ops m"
  shows "well_formed tab_item (tab_order m)" "node_height (tab_order m) < 16" "flat (tab_order m) = in_tab_order ops"
  using assms small_height[of ops m] by (simp_all add: tab_ready_def tab_rep_def)

lemma seek_node_at:
  assumes rep: "tab_ready ops m" and i: "i < length (in_tab_order ops)"
  shows "\<exists>c r. cursor_seek node_dimension (cmp_node (in_tab_order ops ! i)) Left (cursor_new node_dimension (tab_order m)) =
      Some (c, r) \<and> cursor_at tab_item node_dimension (tab_order m) i c"
proof -
  note tab_tree = tab_ready_tree[OF rep]
  let ?F = "in_tab_order ops" and ?n = "in_tab_order ops ! i"
  have key: "cmp_node ?n (dim_add node_dimension d (item_summary tab_item y)) = cmp_node ?n y" for d y by (rule keyed)
  have "takeWhile (\<lambda>y. cmp_node ?n y = Greater) ?F = take i ?F"
    by (rule takeWhile_eq_take_P_nth) (use assms cmp_node_in_order in auto)
  then have s: "tab.seeked (cmp_node ?n) Left (tab_order m) 0 = i"
    using tab.passed_takeWhile[of ?F "cmp_node ?n" "cmp_node ?n", OF key] i tab_tree(3) by (simp add: tab.seeked_def)
  have m: "monotone_target tab_item node_dimension (passes (cmp_node ?n) Left) (dim_zero node_dimension) (flat (tab_order m))"
    unfolding tab_tree(3)
    by (rule tab.monotone_sorted[where cmp' = "cmp_node ?n", OF key]) (use assms cmp_node_in_order in auto)
  have "cmp_node ?n (dim_zero node_dimension) \<noteq> Less"
    by (simp add: node_dimension_def node_default_def cmp_node_def cmp_path_iff compare_ord_def split: if_splits)
  from tab.seek_spec[OF tab_tree(1,2) _ this m, of "cursor_new node_dimension (tab_order m)"] s
  show ?thesis by (auto simp: cursor_new_def)
qed

lemma next_inner_spec:
  assumes rep: "tab_ready ops m" and i: "i < length (in_tab_order ops)"
  shows "next_inner (in_tab_order ops ! i) m = Some (find node_tab_stop (drop (Suc i) (in_tab_order ops)))"
proof -
  note tab_tree = tab_ready_tree[OF rep]
  obtain c r c' where "cursor_seek node_dimension (cmp_node (in_tab_order ops ! i)) Left (cursor_new node_dimension (tab_order m)) = Some (c, r)"
    "cursor_next node_dimension c = Some c'" "cursor_at tab_item node_dimension (tab_order m) (Suc i) c'"
    using seek_node_at[OF rep i] tab.next_spec[OF tab_tree(1,2), of i] i tab_tree(3)
    by (fastforce simp: min_def split: if_splits)
  then show ?thesis using skip_forward_spec[OF tab_tree(1,2)] by (simp add: next_inner_def tab_tree(3))
qed

lemma prev_inner_spec:
  assumes rep: "tab_ready ops m" and i: "i < length (in_tab_order ops)"
  shows "prev_inner (in_tab_order ops ! i) m = Some (find node_tab_stop (rev (take i (in_tab_order ops))))"
proof -
  note tab_tree = tab_ready_tree[OF rep]
  obtain c r c' where c: "cursor_seek node_dimension (cmp_node (in_tab_order ops ! i)) Left (cursor_new node_dimension (tab_order m)) = Some (c, r)"
    "cursor_prev node_dimension c = Some c'"
    "if i = 0 then cursor_before node_dimension (tab_order m) c' else cursor_at tab_item node_dimension (tab_order m) (i - 1) c'"
    using seek_node_at[OF rep i] tab.prev_spec[OF tab_tree(1,2), of i] by fastforce
  show ?thesis
  proof (cases i)
    case 0
    then have "cursor_item c' = Some None" using c(3) by (intro cursor_item_before[of node_dimension "tab_order m"]) simp
    then show ?thesis using c 0 by (simp add: prev_inner_def skip_backward.simps[of c'])
  next
    case (Suc j)
    then show ?thesis
      using c skip_backward_spec[OF tab_tree(1,2), of j c'] i by (simp add: prev_inner_def tab_tree(3))
  qed
qed

lemma handle_for_node_spec:
  assumes rep: "tab_ready ops m" and i: "x \<in> set (in_tab_order ops)"
  shows "focus_handle_for_order x m = Some (Some (handle_of ops x))"
proof -
  obtain h where "node_insertion_index x < length ops" "ops ! node_insertion_index x = Insert h"
    using inserted_index[of x ops] i by auto
  moreover have "insertion_history m = ops" using rep by (simp add: tab_ready_def tab_rep_def)
  ultimately show ?thesis by (simp add: focus_handle_for_order_def nth_opt_def handle_of_def)
qed

lemma find_mem: "find P xs = Some x \<Longrightarrow> x \<in> set xs"
  by (auto simp: find_Some_iff)

lemma tab_next_first_spec:
  assumes rep: "tab_ready ops m"
  shows "tab_next_first m = Some (map_option (handle_of ops) (find node_tab_stop (in_tab_order ops)))"
proof (cases "in_tab_order ops")
  case Nil
  then show ?thesis using first_spec[OF tab_ready_tree(1)[OF rep]] tab_ready_tree(3)[OF rep] by (simp add: tab_next_first_def)
next
  case (Cons x xs)
  have mem: "y \<in> set (in_tab_order ops)" if "find node_tab_stop xs = Some y" for y
    using find_mem[OF that] Cons by simp
  show ?thesis
    using first_spec[OF tab_ready_tree(1)[OF rep]] tab_ready_tree(3)[OF rep] next_inner_spec[OF rep, of 0] Cons handle_for_node_spec[OF rep, of x] handle_for_node_spec[OF rep mem]
    by (auto simp: tab_next_first_def handle_for_node_def split: option.splits)
qed

lemma tab_prev_last_spec:
  assumes rep: "tab_ready ops m"
  shows "tab_prev_last m = Some (map_option (handle_of ops) (find node_tab_stop (rev (in_tab_order ops))))"
proof (cases "in_tab_order ops" rule: rev_cases)
  case Nil
  then show ?thesis using last_spec[OF tab_ready_tree(1)[OF rep]] tab_ready_tree(3)[OF rep] by (simp add: tab_prev_last_def)
next
  case (snoc xs x)
  have mem: "y \<in> set (in_tab_order ops)" if "find node_tab_stop (rev xs) = Some y" for y
    using find_mem[OF that] snoc by simp
  show ?thesis
    using last_spec[OF tab_ready_tree(1)[OF rep]] tab_ready_tree(3)[OF rep] prev_inner_spec[OF rep, of "length xs"] snoc handle_for_node_spec[OF rep, of x]
      handle_for_node_spec[OF rep mem]
    by (auto simp: tab_prev_last_def handle_for_node_def split: option.splits)
qed

lemma node_of_mem: "node_of ops i = Some n \<Longrightarrow> n \<in> set (in_tab_order ops)"
  unfolding node_of_def by (drule map_of_SomeD) (force simp: inserted_def)

lemma split_at:
  "j < length xs \<Longrightarrow> distinct xs \<Longrightarrow> tl (dropWhile (\<lambda>y. y \<noteq> xs ! j) xs) = drop (Suc j) xs \<and> takeWhile (\<lambda>y. y \<noteq> xs ! j) xs = take j xs"
proof -
  assume j: "j < length xs" "distinct xs"
  then have "takeWhile (\<lambda>y. y \<noteq> xs ! j) xs = take j xs"
    by (intro takeWhile_eq_take_P_nth) (auto simp: nth_eq_iff_index_eq)
  moreover from this have "dropWhile (\<lambda>y. y \<noteq> xs ! j) xs = drop j xs"
    using j(1) by (simp add: dropWhile_eq_drop)
  ultimately show ?thesis by (simp add: drop_Suc tl_drop)
qed

lemma tab_queries:
  assumes rep: "tab_ready ops m"
  shows "tab_next focused m = Some (map_option (handle_of ops) (next_stop (in_tab_order ops) (Option.bind focused (node_of ops))))"
  "tab_prev focused m = Some (map_option (handle_of ops) (prev_stop (in_tab_order ops) (Option.bind focused (node_of ops))))"
proof -
  note tab_tree = tab_ready_tree[OF rep]
  have id: "by_id m = node_of ops" using rep by (simp add: tab_ready_def tab_rep_def)
  have "tab_next focused m = Some (map_option (handle_of ops) (next_stop (in_tab_order ops) (Option.bind focused (node_of ops)))) \<and>
    tab_prev focused m = Some (map_option (handle_of ops) (prev_stop (in_tab_order ops) (Option.bind focused (node_of ops))))"
  proof (cases "Option.bind focused (node_of ops)")
    case None
    then show ?thesis
      using tab_next_first_spec[OF rep] tab_prev_last_spec[OF rep] id
      by (cases focused) (auto simp: tab_next_def tab_prev_def tab_node_for_focus_id_def next_stop_def prev_stop_def)
  next
    case (Some n)
    then obtain i where i: "focused = Some i" "node_of ops i = Some n" by (cases focused) auto
    obtain j where j: "j < length (in_tab_order ops)" "in_tab_order ops ! j = n"
      using node_of_mem[OF i(2)] unfolding in_set_conv_nth by blast
    note split = split_at[OF j(1) distinct_in_tab_order]
    have mem: "y \<in> set (in_tab_order ops)" if "find node_tab_stop (drop (Suc j) (in_tab_order ops)) = Some y" for y
      using find_mem[OF that] by (rule in_set_dropD)
    have mem': "y \<in> set (in_tab_order ops)" if "find node_tab_stop (rev (take j (in_tab_order ops))) = Some y" for y
      using find_mem[OF that] by (auto dest: in_set_takeD)
    show ?thesis
      using i id next_inner_spec[OF rep j(1)] prev_inner_spec[OF rep j(1)] j(2) split tab_next_first_spec[OF rep] tab_prev_last_spec[OF rep]
        handle_for_node_spec[OF rep mem] handle_for_node_spec[OF rep mem']
      by (auto simp: tab_next_def tab_prev_def tab_node_for_focus_id_def next_stop_def prev_stop_def split: option.splits)
  qed
  then show "tab_next focused m = Some (map_option (handle_of ops) (next_stop (in_tab_order ops) (Option.bind focused (node_of ops))))"
    "tab_prev focused m = Some (map_option (handle_of ops) (prev_stop (in_tab_order ops) (Option.bind focused (node_of ops))))"
    by simp_all
qed

section \<open>Walking through the stops\<close>

text \<open>Moving the focus \<open>k\<close> times to the next stop: the handles it comes to.\<close>

fun focus_walk :: "nat \<Rightarrow> nat option \<Rightarrow> tab_stop_map \<Rightarrow> focus_handle list option" where
  "focus_walk 0 focused m = Some []"
| "focus_walk (Suc k) focused m = do {
     h \<leftarrow> tab_next focused m;
     (case h of
        None \<Rightarrow> Some []
      | Some h \<Rightarrow> do { hs \<leftarrow> focus_walk k (Some (handle_id h)) m; Some (h # hs) })
   }"

definition stops :: "tab_stop_operation list \<Rightarrow> tab_stop_node list" where
  "stops ops = filter node_tab_stop (in_tab_order ops)"

lemma find_filter: "find P xs = (case filter P xs of [] \<Rightarrow> None | x # _ \<Rightarrow> Some x)"
  by (induction xs) auto

lemma filter_split_mem: "filter P xs = us @ x # vs \<Longrightarrow> x \<in> set xs \<and> P x"
proof -
  assume "filter P xs = us @ x # vs"
  then have "x \<in> set (filter P xs)" by simp
  then show ?thesis by simp
qed

lemma next_stop_nth:
  assumes "distinct ns" "filter node_tab_stop ns = us @ x # vs"
  shows "next_stop ns (Some x) = (case vs of [] \<Rightarrow> find node_tab_stop ns | y # _ \<Rightarrow> Some y)"
proof -
  note mem = filter_split_mem[OF assms(2)]
  then obtain as bs where ns: "ns = as @ x # bs" "x \<notin> set as" by (meson split_list_first)
  then have f: "us @ x # vs = filter node_tab_stop as @ x # filter node_tab_stop bs" using assms(2) ns(1) mem by simp
  have "x \<notin> set us \<and> x \<notin> set vs" using assms by (metis distinct.simps(2) distinct_append distinct_filter not_distinct_conv_prefix)
  then have "vs = filter node_tab_stop bs" using f ns assms(1)
    by (metis append_Cons_eq_iff distinct.simps(2) distinct_append filter_is_subset subsetD)
  moreover have "tl (dropWhile (\<lambda>y. y \<noteq> x) ns) = bs" using ns by (simp add: dropWhile_append)
  ultimately show ?thesis by (auto simp: next_stop_def find_filter[of _ bs] split: list.splits)
qed

lemma node_of_handle:
  assumes "distinct (map (handle_id \<circ> fst) (spec_nodes [] 0 ops))" "n \<in> set (in_tab_order ops)"
  shows "node_of ops (handle_id (handle_of ops n)) = Some n"
proof -
  obtain h where h: "(h, n) \<in> set (spec_nodes [] 0 ops)" using assms(2) by (auto simp: inserted_def)
  then have "handle_of ops n = h" using spec_nodes_index[OF h] by (simp add: handle_of_def)
  moreover have "map_of (rev (map (\<lambda>(h, n). (handle_id h, n)) (spec_nodes [] 0 ops))) (handle_id h) = Some n"
  proof (rule map_of_is_SomeI)
    show "distinct (map fst (rev (map (\<lambda>(h, n). (handle_id h, n)) (spec_nodes [] 0 ops))))"
      using assms(1) by (simp add: rev_map[symmetric] comp_def case_prod_beta)
    show "(handle_id h, n) \<in> set (rev (map (\<lambda>(h, n). (handle_id h, n)) (spec_nodes [] 0 ops)))" using h by force
  qed
  ultimately show ?thesis by (simp add: node_of_def)
qed

lemma focus_walk_from:
  assumes rep: "tab_ready ops m" and ids: "distinct (map (handle_id \<circ> fst) (spec_nodes [] 0 ops))"
  shows "stops ops = us @ x # vs \<Longrightarrow>
    focus_walk (length vs) (Some (handle_id (handle_of ops x))) m = Some (map (handle_of ops) vs)"
proof (induction vs arbitrary: us x)
  case (Cons y vs)
  have x: "x \<in> set (in_tab_order ops)" using Cons.prems unfolding stops_def by (metis filter_split_mem)
  have "next_stop (in_tab_order ops) (Some x) = Some y"
    using next_stop_nth[OF distinct_in_tab_order, of ops us x "y # vs"] Cons.prems by (simp add: stops_def)
  then have "tab_next (Some (handle_id (handle_of ops x))) m = Some (Some (handle_of ops y))"
    using tab_queries(1)[OF rep] node_of_handle[OF ids x] by simp
  then show ?case using Cons.IH[of "us @ [x]" y] Cons.prems by simp
qed simp

lemma focus_walk_all:
  assumes rep: "tab_ready ops m" and ids: "distinct (map (handle_id \<circ> fst) (spec_nodes [] 0 ops))"
  shows "focus_walk (length (stops ops)) None m = Some (map (handle_of ops) (stops ops))"
proof (cases "stops ops")
  case (Cons x xs)
  then have "tab_next None m = Some (Some (handle_of ops x))"
    using tab_queries(1)[OF rep, of None] by (simp add: next_stop_def find_filter stops_def)
  then show ?thesis using focus_walk_from[OF rep ids, of "[]" x xs] Cons by simp
qed simp

lemma tab_ready_replay: "length ops < 6 ^ 16 \<Longrightarrow> tab_replay ops tab_default = Some m \<Longrightarrow> tab_ready ops m"
  using tab_replay_spec[OF tab_default_rep, of ops] by (auto simp: tab_ready_def)

section \<open>Properties\<close>

text \<open>C26: replaying a history of fewer than \<open>6 ^ 16\<close> operations never panics (the tree under the order
  stays below the 16 levels of the cursor's stack), and the order it leaves is the stable sort of the
  inserted nodes by their paths, compared lexicographically: groups come where their index says, and
  equal paths keep the order of insertion.\<close>

theorem tab_replay_sorts:
  assumes "length ops < 6 ^ 16"
  shows "\<exists>m. tab_replay ops tab_default = Some m \<and> st_items (tab_order m) = Some (sort_key node_path (inserted ops)) \<and>
    node_height (tab_order m) < 16 \<and> current_path m = spec_path [] ops \<and> paint_index m = length ops"
proof -
  obtain m where m: "tab_replay ops tab_default = Some m" "tab_rep ops m"
    using tab_replay_spec[OF tab_default_rep, of ops] assms by auto
  then have r: "tab_ready ops m" using assms by (simp add: tab_ready_def)
  note t = tab_ready_tree[OF r]
  show ?thesis
    using m t tab.items_spec[OF t(1,2)] by (simp add: tab_rep_def in_tab_order_def paint_index_def)
qed

definition three_handles :: "tab_stop_operation list" where
  "three_handles =
     [Insert \<lparr>handle_id = 0, tab_index = 1, handle_tab_stop = True\<rparr>,
      Group 0, Insert \<lparr>handle_id = 1, tab_index = 5, handle_tab_stop = False\<rparr>, GroupEnd,
      Insert \<lparr>handle_id = 2, tab_index = 0, handle_tab_stop = True\<rparr>]"

theorem tab_replay_sorts_witness:
  "\<exists>m. tab_replay three_handles tab_default = Some m \<and>
    map_option (map node_path) (st_items (tab_order m)) = Some [[0], [0, 5], [1]]"
proof -
  obtain m where "tab_replay three_handles tab_default = Some m"
    "st_items (tab_order m) = Some (sort_key node_path (inserted three_handles))"
    using tab_replay_sorts[of three_handles] by (auto simp: three_handles_def)
  then show ?thesis by (simp add: three_handles_def inserted_def)
qed

text \<open>\<open>next\<close> and \<open>prev\<close> never panic; they give the nearest tab stop after and before the focused
  handle in tab order, and wrap around; without a focus, or with one that is not in the map, they give
  the first and the last stop, and without any stop nothing.\<close>

theorem tab_next_prev:
  assumes "length ops < 6 ^ 16" "tab_replay ops tab_default = Some m"
  shows "tab_next focused m =
      Some (map_option (handle_of ops) (next_stop (in_tab_order ops) (Option.bind focused (node_of ops)))) \<and>
    tab_prev focused m =
      Some (map_option (handle_of ops) (prev_stop (in_tab_order ops) (Option.bind focused (node_of ops))))"
  using tab_queries[OF tab_ready_replay[OF assms]] by blast

theorem tab_next_prev_witness:
  "\<exists>m h. tab_replay three_handles tab_default = Some m \<and> tab_next (Some 0) m = Some (Some h) \<and> handle_id h = 2"
proof -
  obtain m where m: "tab_replay three_handles tab_default = Some m"
    using tab_replay_spec[OF tab_default_rep, of three_handles] by (auto simp: three_handles_def)
  have "tab_next (Some 0) m = Some (map_option (handle_of three_handles)
      (next_stop (in_tab_order three_handles) (Option.bind (Some 0) (node_of three_handles))))"
    using tab_next_prev[OF _ m, of "Some 0"] by (simp add: three_handles_def)
  then have "tab_next (Some 0) m = Some (Some \<lparr>handle_id = 2, tab_index = 0, handle_tab_stop = True\<rparr>)"
    by (simp add: three_handles_def in_tab_order_def inserted_def node_of_def next_stop_def handle_of_def)
  then show ?thesis using m by auto
qed

text \<open>When every handle is inserted once, moving the focus forward from nowhere reaches every tab
  stop, each once and in tab order, before it comes back to the first.\<close>

theorem tab_next_visits_all:
  assumes "length ops < 6 ^ 16" "tab_replay ops tab_default = Some m"
    "distinct (map (handle_id \<circ> fst) (spec_nodes [] 0 ops))" "stops ops \<noteq> []"
  shows "focus_walk (length (stops ops)) None m = Some (map (handle_of ops) (stops ops)) \<and>
    tab_next (Some (handle_id (handle_of ops (last (stops ops))))) m = Some (Some (handle_of ops (hd (stops ops))))"
proof -
  note r = tab_ready_replay[OF assms(1,2)]
  have s: "stops ops = butlast (stops ops) @ last (stops ops) # []" using assms(4) by simp
  have "last (stops ops) \<in> set (in_tab_order ops)" using assms(4) last_in_set unfolding stops_def by fastforce
  then have "node_of ops (handle_id (handle_of ops (last (stops ops)))) = Some (last (stops ops))"
    by (rule node_of_handle[OF assms(3)])
  moreover have "next_stop (in_tab_order ops) (Some (last (stops ops))) = Some (hd (stops ops))"
    using next_stop_nth[OF distinct_in_tab_order, of ops "butlast (stops ops)" "last (stops ops)" "[]"] s assms(4)
    by (simp add: find_filter stops_def[symmetric] split: list.split)
  ultimately show ?thesis using focus_walk_all[OF r assms(3)] tab_queries(1)[OF r] by simp
qed

theorem tab_next_visits_all_witness:
  "\<exists>m. tab_replay three_handles tab_default = Some m \<and>
    map_option (map handle_id) (focus_walk 2 None m) = Some [2, 0]"
proof -
  obtain m where m: "tab_replay three_handles tab_default = Some m"
    using tab_replay_spec[OF tab_default_rep, of three_handles] by (auto simp: three_handles_def)
  have s: "stops three_handles = [\<lparr>node_path = [0], node_insertion_index = 4, node_tab_stop = True\<rparr>,
      \<lparr>node_path = [1], node_insertion_index = 0, node_tab_stop = True\<rparr>]"
    by (simp add: stops_def three_handles_def in_tab_order_def inserted_def)
  have d: "distinct (map (handle_id \<circ> fst) (spec_nodes [] 0 three_handles))" by (simp add: three_handles_def)
  have b: "length three_handles < 6 ^ 16" by (simp add: three_handles_def)
  have n: "stops three_handles \<noteq> []" and l: "length (stops three_handles) = 2" unfolding s by simp_all
  have w: "focus_walk 2 None m = Some (map (handle_of three_handles) (stops three_handles))"
    using conjunct1[OF tab_next_visits_all[OF b m d n]] unfolding l .
  have "map handle_id (map (handle_of three_handles) (stops three_handles)) = [2, 0]"
    unfolding s by (simp add: three_handles_def handle_of_def inserted_def)
  then have "map_option (map handle_id) (focus_walk 2 None m) = Some [2, 0]" unfolding w by simp
  with m show ?thesis by (intro exI[of _ m] conjI)
qed

end
