(* ===== verification/Transform.thy ===== *)
theory Transform
  imports Geometry Complex_Main
begin

text \<open>
  The transformation matrices of \<open>crates/lucie/src/scene.rs\<close>: a two by two matrix, row-major, and a
  translation.  The \<open>f32\<close> values are real numbers here, so the laws hold without rounding.
\<close>

record transformation_matrix =
  m00 :: real
  m01 :: real
  m10 :: real
  m11 :: real
  translation0 :: real
  translation1 :: real

definition tm_unit :: transformation_matrix where
  "tm_unit = \<lparr>m00 = 1, m01 = 0, m10 = 0, m11 = 1, translation0 = 0, translation1 = 0\<rparr>"

definition tm_compose :: "transformation_matrix \<Rightarrow> transformation_matrix \<Rightarrow> transformation_matrix" where
  "tm_compose m other =
     (if other = tm_unit then m
      else \<lparr>m00 = m00 m * m00 other + m01 m * m10 other,
            m01 = m00 m * m01 other + m01 m * m11 other,
            m10 = m10 m * m00 other + m11 m * m10 other,
            m11 = m10 m * m01 other + m11 m * m11 other,
            translation0 = translation0 m + m00 m * translation0 other + m01 m * translation1 other,
            translation1 = translation1 m + m10 m * translation0 other + m11 m * translation1 other\<rparr>)"

definition tm_translate :: "real point \<Rightarrow> transformation_matrix \<Rightarrow> transformation_matrix" where
  "tm_translate p m =
     tm_compose m \<lparr>m00 = 1, m01 = 0, m10 = 0, m11 = 1, translation0 = pt_x p, translation1 = pt_y p\<rparr>"

definition tm_rotate :: "real \<Rightarrow> transformation_matrix \<Rightarrow> transformation_matrix" where
  "tm_rotate angle m =
     tm_compose m \<lparr>m00 = cos angle, m01 = - sin angle, m10 = sin angle, m11 = cos angle,
                   translation0 = 0, translation1 = 0\<rparr>"

definition tm_scale :: "real extent \<Rightarrow> transformation_matrix \<Rightarrow> transformation_matrix" where
  "tm_scale s m =
     tm_compose m \<lparr>m00 = width s, m01 = 0, m10 = 0, m11 = height s, translation0 = 0, translation1 = 0\<rparr>"

definition tm_apply :: "real point \<Rightarrow> transformation_matrix \<Rightarrow> real point" where
  "tm_apply p m = point_new (translation0 m + m00 m * pt_x p + m01 m * pt_y p)
                            (translation1 m + m10 m * pt_x p + m11 m * pt_y p)"

lemma tm_apply_unit: "tm_apply p tm_unit = p"
  by (simp add: tm_apply_def tm_unit_def point_new_def)

text \<open>The shortcut for the unit matrix does not change the product.\<close>

lemma tm_compose_product:
  "tm_compose m other =
     \<lparr>m00 = m00 m * m00 other + m01 m * m10 other,
      m01 = m00 m * m01 other + m01 m * m11 other,
      m10 = m10 m * m00 other + m11 m * m10 other,
      m11 = m10 m * m01 other + m11 m * m11 other,
      translation0 = translation0 m + m00 m * translation0 other + m01 m * translation1 other,
      translation1 = translation1 m + m10 m * translation0 other + m11 m * translation1 other\<rparr>"
  by (simp add: tm_compose_def tm_unit_def)

lemma tm_apply_compose: "tm_apply p (tm_compose m other) = tm_apply (tm_apply p other) m"
  by (simp add: tm_compose_product tm_apply_def point_new_def algebra_simps)

text \<open>Composing two transformations applies the argument first and then the receiver, with the
  shortcut for the unit matrix or without it; composition is associative with the unit as its neutral
  element, and a rotation keeps the distance from the origin.\<close>

theorem transform_laws:
  "tm_apply p (tm_compose m other) = tm_apply (tm_apply p other) m \<and>
   tm_compose (tm_compose m n) other = tm_compose m (tm_compose n other) \<and>
   tm_compose m tm_unit = m \<and> tm_compose tm_unit m = m \<and>
   tm_apply p (tm_translate d m) = tm_apply (point_add p d) m \<and>
   tm_apply p (tm_scale s m) = tm_apply (point_new (width s * pt_x p) (height s * pt_y p)) m \<and>
   (pt_x (tm_apply p (tm_rotate angle tm_unit)))\<^sup>2 + (pt_y (tm_apply p (tm_rotate angle tm_unit)))\<^sup>2 =
     (pt_x p)\<^sup>2 + (pt_y p)\<^sup>2"
proof -
  have assoc: "tm_compose (tm_compose m n) other = tm_compose m (tm_compose n other)"
    by (simp add: tm_compose_product algebra_simps)
  have gen: "(c * x - e * y)\<^sup>2 + (e * x + c * y)\<^sup>2 = (c\<^sup>2 + e\<^sup>2) * (x\<^sup>2 + y\<^sup>2)" for c e x y :: real
    by (simp add: power2_eq_square algebra_simps)
  have rot: "(cos angle * x - sin angle * y)\<^sup>2 + (sin angle * x + cos angle * y)\<^sup>2 = x\<^sup>2 + y\<^sup>2" for x y :: real
    by (simp add: gen)
  have unit: "tm_compose m tm_unit = m" "tm_compose tm_unit m = m"
    by (simp_all add: tm_compose_product tm_unit_def)
  have moves: "tm_apply p (tm_translate d m) = tm_apply (point_add p d) m"
    "tm_apply p (tm_scale s m) = tm_apply (point_new (width s * pt_x p) (height s * pt_y p)) m"
    by (simp_all add: tm_translate_def tm_scale_def tm_apply_compose)
      (simp_all add: tm_apply_def point_new_def point_add_def add.commute)
  have "(pt_x (tm_apply p (tm_rotate angle tm_unit)))\<^sup>2 + (pt_y (tm_apply p (tm_rotate angle tm_unit)))\<^sup>2 =
      (pt_x p)\<^sup>2 + (pt_y p)\<^sup>2"
    using rot[of "pt_x p" "pt_y p"]
    by (simp add: tm_rotate_def tm_apply_compose tm_apply_unit) (simp add: tm_apply_def point_new_def)
  then show ?thesis using assoc unit moves tm_apply_compose by blast
qed

end
