(* ===== verification/SumIter.thy ===== *)
theory SumIter
  imports SumCursorSpec
begin

text \<open>
  The iterator over the items of a sum tree, \<open>Iter\<close> in \<open>lucie-common/src/sum_tree/cursor.rs\<close>: a cursor
  without a position.  It is related to the forward loop of a cursor over the unit dimension, so that the
  specification of the cursor says what it yields: the items of the tree in order, then nothing.  An
  iterator that has ended starts again at the next call, because its stack is empty then.
\<close>

record ('a, 's) tree_iter =
  iter_tree :: "('a, 's) sum_tree"
  iter_stack :: "('a, 's, unit) stack_entry list"

definition iter_new :: "('a, 's) sum_tree \<Rightarrow> ('a, 's) tree_iter" where
  "iter_new t = \<lparr>iter_tree = t, iter_stack = []\<rparr>"

partial_function (option) iter_loop ::
  "('a, 's, unit) stack_entry list \<Rightarrow> bool \<Rightarrow> (('a, 's, unit) stack_entry list \<times> 'a option) option" where
  "iter_loop st descend =
     (case st of
        [] \<Rightarrow> Some (st, None)
      | e # rest \<Rightarrow>
          let i = (if descend then entry_index e else Suc (entry_index e)); e = e\<lparr>entry_index := i\<rparr> in
          (case entry_tree e of
             Internal _ _ _ ts \<Rightarrow>
               (case nth_opt ts i of
                  Some t \<Rightarrow>
                    (case push_entry \<lparr>entry_tree = t, entry_index = 0, entry_position = ()\<rparr> (e # rest) of
                       None \<Rightarrow> None
                     | Some st \<Rightarrow> iter_loop st True)
                | None \<Rightarrow> iter_loop rest False)
           | Leaf _ its _ \<Rightarrow>
               (case nth_opt its i of
                  Some x \<Rightarrow> Some (e # rest, Some x)
                | None \<Rightarrow> iter_loop rest False)))"

definition iter_next :: "('a, 's) tree_iter \<Rightarrow> (('a, 's) tree_iter \<times> 'a option) option" where
  "iter_next it = do {
     (st, descend) \<leftarrow>
       (if iter_stack it = [] then do {
          st \<leftarrow> push_entry \<lparr>entry_tree = iter_tree it, entry_index = 0, entry_position = ()\<rparr> [];
          Some (st, True) }
        else Some (iter_stack it, False));
     (st, x) \<leftarrow> iter_loop st descend;
     Some (it\<lparr>iter_stack := st\<rparr>, x)
   }"

text \<open>A consumer that takes every item.\<close>

partial_function (option) iter_collect :: "('a, 's) tree_iter \<Rightarrow> 'a list \<Rightarrow> 'a list option" where
  "iter_collect it acc =
     (case iter_next it of
        None \<Rightarrow> None
      | Some (it, None) \<Rightarrow> Some acc
      | Some (it, Some x) \<Rightarrow> iter_collect it (acc @ [x]))"

definition st_iter :: "('a, 's) sum_tree \<Rightarrow> 'a list option" where
  "st_iter t = iter_collect (iter_new t) []"

text \<open>Two trees are equal when their items are.\<close>

definition st_eq :: "('a, 's) sum_tree \<Rightarrow> ('a, 's) sum_tree \<Rightarrow> bool option" where
  "st_eq t u = do { xs \<leftarrow> st_iter t; ys \<leftarrow> st_iter u; Some (xs = ys) }"

section \<open>The iterator follows the cursor\<close>

fun item_of :: "('a, 's, unit) stack_entry list \<Rightarrow> 'a option" where
  "item_of [] = None"
| "item_of (e # rest) = (case entry_tree e of Leaf _ its _ \<Rightarrow> nth_opt its (entry_index e) | Internal _ _ _ _ \<Rightarrow> None)"

definition trees_ok :: "('a, 's) item_impl \<Rightarrow> ('a, 's, unit) stack_entry list \<Rightarrow> bool" where
  "trees_ok S st \<longleftrightarrow> (\<forall>e \<in> set st. well_formed S (entry_tree e))"

lemma locates_trees_ok: "locates S D t d k st \<Longrightarrow> well_formed S t \<Longrightarrow> \<forall>e \<in> set st. well_formed S (entry_tree e)"
proof (induction rule: locates.induct)
  case (locates_internal ts ls t rs d k st i j h s cs)
  then show ?case by (auto simp: well_formed_internal)
qed simp

lemma skip_none: "skip_summaries D (\<lambda>_. True) cs i epos pos = (i, epos, pos)"
  by (cases cs) simp_all

lemma unit_entry: "e\<lparr>entry_index := i, entry_position := u\<rparr> = (e :: ('a, 's, unit) stack_entry)\<lparr>entry_index := i\<rparr>"
  by (cases e) simp

lemma iter_loop_follows:
  fixes S :: "('a, 's) item_impl" and st :: "('a, 's, unit) stack_entry list"
  assumes "forward_loop D f st pos d = Some r" "f = (\<lambda>_. True)" "trees_ok S st"
  shows "iter_loop st d = Some (fst r, item_of (fst r))"
proof -
  have "f = (\<lambda>_. True) \<longrightarrow> trees_ok S st \<longrightarrow> iter_loop st d = Some (fst r, item_of (fst r))"
  proof (rule forward_loop.raw_induct[OF _ assms(1)])
    fix loop :: "('s, unit) dimension_impl \<Rightarrow> ('s \<Rightarrow> bool) \<Rightarrow> ('a, 's, unit) stack_entry list \<Rightarrow> unit \<Rightarrow> bool \<Rightarrow>
        (('a, 's, unit) stack_entry list \<times> unit) option"
      and D f and st :: "('a, 's, unit) stack_entry list" and pos d r
    assume IH: "\<And>D f st pos d r. loop D f st pos d = Some r \<Longrightarrow>
        f = (\<lambda>_. True) \<longrightarrow> trees_ok S st \<longrightarrow> iter_loop st d = Some (fst r, item_of (fst r))"
      and run: "(case st of [] \<Rightarrow> Some (st, pos)
        | e # rest \<Rightarrow>
          (case entry_tree e of
             Internal _ _ cs ts \<Rightarrow>
               let i = (if d then entry_index e else Suc (entry_index e));
                   epos = (if d then entry_position e else pos);
                   (i, epos, pos) = skip_summaries D f (drop i cs) i epos pos in
               (case nth_opt ts i of
                  Some t \<Rightarrow>
                    (case push_entry \<lparr>entry_tree = t, entry_index = 0, entry_position = pos\<rparr>
                            (e\<lparr>entry_index := i, entry_position := epos\<rparr> # rest) of
                       None \<Rightarrow> None
                     | Some st \<Rightarrow> loop D f st pos True)
                | None \<Rightarrow> loop D f rest pos False)
           | Leaf _ _ ss \<Rightarrow>
               (case (if d then Some (entry_index e, entry_position e, pos)
                      else map_option (\<lambda>c. (Suc (entry_index e), dim_add D (entry_position e) c, dim_add D pos c))
                             (nth_opt ss (entry_index e))) of
                  None \<Rightarrow> None
                | Some (i, epos, pos) \<Rightarrow>
                    let (i, epos, pos) = skip_summaries D f (drop i ss) i epos pos in
                    if i < length ss then Some (e\<lparr>entry_index := i, entry_position := epos\<rparr> # rest, pos)
                    else loop D f rest pos False))) = Some r"
    show "f = (\<lambda>_. True) \<longrightarrow> trees_ok S st \<longrightarrow> iter_loop st d = Some (fst r, item_of (fst r))"
    proof (intro impI)
      assume f: "f = (\<lambda>_. True)" and ok: "trees_ok S st"
      show "iter_loop st d = Some (fst r, item_of (fst r))"
      proof (cases st)
        case Nil
        then show ?thesis using run by (subst iter_loop.simps) auto
      next
        case (Cons e rest)
        let ?i = "if d then entry_index e else Suc (entry_index e)"
        have rest: "trees_ok S rest" "well_formed S (entry_tree e)" using ok Cons by (auto simp: trees_ok_def)
        show ?thesis
        proof (cases "entry_tree e")
          case (Internal h s cs ts)
          have wt: "\<forall>t \<in> set ts. well_formed S t" using rest(2) Internal by (auto simp: well_formed_internal nodes_at_def)
          show ?thesis
          proof (cases "nth_opt ts ?i")
            case None
            then have "loop D f rest pos False = Some r" using run Cons Internal f by (simp add: skip_none Let_def del: nth_opt_None)
            then show ?thesis using IH f rest None Cons Internal by (subst iter_loop.simps) (simp add: Let_def del: nth_opt_None)
          next
            case (Some t)
            then obtain st' where st': "push_entry \<lparr>entry_tree = t, entry_index = 0, entry_position = ()\<rparr>
                  (e\<lparr>entry_index := ?i\<rparr> # rest) = Some st'" "loop D f st' pos True = Some r"
              using run Cons Internal f by (auto simp: skip_none unit_entry Let_def split: option.splits)
            have "trees_ok S st'"
              using st'(1) rest wt Some by (auto simp: push_entry_def trees_ok_def nth_opt_def split: if_splits)
            then show ?thesis using IH[OF st'(2)] f st'(1) Some Cons Internal
              by (subst iter_loop.simps) (simp add: Let_def del: nth_opt_Some)
          qed
        next
          case (Leaf s its ss)
          have len: "length ss = length its" using rest(2) Leaf by simp
          show ?thesis
          proof (cases "?i < length ss")
            case True
            then have "r = (e\<lparr>entry_index := ?i\<rparr> # rest, ())"
              using run Cons Leaf f by (auto simp: skip_none unit_entry nth_opt_def split: if_splits)
            then show ?thesis using True Cons Leaf len by (subst iter_loop.simps) (simp add: Let_def nth_opt_def)
          next
            case False
            then have "\<exists>p. loop D f rest p False = Some r"
              using run Cons Leaf f by (auto simp: skip_none nth_opt_def split: if_splits)
            then have "iter_loop rest False = Some (fst r, item_of (fst r))" using IH f rest by blast
            then show ?thesis using False Cons Leaf len by (subst iter_loop.simps) (simp add: Let_def nth_opt_def)
          qed
        qed
      qed
    qed
  qed
  then show ?thesis using assms(2,3) by blast
qed

section \<open>What it yields\<close>

definition iter_at :: "('a, 's) item_impl \<Rightarrow> ('a, 's) sum_tree \<Rightarrow> nat \<Rightarrow> ('a, 's) tree_iter \<Rightarrow> bool" where
  "iter_at S t k it \<longleftrightarrow> iter_tree it = t \<and> locates S unit_dimension t () k (iter_stack it)"

context summary_laws
begin

lemma cursor_step:
  assumes "well_formed S t" "cursor_next unit_dimension c = Some c'" "cursor_at S unit_dimension t k c'"
    "cursor_stack c \<noteq> []" "trees_ok S (cursor_stack c)"
  shows "iter_loop (cursor_stack c) False = Some (cursor_stack c', if k < length (flat t) then Some (flat t ! k) else None)"
proof -
  obtain pos where "forward_loop unit_dimension (\<lambda>_. True) (cursor_stack c) (cursor_position c) False = Some (cursor_stack c', pos)"
    using assms(2,4) by (auto simp: cursor_next_def search_forward_def split: bind_splits)
  from iter_loop_follows[OF this refl assms(5)]
  have "iter_loop (cursor_stack c) False = Some (cursor_stack c', item_of (cursor_stack c'))" by simp
  moreover have "item_of (cursor_stack c') = (if k < length (flat t) then Some (flat t ! k) else None)"
  proof (cases "k < length (flat t)")
    case True
    then obtain i e s its ss where "cursor_stack c' = \<lparr>entry_tree = Leaf s its ss, entry_index = i, entry_position = e\<rparr> # tl (cursor_stack c')"
      "i < length its" "its ! i = flat t ! k"
      using assms(3) locates_top[OF _ assms(1), of unit_dimension "()" k "cursor_stack c'"] by (auto simp: cursor_at_def unit_dimension_def)
    then show ?thesis using True by (metis item_of.simps(2) nth_opt_Some stack_entry.select_convs(1,2) sum_tree.simps(6))
  next
    case False
    then show ?thesis using assms(3) by (simp add: cursor_at_def)
  qed
  ultimately show ?thesis by simp
qed

lemma iter_next_at:
  assumes "well_formed S t" "node_height t < 16" "iter_at S t k it"
  shows "\<exists>it'. iter_next it = Some (it', if Suc k < length (flat t) then Some (flat t ! Suc k) else None) \<and>
    (if Suc k < length (flat t) then iter_at S t (Suc k) it' else it' = iter_new t)"
proof -
  let ?c = "\<lparr>cursor_tree = t, cursor_stack = iter_stack it, cursor_position = (), did_seek = True, at_end = False\<rparr>"
  have l: "locates S unit_dimension t () k (iter_stack it)" using assms(3) by (simp add: iter_at_def)
  then have k: "k < length (flat t)" by (rule locates_less)
  have ne: "iter_stack it \<noteq> []" using locates_length[OF l assms(1)] by auto
  have "cursor_at S unit_dimension t k ?c" using k l by (simp add: cursor_at_def unit_dimension_def)
  from units.next_spec[OF assms(1,2) this]
  obtain c' where c': "cursor_next unit_dimension ?c = Some c'" "cursor_at S unit_dimension t (Suc k) c'"
    using k by (auto simp: min_def split: if_splits)
  have "trees_ok S (iter_stack it)" using locates_trees_ok[OF l assms(1)] by (simp add: trees_ok_def)
  then have "iter_loop (iter_stack it) False =
      Some (cursor_stack c', if Suc k < length (flat t) then Some (flat t ! Suc k) else None)"
    using cursor_step[OF assms(1) c'] ne by simp
  then have "iter_next it = Some (it\<lparr>iter_stack := cursor_stack c'\<rparr>, if Suc k < length (flat t) then Some (flat t ! Suc k) else None)"
    using ne by (simp add: iter_next_def)
  moreover have "if Suc k < length (flat t) then iter_at S t (Suc k) (it\<lparr>iter_stack := cursor_stack c'\<rparr>)
      else it\<lparr>iter_stack := cursor_stack c'\<rparr> = iter_new t"
    using c'(2) assms(3) by (cases it) (auto simp: cursor_at_def iter_at_def iter_new_def unit_dimension_def)
  ultimately show ?thesis by blast
qed

lemma iter_next_new:
  assumes "well_formed S t" "node_height t < 16"
  shows "\<exists>it'. iter_next (iter_new t) = Some (it', if flat t = [] then None else Some (flat t ! 0)) \<and>
    (if flat t = [] then it' = iter_new t else iter_at S t 0 it')"
proof (cases "flat t = []")
  case True
  then obtain s ss where t: "t = Leaf s [] ss" using assms(1) flat_empty_iff[of S t] by (cases t) auto
  have "iter_loop [\<lparr>entry_tree = t, entry_index = 0, entry_position = ()\<rparr>] True = Some ([], None)"
    by (subst iter_loop.simps) (simp add: t nth_opt_def iter_loop.simps[of "[]"])
  then show ?thesis using True by (simp add: iter_next_def iter_new_def push_entry_def)
next
  case False
  let ?e = "\<lparr>entry_tree = t, entry_index = 0, entry_position = ()\<rparr>"
  have ne: "\<not> st_is_empty t" using False assms(1) flat_empty_iff by blast
  obtain c' where c': "cursor_next unit_dimension (cursor_new unit_dimension t) = Some c'" "cursor_at S unit_dimension t 0 c'"
    using units.next_first[OF assms, of "cursor_new unit_dimension t"] cursor_new_fresh by blast
  then obtain pos where f: "forward_loop unit_dimension (\<lambda>_. True) [?e] () True = Some (cursor_stack c', pos)"
    using ne by (auto simp: cursor_next_def search_forward_def cursor_new_def push_entry_def unit_dimension_def split: bind_splits)
  have l: "locates S unit_dimension t () 0 (cursor_stack c')" using c'(2) False by (simp add: cursor_at_def unit_dimension_def)
  have "item_of (cursor_stack c') = Some (flat t ! 0)"
    using locates_top[OF l assms(1)] by (metis item_of.simps(2) nth_opt_Some stack_entry.select_convs(1,2) sum_tree.simps(6))
  then have "iter_loop [?e] True = Some (cursor_stack c', Some (flat t ! 0))"
    using iter_loop_follows[OF f refl, of S] assms(1) by (simp add: trees_ok_def)
  then show ?thesis using False l by (simp add: iter_next_def iter_new_def push_entry_def iter_at_def)
qed

lemma iter_collect_at:
  assumes "well_formed S t" "node_height t < 16"
  shows "iter_at S t k it \<Longrightarrow> iter_collect it acc = Some (acc @ drop (Suc k) (flat t))"
proof (induction "length (flat t) - k" arbitrary: k it acc rule: less_induct)
  case less
  obtain it' where it': "iter_next it = Some (it', if Suc k < length (flat t) then Some (flat t ! Suc k) else None)"
    "if Suc k < length (flat t) then iter_at S t (Suc k) it' else it' = iter_new t"
    using iter_next_at[OF assms less.prems] by blast
  show ?case
  proof (cases "Suc k < length (flat t)")
    case True
    then have "iter_collect it' (acc @ [flat t ! Suc k]) = Some ((acc @ [flat t ! Suc k]) @ drop (Suc (Suc k)) (flat t))"
      using it'(2) by (intro less.hyps) auto
    then show ?thesis using it'(1) True by (subst iter_collect.simps) (simp add: Cons_nth_drop_Suc)
  next
    case False
    then show ?thesis using it'(1) by (subst iter_collect.simps) simp
  qed
qed

lemma iter_spec: "well_formed S t \<Longrightarrow> node_height t < 16 \<Longrightarrow> st_iter t = Some (flat t)"
proof -
  assume t: "well_formed S t" "node_height t < 16"
  obtain it' where it': "iter_next (iter_new t) = Some (it', if flat t = [] then None else Some (flat t ! 0))"
    "if flat t = [] then it' = iter_new t else iter_at S t 0 it'"
    using iter_next_new[OF t] by blast
  show ?thesis
  proof (cases "flat t")
    case Nil
    then show ?thesis using it'(1) unfolding st_iter_def by (subst iter_collect.simps) simp
  next
    case (Cons x xs)
    then show ?thesis using it' iter_collect_at[OF t, of 0 it' "[x]"] unfolding st_iter_def
      by (subst iter_collect.simps) simp
  qed
qed

end

end
