(* ===== verification/ListState.thy ===== *)
theory ListState
  imports SumIter Geometry
begin

text \<open>
  The state of the list element: \<open>crates/lucie/src/elements/list.rs\<close>.  The items of a list are a sum tree;
  a measured item knows its size, the summary of a subtree its number of items and its height, so that
  items are found by index (\<open>Count\<close>) and by pixel offset (\<open>Height\<close>).  The scroll position is logical: an
  item and an offset into it.

  Pixels are the elements of an ordered field, for \<open>f32\<close> without rounding; a focus handle is an opaque
  value of type \<open>'h\<close>.  The scroll handler is a callback of the application: \<open>scroll\<close> returns the event it is
  called with.  \<open>None\<close> is a panic of the sum tree.  What a state means is the list of its items, \<open>heights\<close> is
  the pixel offset of an item.
\<close>

section \<open>Items and their summaries\<close>

record 'a list_offset =
  item_ix :: nat
  offset_in_item :: 'a

datatype list_alignment = AlignTop | AlignBottom

datatype list_measuring_behavior = Measure bool | Visible

fun measuring_reset :: "list_measuring_behavior \<Rightarrow> list_measuring_behavior" where
  "measuring_reset (Measure _) = Measure False"
| "measuring_reset Visible = Visible"

datatype ('a, 'h) list_item = Unmeasured "'h option" | Measured "'a extent" "'h option"

fun item_size :: "('a, 'h) list_item \<Rightarrow> 'a extent option" where
  "item_size (Measured s _) = Some s"
| "item_size (Unmeasured _) = None"

fun item_focus_handle :: "('a, 'h) list_item \<Rightarrow> 'h option" where
  "item_focus_handle (Unmeasured h) = h"
| "item_focus_handle (Measured _ h) = h"

definition contains_focused :: "('h \<Rightarrow> bool) \<Rightarrow> ('a, 'h) list_item \<Rightarrow> bool" where
  "contains_focused focused x = (case item_focus_handle x of None \<Rightarrow> False | Some h \<Rightarrow> focused h)"

record 'a list_item_summary =
  item_total :: nat
  rendered_count :: nat
  unrendered_count :: nat
  sum_height :: 'a
  has_focus_handles :: bool

definition list_item_impl :: "(('a::linordered_field, 'h) list_item, 'a list_item_summary) item_impl" where
  "list_item_impl = \<lparr>
     summary_zero = \<lparr>item_total = 0, rendered_count = 0, unrendered_count = 0, sum_height = 0, has_focus_handles = False\<rparr>,
     add_summary = (\<lambda>s t. \<lparr>item_total = item_total s + item_total t,
       rendered_count = rendered_count s + rendered_count t,
       unrendered_count = unrendered_count s + unrendered_count t,
       sum_height = sum_height s + sum_height t,
       has_focus_handles = (has_focus_handles s \<or> has_focus_handles t)\<rparr>),
     item_summary = (\<lambda>x. case x of
       Unmeasured h \<Rightarrow> \<lparr>item_total = 1, rendered_count = 0, unrendered_count = 1, sum_height = 0,
                       has_focus_handles = (h \<noteq> None)\<rparr>
     | Measured s h \<Rightarrow> \<lparr>item_total = 1, rendered_count = 1, unrendered_count = 0, sum_height = height s,
                       has_focus_handles = (h \<noteq> None)\<rparr>)\<rparr>"

text \<open>The dimensions: \<open>Count\<close>, \<open>Height\<close> (in \<open>Dimensions<Count, Height>\<close>), and the summary itself.\<close>

definition item_count_dimension :: "('a list_item_summary, nat) dimension_impl" where
  "item_count_dimension = \<lparr>dim_zero = 0, dim_add = (\<lambda>n s. n + item_total s)\<rparr>"

definition height_dimension :: "('a::linordered_field list_item_summary, 'a) dimension_impl" where
  "height_dimension = \<lparr>dim_zero = 0, dim_add = (\<lambda>h s. h + sum_height s)\<rparr>"

definition dimensions ::
  "('s, 'd) dimension_impl \<Rightarrow> ('s, 'e) dimension_impl \<Rightarrow> ('s, 'd \<times> 'e) dimension_impl" where
  "dimensions D E = \<lparr>dim_zero = (dim_zero D, dim_zero E), dim_add = (\<lambda>(d, e) s. (dim_add D d s, dim_add E e s))\<rparr>"

definition summary_dimension :: "('a::linordered_field list_item_summary, 'a list_item_summary) dimension_impl" where
  "summary_dimension =
     \<lparr>dim_zero = summary_zero (list_item_impl :: (('a, unit) list_item, 'a list_item_summary) item_impl),
      dim_add = add_summary (list_item_impl :: (('a, unit) list_item, 'a list_item_summary) item_impl)\<rparr>"

definition count_target :: "nat \<Rightarrow> 'a list_item_summary \<Rightarrow> ordering" where
  "count_target n s = compare_ord n (item_total s)"

definition height_target :: "'a::linordered_field \<Rightarrow> 'a list_item_summary \<Rightarrow> ordering" where
  "height_target h s = compare_ord h (sum_height s)"

section \<open>The state\<close>

type_synonym ('a, 'h) list_items = "(('a, 'h) list_item, 'a list_item_summary) sum_tree"

record ('a, 'h) list_state =
  last_layout_bounds :: "'a bounds option"
  last_padding :: "'a edges option"
  list_items :: "('a, 'h) list_items"
  logical_scroll_top :: "'a list_offset option"
  alignment :: list_alignment
  overdraw :: 'a
  reset_flag :: bool
  scrollbar_drag_start_height :: "'a option"
  measuring_behavior :: list_measuring_behavior
  pending_scroll :: "(nat \<times> 'a) option"

definition item_count :: "('a, 'h) list_state \<Rightarrow> nat" where
  "item_count st = item_total (node_summary (list_items st))"

definition content_height :: "('a, 'h) list_state \<Rightarrow> 'a" where
  "content_height st = sum_height (node_summary (list_items st))"

definition current_scroll_top :: "('a::linordered_field, 'h) list_state \<Rightarrow> 'a list_offset" where
  "current_scroll_top st =
     (case logical_scroll_top st of
        Some s \<Rightarrow> s
      | None \<Rightarrow>
          (case alignment st of
             AlignTop \<Rightarrow> \<lparr>item_ix = 0, offset_in_item = 0\<rparr>
           | AlignBottom \<Rightarrow> \<lparr>item_ix = item_count st, offset_in_item = 0\<rparr>))"

definition splice_focusable ::
  "nat \<Rightarrow> nat \<Rightarrow> 'h option list \<Rightarrow> ('a::linordered_field, 'h) list_state \<Rightarrow> ('a, 'h) list_state option" where
  "splice_focusable range_start range_end focus_handles st = do {
     let old_items = cursor_new item_count_dimension (list_items st);
     (old_items, new_items) \<leftarrow>
       cursor_slice list_item_impl item_count_dimension (compare_ord range_start) Right old_items;
     (old_items, _) \<leftarrow> seek_forward item_count_dimension (compare_ord range_end) Right old_items;
     let spliced_count = length focus_handles;
     new_items \<leftarrow> st_extend list_item_impl (map Unmeasured focus_handles) new_items;
     (_, suffix) \<leftarrow> cursor_suffix list_item_impl item_count_dimension old_items;
     new_items \<leftarrow> st_append list_item_impl new_items suffix;
     let st = st\<lparr>list_items := new_items\<rparr>;
     (case logical_scroll_top st of
        None \<Rightarrow> Some st
      | Some s \<Rightarrow>
          if range_start \<le> item_ix s \<and> item_ix s < range_end then
            Some (st\<lparr>logical_scroll_top := Some \<lparr>item_ix = range_start, offset_in_item = 0\<rparr>\<rparr>)
          else if range_end \<le> item_ix s then
            if range_end < range_start \<or> item_ix s < range_end - range_start then None
            else Some (st\<lparr>logical_scroll_top :=
                    Some (s\<lparr>item_ix := item_ix s - (range_end - range_start) + spliced_count\<rparr>)\<rparr>)
          else Some st)
   }"

definition splice :: "nat \<Rightarrow> nat \<Rightarrow> nat \<Rightarrow> ('a::linordered_field, 'h) list_state \<Rightarrow> ('a, 'h) list_state option" where
  "splice range_start range_end count st = splice_focusable range_start range_end (replicate count None) st"

definition list_new :: "nat \<Rightarrow> list_alignment \<Rightarrow> 'a::linordered_field \<Rightarrow> ('a, 'h) list_state option" where
  "list_new count align over =
     splice 0 0 count
       \<lparr>last_layout_bounds = None, last_padding = None, list_items = st_new list_item_impl,
        logical_scroll_top = None, alignment = align, overdraw = over, reset_flag = False,
        scrollbar_drag_start_height = None, measuring_behavior = Visible, pending_scroll = None\<rparr>"

definition measure_all :: "('a, 'h) list_state \<Rightarrow> ('a, 'h) list_state" where
  "measure_all st = st\<lparr>measuring_behavior := Measure False\<rparr>"

definition list_reset :: "nat \<Rightarrow> ('a::linordered_field, 'h) list_state \<Rightarrow> ('a, 'h) list_state option" where
  "list_reset element_count st =
     splice 0 (item_count st) element_count
       (st\<lparr>reset_flag := True, measuring_behavior := measuring_reset (measuring_behavior st),
           logical_scroll_top := None, scrollbar_drag_start_height := None\<rparr>)"

definition unmeasure :: "('a, 'h) list_item \<Rightarrow> ('a, 'h) list_item" where
  "unmeasure x = Unmeasured (item_focus_handle x)"

definition clamp_value :: "'a::linorder \<Rightarrow> 'a \<Rightarrow> 'a \<Rightarrow> 'a" where
  "clamp_value x lo hi = (if x < lo then lo else if x > hi then hi else x)"

definition remeasure :: "('a::linordered_field, 'h) list_state \<Rightarrow> ('a, 'h) list_state option" where
  "remeasure st = do {
     items \<leftarrow> st_iter (list_items st);
     pending \<leftarrow>
       (case logical_scroll_top st of
          None \<Rightarrow> Some (pending_scroll st)
        | Some s \<Rightarrow> do {
            (c, _) \<leftarrow> cursor_seek item_count_dimension (compare_ord (item_ix s)) Right
                       (cursor_new item_count_dimension (list_items st));
            x \<leftarrow> cursor_item c;
            Some (case Option.bind x item_size of
                    None \<Rightarrow> pending_scroll st
                  | Some sz \<Rightarrow>
                      Some (item_ix s,
                            if height sz > 0 then clamp_value (offset_in_item s / height sz) 0 1 else 0)) });
     Some (st\<lparr>pending_scroll := pending, list_items := st_from_iter list_item_impl (map unmeasure items),
              measuring_behavior := measuring_reset (measuring_behavior st)\<rparr>)
   }"

section \<open>Scrolling\<close>

definition scroll_by :: "'a::linordered_field \<Rightarrow> ('a, 'h) list_state \<Rightarrow> ('a, 'h) list_state option" where
  "scroll_by distance st =
     (if distance = 0 then Some st
      else do {
        let current_offset = current_scroll_top st;
        (c, _) \<leftarrow> cursor_seek summary_dimension (count_target (item_ix current_offset)) Right
                   (cursor_new summary_dimension (list_items st));
        let start_pixel_offset = sum_height (cursor_start c) + offset_in_item current_offset;
        let new_pixel_offset = max (start_pixel_offset + distance) 0;
        (c, _) \<leftarrow> (if new_pixel_offset > start_pixel_offset
                    then seek_forward summary_dimension (height_target new_pixel_offset) Right c
                    else cursor_seek summary_dimension (height_target new_pixel_offset) Right c);
        Some (st\<lparr>logical_scroll_top := Some \<lparr>item_ix = item_total (cursor_start c),
                    offset_in_item = new_pixel_offset - sum_height (cursor_start c)\<rparr>\<rparr>)
      })"

definition scroll_to :: "'a::linordered_field list_offset \<Rightarrow> ('a, 'h) list_state \<Rightarrow> ('a, 'h) list_state" where
  "scroll_to target st =
     (let target = (if item_ix target \<ge> item_count st then \<lparr>item_ix = item_count st, offset_in_item = 0\<rparr> else target)
      in st\<lparr>logical_scroll_top := Some target\<rparr>)"

definition zero_edges :: "'a::linordered_field edges" where
  "zero_edges = edges_all 0"

definition edges_or_zero :: "'a::linordered_field edges option \<Rightarrow> 'a edges" where
  "edges_or_zero e = (case e of None \<Rightarrow> zero_edges | Some e \<Rightarrow> e)"

definition zero_bounds :: "'a::linordered_field bounds" where
  "zero_bounds = \<lparr>origin = \<lparr>pt_x = 0, pt_y = 0\<rparr>, extent = \<lparr>width = 0, height = 0\<rparr>\<rparr>"

definition viewport_bounds :: "('a::linordered_field, 'h) list_state \<Rightarrow> 'a bounds" where
  "viewport_bounds st = (case last_layout_bounds st of None \<Rightarrow> zero_bounds | Some b \<Rightarrow> b)"

definition scroll_to_reveal_item :: "nat \<Rightarrow> ('a::linordered_field, 'h) list_state \<Rightarrow> ('a, 'h) list_state option" where
  "scroll_to_reveal_item ix st =
     (let scroll_top = current_scroll_top st;
          h = (case last_layout_bounds st of None \<Rightarrow> 0 | Some b \<Rightarrow> height (extent b));
          padding = edges_or_zero (last_padding st) in
      if ix \<le> item_ix scroll_top then
        Some (st\<lparr>logical_scroll_top := Some \<lparr>item_ix = ix, offset_in_item = 0\<rparr>\<rparr>)
      else do {
        (c, _) \<leftarrow> cursor_seek summary_dimension (count_target (ix + 1)) Right
                   (cursor_new summary_dimension (list_items st));
        let bottom = sum_height (cursor_start c) + e_top padding;
        let goal_top = max 0 (bottom - h + e_bottom padding);
        (c, _) \<leftarrow> cursor_seek summary_dimension (height_target goal_top) Left c;
        let start_ix = item_total (cursor_start c);
        let start_item_top = sum_height (cursor_start c);
        let scroll_top = (if start_ix \<ge> item_ix scroll_top
                          then \<lparr>item_ix = start_ix, offset_in_item = goal_top - start_item_top\<rparr> else scroll_top);
        Some (st\<lparr>logical_scroll_top := Some scroll_top\<rparr>)
      })"

definition bounds_for_item :: "nat \<Rightarrow> ('a::linordered_field, 'h) list_state \<Rightarrow> 'a bounds option option" where
  "bounds_for_item ix st =
     (let b = viewport_bounds st; scroll_top = current_scroll_top st;
          D = dimensions item_count_dimension height_dimension in
      if ix < item_ix scroll_top then Some None
      else do {
        (c, _) \<leftarrow> cursor_seek D (compare_ord (item_ix scroll_top) \<circ> fst) Right (cursor_new D (list_items st));
        let scroll_px = snd (cursor_start c) + offset_in_item scroll_top;
        (c, _) \<leftarrow> seek_forward D (compare_ord ix \<circ> fst) Right c;
        x \<leftarrow> cursor_item c;
        Some (case x of
                Some (Measured sz _) \<Rightarrow>
                  (let (count, item_top) = cursor_start c in
                   if count = ix then
                     (let t = edge_top b + item_top - scroll_px in
                      Some (from_corners (point_new (edge_left b) t) (point_new (edge_right b) (t + height sz))))
                   else None)
              | _ \<Rightarrow> None)
      })"

definition scrollbar_drag_started :: "('a, 'h) list_state \<Rightarrow> ('a, 'h) list_state" where
  "scrollbar_drag_started st = st\<lparr>scrollbar_drag_start_height := Some (content_height st)\<rparr>"

definition scrollbar_drag_ended :: "('a, 'h) list_state \<Rightarrow> ('a, 'h) list_state" where
  "scrollbar_drag_ended st = st\<lparr>scrollbar_drag_start_height := None\<rparr>"

definition drag_offset :: "('a::linordered_field, 'h) list_state \<Rightarrow> 'a" where
  "drag_offset st =
     content_height st - (case scrollbar_drag_start_height st of None \<Rightarrow> content_height st | Some h \<Rightarrow> h)"

definition scroll_max :: "'a::linordered_field \<Rightarrow> ('a, 'h) list_state \<Rightarrow> 'a" where
  "scroll_max h st =
     (let padding = edges_or_zero (last_padding st) in
      max (content_height st + e_top padding + e_bottom padding - h) 0)"

text \<open>The tail that \<open>scroll\<close> and \<open>set_offset_from_scrollbar\<close> share.\<close>

definition set_scroll_px :: "'a::linordered_field \<Rightarrow> 'a \<Rightarrow> ('a, 'h) list_state \<Rightarrow> ('a, 'h) list_state" where
  "set_scroll_px new_scroll_top smax st =
     (if alignment st = AlignBottom \<and> new_scroll_top = smax then st\<lparr>logical_scroll_top := None\<rparr>
      else
        let (start, _, _) = st_find summary_dimension (height_target new_scroll_top) Right (list_items st)
        in st\<lparr>logical_scroll_top :=
             Some \<lparr>item_ix = item_total start, offset_in_item = new_scroll_top - sum_height start\<rparr>\<rparr>)"

definition set_offset_from_scrollbar :: "'a::linordered_field point \<Rightarrow> ('a, 'h) list_state \<Rightarrow> ('a, 'h) list_state" where
  "set_offset_from_scrollbar p st =
     (case last_layout_bounds st of
        None \<Rightarrow> st
      | Some b \<Rightarrow>
          let smax = scroll_max (height (extent b)) st;
              new_scroll_top = min (max \<bar>pt_y p - drag_offset st\<bar> 0) smax
          in set_scroll_px new_scroll_top smax st)"

definition max_offset_for_scrollbar :: "('a::linordered_field, 'h) list_state \<Rightarrow> 'a extent" where
  "max_offset_for_scrollbar st =
     (let h = (case scrollbar_drag_start_height st of None \<Rightarrow> content_height st | Some h \<Rightarrow> h)
      in size_new 0 (max 0 (h - height (extent (viewport_bounds st)))))"

definition scroll_px_offset_for_scrollbar :: "('a::linordered_field, 'h) list_state \<Rightarrow> 'a point option" where
  "scroll_px_offset_for_scrollbar st = do {
     let s = current_scroll_top st;
     (_, summary) \<leftarrow> cursor_summary summary_dimension summary_dimension (count_target (item_ix s)) Right
                      (cursor_new summary_dimension (list_items st));
     Some (point_new 0 (- (sum_height summary + offset_in_item s - drag_offset st)))
   }"

definition visible_range :: "('a::linordered_field, 'h) list_items \<Rightarrow> 'a \<Rightarrow> 'a list_offset \<Rightarrow> (nat \<times> nat) option" where
  "visible_range items h scroll_top = do {
     (c, _) \<leftarrow> cursor_seek summary_dimension (count_target (item_ix scroll_top)) Right (cursor_new summary_dimension items);
     let start_y = sum_height (cursor_start c) + offset_in_item scroll_top;
     (c, _) \<leftarrow> seek_forward summary_dimension (height_target (start_y + h)) Left c;
     Some (item_ix scroll_top, item_total (cursor_start c) + 1)
   }"

definition scroll_top_px :: "'a list_offset \<Rightarrow> ('a::linordered_field, 'h) list_state \<Rightarrow> 'a" where
  "scroll_top_px s st =
     (let (start, _, _) = st_find summary_dimension (count_target (item_ix s)) Right (list_items st)
      in sum_height start + offset_in_item s)"

record list_scroll_event =
  visible_items :: "nat \<times> nat"
  event_count :: nat
  is_scrolled :: bool

text \<open>\<open>scroll\<close>, with the event for the handler when there is one.\<close>

definition list_scroll ::
  "bool \<Rightarrow> 'a list_offset \<Rightarrow> 'a \<Rightarrow> 'a point \<Rightarrow> ('a::linordered_field, 'h) list_state \<Rightarrow>
     (('a, 'h) list_state \<times> list_scroll_event option) option" where
  "list_scroll has_handler scroll_top h delta st =
     (if reset_flag st then Some (st, None)
      else
        let smax = scroll_max h st;
            new_scroll_top = min (max (scroll_top_px scroll_top st - pt_y delta) 0) smax;
            st = set_scroll_px new_scroll_top smax st in
        if has_handler then do {
          r \<leftarrow> visible_range (list_items st) h scroll_top;
          Some (st, Some \<lparr>visible_items = r, event_count = item_count st,
                          is_scrolled = (logical_scroll_top st \<noteq> None)\<rparr>) }
        else Some (st, None))"

section \<open>Layout\<close>

text \<open>\<open>render i\<close> is the size of the element that \<open>render_item\<close> builds for item \<open>i\<close>, laid out in the
  available space; \<open>focused\<close> says which handles contain the focus.  The element of a laid out item is
  left out: an item layout is an index and a size.\<close>

partial_function (option) cursor_collect ::
  "('s, 'd) dimension_impl \<Rightarrow> ('b, 's, 'd) cursor \<Rightarrow> 'b list \<Rightarrow> 'b list option" where
  "cursor_collect D c acc =
     (case cursor_iter_next D c of
        None \<Rightarrow> None
      | Some (c, None) \<Rightarrow> Some acc
      | Some (c, Some x) \<Rightarrow> cursor_collect D c (acc @ [x]))"

definition layout_all_items ::
  "(nat \<Rightarrow> 'a extent) \<Rightarrow> ('a::linordered_field, 'h) list_state \<Rightarrow> ('a, 'h) list_state option" where
  "layout_all_items render st =
     (case measuring_behavior st of
        Visible \<Rightarrow> Some st
      | Measure True \<Rightarrow> Some st
      | Measure False \<Rightarrow> do {
          xs \<leftarrow> cursor_collect item_count_dimension (cursor_new item_count_dimension (list_items st)) [];
          Some (st\<lparr>measuring_behavior := Measure True,
            list_items := st_from_iter list_item_impl
              (map (\<lambda>(i, x). Measured (case item_size x of None \<Rightarrow> render i | Some s \<Rightarrow> s) (item_focus_handle x))
                 (enumerate 0 xs))\<rparr>) })"

record ('a, 'h) layout_pass =
  rendered_height :: 'a
  max_item_width :: 'a
  pass_scroll_top :: "'a list_offset"
  measured_items :: "('a, 'h) list_item list"
  item_layouts :: "(nat \<times> 'a extent) list"
  rendered_focused_item :: bool
  pass_state :: "('a, 'h) list_state"

type_synonym ('a, 'h) count_cursor = "(('a, 'h) list_item, 'a list_item_summary, nat) cursor"

text \<open>One item of the loop below the scroll top, up to where it is measured.\<close>

definition take_pending :: "nat \<Rightarrow> 'a::linordered_field extent \<Rightarrow> ('a, 'h) layout_pass \<Rightarrow> ('a, 'h) layout_pass" where
  "take_pending ix sz p =
     (if ix = 0 then
        (case pending_scroll (pass_state p) of
           None \<Rightarrow> p
         | Some (pending_ix, fraction) \<Rightarrow>
             let st = (pass_state p)\<lparr>pending_scroll := None\<rparr>; s = pass_scroll_top p in
             if pending_ix = item_ix s then
               let s = s\<lparr>offset_in_item := fraction * height sz\<rparr>
               in p\<lparr>pass_scroll_top := s, pass_state := st\<lparr>logical_scroll_top := Some s\<rparr>\<rparr>
             else p\<lparr>pass_state := st\<rparr>)
      else p)"

definition layout_item ::
  "(nat \<Rightarrow> 'a::linordered_field extent) \<Rightarrow> ('h \<Rightarrow> bool) \<Rightarrow> 'a \<Rightarrow> nat \<Rightarrow> ('a, 'h) list_item \<Rightarrow>
     ('a, 'h) layout_pass \<Rightarrow> ('a, 'h) layout_pass" where
  "layout_item render focused available_height ix x p =
     (let visible_height = rendered_height p - offset_in_item (pass_scroll_top p);
          visible = visible_height < available_height;
          item_index = item_ix (pass_scroll_top p) + ix;
          sz = (case item_size x of Some sz \<Rightarrow> if visible then render item_index else sz | None \<Rightarrow> render item_index);
          p = (if visible \<or> item_size x = None then take_pending ix sz p else p);
          p = (if visible then
                 p\<lparr>item_layouts := item_layouts p @ [(item_index, sz)],
                   rendered_focused_item := (rendered_focused_item p \<or> contains_focused focused x)\<rparr>
               else p)
      in p\<lparr>rendered_height := rendered_height p + height sz,
           max_item_width := max (max_item_width p) (width sz),
           measured_items := measured_items p @ [Measured sz (item_focus_handle x)]\<rparr>)"

partial_function (option) layout_below ::
  "(nat \<Rightarrow> 'a::linordered_field extent) \<Rightarrow> ('h \<Rightarrow> bool) \<Rightarrow> 'a \<Rightarrow> ('a, 'h) count_cursor \<Rightarrow> nat \<Rightarrow>
     ('a, 'h) layout_pass \<Rightarrow> ('a, 'h) layout_pass option" where
  "layout_below render focused available_height c ix p =
     (case cursor_iter_next item_count_dimension c of
        None \<Rightarrow> None
      | Some (c, None) \<Rightarrow> Some p
      | Some (c, Some x) \<Rightarrow>
          if rendered_height p - offset_in_item (pass_scroll_top p) \<ge> available_height + overdraw (pass_state p)
          then Some p
          else layout_below render focused available_height c (Suc ix) (layout_item render focused available_height ix x p))"

text \<open>The loop that fills the visible region upward from the scroll top.\<close>

partial_function (option) fill_above ::
  "(nat \<Rightarrow> 'a::linordered_field extent) \<Rightarrow> ('h \<Rightarrow> bool) \<Rightarrow> 'a \<Rightarrow> ('a, 'h) count_cursor \<Rightarrow>
     ('a, 'h) layout_pass \<Rightarrow> (('a, 'h) count_cursor \<times> ('a, 'h) layout_pass) option" where
  "fill_above render focused available_height c p =
     (if rendered_height p < available_height then
        (case cursor_prev item_count_dimension c of
           None \<Rightarrow> None
         | Some c \<Rightarrow>
             (case cursor_item c of
                None \<Rightarrow> None
              | Some None \<Rightarrow> Some (c, p)
              | Some (Some x) \<Rightarrow>
                  let item_index = cursor_start c; sz = render item_index in
                  fill_above render focused available_height c
                    (p\<lparr>rendered_height := rendered_height p + height sz,
                       measured_items := Measured sz (item_focus_handle x) # measured_items p,
                       item_layouts := (item_index, sz) # item_layouts p,
                       rendered_focused_item := (rendered_focused_item p \<or> contains_focused focused x)\<rparr>)))
      else Some (c, p))"

text \<open>The scroll top after the region has been filled.\<close>

definition adjust_scroll_top :: "'a::linordered_field \<Rightarrow> nat \<Rightarrow> ('a, 'h) layout_pass \<Rightarrow> ('a, 'h) layout_pass" where
  "adjust_scroll_top available_height start p =
     (let s = \<lparr>item_ix = start, offset_in_item = rendered_height p - available_height\<rparr>; st = pass_state p in
      (case alignment st of
         AlignTop \<Rightarrow>
           let s = s\<lparr>offset_in_item := max (offset_in_item s) 0\<rparr>
           in p\<lparr>pass_scroll_top := s, pass_state := st\<lparr>logical_scroll_top := Some s\<rparr>\<rparr>
       | AlignBottom \<Rightarrow> p\<lparr>pass_scroll_top := s, pass_state := st\<lparr>logical_scroll_top := None\<rparr>\<rparr>))"

partial_function (option) measure_leading ::
  "(nat \<Rightarrow> 'a::linordered_field extent) \<Rightarrow> 'a \<Rightarrow> ('a, 'h) count_cursor \<Rightarrow> ('a, 'h) list_item list \<Rightarrow> 'a \<Rightarrow>
     (('a, 'h) count_cursor \<times> ('a, 'h) list_item list) option" where
  "measure_leading render over c measured leading_overdraw =
     (if leading_overdraw < over then
        (case cursor_prev item_count_dimension c of
           None \<Rightarrow> None
         | Some c \<Rightarrow>
             (case cursor_item c of
                None \<Rightarrow> None
              | Some None \<Rightarrow> Some (c, measured)
              | Some (Some x) \<Rightarrow>
                  let sz = (case item_size x of Some sz \<Rightarrow> sz | None \<Rightarrow> render (cursor_start c)) in
                  measure_leading render over c (Measured sz (item_focus_handle x) # measured)
                    (leading_overdraw + height sz)))
      else Some (c, measured))"

text \<open>The measured items replace those they stand for.\<close>

definition replace_items ::
  "nat \<Rightarrow> ('a, 'h) list_item list \<Rightarrow> ('a::linordered_field, 'h) list_items \<Rightarrow> ('a, 'h) list_items option" where
  "replace_items start measured old_items = do {
     (c, new_items) \<leftarrow> cursor_slice list_item_impl item_count_dimension (compare_ord start) Right
                         (cursor_new item_count_dimension old_items);
     new_items \<leftarrow> st_extend list_item_impl measured new_items;
     (c, _) \<leftarrow> cursor_seek item_count_dimension (compare_ord (start + length measured)) Right c;
     (_, suffix) \<leftarrow> cursor_suffix list_item_impl item_count_dimension c;
     st_append list_item_impl new_items suffix
   }"

partial_function (option) find_focused ::
  "('h \<Rightarrow> bool) \<Rightarrow> ('a::linordered_field, 'h) count_cursor \<Rightarrow> nat option option" where
  "find_focused focused c =
     (case cursor_item c of
        None \<Rightarrow> None
      | Some None \<Rightarrow> Some None
      | Some (Some x) \<Rightarrow>
          if contains_focused focused x then Some (Some (cursor_start c))
          else (case search_forward item_count_dimension has_focus_handles c of
                  None \<Rightarrow> None
                | Some c \<Rightarrow> find_focused focused c))"

record 'a layout_response =
  response_max_item_width :: 'a
  response_scroll_top :: "'a list_offset"
  response_item_layouts :: "(nat \<times> 'a extent) list"

text \<open>\<open>layout_items\<close> up to where the items are replaced, and all of it.\<close>

definition layout_visible ::
  "(nat \<Rightarrow> 'a::linordered_field extent) \<Rightarrow> ('h \<Rightarrow> bool) \<Rightarrow> 'a \<Rightarrow> 'a edges \<Rightarrow> ('a, 'h) list_state \<Rightarrow>
     (('a, 'h) list_state \<times> ('a, 'h) layout_pass) option" where
  "layout_visible render focused available_height padding st = do {
     let old_items = list_items st;
     let p = \<lparr>rendered_height = e_top padding, max_item_width = 0, pass_scroll_top = current_scroll_top st,
              measured_items = [], item_layouts = [], rendered_focused_item = False, pass_state = st\<rparr>;
     (c, _) \<leftarrow> cursor_seek item_count_dimension (compare_ord (item_ix (pass_scroll_top p))) Right
                (cursor_new item_count_dimension old_items);
     p \<leftarrow> layout_below render focused available_height c 0 p;
     let p = p\<lparr>rendered_height := rendered_height p + e_bottom padding\<rparr>;
     (c, _) \<leftarrow> cursor_seek item_count_dimension (compare_ord (item_ix (pass_scroll_top p))) Right
                (cursor_new item_count_dimension old_items);
     (c, p) \<leftarrow>
       (if rendered_height p - offset_in_item (pass_scroll_top p) < available_height then do {
          (c, p) \<leftarrow> fill_above render focused available_height c p;
          Some (c, adjust_scroll_top available_height (cursor_start c) p) }
        else Some (c, p));
     (c, measured) \<leftarrow> measure_leading render (overdraw (pass_state p)) c (measured_items p)
                       (offset_in_item (pass_scroll_top p));
     new_items \<leftarrow> replace_items (cursor_start c) measured old_items;
     Some ((pass_state p)\<lparr>list_items := new_items\<rparr>, p\<lparr>measured_items := measured\<rparr>)
   }"

definition layout_items ::
  "(nat \<Rightarrow> 'a::linordered_field extent) \<Rightarrow> ('h \<Rightarrow> bool) \<Rightarrow> 'a \<Rightarrow> 'a edges \<Rightarrow> ('a, 'h) list_state \<Rightarrow>
     (('a, 'h) list_state \<times> 'a layout_response) option" where
  "layout_items render focused available_height padding st = do {
     (st, p) \<leftarrow> layout_visible render focused available_height padding st;
     layouts \<leftarrow>
       (if \<not> rendered_focused_item p then do {
          c \<leftarrow> search_forward item_count_dimension has_focus_handles (cursor_new item_count_dimension (list_items st));
          i \<leftarrow> find_focused focused c;
          Some (case i of None \<Rightarrow> item_layouts p | Some i \<Rightarrow> item_layouts p @ [(i, render i)]) }
        else Some (item_layouts p));
     Some (st, \<lparr>response_max_item_width = max_item_width p, response_scroll_top = pass_scroll_top p,
               response_item_layouts = layouts\<rparr>)
   }"

end
