(* ===== verification/ListSpec.thy ===== *)
theory ListSpec
  imports Complex_Main ListState
begin

text \<open>
  What the operations of a list do, in terms of the list of its items: \<open>item_top\<close> is the pixel offset of an
  item, \<open>scroll_pixels\<close> that of the scroll position.  Items have heights that are not negative; a scroll
  position is \<open>proper\<close> if it is an item of the list, or its end, and an offset into the item.
\<close>

section \<open>Positions in a list\<close>

definition item_height :: "('a::linordered_field, 'h) list_item \<Rightarrow> 'a" where
  "item_height x = (case item_size x of None \<Rightarrow> 0 | Some s \<Rightarrow> height s)"

definition item_top :: "('a::linordered_field, 'h) list_item list \<Rightarrow> nat \<Rightarrow> 'a" where
  "item_top xs k = sum_list (map item_height (take k xs))"

definition tall :: "('a::linordered_field, 'h) list_item list \<Rightarrow> bool" where
  "tall xs \<longleftrightarrow> list_all (\<lambda>x. 0 \<le> item_height x) xs"

lemma item_top_0 [simp]: "item_top xs 0 = 0"
  by (simp add: item_top_def)

lemma item_top_Suc: "k < length xs \<Longrightarrow> item_top xs (Suc k) = item_top xs k + item_height (xs ! k)"
  by (simp add: item_top_def take_Suc_conv_app_nth)

lemma item_top_end: "length xs \<le> k \<Longrightarrow> item_top xs k = item_top xs (length xs)"
  by (simp add: item_top_def)

lemma item_top_min [simp]: "item_top xs (min k (length xs)) = item_top xs k"
  by (cases "k \<le> length xs") (simp_all add: min_def item_top_end[of xs k])

lemma item_top_step: "tall xs \<Longrightarrow> item_top xs k \<le> item_top xs (Suc k)"
  using item_top_end[of xs k] item_top_end[of xs "Suc k"]
  by (cases "k < length xs") (simp_all add: item_top_Suc tall_def list_all_length)

lemma item_top_mono: "tall xs \<Longrightarrow> i \<le> j \<Longrightarrow> item_top xs i \<le> item_top xs j"
  by (rule lift_Suc_mono_le[of "item_top xs"]) (simp_all add: item_top_step)

lemma item_top_nonneg: "tall xs \<Longrightarrow> 0 \<le> item_top xs k"
  using item_top_mono[of xs 0 k] by simp

section \<open>The dimensions of the list\<close>

lemma summary_dimension_simps [simp]:
  "dim_zero summary_dimension = \<lparr>item_total = 0, rendered_count = 0, unrendered_count = 0, sum_height = 0, has_focus_handles = False\<rparr>"
  "item_total (dim_add summary_dimension s t) = item_total s + item_total t"
  "sum_height (dim_add summary_dimension s t) = sum_height s + sum_height t"
  by (simp_all add: summary_dimension_def list_item_impl_def)

lemma count_dimension_simps [simp]: "dim_zero item_count_dimension = 0" "dim_add item_count_dimension n s = n + item_total s"
  by (simp_all add: item_count_dimension_def)

lemma list_item_summary_simps [simp]:
  "item_total (item_summary list_item_impl x) = 1" "sum_height (item_summary list_item_impl x) = item_height x"
  by (cases x; simp add: list_item_impl_def item_height_def)+

lemma add_summary_simps [simp]:
  "item_total (add_summary list_item_impl s t) = item_total s + item_total t"
  "sum_height (add_summary list_item_impl s t) = sum_height s + sum_height t"
  "item_total (summary_zero list_item_impl) = 0" "sum_height (summary_zero list_item_impl) = 0"
  by (simp_all add: list_item_impl_def)

interpretation counted_items: dimension_laws "list_item_impl :: (('a::linordered_field, 'h) list_item, 'a list_item_summary) item_impl" item_count_dimension
  by unfold_locales (simp_all add: list_item_impl_def add.assoc disj_assoc)

interpretation summed_items: dimension_laws "list_item_impl :: (('a::linordered_field, 'h) list_item, 'a list_item_summary) item_impl" summary_dimension
  by unfold_locales (simp add: list_item_impl_def summary_dimension_def add.assoc disj_assoc)

interpretation placed_items: dimension_laws "list_item_impl :: (('a::linordered_field, 'h) list_item, 'a list_item_summary) item_impl"
    "dimensions item_count_dimension height_dimension"
  by unfold_locales (simp add: list_item_impl_def dimensions_def height_dimension_def add.assoc split: prod.split)

lemma count_pos [simp]: "pos_at list_item_impl item_count_dimension n xs = n + length xs"
  by (induction xs arbitrary: n) simp_all

lemma total_pos [simp]: "item_total (pos_at list_item_impl summary_dimension s xs) = item_total s + length xs"
  by (induction xs arbitrary: s) simp_all

lemma height_pos: "sum_height (pos_at list_item_impl summary_dimension s xs) = sum_height s + sum_list (map item_height xs)"
  by (induction xs arbitrary: s) (simp_all add: add.assoc)

lemma height_pos_take [simp]:
  "sum_height s = 0 \<Longrightarrow> sum_height (pos_at list_item_impl summary_dimension s (take k xs)) = item_top xs k"
  by (simp add: height_pos item_top_def)

lemma placed_pos:
  "pos_at list_item_impl (dimensions item_count_dimension height_dimension) (n, h) xs =
     (n + length xs, h + sum_list (map item_height xs))"
  by (induction xs arbitrary: n h) (simp_all add: dimensions_def height_dimension_def add.assoc)

lemma placed_zero [simp]: "dim_zero (dimensions item_count_dimension height_dimension) = (0, 0)"
  by (simp add: dimensions_def height_dimension_def)

lemma placed_simps [simp]:
  "fst (pos_at list_item_impl (dimensions item_count_dimension height_dimension) d xs) = fst d + length xs"
  "snd (pos_at list_item_impl (dimensions item_count_dimension height_dimension) d xs) = snd d + sum_list (map item_height xs)"
  by (cases d; simp add: placed_pos)+

lemma item_count_flat: "well_formed list_item_impl (list_items st) \<Longrightarrow> item_count st = length (flat (list_items st))"
  for st :: "('a::linordered_field, 'h) list_state"
proof -
  assume wf: "well_formed list_item_impl (list_items st)"
  have "item_total (sum_summaries list_item_impl (map (item_summary list_item_impl) xs)) = length xs" for xs :: "('a, 'h) list_item list"
    by (induction xs rule: rev_induct) (simp_all add: counted_items.sum_append)
  then show ?thesis by (simp add: item_count_def counted_items.summary_flat[OF wf])
qed

lemma content_height_flat:
  "well_formed list_item_impl (list_items st) \<Longrightarrow> content_height st = item_top (flat (list_items st)) (length (flat (list_items st)))"
  for st :: "('a::linordered_field, 'h) list_state"
proof -
  assume wf: "well_formed list_item_impl (list_items st)"
  have "sum_height (sum_summaries list_item_impl (map (item_summary list_item_impl) xs)) = sum_list (map item_height xs)"
    for xs :: "('a, 'h) list_item list"
    by (induction xs rule: rev_induct) (simp_all add: counted_items.sum_append)
  then show ?thesis by (simp add: content_height_def counted_items.summary_flat[OF wf] item_top_def)
qed

section \<open>Seeking an index and a height\<close>

lemma passes_compare:
  "passes (\<lambda>d. compare_ord v (f d)) b d \<longleftrightarrow> (if b = Right then f d \<le> v else f d < v)"
  by (cases b) (auto simp: passes_def compare_ord_def)

lemma compare_ord_le: "compare_ord v w \<noteq> Less \<longleftrightarrow> w \<le> v"
  by (auto simp: compare_ord_def)

text \<open>A target on a quantity that never decreases along the items.\<close>

definition grows :: "('a, 's) item_impl \<Rightarrow> ('s, 'd) dimension_impl \<Rightarrow> ('d \<Rightarrow> 'k::linorder) \<Rightarrow> 'a list \<Rightarrow> bool" where
  "grows S D f xs \<longleftrightarrow> (\<forall>d. \<forall>x \<in> set xs. f d \<le> f (dim_add D d (item_summary S x)))"

lemma grows_pos: "grows S D f xs \<Longrightarrow> f d \<le> f (pos_at S D d xs)"
  by (induction xs arbitrary: d) (auto simp: grows_def intro: order_trans)

lemma grows_append [simp]: "grows S D f (xs @ ys) \<longleftrightarrow> grows S D f xs \<and> grows S D f ys"
  by (auto simp: grows_def)

lemma grows_drop: "grows S D f xs \<Longrightarrow> grows S D f (drop k xs)"
  by (metis append_take_drop_id grows_append)

lemma grows_monotone: "grows S D f xs \<Longrightarrow> monotone_target S D (passes (\<lambda>d. compare_ord v (f d)) b) d xs"
  unfolding monotone_target_def
proof (intro allI impI)
  fix us vs ws
  assume g: "grows S D f xs" and a: "xs = us @ vs @ ws \<and> us \<noteq> [] \<and> passes (\<lambda>d. compare_ord v (f d)) b (pos_at S D d (us @ vs))"
  then have "f (pos_at S D d us) \<le> f (pos_at S D d (us @ vs))" using grows_pos[of S D f vs] by simp
  then show "passes (\<lambda>d. compare_ord v (f d)) b (pos_at S D d us)"
    using a by (auto simp: passes_compare split: if_splits)
qed

lemma grows_passed:
  fixes d v b
  assumes "grows S D f xs"
  defines "k \<equiv> length (passed S D (passes (\<lambda>d. compare_ord v (f d)) b) d xs)"
  shows "0 < k \<Longrightarrow> passes (\<lambda>d. compare_ord v (f d)) b (pos_at S D d (take k xs))"
    "k < length xs \<Longrightarrow> \<not> passes (\<lambda>d. compare_ord v (f d)) b (pos_at S D d (take (Suc k) xs))"
proof -
  let ?p = "passed S D (passes (\<lambda>d. compare_ord v (f d)) b) d xs"
  have t: "take k xs = ?p" unfolding k_def by (rule passed_take[symmetric])
  have "passed S D (passes (\<lambda>d. compare_ord v (f d)) b) d ?p = ?p"
    by (induction xs arbitrary: d) (simp_all add: Let_def)
  then show "0 < k \<Longrightarrow> passes (\<lambda>d. compare_ord v (f d)) b (pos_at S D d (take k xs))"
    using passed_end[of S D _ d ?p] by (simp add: t) (auto simp: k_def)
  show "k < length xs \<Longrightarrow> \<not> passes (\<lambda>d. compare_ord v (f d)) b (pos_at S D d (take (Suc k) xs))"
    unfolding k_def by (rule passed_next) auto
qed

text \<open>Where a seek for the value \<open>v\<close> of the quantity \<open>f\<close> from item \<open>i\<close> on stops.\<close>

definition stops_at ::
  "('a, 's) item_impl \<Rightarrow> ('s, 'd) dimension_impl \<Rightarrow> ('d \<Rightarrow> 'k::linorder) \<Rightarrow> 'k \<Rightarrow> bias \<Rightarrow> ('a, 's) sum_tree \<Rightarrow> nat \<Rightarrow> nat \<Rightarrow> bool" where
  "stops_at S D f v b t i k \<longleftrightarrow>
     (let reached = (\<lambda>k. if b = Right then f (pos_at S D (dim_zero D) (take k (flat t))) \<le> v
                        else f (pos_at S D (dim_zero D) (take k (flat t))) < v) in
      i \<le> k \<and> k \<le> length (flat t) \<and> (i < k \<longrightarrow> reached k) \<and> (k < length (flat t) \<longrightarrow> \<not> reached (Suc k)))"

context dimension_laws
begin

lemma seeked_stops:
  assumes "grows S D f (flat t)" "i \<le> length (flat t)"
  shows "stops_at S D f v b t i (seeked (\<lambda>d. compare_ord v (f d)) b t i)"
proof -
  let ?xs = "drop i (flat t)" and ?d = "start_at t i"
  define k where "k = length (passed S D (passes (\<lambda>d. compare_ord v (f d)) b) ?d ?xs)"
  note p = grows_passed[OF grows_drop[OF assms(1), of i], where d = ?d and v = v and b = b, folded k_def]
  have e: "pos_at S D ?d (take j ?xs) = start_at t (i + j)" for j
    by (simp add: take_add)
  have l: "k \<le> length ?xs" unfolding k_def by (rule passed_length)
  have m: "k < length ?xs \<longleftrightarrow> i + k < length (flat t)" by auto
  have s: "seeked (\<lambda>d. compare_ord v (f d)) b t i = i + k" by (simp add: seeked_def k_def)
  show ?thesis
    using p[unfolded e m passes_compare] l assms(2) unfolding stops_at_def s Let_def by auto
qed

lemma seek_forward_stops:
  assumes "well_formed S t" "node_height t < 16" "cursor_at S D t i c" "grows S D f (flat t)" "f (start_at t i) \<le> v"
  shows "\<exists>c' r k. seek_forward D (\<lambda>d. compare_ord v (f d)) b c = Some (c', r) \<and> cursor_at S D t k c' \<and> stops_at S D f v b t i k"
proof -
  have "cursor_position c = start_at t i" "i \<le> length (flat t)" using assms(3) by (simp_all add: cursor_at_def)
  then show ?thesis
    using seek_forward_spec[OF assms(1,2) disjI1[OF assms(3)] _ grows_monotone[OF grows_drop[OF assms(4)]], of v b]
      seeked_stops[OF assms(4), of i v b] assms(5) by (metis compare_ord_le)
qed

lemma seek_stops:
  assumes "well_formed S t" "node_height t < 16" "cursor_tree c = t" "grows S D f (flat t)" "f (dim_zero D) \<le> v"
  shows "\<exists>c' r k. cursor_seek D (\<lambda>d. compare_ord v (f d)) b c = Some (c', r) \<and> cursor_at S D t k c' \<and> stops_at S D f v b t 0 k"
  using seek_spec[OF assms(1,2,3) _ grows_monotone[OF assms(4)], of v b] seeked_stops[OF assms(4), of 0 v b] assms(5)
  by (metis compare_ord_le le0)

end

section \<open>The seeks of the list\<close>

type_synonym ('a, 'h) summary_cursor = "(('a, 'h) list_item, 'a list_item_summary, 'a list_item_summary) cursor"

lemma grows_count [simp]:
  "grows list_item_impl item_count_dimension (\<lambda>n. n) xs" "grows list_item_impl summary_dimension item_total xs"
  by (simp_all add: grows_def)

lemma grows_placed [simp]: "grows list_item_impl (dimensions item_count_dimension height_dimension) fst xs"
  by (simp add: grows_def dimensions_def split: prod.split)

lemma grows_height: "tall xs \<Longrightarrow> grows list_item_impl summary_dimension sum_height xs"
  by (auto simp: grows_def tall_def list_all_iff)

lemma stops_count:
  "stops_at list_item_impl item_count_dimension (\<lambda>n. n) n Right t i k \<Longrightarrow> k = max i (min n (length (flat t)))"
  by (auto simp: stops_at_def Let_def)

lemma stops_total:
  "stops_at list_item_impl summary_dimension item_total n Right t i k \<Longrightarrow> k = max i (min n (length (flat t)))"
  by (auto simp: stops_at_def Let_def)

lemma stops_placed:
  "stops_at list_item_impl (dimensions item_count_dimension height_dimension) fst n Right t i k \<Longrightarrow>
     k = max i (min n (length (flat t)))"
  by (auto simp: stops_at_def Let_def)

lemma stops_height:
  "stops_at list_item_impl summary_dimension sum_height h b t i k \<longleftrightarrow>
     i \<le> k \<and> k \<le> length (flat t) \<and>
     (i < k \<longrightarrow> (if b = Right then item_top (flat t) k \<le> h else item_top (flat t) k < h)) \<and>
     (k < length (flat t) \<longrightarrow>
        (if b = Right then h < item_top (flat t) (Suc k) else h \<le> item_top (flat t) (Suc k)))"
  by (auto simp: stops_at_def Let_def)

lemma seek_count:
  assumes "well_formed list_item_impl t" "node_height t < 16" "cursor_tree c = t"
  shows "\<exists>c' r. cursor_seek item_count_dimension (compare_ord n) Right c = Some (c', r) \<and>
      cursor_at list_item_impl item_count_dimension t (min n (length (flat t))) c'"
  using counted_items.seek_stops[OF assms, of "\<lambda>n. n" n Right] stops_count[of n t 0] by fastforce

lemma seek_total:
  assumes "well_formed list_item_impl t" "node_height t < 16" "cursor_tree c = t"
  shows "\<exists>c' r. cursor_seek summary_dimension (count_target n) Right c = Some (c', r) \<and>
      cursor_at list_item_impl summary_dimension t (min n (length (flat t))) c'"
  using summed_items.seek_stops[OF assms, of item_total n Right] stops_total[of n t 0]
  by (fastforce simp: count_target_def[abs_def])

lemma seek_placed:
  assumes "well_formed list_item_impl t" "node_height t < 16" "cursor_tree c = t"
  shows "\<exists>c' r. cursor_seek (dimensions item_count_dimension height_dimension) (compare_ord n \<circ> fst) Right c = Some (c', r) \<and>
      cursor_at list_item_impl (dimensions item_count_dimension height_dimension) t (min n (length (flat t))) c'"
  using placed_items.seek_stops[OF assms, of fst n Right] stops_placed[of n t 0] by (fastforce simp: comp_def)

lemma seek_height:
  assumes "well_formed list_item_impl t" "node_height t < 16" "cursor_tree c = t" "tall (flat t)" "0 \<le> h"
  shows "\<exists>c' r k. cursor_seek summary_dimension (height_target h) b c = Some (c', r) \<and>
      cursor_at list_item_impl summary_dimension t k c' \<and> stops_at list_item_impl summary_dimension sum_height h b t 0 k"
  using summed_items.seek_stops[OF assms(1-3) grows_height[OF assms(4)], of h b] assms(5)
  by (simp add: height_target_def[abs_def])

lemma seek_forward_height:
  assumes "well_formed list_item_impl t" "node_height t < 16" "cursor_at list_item_impl summary_dimension t i c"
    "tall (flat t)" "item_top (flat t) i \<le> h"
  shows "\<exists>c' r k. seek_forward summary_dimension (height_target h) b c = Some (c', r) \<and>
      cursor_at list_item_impl summary_dimension t k c' \<and> stops_at list_item_impl summary_dimension sum_height h b t i k"
  using summed_items.seek_forward_stops[OF assms(1-3) grows_height[OF assms(4)], of h b] assms(5)
  by (simp add: height_target_def[abs_def])

lemma seek_forward_placed:
  assumes "well_formed list_item_impl t" "node_height t < 16"
    "cursor_at list_item_impl (dimensions item_count_dimension height_dimension) t i c" "i \<le> n"
  shows "\<exists>c' r. seek_forward (dimensions item_count_dimension height_dimension) (compare_ord n \<circ> fst) Right c = Some (c', r) \<and>
      cursor_at list_item_impl (dimensions item_count_dimension height_dimension) t (max i (min n (length (flat t)))) c'"
  using placed_items.seek_forward_stops[OF assms(1-3), of fst n Right] stops_placed[of n t i] assms(4)
  by (fastforce simp: comp_def)

lemma summary_start:
  "cursor_at list_item_impl summary_dimension t k c \<Longrightarrow> item_total (cursor_start c) = k"
  "cursor_at list_item_impl summary_dimension t k c \<Longrightarrow> sum_height (cursor_start c) = item_top (flat t) k"
  by (auto simp: cursor_at_def cursor_start_def)

lemma placed_start:
  "cursor_at list_item_impl (dimensions item_count_dimension height_dimension) t k c \<Longrightarrow>
     cursor_start c = (k, item_top (flat t) k)"
  by (rule prod_eqI) (simp_all add: cursor_at_def cursor_start_def item_top_def min_def)

lemma cursor_tree_at: "cursor_at S D t k c \<Longrightarrow> cursor_tree c = t"
  by (simp add: cursor_at_def)

lemma cursor_tree_new [simp]: "cursor_tree (cursor_new D t) = t"
  by (simp add: cursor_new_def)

section \<open>Replacing items\<close>

text \<open>What \<open>splice_focusable\<close> does to the scroll position.\<close>

definition spliced_scroll :: "nat \<Rightarrow> nat \<Rightarrow> nat \<Rightarrow> 'a::linordered_field list_offset \<Rightarrow> 'a list_offset" where
  "spliced_scroll a b n s =
     (if item_ix s < a then s
      else if item_ix s < b then \<lparr>item_ix = a, offset_in_item = 0\<rparr>
      else s\<lparr>item_ix := item_ix s - (b - a) + n\<rparr>)"

lemma take_min_length [simp]: "take (min k (length xs)) xs = take k xs" "drop (min k (length xs)) xs = drop k xs"
  by (simp_all add: min_def)

lemma splice_focusable_spec:
  fixes st :: "('a::linordered_field, 'h) list_state"
  assumes t: "well_formed list_item_impl (list_items st)" "node_height (list_items st) < 16" and ab: "a \<le> b"
  shows "\<exists>t'. splice_focusable a b fs st = Some (st\<lparr>list_items := t',
        logical_scroll_top := map_option (spliced_scroll a b (length fs)) (logical_scroll_top st)\<rparr>) \<and>
      well_formed list_item_impl t' \<and>
      flat t' = take a (flat (list_items st)) @ map Unmeasured fs @ drop b (flat (list_items st))"
proof -
  let ?t = "list_items st" and ?D = item_count_dimension
  let ?n = "length (flat ?t)"
  have fr: "cursor_at list_item_impl ?D ?t 0 (cursor_new ?D ?t) \<or> (cursor_fresh ?D ?t (cursor_new ?D ?t) \<and> (0::nat) = 0)"
    using cursor_new_fresh by blast
  have g: "grows list_item_impl ?D (\<lambda>n. n) (flat ?t)" by simp
  have k: "counted_items.seeked (compare_ord a) Right ?t 0 = min a ?n"
    using stops_count[OF counted_items.seeked_stops[OF g, of 0 a Right]] by simp
  obtain c1 u where u: "cursor_slice list_item_impl ?D (compare_ord a) Right (cursor_new ?D ?t) = Some (c1, u)"
    "cursor_at list_item_impl ?D ?t (min a ?n) c1" "well_formed list_item_impl u" "flat u = take a (flat ?t)"
    using counted_items.slice_spec[OF t fr, of "compare_ord a" Right] grows_monotone[OF g, of a Right 0]
    by (auto simp: k compare_ord_le cursor_new_def)
  obtain c2 r where c2: "seek_forward ?D (compare_ord b) Right c1 = Some (c2, r)"
    "cursor_at list_item_impl ?D ?t (min b ?n) c2"
  proof -
    have "max (min a ?n) (min b ?n) = min b ?n" using ab by linarith
    then show ?thesis
      using counted_items.seek_forward_stops[OF t u(2) g, of b Right] stops_count[of b ?t "min a ?n"] ab that
      by fastforce
  qed
  obtain v where v: "st_extend list_item_impl (map Unmeasured fs) u = Some v" "well_formed list_item_impl v"
    "flat v = flat u @ map Unmeasured fs"
    using counted_items.extend_spec[OF u(3)] by blast
  obtain c3 w where w: "cursor_suffix list_item_impl ?D c2 = Some (c3, w)" "well_formed list_item_impl w"
    "flat w = drop (min b ?n) (flat ?t)"
    using counted_items.suffix_spec[OF t c2(2)] by blast
  obtain t' where t': "st_append list_item_impl v w = Some t'" "well_formed list_item_impl t'" "flat t' = flat v @ flat w"
    using counted_items.append_spec[OF v(2) w(2)] by blast
  have "flat t' = take a (flat ?t) @ map Unmeasured fs @ drop b (flat ?t)"
    using t'(3) v(3) u(4) w(3) by simp
  moreover have "splice_focusable a b fs st = Some (st\<lparr>list_items := t',
        logical_scroll_top := map_option (spliced_scroll a b (length fs)) (logical_scroll_top st)\<rparr>)"
    using u(1) c2(1) v(1) w(1) t'(1) ab
    by (cases "logical_scroll_top st") (auto simp: splice_focusable_def spliced_scroll_def Let_def)
  ultimately show ?thesis using t'(2) by blast
qed

section \<open>Scrolling\<close>

definition scroll_pixels :: "('a::linordered_field, 'h) list_state \<Rightarrow> 'a" where
  "scroll_pixels st =
     item_top (flat (list_items st)) (item_ix (current_scroll_top st)) + offset_in_item (current_scroll_top st)"

text \<open>A list that has been laid out: its tree is well-formed and of a height that the stack of a cursor
  takes, no item has a negative height, and the scroll offset is not negative.\<close>

definition list_ok :: "('a::linordered_field, 'h) list_state \<Rightarrow> bool" where
  "list_ok st \<longleftrightarrow> well_formed list_item_impl (list_items st) \<and> node_height (list_items st) < 16 \<and>
     tall (flat (list_items st)) \<and> 0 \<le> offset_in_item (current_scroll_top st)"

lemma list_okD:
  assumes "list_ok st"
  shows "well_formed list_item_impl (list_items st)" "node_height (list_items st) < 16" "tall (flat (list_items st))"
    "0 \<le> offset_in_item (current_scroll_top st)"
  using assms by (simp_all add: list_ok_def)

text \<open>The item at a pixel offset: the last one that starts there or above, or the end of the list.\<close>

definition holds_pixel :: "('a::linordered_field, 'h) list_item list \<Rightarrow> 'a \<Rightarrow> 'a list_offset \<Rightarrow> bool" where
  "holds_pixel xs h s \<longleftrightarrow>
     item_top xs (item_ix s) + offset_in_item s = h \<and> item_ix s \<le> length xs \<and> 0 \<le> offset_in_item s \<and>
     (item_ix s < length xs \<longrightarrow> offset_in_item s < item_height (xs ! item_ix s))"

lemma stops_holds:
  assumes "stops_at list_item_impl summary_dimension sum_height h Right t i k" "item_top (flat t) i \<le> h"
  shows "holds_pixel (flat t) h \<lparr>item_ix = k, offset_in_item = h - item_top (flat t) k\<rparr>"
  using assms unfolding stops_height holds_pixel_def
  by (cases "i < k") (auto simp: item_top_Suc algebra_simps)

lemma scroll_by_spec:
  assumes ok: "list_ok st"
  shows "\<exists>s. scroll_by d st = Some (if d = 0 then st else st\<lparr>logical_scroll_top := Some s\<rparr>) \<and>
    holds_pixel (flat (list_items st)) (max 0 (scroll_pixels st + d)) s"
proof -
  note t = list_okD(1,2)[OF ok] and tall = list_okD(3)[OF ok]
  let ?t = "list_items st" and ?s = "current_scroll_top st"
  define i where "i = min (item_ix ?s) (length (flat ?t))"
  define new where "new = max (scroll_pixels st + d) 0"
  obtain c r where c: "cursor_seek summary_dimension (count_target (item_ix ?s)) Right (cursor_new summary_dimension ?t) = Some (c, r)"
    "cursor_at list_item_impl summary_dimension ?t i c"
    using seek_total[OF t, of "cursor_new summary_dimension ?t" "item_ix ?s"] by (auto simp: i_def)
  have p: "sum_height (cursor_start c) + offset_in_item ?s = scroll_pixels st"
    using summary_start(2)[OF c(2)] by (simp add: scroll_pixels_def i_def)
  have "\<exists>c' r k j. (if new > scroll_pixels st then seek_forward summary_dimension (height_target new) Right c
       else cursor_seek summary_dimension (height_target new) Right c) = Some (c', r) \<and>
     cursor_at list_item_impl summary_dimension ?t k c' \<and> stops_at list_item_impl summary_dimension sum_height new Right ?t j k \<and>
     item_top (flat ?t) j \<le> new"
  proof (cases "new > scroll_pixels st")
    case True
    then have "item_top (flat ?t) i \<le> new" using list_okD(4)[OF ok] p summary_start(2)[OF c(2)] by linarith
    then show ?thesis using seek_forward_height[OF t c(2) tall, of new Right] True by auto
  next
    case False
    have "0 \<le> new" by (simp add: new_def)
    then show ?thesis using seek_height[OF t cursor_tree_at[OF c(2)] tall, of new Right] False by fastforce
  qed
  then obtain c' r' k j where c': "(if new > scroll_pixels st then seek_forward summary_dimension (height_target new) Right c
       else cursor_seek summary_dimension (height_target new) Right c) = Some (c', r')"
     "cursor_at list_item_impl summary_dimension ?t k c'"
     "stops_at list_item_impl summary_dimension sum_height new Right ?t j k" "item_top (flat ?t) j \<le> new" by blast
  note h = stops_holds[OF c'(3,4)]
  show ?thesis
    using h c(1) c'(1) summary_start[OF c'(2)] p
    by (intro exI[of _ "\<lparr>item_ix = k, offset_in_item = new - item_top (flat ?t) k\<rparr>"])
      (auto simp: scroll_by_def Let_def new_def max.commute)
qed

text \<open>Where the edges of an item are once \<open>scroll_to_reveal_item\<close> has scrolled to it.\<close>

definition viewport_height :: "('a::linordered_field, 'h) list_state \<Rightarrow> 'a" where
  "viewport_height st = (case last_layout_bounds st of None \<Rightarrow> 0 | Some b \<Rightarrow> height (extent b))"

lemma reveal_spec:
  assumes ok: "list_ok st" and ix: "ix < length (flat (list_items st))"
    and proper: "item_ix (current_scroll_top st) < length (flat (list_items st)) \<longrightarrow>
      offset_in_item (current_scroll_top st) \<le> item_height (flat (list_items st) ! item_ix (current_scroll_top st))"
    and fits: "e_top (edges_or_zero (last_padding st)) + item_height (flat (list_items st) ! ix) +
      e_bottom (edges_or_zero (last_padding st)) \<le> viewport_height st"
  shows "\<exists>s. scroll_to_reveal_item ix st = Some (st\<lparr>logical_scroll_top := Some s\<rparr>) \<and> item_ix s \<le> ix + 1 \<and>
    item_top (flat (list_items st)) (item_ix s) + offset_in_item s \<le> item_top (flat (list_items st)) ix \<and>
    e_top (edges_or_zero (last_padding st)) + item_top (flat (list_items st)) (Suc ix) -
      (item_top (flat (list_items st)) (item_ix s) + offset_in_item s) \<le>
      viewport_height st - e_bottom (edges_or_zero (last_padding st))"
proof -
  note t = list_okD(1,2)[OF ok] and tall = list_okD(3)[OF ok]
  let ?t = "list_items st" and ?s = "current_scroll_top st" and ?p = "edges_or_zero (last_padding st)"
  let ?xs = "flat ?t"
  note Suc_ix = item_top_Suc[OF ix]
  show ?thesis
  proof (cases "ix \<le> item_ix ?s")
    case True
    then show ?thesis using fits Suc_ix
      by (intro exI[of _ "\<lparr>item_ix = ix, offset_in_item = 0\<rparr>"]) (simp add: scroll_to_reveal_item_def)
  next
    case False
    define bottom where "bottom = item_top ?xs (Suc ix) + e_top ?p"
    define goal where "goal = max 0 (bottom - viewport_height st + e_bottom ?p)"
    obtain c r where c: "cursor_seek summary_dimension (count_target (ix + 1)) Right (cursor_new summary_dimension ?t) = Some (c, r)"
      "cursor_at list_item_impl summary_dimension ?t (Suc ix) c"
      using seek_total[OF t, of "cursor_new summary_dimension ?t" "ix + 1"] ix by (auto simp: min_def Suc_leI)
    obtain c' r' k where c': "cursor_seek summary_dimension (height_target goal) Left c = Some (c', r')"
      "cursor_at list_item_impl summary_dimension ?t k c'"
      "stops_at list_item_impl summary_dimension sum_height goal Left ?t 0 k"
      using seek_height[OF t cursor_tree_at[OF c(2)] tall, of goal Left] by (auto simp: goal_def)
    note st = summary_start[OF c(2)] summary_start[OF c'(2)]
    have goal_ix: "goal \<le> item_top ?xs ix"
      using fits Suc_ix item_top_nonneg[OF tall] by (simp add: goal_def bottom_def)
    have goal_bottom: "bottom - goal \<le> viewport_height st - e_bottom ?p" by (simp add: goal_def)
    let ?new = "if k \<ge> item_ix ?s then \<lparr>item_ix = k, offset_in_item = goal - item_top ?xs k\<rparr> else ?s"
    have eq: "scroll_to_reveal_item ix st = Some (st\<lparr>logical_scroll_top := Some ?new\<rparr>)"
      using False c(1) c'(1) st
      by (simp add: scroll_to_reveal_item_def bottom_def goal_def Let_def viewport_height_def)
    have k: "k \<le> ix"
    proof (rule ccontr)
      assume "\<not> k \<le> ix"
      then have "item_top ?xs k < goal" "ix \<le> k" using c'(3) by (auto simp: stops_height)
      then show False using goal_ix item_top_mono[OF tall, of ix k] by simp
    qed
    show ?thesis
    proof (cases "k \<ge> item_ix ?s")
      case True
      then show ?thesis using eq k goal_ix goal_bottom
        by (intro exI[of _ ?new]) (simp add: bottom_def algebra_simps)
    next
      case less: False
      then have i: "Suc k \<le> item_ix ?s" "k < length ?xs" "item_ix ?s < length ?xs" using False ix by auto
      then have "goal \<le> item_top ?xs (Suc k)" using c'(3) by (simp add: stops_height)
      also have "\<dots> \<le> item_top ?xs (item_ix ?s)" by (rule item_top_mono[OF tall i(1)])
      finally have "goal \<le> item_top ?xs (item_ix ?s) + offset_in_item ?s" using list_okD(4)[OF ok] by simp
      moreover have "item_top ?xs (item_ix ?s) + offset_in_item ?s \<le> item_top ?xs (Suc (item_ix ?s))"
        using proper i(3) by (simp add: item_top_Suc)
      moreover have "item_top ?xs (Suc (item_ix ?s)) \<le> item_top ?xs ix"
        by (rule item_top_mono[OF tall]) (use False in simp)
      ultimately show ?thesis using eq less goal_bottom False
        by (intro exI[of _ ?new]) (simp add: bottom_def algebra_simps)
    qed
  qed
qed

lemma bounds_for_item_spec:
  fixes st :: "('a::linordered_field, 'h) list_state"
  assumes t: "well_formed list_item_impl (list_items st)" "node_height (list_items st) < 16"
  shows "bounds_for_item ix st = Some
    (if ix < item_ix (current_scroll_top st) then None
     else case nth_opt (flat (list_items st)) ix of
       Some (Measured sz _) \<Rightarrow>
         (let y = edge_top (viewport_bounds st) + item_top (flat (list_items st)) ix - scroll_pixels st in
          Some (from_corners (point_new (edge_left (viewport_bounds st)) y)
                  (point_new (edge_right (viewport_bounds st)) (y + height sz))))
     | _ \<Rightarrow> None)"
proof (cases "ix < item_ix (current_scroll_top st)")
  case True
  then show ?thesis by (simp add: bounds_for_item_def Let_def)
next
  case False
  let ?D = "dimensions item_count_dimension (height_dimension :: ('a list_item_summary, 'a) dimension_impl)"
  let ?t = "list_items st" and ?s = "current_scroll_top st"
  let ?n = "length (flat ?t)"
  obtain c r where c: "cursor_seek ?D (compare_ord (item_ix ?s) \<circ> fst) Right (cursor_new ?D ?t) = Some (c, r)"
    "cursor_at list_item_impl ?D ?t (min (item_ix ?s) ?n) c"
    using seek_placed[OF t, of "cursor_new ?D ?t" "item_ix ?s"] by auto
  obtain c' r' where c': "seek_forward ?D (compare_ord ix \<circ> fst) Right c = Some (c', r')"
    "cursor_at list_item_impl ?D ?t (min ix ?n) c'"
  proof -
    have "max (min (item_ix ?s) ?n) (min ix ?n) = min ix ?n" "min (item_ix ?s) ?n \<le> ix" using False by linarith+
    then show ?thesis using seek_forward_placed[OF t c(2), of ix] that by auto
  qed
  have s: "cursor_start c = (min (item_ix ?s) ?n, item_top (flat ?t) (item_ix ?s))"
    "cursor_start c' = (min ix ?n, item_top (flat ?t) ix)"
    using placed_start[OF c(2)] placed_start[OF c'(2)] by simp_all
  have i: "cursor_item c' = Some (nth_opt (flat ?t) ix)"
    using cursor_item_at[OF c'(2) t(1)] by (auto simp: nth_opt_def)
  show ?thesis
  proof (cases "ix < ?n")
    case True
    then show ?thesis using False c(1) c'(1) i s
      by (cases "flat ?t ! ix") (simp_all add: bounds_for_item_def Let_def scroll_pixels_def nth_opt_def algebra_simps)
  next
    case out: False
    then show ?thesis using False c(1) c'(1) i by (simp add: bounds_for_item_def nth_opt_def Let_def)
  qed
qed

section \<open>Scroll events\<close>

lemma find_height:
  fixes t :: "('a::linordered_field, 'h) list_items"
  assumes t: "well_formed list_item_impl t" "tall (flat t)" "0 \<le> h"
  shows "\<exists>s e x. st_find summary_dimension (height_target h) Right t = (s, e, x) \<and>
    holds_pixel (flat t) h \<lparr>item_ix = item_total s, offset_in_item = h - sum_height s\<rparr>"
proof (cases "flat t = []")
  case True
  then have "item_total (node_summary t) = 0" "sum_height (node_summary t) = 0"
    using counted_items.summary_flat[OF t(1)] by simp_all
  then show ?thesis
    using t(3) True by (simp add: st_find_def height_target_def compare_ord_def Let_def holds_pixel_def)
next
  case False
  let ?D = "summary_dimension :: ('a list_item_summary, 'a list_item_summary) dimension_impl"
  note g = grows_height[OF t(2)]
  define k where "k = length (passed list_item_impl ?D (passes (height_target h) Right) (dim_zero ?D) (flat t))"
  have kl: "k \<le> length (flat t)" unfolding k_def by (rule passed_length)
  have "stops_at list_item_impl ?D sum_height h Right t 0 k"
    using summed_items.seeked_stops[OF g, of 0 h Right] by (simp add: summed_items.seeked_def k_def height_target_def[abs_def])
  note h = stops_holds[OF this] and find = summed_items.find_spec[OF t(1) False, of "height_target h" Right, folded k_def]
  have m: "monotone_target list_item_impl ?D (passes (height_target h) Right) (dim_zero ?D) (flat t)"
    using grows_monotone[OF g] by (simp add: height_target_def[abs_def])
  obtain e x where "st_find ?D (height_target h) Right t = (pos_at list_item_impl ?D (dim_zero ?D) (take k (flat t)), e, x)"
    using find[OF m] kl by (cases "k < length (flat t)") auto
  then show ?thesis using h t(3) kl by (simp add: min_def)
qed

lemma set_scroll_px_spec:
  assumes "well_formed list_item_impl (list_items st)" "tall (flat (list_items st))" "0 \<le> h"
  shows "\<exists>s. set_scroll_px h m st =
      st\<lparr>logical_scroll_top := if alignment st = AlignBottom \<and> h = m then None else Some s\<rparr> \<and>
    holds_pixel (flat (list_items st)) h s"
  using find_height[OF assms] by (auto simp: set_scroll_px_def)

lemma scroll_top_px_spec:
  fixes st :: "('a::linordered_field, 'h) list_state"
  assumes t: "well_formed list_item_impl (list_items st)"
  shows "scroll_top_px s st = item_top (flat (list_items st)) (item_ix s) + offset_in_item s"
proof (cases "flat (list_items st) = []")
  case True
  then have "item_total (node_summary (list_items st)) = 0" "sum_height (node_summary (list_items st)) = 0"
    using counted_items.summary_flat[OF t] by simp_all
  then show ?thesis
    using True by (simp add: scroll_top_px_def st_find_def count_target_def compare_ord_def Let_def item_top_def)
next
  case False
  let ?D = "summary_dimension :: ('a list_item_summary, 'a list_item_summary) dimension_impl" and ?t = "list_items st"
  define k where "k = length (passed list_item_impl ?D (passes (count_target (item_ix s)) Right) (dim_zero ?D) (flat ?t))"
  have g: "grows list_item_impl ?D item_total (flat ?t)" by simp
  have k: "k = min (item_ix s) (length (flat ?t))"
    using stops_total[OF summed_items.seeked_stops[OF g, of 0 "item_ix s" Right]]
    by (simp add: summed_items.seeked_def k_def count_target_def[abs_def])
  have m: "monotone_target list_item_impl ?D (passes (count_target (item_ix s)) Right) (dim_zero ?D) (flat ?t)"
    using grows_monotone[OF g] by (simp add: count_target_def[abs_def])
  obtain e x where "st_find ?D (count_target (item_ix s)) Right ?t = (pos_at list_item_impl ?D (dim_zero ?D) (take k (flat ?t)), e, x)"
    using summed_items.find_spec[OF t False m, folded k_def] k by (cases "item_ix s < length (flat ?t)") (auto simp: min_def)
  then show ?thesis using k by (simp add: scroll_top_px_def)
qed

lemma visible_range_spec:
  assumes t: "well_formed list_item_impl t" "node_height t < 16" "tall (flat t)" and h: "0 \<le> offset_in_item s + h"
  shows "\<exists>k. visible_range t h s = Some (item_ix s, k + 1) \<and>
    (k < length (flat t) \<longrightarrow> item_top (flat t) (item_ix s) + offset_in_item s + h \<le> item_top (flat t) (Suc k))"
proof -
  obtain c r where c: "cursor_seek summary_dimension (count_target (item_ix s)) Right (cursor_new summary_dimension t) = Some (c, r)"
    "cursor_at list_item_impl summary_dimension t (min (item_ix s) (length (flat t))) c"
    using seek_total[OF t(1,2), of "cursor_new summary_dimension t" "item_ix s"] by auto
  obtain c' r' k where c': "seek_forward summary_dimension
      (height_target (item_top (flat t) (item_ix s) + offset_in_item s + h)) Left c = Some (c', r')"
    "cursor_at list_item_impl summary_dimension t k c'"
    "stops_at list_item_impl summary_dimension sum_height (item_top (flat t) (item_ix s) + offset_in_item s + h) Left t
      (min (item_ix s) (length (flat t))) k"
    using seek_forward_height[OF t(1,2) c(2) t(3), of "item_top (flat t) (item_ix s) + offset_in_item s + h" Left] h by auto
  show ?thesis
    using c(1) c'(1,3) summary_start(2)[OF c(2)] summary_start(1)[OF c'(2)]
    by (intro exI[of _ k]) (simp add: visible_range_def stops_height Let_def)
qed

section \<open>Properties\<close>

text \<open>C29: \<open>splice_focusable\<close> never panics on a range that is not inverted; it replaces the items of the range by
  unmeasured ones with the given focus handles, and keeps the scroll position with its item: a position on
  an item that stays is on the same item afterwards, one on an item that goes moves to the first new one.\<close>

theorem list_splice:
  fixes st :: "('a::linordered_field, 'h) list_state"
  assumes "well_formed list_item_impl (list_items st)" "node_height (list_items st) < 16" "a \<le> b"
  defines "xs \<equiv> flat (list_items st)"
  shows "\<exists>t. splice_focusable a b fs st = Some (st\<lparr>list_items := t,
        logical_scroll_top := map_option (spliced_scroll a b (length fs)) (logical_scroll_top st)\<rparr>) \<and>
      well_formed list_item_impl t \<and> flat t = take a xs @ map Unmeasured fs @ drop b xs \<and>
      (\<forall>s :: 'a list_offset. item_ix s < length xs \<and> (item_ix s < a \<or> b \<le> item_ix s) \<longrightarrow>
         nth_opt (flat t) (item_ix (spliced_scroll a b (length fs) s)) = nth_opt xs (item_ix s) \<and>
         offset_in_item (spliced_scroll a b (length fs) s) = offset_in_item s) \<and>
      (\<forall>s :: 'a list_offset. a \<le> item_ix s \<and> item_ix s < b \<longrightarrow> spliced_scroll a b (length fs) s = \<lparr>item_ix = a, offset_in_item = 0\<rparr>)"
proof -
  have same: "nth_opt (take a xs @ ys @ drop b xs) (item_ix (spliced_scroll a b (length ys) s)) = nth_opt xs (item_ix s)"
    if "item_ix s < length xs" "item_ix s < a \<or> b \<le> item_ix s" for ys and s :: "'a list_offset"
    using that assms(3) by (auto simp: spliced_scroll_def nth_opt_def nth_append min_def)
  obtain t where t: "splice_focusable a b fs st = Some (st\<lparr>list_items := t,
        logical_scroll_top := map_option (spliced_scroll a b (length fs)) (logical_scroll_top st)\<rparr>)"
      "well_formed list_item_impl t" "flat t = take a xs @ map Unmeasured fs @ drop b xs"
    using splice_focusable_spec[OF assms(1-3), of fs] unfolding xs_def by blast
  show ?thesis
  proof (intro exI[of _ t] conjI allI impI)
    fix s :: "'a list_offset"
    assume "item_ix s < length xs \<and> (item_ix s < a \<or> b \<le> item_ix s)"
    then show "nth_opt (flat t) (item_ix (spliced_scroll a b (length fs) s)) = nth_opt xs (item_ix s)"
      "offset_in_item (spliced_scroll a b (length fs) s) = offset_in_item s"
      using same[of s "map Unmeasured fs"] t(3) by (auto simp: spliced_scroll_def)
  qed (use t in \<open>simp_all add: spliced_scroll_def\<close>)
qed

text \<open>\<open>scroll_by\<close> moves the pixel offset of the scroll position by the distance, stopping at the top of the
  list, and the position it stores is the item that holds this offset, whichever way the cursor seeks.\<close>

theorem list_scroll_by:
  assumes "list_ok st" "d \<noteq> 0"
  shows "\<exists>st'. scroll_by d st = Some st' \<and> list_ok st' \<and> list_items st' = list_items st \<and>
    scroll_pixels st' = max 0 (scroll_pixels st + d) \<and>
    holds_pixel (flat (list_items st)) (scroll_pixels st') (current_scroll_top st')"
  using scroll_by_spec[OF assms(1), of d] assms
  by (auto simp: scroll_pixels_def holds_pixel_def list_ok_def current_scroll_top_def)

text \<open>An item that fits into the padded viewport is inside it once \<open>scroll_to_reveal_item\<close> has scrolled to
  it: it starts at the scroll position or below, and its lower edge, placed below the top padding as the
  layout places it, is at the lower edge of the viewport less its padding or above.\<close>

theorem list_reveal:
  fixes st :: "('a::linordered_field, 'h) list_state"
  defines "xs \<equiv> flat (list_items st)" and "s \<equiv> current_scroll_top st" and "p \<equiv> edges_or_zero (last_padding st)"
  assumes "list_ok st" "ix < length xs" "item_ix s < length xs \<longrightarrow> offset_in_item s \<le> item_height (xs ! item_ix s)"
    "e_top p + item_height (xs ! ix) + e_bottom p \<le> viewport_height st"
  shows "\<exists>st'. scroll_to_reveal_item ix st = Some st' \<and> list_items st' = list_items st \<and>
    scroll_pixels st' \<le> item_top xs ix \<and>
    e_top p + item_top xs (Suc ix) - scroll_pixels st' \<le> viewport_height st - e_bottom p"
  using reveal_spec[OF assms(4,5,6,7)[unfolded xs_def s_def p_def]] unfolding xs_def s_def p_def
  by (auto simp: scroll_pixels_def current_scroll_top_def)

text \<open>A scroll event of the list moves the pixel offset against the delta, between the top and the lowest
  position, and stores the item that holds it, or, at the lowest position of a list aligned to the bottom,
  no position; the handler gets the number of all the items, and a range that starts at the position before
  the event.\<close>

theorem list_scroll_event:
  fixes st :: "('a::linordered_field, 'h) list_state" and delta :: "'a point"
  defines "xs \<equiv> flat (list_items st)"
  assumes "list_ok st" "\<not> reset_flag st" "0 \<le> offset_in_item s + h"
  defines "m \<equiv> scroll_max h st"
  defines "new \<equiv> min (max (item_top xs (item_ix s) + offset_in_item s - pt_y delta) 0) m"
  shows "\<exists>s' k. list_scroll True s h delta st =
      Some (st\<lparr>logical_scroll_top := s'\<rparr>, Some \<lparr>visible_items = (item_ix s, k + 1), event_count = length xs, is_scrolled = (s' \<noteq> None)\<rparr>) \<and>
    (case s' of None \<Rightarrow> alignment st = AlignBottom \<and> new = m | Some s' \<Rightarrow> holds_pixel xs new s') \<and>
    (k < length xs \<longrightarrow> item_top xs (item_ix s) + offset_in_item s + h \<le> item_top xs (Suc k))"
proof -
  note t = list_okD(1,2,3)[OF assms(2)]
  have "0 \<le> m" by (simp add: m_def scroll_max_def Let_def)
  then have "0 \<le> new" by (simp add: new_def)
  then obtain s' where s': "set_scroll_px new m st =
      st\<lparr>logical_scroll_top := if alignment st = AlignBottom \<and> new = m then None else Some s'\<rparr>" "holds_pixel xs new s'"
    using set_scroll_px_spec[OF t(1,3)] unfolding xs_def by blast
  obtain k where k: "visible_range (list_items st) h s = Some (item_ix s, k + 1)"
    "k < length xs \<longrightarrow> item_top xs (item_ix s) + offset_in_item s + h \<le> item_top xs (Suc k)"
    using visible_range_spec[OF t assms(4)] unfolding xs_def by blast
  have n: "min (max (scroll_top_px s st - pt_y delta) 0) m = new"
    using scroll_top_px_spec[OF t(1)] by (simp add: new_def xs_def)
  have c: "item_count st = length xs" using item_count_flat[OF t(1)] by (simp add: xs_def)
  show ?thesis
    using assms(3) s' k n c
    by (intro exI[of _ "if alignment st = AlignBottom \<and> new = m then None else Some s'"] exI[of _ k])
      (simp add: list_scroll_def m_def[symmetric] item_count_def Let_def)
qed

text \<open>A list to instantiate the properties with: eight items of height 10, scrolled to the middle of the third.\<close>

definition eight_items :: "(real, nat) list_state" where
  "eight_items =
     \<lparr>last_layout_bounds = Some \<lparr>origin = \<lparr>pt_x = 0, pt_y = 0\<rparr>, extent = \<lparr>width = 100, height = 30\<rparr>\<rparr>,
      last_padding = None,
      list_items = st_from_iter list_item_impl (replicate 8 (Measured \<lparr>width = 100, height = 10\<rparr> None)),
      logical_scroll_top = Some \<lparr>item_ix = 2, offset_in_item = 5\<rparr>, alignment = AlignTop, overdraw = 0,
      reset_flag = False, scrollbar_drag_start_height = None, measuring_behavior = Visible, pending_scroll = None\<rparr>"

lemmas list_from_iter = counted_items.from_iter_spec[THEN conjunct1] counted_items.from_iter_spec[THEN conjunct2]

lemma eight_flat [simp]: "flat (list_items eight_items) = replicate 8 (Measured \<lparr>width = 100, height = 10\<rparr> None)"
  by (simp add: eight_items_def list_from_iter)

lemma eight_top [simp]: "current_scroll_top eight_items = \<lparr>item_ix = 2, offset_in_item = 5\<rparr>"
  by (simp add: eight_items_def current_scroll_top_def)

lemma eight_ok: "list_ok eight_items"
  by (simp add: list_ok_def tall_def list_all_iff item_height_def)
    (simp add: eight_items_def list_from_iter counted_items.from_iter_height)

lemma eight_item_top [simp]: "k \<le> 8 \<Longrightarrow> item_top (replicate 8 (Measured \<lparr>width = 100, height = (10::real)\<rparr> None)) k = 10 * of_nat k"
  by (simp add: item_top_def item_height_def sum_list_replicate min_def)

theorem list_splice_witness:
  "\<exists>st. splice_focusable 1 2 [Some 7, None] eight_items = Some st \<and> length (flat (list_items st)) = 9 \<and>
    logical_scroll_top st = Some \<lparr>item_ix = 3, offset_in_item = 5\<rparr>"
proof -
  obtain t where "splice_focusable 1 2 [Some 7, None] eight_items = Some (eight_items\<lparr>list_items := t,
      logical_scroll_top := map_option (spliced_scroll 1 2 (length [Some (7::nat), None])) (logical_scroll_top eight_items)\<rparr>)"
    "flat t = take 1 (flat (list_items eight_items)) @ map Unmeasured [Some 7, None] @ drop 2 (flat (list_items eight_items))"
    using list_splice[of eight_items 1 2 "[Some 7, None]"] list_okD(1,2)[OF eight_ok] by auto
  moreover have "logical_scroll_top eight_items = Some \<lparr>item_ix = 2, offset_in_item = 5\<rparr>" by (simp add: eight_items_def)
  ultimately show ?thesis by (simp add: spliced_scroll_def)
qed

theorem list_scroll_by_witness: "\<exists>st. scroll_by (-10) eight_items = Some st \<and> scroll_pixels st = 15"
  using list_scroll_by[OF eight_ok, of "-10"] by (auto simp: scroll_pixels_def)

theorem list_reveal_witness:
  "\<exists>st. scroll_to_reveal_item 6 eight_items = Some st \<and> 70 - scroll_pixels st \<le> 30 \<and> scroll_pixels st \<le> 60"
proof -
  have "last_padding eight_items = None" "viewport_height eight_items = 30"
    by (simp_all add: eight_items_def viewport_height_def)
  then show ?thesis
    using list_reveal[OF eight_ok, of 6]
    by (auto simp: edges_or_zero_def zero_edges_def edges_all_def item_height_def)
qed

theorem list_scroll_event_witness:
  "\<exists>st ev. list_scroll True \<lparr>item_ix = 2, offset_in_item = 5\<rparr> 30 \<lparr>pt_x = 0, pt_y = -100\<rparr> eight_items = Some (st, Some ev) \<and>
    event_count ev = 8 \<and> fst (visible_items ev) = 2"
proof -
  have "\<not> reset_flag eight_items" by (simp add: eight_items_def)
  from list_scroll_event[OF eight_ok this, of "\<lparr>item_ix = 2, offset_in_item = 5\<rparr>" 30 "\<lparr>pt_x = 0, pt_y = -100\<rparr>"]
  obtain s' k where "list_scroll True \<lparr>item_ix = 2, offset_in_item = 5\<rparr> 30 \<lparr>pt_x = 0, pt_y = -100\<rparr> eight_items =
      Some (eight_items\<lparr>logical_scroll_top := s'\<rparr>,
        Some \<lparr>visible_items = (2, k + 1), event_count = length (flat (list_items eight_items)), is_scrolled = (s' \<noteq> None)\<rparr>)"
    by auto
  then show ?thesis by simp
qed

end
