(* ===== verification/ListLayout.thy ===== *)
theory ListLayout
  imports ListSpec
begin

text \<open>
  The layout of a list: the loops of \<open>layout_items\<close> and what they do to the items.  \<open>laid_out\<close> says that a run of
  items has been measured in place: each keeps its focus handle and has the size that its element has now, or
  the one it had.
\<close>

section \<open>Measured runs\<close>

definition remeasured :: "(nat \<Rightarrow> 'a::linordered_field extent) \<Rightarrow> nat \<Rightarrow> ('a, 'h) list_item \<Rightarrow> ('a, 'h) list_item \<Rightarrow> bool" where
  "remeasured render i x y \<longleftrightarrow> y = Measured (render i) (item_focus_handle x) \<or> (y = x \<and> item_size x \<noteq> None)"

definition laid_out ::
  "(nat \<Rightarrow> 'a::linordered_field extent) \<Rightarrow> ('a, 'h) list_item list \<Rightarrow> nat \<Rightarrow> ('a, 'h) list_item list \<Rightarrow> bool" where
  "laid_out render xs j ms \<longleftrightarrow>
     j + length ms \<le> length xs \<and> (\<forall>i < length ms. remeasured render (j + i) (xs ! (j + i)) (ms ! i))"

lemma laid_out_Nil: "j \<le> length xs \<Longrightarrow> laid_out render xs j []"
  by (simp add: laid_out_def)

lemma laid_out_snoc:
  "laid_out render xs j ms \<Longrightarrow> j + length ms < length xs \<Longrightarrow>
     remeasured render (j + length ms) (xs ! (j + length ms)) y \<Longrightarrow> laid_out render xs j (ms @ [y])"
  by (auto simp: laid_out_def nth_append less_Suc_eq)

lemma laid_out_Cons:
  "laid_out render xs (Suc j) ms \<Longrightarrow> remeasured render j (xs ! j) y \<Longrightarrow> laid_out render xs j (y # ms)"
  by (auto simp: laid_out_def nth_Cons split: nat.split)

lemma remeasured_render [simp]: "remeasured render i x (Measured (render i) (item_focus_handle x))"
  by (simp add: remeasured_def)

lemma remeasured_kept: "item_size x = Some sz \<Longrightarrow> remeasured render i x (Measured sz (item_focus_handle x))"
  by (cases x) (simp_all add: remeasured_def)

section \<open>The cursor over the items\<close>

text \<open>A cursor that walks upward is at an item, or before the first one.\<close>

definition walks_up :: "('a::linordered_field, 'h) list_items \<Rightarrow> nat \<Rightarrow> ('a, 'h) count_cursor \<Rightarrow> bool" where
  "walks_up t k c \<longleftrightarrow>
     cursor_at list_item_impl item_count_dimension t k c \<or> (cursor_before item_count_dimension t c \<and> k = 0)"

lemma walks_up_start: "walks_up t k c \<Longrightarrow> cursor_start c = k"
  by (auto simp: walks_up_def cursor_at_def cursor_before_def cursor_start_def)

lemma prev_before:
  assumes "cursor_before D t c"
  shows "\<exists>c'. cursor_prev D c = Some c' \<and> cursor_before D t c'"
proof (cases "st_is_empty t")
  case True
  then show ?thesis using assms
    by (cases c) (simp add: cursor_prev_def search_backward_def cursor_before_def backward_loop.simps[of _ _ "[]"] Let_def)
next
  case False
  then show ?thesis using assms
    by (cases c) (simp add: cursor_prev_def search_backward_def cursor_before_def backward_loop.simps[of _ _ "[]"] Let_def)
qed

lemma walks_up_prev:
  assumes t: "well_formed list_item_impl t" "node_height t < 16" and c: "walks_up t k c"
  shows "\<exists>c'. cursor_prev item_count_dimension c = Some c' \<and> walks_up t (k - 1) c' \<and>
    cursor_item c' = Some (if k = 0 then None else Some (flat t ! (k - 1)))"
  using c[unfolded walks_up_def]
proof
  assume "cursor_before item_count_dimension t c \<and> k = 0"
  then show ?thesis using prev_before[of item_count_dimension t c] cursor_item_before by (fastforce simp: walks_up_def)
next
  assume at: "cursor_at list_item_impl item_count_dimension t k c"
  then have k: "k \<le> length (flat t)" by (simp add: cursor_at_def)
  obtain c' where c': "cursor_prev item_count_dimension c = Some c'"
    "if k = 0 then cursor_before item_count_dimension t c' else cursor_at list_item_impl item_count_dimension t (k - 1) c'"
    using counted_items.prev_spec[OF t at] by blast
  show ?thesis
  proof (cases "k = 0")
    case True
    then show ?thesis using c' cursor_item_before by (fastforce simp: walks_up_def)
  next
    case False
    then have at': "cursor_at list_item_impl item_count_dimension t (k - 1) c'" "k - 1 < length (flat t)" using c'(2) k by auto
    then show ?thesis using c'(1) cursor_item_at[OF at'(1) t(1)] False by (simp add: walks_up_def)
  qed
qed

lemma iter_next_item:
  assumes t: "well_formed list_item_impl t" "node_height t < 16"
    and c: "cursor_at list_item_impl item_count_dimension t k c" and k: "k < length (flat t)"
  shows "\<exists>c'. cursor_iter_next item_count_dimension c = Some (c', Some (flat t ! k)) \<and>
      cursor_at list_item_impl item_count_dimension t (Suc k) c'"
proof -
  have "did_seek c" using c by (simp add: cursor_at_def)
  moreover obtain c' where "cursor_next item_count_dimension c = Some c'"
    "cursor_at list_item_impl item_count_dimension t (min (Suc k) (length (flat t))) c'"
    using counted_items.next_spec[OF t c] by blast
  moreover have "min (Suc k) (length (flat t)) = Suc k" using k by simp
  ultimately show ?thesis using cursor_item_at[OF c t(1)] k by (simp add: cursor_iter_next_def)
qed

lemma iter_next_end:
  assumes "well_formed list_item_impl t" "cursor_at list_item_impl item_count_dimension t k c" "length (flat t) \<le> k"
  shows "cursor_iter_next item_count_dimension c = Some (c, None)"
  using cursor_item_at[OF assms(2,1)] assms(2,3) by (simp add: cursor_iter_next_def cursor_at_def)

section \<open>The loops\<close>

text \<open>What the loop below the scroll position keeps of a pass: the run of items it has measured, their height, and
  the state but for the scroll position.\<close>

definition pass_inv ::
  "(nat \<Rightarrow> 'a::linordered_field extent) \<Rightarrow> ('a, 'h) list_state \<Rightarrow> nat \<Rightarrow> 'a \<Rightarrow> ('a, 'h) layout_pass \<Rightarrow> bool" where
  "pass_inv render st j c p \<longleftrightarrow>
     laid_out render (flat (list_items st)) j (measured_items p) \<and>
     rendered_height p = c + sum_list (map item_height (measured_items p)) \<and>
     overdraw (pass_state p) = overdraw st \<and> alignment (pass_state p) = alignment st \<and>
     list_items (pass_state p) = list_items st"

lemma take_pending_simps [simp]:
  "measured_items (take_pending ix sz p) = measured_items p"
  "rendered_height (take_pending ix sz p) = rendered_height p"
  "max_item_width (take_pending ix sz p) = max_item_width p"
  "item_ix (pass_scroll_top (take_pending ix sz p)) = item_ix (pass_scroll_top p)"
  "overdraw (pass_state (take_pending ix sz p)) = overdraw (pass_state p)"
  "alignment (pass_state (take_pending ix sz p)) = alignment (pass_state p)"
  "list_items (pass_state (take_pending ix sz p)) = list_items (pass_state p)"
  by (simp_all add: take_pending_def Let_def split: option.split prod.split)

lemma item_height_measured [simp]: "item_height (Measured sz h) = height sz"
  by (simp add: item_height_def)

lemma layout_item_inv:
  fixes H focused
  assumes "pass_inv render st (item_ix (pass_scroll_top p)) c p" "length (measured_items p) = ix"
    "item_ix (pass_scroll_top p) + ix < length (flat (list_items st))"
  defines "p' \<equiv> layout_item render focused H ix (flat (list_items st) ! (item_ix (pass_scroll_top p) + ix)) p"
  shows "pass_inv render st (item_ix (pass_scroll_top p)) c p' \<and> length (measured_items p') = Suc ix \<and>
    item_ix (pass_scroll_top p') = item_ix (pass_scroll_top p)"
proof -
  let ?i = "item_ix (pass_scroll_top p)"
  let ?x = "flat (list_items st) ! (?i + ix)"
  obtain sz where sz: "measured_items p' = measured_items p @ [Measured sz (item_focus_handle ?x)]"
    "rendered_height p' = rendered_height p + height sz" "sz = render (?i + ix) \<or> item_size ?x = Some sz"
    "item_ix (pass_scroll_top p') = ?i" "overdraw (pass_state p') = overdraw (pass_state p)"
    "alignment (pass_state p') = alignment (pass_state p)" "list_items (pass_state p') = list_items (pass_state p)"
    by (cases "item_size ?x") (auto simp: p'_def layout_item_def Let_def)
  have "remeasured render (?i + ix) ?x (Measured sz (item_focus_handle ?x))"
    using sz(3) remeasured_kept by auto
  then have "laid_out render (flat (list_items st)) ?i (measured_items p @ [Measured sz (item_focus_handle ?x)])"
    by (intro laid_out_snoc) (use assms in \<open>simp_all add: pass_inv_def\<close>)
  then show ?thesis using assms(1,2) sz by (simp add: pass_inv_def add.assoc)
qed

lemma layout_below_spec:
  assumes t: "well_formed list_item_impl (list_items st)" "node_height (list_items st) < 16"
  shows "cursor_at list_item_impl item_count_dimension (list_items st) (item_ix (pass_scroll_top p) + ix) c \<Longrightarrow>
    pass_inv render st (item_ix (pass_scroll_top p)) e p \<Longrightarrow> length (measured_items p) = ix \<Longrightarrow>
    \<exists>p'. layout_below render focused H c ix p = Some p' \<and> pass_inv render st (item_ix (pass_scroll_top p)) e p' \<and>
      item_ix (pass_scroll_top p') = item_ix (pass_scroll_top p) \<and>
      (H + overdraw st \<le> rendered_height p' - offset_in_item (pass_scroll_top p') \<or>
       item_ix (pass_scroll_top p) + length (measured_items p') = length (flat (list_items st)))"
proof (induction "length (flat (list_items st)) - (item_ix (pass_scroll_top p) + ix)" arbitrary: p ix c rule: less_induct)
  case less
  let ?n = "length (flat (list_items st))" and ?i = "item_ix (pass_scroll_top p)"
  have o: "overdraw (pass_state p) = overdraw st" using less.prems(2) by (simp add: pass_inv_def)
  show ?case
  proof (cases "?i + ix < ?n")
    case True
    obtain c' where c': "cursor_iter_next item_count_dimension c = Some (c', Some (flat (list_items st) ! (?i + ix)))"
      "cursor_at list_item_impl item_count_dimension (list_items st) (Suc (?i + ix)) c'"
      using iter_next_item[OF t less.prems(1) True] by blast
    show ?thesis
    proof (cases "rendered_height p - offset_in_item (pass_scroll_top p) \<ge> H + overdraw st")
      case True
      then show ?thesis using c'(1) less.prems(2) o by (subst layout_below.simps) simp
    next
      case False
      let ?p = "layout_item render focused H ix (flat (list_items st) ! (?i + ix)) p"
      note inv = layout_item_inv[OF less.prems(2,3) True, of focused H]
      have "cursor_at list_item_impl item_count_dimension (list_items st) (item_ix (pass_scroll_top ?p) + Suc ix) c'"
        using c'(2) inv by simp
      from less.hyps[OF _ this] show ?thesis
        using inv True c'(1) False o by (subst layout_below.simps) simp
    qed
  next
    case False
    then have "?i + ix = ?n" using less.prems(2,3) by (simp add: pass_inv_def laid_out_def)
    then show ?thesis
      using iter_next_end[OF t(1) less.prems(1)] less.prems(2,3) by (subst layout_below.simps) simp
  qed
qed

lemma fill_above_spec:
  assumes t: "well_formed list_item_impl (list_items st)" "node_height (list_items st) < 16"
  shows "walks_up (list_items st) k c \<Longrightarrow> pass_inv render st k e p \<Longrightarrow>
    \<exists>c' p' j. fill_above render focused H c p = Some (c', p') \<and> walks_up (list_items st) j c' \<and> j \<le> k \<and>
      pass_inv render st j e p' \<and> j + length (measured_items p') = k + length (measured_items p) \<and>
      (H \<le> rendered_height p' \<or> j = 0)"
proof (induction k arbitrary: p c)
  case 0
  then show ?case
    using walks_up_prev[OF t 0(1)] by (subst fill_above.simps) fastforce
next
  case (Suc k)
  show ?case
  proof (cases "rendered_height p < H")
    case True
    obtain c' where c': "cursor_prev item_count_dimension c = Some c'" "walks_up (list_items st) k c'"
      "cursor_item c' = Some (Some (flat (list_items st) ! k))"
      using walks_up_prev[OF t Suc.prems(1)] by auto
    let ?x = "flat (list_items st) ! k"
    let ?p = "p\<lparr>rendered_height := rendered_height p + height (render k),
                 measured_items := Measured (render k) (item_focus_handle ?x) # measured_items p,
                 item_layouts := (k, render k) # item_layouts p,
                 rendered_focused_item := (rendered_focused_item p \<or> contains_focused focused ?x)\<rparr>"
    have "pass_inv render st k e ?p"
      using Suc.prems(2) laid_out_Cons[of render "flat (list_items st)" k] by (simp add: pass_inv_def add.assoc add.commute)
    from Suc.IH[OF c'(2) this] obtain c2 p2 j where r: "fill_above render focused H c' ?p = Some (c2, p2)"
      "walks_up (list_items st) j c2" "j \<le> k" "pass_inv render st j e p2"
      "j + length (measured_items p2) = k + length (measured_items ?p)" "H \<le> rendered_height p2 \<or> j = 0" by blast
    have "fill_above render focused H c p = Some (c2, p2)"
      using True c' r(1) walks_up_start[OF c'(2)] by (subst fill_above.simps) (simp add: Let_def)
    then show ?thesis using r by (intro exI[of _ c2] exI[of _ p2] exI[of _ j]) simp
  next
    case False
    then show ?thesis using Suc.prems by (subst fill_above.simps) (intro exI[of _ c] exI[of _ p] exI[of _ "Suc k"], simp)
  qed
qed

lemma measure_leading_spec:
  assumes t: "well_formed list_item_impl (list_items st)" "node_height (list_items st) < 16"
  shows "walks_up (list_items st) k c \<Longrightarrow> laid_out render (flat (list_items st)) k ms \<Longrightarrow>
    \<exists>c' ms' j. measure_leading render over c ms lead = Some (c', ms') \<and> walks_up (list_items st) j c' \<and> j \<le> k \<and>
      laid_out render (flat (list_items st)) j ms' \<and> j + length ms' = k + length ms \<and> drop (k - j) ms' = ms"
proof (induction k arbitrary: c ms lead)
  case 0
  then show ?case
    using walks_up_prev[OF t 0(1)] by (subst measure_leading.simps) fastforce
next
  case (Suc k)
  show ?case
  proof (cases "lead < over")
    case True
    obtain c' where c': "cursor_prev item_count_dimension c = Some c'" "walks_up (list_items st) k c'"
      "cursor_item c' = Some (Some (flat (list_items st) ! k))"
      using walks_up_prev[OF t Suc.prems(1)] by auto
    let ?x = "flat (list_items st) ! k"
    define sz where "sz = (case item_size ?x of Some sz \<Rightarrow> sz | None \<Rightarrow> render k)"
    have "remeasured render k ?x (Measured sz (item_focus_handle ?x))"
      using remeasured_kept[of ?x] by (auto simp: sz_def split: option.split)
    then have lo: "laid_out render (flat (list_items st)) k (Measured sz (item_focus_handle ?x) # ms)"
      using laid_out_Cons Suc.prems(2) by blast
    obtain c2 ms2 j where r: "measure_leading render over c' (Measured sz (item_focus_handle ?x) # ms) (lead + height sz) = Some (c2, ms2)"
      "walks_up (list_items st) j c2" "j \<le> k" "laid_out render (flat (list_items st)) j ms2"
      "j + length ms2 = k + length (Measured sz (item_focus_handle ?x) # ms)"
      "drop (k - j) ms2 = Measured sz (item_focus_handle ?x) # ms"
      using Suc.IH[OF c'(2) lo] by blast
    have "measure_leading render over c ms lead = Some (c2, ms2)"
      using True c' r(1) walks_up_start[OF c'(2)] by (subst measure_leading.simps) (simp add: Let_def sz_def cong: option.case_cong)
    moreover have "drop (Suc k - j) ms2 = ms"
      using r(3,6) by (metis Suc_diff_le drop_Suc drop_tl list.sel(3))
    ultimately show ?thesis using r by (intro exI[of _ c2] exI[of _ ms2] exI[of _ j]) simp
  next
    case False
    then show ?thesis using Suc.prems
      by (subst measure_leading.simps) (intro exI[of _ c] exI[of _ ms] exI[of _ "Suc k"], simp)
  qed
qed

lemma replace_items_spec:
  assumes t: "well_formed list_item_impl t" "node_height t < 16" and j: "j + length ms \<le> length (flat t)"
  shows "\<exists>t'. replace_items j ms t = Some t' \<and> well_formed list_item_impl t' \<and>
    flat t' = take j (flat t) @ ms @ drop (j + length ms) (flat t)"
proof -
  let ?D = item_count_dimension
  have fr: "cursor_at list_item_impl ?D t 0 (cursor_new ?D t) \<or> (cursor_fresh ?D t (cursor_new ?D t) \<and> (0::nat) = 0)"
    using cursor_new_fresh by blast
  have g: "grows list_item_impl ?D (\<lambda>n. n) (flat t)" by simp
  have k: "counted_items.seeked (compare_ord j) Right t 0 = j"
    using stops_count[OF counted_items.seeked_stops[OF g, of 0 j Right]] j by simp
  obtain c1 u where u: "cursor_slice list_item_impl ?D (compare_ord j) Right (cursor_new ?D t) = Some (c1, u)"
    "cursor_at list_item_impl ?D t j c1" "well_formed list_item_impl u" "flat u = take j (flat t)"
    using counted_items.slice_spec[OF t fr, of "compare_ord j" Right] grows_monotone[OF g, of j Right 0]
    by (auto simp: k compare_ord_le cursor_new_def)
  obtain v where v: "st_extend list_item_impl ms u = Some v" "well_formed list_item_impl v" "flat v = flat u @ ms"
    using counted_items.extend_spec[OF u(3)] by blast
  have m: "min (j + length ms) (length (flat t)) = j + length ms" using j by simp
  obtain c2 r where c2: "cursor_seek ?D (compare_ord (j + length ms)) Right c1 = Some (c2, r)"
    "cursor_at list_item_impl ?D t (j + length ms) c2"
    using seek_count[OF t cursor_tree_at[OF u(2)], of "j + length ms"] unfolding m by blast
  obtain c3 w where w: "cursor_suffix list_item_impl ?D c2 = Some (c3, w)" "well_formed list_item_impl w"
    "flat w = drop (j + length ms) (flat t)"
    using counted_items.suffix_spec[OF t c2(2)] by blast
  obtain t' where "st_append list_item_impl v w = Some t'" "well_formed list_item_impl t'" "flat t' = flat v @ flat w"
    using counted_items.append_spec[OF v(2) w(2)] by blast
  then show ?thesis using u(1,4) v(1,3) c2(1) w(1,3) by (simp add: replace_items_def)
qed

lemma adjust_scroll_top_simps [simp]:
  "measured_items (adjust_scroll_top H j p) = measured_items p"
  "rendered_height (adjust_scroll_top H j p) = rendered_height p"
  "item_ix (pass_scroll_top (adjust_scroll_top H j p)) = j"
  "pass_inv render st i c (adjust_scroll_top H j p) \<longleftrightarrow> pass_inv render st i c p"
  by (simp_all add: adjust_scroll_top_def pass_inv_def Let_def split: list_alignment.split)

lemma adjust_scroll_top_fills:
  "H \<le> rendered_height p \<Longrightarrow> H \<le> rendered_height p - offset_in_item (pass_scroll_top (adjust_scroll_top H j p))"
  by (simp add: adjust_scroll_top_def Let_def split: list_alignment.split)

lemma item_top_drop: "i \<le> e \<Longrightarrow> item_top xs e = item_top xs i + sum_list (map item_height (take (e - i) (drop i xs)))"
  by (simp add: item_top_def) (metis le_add_diff_inverse map_append sum_list_append take_add)

section \<open>Properties\<close>

text \<open>C28: laying out the items of a list never panics and its loops end; each item stays in its place with its focus
  handle, and is unchanged or measured to the size of its element; and the measured items from the scroll
  position on fill the available height, paddings included, unless every item of the list is measured.\<close>

theorem list_layout:
  fixes st :: "('a::linordered_field, 'h) list_state"
  defines "xs \<equiv> flat (list_items st)"
  assumes t: "well_formed list_item_impl (list_items st)" "node_height (list_items st) < 16"
    and ix: "item_ix (current_scroll_top st) \<le> length xs"
    and nonneg: "0 \<le> overdraw st" "0 \<le> e_bottom padding"
  shows "\<exists>st' p j. layout_visible render focused H padding st = Some (st', p) \<and> well_formed list_item_impl (list_items st') \<and>
    (let ms = measured_items p; e = j + length ms; ys = flat (list_items st'); s = pass_scroll_top p in
     ys = take j xs @ ms @ drop e xs \<and> laid_out render xs j ms \<and> j \<le> item_ix s \<and> item_ix s \<le> e \<and>
     (H \<le> e_top padding + (item_top ys e - item_top ys (item_ix s) - offset_in_item s) + e_bottom padding \<or>
      item_ix s = 0 \<and> e = length xs))"
proof -
  let ?s = "current_scroll_top st"
  let ?i = "item_ix ?s"
  let ?p0 = "\<lparr>rendered_height = e_top padding, max_item_width = 0, pass_scroll_top = ?s, measured_items = [],
    item_layouts = [], rendered_focused_item = False, pass_state = st\<rparr>"
  have i: "min ?i (length (flat (list_items st))) = ?i" using ix by (simp add: xs_def)
  obtain c0 r0 where c0: "cursor_seek item_count_dimension (compare_ord ?i) Right (cursor_new item_count_dimension (list_items st)) = Some (c0, r0)"
    "cursor_at list_item_impl item_count_dimension (list_items st) ?i c0"
    using seek_count[OF t, of "cursor_new item_count_dimension (list_items st)" ?i] i by auto
  have inv0: "pass_inv render st (item_ix (pass_scroll_top ?p0)) (e_top padding) ?p0"
    using ix by (simp add: pass_inv_def laid_out_Nil xs_def)
  obtain p1 where p1: "layout_below render focused H c0 0 ?p0 = Some p1" "pass_inv render st ?i (e_top padding) p1"
    "item_ix (pass_scroll_top p1) = ?i"
    "H + overdraw st \<le> rendered_height p1 - offset_in_item (pass_scroll_top p1) \<or> ?i + length (measured_items p1) = length xs"
    using layout_below_spec[OF t, of ?p0 0 c0 render "e_top padding" focused H] c0(2) inv0 by (auto simp: xs_def)
  define p2 where "p2 = p1\<lparr>rendered_height := rendered_height p1 + e_bottom padding\<rparr>"
  let ?e = "e_top padding + e_bottom padding"
  have p2: "pass_inv render st ?i ?e p2" "item_ix (pass_scroll_top p2) = ?i"
    using p1(2,3) by (simp_all add: p2_def pass_inv_def)
  let ?fill = "if rendered_height p2 - offset_in_item (pass_scroll_top p2) < H then do {
          (c, p) \<leftarrow> fill_above render focused H c0 p2;
          Some (c, adjust_scroll_top H (cursor_start c) p) }
        else Some (c0, p2)"
  have "\<exists>c3 p3 k. ?fill = Some (c3, p3) \<and> walks_up (list_items st) k c3 \<and> pass_inv render st k ?e p3 \<and>
      item_ix (pass_scroll_top p3) = k \<and>
      (H \<le> rendered_height p3 - offset_in_item (pass_scroll_top p3) \<or> k = 0 \<and> length (measured_items p3) = length xs)"
  proof (cases "rendered_height p2 - offset_in_item (pass_scroll_top p2) < H")
    case True
    then have all: "?i + length (measured_items p2) = length xs" using p1(4) nonneg by (auto simp: p2_def)
    obtain c3 p3 k where r: "fill_above render focused H c0 p2 = Some (c3, p3)" "walks_up (list_items st) k c3"
      "pass_inv render st k ?e p3" "k + length (measured_items p3) = ?i + length (measured_items p2)" "H \<le> rendered_height p3 \<or> k = 0"
      using fill_above_spec[OF t, of ?i c0 render ?e p2 focused H] c0(2) p2(1) by (auto simp: walks_up_def)
    then show ?thesis
      using True all walks_up_start[OF r(2)] adjust_scroll_top_fills[of H p3 k]
      by (intro exI[of _ c3] exI[of _ "adjust_scroll_top H k p3"] exI[of _ k]) auto
  next
    case False
    then show ?thesis using c0(2) p2 by (intro exI[of _ c0] exI[of _ p2] exI[of _ ?i]) (simp add: walks_up_def)
  qed
  then obtain c3 p3 k where p3: "?fill = Some (c3, p3)" "walks_up (list_items st) k c3" "pass_inv render st k ?e p3"
      "item_ix (pass_scroll_top p3) = k"
      "H \<le> rendered_height p3 - offset_in_item (pass_scroll_top p3) \<or> k = 0 \<and> length (measured_items p3) = length xs" by blast
  obtain c4 ms j where m: "measure_leading render (overdraw (pass_state p3)) c3 (measured_items p3) (offset_in_item (pass_scroll_top p3)) = Some (c4, ms)"
    "walks_up (list_items st) j c4" "j \<le> k" "laid_out render xs j ms" "j + length ms = k + length (measured_items p3)"
    "drop (k - j) ms = measured_items p3"
    using measure_leading_spec[OF t p3(2)] p3(3) unfolding pass_inv_def xs_def by blast
  have le: "j + length ms \<le> length (flat (list_items st))" using m(4) by (simp add: laid_out_def xs_def)
  obtain t' where t': "replace_items j ms (list_items st) = Some t'" "well_formed list_item_impl t'"
    "flat t' = take j xs @ ms @ drop (j + length ms) xs"
    using replace_items_spec[OF t le] unfolding xs_def by blast
  have eq: "layout_visible render focused H padding st = Some ((pass_state p3)\<lparr>list_items := t'\<rparr>, p3\<lparr>measured_items := ms\<rparr>)"
  proof (cases "rendered_height p2 - offset_in_item (pass_scroll_top p2) < H")
    case True
    then obtain p where "fill_above render focused H c0 p2 = Some (c3, p)" "p3 = adjust_scroll_top H (cursor_start c3) p"
      using p3(1) by (auto simp: bind_eq_Some_conv)
    then show ?thesis
      using True c0(1) p1(1,3) m(1) t'(1) walks_up_start[OF m(2)] by (simp add: layout_visible_def p2_def)
  next
    case False
    then have "c3 = c0" "p3 = p2" using p3(1) by simp_all
    then show ?thesis
      using False c0(1) p1(1,3) m(1) t'(1) walks_up_start[OF m(2)] by (simp add: layout_visible_def p2_def)
  qed
  have "take (j + length ms - k) (drop k (flat t')) = measured_items p3"
  proof -
    let ?r = "drop (j + length ms) xs"
    have l: "length (take j xs) = j" "k - j \<le> length ms" using le m(3,5) by (simp_all add: xs_def)
    have "drop k (flat t') = drop (k - j) (ms @ ?r)"
      unfolding t'(3) drop_append[of k "take j xs"] l(1) using m(3) l(1) by simp
    also have "\<dots> = measured_items p3 @ ?r" using l(2) m(6) by (simp add: drop_append)
    finally show ?thesis using m(5) by simp
  qed
  then have "item_top (flat t') (j + length ms) = item_top (flat t') k + sum_list (map item_height (measured_items p3))"
    using item_top_drop[of k "j + length ms" "flat t'"] m(5) by simp
  then have "rendered_height p3 = ?e + (item_top (flat t') (j + length ms) - item_top (flat t') k)"
    using p3(3) by (simp add: pass_inv_def)
  then have fills: "H \<le> e_top padding + (item_top (flat t') (j + length ms) - item_top (flat t') k - offset_in_item (pass_scroll_top p3)) +
      e_bottom padding \<or> k = 0 \<and> j + length ms = length xs"
    using p3(5) m(3,5) by (auto simp: algebra_simps)
  show ?thesis
    using eq t'(2,3) m(3,4,5) p3(4) fills
    by (intro exI[of _ "(pass_state p3)\<lparr>list_items := t'\<rparr>"] exI[of _ "p3\<lparr>measured_items := ms\<rparr>"] exI[of _ j]) (simp add: Let_def)
qed

theorem list_layout_witness:
  "\<exists>st p. layout_visible (\<lambda>_. \<lparr>width = 100, height = 7\<rparr>) (\<lambda>_. False) 30 zero_edges eight_items = Some (st, p) \<and>
    length (flat (list_items st)) = 8"
proof -
  have "0 \<le> overdraw eight_items" "0 \<le> e_bottom (zero_edges :: real edges)"
    by (simp_all add: eight_items_def zero_edges_def edges_all_def)
  from list_layout[OF list_okD(1,2)[OF eight_ok] _ this, of "\<lambda>_. \<lparr>width = 100, height = 7\<rparr>" "\<lambda>_. False" 30]
  show ?thesis by (fastforce simp: Let_def laid_out_def)
qed

end
