(* ===== verification/Subscription.thy ===== *)
theory Subscription
  imports Prelude
begin

text \<open>
  Subscriptions: \<open>crates/lucie/src/subscription.rs\<close>.  A subscriber set keeps the callbacks of every emitter by
  the number they were given; a callback that runs may subscribe, activate and unsubscribe, also to the emitter
  that is calling it.

  The map of an emitter's subscribers is ordered by number: an association list.  The cell that makes a
  subscriber active is shared with the closure that \<open>insert\<close> returns: the set \<open>activated\<close> of numbers.  The set
  is behind a \<open>RefCell\<close> that all its owners share; \<open>retain\<close> runs callbacks over a world \<open>'w\<close> that holds it,
  read by \<open>get\<close> and written by \<open>put\<close>.  \<open>None\<close> is a panic.  Dropping a callback has no effect here.
\<close>

section \<open>The set\<close>

record ('k, 'c) subscriber_set =
  subscribers :: "'k \<Rightarrow> (nat \<times> 'c) list option option"
  dropped_subscribers :: "('k \<times> nat) set"
  next_subscriber_id :: nat
  activated :: "nat set"

definition subscriber_set_new :: "('k, 'c) subscriber_set" where
  "subscriber_set_new =
     \<lparr>subscribers = (\<lambda>_. None), dropped_subscribers = {}, next_subscriber_id = 0, activated = {}\<rparr>"

text \<open>\<open>BTreeMap::insert\<close>.\<close>

fun btree_insert :: "nat \<Rightarrow> 'c \<Rightarrow> (nat \<times> 'c) list \<Rightarrow> (nat \<times> 'c) list" where
  "btree_insert i c [] = [(i, c)]"
| "btree_insert i c ((j, d) # xs) =
     (if i < j then (i, c) # (j, d) # xs else if i = j then (i, c) # xs else (j, d) # btree_insert i c xs)"

definition btree_remove :: "nat \<Rightarrow> (nat \<times> 'c) list \<Rightarrow> (nat \<times> 'c) list" where
  "btree_remove i xs = filter (\<lambda>(j, _). j \<noteq> i) xs"

text \<open>The closure that unsubscribes.\<close>

definition unsubscribe :: "'k \<Rightarrow> nat \<Rightarrow> ('k, 'c) subscriber_set \<Rightarrow> ('k, 'c) subscriber_set" where
  "unsubscribe emitter_key subscriber_id s =
     (case subscribers s emitter_key of
        None \<Rightarrow> s
      | Some (Some m) \<Rightarrow>
          let m = btree_remove subscriber_id m in
          s\<lparr>subscribers := (subscribers s)(emitter_key := if m = [] then None else Some (Some m))\<rparr>
      | Some None \<Rightarrow> s\<lparr>dropped_subscribers := insert (emitter_key, subscriber_id) (dropped_subscribers s)\<rparr>)"

definition activate :: "nat \<Rightarrow> ('k, 'c) subscriber_set \<Rightarrow> ('k, 'c) subscriber_set" where
  "activate subscriber_id s = s\<lparr>activated := insert subscriber_id (activated s)\<rparr>"

text \<open>A subscription is the closure that runs when it is dropped, if it has not been detached.\<close>

type_synonym 'w subscription = "('w \<Rightarrow> 'w) option"

definition subscription_new :: "('w \<Rightarrow> 'w) \<Rightarrow> 'w subscription" where
  "subscription_new f = Some f"

definition subscription_detach :: "'w subscription \<Rightarrow> 'w subscription" where
  "subscription_detach _ = None"

definition subscription_drop :: "'w subscription \<Rightarrow> 'w \<Rightarrow> 'w" where
  "subscription_drop u w = (case u of None \<Rightarrow> w | Some f \<Rightarrow> f w)"

definition subscription_join :: "'w subscription \<Rightarrow> 'w subscription \<Rightarrow> 'w subscription" where
  "subscription_join a b = Some (\<lambda>w. subscription_drop b (subscription_drop a w))"

text \<open>\<open>SubscriberSet::insert\<close>: the subscription, the closure that activates it, and the set.\<close>

definition subscriber_insert ::
  "'k \<Rightarrow> 'c \<Rightarrow> ('k, 'c) subscriber_set \<Rightarrow>
     ('k, 'c) subscriber_set subscription \<times> (('k, 'c) subscriber_set \<Rightarrow> ('k, 'c) subscriber_set) \<times> ('k, 'c) subscriber_set" where
  "subscriber_insert emitter_key callback s =
     (let subscriber_id = next_subscriber_id s;
          m = (case subscribers s emitter_key of Some (Some m) \<Rightarrow> m | _ \<Rightarrow> []) in
      (subscription_new (unsubscribe emitter_key subscriber_id), activate subscriber_id,
       s\<lparr>next_subscriber_id := subscriber_id + 1,
         subscribers := (subscribers s)(emitter_key \<mapsto> Some (btree_insert subscriber_id callback m))\<rparr>))"

definition subscriber_remove :: "'k \<Rightarrow> ('k, 'c) subscriber_set \<Rightarrow> 'c list \<times> ('k, 'c) subscriber_set" where
  "subscriber_remove emitter s =
     ((case subscribers s emitter of
         Some (Some m) \<Rightarrow> map snd (filter (\<lambda>(i, _). i \<in> activated s) m)
       | _ \<Rightarrow> []),
      s\<lparr>subscribers := (subscribers s)(emitter := None)\<rparr>)"

text \<open>\<open>BTreeMap::retain\<close> with the closure of \<open>SubscriberSet::retain\<close>.\<close>

fun retain_loop ::
  "('w \<Rightarrow> ('k, 'c) subscriber_set) \<Rightarrow> ('c \<Rightarrow> 'w \<Rightarrow> ('c \<times> bool \<times> 'w) option) \<Rightarrow> (nat \<times> 'c) list \<Rightarrow> 'w \<Rightarrow>
     ((nat \<times> 'c) list \<times> 'w) option" where
  "retain_loop get f [] w = Some ([], w)"
| "retain_loop get f ((i, c) # xs) w =
     (if i \<in> activated (get w) then do {
        (c, keep, w) \<leftarrow> f c w;
        (ys, w) \<leftarrow> retain_loop get f xs w;
        Some (if keep then (i, c) # ys else ys, w) }
      else do {
        (ys, w) \<leftarrow> retain_loop get f xs w;
        Some ((i, c) # ys, w) })"

definition btree_extend :: "(nat \<times> 'c) list \<Rightarrow> (nat \<times> 'c) list \<Rightarrow> (nat \<times> 'c) list" where
  "btree_extend xs ys = fold (\<lambda>(i, c). btree_insert i c) ys xs"

text \<open>What \<open>retain\<close> does once the callbacks have run.\<close>

definition retain_finish :: "'k \<Rightarrow> (nat \<times> 'c) list \<Rightarrow> ('k, 'c) subscriber_set \<Rightarrow> ('k, 'c) subscriber_set option" where
  "retain_finish emitter m s =
     (let m = (case subscribers s emitter of Some (Some new) \<Rightarrow> btree_extend m new | _ \<Rightarrow> m);
          subs = (subscribers s)(emitter := None) in
      if \<exists>d \<in> dropped_subscribers s. fst d \<noteq> emitter then None
      else
        let m = filter (\<lambda>(i, _). (emitter, i) \<notin> dropped_subscribers s) m in
        Some (s\<lparr>dropped_subscribers := {},
                subscribers := (if m = [] then subs else subs(emitter \<mapsto> Some m))\<rparr>))"

definition subscriber_retain ::
  "('w \<Rightarrow> ('k, 'c) subscriber_set) \<Rightarrow> (('k, 'c) subscriber_set \<Rightarrow> 'w \<Rightarrow> 'w) \<Rightarrow> 'k \<Rightarrow>
     ('c \<Rightarrow> 'w \<Rightarrow> ('c \<times> bool \<times> 'w) option) \<Rightarrow> 'w \<Rightarrow> 'w option" where
  "subscriber_retain get put emitter f w =
     (case subscribers (get w) emitter of
        Some (Some m) \<Rightarrow> do {
          (m, w) \<leftarrow> retain_loop get f m (put ((get w)\<lparr>subscribers := (subscribers (get w))(emitter \<mapsto> None)\<rparr>) w);
          s \<leftarrow> retain_finish emitter m (get w);
          Some (put s w) }
      | _ \<Rightarrow> Some w)"

section \<open>The subscribers of an emitter\<close>

definition live :: "('k, 'c) subscriber_set \<Rightarrow> 'k \<Rightarrow> (nat \<times> 'c) list" where
  "live s k = (case subscribers s k of Some (Some m) \<Rightarrow> m | _ \<Rightarrow> [])"

text \<open>Every list is ordered by number, no number is used twice or ahead of the counter, no entry is empty.\<close>

definition ids :: "('k, 'c) subscriber_set \<Rightarrow> 'k \<Rightarrow> nat set" where
  "ids s k = fst ` set (live s k)"

definition subscribers_ok :: "('k, 'c) subscriber_set \<Rightarrow> bool" where
  "subscribers_ok s \<longleftrightarrow>
     (\<forall>k. sorted_wrt (<) (map fst (live s k)) \<and> (\<forall>i \<in> ids s k. i < next_subscriber_id s)) \<and>
     (\<forall>k l. k \<noteq> l \<longrightarrow> ids s k \<inter> ids s l = {}) \<and>
     (\<forall>k. subscribers s k \<noteq> Some (Some []))"

text \<open>No emitter is being called, and nothing waits to be dropped.\<close>

definition at_rest :: "('k, 'c) subscriber_set \<Rightarrow> bool" where
  "at_rest s \<longleftrightarrow> (\<forall>k. subscribers s k \<noteq> Some None) \<and> dropped_subscribers s = {}"

lemma btree_insert_last: "\<forall>j \<in> fst ` set xs. j < i \<Longrightarrow> btree_insert i c xs = xs @ [(i, c)]"
  by (induction i c xs rule: btree_insert.induct) simp_all

lemma live_fun_upd:
  "live (s\<lparr>subscribers := (subscribers s)(k := v)\<rparr>) l =
     (if l = k then case v of Some (Some m) \<Rightarrow> m | _ \<Rightarrow> [] else live s l)"
  by (simp add: live_def)

lemma live_other [simp]:
  "live (s\<lparr>dropped_subscribers := d\<rparr>) = live s" "live (s\<lparr>next_subscriber_id := n\<rparr>) = live s" "live (s\<lparr>activated := a\<rparr>) = live s"
  by (simp_all add: live_def fun_eq_iff)

lemma live_unsubscribe:
  "live (unsubscribe k i s) l = (if l = k then btree_remove i (live s k) else live s l)"
  by (simp add: unsubscribe_def live_def btree_remove_def Let_def split: option.split)

lemma live_insert:
  assumes "subscribers_ok s"
  shows "live (snd (snd (subscriber_insert k c s))) l =
    (if l = k then live s k @ [(next_subscriber_id s, c)] else live s l)"
proof -
  have "\<forall>j \<in> fst ` set (live s k). j < next_subscriber_id s" using assms unfolding subscribers_ok_def ids_def by blast
  note last = btree_insert_last[OF this, of c]
  show ?thesis
  proof (cases "subscribers s k")
    case None
    then show ?thesis using last by (simp add: subscriber_insert_def live_def Let_def)
  next
    case (Some m)
    then show ?thesis using last by (cases m) (simp_all add: subscriber_insert_def live_def Let_def)
  qed
qed

section \<open>What callbacks do\<close>

text \<open>A callback whose effect on the set is a list of operations.\<close>

datatype ('k, 'c) set_op = OpInsert 'k 'c | OpActivate nat | OpUnsubscribe 'k nat

fun apply_op :: "('k, 'c) set_op \<Rightarrow> ('k, 'c) subscriber_set \<Rightarrow> ('k, 'c) subscriber_set" where
  "apply_op (OpInsert k c) s = snd (snd (subscriber_insert k c s))"
| "apply_op (OpActivate i) s = activate i s"
| "apply_op (OpUnsubscribe k i) s = unsubscribe k i s"

text \<open>Operations that neither subscribe to the emitter that calls nor activate its subscribers.\<close>

definition leaves_alone :: "'k \<Rightarrow> nat set \<Rightarrow> ('k, 'c) set_op list \<Rightarrow> bool" where
  "leaves_alone k is ops \<longleftrightarrow> (\<forall>op \<in> set ops. case op of OpInsert l _ \<Rightarrow> l \<noteq> k | OpActivate i \<Rightarrow> i \<notin> is | OpUnsubscribe _ _ \<Rightarrow> True)"

lemma leaves_alone_simps [simp]:
  "leaves_alone k is []"
  "leaves_alone k is (op # ops) \<longleftrightarrow>
     (case op of OpInsert l _ \<Rightarrow> l \<noteq> k | OpActivate i \<Rightarrow> i \<notin> is | OpUnsubscribe _ _ \<Rightarrow> True) \<and> leaves_alone k is ops"
  "leaves_alone k is (ops @ ops') \<longleftrightarrow> leaves_alone k is ops \<and> leaves_alone k is ops'"
  by (auto simp: leaves_alone_def)

text \<open>The set while the emitter \<open>k\<close> is calling, next to the set \<open>t\<close> in which it is not.\<close>

definition calling :: "'k \<Rightarrow> nat set \<Rightarrow> ('k, 'c) subscriber_set \<Rightarrow> ('k, 'c) subscriber_set \<Rightarrow> bool" where
  "calling k gone s t \<longleftrightarrow>
     subscribers s k = Some None \<and> dropped_subscribers s = Pair k ` gone \<and>
     (\<forall>l. l \<noteq> k \<longrightarrow> subscribers s l = subscribers t l \<and> subscribers s l \<noteq> Some None) \<and>
     next_subscriber_id s = next_subscriber_id t \<and> activated s = activated t"

fun unsubscribed :: "'k \<Rightarrow> ('k, 'c) set_op list \<Rightarrow> nat set" where
  "unsubscribed k [] = {}"
| "unsubscribed k (OpUnsubscribe l i # ops) = (if l = k then insert i (unsubscribed k ops) else unsubscribed k ops)"
| "unsubscribed k (_ # ops) = unsubscribed k ops"

lemma unsubscribed_append [simp]: "unsubscribed k (ops @ ops') = unsubscribed k ops \<union> unsubscribed k ops'"
  by (induction k ops rule: unsubscribed.induct) auto

lemma calling_step:
  "calling k gone s t \<Longrightarrow> leaves_alone k is [op] \<Longrightarrow>
     calling k (gone \<union> unsubscribed k [op]) (apply_op op s) (apply_op op t)"
proof (induction op)
  case (OpUnsubscribe l i)
  show ?case
  proof (cases "l = k")
    case True
    then show ?thesis using OpUnsubscribe
      by (auto simp: calling_def unsubscribe_def Let_def split: option.split)
  next
    case False
    then have "subscribers s l = subscribers t l" "subscribers s l \<noteq> Some None"
      using OpUnsubscribe.prems(1) unfolding calling_def by metis+
    then show ?thesis using False OpUnsubscribe.prems
      by (auto simp: calling_def unsubscribe_def Let_def split: option.split)
  qed
qed (auto simp: calling_def activate_def subscriber_insert_def Let_def split: option.split)

lemma calling_steps:
  "calling k gone s t \<Longrightarrow> leaves_alone k is ops \<Longrightarrow>
     calling k (gone \<union> unsubscribed k ops) (fold apply_op ops s) (fold apply_op ops t)"
proof (induction ops arbitrary: gone s t)
  case (Cons op ops)
  have "calling k (gone \<union> unsubscribed k [op]) (apply_op op s) (apply_op op t)"
    using calling_step[OF Cons.prems(1), of "is" op] Cons.prems(2) by simp
  from Cons.IH[OF this] Cons.prems(2) have
    "calling k (gone \<union> unsubscribed k [op] \<union> unsubscribed k ops) (fold apply_op (op # ops) s) (fold apply_op (op # ops) t)" by simp
  moreover have "unsubscribed k [op] \<union> unsubscribed k ops = unsubscribed k (op # ops)" by (cases op) auto
  ultimately show ?case by (simp add: Un_assoc)
qed simp

lemma activated_steps: "leaves_alone k is ops \<Longrightarrow> i \<in> is \<Longrightarrow> i \<in> activated (fold apply_op ops s) \<longleftrightarrow> i \<in> activated s"
proof (induction ops arbitrary: s)
  case (Cons op ops)
  then show ?case
    by (cases op) (auto simp: activate_def subscriber_insert_def unsubscribe_def Let_def split: option.splits)
qed simp

lemma retain_loop_scripted:
  assumes "\<And>c s. f c s = Some (upd c, keep c, fold apply_op (script c) s)"
    "\<forall>c. leaves_alone k is (script c)" "fst ` set m \<subseteq> is"
  shows "retain_loop (\<lambda>s. s) f m s =
    Some (map (\<lambda>(i, c). (i, if i \<in> activated s then upd c else c)) (filter (\<lambda>(i, c). i \<in> activated s \<longrightarrow> keep c) m),
          fold apply_op (concat (map (script \<circ> snd) (filter (\<lambda>(i, _). i \<in> activated s) m))) s)"
  using assms(3)
proof (induction m arbitrary: s)
  case (Cons x m)
  obtain i c where x: "x = (i, c)" by (cases x)
  have same: "j \<in> activated (fold apply_op (script c) s) \<longleftrightarrow> j \<in> activated s" if "(j, d) \<in> set m" for j d
    using activated_steps[of k "is" "script c" j s] assms(2) Cons.prems that by (force simp: x)
  have eq: "filter (\<lambda>(i, c). i \<in> activated (fold apply_op (script c') s) \<longrightarrow> keep c) m = filter (\<lambda>(i, c). i \<in> activated s \<longrightarrow> keep c) m"
    "filter (\<lambda>(i, _). i \<in> activated (fold apply_op (script c') s)) m = filter (\<lambda>(i, _). i \<in> activated s) m"
    "map (\<lambda>(i, c). (i, if i \<in> activated (fold apply_op (script c') s) then upd c else c)) (filter (\<lambda>(i, c). i \<in> activated s \<longrightarrow> keep c) m) =
     map (\<lambda>(i, c). (i, if i \<in> activated s then upd c else c)) (filter (\<lambda>(i, c). i \<in> activated s \<longrightarrow> keep c) m)"
    if "c' = c" for c'
    using same unfolding that by (auto intro!: filter_cong)
  have "fst ` set m \<subseteq> is" using Cons.prems by simp
  note IH = Cons.IH[OF this]
  show ?case
  proof (cases "i \<in> activated s")
    case True
    then show ?thesis using eq[OF refl] by (simp add: x assms(1)[of c s] IH[of "fold apply_op (script c) s"] comp_def)
  next
    case False
    then show ?thesis by (simp add: x IH[of s])
  qed
qed simp


text \<open>Four subscribers of one emitter: the first unsubscribes the third, the second asks to be removed, the fourth
  is not active.\<close>

definition four_subscribers :: "(nat, nat) subscriber_set" where
  "four_subscribers = fold apply_op
     [OpInsert 0 0, OpInsert 0 1, OpInsert 0 2, OpInsert 0 3, OpActivate 0, OpActivate 1, OpActivate 2] subscriber_set_new"

lemma four_simps [simp]:
  "live four_subscribers 0 = [(0, 0), (1, 1), (2, 2), (3, 3)]" "activated four_subscribers = {0, 1, 2}"
  "at_rest four_subscribers"
  by (simp_all add: four_subscribers_def subscriber_set_new_def subscriber_insert_def activate_def live_def at_rest_def)
    auto


text \<open>A subscriber that is unsubscribed while the emitter calls is still called in the same round.\<close>

lemma called_after_unsubscribe:
  "map_option (\<lambda>(s, log). (live s 0, log))
     (subscriber_retain fst (\<lambda>s w. (s, snd w)) 0
        (\<lambda>c (s, log). Some (c, True, if c = 0 then unsubscribe 0 2 s else s, log @ [c])) (four_subscribers, [])) =
   Some ([(0, 0), (1, 1), (3, 3)], [0, 1, 2])"
  by (simp add: four_subscribers_def subscriber_set_new_def subscriber_insert_def activate_def live_def
      subscriber_retain_def retain_finish_def unsubscribe_def)

text \<open>If a callback subscribes to the emitter that is calling it before a subscription of that emitter is dropped,
  the drop is looked up among the new subscribers only: the old one stays.\<close>

lemma unsubscribe_lost_after_insert:
  "map_option (\<lambda>s. live s 0)
     (subscriber_retain (\<lambda>s. s) (\<lambda>s _. s) 0
        (\<lambda>c s. Some (c, True, if c = 0 then fold apply_op [OpInsert 0 7, OpUnsubscribe 0 2] s else s)) four_subscribers) =
   Some [(0, 0), (1, 1), (2, 2), (3, 3), (4, 7)]"
  by (simp add: four_subscribers_def subscriber_set_new_def subscriber_insert_def activate_def live_def
      subscriber_retain_def retain_finish_def unsubscribe_def btree_extend_def btree_remove_def)

text \<open>A round on another emitter inside the round takes the subscriptions that wait to be dropped for its own: its
  assertion fails.\<close>

lemma nested_retain_panics:
  "subscriber_retain (\<lambda>s. s) (\<lambda>s _. s) 0
     (\<lambda>c s. if c = 0 then
          map_option (\<lambda>s. (c, True, s))
            (subscriber_retain (\<lambda>s. s) (\<lambda>s _. s) 1 (\<lambda>c s. Some (c, True, s)) (unsubscribe 0 2 s))
        else Some (c, True, s))
     (fold apply_op [OpInsert 1 9] four_subscribers) = None"
  by (simp add: four_subscribers_def subscriber_set_new_def subscriber_insert_def activate_def live_def
      subscriber_retain_def retain_finish_def unsubscribe_def)

section \<open>The set as a whole\<close>

lemma subscribers_ok_new: "subscribers_ok subscriber_set_new"
  by (simp add: subscribers_ok_def subscriber_set_new_def ids_def live_def)

lemma subscribers_ok_op:
  assumes "subscribers_ok s"
  shows "subscribers_ok (apply_op op s)"
proof (cases op)
  case (OpInsert k c)
  let ?s = "snd (snd (subscriber_insert k c s))"
  have live: "live ?s l = (if l = k then live s k @ [(next_subscriber_id s, c)] else live s l)" for l
    by (rule live_insert[OF assms])
  have n: "next_subscriber_id ?s = Suc (next_subscriber_id s)" by (simp add: subscriber_insert_def Let_def)
  have ne: "subscribers ?s l \<noteq> Some (Some [])" for l
  proof (cases "l = k")
    case True
    then show ?thesis using live[of k] by (auto simp: live_def split: option.splits)
  next
    case False
    then show ?thesis using assms by (simp add: subscriber_insert_def subscribers_ok_def Let_def)
  qed
  have ids: "ids ?s l = (if l = k then insert (next_subscriber_id s) (ids s k) else ids s l)" for l
    unfolding ids_def live by simp
  have lt: "i < next_subscriber_id s" if "i \<in> ids s l" for i l
    using assms that unfolding subscribers_ok_def by blast
  have fresh: "next_subscriber_id s \<notin> ids s l" for l using lt by blast
  have sorted: "sorted_wrt (<) (map fst (live ?s l))" for l
    using assms lt[of _ k] unfolding live ids_def by (auto simp: subscribers_ok_def sorted_wrt_append)
  have lt': "i < Suc (next_subscriber_id s)" if "i \<in> ids ?s l" for i l
    using that lt[of i] unfolding ids by (auto simp: less_Suc_eq split: if_splits)
  have disj: "ids ?s l \<inter> ids ?s l' = {}" if "l \<noteq> l'" for l l'
    using assms that fresh unfolding ids subscribers_ok_def by auto
  show ?thesis
    unfolding OpInsert apply_op.simps subscribers_ok_def n using sorted lt' disj ne by blast
next
  case (OpUnsubscribe k i)
  have live: "live (unsubscribe k i s) l = (if l = k then btree_remove i (live s k) else live s l)" for l by (rule live_unsubscribe)
  have sub: "ids (unsubscribe k i s) l \<subseteq> ids s l" for l by (auto simp: ids_def live btree_remove_def)
  have n: "next_subscriber_id (unsubscribe k i s) = next_subscriber_id s"
    by (simp add: unsubscribe_def Let_def split: option.split)
  have sorted: "sorted_wrt (<) (map fst (live (unsubscribe k i s) l))" for l
    using assms by (auto simp: live subscribers_ok_def btree_remove_def sorted_wrt_map intro: sorted_wrt_filter)
  have ne: "subscribers (unsubscribe k i s) l \<noteq> Some (Some [])" for l
    using assms by (auto simp: unsubscribe_def subscribers_ok_def Let_def split: option.split)
  show ?thesis
    unfolding OpUnsubscribe apply_op.simps subscribers_ok_def n
    using assms sub sorted ne unfolding subscribers_ok_def by blast
qed (use assms in \<open>simp_all add: subscribers_ok_def activate_def ids_def live_def\<close>)

end
