(* ===== verification/PriorityQueue.thy ===== *)
theory PriorityQueue
  imports Complex_Main Prelude
begin

text \<open>
  The queue of runnable tasks with two priorities: \<open>crates/lucie/src/queue.rs\<close>, and the weights of
  \<open>crates/lucie/src/runtime.rs\<close>.  A receiver draws the priority to serve by chance.

  The random generator is that of the \<open>fastrand\<close> crate: \<open>next_f32\<close> is its next value, between 0 and 1, 1
  excluded, and its next state.  The weights and their quotients are real numbers, for \<open>f32\<close>.  A receiver that
  waits for the condition variable sees the events of the other threads, \<open>env\<close>, one by one; \<open>PopBlocked\<close> is a
  receiver that still waits when they are over.
\<close>

datatype task_priority = Normal | Low

fun probability :: "task_priority \<Rightarrow> nat" where
  "probability Normal = 70"
| "probability Low = 30"

record 'a priority_queues =
  normal_priority :: "'a list"
  low_priority :: "'a list"

definition queues_empty :: "('a, 'z) priority_queues_scheme \<Rightarrow> bool" where
  "queues_empty q \<longleftrightarrow> normal_priority q = [] \<and> low_priority q = []"

record 'a priority_queue_state = "'a priority_queues" +
  receiver_count :: nat
  sender_count :: nat

definition priority_queue_new :: "'a priority_queue_state" where
  "priority_queue_new = \<lparr>normal_priority = [], low_priority = [], receiver_count = 1, sender_count = 1\<rparr>"

text \<open>\<open>send\<close>: the item comes back in the error.\<close>

definition priority_send :: "task_priority \<Rightarrow> 'a \<Rightarrow> 'a priority_queue_state \<Rightarrow> 'a + 'a priority_queue_state" where
  "priority_send priority x q =
     (if receiver_count q = 0 then Inl x
      else Inr (case priority of
                  Normal \<Rightarrow> q\<lparr>normal_priority := normal_priority q @ [x]\<rparr>
                | Low \<Rightarrow> q\<lparr>low_priority := low_priority q @ [x]\<rparr>))"

definition drop_sender :: "'a priority_queue_state \<Rightarrow> 'a priority_queue_state" where
  "drop_sender q = q\<lparr>sender_count := sender_count q - 1\<rparr>"

definition clone_receiver :: "'a priority_queue_state \<Rightarrow> 'a priority_queue_state" where
  "clone_receiver q = q\<lparr>receiver_count := receiver_count q + 1\<rparr>"

definition drop_receiver :: "'a priority_queue_state \<Rightarrow> 'a priority_queue_state" where
  "drop_receiver q = q\<lparr>receiver_count := receiver_count q - 1\<rparr>"

text \<open>What other threads do while a receiver waits.\<close>

datatype 'a queue_event = Send task_priority 'a | DropSender

fun queue_step :: "'a queue_event \<Rightarrow> 'a priority_queue_state \<Rightarrow> 'a priority_queue_state" where
  "queue_step (Send p x) q = (case priority_send p x q of Inl _ \<Rightarrow> q | Inr q \<Rightarrow> q)"
| "queue_step DropSender q = drop_sender q"

datatype 'q recv_result = Ready 'q | RecvError | RecvBlocked 'q

text \<open>The loop on the condition variable: only a send notifies it.\<close>

fun recv_wait :: "'a queue_event list \<Rightarrow> 'a priority_queue_state \<Rightarrow> 'a priority_queue_state recv_result" where
  "recv_wait env q =
     (if queues_empty q then
        (case env of
           [] \<Rightarrow> RecvBlocked q
         | e # env \<Rightarrow> recv_wait env (queue_step e q))
      else Ready q)"

definition recv :: "'a queue_event list \<Rightarrow> 'a priority_queue_state \<Rightarrow> 'a priority_queue_state recv_result" where
  "recv env q = (if queues_empty q \<and> sender_count q = 0 then RecvError else recv_wait env q)"

text \<open>\<open>try_recv\<close>: \<open>None\<close> is the error.\<close>

definition try_recv :: "'a priority_queue_state \<Rightarrow> 'a priority_queue_state option option" where
  "try_recv q =
     (if queues_empty q \<and> sender_count q = 0 then None
      else if queues_empty q then Some None else Some (Some q))"

datatype ('a, 'q) pop_result = Popped "'a option" 'q | PopError | PopBlocked 'q

text \<open>The draw of \<open>pop_inner\<close>, once the queues are locked.\<close>

definition pop_draw ::
  "('r \<Rightarrow> real \<times> 'r) \<Rightarrow> 'a priority_queue_state \<Rightarrow> 'r \<Rightarrow> ('a option \<times> 'a priority_queue_state) \<times> 'r" where
  "pop_draw next_f32 q rand =
     (let high = (if normal_priority q = [] then 0 else probability Normal);
          low = (if low_priority q = [] then 0 else probability Low);
          mass = high + low;
          (flip, rand, mass) =
            (if normal_priority q \<noteq> [] then
               (let (u, rand) = next_f32 rand
                in (u < real (probability Normal) / real mass, rand, mass - probability Normal))
             else (False, rand, mass)) in
      if flip then ((Some (hd (normal_priority q)), q\<lparr>normal_priority := tl (normal_priority q)\<rparr>), rand)
      else if low_priority q \<noteq> [] then
        (let (u, rand) = next_f32 rand in
         if u < real (probability Low) / real mass
         then ((Some (hd (low_priority q)), q\<lparr>low_priority := tl (low_priority q)\<rparr>), rand)
         else ((None, q), rand))
      else ((None, q), rand))"

definition pop_inner ::
  "('r \<Rightarrow> real \<times> 'r) \<Rightarrow> 'a queue_event list \<Rightarrow> bool \<Rightarrow> 'a priority_queue_state \<Rightarrow> 'r \<Rightarrow>
     ('a, 'a priority_queue_state) pop_result \<times> 'r" where
  "pop_inner next_f32 env block q rand =
     (if \<not> block then
        (case try_recv q of
           None \<Rightarrow> (PopError, rand)
         | Some None \<Rightarrow> (Popped None q, rand)
         | Some (Some q) \<Rightarrow> (let ((x, q), rand) = pop_draw next_f32 q rand in (Popped x q, rand)))
      else
        (case recv env q of
           RecvError \<Rightarrow> (PopError, rand)
         | RecvBlocked q \<Rightarrow> (PopBlocked q, rand)
         | Ready q \<Rightarrow> (let ((x, q), rand) = pop_draw next_f32 q rand in (Popped x q, rand))))"

text \<open>\<open>pop\<close> unwraps the item: a panic (\<open>None\<close>) if there is none.\<close>

definition priority_pop ::
  "('r \<Rightarrow> real \<times> 'r) \<Rightarrow> 'a queue_event list \<Rightarrow> 'a priority_queue_state \<Rightarrow> 'r \<Rightarrow>
     (('a, 'a priority_queue_state) pop_result \<times> 'r) option" where
  "priority_pop next_f32 env q rand =
     (case pop_inner next_f32 env True q rand of
        (Popped None q, _) \<Rightarrow> None
      | r \<Rightarrow> Some r)"

definition try_pop ::
  "('r \<Rightarrow> real \<times> 'r) \<Rightarrow> 'a priority_queue_state \<Rightarrow> 'r \<Rightarrow> ('a, 'a priority_queue_state) pop_result \<times> 'r" where
  "try_pop next_f32 q rand = pop_inner next_f32 [] False q rand"

text \<open>\<open>TryIter::next\<close>: the items up to the first gap or error, each as a result; the flag is \<open>ended\<close>.\<close>

definition try_iter_next ::
  "('r \<Rightarrow> real \<times> 'r) \<Rightarrow> bool \<Rightarrow> 'a priority_queue_state \<Rightarrow> 'r \<Rightarrow>
     ('a option option \<times> bool \<times> 'a priority_queue_state) \<times> 'r" where
  "try_iter_next next_f32 ended q rand =
     (if ended then ((None, ended, q), rand)
      else (case try_pop next_f32 q rand of
              (Popped None q, rand) \<Rightarrow> ((None, False, q), rand)
            | (Popped (Some x) q, rand) \<Rightarrow> ((Some (Some x), False, q), rand)
            | (PopError, rand) \<Rightarrow> ((Some None, True, q), rand)
            | (PopBlocked q, rand) \<Rightarrow> ((None, False, q), rand)))"

section \<open>What a pop does\<close>

definition unit_random :: "('r \<Rightarrow> real \<times> 'r) \<Rightarrow> bool" where
  "unit_random next_f32 \<longleftrightarrow> (\<forall>r. 0 \<le> fst (next_f32 r) \<and> fst (next_f32 r) < 1)"

text \<open>The queues with one item less: the first of one of them.\<close>

definition takes_first :: "'a priority_queue_state \<Rightarrow> 'a \<Rightarrow> 'a priority_queue_state \<Rightarrow> bool" where
  "takes_first q x q' \<longleftrightarrow>
     (\<exists>xs. normal_priority q = x # xs \<and> q' = q\<lparr>normal_priority := xs\<rparr>) \<or>
     (\<exists>xs. low_priority q = x # xs \<and> q' = q\<lparr>low_priority := xs\<rparr>)"

lemma pop_draw_takes:
  assumes "unit_random next_f32" "\<not> queues_empty q"
  shows "\<exists>x q' r. pop_draw next_f32 q rand = ((Some x, q'), r) \<and> takes_first q x q'"
proof -
  have u: "fst (next_f32 r) < 1" for r using assms(1) by (simp add: unit_random_def)
  obtain u1 r1 where r1: "next_f32 rand = (u1, r1)" by fastforce
  obtain u2 r2 where r2: "next_f32 r1 = (u2, r2)" by fastforce
  have lt: "u1 < 1" "u2 < 1" using u[of rand] u[of r1] r1 r2 by simp_all
  show ?thesis
    using assms(2) lt r1 r2
    by (cases "normal_priority q"; cases "low_priority q")
      (auto simp: pop_draw_def queues_empty_def takes_first_def)
qed

lemma recv_wait_ready: "recv_wait env q = Ready q' \<Longrightarrow> \<not> queues_empty q'"
  by (induction env arbitrary: q) (auto split: if_splits)

lemma recv_wait_blocked: "recv_wait env q \<noteq> RecvError"
  by (induction env arbitrary: q) auto

text \<open>A pop never panics: with a generator whose values are below 1, the draw on queues that are not both
  empty takes the first item of one of them and leaves the rest, so that the tasks of each priority run in
  the order in which they were sent.\<close>

theorem priority_pop_takes:
  assumes "unit_random next_f32"
  shows "(\<not> queues_empty q \<longrightarrow> (\<exists>x q' r. try_pop next_f32 q rand = (Popped (Some x) q', r) \<and> takes_first q x q' \<and>
      priority_pop next_f32 env q rand = Some (Popped (Some x) q', r))) \<and>
    priority_pop next_f32 env q rand \<noteq> None \<and>
    (queues_empty q \<and> sender_count q = 0 \<longrightarrow> try_pop next_f32 q rand = (PopError, rand) \<and>
      priority_pop next_f32 env q rand = Some (PopError, rand)) \<and>
    (queues_empty q \<and> sender_count q \<noteq> 0 \<longrightarrow> try_pop next_f32 q rand = (Popped None q, rand))"
proof -
  have ready: "\<exists>x q' r. priority_pop next_f32 env q rand = Some (Popped (Some x) q', r)" if "recv env q = Ready q2" for q2
  proof -
    have "\<not> queues_empty q2" using that recv_wait_ready by (auto simp: recv_def simp del: recv_wait.simps split: if_splits)
    from pop_draw_takes[OF assms this, of rand] that show ?thesis
      by (auto simp: priority_pop_def pop_inner_def)
  qed
  have "priority_pop next_f32 env q rand \<noteq> None"
    using ready by (cases "recv env q") (auto simp: priority_pop_def pop_inner_def)
  moreover have "\<exists>x q' r. try_pop next_f32 q rand = (Popped (Some x) q', r) \<and> takes_first q x q' \<and>
      priority_pop next_f32 env q rand = Some (Popped (Some x) q', r)" if ne: "\<not> queues_empty q"
  proof -
    have "recv env q = Ready q" using ne by (cases env) (simp_all add: recv_def)
    then show ?thesis using pop_draw_takes[OF assms ne, of rand] ne
      by (auto simp: priority_pop_def try_pop_def pop_inner_def try_recv_def)
  qed
  ultimately show ?thesis
    by (simp add: priority_pop_def try_pop_def pop_inner_def try_recv_def recv_def del: recv_wait.simps)
qed

theorem priority_pop_takes_witness:
  "\<exists>x q' r. try_pop (\<lambda>r :: nat. (1 / 2, Suc r)) (priority_queue_new\<lparr>low_priority := [7, 8 :: nat]\<rparr>) 0 = (Popped (Some x) q', r) \<and>
    takes_first (priority_queue_new\<lparr>low_priority := [7, 8]\<rparr>) x q'"
proof -
  have "unit_random (\<lambda>r :: nat. (1 / 2 :: real, Suc r))" by (simp add: unit_random_def)
  from priority_pop_takes[OF this, of "priority_queue_new\<lparr>low_priority := [7, 8 :: nat]\<rparr>" 0 "[]"]
  show ?thesis by (auto simp: queues_empty_def)
qed

text \<open>A receiver that waits is not told that the last sender is gone: it waits for ever.\<close>

lemma recv_waits_for_ever:
  "queues_empty q \<Longrightarrow> sender_count q \<noteq> 0 \<Longrightarrow> recv (replicate n DropSender) q = RecvBlocked (q\<lparr>sender_count := sender_count q - n\<rparr>)"
proof -
  have "queues_empty q \<Longrightarrow> recv_wait (replicate n DropSender) q = RecvBlocked (q\<lparr>sender_count := sender_count q - n\<rparr>)"
    by (induction n arbitrary: q) (simp_all add: queues_empty_def drop_sender_def)
  then show "queues_empty q \<Longrightarrow> sender_count q \<noteq> 0 \<Longrightarrow> ?thesis" by (simp add: recv_def)
qed

end
