(* ===== verification/EntityMap.thy ===== *)
theory EntityMap
  imports Prelude
begin

text \<open>
  The map of the entities of an application and their reference counts:
  \<open>crates/lucie/src/app/entity_map.rs\<close>.  Strong handles are counted; when the last one goes the entity is put on
  a list, and \<open>take_dropped\<close> releases it; an entity that is being updated is moved out of the map and back.

  The counts are a slot map of the \<open>slotmap\<close> crate: \<open>alloc n\<close> is the key that its \<open>n\<close>-th insertion returns, and
  keys are never given twice (\<open>inj alloc\<close>).  A handle is the key of its entity.  \<open>None\<close> is a panic.  The methods
  that read a weak or strong handle take the lock of the counts for their whole body, so they are atomic here.
\<close>

section \<open>The map\<close>

record ('id, 'v) entity_map =
  entities :: "'id \<Rightarrow> 'v option"
  accessed_entities :: "'id set"
  counts :: "'id \<Rightarrow> nat option"
  dropped_entity_ids :: "'id list"
  slots_given :: nat

definition entity_map_new :: "('id, 'v) entity_map" where
  "entity_map_new =
     \<lparr>entities = (\<lambda>_. None), accessed_entities = {}, counts = (\<lambda>_. None), dropped_entity_ids = [], slots_given = 0\<rparr>"

definition em_reserve :: "(nat \<Rightarrow> 'id) \<Rightarrow> ('id, 'v) entity_map \<Rightarrow> 'id \<times> ('id, 'v) entity_map" where
  "em_reserve alloc m =
     (let i = alloc (slots_given m) in
      (i, m\<lparr>counts := (counts m)(i \<mapsto> 1), slots_given := Suc (slots_given m)\<rparr>))"

definition em_insert :: "'id \<Rightarrow> 'v \<Rightarrow> ('id, 'v) entity_map \<Rightarrow> ('id, 'v) entity_map" where
  "em_insert slot v m =
     m\<lparr>accessed_entities := insert slot (accessed_entities m), entities := (entities m)(slot \<mapsto> v)\<rparr>"

text \<open>\<open>lease\<close> panics when the entity is not in the map: it is being updated.\<close>

definition em_lease :: "'id \<Rightarrow> ('id, 'v) entity_map \<Rightarrow> ('v \<times> ('id, 'v) entity_map) option" where
  "em_lease i m =
     (let m = m\<lparr>accessed_entities := insert i (accessed_entities m)\<rparr> in
      case entities m i of
        None \<Rightarrow> None
      | Some v \<Rightarrow> Some (v, m\<lparr>entities := (entities m)(i := None)\<rparr>))"

definition em_end_lease :: "'id \<Rightarrow> 'v \<Rightarrow> ('id, 'v) entity_map \<Rightarrow> ('id, 'v) entity_map" where
  "em_end_lease i v m = m\<lparr>entities := (entities m)(i \<mapsto> v)\<rparr>"

definition em_read :: "'id \<Rightarrow> ('id, 'v) entity_map \<Rightarrow> ('v \<times> ('id, 'v) entity_map) option" where
  "em_read i m =
     (let m = m\<lparr>accessed_entities := insert i (accessed_entities m)\<rparr>
      in map_option (\<lambda>v. (v, m)) (entities m i))"

definition em_extend_accessed :: "'id set \<Rightarrow> ('id, 'v) entity_map \<Rightarrow> ('id, 'v) entity_map" where
  "em_extend_accessed is m = m\<lparr>accessed_entities := accessed_entities m \<union> is\<rparr>"

definition em_clear_accessed :: "('id, 'v) entity_map \<Rightarrow> ('id, 'v) entity_map" where
  "em_clear_accessed m = m\<lparr>accessed_entities := {}\<rparr>"

fun take_dropped_loop ::
  "'id list \<Rightarrow> ('id, 'v) entity_map \<Rightarrow> (('id \<times> 'v) list \<times> ('id, 'v) entity_map) option" where
  "take_dropped_loop [] m = Some ([], m)"
| "take_dropped_loop (i # is) m =
     (case counts m i of
        Some 0 \<Rightarrow> do {
          let e = entities m i;
          let m = m\<lparr>counts := (counts m)(i := None), accessed_entities := accessed_entities m - {i},
                    entities := (entities m)(i := None)\<rparr>;
          (xs, m) \<leftarrow> take_dropped_loop is m;
          Some (case e of None \<Rightarrow> xs | Some v \<Rightarrow> (i, v) # xs, m) }
      | _ \<Rightarrow> None)"

definition em_take_dropped :: "('id, 'v) entity_map \<Rightarrow> (('id \<times> 'v) list \<times> ('id, 'v) entity_map) option" where
  "em_take_dropped m = take_dropped_loop (dropped_entity_ids m) (m\<lparr>dropped_entity_ids := []\<rparr>)"

section \<open>Handles\<close>

definition handle_clone :: "'id \<Rightarrow> ('id, 'v) entity_map \<Rightarrow> ('id, 'v) entity_map option" where
  "handle_clone i m =
     (case counts m i of
        None \<Rightarrow> None
      | Some n \<Rightarrow> if n = 0 then None else Some (m\<lparr>counts := (counts m)(i \<mapsto> n + 1)\<rparr>))"

definition handle_drop :: "'id \<Rightarrow> ('id, 'v) entity_map \<Rightarrow> ('id, 'v) entity_map option" where
  "handle_drop i m =
     (case counts m i of
        None \<Rightarrow> None
      | Some n \<Rightarrow>
          if n = 0 then None
          else
            let m = m\<lparr>counts := (counts m)(i \<mapsto> n - 1)\<rparr> in
            Some (if n = 1 then m\<lparr>dropped_entity_ids := dropped_entity_ids m @ [i]\<rparr> else m))"

definition is_upgradable :: "'id \<Rightarrow> ('id, 'v) entity_map \<Rightarrow> bool" where
  "is_upgradable i m = ((case counts m i of None \<Rightarrow> 0 | Some n \<Rightarrow> n) > 0)"

text \<open>\<open>AnyWeakEntity::upgrade\<close>: a strong handle, or nothing.\<close>

definition weak_upgrade :: "'id \<Rightarrow> ('id, 'v) entity_map \<Rightarrow> 'id option \<times> ('id, 'v) entity_map" where
  "weak_upgrade i m =
     (case counts m i of
        None \<Rightarrow> (None, m)
      | Some n \<Rightarrow> if n = 0 then (None, m) else (Some i, m\<lparr>counts := (counts m)(i \<mapsto> n + 1)\<rparr>))"

section \<open>The use of a map\<close>

text \<open>A program that uses the map: how many strong handles to every entity it holds, which slots it has reserved
  and not filled, and which entities it has leased.\<close>

record ('id, 'v) entity_use =
  the_map :: "('id, 'v) entity_map"
  held :: "'id \<Rightarrow> nat"
  open_slots :: "'id set"
  leased :: "'id set"

datatype ('id, 'v) entity_action =
    Reserve | Insert 'id 'v | CloneHandle 'id | DropHandle 'id | Upgrade 'id
  | DropSlot 'id | BeginLease 'id | EndLease 'id 'v | Read 'id | TakeDropped

text \<open>Rust's ownership lets a program clone and drop only handles it holds, fill only a slot it has reserved and
  end only a lease it has; a handle is held for as long as its entity is leased (\<open>update_entity\<close> borrows it).
  A slot may be dropped unfilled, as long as nothing has upgraded a weak handle to it.\<close>

fun allowed :: "('id, 'v) entity_use \<Rightarrow> ('id, 'v) entity_action \<Rightarrow> bool" where
  "allowed u Reserve = True"
| "allowed u (Insert i v) = (i \<in> open_slots u)"
| "allowed u (CloneHandle i) = (0 < held u i)"
| "allowed u (DropHandle i) = (0 < held u i \<and> (i \<in> leased u \<or> i \<in> open_slots u \<longrightarrow> 1 < held u i))"
| "allowed u (Upgrade i) = True"
| "allowed u (DropSlot i) = (i \<in> open_slots u \<and> held u i = 1)"
| "allowed u (BeginLease i) = (0 < held u i \<and> i \<notin> open_slots u \<and> i \<notin> leased u)"
| "allowed u (EndLease i v) = (i \<in> leased u)"
| "allowed u (Read i) = (0 < held u i \<and> i \<notin> open_slots u \<and> i \<notin> leased u)"
| "allowed u TakeDropped = True"

fun entity_act :: "(nat \<Rightarrow> 'id) \<Rightarrow> ('id, 'v) entity_action \<Rightarrow> ('id, 'v) entity_use \<Rightarrow> ('id, 'v) entity_use option" where
  "entity_act alloc Reserve u =
     (let (i, m) = em_reserve alloc (the_map u) in
      Some (u\<lparr>the_map := m, held := (held u)(i := held u i + 1), open_slots := insert i (open_slots u)\<rparr>))"
| "entity_act alloc (Insert i v) u =
     Some (u\<lparr>the_map := em_insert i v (the_map u), open_slots := open_slots u - {i}\<rparr>)"
| "entity_act alloc (CloneHandle i) u =
     map_option (\<lambda>m. u\<lparr>the_map := m, held := (held u)(i := held u i + 1)\<rparr>) (handle_clone i (the_map u))"
| "entity_act alloc (DropHandle i) u =
     map_option (\<lambda>m. u\<lparr>the_map := m, held := (held u)(i := held u i - 1)\<rparr>) (handle_drop i (the_map u))"
| "entity_act alloc (Upgrade i) u =
     (case weak_upgrade i (the_map u) of
        (None, m) \<Rightarrow> Some (u\<lparr>the_map := m\<rparr>)
      | (Some i, m) \<Rightarrow> Some (u\<lparr>the_map := m, held := (held u)(i := held u i + 1)\<rparr>))"
| "entity_act alloc (DropSlot i) u =
     map_option (\<lambda>m. u\<lparr>the_map := m, held := (held u)(i := held u i - 1), open_slots := open_slots u - {i}\<rparr>)
       (handle_drop i (the_map u))"
| "entity_act alloc (BeginLease i) u =
     map_option (\<lambda>(v, m). u\<lparr>the_map := m, leased := insert i (leased u)\<rparr>) (em_lease i (the_map u))"
| "entity_act alloc (EndLease i v) u =
     Some (u\<lparr>the_map := em_end_lease i v (the_map u), leased := leased u - {i}\<rparr>)"
| "entity_act alloc (Read i) u = map_option (\<lambda>(v, m). u\<lparr>the_map := m\<rparr>) (em_read i (the_map u))"
| "entity_act alloc TakeDropped u = map_option (\<lambda>(xs, m). u\<lparr>the_map := m\<rparr>) (em_take_dropped (the_map u))"

definition entity_start :: "('id, 'v) entity_use" where
  "entity_start = \<lparr>the_map = entity_map_new, held = (\<lambda>_. 0), open_slots = {}, leased = {}\<rparr>"

inductive entity_reachable :: "(nat \<Rightarrow> 'id) \<Rightarrow> ('id, 'v) entity_use \<Rightarrow> bool" for alloc where
  start: "entity_reachable alloc entity_start"
| act: "entity_reachable alloc u \<Longrightarrow> allowed u a \<Longrightarrow> entity_act alloc a u = Some u' \<Longrightarrow> entity_reachable alloc u'"

section \<open>The invariant\<close>

text \<open>What holds of one key, and of the map.\<close>

definition key_inv :: "(nat \<Rightarrow> 'id) \<Rightarrow> ('id, 'v) entity_use \<Rightarrow> 'id \<Rightarrow> bool" where
  "key_inv alloc u i \<longleftrightarrow>
     (let m = the_map u; dropped = (i \<in> set (dropped_entity_ids m)); open = (i \<in> open_slots u); lent = (i \<in> leased u) in
      counts m i = (if 0 < held u i \<or> dropped then Some (held u i) else None) \<and>
      (dropped \<longrightarrow> held u i = 0) \<and>
      (0 < held u i \<or> dropped \<longrightarrow> i \<in> alloc ` {..<slots_given m}) \<and>
      (entities m i \<noteq> None \<longrightarrow> (0 < held u i \<or> dropped) \<and> \<not> open \<and> \<not> lent) \<and>
      (0 < held u i \<longrightarrow> entities m i \<noteq> None \<or> open \<or> lent) \<and>
      (open \<or> lent \<longrightarrow> 0 < held u i) \<and> \<not> (open \<and> lent))"

definition entity_inv :: "(nat \<Rightarrow> 'id) \<Rightarrow> ('id, 'v) entity_use \<Rightarrow> bool" where
  "entity_inv alloc u \<longleftrightarrow> distinct (dropped_entity_ids (the_map u)) \<and> (\<forall>i. key_inv alloc u i)"

lemma entity_invI:
  "distinct (dropped_entity_ids (the_map u)) \<Longrightarrow> (\<And>i. key_inv alloc u i) \<Longrightarrow> entity_inv alloc u"
  by (simp add: entity_inv_def)

lemma entity_invD:
  "entity_inv alloc u \<Longrightarrow> distinct (dropped_entity_ids (the_map u))" "entity_inv alloc u \<Longrightarrow> key_inv alloc u i"
  by (simp_all add: entity_inv_def)

lemmas key_inv_def' = key_inv_def[unfolded Let_def]

lemma entity_inv_start: "entity_inv alloc entity_start"
  by (rule entity_invI) (simp_all add: key_inv_def entity_start_def entity_map_new_def)

lemma take_dropped_loop_spec:
  "distinct is \<Longrightarrow> \<forall>i \<in> set is. counts m i = Some 0 \<Longrightarrow>
     take_dropped_loop is m =
       Some (List.map_filter (\<lambda>i. map_option (Pair i) (entities m i)) is,
             m\<lparr>counts := (\<lambda>i. if i \<in> set is then None else counts m i), accessed_entities := accessed_entities m - set is,
               entities := (\<lambda>i. if i \<in> set is then None else entities m i)\<rparr>)"
proof (induction "is" arbitrary: m)
  case (Cons i "is")
  let ?m = "m\<lparr>counts := (counts m)(i := None), accessed_entities := accessed_entities m - {i}, entities := (entities m)(i := None)\<rparr>"
  have "\<forall>j \<in> set is. counts ?m j = Some 0" using Cons.prems by auto
  from Cons.IH[OF _ this] Cons.prems(1) have "take_dropped_loop is ?m =
       Some (List.map_filter (\<lambda>j. map_option (Pair j) (entities ?m j)) is,
             ?m\<lparr>counts := (\<lambda>j. if j \<in> set is then None else counts ?m j), accessed_entities := accessed_entities ?m - set is,
               entities := (\<lambda>j. if j \<in> set is then None else entities ?m j)\<rparr>)" by simp
  moreover have "List.map_filter (\<lambda>j. map_option (Pair j) (entities ?m j)) is = List.map_filter (\<lambda>j. map_option (Pair j) (entities m j)) is"
    by (rule map_filter_cong) (use Cons.prems(1) in auto)
  moreover have "?m\<lparr>counts := (\<lambda>j. if j \<in> set is then None else counts ?m j), accessed_entities := accessed_entities ?m - set is,
               entities := (\<lambda>j. if j \<in> set is then None else entities ?m j)\<rparr> =
     m\<lparr>counts := (\<lambda>j. if j \<in> set (i # is) then None else counts m j), accessed_entities := accessed_entities m - set (i # is),
               entities := (\<lambda>j. if j \<in> set (i # is) then None else entities m j)\<rparr>"
  proof -
    have "(\<lambda>j. if j \<in> set is then None else counts ?m j) = (\<lambda>j. if j \<in> set (i # is) then None else counts m j)"
      "(\<lambda>j. if j \<in> set is then None else entities ?m j) = (\<lambda>j. if j \<in> set (i # is) then None else entities m j)"
      "accessed_entities ?m - set is = accessed_entities m - set (i # is)"
      by auto
    then show ?thesis by simp
  qed
  ultimately show ?case
    using Cons.prems(2) by (simp add: List.map_filter_simps split: option.split)
qed (simp add: List.map_filter_simps)

lemma take_dropped_spec:
  assumes "entity_inv alloc u"
  defines "m \<equiv> the_map u" and "is \<equiv> dropped_entity_ids (the_map u)"
  shows "em_take_dropped m = Some (List.map_filter (\<lambda>i. map_option (Pair i) (entities m i)) is,
     m\<lparr>dropped_entity_ids := [], counts := (\<lambda>i. if i \<in> set is then None else counts m i),
       accessed_entities := accessed_entities m - set is, entities := (\<lambda>i. if i \<in> set is then None else entities m i)\<rparr>)"
proof -
  have "\<forall>i \<in> set is. counts m i = Some 0" "distinct is"
    using entity_invD[OF assms(1)] by (auto simp: m_def is_def key_inv_def Let_def)
  then show ?thesis
    using take_dropped_loop_spec[of "is" "m\<lparr>dropped_entity_ids := []\<rparr>"]
    unfolding em_take_dropped_def m_def is_def by (simp cong: if_cong)
qed

section \<open>Every action keeps it\<close>

lemma inv_reserve:
  assumes "inj alloc" "entity_inv alloc u"
  shows "\<exists>u'. entity_act alloc Reserve u = Some u' \<and> entity_inv alloc u'"
proof -
  let ?i = "alloc (slots_given (the_map u))"
  let ?u = "u\<lparr>the_map := (the_map u)\<lparr>counts := (counts (the_map u))(?i \<mapsto> 1), slots_given := Suc (slots_given (the_map u))\<rparr>,
      held := (held u)(?i := held u ?i + 1), open_slots := insert ?i (open_slots u)\<rparr>"
  note D = entity_invD[OF assms(2)]
  have "?i \<notin> alloc ` {..<slots_given (the_map u)}" using inj_eq[OF assms(1)] by (auto simp: image_iff)
  then have fresh: "held u ?i = 0" "?i \<notin> set (dropped_entity_ids (the_map u))" "entities (the_map u) ?i = None"
      "?i \<notin> open_slots u" "?i \<notin> leased u"
    using D(2)[of ?i] unfolding key_inv_def' by auto
  have "key_inv alloc ?u j" for j
  proof (cases "j = ?i")
    case False
    moreover have "j \<in> alloc ` {..<slots_given (the_map u)} \<Longrightarrow> j \<in> alloc ` {..<Suc (slots_given (the_map u))}" by auto
    ultimately show ?thesis using D(2)[of j] unfolding key_inv_def' by auto
  qed (use fresh in \<open>auto simp: key_inv_def'\<close>)
  then show ?thesis using D(1) by (auto simp: em_reserve_def Let_def entity_inv_def)
qed

lemma count_held: "entity_inv alloc u \<Longrightarrow> 0 < held u i \<Longrightarrow> counts (the_map u) i = Some (held u i)"
  using entity_invD(2)[of alloc u i] by (simp add: key_inv_def')

lemma inv_more:
  assumes "entity_inv alloc u" "0 < held u i"
  shows "entity_inv alloc (u\<lparr>the_map := (the_map u)\<lparr>counts := (counts (the_map u))(i \<mapsto> Suc (held u i))\<rparr>, held := (held u)(i := Suc (held u i))\<rparr>)"
proof (rule entity_invI)
  fix j
  show "key_inv alloc (u\<lparr>the_map := (the_map u)\<lparr>counts := (counts (the_map u))(i \<mapsto> Suc (held u i))\<rparr>, held := (held u)(i := Suc (held u i))\<rparr>) j"
    using entity_invD(2)[OF assms(1), of j] assms(2) by (cases "j = i") (auto simp: key_inv_def')
qed (use entity_invD(1)[OF assms(1)] in simp)

lemma inv_clone:
  assumes "entity_inv alloc u" "0 < held u i"
  shows "\<exists>u'. entity_act alloc (CloneHandle i) u = Some u' \<and> entity_inv alloc u'"
  using inv_more[OF assms] count_held[OF assms] assms(2) by (simp add: handle_clone_def)

lemma inv_upgrade:
  assumes "entity_inv alloc u"
  shows "\<exists>u'. entity_act alloc (Upgrade i) u = Some u' \<and> entity_inv alloc u'"
proof (cases "0 < held u i")
  case True
  then show ?thesis using inv_more[OF assms True] count_held[OF assms True] by (simp add: weak_upgrade_def)
next
  case False
  then have "weak_upgrade i (the_map u) = (None, the_map u)"
    using entity_invD(2)[OF assms, of i] by (simp add: weak_upgrade_def key_inv_def')
  then show ?thesis using assms by simp
qed

lemma inv_drop:
  assumes "entity_inv alloc u" "0 < held u i" "i \<in> leased u \<or> i \<in> open_slots u \<longrightarrow> 1 < held u i"
  shows "\<exists>u'. entity_act alloc (DropHandle i) u = Some u' \<and> entity_inv alloc u'"
proof -
  note D = entity_invD[OF assms(1)] and c = count_held[OF assms(1,2)]
  have nd: "i \<notin> set (dropped_entity_ids (the_map u))" using D(2)[of i] assms(2) by (auto simp: key_inv_def')
  define m where "m = (if held u i = 1
      then (the_map u)\<lparr>counts := (counts (the_map u))(i \<mapsto> 0), dropped_entity_ids := dropped_entity_ids (the_map u) @ [i]\<rparr>
      else (the_map u)\<lparr>counts := (counts (the_map u))(i \<mapsto> held u i - 1)\<rparr>)"
  have "handle_drop i (the_map u) = Some m" using c assms(2) by (simp add: handle_drop_def m_def Let_def)
  moreover have "entity_inv alloc (u\<lparr>the_map := m, held := (held u)(i := held u i - 1)\<rparr>)"
  proof (rule entity_invI)
    fix j
    show "key_inv alloc (u\<lparr>the_map := m, held := (held u)(i := held u i - 1)\<rparr>) j"
      using D(2)[of j] assms(2,3) nd by (cases "j = i"; cases "held u i = 1") (auto simp: key_inv_def' m_def)
  qed (use D(1) nd in \<open>simp add: m_def\<close>)
  ultimately show ?thesis by simp
qed

lemma inv_drop_slot:
  assumes "entity_inv alloc u" "i \<in> open_slots u" "held u i = 1"
  shows "\<exists>u'. entity_act alloc (DropSlot i) u = Some u' \<and> entity_inv alloc u'"
proof -
  note D = entity_invD[OF assms(1)]
  have c: "counts (the_map u) i = Some 1" using count_held[OF assms(1), of i] assms(3) by simp
  have nd: "i \<notin> set (dropped_entity_ids (the_map u))" using D(2)[of i] assms(3) by (auto simp: key_inv_def')
  let ?u = "u\<lparr>the_map := (the_map u)\<lparr>counts := (counts (the_map u))(i \<mapsto> 0),
      dropped_entity_ids := dropped_entity_ids (the_map u) @ [i]\<rparr>, held := (held u)(i := 0), open_slots := open_slots u - {i}\<rparr>"
  have "entity_inv alloc ?u"
  proof (rule entity_invI)
    fix j
    show "key_inv alloc ?u j" using D(2)[of j] assms(2,3) by (cases "j = i") (auto simp: key_inv_def')
  qed (use D(1) nd in simp)
  then show ?thesis using c assms(3) by (simp add: handle_drop_def)
qed

lemma inv_insert:
  assumes "entity_inv alloc u" "i \<in> open_slots u"
  shows "\<exists>u'. entity_act alloc (Insert i v) u = Some u' \<and> entity_inv alloc u'"
proof -
  note D = entity_invD[OF assms(1)]
  have "key_inv alloc (u\<lparr>the_map := em_insert i v (the_map u), open_slots := open_slots u - {i}\<rparr>) j" for j
    using D(2)[of j] assms(2) by (cases "j = i") (auto simp: key_inv_def' em_insert_def)
  then show ?thesis using D(1) by (auto simp: entity_inv_def em_insert_def)
qed

lemma entity_present:
  "entity_inv alloc u \<Longrightarrow> 0 < held u i \<Longrightarrow> i \<notin> open_slots u \<Longrightarrow> i \<notin> leased u \<Longrightarrow> \<exists>v. entities (the_map u) i = Some v"
  using entity_invD(2)[of alloc u i] by (auto simp: key_inv_def')

lemma inv_lease:
  assumes "entity_inv alloc u" "0 < held u i" "i \<notin> open_slots u" "i \<notin> leased u"
  shows "\<exists>u'. entity_act alloc (BeginLease i) u = Some u' \<and> entity_inv alloc u'"
proof -
  note D = entity_invD[OF assms(1)]
  obtain v where v: "entities (the_map u) i = Some v" using entity_present[OF assms] by blast
  let ?u = "u\<lparr>the_map := (the_map u)\<lparr>accessed_entities := insert i (accessed_entities (the_map u)),
      entities := (entities (the_map u))(i := None)\<rparr>, leased := insert i (leased u)\<rparr>"
  have "key_inv alloc ?u j" for j
    using D(2)[of j] assms(2-4) by (cases "j = i") (auto simp: key_inv_def')
  then show ?thesis using D(1) v by (auto simp: entity_inv_def em_lease_def Let_def)
qed

lemma inv_end_lease:
  assumes "entity_inv alloc u" "i \<in> leased u"
  shows "\<exists>u'. entity_act alloc (EndLease i v) u = Some u' \<and> entity_inv alloc u'"
proof -
  note D = entity_invD[OF assms(1)]
  have "key_inv alloc (u\<lparr>the_map := em_end_lease i v (the_map u), leased := leased u - {i}\<rparr>) j" for j
    using D(2)[of j] assms(2) by (cases "j = i") (auto simp: key_inv_def' em_end_lease_def)
  then show ?thesis using D(1) by (auto simp: entity_inv_def em_end_lease_def)
qed

lemma inv_read:
  assumes "entity_inv alloc u" "0 < held u i" "i \<notin> open_slots u" "i \<notin> leased u"
  shows "\<exists>u'. entity_act alloc (Read i) u = Some u' \<and> entity_inv alloc u'"
  using entity_present[OF assms] assms(1) by (auto simp: em_read_def Let_def entity_inv_def key_inv_def)

lemma inv_take_dropped:
  assumes "entity_inv alloc u"
  shows "\<exists>u'. entity_act alloc TakeDropped u = Some u' \<and> entity_inv alloc u'"
proof -
  let ?is = "dropped_entity_ids (the_map u)" and ?m = "the_map u"
  let ?u = "u\<lparr>the_map := ?m\<lparr>dropped_entity_ids := [], counts := (\<lambda>i. if i \<in> set ?is then None else counts ?m i),
       accessed_entities := accessed_entities ?m - set ?is, entities := (\<lambda>i. if i \<in> set ?is then None else entities ?m i)\<rparr>\<rparr>"
  have "key_inv alloc ?u j" for j
    using entity_invD(2)[OF assms, of j] by (cases "j \<in> set ?is") (auto simp: key_inv_def')
  then show ?thesis by (auto simp: take_dropped_spec[OF assms] entity_inv_def)
qed

lemma entity_act_inv:
  assumes "inj alloc" "entity_inv alloc u" "allowed u a"
  shows "\<exists>u'. entity_act alloc a u = Some u' \<and> entity_inv alloc u'"
proof (cases a)
  case Reserve
  then show ?thesis using inv_reserve[OF assms(1,2)] by simp
next
  case (Insert i v)
  then show ?thesis using inv_insert[OF assms(2)] assms(3) by (simp del: entity_act.simps)
next
  case (CloneHandle i)
  then show ?thesis using inv_clone[OF assms(2)] assms(3) by (simp del: entity_act.simps)
next
  case (DropHandle i)
  then show ?thesis using inv_drop[OF assms(2), of i] assms(3) by (simp del: entity_act.simps)
next
  case (Upgrade i)
  then show ?thesis using inv_upgrade[OF assms(2)] by (simp del: entity_act.simps)
next
  case (DropSlot i)
  then show ?thesis using inv_drop_slot[OF assms(2)] assms(3) by (simp del: entity_act.simps)
next
  case (BeginLease i)
  then show ?thesis using inv_lease[OF assms(2)] assms(3) by (simp del: entity_act.simps)
next
  case (EndLease i v)
  then show ?thesis using inv_end_lease[OF assms(2)] assms(3) by (simp del: entity_act.simps)
next
  case (Read i)
  then show ?thesis using inv_read[OF assms(2)] assms(3) by (simp del: entity_act.simps)
next
  case TakeDropped
  then show ?thesis using inv_take_dropped[OF assms(2)] by (simp del: entity_act.simps)
qed

lemma reachable_inv: "entity_reachable alloc u \<Longrightarrow> inj alloc \<Longrightarrow> entity_inv alloc u"
proof (induction rule: entity_reachable.induct)
  case start
  show ?case by (rule entity_inv_start)
next
  case (act u a u')
  then show ?case using entity_act_inv[of alloc u a] by auto
qed

section \<open>Properties\<close>


lemma map_filter_entities:
  "set (List.map_filter (\<lambda>i. map_option (Pair i) (e i)) is) = {(i, v). i \<in> set is \<and> e i = Some v}"
  "map fst (List.map_filter (\<lambda>i. map_option (Pair i) (e i)) is) = filter (\<lambda>i. e i \<noteq> None) is"
  by (induction "is") (auto simp: List.map_filter_simps split: option.splits)

text \<open>C32: \<open>take_dropped\<close> releases exactly the entities without a strong handle, each once and with its last
  content, and forgets their counts; the other entities and their counts stay as they are.\<close>

theorem entity_release:
  assumes "inj alloc" "entity_reachable alloc u"
  shows "\<exists>xs m. em_take_dropped (the_map u) = Some (xs, m) \<and> distinct (map fst xs) \<and>
    set xs = {(i, v). entities (the_map u) i = Some v \<and> held u i = 0} \<and>
    (\<forall>i. if 0 < held u i then entities m i = entities (the_map u) i \<and> counts m i = Some (held u i)
         else entities m i = None \<and> counts m i = None)"
proof -
  note inv = reachable_inv[OF assms(2,1)]
  let ?m = "the_map u" and ?is = "dropped_entity_ids (the_map u)"
  let ?xs = "List.map_filter (\<lambda>i. map_option (Pair i) (entities ?m i)) ?is"
  have key: "key_inv alloc u i" for i by (rule entity_invD(2)[OF inv])
  have "(i, v) \<in> set ?xs \<longleftrightarrow> entities ?m i = Some v \<and> held u i = 0" for i v
    using key[of i] by (auto simp: map_filter_entities key_inv_def')
  then have "set ?xs = {(i, v). entities ?m i = Some v \<and> held u i = 0}" by auto
  moreover have "distinct (map fst ?xs)" using entity_invD(1)[OF inv] by (simp add: map_filter_entities)
  moreover have "if 0 < held u i then (if i \<in> set ?is then None else entities ?m i) = entities ?m i \<and>
        (if i \<in> set ?is then None else counts ?m i) = Some (held u i)
      else (if i \<in> set ?is then None else entities ?m i) = None \<and> (if i \<in> set ?is then None else counts ?m i) = None" for i
    using key[of i] by (auto simp: key_inv_def')
  ultimately show ?thesis using take_dropped_spec[OF inv] by simp
qed

text \<open>A program that makes two entities and drops the only handle to the first.\<close>

definition two_entities :: "(nat, string) entity_use" where
  "two_entities =
     \<lparr>the_map = \<lparr>entities = [0 \<mapsto> ''a'', 1 \<mapsto> ''b''], accessed_entities = {0, 1}, counts = [0 \<mapsto> 0, 1 \<mapsto> 1],
                dropped_entity_ids = [0], slots_given = 2\<rparr>,
      held = (\<lambda>i. if i = 1 then 1 else 0), open_slots = {}, leased = {}\<rparr>"

text \<open>A sequence of actions, each allowed where it stands.\<close>

fun run_actions :: "(nat \<Rightarrow> 'id) \<Rightarrow> ('id, 'v) entity_action list \<Rightarrow> ('id, 'v) entity_use \<Rightarrow> ('id, 'v) entity_use option" where
  "run_actions alloc [] u = Some u"
| "run_actions alloc (a # s) u =
     (if allowed u a then Option.bind (entity_act alloc a u) (run_actions alloc s) else None)"

lemma run_actions_reachable:
  "run_actions alloc s u = Some u' \<Longrightarrow> entity_reachable alloc u \<Longrightarrow> entity_reachable alloc u'"
proof (induction s arbitrary: u)
  case (Cons a s)
  then obtain v where "allowed u a" "entity_act alloc a u = Some v" "run_actions alloc s v = Some u'"
    by (auto simp: Option.bind_eq_Some_conv split: if_splits)
  then show ?case using Cons.IH entity_reachable.act[OF Cons.prems(2)] by blast
qed simp

lemma two_entities_reachable: "entity_reachable (\<lambda>n. n) two_entities"
proof (rule run_actions_reachable[OF _ entity_reachable.start])
  show "run_actions (\<lambda>n. n) [Reserve, Insert 0 ''a'', Reserve, Insert 1 ''b'', DropHandle 0] entity_start = Some two_entities"
    by (simp add: entity_start_def entity_map_new_def em_reserve_def em_insert_def handle_drop_def two_entities_def
        Let_def fun_eq_iff insert_commute)
qed


lemma one_pair:
  assumes "distinct (map fst xs)" "set xs = {p}"
  shows "xs = [p]"
proof (cases xs)
  case (Cons q ys)
  then have "q = p" "set ys \<subseteq> {p}" using assms(2) by auto
  moreover have "p \<notin> set ys" using assms(1) Cons \<open>q = p\<close> by auto
  ultimately show ?thesis using Cons by (cases ys) auto
qed (use assms(2) in simp)

theorem entity_release_witness:
  "\<exists>m. em_take_dropped (the_map two_entities) = Some ([(0, ''a'')], m) \<and> counts m 1 = Some 1"
proof -
  obtain xs m where x: "em_take_dropped (the_map two_entities) = Some (xs, m)" "distinct (map fst xs)"
    "set xs = {(i, v). entities (the_map two_entities) i = Some v \<and> held two_entities i = 0}"
    "\<forall>i. if 0 < held two_entities i then entities m i = entities (the_map two_entities) i \<and> counts m i = Some (held two_entities i)
         else entities m i = None \<and> counts m i = None"
    using entity_release[OF _ two_entities_reachable] by auto
  have "set xs = {(0, ''a'')}" using x(3) by (auto simp: two_entities_def split: if_splits)
  with x(2) have "xs = [(0, ''a'')]" by (rule one_pair)
  moreover have "counts m 1 = Some 1" using x(4)[rule_format, of 1] by (simp add: two_entities_def)
  ultimately show ?thesis using x(1) by blast
qed

end
