(* ===== verification/Arena.thy ===== *)
theory Arena
  imports Prelude
begin

text \<open>
  The bump allocator of a frame's elements: \<open>crates/lucie-common/src/arena.rs\<close>.  Values are written one after
  another into chunks of memory; \<open>clear\<close> drops them all, and makes every box that points at them invalid.

  Addresses are natural numbers, memory is a map from addresses to bytes, a value is its bytes and its alignment.
  \<open>chunk_at n\<close> is the address of the \<open>n\<close>-th chunk that the global allocator gives; chunks do not overlap
  (\<open>chunks_apart\<close>).  The cells that \<open>valid\<close> points at are shared by the arena and its boxes: a list, and \<open>valid\<close>
  is an index of it.  \<open>None\<close> is a panic.
\<close>

section \<open>Chunks\<close>

record chunk =
  chunk_start :: nat
  chunk_end :: nat
  chunk_offset :: nat

definition chunk_new :: "nat \<Rightarrow> nat \<Rightarrow> chunk" where
  "chunk_new start chunk_size = \<lparr>chunk_start = start, chunk_end = start + chunk_size, chunk_offset = start\<rparr>"

text \<open>The standard library's \<open>align_offset\<close>.\<close>

definition align_offset :: "nat \<Rightarrow> nat \<Rightarrow> nat" where
  "align_offset p align = (if p mod align = 0 then 0 else align - p mod align)"

definition chunk_allocate :: "nat \<Rightarrow> nat \<Rightarrow> chunk \<Rightarrow> (nat \<times> chunk) option" where
  "chunk_allocate align layout_size c =
     (let aligned = chunk_offset c + align_offset (chunk_offset c) align;
          next = aligned + layout_size in
      if next \<le> chunk_end c then Some (aligned, c\<lparr>chunk_offset := next\<rparr>) else None)"

definition chunk_reset :: "chunk \<Rightarrow> chunk" where
  "chunk_reset c = c\<lparr>chunk_offset := chunk_start c\<rparr>"

section \<open>The arena\<close>

text \<open>An element is the address and the bytes of a value that is to be dropped.\<close>

record 'b arena =
  chunks :: "chunk list"
  elements :: "(nat \<times> 'b list) list"
  valid :: nat
  current_chunk_index :: nat
  chunk_size :: nat
  cells :: "bool list"
  memory :: "nat \<Rightarrow> 'b"

definition arena_new :: "(nat \<Rightarrow> nat) \<Rightarrow> (nat \<Rightarrow> 'b) \<Rightarrow> nat \<Rightarrow> 'b arena option" where
  "arena_new chunk_at mem n =
     (if n = 0 then None
      else Some \<lparr>chunks = [chunk_new (chunk_at 0) n], elements = [], valid = 0, current_chunk_index = 0,
                 chunk_size = n, cells = [True], memory = mem\<rparr>)"

definition capacity :: "'b arena \<Rightarrow> nat" where
  "capacity a = length (chunks a) * chunk_size a"

text \<open>\<open>clear\<close> gives the elements it drops, in order, next to the arena.\<close>

definition arena_clear :: "'b arena \<Rightarrow> (nat \<times> 'b list) list \<times> 'b arena" where
  "arena_clear a =
     (elements a,
      a\<lparr>cells := (cells a)[valid a := False] @ [True], valid := length (cells a), elements := [],
        chunks := map chunk_reset (take (Suc (current_chunk_index a)) (chunks a)) @
                  drop (Suc (current_chunk_index a)) (chunks a),
        current_chunk_index := 0\<rparr>)"

record arena_box =
  box_ptr :: nat
  box_len :: nat
  box_valid :: nat

fun write_bytes :: "nat \<Rightarrow> 'b list \<Rightarrow> (nat \<Rightarrow> 'b) \<Rightarrow> nat \<Rightarrow> 'b" where
  "write_bytes p [] mem = mem"
| "write_bytes p (b # bs) mem = write_bytes (Suc p) bs (mem(p := b))"

definition arena_alloc :: "(nat \<Rightarrow> nat) \<Rightarrow> nat \<Rightarrow> 'b list \<Rightarrow> 'b arena \<Rightarrow> (arena_box \<times> 'b arena) option" where
  "arena_alloc chunk_at align value a = do {
     current \<leftarrow> nth_opt (chunks a) (current_chunk_index a);
     (ptr, a) \<leftarrow>
       (case chunk_allocate align (length value) current of
          Some (ptr, c) \<Rightarrow> Some (ptr, a\<lparr>chunks := (chunks a)[current_chunk_index a := c]\<rparr>)
        | None \<Rightarrow> do {
            let a = a\<lparr>current_chunk_index := current_chunk_index a + 1\<rparr>;
            let a = (if current_chunk_index a \<ge> length (chunks a)
                     then a\<lparr>chunks := chunks a @ [chunk_new (chunk_at (length (chunks a))) (chunk_size a)]\<rparr> else a);
            current \<leftarrow> nth_opt (chunks a) (current_chunk_index a);
            (ptr, c) \<leftarrow> chunk_allocate align (length value) current;
            Some (ptr, a\<lparr>chunks := (chunks a)[current_chunk_index a := c]\<rparr>) });
     Some (\<lparr>box_ptr = ptr, box_len = length value, box_valid = valid a\<rparr>,
           a\<lparr>memory := write_bytes ptr value (memory a), elements := elements a @ [(ptr, value)]\<rparr>) }"

text \<open>\<open>ArenaBox::deref\<close>: the bytes that the box points at, if its cell still holds.\<close>

definition box_deref :: "'b arena \<Rightarrow> arena_box \<Rightarrow> 'b list option" where
  "box_deref a b =
     (case nth_opt (cells a) (box_valid b) of
        Some True \<Rightarrow> Some (map (memory a) [box_ptr b ..< box_ptr b + box_len b])
      | _ \<Rightarrow> None)"

section \<open>The invariant\<close>

lemma align_offset_aligned:
  assumes "0 < align"
  shows "align dvd p + align_offset p align"
proof (cases "p mod align = 0")
  case False
  have "p + (align - p mod align) = align * (p div align) + align"
    using mult_div_mod_eq[of align p] mod_less_divisor[OF assms, of p] by linarith
  then show ?thesis using False by (simp add: align_offset_def)
qed (simp add: align_offset_def mod_eq_0_iff_dvd)

lemma align_offset_less: "0 < align \<Longrightarrow> align_offset p align < align"
  by (auto simp: align_offset_def)

lemma write_bytes_other: "q < p \<or> p + length bs \<le> q \<Longrightarrow> write_bytes p bs mem q = mem q"
  by (induction p bs mem rule: write_bytes.induct) auto

lemma write_bytes_read: "map (write_bytes p bs mem) [p ..< p + length bs] = bs"
proof (induction p bs mem rule: write_bytes.induct)
  case (2 p b bs mem)
  have "[p ..< p + length (b # bs)] = p # [Suc p ..< Suc p + length bs]" by (simp add: upt_conv_Cons del: upt_Suc)
  then show ?case using 2 write_bytes_other[of p "Suc p" bs] by (simp add: fun_upd_def del: upt_Suc)
qed simp

definition chunks_apart :: "(nat \<Rightarrow> nat) \<Rightarrow> nat \<Rightarrow> bool" where
  "chunks_apart chunk_at n \<longleftrightarrow> (\<forall>i j. i \<noteq> j \<longrightarrow> chunk_at i + n \<le> chunk_at j \<or> chunk_at j + n \<le> chunk_at i)"

definition apart :: "nat \<times> 'b list \<Rightarrow> nat \<times> 'b list \<Rightarrow> bool" where
  "apart e f \<longleftrightarrow> fst e + length (snd e) \<le> fst f \<or> fst f + length (snd f) \<le> fst e"

text \<open>A value lies in the used part of a chunk.\<close>

definition placed_in :: "(nat \<Rightarrow> nat) \<Rightarrow> 'b arena \<Rightarrow> nat \<times> 'b list \<Rightarrow> bool" where
  "placed_in chunk_at a e \<longleftrightarrow>
     (\<exists>i < length (chunks a). chunk_at i \<le> fst e \<and> fst e + length (snd e) \<le> chunk_offset (chunks a ! i))"

definition chunk_ok :: "(nat \<Rightarrow> nat) \<Rightarrow> 'b arena \<Rightarrow> nat \<Rightarrow> bool" where
  "chunk_ok chunk_at a i \<longleftrightarrow>
     (let c = chunks a ! i in
      chunk_start c = chunk_at i \<and> chunk_end c = chunk_at i + chunk_size a \<and>
      chunk_at i \<le> chunk_offset c \<and> chunk_offset c \<le> chunk_end c \<and>
      (current_chunk_index a < i \<longrightarrow> chunk_offset c = chunk_at i))"

definition arena_inv :: "(nat \<Rightarrow> nat) \<Rightarrow> 'b arena \<Rightarrow> bool" where
  "arena_inv chunk_at a \<longleftrightarrow>
     current_chunk_index a < length (chunks a) \<and>
     (\<forall>i < length (chunks a). chunk_ok chunk_at a i) \<and>
     (\<forall>e \<in> set (elements a). placed_in chunk_at a e \<and> map (memory a) [fst e ..< fst e + length (snd e)] = snd e) \<and>
     sorted_wrt apart (elements a) \<and>
     valid a < length (cells a) \<and> (\<forall>i < length (cells a). cells a ! i = (i = valid a))"

lemma arena_new_inv: "arena_new chunk_at mem n = Some a \<Longrightarrow> arena_inv chunk_at a"
  by (auto simp: arena_new_def arena_inv_def chunk_ok_def chunk_new_def split: if_splits)

lemma arena_clear_inv:
  assumes "arena_inv chunk_at a"
  shows "arena_inv chunk_at (snd (arena_clear a))"
proof -
  let ?k = "Suc (current_chunk_index a)" and ?a = "snd (arena_clear a)"
  have k: "?k \<le> length (chunks a)" using assms by (simp add: arena_inv_def)
  have nth: "chunks ?a ! i = (if i < ?k then chunk_reset (chunks a ! i) else chunks a ! i)" if "i < length (chunks a)" for i
    using that k by (simp add: arena_clear_def nth_append min_def)
  have len: "length (chunks ?a) = length (chunks a)" using k by (simp add: arena_clear_def)
  have "chunk_ok chunk_at ?a i" if i: "i < length (chunks a)" for i
  proof -
    have "chunk_ok chunk_at a i" using assms i by (simp add: arena_inv_def)
    then show ?thesis unfolding chunk_ok_def Let_def nth[OF i]
      by (auto simp: chunk_reset_def arena_clear_def)
  qed
  moreover have "(cells ?a) ! i = (i = valid ?a)" if "i < length (cells ?a)" for i
    using assms that by (cases "i = length (cells a)") (auto simp: arena_inv_def arena_clear_def nth_append nth_list_update)
  moreover have "valid ?a < length (cells ?a)" "elements ?a = []" "current_chunk_index ?a = 0"
    using assms by (simp_all add: arena_inv_def arena_clear_def)
  moreover have "chunks a \<noteq> []" using k by auto
  ultimately show ?thesis using len by (simp add: arena_inv_def)
qed

lemma chunk_allocate_Some:
  assumes "chunk_allocate align n c = Some (p, d)" "0 < align"
  shows "align dvd p" "chunk_offset c \<le> p" "p + n \<le> chunk_end c" "d = c\<lparr>chunk_offset := p + n\<rparr>"
  using assms align_offset_aligned[OF assms(2), of "chunk_offset c"]
  by (auto simp: chunk_allocate_def Let_def split: if_splits)

lemma chunk_allocate_fits:
  assumes "0 < align" "chunk_offset c + align + n \<le> Suc (chunk_end c)"
  shows "chunk_allocate align n c \<noteq> None"
  using align_offset_less[OF assms(1), of "chunk_offset c"] assms(2) by (simp add: chunk_allocate_def Let_def)

text \<open>Placing a value in the current chunk.\<close>

definition place :: "nat \<Rightarrow> chunk \<Rightarrow> 'b list \<Rightarrow> 'b arena \<Rightarrow> 'b arena" where
  "place p c value a =
     a\<lparr>chunks := (chunks a)[current_chunk_index a := c], memory := write_bytes p value (memory a),
       elements := elements a @ [(p, value)]\<rparr>"

lemma place_inv:
  fixes a :: "'b arena"
  assumes "arena_inv chunk_at a" "chunks_apart chunk_at (chunk_size a)" "0 < align"
    "chunk_allocate align (length value) (chunks a ! current_chunk_index a) = Some (p, c)"
  shows "arena_inv chunk_at (place p c value a)"
proof -
  let ?i = "current_chunk_index a" and ?a = "place p c value a"
  note c = chunk_allocate_Some[OF assms(4,3)]
  have i: "?i < length (chunks a)" and ok: "\<And>j. j < length (chunks a) \<Longrightarrow> chunk_ok chunk_at a j"
    using assms(1) by (simp_all add: arena_inv_def)
  note oki = ok[OF i, unfolded chunk_ok_def Let_def]
  have nth: "chunks ?a ! j = (if j = ?i then c else chunks a ! j)" if "j < length (chunks a)" for j
    using that by (simp add: place_def nth_list_update)
  have ok': "chunk_ok chunk_at ?a j" if "j < length (chunks a)" for j
    using ok[OF that] oki c nth[OF that] by (auto simp: chunk_ok_def Let_def place_def)
  have here: "placed_in chunk_at ?a (p, value)"
    using i c oki by (auto simp: placed_in_def place_def intro!: exI[of _ ?i])
  have old: "placed_in chunk_at ?a e \<and> apart e (p, value)" if e: "placed_in chunk_at a e" for e :: "nat \<times> 'b list"
  proof -
    obtain j where j: "j < length (chunks a)" "chunk_at j \<le> fst e" "fst e + length (snd e) \<le> chunk_offset (chunks a ! j)"
      using e unfolding placed_in_def by blast
    note okj = ok[OF j(1), unfolded chunk_ok_def Let_def]
    have "chunk_offset (chunks a ! j) \<le> chunk_offset (chunks ?a ! j)" using nth[OF j(1)] c by auto
    then have "placed_in chunk_at ?a e" using j by (auto simp: placed_in_def place_def intro!: exI[of _ j])
    moreover have "apart e (p, value)"
    proof (cases "j = ?i")
      case False
      then have "chunk_at j + chunk_size a \<le> chunk_at ?i \<or> chunk_at ?i + chunk_size a \<le> chunk_at j"
        using assms(2) unfolding chunks_apart_def by blast
      then show ?thesis using j okj oki c by (auto simp: apart_def)
    qed (use j c in \<open>auto simp: apart_def\<close>)
    ultimately show ?thesis ..
  qed
  have mem: "map (memory ?a) [fst e ..< fst e + length (snd e)] = snd e"
    if "placed_in chunk_at a e" "map (memory a) [fst e ..< fst e + length (snd e)] = snd e" for e :: "nat \<times> 'b list"
  proof -
    have "memory ?a q = memory a q" if "q \<in> set [fst e ..< fst e + length (snd e)]" for q
      using old[OF \<open>placed_in chunk_at a e\<close>] that unfolding place_def apart_def by (auto intro!: write_bytes_other)
    then have "map (memory ?a) [fst e ..< fst e + length (snd e)] = map (memory a) [fst e ..< fst e + length (snd e)]"
      by (rule map_cong[OF refl])
    then show ?thesis using that(2) by simp
  qed
  have "\<forall>e \<in> set (elements ?a). placed_in chunk_at ?a e \<and> map (memory ?a) [fst e ..< fst e + length (snd e)] = snd e"
    using assms(1) old mem here write_bytes_read[of p "value" "memory a"] by (auto simp: arena_inv_def place_def)
  moreover have "sorted_wrt apart (elements ?a)"
    using assms(1) old by (auto simp: arena_inv_def place_def sorted_wrt_append)
  ultimately show ?thesis using assms(1) i ok' by (auto simp: arena_inv_def place_def)
qed

lemma arena_next_inv:
  assumes "arena_inv chunk_at a"
  defines "a2 \<equiv> a\<lparr>current_chunk_index := current_chunk_index a + 1\<rparr>"
  shows "arena_inv chunk_at (if current_chunk_index a2 \<ge> length (chunks a2)
    then a2\<lparr>chunks := chunks a2 @ [chunk_new (chunk_at (length (chunks a2))) (chunk_size a2)]\<rparr> else a2)"
    (is "arena_inv _ ?a")
proof -
  have i: "current_chunk_index a < length (chunks a)" and ok: "\<And>j. j < length (chunks a) \<Longrightarrow> chunk_ok chunk_at a j"
    using assms(1) by (simp_all add: arena_inv_def)
  have "chunk_ok chunk_at ?a j" if "j < length (chunks ?a)" for j
  proof (cases "j < length (chunks a)")
    case True
    then show ?thesis using ok[OF True] by (auto simp: chunk_ok_def Let_def a2_def nth_append)
  next
    case False
    then have "j = length (chunks a)" "current_chunk_index a2 \<ge> length (chunks a2)" using that i by (auto simp: a2_def split: if_splits)
    then show ?thesis by (simp add: chunk_ok_def Let_def a2_def chunk_new_def)
  qed
  moreover have "placed_in chunk_at ?a e" if "placed_in chunk_at a e" for e :: "nat \<times> 'a list"
    using that by (auto simp: placed_in_def a2_def nth_append)
  ultimately show ?thesis using assms(1) i by (auto simp: arena_inv_def a2_def)
qed

text \<open>What \<open>alloc\<close> does, in one of two chunks.\<close>

lemma arena_alloc_spec:
  assumes "arena_inv chunk_at a" "chunks_apart chunk_at (chunk_size a)" "0 < align"
    "length value + align \<le> Suc (chunk_size a)"
  shows "\<exists>b a'. arena_alloc chunk_at align value a = Some (b, a') \<and> arena_inv chunk_at a' \<and>
    box_valid b = valid a \<and> box_len b = length value \<and> align dvd box_ptr b \<and>
    valid a' = valid a \<and> cells a' = cells a \<and> chunk_size a' = chunk_size a \<and> elements a' = elements a @ [(box_ptr b, value)]"
proof -
  have i: "current_chunk_index a < length (chunks a)" using assms(1) by (simp add: arena_inv_def)
  show ?thesis
  proof (cases "chunk_allocate align (length value) (chunks a ! current_chunk_index a)")
    case (Some r)
    obtain p c where r: "r = (p, c)" by (cases r)
    have "arena_alloc chunk_at align value a =
        Some (\<lparr>box_ptr = p, box_len = length value, box_valid = valid a\<rparr>, place p c value a)"
      using i Some r by (simp add: arena_alloc_def nth_opt_def place_def)
    then show ?thesis
      using place_inv[OF assms(1-3)] Some r chunk_allocate_Some(1)[OF _ assms(3)] by (simp add: place_def)
  next
    case None
    define a2 where "a2 = a\<lparr>current_chunk_index := current_chunk_index a + 1\<rparr>"
    define a3 where "a3 = (if current_chunk_index a2 \<ge> length (chunks a2)
      then a2\<lparr>chunks := chunks a2 @ [chunk_new (chunk_at (length (chunks a2))) (chunk_size a2)]\<rparr> else a2)"
    have inv: "arena_inv chunk_at a3" unfolding a3_def a2_def by (rule arena_next_inv[OF assms(1)])
    have same: "valid a3 = valid a" "cells a3 = cells a" "chunk_size a3 = chunk_size a" "elements a3 = elements a"
      by (simp_all add: a3_def a2_def)
    have i3: "current_chunk_index a3 < length (chunks a3)" using inv by (simp add: arena_inv_def)
    let ?d = "chunks a3 ! current_chunk_index a3"
    have "chunk_offset ?d = chunk_at (current_chunk_index a3)" "chunk_end ?d = chunk_at (current_chunk_index a3) + chunk_size a"
    proof -
      have "chunk_ok chunk_at a3 (current_chunk_index a3)" using inv i3 by (simp add: arena_inv_def)
      then show "chunk_end ?d = chunk_at (current_chunk_index a3) + chunk_size a" by (simp add: chunk_ok_def Let_def same)
      show "chunk_offset ?d = chunk_at (current_chunk_index a3)"
      proof (cases "Suc (current_chunk_index a) < length (chunks a)")
        case True
        then have "chunk_ok chunk_at a (Suc (current_chunk_index a))" using assms(1) by (simp add: arena_inv_def)
        then show ?thesis using True by (simp add: a3_def a2_def chunk_ok_def Let_def)
      next
        case False
        then have "Suc (current_chunk_index a) = length (chunks a)" using i by simp
        then show ?thesis by (simp add: a3_def a2_def chunk_new_def)
      qed
    qed
    then obtain p c where r: "chunk_allocate align (length value) ?d = Some (p, c)"
      using chunk_allocate_fits[OF assms(3), of ?d "length value"] assms(4) by force
    have "arena_alloc chunk_at align value a =
        Some (\<lparr>box_ptr = p, box_len = length value, box_valid = valid a3\<rparr>, place p c value a3)"
      using i i3 None r same(1) unfolding a3_def a2_def arena_alloc_def place_def
      by (simp add: nth_opt_def Let_def del: nth_opt_Some nth_opt_None cong: if_cong split: if_splits)
    then show ?thesis
      using place_inv[OF inv _ assms(3) r] assms(2) chunk_allocate_Some(1)[OF r assms(3)] same by (simp add: place_def)
  qed
qed

section \<open>Boxes\<close>

datatype 'b arena_op = Alloc nat "'b list" | Clear

text \<open>A use of the arena, with the boxes and the values they were made of.\<close>

fun arena_run :: "(nat \<Rightarrow> nat) \<Rightarrow> 'b arena_op list \<Rightarrow> 'b arena \<Rightarrow> (arena_box \<times> nat \<times> 'b list) list \<Rightarrow>
    ('b arena \<times> (arena_box \<times> nat \<times> 'b list) list) option" where
  "arena_run chunk_at [] a boxes = Some (a, boxes)"
| "arena_run chunk_at (Alloc align value # ops) a boxes =
     Option.bind (arena_alloc chunk_at align value a)
       (\<lambda>(b, a). arena_run chunk_at ops a (boxes @ [(b, align, value)]))"
| "arena_run chunk_at (Clear # ops) a boxes = arena_run chunk_at ops (snd (arena_clear a)) boxes"

definition of_frame :: "'b arena \<Rightarrow> (arena_box \<times> nat \<times> 'b list) list \<Rightarrow> (arena_box \<times> nat \<times> 'b list) list" where
  "of_frame a boxes = filter (\<lambda>(b, _). box_valid b = valid a) boxes"

text \<open>A value and its alignment fit in any chunk.\<close>

fun op_fits :: "nat \<Rightarrow> 'b arena_op \<Rightarrow> bool" where
  "op_fits n (Alloc align value) = (0 < align \<and> length value + align \<le> Suc n)"
| "op_fits n Clear = True"

definition boxes_inv :: "'b arena \<Rightarrow> (arena_box \<times> nat \<times> 'b list) list \<Rightarrow> bool" where
  "boxes_inv a boxes \<longleftrightarrow>
     (\<forall>(b, align, v) \<in> set boxes. box_valid b < length (cells a) \<and> box_len b = length v \<and> align dvd box_ptr b) \<and>
     elements a = map (\<lambda>(b, _, v). (box_ptr b, v)) (of_frame a boxes)"

lemma arena_run_inv:
  assumes "arena_inv chunk_at a" "chunks_apart chunk_at (chunk_size a)" "boxes_inv a boxes" "\<forall>x \<in> set ops. op_fits (chunk_size a) x"
  shows "\<exists>a' boxes'. arena_run chunk_at ops a boxes = Some (a', boxes') \<and> arena_inv chunk_at a' \<and> boxes_inv a' boxes'"
  using assms
proof (induction ops arbitrary: a boxes)
  case (Cons x ops)
  show ?case
  proof (cases x)
    case (Alloc align "value")
    then have fits: "0 < align" "length value + align \<le> Suc (chunk_size a)" using Cons.prems(4) by simp_all
    obtain b a' where b: "arena_alloc chunk_at align value a = Some (b, a')" "arena_inv chunk_at a'"
      "box_valid b = valid a" "box_len b = length value" "align dvd box_ptr b" "valid a' = valid a" "cells a' = cells a"
      "chunk_size a' = chunk_size a" "elements a' = elements a @ [(box_ptr b, value)]"
      using arena_alloc_spec[OF Cons.prems(1,2) fits] by blast
    have "valid a < length (cells a)" using Cons.prems(1) by (simp add: arena_inv_def)
    then have "boxes_inv a' (boxes @ [(b, align, value)])"
      using Cons.prems(3) b unfolding boxes_inv_def of_frame_def by auto
    then show ?thesis using Cons.IH[OF b(2)] Cons.prems b(1,8) Alloc by simp
  next
    case Clear
    have "boxes_inv (snd (arena_clear a)) boxes"
      using Cons.prems(3) by (fastforce simp: boxes_inv_def arena_clear_def of_frame_def filter_empty_conv)
    moreover have "chunk_size (snd (arena_clear a)) = chunk_size a" by (simp add: arena_clear_def)
    ultimately show ?thesis using Cons.IH[OF arena_clear_inv[OF Cons.prems(1)]] Cons.prems(2,4) Clear by simp
  qed
qed simp

text \<open>C34: as long as every value fits in a chunk with its alignment, the arena never panics, and however often it is
  cleared: a box of the current frame reads the value it was made of, at an address of its alignment and apart
  from every other box of the frame; a box of an earlier frame panics; and clearing drops the values of
  the current frame, each once, in the order in which they were made.\<close>

theorem arena_boxes:
  assumes "chunks_apart chunk_at n" "0 < n" "\<forall>x \<in> set ops. op_fits n x"
  shows "\<exists>a0 a boxes. arena_new chunk_at mem n = Some a0 \<and> arena_run chunk_at ops a0 [] = Some (a, boxes) \<and>
    (\<forall>(b, align, v) \<in> set boxes. align dvd box_ptr b \<and>
       box_deref a b = (if box_valid b = valid a then Some v else None)) \<and>
    sorted_wrt (\<lambda>(b, _, v) (c, _, w). apart (box_ptr b, v) (box_ptr c, w)) (of_frame a boxes) \<and>
    fst (arena_clear a) = map (\<lambda>(b, _, v). (box_ptr b, v)) (of_frame a boxes)"
proof -
  obtain a0 where a0: "arena_new chunk_at mem n = Some a0" "chunk_size a0 = n" "boxes_inv a0 []"
    using assms(2) by (auto simp: arena_new_def boxes_inv_def of_frame_def)
  obtain a boxes where run: "arena_run chunk_at ops a0 [] = Some (a, boxes)" "arena_inv chunk_at a" "boxes_inv a boxes"
    using arena_run_inv[OF arena_new_inv[OF a0(1)] _ a0(3)] assms(1,3) a0(2) by blast
  note el = run(3)[unfolded boxes_inv_def, THEN conjunct2]
  have deref: "box_deref a b = (if box_valid b = valid a then Some v else None)" if "(b, align, v) \<in> set boxes" for b align v
  proof -
    have b: "box_valid b < length (cells a)" "box_len b = length v" using run(3) that by (auto simp: boxes_inv_def)
    then have cell: "nth_opt (cells a) (box_valid b) = Some (box_valid b = valid a)"
      using run(2) by (simp add: arena_inv_def nth_opt_def)
    show ?thesis
    proof (cases "box_valid b = valid a")
      case True
      then have "(box_ptr b, v) \<in> set (elements a)" using that unfolding el of_frame_def by force
      then have "map (memory a) [box_ptr b ..< box_ptr b + length v] = v" using run(2) by (fastforce simp: arena_inv_def)
      then show ?thesis using True cell b by (simp add: box_deref_def del: nth_opt_Some nth_opt_None)
    next
      case False
      then show ?thesis using cell by (simp add: box_deref_def del: nth_opt_Some nth_opt_None)
    qed
  qed
  have "sorted_wrt apart (elements a)" using run(2) by (simp add: arena_inv_def)
  then have "sorted_wrt (\<lambda>x y. apart (box_ptr (fst x), snd (snd x)) (box_ptr (fst y), snd (snd y))) (of_frame a boxes)"
    unfolding el by (simp add: sorted_wrt_map case_prod_beta)
  then have "sorted_wrt (\<lambda>(b, _, v) (c, _, w). apart (box_ptr b, v) (box_ptr c, w)) (of_frame a boxes)"
    by (rule sorted_wrt_mono_rel[rotated]) auto
  moreover have "fst (arena_clear a) = elements a" by (simp add: arena_clear_def)
  ultimately show ?thesis using a0(1) run(1,3) deref el by (fastforce simp: boxes_inv_def)
qed

text \<open>Chunks of eight bytes, with five values in two frames.\<close>

theorem arena_boxes_witness:
  "\<exists>a0 a boxes. arena_new (\<lambda>i. 100 * i + 3) (\<lambda>_. 0 :: nat) 8 = Some a0 \<and>
     arena_run (\<lambda>i. 100 * i + 3) [Alloc 4 [1, 2], Clear, Alloc 2 [3, 4, 5, 6], Alloc 4 [7, 8, 9, 10]] a0 [] = Some (a, boxes) \<and>
     map (\<lambda>(b, _). (box_ptr b, box_deref a b)) boxes = [(4, None), (4, Some [3, 4, 5, 6]), (104, Some [7, 8, 9, 10])]"
proof -
  have "chunks_apart (\<lambda>i. 100 * i + 3) 8" by (auto simp: chunks_apart_def)
  from arena_boxes[OF this, of "[Alloc 4 [1, 2], Clear, Alloc 2 [3, 4, 5, 6], Alloc 4 [7, 8, 9, 10 :: nat]]" "\<lambda>_. 0"]
  show ?thesis
    by (auto simp: arena_new_def arena_alloc_def chunk_new_def chunk_allocate_def align_offset_def nth_opt_def arena_clear_def
        chunk_reset_def Let_def)
qed

end
