(* ===== verification/Pixel.thy ===== *)
theory Pixel
  imports Complex_Main Geometry
begin

text \<open>
  Numbers of pixels that the code rounds and casts: \<open>f32\<close> is a number of an ordered field with floor.
\<close>

definition point_zero :: "'a::linordered_idom point" where
  "point_zero = \<lparr>pt_x = 0, pt_y = 0\<rparr>"

text \<open>\<open>f32::round\<close>: half-way cases away from zero.\<close>

definition round_px :: "'a::floor_ceiling \<Rightarrow> 'a" where
  "round_px x = (if x < 0 then - of_int \<lfloor>- x + 1 / 2\<rfloor> else of_int \<lfloor>x + 1 / 2\<rfloor>)"

text \<open>\<open>as usize\<close>: a negative number is cast to 0.\<close>

definition as_usize :: "'a::floor_ceiling \<Rightarrow> nat" where
  "as_usize x = nat \<lfloor>x\<rfloor>"

text \<open>\<open>clamp\<close>, whose bounds are in order where it is used.\<close>

definition clamp :: "'a::linorder \<Rightarrow> 'a \<Rightarrow> 'a \<Rightarrow> 'a" where
  "clamp lo hi x = (if x < lo then lo else if x > hi then hi else x)"

lemma clamp_bounds: "lo \<le> hi \<Longrightarrow> lo \<le> clamp lo hi x \<and> clamp lo hi x \<le> hi"
  by (auto simp: clamp_def)

lemma clamp_id [simp]: "lo \<le> x \<Longrightarrow> x \<le> hi \<Longrightarrow> clamp lo hi x = x"
  by (auto simp: clamp_def)

lemma round_px_close: "\<bar>round_px x - x\<bar> \<le> 1 / 2"
proof -
  have *: "\<bar>of_int \<lfloor>y + 1 / 2\<rfloor> - y\<bar> \<le> 1 / 2" for y :: 'a
  proof -
    have "of_int \<lfloor>y + 1 / 2\<rfloor> \<le> y + 1 / 2" "y + 1 / 2 < of_int \<lfloor>y + 1 / 2\<rfloor> + 1"
      using floor_correct[of "y + 1 / 2"] unfolding of_int_add of_int_1 by blast+
    then have "of_int \<lfloor>y + 1 / 2\<rfloor> - y \<le> 1 / 2" "- (of_int \<lfloor>y + 1 / 2\<rfloor> - y) \<le> 1 / 2" by linarith+
    then show ?thesis by (rule abs_leI)
  qed
  show ?thesis
  proof (cases "x < 0")
    case True
    then show ?thesis using *[of "- x"] by (simp add: round_px_def abs_minus_commute add.commute)
  qed (use *[of x] in \<open>simp add: round_px_def\<close>)
qed

end
