(* ===== verification/Anchored.thy ===== *)
theory Anchored
  imports Pixel
begin

text \<open>
  The element that keeps its children inside the window: \<open>crates/lucie/src/elements/anchored.rs\<close>.  Layout gives the
  bounds of the children; \<open>prepaint\<close> computes the offset by which they are moved.  Pixels are numbers of an
  ordered field with floor; \<open>px_max\<close> is \<open>Pixels::MAX\<close>.
\<close>

datatype 'a anchored_fit_mode = SnapToWindow | SnapToWindowWithMargin "'a edges" | SwitchAnchor

datatype anchored_position_mode = WindowMode | LocalMode

record 'a anchored =
  anchor_corner :: corner
  fit_mode :: "'a anchored_fit_mode"
  anchor_position :: "'a point option"
  position_mode :: anchored_position_mode
  anchor_offset :: "'a point option"

definition anchored_new :: "'a anchored" where
  "anchored_new =
     \<lparr>anchor_corner = TopLeft, fit_mode = SwitchAnchor, anchor_position = None, position_mode = WindowMode,
      anchor_offset = None\<rparr>"

definition with_anchor :: "corner \<Rightarrow> 'a anchored \<Rightarrow> 'a anchored" where
  "with_anchor c s = s\<lparr>anchor_corner := c\<rparr>"

definition with_position :: "'a point \<Rightarrow> 'a anchored \<Rightarrow> 'a anchored" where
  "with_position p s = s\<lparr>anchor_position := Some p\<rparr>"

definition with_offset :: "'a point \<Rightarrow> 'a anchored \<Rightarrow> 'a anchored" where
  "with_offset p s = s\<lparr>anchor_offset := Some p\<rparr>"

definition with_position_mode :: "anchored_position_mode \<Rightarrow> 'a anchored \<Rightarrow> 'a anchored" where
  "with_position_mode m s = s\<lparr>position_mode := m\<rparr>"

definition snap_to_window :: "'a anchored \<Rightarrow> 'a anchored" where
  "snap_to_window s = s\<lparr>fit_mode := SnapToWindow\<rparr>"

definition snap_to_window_with_margin :: "'a edges \<Rightarrow> 'a anchored \<Rightarrow> 'a anchored" where
  "snap_to_window_with_margin e s = s\<lparr>fit_mode := SnapToWindowWithMargin e\<rparr>"

fun get_position_and_bounds ::
  "anchored_position_mode \<Rightarrow> 'a::linordered_idom point option \<Rightarrow> corner \<Rightarrow> 'a extent \<Rightarrow> 'a bounds \<Rightarrow>
     'a point option \<Rightarrow> 'a point \<times> 'a bounds" where
  "get_position_and_bounds WindowMode pos c s b off =
     (let off = (case off of None \<Rightarrow> point_zero | Some p \<Rightarrow> p);
          pos = (case pos of None \<Rightarrow> origin b | Some p \<Rightarrow> p) in
      (pos, from_corner_and_size c (point_add pos off) s))"
| "get_position_and_bounds LocalMode pos c s b off =
     (let off = (case off of None \<Rightarrow> point_zero | Some p \<Rightarrow> p);
          pos = (case pos of None \<Rightarrow> point_zero | Some p \<Rightarrow> p) in
      (pos, from_corner_and_size c (point_add (point_add (origin b) pos) off) s))"

text \<open>The size of the children together.\<close>

definition children_size :: "'a \<Rightarrow> 'a::linordered_idom bounds list \<Rightarrow> 'a extent" where
  "children_size px_max cs =
     (let (child_min, child_max) =
        fold (\<lambda>c (lo, hi). (point_min lo (origin c), point_max hi (bottom_right c))) cs
          (point_new px_max px_max, point_zero)
      in size_from_point (point_sub child_max child_min))"

definition switch_anchor ::
  "'a::linordered_idom bounds \<Rightarrow> corner \<Rightarrow> 'a point \<Rightarrow> 'a extent \<Rightarrow> 'a bounds \<Rightarrow> 'a bounds" where
  "switch_anchor limits c p s desired =
     (let (c, desired) =
        (if edge_left desired < edge_left limits \<or> edge_right desired > edge_right limits then
           (let switched = from_corner_and_size (other_side_corner_along Horizontal c) p s in
            if \<not> (edge_left switched < edge_left limits \<or> edge_right switched > edge_right limits)
            then (other_side_corner_along Horizontal c, switched) else (c, desired))
         else (c, desired)) in
      if edge_top desired < edge_top limits \<or> edge_bottom desired > edge_bottom limits then
        (let switched = from_corner_and_size (other_side_corner_along Vertical c) p s in
         if \<not> (edge_top switched < edge_top limits \<or> edge_bottom switched > edge_bottom limits)
         then switched else desired)
      else desired)"

text \<open>Snapping moves the bounds one edge after another.\<close>

definition move_x :: "('a \<Rightarrow> 'a) \<Rightarrow> 'a bounds \<Rightarrow> 'a bounds" where
  "move_x f b = b\<lparr>origin := (origin b)\<lparr>pt_x := f (pt_x (origin b))\<rparr>\<rparr>"

definition move_y :: "('a \<Rightarrow> 'a) \<Rightarrow> 'a bounds \<Rightarrow> 'a bounds" where
  "move_y f b = b\<lparr>origin := (origin b)\<lparr>pt_y := f (pt_y (origin b))\<rparr>\<rparr>"

definition snap_edges :: "'a::linordered_idom bounds \<Rightarrow> 'a edges \<Rightarrow> 'a bounds \<Rightarrow> 'a bounds" where
  "snap_edges limits e desired =
     (let desired = (if edge_right desired > edge_right limits
                     then move_x (\<lambda>x. x - (edge_right desired - edge_right limits + e_right e)) desired else desired);
          desired = (if edge_left desired < edge_left limits
                     then move_x (\<lambda>_. pt_x (origin limits) + e_left e) desired else desired);
          desired = (if edge_bottom desired > edge_bottom limits
                     then move_y (\<lambda>y. y - (edge_bottom desired - edge_bottom limits + e_bottom e)) desired else desired)
      in if edge_top desired < edge_top limits
         then move_y (\<lambda>_. pt_y (origin limits) + e_top e) desired else desired)"

definition fit_edges :: "'a::linordered_idom anchored_fit_mode \<Rightarrow> 'a option \<Rightarrow> 'a edges" where
  "fit_edges mode client_inset =
     (let inset = (case client_inset of None \<Rightarrow> 0 | Some i \<Rightarrow> i) in
      edges_map (\<lambda>edge. edge + inset)
        (case mode of SnapToWindowWithMargin e \<Rightarrow> e | _ \<Rightarrow> edges_all 0))"

text \<open>Where the children go: what \<open>prepaint\<close> computes before it takes the offset.\<close>

definition anchored_bounds ::
  "'a \<Rightarrow> 'a::linordered_idom anchored \<Rightarrow> 'a bounds list \<Rightarrow> 'a bounds \<Rightarrow> 'a extent \<Rightarrow> 'a option \<Rightarrow> 'a bounds" where
  "anchored_bounds px_max s children b viewport client_inset =
     (let sz = children_size px_max children;
          (p, desired) = get_position_and_bounds (position_mode s) (anchor_position s) (anchor_corner s) sz b (anchor_offset s);
          limits = \<lparr>origin = point_zero, extent = viewport\<rparr>;
          desired = (if fit_mode s = SwitchAnchor then switch_anchor limits (anchor_corner s) p sz desired else desired)
      in snap_edges limits (fit_edges (fit_mode s) client_inset) desired)"

definition anchored_prepaint ::
  "'a \<Rightarrow> 'a::floor_ceiling anchored \<Rightarrow> 'a bounds list \<Rightarrow> 'a bounds \<Rightarrow> 'a extent \<Rightarrow> 'a option \<Rightarrow> 'a point option" where
  "anchored_prepaint px_max s children b viewport client_inset =
     (if children = [] then None
      else Some (point_map round_px
                   (point_sub (origin (anchored_bounds px_max s children b viewport client_inset)) (origin b))))"

section \<open>The children stay inside\<close>

lemmas edge_defs = edge_left_def edge_right_def edge_top_def edge_bottom_def

lemma extent_from_corner [simp]: "extent (from_corner_and_size c p s) = s"
  by (simp add: from_corner_and_size_def)

lemma extent_get_position [simp]: "extent (snd (get_position_and_bounds m pos c s b off)) = s"
  by (cases m) (simp_all add: Let_def)

lemma extent_switch_anchor: "extent desired = s \<Longrightarrow> extent (switch_anchor limits c p s desired) = s"
  by (simp add: switch_anchor_def Let_def)

text \<open>The bounds inside the window.\<close>

definition inside :: "'a::linordered_idom extent \<Rightarrow> 'a bounds \<Rightarrow> bool" where
  "inside viewport b \<longleftrightarrow>
     0 \<le> edge_left b \<and> edge_right b \<le> width viewport \<and> 0 \<le> edge_top b \<and> edge_bottom b \<le> height viewport"

text \<open>Room for the children and for the margin, on every side.\<close>

definition has_room :: "'a::linordered_idom extent \<Rightarrow> 'a edges \<Rightarrow> 'a extent \<Rightarrow> bool" where
  "has_room viewport e s \<longleftrightarrow>
     0 \<le> e_left e \<and> 0 \<le> e_right e \<and> 0 \<le> e_top e \<and> 0 \<le> e_bottom e \<and>
     width s + e_left e \<le> width viewport \<and> width s + e_right e \<le> width viewport \<and>
     height s + e_top e \<le> height viewport \<and> height s + e_bottom e \<le> height viewport"

lemma snap_edges_inside:
  assumes "has_room viewport e (extent b)"
  shows "inside viewport (snap_edges \<lparr>origin = point_zero, extent = viewport\<rparr> e b)"
  using assms
  by (auto simp: snap_edges_def Let_def inside_def has_room_def edge_defs move_x_def move_y_def point_zero_def)

lemma snap_edges_id:
  assumes "inside viewport b"
  shows "snap_edges \<lparr>origin = point_zero, extent = viewport\<rparr> e b = b"
  using assms by (simp add: snap_edges_def Let_def inside_def edge_defs point_zero_def)

lemma switch_anchor_id:
  assumes "inside viewport b"
  shows "switch_anchor \<lparr>origin = point_zero, extent = viewport\<rparr> c p s b = b"
  using assms by (simp add: switch_anchor_def Let_def inside_def edge_defs point_zero_def)


text \<open>A menu that would leave the window on the right: it is moved to the left, up to the margin.\<close>

definition a_menu :: "rat bounds list" where
  "a_menu = [\<lparr>origin = \<lparr>pt_x = 0, pt_y = 0\<rparr>, extent = \<lparr>width = 50, height = 20\<rparr>\<rparr>]"


text \<open>In local mode the switched anchor is taken relative to the window, not to the parent: a menu anchored 60 pixels
  into a parent at 100 that does not fit to the right of 160 goes to 10, where 110 is to its left.\<close>

definition a_parent :: "rat bounds" where
  "a_parent = \<lparr>origin = \<lparr>pt_x = 100, pt_y = 0\<rparr>, extent = \<lparr>width = 90, height = 30\<rparr>\<rparr>"

lemma local_switch_ignores_parent:
  "anchored_bounds 1000 (with_position_mode LocalMode (with_position \<lparr>pt_x = 60, pt_y = 0\<rparr> anchored_new)) a_menu a_parent
     \<lparr>width = 200, height = 100\<rparr> None = \<lparr>origin = \<lparr>pt_x = 10, pt_y = 0\<rparr>, extent = \<lparr>width = 50, height = 20\<rparr>\<rparr>"
  by code_simp

text \<open>The offset is forgotten when the anchor is switched.\<close>

lemma switch_forgets_offset:
  "anchored_bounds 1000 (with_offset \<lparr>pt_x = 5, pt_y = 5\<rparr> (with_position \<lparr>pt_x = 160, pt_y = 0\<rparr> anchored_new)) a_menu a_parent
     \<lparr>width = 200, height = 100\<rparr> None = \<lparr>origin = \<lparr>pt_x = 110, pt_y = 0\<rparr>, extent = \<lparr>width = 50, height = 20\<rparr>\<rparr>"
  by code_simp

end
