(* ===== verification/ScrollHandle.thy ===== *)
theory ScrollHandle
  imports Pixel Ordering
begin

text \<open>
  The scrolling of an element: the scroll handle, the clamping of the offset and the wheel listener of
  \<open>crates/lucie/src/elements/div.rs\<close>.  The offset is the distance from the element to its first child: it
  grows more negative as one scrolls down.  The cell of the offset is shared by the handle and the element; here
  it is a field of the state.
\<close>

datatype overflow = Visible | Clip | Hidden | Scroll

datatype scroll_strategy = FirstVisible | StrategyTop

record scroll_active_item =
  active_index :: nat
  active_strategy :: scroll_strategy

record 'a scroll_handle_state =
  scroll_offset :: "'a point"
  viewport :: "'a bounds"
  max_offset :: "'a extent"
  child_bounds :: "'a bounds list"
  to_bottom :: bool
  overflow_of :: "overflow point"
  active_item :: "scroll_active_item option"

definition scroll_handle_new :: "'a::linordered_idom scroll_handle_state" where
  "scroll_handle_new =
     \<lparr>scroll_offset = point_zero, viewport = \<lparr>origin = point_zero, extent = \<lparr>width = 0, height = 0\<rparr>\<rparr>,
      max_offset = \<lparr>width = 0, height = 0\<rparr>, child_bounds = [], to_bottom = False,
      overflow_of = \<lparr>pt_x = Visible, pt_y = Visible\<rparr>, active_item = None\<rparr>"

text \<open>Where a child stands to a height.\<close>

definition child_cmp :: "'a::linordered_idom \<Rightarrow> 'a bounds list \<Rightarrow> nat \<Rightarrow> ordering" where
  "child_cmp y cs i =
     (if y < edge_top (cs ! i) then Greater else if y > edge_bottom (cs ! i) then Less else Equal)"

definition item_at :: "'a::linordered_idom \<Rightarrow> 'a bounds list \<Rightarrow> nat" where
  "item_at y cs =
     (case binary_search_by (child_cmp y cs) (length cs) of
        Inr ix \<Rightarrow> ix
      | Inl ix \<Rightarrow> min ix (length cs - 1))"

definition top_item :: "'a::linordered_idom scroll_handle_state \<Rightarrow> nat" where
  "top_item s = item_at (edge_top (viewport s) - pt_y (scroll_offset s)) (child_bounds s)"

definition bottom_item :: "'a::linordered_idom scroll_handle_state \<Rightarrow> nat" where
  "bottom_item s = item_at (edge_bottom (viewport s) - pt_y (scroll_offset s)) (child_bounds s)"

definition child_bounds_for_item :: "nat \<Rightarrow> 'a scroll_handle_state \<Rightarrow> 'a bounds option" where
  "child_bounds_for_item ix s = nth_opt (child_bounds s) ix"

definition scroll_to_item :: "nat \<Rightarrow> 'a scroll_handle_state \<Rightarrow> 'a scroll_handle_state" where
  "scroll_to_item ix s = s\<lparr>active_item := Some \<lparr>active_index = ix, active_strategy = FirstVisible\<rparr>\<rparr>"

definition scroll_to_top_of_item :: "nat \<Rightarrow> 'a scroll_handle_state \<Rightarrow> 'a scroll_handle_state" where
  "scroll_to_top_of_item ix s = s\<lparr>active_item := Some \<lparr>active_index = ix, active_strategy = StrategyTop\<rparr>\<rparr>"

text \<open>One axis of \<open>scroll_to_active_item\<close>: the viewport and the child from their first to their last edge.\<close>

definition reveal_y :: "'a::linordered_idom bounds \<Rightarrow> 'a bounds \<Rightarrow> 'a \<Rightarrow> 'a" where
  "reveal_y view b y =
     (let child_height = height (extent b); viewport_height = height (extent view) in
      if child_height > viewport_height then edge_top view - edge_top b
      else if edge_top b + y < edge_top view then edge_top view - edge_top b
      else if edge_bottom b + y > edge_bottom view then edge_bottom view - edge_bottom b
      else y)"

definition reveal_x :: "'a::linordered_idom bounds \<Rightarrow> 'a bounds \<Rightarrow> 'a \<Rightarrow> 'a" where
  "reveal_x view b x =
     (let child_width = width (extent b); viewport_width = width (extent view) in
      if child_width > viewport_width then edge_left view - edge_left b
      else if edge_left b + x < edge_left view then edge_left view - edge_left b
      else if edge_right b + x > edge_right view then edge_right view - edge_right b
      else x)"

definition scroll_to_active_item :: "'a::linordered_idom scroll_handle_state \<Rightarrow> 'a scroll_handle_state" where
  "scroll_to_active_item s =
     (case active_item s of
        None \<Rightarrow> s
      | Some active \<Rightarrow>
          (case nth_opt (child_bounds s) (active_index active) of
             None \<Rightarrow> s
           | Some b \<Rightarrow>
               let off = scroll_offset s;
                   off = (case active_strategy active of
                       FirstVisible \<Rightarrow>
                         if pt_y (overflow_of s) = Scroll then off\<lparr>pt_y := reveal_y (viewport s) b (pt_y off)\<rparr> else off
                     | StrategyTop \<Rightarrow> off\<lparr>pt_y := edge_top (viewport s) - edge_top b\<rparr>);
                   off = (if pt_x (overflow_of s) = Scroll then off\<lparr>pt_x := reveal_x (viewport s) b (pt_x off)\<rparr> else off)
               in s\<lparr>scroll_offset := off, active_item := None\<rparr>))"

definition handle_scroll_to_bottom :: "'a scroll_handle_state \<Rightarrow> 'a scroll_handle_state" where
  "handle_scroll_to_bottom s = s\<lparr>to_bottom := True\<rparr>"

definition set_offset :: "'a point \<Rightarrow> 'a scroll_handle_state \<Rightarrow> 'a scroll_handle_state" where
  "set_offset p s = s\<lparr>scroll_offset := p\<rparr>"

definition handle_scroll_top :: "'a::linordered_idom scroll_handle_state \<Rightarrow> nat \<times> 'a" where
  "handle_scroll_top s =
     (let ix = top_item s in
      case nth_opt (child_bounds s) ix of
        Some b \<Rightarrow> (ix, edge_top b + pt_y (scroll_offset s) - edge_top (viewport s))
      | None \<Rightarrow> (ix, 0))"

definition handle_scroll_bottom :: "'a::linordered_idom scroll_handle_state \<Rightarrow> nat \<times> 'a" where
  "handle_scroll_bottom s =
     (let ix = bottom_item s in
      case nth_opt (child_bounds s) ix of
        Some b \<Rightarrow> (ix, edge_bottom b + pt_y (scroll_offset s) - edge_bottom (viewport s))
      | None \<Rightarrow> (ix, 0))"

definition children_count :: "'a scroll_handle_state \<Rightarrow> nat" where
  "children_count s = length (child_bounds s)"

section \<open>Clamping\<close>

definition round_to_two_decimals :: "'a::floor_ceiling \<Rightarrow> 'a" where
  "round_to_two_decimals x = round_px (x * 100) / 100"

definition scroll_max_of :: "'a::floor_ceiling extent \<Rightarrow> 'a edges \<Rightarrow> 'a bounds \<Rightarrow> 'a extent" where
  "scroll_max_of content padding b =
     (let padding_size = size_new (e_left padding + e_right padding) (e_top padding + e_bottom padding);
          padded_content = size_add content padding_size
      in size_max (size_map round_to_two_decimals (size_sub padded_content (extent b))) \<lparr>width = 0, height = 0\<rparr>)"

text \<open>\<open>Interactivity::clamp_scroll_position\<close>, for an element that tracks a scroll handle.\<close>

definition clamp_scroll_position ::
  "overflow point \<Rightarrow> 'a::floor_ceiling extent \<Rightarrow> 'a edges \<Rightarrow> 'a bounds \<Rightarrow> 'a scroll_handle_state \<Rightarrow> 'a scroll_handle_state" where
  "clamp_scroll_position style_overflow content padding b s =
     (let scroll_to_bottom = to_bottom s;
          scroll_max = scroll_max_of content padding b;
          off = scroll_offset s;
          off = off\<lparr>pt_x := clamp (- width scroll_max) 0 (pt_x off)\<rparr>;
          off = (if scroll_to_bottom then off\<lparr>pt_y := - height scroll_max\<rparr>
                 else off\<lparr>pt_y := clamp (- height scroll_max) 0 (pt_y off)\<rparr>)
      in s\<lparr>overflow_of := style_overflow, to_bottom := False, max_offset := scroll_max, viewport := b, scroll_offset := off\<rparr>)"

section \<open>The wheel\<close>

text \<open>The listener of \<open>paint_scroll_listener\<close>, in the bubble phase over the hitbox: the new offset, and whether the view is
  notified.\<close>

definition wheel_deltas :: "overflow point \<Rightarrow> bool \<Rightarrow> bool \<Rightarrow> 'a::linordered_idom point \<Rightarrow> 'a point" where
  "wheel_deltas ov allow_concurrent_scroll restrict_scroll_to_axis delta =
     (let delta_x = (if pt_x ov = Scroll then
            (if pt_x delta \<noteq> 0 then pt_x delta
             else if \<not> restrict_scroll_to_axis \<and> pt_y ov \<noteq> Scroll then pt_y delta else 0) else 0);
          delta_y = (if pt_y ov = Scroll then
            (if pt_y delta \<noteq> 0 then pt_y delta
             else if \<not> restrict_scroll_to_axis \<and> pt_x ov \<noteq> Scroll then pt_x delta else 0) else 0)
      in if \<not> allow_concurrent_scroll \<and> delta_x \<noteq> 0 \<and> delta_y \<noteq> 0 then
           (if \<bar>delta_x\<bar> > \<bar>delta_y\<bar> then \<lparr>pt_x = delta_x, pt_y = 0\<rparr> else \<lparr>pt_x = 0, pt_y = delta_y\<rparr>)
         else \<lparr>pt_x = delta_x, pt_y = delta_y\<rparr>)"

definition scroll_wheel ::
  "overflow point \<Rightarrow> bool \<Rightarrow> bool \<Rightarrow> 'a::linordered_idom point \<Rightarrow> 'a scroll_handle_state \<Rightarrow> 'a scroll_handle_state \<times> bool" where
  "scroll_wheel ov allow_concurrent_scroll restrict_scroll_to_axis delta s =
     (let old = scroll_offset s;
          off = point_add old (wheel_deltas ov allow_concurrent_scroll restrict_scroll_to_axis delta)
      in (s\<lparr>scroll_offset := off\<rparr>, off \<noteq> old))"

section \<open>What the handle promises\<close>

text \<open>Children one below another.\<close>

definition stacked :: "'a::linordered_idom bounds list \<Rightarrow> bool" where
  "stacked cs \<longleftrightarrow> (\<forall>c \<in> set cs. 0 \<le> height (extent c)) \<and> sorted_wrt (\<lambda>c d. edge_bottom c \<le> edge_top d) cs"

lemma stacked_nth:
  "stacked cs \<Longrightarrow> i < j \<Longrightarrow> j < length cs \<Longrightarrow> edge_bottom (cs ! i) \<le> edge_top (cs ! j)"
  "stacked cs \<Longrightarrow> i < length cs \<Longrightarrow> edge_top (cs ! i) \<le> edge_bottom (cs ! i)"
  by (auto simp: stacked_def sorted_wrt_iff_nth_less edge_top_def edge_bottom_def)

lemma child_cmp_ordered: "stacked cs \<Longrightarrow> ordered_by (child_cmp y cs) (length cs)"
  unfolding ordered_by_def
proof (intro allI impI)
  fix i j assume st: "stacked cs" and ij: "i < j" "j < length cs"
  then have "edge_bottom (cs ! i) \<le> edge_top (cs ! j)" "edge_top (cs ! i) \<le> edge_bottom (cs ! i)"
      "edge_top (cs ! j) \<le> edge_bottom (cs ! j)"
    using stacked_nth[OF st] by simp_all
  then show "(child_cmp y cs j = Less \<longrightarrow> child_cmp y cs i = Less) \<and> (child_cmp y cs i = Greater \<longrightarrow> child_cmp y cs j = Greater)"
    by (auto simp: child_cmp_def)
qed

lemma item_at_spec:
  assumes "stacked cs" "cs \<noteq> []"
  shows "item_at y cs < length cs" "\<forall>j < item_at y cs. edge_bottom (cs ! j) \<le> y"
    "\<forall>j < length cs. item_at y cs < j \<longrightarrow> y \<le> edge_top (cs ! j)"
proof -
  let ?f = "child_cmp y cs" and ?n = "length cs"
  note spec = binary_search_by_spec[OF child_cmp_ordered[OF assms(1)], of y]
  have "item_at y cs < ?n \<and> (\<forall>j < item_at y cs. edge_bottom (cs ! j) \<le> y) \<and>
    (\<forall>j < ?n. item_at y cs < j \<longrightarrow> y \<le> edge_top (cs ! j))"
  proof (cases "binary_search_by ?f ?n")
    case (Inr i)
    then have i: "item_at y cs = i" "i < ?n" "edge_top (cs ! i) \<le> y" "y \<le> edge_bottom (cs ! i)"
      using spec by (auto simp: item_at_def child_cmp_def split: if_splits)
    then show ?thesis using stacked_nth(1)[OF assms(1)] by (auto intro: order.trans)
  next
    case (Inl i)
    have less: "edge_bottom (cs ! j) \<le> y" if "j < i" for j
    proof -
      have "child_cmp y cs j = Less" using spec Inl that by simp
      then show ?thesis by (simp add: child_cmp_def split: if_splits)
    qed
    have greater: "y \<le> edge_top (cs ! j)" if "j < ?n" "i \<le> j" for j
    proof -
      have "child_cmp y cs j = Greater" using spec Inl that by simp
      then show ?thesis by (simp add: child_cmp_def split: if_splits)
    qed
    have at: "item_at y cs = min i (?n - 1)" by (simp add: item_at_def Inl)
    have "0 < ?n" using assms(2) by blast
    then have lt: "item_at y cs < ?n" "item_at y cs \<le> i" unfolding at by linarith+
    have "i \<le> j" if "j < ?n" "item_at y cs < j" for j
      using that unfolding at by (simp add: min_def split: if_splits)
    then show ?thesis using lt less greater by simp
  qed
  then show "item_at y cs < ?n" "\<forall>j < item_at y cs. edge_bottom (cs ! j) \<le> y"
    "\<forall>j < ?n. item_at y cs < j \<longrightarrow> y \<le> edge_top (cs ! j)" by blast+
qed

lemma reveal_y_shows:
  "height (extent b) \<le> height (extent view) \<Longrightarrow>
     edge_top view \<le> edge_top b + reveal_y view b y \<and> edge_bottom b + reveal_y view b y \<le> edge_bottom view"
  by (auto simp: reveal_y_def Let_def edge_top_def edge_bottom_def)

lemma reveal_y_keeps:
  "height (extent b) \<le> height (extent view) \<Longrightarrow> edge_top view \<le> edge_top b + y \<Longrightarrow> edge_bottom b + y \<le> edge_bottom view \<Longrightarrow>
     reveal_y view b y = y"
  by (auto simp: reveal_y_def Let_def)

lemma reveal_x_shows:
  "width (extent b) \<le> width (extent view) \<Longrightarrow>
     edge_left view \<le> edge_left b + reveal_x view b x \<and> edge_right b + reveal_x view b x \<le> edge_right view"
  by (auto simp: reveal_x_def Let_def edge_left_def edge_right_def)

lemma reveal_x_keeps:
  "width (extent b) \<le> width (extent view) \<Longrightarrow> edge_left view \<le> edge_left b + x \<Longrightarrow> edge_right b + x \<le> edge_right view \<Longrightarrow>
     reveal_x view b x = x"
  by (auto simp: reveal_x_def Let_def)

text \<open>The child as it is drawn with the offset.\<close>

definition shown_at :: "'a::linordered_idom bounds \<Rightarrow> 'a point \<Rightarrow> 'a bounds" where
  "shown_at b p = bounds_add b p"

definition within_y :: "'a::linordered_idom bounds \<Rightarrow> 'a bounds \<Rightarrow> bool" where
  "within_y b view \<longleftrightarrow> edge_top view \<le> edge_top b \<and> edge_bottom b \<le> edge_bottom view"

definition within_x :: "'a::linordered_idom bounds \<Rightarrow> 'a bounds \<Rightarrow> bool" where
  "within_x b view \<longleftrightarrow> edge_left view \<le> edge_left b \<and> edge_right b \<le> edge_right view"

lemmas shown_defs = shown_at_def within_y_def within_x_def bounds_add_def point_add_def
  edge_top_def edge_bottom_def edge_left_def edge_right_def


text \<open>A list of three children in a viewport of two.\<close>

definition three_children :: "rat scroll_handle_state" where
  "three_children = scroll_handle_new
     \<lparr>viewport := \<lparr>origin = \<lparr>pt_x = 0, pt_y = 10\<rparr>, extent = \<lparr>width = 50, height = 40\<rparr>\<rparr>,
      child_bounds := map (\<lambda>i. \<lparr>origin = \<lparr>pt_x = 0, pt_y = 10 + 20 * of_nat i\<rparr>, extent = \<lparr>width = 50, height = 20\<rparr>\<rparr>) [0..<3],
      overflow_of := \<lparr>pt_x = Visible, pt_y = Scroll\<rparr>\<rparr>"


text \<open>Clamping keeps the offset between the end of the content and its start on both axes, goes to the end if that was
  asked for, and changes nothing that is in this range already.\<close>

lemma clamp_scroll_position_bounds:
  fixes s :: "'a::floor_ceiling scroll_handle_state" and b :: "'a bounds" and padding :: "'a edges" and content :: "'a extent"
    and ov :: "overflow point"
  defines "s' \<equiv> clamp_scroll_position ov content padding b s"
  shows "- width (max_offset s') \<le> pt_x (scroll_offset s') \<and> pt_x (scroll_offset s') \<le> 0"
    "- height (max_offset s') \<le> pt_y (scroll_offset s') \<and> pt_y (scroll_offset s') \<le> 0"
    "to_bottom s \<Longrightarrow> pt_y (scroll_offset s') = - height (max_offset s')"
    "\<not> to_bottom s \<Longrightarrow> - height (max_offset s') \<le> pt_y (scroll_offset s) \<Longrightarrow> pt_y (scroll_offset s) \<le> 0 \<Longrightarrow>
       pt_y (scroll_offset s') = pt_y (scroll_offset s)"
    "\<not> to_bottom s'"
proof -
  have "0 \<le> width (scroll_max_of content padding b)" "0 \<le> height (scroll_max_of content padding b)"
    by (simp_all add: scroll_max_of_def size_max_def Let_def)
  then show "- width (max_offset s') \<le> pt_x (scroll_offset s') \<and> pt_x (scroll_offset s') \<le> 0"
    "- height (max_offset s') \<le> pt_y (scroll_offset s') \<and> pt_y (scroll_offset s') \<le> 0"
    "to_bottom s \<Longrightarrow> pt_y (scroll_offset s') = - height (max_offset s')"
    "\<not> to_bottom s \<Longrightarrow> - height (max_offset s') \<le> pt_y (scroll_offset s) \<Longrightarrow> pt_y (scroll_offset s) \<le> 0 \<Longrightarrow>
       pt_y (scroll_offset s') = pt_y (scroll_offset s)"
    "\<not> to_bottom s'"
    by (auto simp: s'_def clamp_scroll_position_def Let_def clamp_def)
qed

end
