(* ===== verification/UniformList.thy ===== *)
theory UniformList
  imports ScrollHandle
begin

text \<open>
  Lists of items of one height: \<open>crates/lucie/src/elements/uniform_list.rs\<close>.  \<open>prepaint\<close> settles the scroll offset,
  serves a pending request to scroll to an item and renders the items that can be seen.  Indices are \<open>usize\<close>: the
  one addition that can overflow is checked, and \<open>None\<close> is its panic.
\<close>

definition usize_max :: nat where
  "usize_max = 2 ^ 64 - 1"

datatype uniform_strategy = Top | Center | Bottom | Nearest

record deferred_scroll_to_item =
  item_index :: nat
  strategy :: uniform_strategy
  offset_items :: nat
  scroll_strict :: bool

record 'a item_size =
  size_item :: "'a extent"
  size_contents :: "'a extent"

record 'a uniform_list_scroll_state =
  base_handle :: "'a scroll_handle_state"
  deferred :: "deferred_scroll_to_item option"
  last_item_size :: "'a item_size option"
  y_flipped :: bool

definition uniform_handle_new :: "'a::linordered_idom uniform_list_scroll_state" where
  "uniform_handle_new = \<lparr>base_handle = scroll_handle_new, deferred = None, last_item_size = None, y_flipped = False\<rparr>"

definition uniform_scroll_to_item :: "nat \<Rightarrow> uniform_strategy \<Rightarrow> 'a uniform_list_scroll_state \<Rightarrow> 'a uniform_list_scroll_state" where
  "uniform_scroll_to_item ix st s =
     s\<lparr>deferred := Some \<lparr>item_index = ix, strategy = st, offset_items = 0, scroll_strict = False\<rparr>\<rparr>"

definition uniform_scroll_to_item_strict :: "nat \<Rightarrow> uniform_strategy \<Rightarrow> 'a uniform_list_scroll_state \<Rightarrow> 'a uniform_list_scroll_state" where
  "uniform_scroll_to_item_strict ix st s =
     s\<lparr>deferred := Some \<lparr>item_index = ix, strategy = st, offset_items = 0, scroll_strict = True\<rparr>\<rparr>"

definition uniform_scroll_to_item_with_offset ::
  "nat \<Rightarrow> uniform_strategy \<Rightarrow> nat \<Rightarrow> 'a uniform_list_scroll_state \<Rightarrow> 'a uniform_list_scroll_state" where
  "uniform_scroll_to_item_with_offset ix st off s =
     s\<lparr>deferred := Some \<lparr>item_index = ix, strategy = st, offset_items = off, scroll_strict = False\<rparr>\<rparr>"

definition uniform_scroll_to_item_strict_with_offset ::
  "nat \<Rightarrow> uniform_strategy \<Rightarrow> nat \<Rightarrow> 'a uniform_list_scroll_state \<Rightarrow> 'a uniform_list_scroll_state" where
  "uniform_scroll_to_item_strict_with_offset ix st off s =
     s\<lparr>deferred := Some \<lparr>item_index = ix, strategy = st, offset_items = off, scroll_strict = True\<rparr>\<rparr>"

definition is_scrollable :: "'a::linordered_idom uniform_list_scroll_state \<Rightarrow> bool" where
  "is_scrollable s =
     (case last_item_size s of Some sz \<Rightarrow> height (size_contents sz) > height (size_item sz) | None \<Rightarrow> False)"

definition uniform_scroll_to_bottom :: "'a uniform_list_scroll_state \<Rightarrow> 'a uniform_list_scroll_state" where
  "uniform_scroll_to_bottom s = uniform_scroll_to_item usize_max Bottom s"

text \<open>\<open>UniformList::y_flipped\<close>, which turns the list over; \<open>px_min\<close> is \<open>Pixels::MIN\<close>.\<close>

definition set_y_flipped :: "'a \<Rightarrow> bool \<Rightarrow> 'a::linordered_idom uniform_list_scroll_state \<Rightarrow> 'a uniform_list_scroll_state" where
  "set_y_flipped px_min flipped s =
     (let h = base_handle s; off = scroll_offset h in
      case last_item_size s of
        Some last_size \<Rightarrow>
          if y_flipped s \<noteq> flipped then
            let new_y = - (pt_y off + height (size_contents last_size) - height (size_item last_size)) in
            s\<lparr>base_handle := set_offset \<lparr>pt_x = pt_x off, pt_y = new_y\<rparr> h, y_flipped := flipped\<rparr>
          else s
      | None \<Rightarrow>
          if flipped then s\<lparr>base_handle := set_offset \<lparr>pt_x = pt_x off, pt_y = px_min\<rparr> h, y_flipped := flipped\<rparr> else s)"

section \<open>Layout\<close>

datatype 'a available_space = Definite 'a | MinContent | MaxContent

text \<open>The size that \<open>request_layout\<close> gives a list whose sizing is inferred.\<close>

definition inferred_size ::
  "nat \<Rightarrow> 'a::linordered_idom extent \<Rightarrow> 'a option \<Rightarrow> 'a available_space \<Rightarrow> 'a available_space \<Rightarrow> 'a extent" where
  "inferred_size max_items item known_width avail_width avail_height =
     (let desired_height = height item * of_nat max_items;
          w = (case known_width of Some w \<Rightarrow> w
               | None \<Rightarrow> (case avail_width of Definite x \<Rightarrow> x | _ \<Rightarrow> width item));
          h = (case avail_height of Definite h \<Rightarrow> min desired_height h | _ \<Rightarrow> desired_height)
      in size_new w h)"

section \<open>Prepaint\<close>

text \<open>The padded bounds of the list, and its content.\<close>

definition padded_bounds_of :: "'a::linordered_idom bounds \<Rightarrow> 'a edges \<Rightarrow> 'a edges \<Rightarrow> 'a bounds" where
  "padded_bounds_of b border padding =
     from_corners
       (point_add (origin b) (point_new (e_left border + e_left padding) (e_top border + e_top padding)))
       (point_sub (bottom_right b) (point_new (e_right border + e_right padding) (e_bottom border + e_bottom padding)))"

definition content_size_of :: "bool \<Rightarrow> nat \<Rightarrow> 'a::linordered_idom extent \<Rightarrow> 'a bounds \<Rightarrow> 'a extent" where
  "content_size_of can_scroll_horizontally item_count longest padded =
     \<lparr>width = (if can_scroll_horizontally then max (width (extent padded)) (width longest) else width (extent padded)),
      height = height longest * of_nat item_count\<rparr>"

text \<open>The offset is brought back when the content is smaller than it was.\<close>

definition settle_offset ::
  "bool \<Rightarrow> 'a::linordered_idom bounds \<Rightarrow> 'a edges \<Rightarrow> 'a extent \<Rightarrow> 'a point \<Rightarrow> 'a point" where
  "settle_offset can_scroll_horizontally padded padding content off =
     (let max_scroll_offset = height (extent padded) - height content;
          off = (if pt_y off \<noteq> 0 \<and> pt_y off < max_scroll_offset then off\<lparr>pt_y := max_scroll_offset\<rparr> else off);
          content_width = width content + e_left padding + e_right padding
      in if (can_scroll_horizontally \<and> pt_x off \<noteq> 0) \<and> content_width \<le> width (extent padded)
         then off\<lparr>pt_x := 0\<rparr> else off)"

text \<open>The item that a request is about: counted from the other end in a flipped list.\<close>

definition requested_index :: "bool \<Rightarrow> nat \<Rightarrow> nat \<Rightarrow> nat option" where
  "requested_index flipped item_count ix =
     (if flipped then (if ix + 1 > usize_max then None else Some (item_count - (ix + 1))) else Some ix)"

definition serve_request ::
  "nat \<Rightarrow> 'a::linordered_field \<Rightarrow> 'a \<Rightarrow> bool \<Rightarrow> deferred_scroll_to_item \<Rightarrow> 'a \<Rightarrow> 'a option" where
  "serve_request item_count item_height list_height flipped d y = do {
     ix \<leftarrow> requested_index flipped item_count (item_index d);
     let content_height = item_height * of_nat item_count;
     let item_top = item_height * of_nat ix;
     let item_bottom = item_top + item_height;
     let scroll_top = - y;
     let offset_pixels = item_height * of_nat (offset_items d);
     let is_above = item_top < scroll_top + offset_pixels;
     let is_below = item_bottom > scroll_top + list_height;
     Some (if scroll_strict d \<or> is_above \<or> is_below then
        let st = (if strategy d = Nearest then if is_above then Top else if is_below then Bottom else strategy d else strategy d);
            max_scroll_offset = max (content_height - list_height) 0
        in (case st of
              Top \<Rightarrow> - clamp 0 max_scroll_offset (item_top - offset_pixels)
            | Center \<Rightarrow>
                (let item_center = item_top + item_height / 2;
                     viewport_height = list_height - offset_pixels;
                     viewport_center = offset_pixels + viewport_height / 2;
                     target_scroll_top = item_center - viewport_center
                 in - clamp 0 max_scroll_offset target_scroll_top)
            | Bottom \<Rightarrow> - clamp 0 max_scroll_offset (item_bottom - list_height)
            | Nearest \<Rightarrow> y)
      else y) }"

definition visible_items :: "nat \<Rightarrow> 'a::floor_ceiling \<Rightarrow> 'a \<Rightarrow> 'a \<Rightarrow> 'a \<Rightarrow> nat \<times> nat" where
  "visible_items item_count item_height list_height padding_top y =
     (let first = as_usize (of_int \<lfloor>- (y + padding_top) / item_height\<rfloor> :: 'a);
          last_ix = as_usize (of_int \<lceil>(- y + list_height) / item_height\<rceil> :: 'a)
      in (first, min last_ix item_count))"

text \<open>The items that are rendered, by their places from the first visible one on: in a flipped list the range is
  mirrored and what it renders is reversed.\<close>

definition rendered_items :: "bool \<Rightarrow> nat \<Rightarrow> nat \<times> nat \<Rightarrow> nat list" where
  "rendered_items flipped item_count r =
     (if flipped then rev [item_count - snd r ..< item_count - fst r] else [fst r ..< snd r])"

text \<open>\<open>prepaint\<close> of a list that is not empty: the offset it ends with, and the items with their places, each with its
  origin.\<close>

definition uniform_prepaint ::
  "bool \<Rightarrow> nat \<Rightarrow> 'a::floor_ceiling extent \<Rightarrow> 'a bounds \<Rightarrow> 'a edges \<Rightarrow> bool \<Rightarrow> deferred_scroll_to_item option \<Rightarrow> 'a point \<Rightarrow>
     ('a point \<times> (nat \<times> nat \<times> 'a point) list) option" where
  "uniform_prepaint can_scroll_horizontally item_count longest padded padding flipped request off = do {
     let content = content_size_of can_scroll_horizontally item_count longest padded;
     let item_height = height longest;
     let list_height = height (extent padded);
     let off = settle_offset can_scroll_horizontally padded padding content off;
     off \<leftarrow> (case request of
               None \<Rightarrow> Some off
             | Some d \<Rightarrow> map_option (\<lambda>y. off\<lparr>pt_y := y\<rparr>) (serve_request item_count item_height list_height flipped d (pt_y off)));
     let r = visible_items item_count item_height list_height (e_top padding) (pt_y off);
     Some (off, map (\<lambda>(item, ix). (item, ix, point_add (point_add (origin padded) off) (point_new 0 (item_height * of_nat ix))))
                  (zip (rendered_items flipped item_count r) [fst r ..< snd r])) }"

section \<open>What is seen\<close>

text \<open>The part of the list at which the item at a place stands, from the top of the padded bounds.\<close>

lemma visible_items_iff:
  assumes "0 < h"
  shows "ix < snd (visible_items n h H p y) \<longleftrightarrow> ix < n \<and> h * of_nat ix + y < H"
    "fst (visible_items n h H p y) \<le> ix \<longleftrightarrow> 0 < h * of_nat (Suc ix) + y + p"
proof -
  have "ix < as_usize (of_int \<lceil>(- y + H) / h\<rceil> :: 'a) \<longleftrightarrow> of_int (int ix) < (- y + H) / h"
    by (simp add: as_usize_def zless_nat_eq_int_zless less_ceiling_iff)
  also have "\<dots> \<longleftrightarrow> h * of_nat ix + y < H" using assms by (simp add: pos_less_divide_eq algebra_simps)
  finally show "ix < snd (visible_items n h H p y) \<longleftrightarrow> ix < n \<and> h * of_nat ix + y < H"
    by (auto simp: visible_items_def Let_def)
  have "as_usize (of_int \<lfloor>- (y + p) / h\<rfloor> :: 'a) \<le> ix \<longleftrightarrow> \<lfloor>- (y + p) / h\<rfloor> < int ix + 1"
    by (simp add: as_usize_def nat_le_iff)
  also have "\<dots> \<longleftrightarrow> - (y + p) / h < of_int (int ix + 1)" by (rule floor_less_iff)
  also have "\<dots> \<longleftrightarrow> - (y + p) < of_nat (Suc ix) * h" using assms by (simp add: pos_divide_less_eq algebra_simps)
  also have "\<dots> \<longleftrightarrow> 0 < h * of_nat (Suc ix) + y + p" by (auto simp: algebra_simps)
  finally show "fst (visible_items n h H p y) \<le> ix \<longleftrightarrow> 0 < h * of_nat (Suc ix) + y + p"
    by (simp add: visible_items_def Let_def)
qed

lemma serve_request_shows:
  assumes "requested_index flipped n (item_index d) = Some ix" "ix < n" "offset_items d = 0" "0 < h" "h \<le> H"
  shows "\<exists>y'. serve_request n h H flipped d y = Some y' \<and> 0 \<le> h * of_nat ix + y' \<and> h * of_nat ix + h + y' \<le> H"
proof -
  let ?t = "h * of_nat ix" and ?c = "h * of_nat n"
  have t: "0 \<le> ?t" using assms(4) by simp
  have "?t + h = h * of_nat (Suc ix)" by (simp add: algebra_simps)
  also have "\<dots> \<le> ?c" using assms(2,4) by (intro mult_left_mono) (simp_all del: of_nat_Suc)
  finally have c: "?t + h \<le> ?c" .
  show ?thesis
  proof (cases "scroll_strict d \<or> ?t < - y \<or> ?t + h > - y + H")
    case False
    then show ?thesis using assms(1,3) by (simp add: serve_request_def)
  next
    case True
    have half: "h / 2 + h / 2 = h" "H / 2 + H / 2 = H" by simp_all
    show ?thesis
      using True assms(1,3,4,5) t c half
      by (cases "strategy d") (auto simp: serve_request_def clamp_def max_def Let_def)
  qed
qed

lemma serve_request_Some: "item_index d < usize_max \<Longrightarrow> \<exists>y'. serve_request n h H flipped d y = Some y'"
  by (simp add: serve_request_def requested_index_def Let_def)

lemma in_zip_upt:
  "length xs = j - i \<Longrightarrow> (x, k) \<in> set (zip xs [i..<j]) \<longleftrightarrow> i \<le> k \<and> k < j \<and> x = xs ! (k - i)"
  by (auto simp: in_set_zip intro!: exI[of _ "k - i"])

lemma in_map_triple: "(a, b, c) \<in> set (map (\<lambda>(a, b). (a, b, g b)) zs) \<longleftrightarrow> (a, b) \<in> set zs \<and> c = g b"
  by (force simp: image_iff)

lemma rendered_items_props:
  assumes "j \<le> n"
  shows "length (rendered_items flipped n (i, j)) = j - i"
    "i \<le> k \<Longrightarrow> k < j \<Longrightarrow> rendered_items flipped n (i, j) ! (k - i) = (if flipped then n - 1 - k else k)"
  using assms by (auto simp: rendered_items_def rev_nth)



text \<open>\<open>scroll_to_bottom\<close> asks for the index \<open>usize::MAX\<close>, which a flipped list cannot count from its other end: the
  addition overflows.\<close>

lemma scroll_to_bottom_flipped_panics:
  assumes "deferred (uniform_scroll_to_bottom s) = Some d"
  shows "uniform_prepaint can_h n longest padded padding True (Some d) off0 = None"
  using assms
  by (auto simp: uniform_scroll_to_bottom_def uniform_scroll_to_item_def uniform_prepaint_def serve_request_def requested_index_def Let_def)

end
