(* ===== verification/WindowTabs.thy ===== *)
theory WindowTabs
  imports Prelude "HOL-Library.Multiset"
begin

text \<open>
  The groups of window tabs of the application: \<open>SystemWindowTabController\<close> of \<open>crates/lucie/src/app.rs\<close>.  A group is
  a list of tabs under a number, in a hash map; the order in which the map is walked is the argument
  \<open>order\<close>, a list of its keys without repetition.  A window handle is an opaque value.
\<close>

record 'h system_window_tab =
  tab_id :: nat
  title :: string
  handle :: 'h
  last_active_at :: nat

record 'h tab_controller =
  tabs_visible :: "bool option"
  tab_groups :: "nat \<Rightarrow> 'h system_window_tab list option"

definition tab_controller_new :: "'h tab_controller" where
  "tab_controller_new = \<lparr>tabs_visible = None, tab_groups = (\<lambda>_. None)\<rparr>"

text \<open>The groups as they are walked.\<close>

definition groups_in :: "nat list \<Rightarrow> 'h tab_controller \<Rightarrow> 'h system_window_tab list list" where
  "groups_in order c = List.map_filter (tab_groups c) order"

definition has_tab :: "nat \<Rightarrow> 'h system_window_tab list \<Rightarrow> bool" where
  "has_tab i tabs \<longleftrightarrow> list_ex (\<lambda>tab. tab_id tab = i) tabs"

definition tabs_of :: "nat list \<Rightarrow> nat \<Rightarrow> 'h tab_controller \<Rightarrow> 'h system_window_tab list option" where
  "tabs_of order i c = find (has_tab i) (groups_in order c)"

text \<open>\<open>Iterator::position\<close>, and the last of the tabs that were active last.\<close>

fun position_of :: "('a \<Rightarrow> bool) \<Rightarrow> 'a list \<Rightarrow> nat option" where
  "position_of P [] = None"
| "position_of P (x # xs) = (if P x then Some 0 else map_option Suc (position_of P xs))"

fun max_by_last_active :: "'h system_window_tab list \<Rightarrow> 'h system_window_tab option" where
  "max_by_last_active [] = None"
| "max_by_last_active (t # ts) =
     Some (fold (\<lambda>u best. if last_active_at best > last_active_at u then best else u) ts t)"

text \<open>The group next to that of a window, in walking order and around: the handle of its most recent tab.\<close>

definition group_window :: "(nat \<Rightarrow> nat \<Rightarrow> nat) \<Rightarrow> nat list \<Rightarrow> nat \<Rightarrow> 'h tab_controller \<Rightarrow> 'h option" where
  "group_window step order i c = do {
     current_group \<leftarrow> find (\<lambda>g. case tab_groups c g of None \<Rightarrow> False | Some tabs \<Rightarrow> has_tab i tabs) order;
     idx \<leftarrow> position_of (\<lambda>g. g = current_group) order;
     tabs \<leftarrow> tab_groups c (order ! step idx (length order));
     map_option handle (case max_by_last_active tabs of None \<Rightarrow> (case tabs of [] \<Rightarrow> None | t # _ \<Rightarrow> Some t) | Some t \<Rightarrow> Some t) }"

definition step_next :: "nat \<Rightarrow> nat \<Rightarrow> nat" where
  "step_next idx n = (idx + 1) mod n"

definition step_prev :: "nat \<Rightarrow> nat \<Rightarrow> nat" where
  "step_prev idx n = (if idx = 0 then n - 1 else idx - 1)"

definition get_next_tab_group_window :: "nat list \<Rightarrow> nat \<Rightarrow> 'h tab_controller \<Rightarrow> 'h option" where
  "get_next_tab_group_window = group_window step_next"

definition get_prev_tab_group_window :: "nat list \<Rightarrow> nat \<Rightarrow> 'h tab_controller \<Rightarrow> 'h option" where
  "get_prev_tab_group_window = group_window step_prev"

definition init_visible :: "bool \<Rightarrow> 'h tab_controller \<Rightarrow> 'h tab_controller" where
  "init_visible v c = (if tabs_visible c = None then c\<lparr>tabs_visible := Some v\<rparr> else c)"

definition tabs_is_visible :: "'h tab_controller \<Rightarrow> bool" where
  "tabs_is_visible c = (case tabs_visible c of None \<Rightarrow> False | Some v \<Rightarrow> v)"

definition set_visible :: "bool \<Rightarrow> 'h tab_controller \<Rightarrow> 'h tab_controller" where
  "set_visible v c = c\<lparr>tabs_visible := Some v\<rparr>"

definition map_groups ::
  "('h system_window_tab list \<Rightarrow> 'h system_window_tab list) \<Rightarrow> 'h tab_controller \<Rightarrow> 'h tab_controller" where
  "map_groups f c = c\<lparr>tab_groups := map_option f \<circ> tab_groups c\<rparr>"

definition update_last_active :: "nat \<Rightarrow> nat \<Rightarrow> 'h tab_controller \<Rightarrow> 'h tab_controller" where
  "update_last_active now i c =
     map_groups (map (\<lambda>tab. if tab_id tab = i then tab\<lparr>last_active_at := now\<rparr> else tab)) c"

text \<open>\<open>Vec::remove\<close> and \<open>Vec::insert\<close>.\<close>

definition vec_remove :: "nat \<Rightarrow> 'a list \<Rightarrow> 'a list" where
  "vec_remove i xs = take i xs @ drop (Suc i) xs"

definition vec_insert :: "nat \<Rightarrow> 'a \<Rightarrow> 'a list \<Rightarrow> 'a list" where
  "vec_insert i x xs = take i xs @ x # drop i xs"

fun update_tab_position :: "nat list \<Rightarrow> nat \<Rightarrow> nat \<Rightarrow> 'h tab_controller \<Rightarrow> 'h tab_controller" where
  "update_tab_position [] i ix c = c"
| "update_tab_position (g # gs) i ix c =
     (case tab_groups c g of
        None \<Rightarrow> update_tab_position gs i ix c
      | Some windows \<Rightarrow>
          (case position_of (\<lambda>tab. tab_id tab = i) windows of
             None \<Rightarrow> update_tab_position gs i ix c
           | Some current_pos \<Rightarrow>
               if ix < length windows \<and> current_pos \<noteq> ix
               then c\<lparr>tab_groups := (tab_groups c)(g \<mapsto> vec_insert ix (windows ! current_pos) (vec_remove current_pos windows))\<rparr>
               else c))"

text \<open>The first tab of the window in the groups as they are walked gets the title.\<close>

fun retitle :: "nat list \<Rightarrow> nat \<Rightarrow> string \<Rightarrow> 'h tab_controller \<Rightarrow> 'h tab_controller" where
  "retitle [] i new_title c = c"
| "retitle (g # gs) i new_title c =
     (case tab_groups c g of
        None \<Rightarrow> retitle gs i new_title c
      | Some windows \<Rightarrow>
          (case position_of (\<lambda>tab. tab_id tab = i) windows of
             None \<Rightarrow> retitle gs i new_title c
           | Some p \<Rightarrow> c\<lparr>tab_groups := (tab_groups c)(g \<mapsto> windows[p := (windows ! p)\<lparr>title := new_title\<rparr>])\<rparr>))"

definition update_tab_title :: "nat list \<Rightarrow> nat \<Rightarrow> string \<Rightarrow> 'h tab_controller \<Rightarrow> 'h tab_controller" where
  "update_tab_title order i new_title c =
     (case find (\<lambda>tab. tab_id tab = i) (concat (groups_in order c)) of
        None \<Rightarrow> c
      | Some t \<Rightarrow> if title t = new_title then c else retitle order i new_title c)"

definition sorted_ids :: "'h system_window_tab list \<Rightarrow> nat list" where
  "sorted_ids tabs = sort (map tab_id tabs)"

definition add_tab :: "nat list \<Rightarrow> nat \<Rightarrow> 'h system_window_tab list \<Rightarrow> 'h tab_controller \<Rightarrow> 'h tab_controller" where
  "add_tab order i tabs c =
     (case find (\<lambda>tab. tab_id tab = i) tabs of
        None \<Rightarrow> c
      | Some tab \<Rightarrow>
          let expected_tab_ids = sorted_ids (filter (\<lambda>tab. tab_id tab \<noteq> i) tabs) in
          (case find (\<lambda>g. case tab_groups c g of None \<Rightarrow> False | Some ts \<Rightarrow> sorted_ids ts = expected_tab_ids) order of
             Some g \<Rightarrow> c\<lparr>tab_groups := (tab_groups c)(g := map_option (\<lambda>ts. ts @ [tab]) (tab_groups c g))\<rparr>
           | None \<Rightarrow>
               let new_group_id = length order in
               c\<lparr>tab_groups := (tab_groups c)(new_group_id \<mapsto> tabs)\<rparr>))"

text \<open>\<open>remove_tab\<close>: the group with the first tab of the window removed, or nothing if it is empty.\<close>

definition without_tab :: "nat \<Rightarrow> 'h system_window_tab list \<Rightarrow> 'h system_window_tab list" where
  "without_tab i tabs =
     (case position_of (\<lambda>tab. tab_id tab = i) tabs of None \<Rightarrow> tabs | Some pos \<Rightarrow> vec_remove pos tabs)"

definition remove_tab :: "nat list \<Rightarrow> nat \<Rightarrow> 'h tab_controller \<Rightarrow> 'h system_window_tab option \<times> 'h tab_controller" where
  "remove_tab order i c =
     (fold (\<lambda>g removed.
        (case tab_groups c g of
           None \<Rightarrow> removed
         | Some tabs \<Rightarrow>
             (case position_of (\<lambda>tab. tab_id tab = i) tabs of None \<Rightarrow> removed | Some pos \<Rightarrow> Some (tabs ! pos)))) order None,
      c\<lparr>tab_groups := (\<lambda>g. case tab_groups c g of
                           None \<Rightarrow> None
                         | Some tabs \<Rightarrow> (let tabs = without_tab i tabs in if tabs = [] then None else Some tabs))\<rparr>)"

text \<open>The number of a new group is one above the greatest; \<open>order'\<close> is the walking order after the removal.\<close>

definition move_tab_to_new_window :: "nat list \<Rightarrow> nat list \<Rightarrow> nat \<Rightarrow> 'h tab_controller \<Rightarrow> 'h tab_controller" where
  "move_tab_to_new_window order order' i c =
     (let (removed_tab, c) = remove_tab order i c in
      case removed_tab of
        None \<Rightarrow> c
      | Some tab \<Rightarrow>
          let new_group_id = (if order' = [] then 0 else Max (set order') + 1) in
          c\<lparr>tab_groups := (tab_groups c)(new_group_id \<mapsto> [tab])\<rparr>)"

definition merge_all_windows :: "nat list \<Rightarrow> nat \<Rightarrow> 'h tab_controller \<Rightarrow> 'h tab_controller" where
  "merge_all_windows order i c =
     (case tabs_of order i c of
        None \<Rightarrow> c
      | Some initial_tabs \<Rightarrow>
          let all_tabs = fold (\<lambda>tabs all. all @ filter (\<lambda>tab. tab \<notin> set initial_tabs) tabs) (groups_in order c) initial_tabs in
          c\<lparr>tab_groups := [0 \<mapsto> all_tabs]\<rparr>)"

text \<open>The window that is activated: \<open>None\<close> outside is no tab, the unwrapped position cannot fail.\<close>

definition select_tab :: "(nat \<Rightarrow> nat \<Rightarrow> nat) \<Rightarrow> nat list \<Rightarrow> nat \<Rightarrow> 'h tab_controller \<Rightarrow> 'h option" where
  "select_tab step order i c = do {
     tabs \<leftarrow> tabs_of order i c;
     current_index \<leftarrow> position_of (\<lambda>tab. tab_id tab = i) tabs;
     t \<leftarrow> nth_opt tabs (step current_index (length tabs));
     Some (handle t) }"

definition select_next_tab :: "nat list \<Rightarrow> nat \<Rightarrow> 'h tab_controller \<Rightarrow> 'h option" where
  "select_next_tab = select_tab step_next"

definition select_previous_tab :: "nat list \<Rightarrow> nat \<Rightarrow> 'h tab_controller \<Rightarrow> 'h option" where
  "select_previous_tab = select_tab step_prev"

section \<open>The tabs of all groups\<close>

definition walks :: "nat list \<Rightarrow> 'h tab_controller \<Rightarrow> bool" where
  "walks order c \<longleftrightarrow> distinct order \<and> set order = dom (tab_groups c)"

definition group_tabs :: "'h tab_controller \<Rightarrow> nat \<Rightarrow> 'h system_window_tab multiset" where
  "group_tabs c g = (case tab_groups c g of None \<Rightarrow> {#} | Some tabs \<Rightarrow> mset tabs)"

definition content :: "'h tab_controller \<Rightarrow> 'h system_window_tab multiset" where
  "content c = (\<Sum>g \<in> dom (tab_groups c). group_tabs c g)"

text \<open>There are no empty groups, and every window has at most one tab.\<close>

definition tabs_ok :: "'h tab_controller \<Rightarrow> bool" where
  "tabs_ok c \<longleftrightarrow>
     finite (dom (tab_groups c)) \<and> (\<forall>g. tab_groups c g \<noteq> Some []) \<and>
     (\<forall>i. count (image_mset tab_id (content c)) i \<le> 1)"

lemma mset_concat_groups: "walks order c \<Longrightarrow> mset (concat (groups_in order c)) = content c"
proof -
  have "mset (concat (List.map_filter (tab_groups c) xs)) = (\<Sum>g \<leftarrow> xs. group_tabs c g)" for xs
    by (induction xs) (auto simp: List.map_filter_simps group_tabs_def split: option.split)
  then show "walks order c \<Longrightarrow> ?thesis"
    by (simp add: walks_def content_def groups_in_def sum_list_distinct_conv_sum_set)
qed

lemma content_split:
  assumes "finite (dom (tab_groups c))"
  shows "content c = group_tabs c g + (\<Sum>h \<in> dom (tab_groups c) - {g}. group_tabs c h)"
proof (cases "g \<in> dom (tab_groups c)")
  case True
  then show ?thesis unfolding content_def by (rule sum.remove[OF assms])
qed (auto simp: content_def group_tabs_def split: option.split)

lemma content_upd:
  assumes "finite (dom (tab_groups c))"
  shows "content (c\<lparr>tab_groups := (tab_groups c)(g \<mapsto> tabs)\<rparr>) + group_tabs c g = content c + mset tabs"
proof -
  let ?c = "c\<lparr>tab_groups := (tab_groups c)(g \<mapsto> tabs)\<rparr>"
  have "finite (dom (tab_groups ?c))" using assms by simp
  from content_split[OF this, of g] have "content ?c = mset tabs + (\<Sum>h \<in> dom (tab_groups c) - {g}. group_tabs ?c h)"
    by (simp add: group_tabs_def)
  also have "(\<Sum>h \<in> dom (tab_groups c) - {g}. group_tabs ?c h) = (\<Sum>h \<in> dom (tab_groups c) - {g}. group_tabs c h)"
    by (rule sum.cong) (auto simp: group_tabs_def)
  finally show ?thesis unfolding content_split[OF assms, of g] by (simp only: ac_simps)
qed

lemma in_content: "tab_groups c g = Some tabs \<Longrightarrow> finite (dom (tab_groups c)) \<Longrightarrow> mset tabs \<subseteq># content c"
  using content_split[of c g] by (simp add: group_tabs_def)

lemma two_groups:
  assumes "tabs_ok c" "tab_groups c g = Some tabs" "tab_groups c h = Some tabs'" "t \<in> set tabs" "t' \<in> set tabs'"
    "tab_id t = tab_id t'"
  shows "g = h"
proof (rule ccontr)
  assume ne: "g \<noteq> h"
  have fin: "finite (dom (tab_groups c))" using assms(1) by (simp add: tabs_ok_def)
  have "group_tabs c h \<subseteq># (\<Sum>h \<in> dom (tab_groups c) - {g}. group_tabs c h)"
  proof -
    have "h \<in> dom (tab_groups c) - {g}" "finite (dom (tab_groups c) - {g})" using fin assms(3) ne by auto
    from sum.remove[OF this(2,1), of "group_tabs c"] show ?thesis by simp
  qed
  then have "mset tabs + mset tabs' \<subseteq># content c"
    using content_split[OF fin, of g] assms(2,3) by (simp add: group_tabs_def)
  moreover have "{#t#} + {#t'#} \<subseteq># mset tabs + mset tabs'"
    using assms(4,5) by (intro mset_subset_eq_mono_add) simp_all
  ultimately have "{#t#} + {#t'#} \<subseteq># content c" by (rule subset_mset.order_trans[rotated])
  then have "image_mset tab_id ({#t#} + {#t'#}) \<subseteq># image_mset tab_id (content c)" by (rule image_mset_subseteq_mono)
  then have "2 \<le> count (image_mset tab_id (content c)) (tab_id t)"
    using mset_subset_eq_count[of "image_mset tab_id ({#t#} + {#t'#})" "image_mset tab_id (content c)" "tab_id t"] assms(6) by simp
  then show False using assms(1) by (metis Suc_1 not_less_eq_eq tabs_ok_def One_nat_def)
qed

lemma group_ids_distinct:
  assumes "tabs_ok c" "tab_groups c g = Some tabs"
  shows "distinct (map tab_id tabs)"
proof -
  have "image_mset tab_id (mset tabs) \<subseteq># image_mset tab_id (content c)"
    using in_content[OF assms(2)] assms(1) by (intro image_mset_subseteq_mono) (simp add: tabs_ok_def)
  then have "count (mset (map tab_id tabs)) i \<le> 1" for i
    using assms(1) mset_subset_eq_count[of _ _ i] by (metis mset_map order.trans tabs_ok_def)
  then show ?thesis
    by (metis count_mset_gt_0 distinct_count_atmost_1 le_antisym less_one not_less Suc_leI One_nat_def count_mset_0_iff)
qed

lemma position_of_Some: "position_of P xs = Some i \<Longrightarrow> i < length xs \<and> P (xs ! i)"
  by (induction xs arbitrary: i) (auto split: if_splits)

lemma position_of_None: "position_of P xs = None \<longleftrightarrow> (\<forall>x \<in> set xs. \<not> P x)"
  by (induction xs) auto

lemma mset_vec_remove: "i < length xs \<Longrightarrow> add_mset (xs ! i) (mset (vec_remove i xs)) = mset xs"
  unfolding vec_remove_def by (subst (3) id_take_nth_drop[of i xs]) simp_all

lemma mset_vec_insert: "mset (vec_insert i x xs) = mset xs + {#x#}"
proof -
  have "mset (take i xs) + mset (drop i xs) = mset xs" by (metis append_take_drop_id mset_append)
  then show ?thesis by (simp add: vec_insert_def)
qed

section \<open>Reordering\<close>

lemma tabs_okI:
  "finite (dom (tab_groups c')) \<Longrightarrow> (\<And>g. tab_groups c' g \<noteq> Some []) \<Longrightarrow> content c' = content c \<Longrightarrow> tabs_ok c \<Longrightarrow> tabs_ok c'"
  by (simp add: tabs_ok_def)

lemma update_position_spec:
  assumes "tabs_ok c"
  shows "tabs_ok (update_tab_position order i ix c) \<and> content (update_tab_position order i ix c) = content c"
proof (induction order)
  case (Cons g gs)
  have fin: "finite (dom (tab_groups c))" and ne: "\<And>g. tab_groups c g \<noteq> Some []" using assms by (simp_all add: tabs_ok_def)
  show ?case
  proof (cases "tab_groups c g")
    case (Some windows)
    show ?thesis
    proof (cases "position_of (\<lambda>tab. tab_id tab = i) windows")
      case pos: (Some p)
      let ?w = "vec_insert ix (windows ! p) (vec_remove p windows)"
      have "mset ?w = mset windows" using mset_vec_remove[of p windows] position_of_Some[OF pos] by (simp add: mset_vec_insert)
      then have "content (c\<lparr>tab_groups := (tab_groups c)(g \<mapsto> ?w)\<rparr>) = content c"
        using content_upd[OF fin, of g ?w] Some by (simp add: group_tabs_def)
      moreover have "?w \<noteq> []" by (simp add: vec_insert_def)
      ultimately show ?thesis
        using Some pos assms fin ne by (auto intro!: tabs_okI[of "c\<lparr>tab_groups := (tab_groups c)(g \<mapsto> ?w)\<rparr>" c] split: if_splits)
    qed (use Some Cons.IH in simp)
  qed (use Cons.IH in simp)
qed (use assms in simp)

section \<open>Removing a tab, moving it to its own window\<close>

lemma without_tab_none: "\<not> has_tab i tabs \<Longrightarrow> without_tab i tabs = tabs"
  by (simp add: without_tab_def has_tab_def list_ex_iff flip: position_of_None split: option.split)

lemma without_tab_eq: "distinct (map tab_id tabs) \<Longrightarrow> without_tab i tabs = filter (\<lambda>t. tab_id t \<noteq> i) tabs"
proof (induction tabs)
  case (Cons t ts)
  then have ih: "without_tab i ts = filter (\<lambda>t. tab_id t \<noteq> i) ts" by simp
  show ?case
  proof (cases "tab_id t = i")
    case True
    then have "tab_id u \<noteq> i" if "u \<in> set ts" for u
      using Cons.prems that by (metis distinct.simps(2) imageI list.simps(9) set_map)
    then have "filter (\<lambda>t. tab_id t \<noteq> i) ts = ts" by (simp add: filter_id_conv)
    then show ?thesis using True by (simp add: without_tab_def vec_remove_def)
  next
    case False
    then show ?thesis using ih by (auto simp: without_tab_def vec_remove_def split: option.splits)
  qed
qed (simp add: without_tab_def)

lemma position_of_first: "distinct (map tab_id tabs) \<Longrightarrow> t \<in> set tabs \<Longrightarrow>
    \<exists>p. position_of (\<lambda>tab. tab_id tab = tab_id t) tabs = Some p \<and> p < length tabs \<and> tabs ! p = t"
proof (induction tabs)
  case (Cons u us)
  show ?case
  proof (cases "u = t")
    case False
    then have "tab_id u \<noteq> tab_id t" using Cons.prems by force
    then show ?thesis using Cons False by auto
  qed simp
qed simp

text \<open>What removal leaves.\<close>

definition after_removal :: "nat \<Rightarrow> 'h tab_controller \<Rightarrow> 'h tab_controller" where
  "after_removal i c =
     c\<lparr>tab_groups := (\<lambda>g. case tab_groups c g of
         None \<Rightarrow> None | Some tabs \<Rightarrow> (let tabs = without_tab i tabs in if tabs = [] then None else Some tabs))\<rparr>"

lemma group_tabs_after:
  assumes "tabs_ok c"
  shows "group_tabs (after_removal i c) g = filter_mset (\<lambda>t. tab_id t \<noteq> i) (group_tabs c g)"
proof (cases "tab_groups c g")
  case (Some tabs)
  have "mset (without_tab i tabs) = filter_mset (\<lambda>t. tab_id t \<noteq> i) (mset tabs)"
    unfolding without_tab_eq[OF group_ids_distinct[OF assms Some]] by simp
  then show ?thesis using Some by (auto simp: after_removal_def group_tabs_def Let_def)
qed (simp add: after_removal_def group_tabs_def)

lemma dom_after: "dom (tab_groups (after_removal i c)) \<subseteq> dom (tab_groups c)"
  by (auto simp: after_removal_def Let_def split: option.splits)

lemma content_over:
  "finite A \<Longrightarrow> dom (tab_groups c) \<subseteq> A \<Longrightarrow> content c = (\<Sum>g \<in> A. group_tabs c g)"
  unfolding content_def by (rule sum.mono_neutral_left) (auto simp: group_tabs_def split: option.splits)

lemma content_after:
  assumes "tabs_ok c"
  shows "content (after_removal i c) = filter_mset (\<lambda>t. tab_id t \<noteq> i) (content c)"
proof -
  have fin: "finite (dom (tab_groups c))" using assms by (simp add: tabs_ok_def)
  have "content (after_removal i c) = (\<Sum>g \<in> dom (tab_groups c). filter_mset (\<lambda>t. tab_id t \<noteq> i) (group_tabs c g))"
    using content_over[OF fin dom_after] group_tabs_after[OF assms] by simp
  also have "\<dots> = filter_mset (\<lambda>t. tab_id t \<noteq> i) (content c)"
    unfolding content_def using fin by (induction rule: finite_induct) simp_all
  finally show ?thesis .
qed

lemma remove_tab_spec:
  assumes "tabs_ok c" "walks order c" "tab_groups c g = Some tabs" "t \<in> set tabs"
  shows "remove_tab order (tab_id t) c = (Some t, after_removal (tab_id t) c)"
proof -
  let ?look = "\<lambda>g removed. (case tab_groups c g of
           None \<Rightarrow> removed
         | Some tabs \<Rightarrow>
             (case position_of (\<lambda>tab. tab_id tab = tab_id t) tabs of None \<Rightarrow> removed | Some pos \<Rightarrow> Some (tabs ! pos)))"
  obtain p where p: "position_of (\<lambda>tab. tab_id tab = tab_id t) tabs = Some p" "tabs ! p = t"
    using position_of_first[OF group_ids_distinct[OF assms(1,3)] assms(4)] by blast
  have here: "?look g r = Some t" for r using assms(3) p by simp
  have other: "?look h r = r" if "h \<noteq> g" for h r
  proof (cases "tab_groups c h")
    case (Some tabs')
    have "tab_id u \<noteq> tab_id t" if u: "u \<in> set tabs'" for u
      using two_groups[OF assms(1) Some assms(3) u assms(4)] \<open>h \<noteq> g\<close> by auto
    then have "position_of (\<lambda>tab. tab_id tab = tab_id t) tabs' = None" by (simp add: position_of_None)
    then show ?thesis using Some by simp
  qed simp
  have "fold ?look xs r = (if g \<in> set xs then Some t else r)" for xs r
  proof (induction xs arbitrary: r)
    case (Cons h xs)
    then show ?case using here other[of h] by (cases "h = g") simp_all
  qed simp
  moreover have "g \<in> set order" using assms(2,3) by (auto simp: walks_def)
  ultimately show ?thesis by (simp add: remove_tab_def after_removal_def)
qed

lemma filter_removed_tab:
  assumes "tabs_ok c" "t \<in># content c"
  shows "add_mset t (filter_mset (\<lambda>u. tab_id u \<noteq> tab_id t) (content c)) = content c"
proof -
  obtain m where m: "content c = add_mset t m" using assms(2) by (metis mset_add)
  have "count (image_mset tab_id (content c)) (tab_id t) \<le> 1" using assms(1) by (simp add: tabs_ok_def)
  then have "tab_id t \<notin># image_mset tab_id m" unfolding m by (simp add: count_eq_zero_iff)
  then have "tab_id u \<noteq> tab_id t" if "u \<in># m" for u using that by (metis imageI set_image_mset)
  then have "filter_mset (\<lambda>u. tab_id u \<noteq> tab_id t) m = m" by (simp add: filter_mset_eq_conv)
  then show ?thesis by (simp add: m)
qed

lemma move_spec:
  assumes "tabs_ok c" "walks order c" "walks order' (after_removal (tab_id t) c)" "tab_groups c g = Some tabs" "t \<in> set tabs"
  defines "moved \<equiv> move_tab_to_new_window order order' (tab_id t) c"
  shows "tabs_ok moved \<and> content moved = content c \<and> (\<exists>h. tab_groups moved h = Some [t] \<and>
      (\<forall>k. k \<noteq> h \<longrightarrow> group_tabs moved k = filter_mset (\<lambda>u. tab_id u \<noteq> tab_id t) (group_tabs c k)))"
proof -
  let ?c = "after_removal (tab_id t) c"
  define new where "new = (if order' = [] then 0 else Max (set order') + 1)"
  have moved: "moved = ?c\<lparr>tab_groups := (tab_groups ?c)(new \<mapsto> [t])\<rparr>"
    using remove_tab_spec[OF assms(1,2,4,5)] by (simp add: moved_def move_tab_to_new_window_def new_def Let_def)
  have "new \<notin> set order'"
  proof
    assume "new \<in> set order'"
    then have "order' \<noteq> []" "new \<le> Max (set order')" by (auto intro: Max_ge)
    then show False by (simp add: new_def)
  qed
  then have "tab_groups ?c new = None" using assms(3) by (auto simp: walks_def dom_def)
  then have fresh: "group_tabs ?c new = {#}" by (simp add: group_tabs_def)
  have fin: "finite (dom (tab_groups ?c))"
    using finite_subset[OF dom_after] assms(1) unfolding tabs_ok_def by blast
  have "t \<in># content c"
    using in_content[OF assms(4)] assms(1,5) by (auto simp: tabs_ok_def dest: mset_subset_eqD)
  then have content: "content moved = content c"
    using content_upd[OF fin, of new "[t]"] fresh filter_removed_tab[OF assms(1)] content_after[OF assms(1)]
    by (simp add: moved)
  have "tab_groups ?c k \<noteq> Some []" for k by (auto simp: after_removal_def Let_def split: option.splits)
  then have "tabs_ok moved" using tabs_okI[OF _ _ content assms(1)] fin by (simp add: moved)
  moreover have "group_tabs moved k = filter_mset (\<lambda>u. tab_id u \<noteq> tab_id t) (group_tabs c k)" if "k \<noteq> new" for k
    using that group_tabs_after[OF assms(1), of "tab_id t" k] by (simp add: moved group_tabs_def)
  moreover have "tab_groups moved new = Some [t]" by (simp add: moved)
  ultimately show ?thesis using content by blast
qed

lemma find_unique:
  assumes "x \<in> set xs" "P x" "\<And>y. y \<in> set xs \<Longrightarrow> P y \<Longrightarrow> y = x"
  shows "find P xs = Some x"
proof (cases "find P xs")
  case None
  then show ?thesis using assms(1,2) by (simp add: find_None_iff)
next
  case (Some y)
  then have "y \<in> set xs" "P y" by (auto simp: find_Some_iff)
  then show ?thesis using assms(3) Some by simp
qed

lemma in_groups: "walks order c \<Longrightarrow> ts \<in> set (groups_in order c) \<longleftrightarrow> (\<exists>g. tab_groups c g = Some ts)"
proof -
  assume "walks order c"
  then have order: "g \<in> set order \<longleftrightarrow> (\<exists>ts. tab_groups c g = Some ts)" for g by (simp add: walks_def domIff)
  show ?thesis unfolding groups_in_def in_map_filter Bex_def order by (rule iff_exI) auto
qed

lemma in_sum_mset: "finite A \<Longrightarrow> u \<in># (\<Sum>a \<in> A. f a) \<Longrightarrow> \<exists>a \<in> A. u \<in># f a"
  by (induction rule: finite_induct) auto

lemma tabs_of_spec:
  assumes "tabs_ok c" "walks order c" "tab_groups c g = Some tabs" "t \<in> set tabs"
  shows "tabs_of order (tab_id t) c = Some tabs"
  unfolding tabs_of_def
proof (rule find_unique)
  show "tabs \<in> set (groups_in order c)" using assms(3) by (auto simp: in_groups[OF assms(2)])
  show "has_tab (tab_id t) tabs" using assms(4) by (auto simp: has_tab_def list_ex_iff)
  fix ts assume "ts \<in> set (groups_in order c)" "has_tab (tab_id t) ts"
  then obtain h u where h: "tab_groups c h = Some ts" "u \<in> set ts" "tab_id u = tab_id t"
    by (auto simp: in_groups[OF assms(2)] has_tab_def list_ex_iff)
  then show "ts = tabs" using two_groups[OF assms(1,3) h(1) assms(4) h(2)] assms(3) by simp
qed

lemma others_apart:
  assumes "tabs_ok c" "tab_groups c g = Some tabs"
  shows "mset tabs + filter_mset (\<lambda>u. u \<notin> set tabs) (content c) = content c"
proof -
  have fin: "finite (dom (tab_groups c))" using assms(1) by (simp add: tabs_ok_def)
  let ?rest = "\<Sum>h \<in> dom (tab_groups c) - {g}. group_tabs c h"
  have "u \<notin> set tabs" if rest: "u \<in># ?rest" for u
  proof
    assume u: "u \<in> set tabs"
    obtain h where h: "h \<in> dom (tab_groups c) - {g}" "u \<in># group_tabs c h"
      using in_sum_mset[OF _ rest] fin by blast
    then obtain ts where "tab_groups c h = Some ts" "u \<in> set ts" by (auto simp: group_tabs_def)
    then show False using two_groups[OF assms(1,2) _ u] h(1) by blast
  qed
  then have "filter_mset (\<lambda>u. u \<notin> set tabs) ?rest = ?rest" by (simp add: filter_mset_eq_conv)
  then show ?thesis using content_split[OF fin, of g] assms(2) by (simp add: group_tabs_def)
qed

lemma merge_spec:
  assumes "tabs_ok c" "walks order c" "tab_groups c g = Some tabs" "t \<in> set tabs"
  defines "merged \<equiv> merge_all_windows order (tab_id t) c"
  shows "tabs_ok merged \<and> content merged = content c \<and> (\<exists>rest. tab_groups merged = [0 \<mapsto> tabs @ rest])"
proof -
  let ?out = "\<lambda>u. u \<notin> set tabs"
  define rest where "rest = concat (map (filter ?out) (groups_in order c))"
  have "fold (\<lambda>ts all. all @ filter ?out ts) gs xs = xs @ concat (map (filter ?out) gs)" for gs xs
    by (induction gs arbitrary: xs) simp_all
  then have merged: "merged = c\<lparr>tab_groups := [0 \<mapsto> tabs @ rest]\<rparr>"
    using tabs_of_spec[OF assms(1-4)] by (simp add: merged_def merge_all_windows_def rest_def)
  have "mset rest = filter_mset ?out (mset (concat (groups_in order c)))"
    unfolding rest_def by (simp add: filter_concat flip: mset_filter)
  then have "mset (tabs @ rest) = content c"
    using others_apart[OF assms(1,3)] mset_concat_groups[OF assms(2)] by simp
  then have content: "content merged = content c" by (simp add: content_def merged group_tabs_def)
  have "tabs \<noteq> []" using assms(4) by auto
  then have "tabs_ok merged" using tabs_okI[OF _ _ content assms(1)] by (simp add: merged)
  then show ?thesis using content merged by auto
qed

section \<open>Properties\<close>


text \<open>Two windows in one group, and a third.\<close>

definition a_tab :: "nat \<Rightarrow> unit system_window_tab" where
  "a_tab i = \<lparr>tab_id = i, title = [], handle = (), last_active_at = i\<rparr>"

definition two_tab_groups :: "unit tab_controller" where
  "two_tab_groups = tab_controller_new\<lparr>tab_groups := [0 \<mapsto> [a_tab 1, a_tab 2], 1 \<mapsto> [a_tab 3]]\<rparr>"


text \<open>The number of a new group is the number of groups, which can be that of a group: with groups 0 and 1, a window leaves
  group 0 for good, and the next window that opens replaces the tabs of group 1.\<close>

lemma add_tab_loses_group:
  "(let c = snd (remove_tab [0, 1] 1 (tab_controller_new\<lparr>tab_groups := [0 \<mapsto> [a_tab 1], 1 \<mapsto> [a_tab 2]]\<rparr>));
        c = add_tab [1] 3 [a_tab 3] c
    in tab_groups c) = [1 \<mapsto> [a_tab 3]]"
  by (auto simp: remove_tab_def add_tab_def without_tab_def vec_remove_def a_tab_def sorted_ids_def fun_eq_iff)

end
