(* ===== verification/TextLayout.thy ===== *)
theory TextLayout
  imports Pixel Ordering
begin

text \<open>
  Laid out text: \<open>crates/lucie-text/src/layout.rs\<close>, the breaking into lines, the alignment and the truncation of a
  text, and the line at a height.  Shaping and breaking are done by the \<open>parley\<close> crate: its layouts \<open>'p\<close> and line
  breakers \<open>'k\<close> are opaque, and its functions are the fields of a record \<open>parley\<close>.  What a layout
  has in it is a list of lines, with the advances of their glyphs and the widths of their inline boxes.
\<close>

section \<open>The layouts of parley\<close>

text \<open>The clusters of a glyph run are given by their advance and the byte at which they start.\<close>

datatype 'a line_item = GlyphRun "'a list" "('a \<times> nat) list" | InlineBox 'a

record 'a parley_line =
  block_min_coord :: 'a
  block_max_coord :: 'a
  line_offset :: 'a
  inline_min_coord :: 'a
  line_advance :: 'a
  ascent :: 'a
  descent :: 'a
  explicit_break :: bool
  line_items :: "'a line_item list"

datatype parley_alignment = AlignStart | AlignCenter | AlignEnd

record ('a, 'p, 'k) parley =
  p_new :: 'p
  p_break_all_lines :: "'a option \<Rightarrow> 'p \<Rightarrow> 'p"
  p_break_lines :: "'p \<Rightarrow> 'k"
  p_set_layout_max_advance :: "'a \<Rightarrow> 'k \<Rightarrow> 'k"
  p_set_line_max_advance :: "'a \<Rightarrow> 'k \<Rightarrow> 'k"
  p_break_next :: "'k \<Rightarrow> bool \<times> 'k"
  p_break_remaining :: "'a \<Rightarrow> 'k \<Rightarrow> 'p"
  p_align :: "parley_alignment \<Rightarrow> 'p \<Rightarrow> 'p"
  p_lines :: "'p \<Rightarrow> 'a parley_line list"
  p_width :: "'p \<Rightarrow> 'a"
  p_height :: "'p \<Rightarrow> 'a"
  p_scale :: "'p \<Rightarrow> 'a"
  p_shape :: "string \<Rightarrow> 'a \<Rightarrow> 'a \<Rightarrow> 'p"
  p_f32_max :: 'a

section \<open>Truncation\<close>

datatype truncate_from = FromEnd | FromStart

record ('a, 'p) truncation =
  affix :: string
  trunc_line :: nat
  trunc_item :: "nat option"
  trunc_from :: truncate_from
  start_advance :: 'a
  trunc_rem_size :: 'a
  trunc_scale :: 'a
  affix_layout :: 'p

definition truncation_default :: "('a::zero, 'p, 'k) parley \<Rightarrow> ('a, 'p) truncation" where
  "truncation_default P =
     \<lparr>affix = [], trunc_line = 0, trunc_item = None, trunc_from = FromEnd, start_advance = 0, trunc_rem_size = 0,
      trunc_scale = 0, affix_layout = p_new P\<rparr>"

text \<open>The widths of the items of a line: of every glyph and every inline box.\<close>

fun item_widths :: "'a line_item list \<Rightarrow> 'a list" where
  "item_widths [] = []"
| "item_widths (GlyphRun glyphs _ # items) = glyphs @ item_widths items"
| "item_widths (InlineBox w # items) = w # item_widths items"

text \<open>The loop over the items from the start of the line.\<close>

fun truncate_end :: "'a::floor_ceiling \<Rightarrow> 'a \<Rightarrow> 'a list \<Rightarrow> 'a \<Rightarrow> nat \<Rightarrow> nat option \<Rightarrow> nat option" where
  "truncate_end truncate_width max_width [] w item_idx item = None"
| "truncate_end truncate_width max_width (advance # ws) w item_idx item =
     (let item = (if w + truncate_width < max_width then Some item_idx else item);
          w = w + advance;
          item_idx = item_idx + 1
      in if of_int \<lfloor>w\<rfloor> > max_width then item else truncate_end truncate_width max_width ws w item_idx item)"

text \<open>The loop that skips items at the start: the first item that is kept, and what is skipped.\<close>

fun truncate_start :: "'a::linordered_idom \<Rightarrow> 'a \<Rightarrow> 'a list \<Rightarrow> 'a \<Rightarrow> nat \<Rightarrow> (nat \<times> 'a) option" where
  "truncate_start total_width available [] skipped idx = None"
| "truncate_start total_width available (w # ws) skipped idx =
     (if total_width - skipped \<le> available then Some (idx, skipped)
      else truncate_start total_width available ws (skipped + w) (idx + 1))"

definition update_truncation ::
  "('a::floor_ceiling, 'p, 'k) parley \<Rightarrow> nat option \<Rightarrow> 'a \<Rightarrow> string \<Rightarrow> truncate_from \<Rightarrow> 'a \<Rightarrow> 'a \<Rightarrow> 'p \<Rightarrow>
     ('a, 'p) truncation \<Rightarrow> ('a, 'p) truncation" where
  "update_truncation P line_clamp max_width new_affix from_where rem_size scale layout t =
     (let t = (if new_affix \<noteq> affix t \<or> trunc_rem_size t \<noteq> rem_size \<or> trunc_scale t \<noteq> scale
               then t\<lparr>affix_layout := p_break_all_lines P None (p_shape P new_affix rem_size scale), affix := new_affix,
                      trunc_rem_size := rem_size, trunc_scale := scale\<rparr>
               else t);
          truncate_width = p_width P (affix_layout t);
          t = t\<lparr>trunc_line := (case line_clamp of None \<Rightarrow> 1 | Some n \<Rightarrow> n) - 1, trunc_from := from_where,
                trunc_item := None, start_advance := 0\<rparr>
      in case nth_opt (p_lines P layout) (trunc_line t) of
           None \<Rightarrow> t
         | Some line \<Rightarrow>
             let ws = item_widths (line_items line) in
             (case from_where of
                FromEnd \<Rightarrow> t\<lparr>trunc_item := truncate_end truncate_width max_width ws 0 0 None\<rparr>
              | FromStart \<Rightarrow>
                  (case truncate_start (sum_list ws) (max_width - truncate_width) ws 0 0 of
                     Some (idx, skipped) \<Rightarrow> t\<lparr>trunc_item := Some idx, start_advance := skipped\<rparr>
                   | None \<Rightarrow> t)))"

section \<open>The layout\<close>

datatype 'a shape_mode = Fit "'a option" | Truncate 'a "nat option" truncate_from

fun mode_max_width :: "'a shape_mode \<Rightarrow> 'a option" where
  "mode_max_width (Fit wrap_width) = wrap_width"
| "mode_max_width (Truncate max_width _ _) = Some max_width"

datatype text_align = AlignLeft | AlignMiddle | AlignRight

record ('a, 'p) text_layout =
  inner_layout :: 'p
  alignment :: "text_align option"
  shape_mode :: "'a shape_mode option"
  needs_realign :: bool
  layout_rem_size :: 'a
  truncation :: "('a, 'p) truncation option"
  text_len :: nat

definition layout_new :: "('a::zero, 'p, 'k) parley \<Rightarrow> ('a, 'p) text_layout" where
  "layout_new P =
     \<lparr>inner_layout = p_new P, alignment = None, shape_mode = None, needs_realign = False, layout_rem_size = 0,
      truncation = None, text_len = 0\<rparr>"

definition layout_clear :: "('a::zero, 'p) text_layout \<Rightarrow> ('a, 'p) text_layout" where
  "layout_clear l =
     l\<lparr>alignment := None, shape_mode := None, needs_realign := False, layout_rem_size := 0, truncation := None, text_len := 0\<rparr>"

fun parley_alignment_of :: "text_align option \<Rightarrow> parley_alignment" where
  "parley_alignment_of None = AlignStart"
| "parley_alignment_of (Some AlignLeft) = AlignStart"
| "parley_alignment_of (Some AlignMiddle) = AlignCenter"
| "parley_alignment_of (Some AlignRight) = AlignEnd"

text \<open>\<open>align\<close> panics before the layout is fitted or truncated.\<close>

definition layout_align :: "('a, 'p, 'k) parley \<Rightarrow> text_align option \<Rightarrow> ('a, 'p) text_layout \<Rightarrow> ('a, 'p) text_layout option" where
  "layout_align P al l =
     (if shape_mode l = None then None
      else Some (if al \<noteq> alignment l \<or> needs_realign l
                 then l\<lparr>inner_layout := p_align P (parley_alignment_of al) (inner_layout l), needs_realign := False\<rparr> else l))"

definition num_lines :: "('a, 'p, 'k) parley \<Rightarrow> ('a, 'p) text_layout \<Rightarrow> nat" where
  "num_lines P l = length (p_lines P (inner_layout l))"

definition layout_fit :: "('a::linorder, 'p, 'k) parley \<Rightarrow> 'a option \<Rightarrow> ('a, 'p) text_layout \<Rightarrow> ('a, 'p) text_layout" where
  "layout_fit P max_width l =
     (if shape_mode l = Some (Fit max_width) then l
      else
        let l = l\<lparr>needs_realign := True\<rparr> in
        if (case shape_mode l of
              Some (Fit (Some wrap_width)) \<Rightarrow>
                num_lines P l = 1 \<and> (case max_width of None \<Rightarrow> True | Some mw \<Rightarrow> mw \<ge> wrap_width)
            | _ \<Rightarrow> False)
        then l\<lparr>shape_mode := Some (Fit max_width)\<rparr>
        else l\<lparr>inner_layout := p_break_all_lines P max_width (inner_layout l), shape_mode := Some (Fit max_width)\<rparr>)"

fun break_clamped :: "('a, 'p, 'k) parley \<Rightarrow> 'a \<Rightarrow> nat \<Rightarrow> 'k \<Rightarrow> 'k" where
  "break_clamped P max_width 0 k = k"
| "break_clamped P max_width (Suc n) k =
     (let (more, k) = p_break_next P (p_set_line_max_advance P max_width k)
      in if more then break_clamped P max_width n k else k)"

definition layout_truncate ::
  "('a::floor_ceiling, 'p, 'k) parley \<Rightarrow> 'a \<Rightarrow> nat option \<Rightarrow> string \<Rightarrow> truncate_from \<Rightarrow> ('a, 'p) text_layout \<Rightarrow>
     ('a, 'p) text_layout" where
  "layout_truncate P max_width line_clamp new_affix from_where l =
     (if shape_mode l = Some (Truncate max_width line_clamp from_where) \<and>
         (case truncation l of None \<Rightarrow> True | Some tr \<Rightarrow> affix tr = new_affix)
      then l
      else
        let l = l\<lparr>needs_realign := True\<rparr> in
        if (case shape_mode l of
              Some (Truncate old_max_width old_line_clamp _) \<Rightarrow> max_width = old_max_width \<and> line_clamp = old_line_clamp
            | _ \<Rightarrow> False)
        then l
        else
          let k = p_set_layout_max_advance P max_width (p_break_lines P (inner_layout l));
              k = break_clamped P max_width ((case line_clamp of None \<Rightarrow> 1 | Some n \<Rightarrow> n) - 1) k;
              l = l\<lparr>inner_layout := p_break_remaining P (p_f32_max P) k,
                    shape_mode := Some (Truncate max_width line_clamp from_where)\<rparr>
          in if p_width P (inner_layout l) > max_width
             then l\<lparr>truncation := Some (update_truncation P line_clamp max_width new_affix from_where (layout_rem_size l)
                      (p_scale P (inner_layout l)) (inner_layout l)
                      (case truncation l of None \<Rightarrow> truncation_default P | Some t \<Rightarrow> t))\<rparr>
             else l\<lparr>truncation := None\<rparr>)"

text \<open>The lines with the truncation that applies to them, and the widest they may be.\<close>

definition layout_get :: "('a, 'p, 'k) parley \<Rightarrow> nat \<Rightarrow> ('a, 'p) text_layout \<Rightarrow> ('a parley_line \<times> ('a, 'p) truncation option) option" where
  "layout_get P i l =
     map_option (\<lambda>line. (line, case truncation l of
         None \<Rightarrow> None | Some t \<Rightarrow> if trunc_line t = i then Some t else None)) (nth_opt (p_lines P (inner_layout l)) i)"

definition layout_max_width :: "('a, 'p) text_layout \<Rightarrow> 'a option" where
  "layout_max_width l = Option.bind (shape_mode l) mode_max_width"

definition layout_size :: "('a, 'p, 'k) parley \<Rightarrow> ('a, 'p) text_layout \<Rightarrow> 'a extent" where
  "layout_size P l = \<lparr>width = p_width P (inner_layout l), height = p_height P (inner_layout l)\<rparr>"

section \<open>The line at a height\<close>

definition line_cmp :: "'a::linorder \<Rightarrow> 'a parley_line list \<Rightarrow> nat \<Rightarrow> ordering" where
  "line_cmp y ls i =
     (if y < block_min_coord (ls ! i) then Greater
      else if y \<ge> block_max_coord (ls ! i) then Less else Equal)"

definition line_for_offset :: "('a::linordered_idom, 'p, 'k) parley \<Rightarrow> 'a \<Rightarrow> ('a, 'p) text_layout \<Rightarrow> nat option" where
  "line_for_offset P y l =
     (if y < 0 then Some 0
      else let ls = p_lines P (inner_layout l) in
        if ls = [] then None
        else let base = search_base (line_cmp y ls) 0 (length ls); c = line_cmp y ls base in
          Some (if c = Equal then base else (base + (if c = Less then 1 else 0)) - 1))"

section \<open>What is cut off\<close>

lemma take_diff_Cons: "i < j \<Longrightarrow> take (j - i) (w # ws) = w # take (j - Suc i) ws"
  by (metis Suc_diff_Suc take_Suc_Cons)

lemma truncate_end_spec:
  assumes "\<forall>w \<in> set ws. 0 \<le> w" "0 \<le> tw" "truncate_end tw mw ws w idx item = Some i" "\<forall>k. item = Some k \<longrightarrow> k < idx"
  shows "(item = Some i \<or> (idx \<le> i \<and> i < idx + length ws \<and> w + sum_list (take (i - idx) ws) + tw < mw)) \<and>
    (\<forall>j. idx \<le> j \<and> j < idx + length ws \<and> i < j \<longrightarrow> mw \<le> w + sum_list (take (j - idx) ws) + tw)"
  using assms
proof (induction ws arbitrary: w idx item)
  case (Cons v ws)
  let ?item = "if w + tw < mw then Some idx else item"
  have nn: "\<forall>w \<in> set ws. 0 \<le> w" "0 \<le> v" using Cons.prems(1) by simp_all
  have sum: "sum_list (take (j - idx) (v # ws)) = v + sum_list (take (j - Suc idx) ws)" if "idx < j" for j
    using that by (simp add: take_diff_Cons)
  show ?case
  proof (cases "of_int \<lfloor>w + v\<rfloor> > mw")
    case True
    then have it: "?item = Some i" using Cons.prems(3) by (simp add: Let_def)
    have "mw < w + v" using True by (meson of_int_floor_le order_less_le_trans)
    then have "mw \<le> w + sum_list (take (j - idx) (v # ws)) + tw" if "idx < j" for j
      using sum[OF that] nn(1) Cons.prems(2) by (smt (verit) in_set_takeD sum_list_nonneg add_increasing2 add.assoc less_le_trans less_imp_le add_mono order_trans)
    then show ?thesis using it Cons.prems(4) by (auto split: if_splits simp: le_less)
  next
    case False
    then have run: "truncate_end tw mw ws (w + v) (idx + 1) ?item = Some i" using Cons.prems(3) by (simp add: Let_def)
    have "\<forall>k. ?item = Some k \<longrightarrow> k < idx + 1" using Cons.prems(4) by (auto split: if_splits)
    note IH = Cons.IH[OF nn(1) Cons.prems(2) run this]
    have first: "item = Some i \<or> (idx \<le> i \<and> i < idx + length (v # ws) \<and> w + sum_list (take (i - idx) (v # ws)) + tw < mw)"
    proof (cases "?item = Some i")
      case True
      then show ?thesis by (cases "w + tw < mw") auto
    next
      case False
      then have "idx < i" "i < Suc idx + length ws" "w + v + sum_list (take (i - Suc idx) ws) + tw < mw" using IH by auto
      then show ?thesis using sum[of i] by (simp add: add.assoc)
    qed
    moreover have "mw \<le> w + sum_list (take (j - idx) (v # ws)) + tw"
      if j: "idx \<le> j" "j < idx + length (v # ws)" "i < j" for j
    proof (cases "j = idx")
      case True
      then have "\<not> w + tw < mw" using IH j(3) by auto
      then show ?thesis using True by simp
    next
      case False
      then have "idx < j" using j(1) by simp
      moreover have "mw \<le> w + v + sum_list (take (j - (idx + 1)) ws) + tw" using IH j False by simp
      ultimately show ?thesis using sum[of j] by (simp add: add.assoc)
    qed
    ultimately show ?thesis by blast
  qed
qed simp

lemma truncate_end_None:
  assumes "\<forall>w \<in> set ws. 0 \<le> w" "truncate_end tw mw ws w idx item = None"
  shows "ws = [] \<or> of_int \<lfloor>w + sum_list ws\<rfloor> \<le> mw \<or> (item = None \<and> mw \<le> w + tw)"
  using assms
proof (induction ws arbitrary: w idx item)
  case (Cons v ws)
  let ?item = "if w + tw < mw then Some idx else item"
  show ?case
  proof (cases "of_int \<lfloor>w + v\<rfloor> > mw")
    case True
    then have "?item = None" using Cons.prems(2) by (simp add: Let_def)
    then show ?thesis by (auto split: if_splits)
  next
    case False
    then have "truncate_end tw mw ws (w + v) (idx + 1) ?item = None" using Cons.prems(2) by (simp add: Let_def)
    from Cons.IH[OF _ this] Cons.prems(1)
    have "ws = [] \<or> of_int \<lfloor>w + v + sum_list ws\<rfloor> \<le> mw \<or> (?item = None \<and> mw \<le> w + v + tw)" by simp
    then show ?thesis using False by (auto simp: add.assoc split: if_splits)
  qed
qed simp

lemma truncate_end_stops:
  assumes "\<forall>w \<in> set ws. 0 \<le> w" "truncate_end tw mw ws w idx item = Some i"
  shows "mw < of_int \<lfloor>w + sum_list ws\<rfloor>"
  using assms
proof (induction ws arbitrary: w idx item)
  case (Cons v ws)
  let ?item = "if w + tw < mw then Some idx else item"
  show ?case
  proof (cases "of_int \<lfloor>w + v\<rfloor> > mw")
    case True
    have "0 \<le> sum_list ws" using Cons.prems(1) by (intro sum_list_nonneg) simp
    then have "\<lfloor>w + v\<rfloor> \<le> \<lfloor>w + (v + sum_list ws)\<rfloor>" by (intro floor_mono) simp
    then have "of_int \<lfloor>w + v\<rfloor> \<le> (of_int \<lfloor>w + sum_list (v # ws)\<rfloor> :: 'a)" by simp
    with True show ?thesis by (rule less_le_trans)
  next
    case False
    then have "truncate_end tw mw ws (w + v) (idx + 1) ?item = Some i" using Cons.prems(2) by (simp add: Let_def)
    from Cons.IH[OF _ this] Cons.prems(1) show ?thesis by (simp add: add.assoc)
  qed
qed simp

lemma truncate_start_spec:
  "truncate_start total_width available ws skipped idx = r \<Longrightarrow>
     (case r of
        None \<Rightarrow> \<forall>j < length ws. available < total_width - (skipped + sum_list (take j ws))
      | Some (i, s) \<Rightarrow> idx \<le> i \<and> i < idx + length ws \<and> s = skipped + sum_list (take (i - idx) ws) \<and> total_width - s \<le> available \<and>
          (\<forall>j < i - idx. available < total_width - (skipped + sum_list (take j ws))))"
proof (induction ws arbitrary: skipped idx)
  case (Cons w ws)
  show ?case
  proof (cases "total_width - skipped \<le> available")
    case True
    then show ?thesis using Cons.prems by auto
  next
    case False
    then have "truncate_start total_width available ws (skipped + w) (idx + 1) = r" using Cons.prems by simp
    note IH = Cons.IH[OF this]
    have step: "available < total_width - (skipped + sum_list (take j (w # ws)))"
      if "j = 0 \<or> available < total_width - (skipped + w + sum_list (take (j - 1) ws))" for j
      using that False by (cases j) (auto simp: add.assoc)
    show ?thesis
    proof (cases r)
      case None
      have "available < total_width - (skipped + sum_list (take j (w # ws)))" if "j < Suc (length ws)" for j
        using IH None that by (intro step) (cases j, auto)
      then show ?thesis using None by simp
    next
      case (Some p)
      obtain i s where p: "p = (i, s)" by (cases p)
      have IH': "idx + 1 \<le> i" "i < idx + 1 + length ws" "s = skipped + w + sum_list (take (i - (idx + 1)) ws)"
        "total_width - s \<le> available" "\<forall>j < i - (idx + 1). available < total_width - (skipped + w + sum_list (take j ws))"
        using IH by (simp_all add: Some p)
      moreover have "take (i - idx) (w # ws) = w # take (i - (idx + 1)) ws" using IH'(1) by (simp add: take_diff_Cons)
      moreover have "available < total_width - (skipped + sum_list (take j (w # ws)))" if "j < i - idx" for j
        using IH'(5) that by (intro step) (cases j, auto)
      ultimately show ?thesis by (simp add: Some p add.assoc)
    qed
  qed
qed auto

section \<open>Properties\<close>

text \<open>What is left of a line that is cut, with the affix, in the place of its first or last item.\<close>

definition cut_width :: "truncate_from \<Rightarrow> 'a::linordered_idom \<Rightarrow> 'a list \<Rightarrow> nat \<Rightarrow> 'a" where
  "cut_width f affix_width ws i =
     (case f of FromEnd \<Rightarrow> sum_list (take i ws) + affix_width | FromStart \<Rightarrow> sum_list (drop i ws) + affix_width)"

text \<open>Cutting a line at its end or its start leaves as many items as fit: with the affix they are within the maximal
  width, and with one item more they would not be; at the start, the advance that is skipped is that of the
  items cut off.  A line is left whole when its end fits up to a fraction of a pixel, or when not even
  the affix, or the affix and one item, would fit.\<close>

theorem text_truncation_fits:
  fixes P :: "('a::floor_ceiling, 'p, 'k) parley" and max_width :: 'a
  assumes "nth_opt (p_lines P layout) ((case line_clamp of None \<Rightarrow> 1 | Some n \<Rightarrow> n) - 1) = Some line"
    "\<forall>w \<in> set (item_widths (line_items line)). 0 \<le> w"
    "0 \<le> p_width P (affix_layout (update_truncation P line_clamp max_width new_affix from_where rem_size scale layout t))"
  defines "t' \<equiv> update_truncation P line_clamp max_width new_affix from_where rem_size scale layout t"
    and "ws \<equiv> item_widths (line_items line)"
  shows "(case trunc_item t' of
      Some i \<Rightarrow> i < length ws \<and> cut_width from_where (p_width P (affix_layout t')) ws i \<le> max_width \<and>
        (from_where = FromEnd \<longrightarrow> (\<forall>j < length ws. i < j \<longrightarrow> max_width \<le> cut_width FromEnd (p_width P (affix_layout t')) ws j)) \<and>
        (from_where = FromStart \<longrightarrow> start_advance t' = sum_list (take i ws) \<and>
           (\<forall>j < i. max_width < cut_width FromStart (p_width P (affix_layout t')) ws j))
    | None \<Rightarrow>
        (from_where = FromEnd \<longrightarrow> ws = [] \<or> of_int \<lfloor>sum_list ws\<rfloor> \<le> max_width \<or> max_width \<le> p_width P (affix_layout t')) \<and>
        (from_where = FromStart \<longrightarrow> (\<forall>j < length ws. max_width < cut_width FromStart (p_width P (affix_layout t')) ws j)))"
proof -
  define tw where "tw = p_width P (affix_layout t')"
  show ?thesis
  proof (cases from_where)
    case FromEnd
    have item: "trunc_item t' = truncate_end tw max_width ws 0 0 None"
      using assms(1) FromEnd by (simp add: t'_def update_truncation_def Let_def tw_def ws_def del: nth_opt_Some)
    show ?thesis
    proof (cases "trunc_item t'")
      case None
      then show ?thesis using truncate_end_None[of ws tw max_width 0 0 None] assms(2) item FromEnd by (simp add: ws_def tw_def)
    next
      case (Some i)
      have "\<forall>w \<in> set ws. 0 \<le> w" "0 \<le> tw" using assms(2,3) by (simp_all add: ws_def tw_def t'_def)
      from truncate_end_spec[OF this, of max_width 0 0 None i] Some item
      have "i < length ws" "sum_list (take i ws) + tw < max_width"
        "\<forall>j < length ws. i < j \<longrightarrow> max_width \<le> sum_list (take j ws) + tw" by simp_all
      then show ?thesis unfolding Some option.case tw_def[symmetric] by (simp add: FromEnd cut_width_def less_imp_le)
    qed
  next
    case FromStart
    define r where "r = truncate_start (sum_list ws) (max_width - tw) ws 0 0"
    have item: "trunc_item t' = map_option fst r" "r = Some (i, s) \<Longrightarrow> start_advance t' = s" for i s
      using assms(1) FromStart
      by (auto simp: r_def t'_def update_truncation_def Let_def tw_def ws_def simp del: nth_opt_Some split: option.split)
    have drop: "sum_list ws - sum_list (take j ws) = sum_list (drop j ws)" for j
      using sum_list_append[of "take j ws" "drop j ws"] by (simp add: algebra_simps)
    note spec = truncate_start_spec[OF r_def[symmetric]]
    show ?thesis
    proof (cases r)
      case None
      then have "max_width - tw < sum_list (drop j ws)" if "j < length ws" for j
        using spec that unfolding drop[of j, symmetric] by (simp add: None)
      then show ?thesis using item(1) None FromStart by (simp add: cut_width_def tw_def algebra_simps)
    next
      case (Some p)
      obtain i s where p: "p = (i, s)" by (cases p)
      have "max_width - tw < sum_list (drop j ws)" if "j < i" for j
        using spec that unfolding drop[of j, symmetric] by (simp add: Some p)
      moreover have "sum_list (drop i ws) \<le> max_width - tw" "i < length ws" "s = sum_list (take i ws)"
        using spec unfolding drop[of i, symmetric] by (simp_all add: Some p)
      ultimately show ?thesis using item FromStart by (simp add: Some p cut_width_def tw_def algebra_simps)
    qed
  qed
qed

text \<open>Layouts that are their lines, all glyphs 2 pixels wide, with the affix of 3 characters.\<close>

definition glyph_line :: "nat \<Rightarrow> rat parley_line" where
  "glyph_line n =
     \<lparr>block_min_coord = 0, block_max_coord = 10, line_offset = 0, inline_min_coord = 0, line_advance = 2 * of_nat n, ascent = 8,
      descent = 2, explicit_break = False, line_items = [GlyphRun (replicate n 2) []]\<rparr>"

definition line_parley :: "(rat, rat parley_line list, rat parley_line list) parley" where
  "line_parley =
     \<lparr>p_new = [], p_break_all_lines = (\<lambda>_ p. p), p_break_lines = (\<lambda>p. p), p_set_layout_max_advance = (\<lambda>_ k. k),
      p_set_line_max_advance = (\<lambda>_ k. k), p_break_next = Pair False, p_break_remaining = (\<lambda>_ k. k), p_align = (\<lambda>_ p. p),
      p_lines = (\<lambda>p. p), p_width = (\<lambda>p. case p of [] \<Rightarrow> 0 | l # _ \<Rightarrow> line_advance l), p_height = (\<lambda>_. 10),
      p_scale = (\<lambda>_. 1), p_shape = (\<lambda>s _ _. [glyph_line (length s)]), p_f32_max = 1000\<rparr>"

theorem text_truncation_fits_witness:
  "trunc_item (update_truncation line_parley None 15 ''...'' FromEnd 1 1 [glyph_line 10] (truncation_default line_parley)) = Some 4"
proof -
  let ?t = "update_truncation line_parley None 15 ''...'' FromEnd 1 1 [glyph_line 10] (truncation_default line_parley)"
  have ws: "item_widths (line_items (glyph_line 10)) = replicate 10 2" by (simp add: glyph_line_def)
  have item: "trunc_item ?t = Some 4" by code_simp
  have width: "p_width line_parley (affix_layout ?t) = 6" by code_simp
  have line: "nth_opt (p_lines line_parley [glyph_line 10]) ((case None of None \<Rightarrow> 1 | Some n \<Rightarrow> n) - 1) = Some (glyph_line 10)"
    by (simp add: line_parley_def)
  note fits = text_truncation_fits[OF line, where max_width = 15 and new_affix = "''...''" and from_where = FromEnd
      and rem_size = 1 and scale = 1 and t = "truncation_default line_parley", unfolded width ws]
  have "case trunc_item ?t of
      Some i \<Rightarrow> i < 10 \<and> cut_width FromEnd 6 (replicate 10 2) i \<le> (15 :: rat) | None \<Rightarrow> True"
    using fits by (auto split: option.splits)
  then show ?thesis using item by simp
qed

text \<open>Lines that follow one another.\<close>

definition lines_stacked :: "'a::linorder parley_line list \<Rightarrow> bool" where
  "lines_stacked ls \<longleftrightarrow> (\<forall>l \<in> set ls. block_min_coord l \<le> block_max_coord l) \<and>
     sorted_wrt (\<lambda>k l. block_max_coord k \<le> block_min_coord l) ls"

lemma line_cmp_ordered:
  assumes "lines_stacked ls"
  shows "ordered_by (line_cmp y ls) (length ls)"
  unfolding ordered_by_def
proof (intro allI impI)
  fix i j assume ij: "i < j" "j < length ls"
  then have "block_max_coord (ls ! i) \<le> block_min_coord (ls ! j)" "block_min_coord (ls ! i) \<le> block_max_coord (ls ! i)"
      "block_min_coord (ls ! j) \<le> block_max_coord (ls ! j)"
    using assms by (simp_all add: lines_stacked_def sorted_wrt_iff_nth_less)
  then show "(line_cmp y ls j = Less \<longrightarrow> line_cmp y ls i = Less) \<and> (line_cmp y ls i = Greater \<longrightarrow> line_cmp y ls j = Greater)"
    by (auto simp: line_cmp_def)
qed

text \<open>The line at a height is the last one that starts at it or above it, or the first line.\<close>

lemma line_for_offset_spec:
  assumes "lines_stacked (p_lines P (inner_layout l))" "p_lines P (inner_layout l) \<noteq> []" "0 \<le> y"
  shows "\<exists>i. line_for_offset P y l = Some i \<and> i < length (p_lines P (inner_layout l)) \<and>
    (block_min_coord (p_lines P (inner_layout l) ! i) \<le> y \<or> i = 0) \<and>
    (\<forall>j < length (p_lines P (inner_layout l)). i < j \<longrightarrow> y < block_min_coord (p_lines P (inner_layout l) ! j))"
proof -
  let ?ls = "p_lines P (inner_layout l)" and ?n = "length (p_lines P (inner_layout l))"
  let ?b = "search_base (line_cmp y ?ls) 0 ?n"
  have b: "?b < ?n" "0 < ?b \<longrightarrow> line_cmp y ?ls ?b \<noteq> Greater" "\<forall>i < ?n. ?b < i \<longrightarrow> line_cmp y ?ls i = Greater"
    using search_base_spec[OF line_cmp_ordered[OF assms(1)], of ?n 0 y] assms(2) by auto
  have "line_for_offset P y l = Some ?b"
    using assms(2,3) b(2) by (cases "line_cmp y ?ls ?b") (auto simp: line_for_offset_def Let_def)
  moreover have "block_min_coord (?ls ! ?b) \<le> y \<or> ?b = 0" using b(2) by (auto simp: line_cmp_def split: if_splits)
  moreover have "y < block_min_coord (?ls ! j)" if "j < ?n" "?b < j" for j
    using b(3) that by (auto simp: line_cmp_def split: if_splits)
  ultimately show ?thesis using b(1) by blast
qed

section \<open>What is kept too long\<close>

text \<open>The alignment is never recorded: a text that was aligned to the right stays there when it is asked to go back to the
  default.\<close>

lemma align_not_recorded:
  assumes "alignment l = None" "layout_align P (Some AlignRight) l = Some l'"
  shows "layout_align P None l' = Some l'"
  using assms by (auto simp: layout_align_def split: if_splits)

text \<open>A truncated text that is asked for at the same width with another affix, or from the other end, keeps the old one.\<close>

lemma truncate_ignores_affix:
  assumes "shape_mode l = Some (Truncate max_width line_clamp from_where)"
  shows "truncation (layout_truncate P max_width line_clamp a f l) = truncation l"
  using assms by (simp add: layout_truncate_def Let_def)

text \<open>A truncated text that is fitted again is still painted truncated.\<close>

lemma fit_keeps_truncation: "truncation (layout_fit P w l) = truncation l"
  by (simp add: layout_fit_def Let_def)

end
