(* ===== verification/TextSelect.thy ===== *)
theory TextSelect
  imports TextLayout
begin

text \<open>
  Cursors and selections in a text: \<open>crates/lucie-text/src/select.rs\<close>, and \<open>Layout::cursor_at\<close> of
  \<open>layout.rs\<close>.  The clusters \<open>'c\<close> of a layout are parley's; the record \<open>clusters\<close> holds the functions that
  the code calls on the clusters of one layout.
\<close>

datatype affinity = Downstream | Upstream

record text_cursor =
  cursor_index :: nat
  cursor_affinity :: affinity

record ('a, 'c) clusters =
  k_from_byte_index :: "nat \<Rightarrow> 'c option"
  k_from_point :: "bool \<Rightarrow> 'a point \<Rightarrow> ('c \<times> bool) option"
  k_cursor_from_byte_index :: "nat \<Rightarrow> affinity \<Rightarrow> nat \<times> affinity"
  k_previous_visual :: "'c \<Rightarrow> 'c option"
  k_next_visual :: "'c \<Rightarrow> 'c option"
  k_is_rtl :: "'c \<Rightarrow> bool"
  k_is_end_of_line :: "'c \<Rightarrow> bool"
  k_is_soft_line_break :: "'c \<Rightarrow> bool"
  k_is_hard_line_break :: "'c \<Rightarrow> bool"
  k_explicit_break :: "'c \<Rightarrow> bool"
  k_visual_offset :: "'c \<Rightarrow> 'a option"
  k_advance :: "'c \<Rightarrow> 'a"
  k_line_min :: "'c \<Rightarrow> 'a"
  k_text_range :: "'c \<Rightarrow> nat \<times> nat"

definition cursor_new_at :: "nat \<Rightarrow> affinity \<Rightarrow> text_cursor" where
  "cursor_new_at index aff = \<lparr>cursor_index = index, cursor_affinity = aff\<rparr>"

definition cursor_refresh :: "('a, 'c) clusters \<Rightarrow> text_cursor \<Rightarrow> text_cursor" where
  "cursor_refresh K c = (let (i, aff) = k_cursor_from_byte_index K (cursor_index c) (cursor_affinity c) in cursor_new_at i aff)"

definition cursor_at_byte :: "('a, 'c) clusters \<Rightarrow> nat \<Rightarrow> text_cursor" where
  "cursor_at_byte K byte = (let (i, aff) = k_cursor_from_byte_index K byte Downstream in cursor_new_at i aff)"

text \<open>\<open>Layout::cursor_at\<close>; the flag of a cluster found at a point says that it was hit on its left side.\<close>

definition cursor_at_point :: "('a, 'c) clusters \<Rightarrow> nat \<Rightarrow> 'a point \<Rightarrow> bool \<Rightarrow> text_cursor option" where
  "cursor_at_point K len p exact =
     (case k_from_point K exact p of
        Some (cluster, is_leading) \<Rightarrow>
          let (s, e) = k_text_range K cluster in
          Some (if k_is_rtl K cluster
                then (if is_leading then cursor_new_at e Upstream else cursor_new_at s Downstream)
                else (if is_leading \<or> k_explicit_break K cluster
                      then cursor_new_at s Downstream else cursor_new_at e Upstream))
      | None \<Rightarrow> if \<not> exact then Some (cursor_new_at len Downstream) else None)"

definition upstream_cluster :: "('a, 'c) clusters \<Rightarrow> text_cursor \<Rightarrow> 'c option" where
  "upstream_cluster K c = (if cursor_index c = 0 then None else k_from_byte_index K (cursor_index c - 1))"

definition downstream_cluster :: "('a, 'c) clusters \<Rightarrow> text_cursor \<Rightarrow> 'c option" where
  "downstream_cluster K c = k_from_byte_index K (cursor_index c)"

definition visual_clusters :: "('a, 'c) clusters \<Rightarrow> text_cursor \<Rightarrow> 'c option \<times> 'c option" where
  "visual_clusters K c =
     (if cursor_affinity c = Upstream then
        (case upstream_cluster K c of
           Some cl \<Rightarrow> if k_is_rtl K cl then (k_previous_visual K cl, Some cl) else (Some cl, k_next_visual K cl)
         | None \<Rightarrow>
             (case downstream_cluster K c of
                Some cl \<Rightarrow> if k_is_rtl K cl then (None, Some cl) else (Some cl, None)
              | None \<Rightarrow> (None, None)))
      else
        (case downstream_cluster K c of
           Some cl \<Rightarrow> if k_is_rtl K cl then (Some cl, k_next_visual K cl) else (k_previous_visual K cl, Some cl)
         | None \<Rightarrow>
             (case upstream_cluster K c of
                Some cl \<Rightarrow> if k_is_rtl K cl then (None, Some cl) else (Some cl, None)
              | None \<Rightarrow> (None, None))))"

definition cursor_pos :: "('a::linordered_idom, 'c) clusters \<Rightarrow> 'c \<Rightarrow> bool \<Rightarrow> 'a point" where
  "cursor_pos K cluster at_end =
     (let line_x = (case k_visual_offset K cluster of None \<Rightarrow> 0 | Some x \<Rightarrow> x);
          line_x = (if at_end then line_x + k_advance K cluster else line_x)
      in \<lparr>pt_x = line_x, pt_y = k_line_min K cluster\<rparr>)"

definition last_line_cursor_rect :: "'a::linordered_idom parley_line list \<Rightarrow> 'a point" where
  "last_line_cursor_rect ls =
     (case nth_opt ls (length ls - 1) of
        Some line \<Rightarrow> \<lparr>pt_x = line_offset line, pt_y = block_min_coord line\<rparr>
      | None \<Rightarrow> point_zero)"

definition text_cursor_position :: "('a::linordered_idom, 'c) clusters \<Rightarrow> 'a parley_line list \<Rightarrow> text_cursor \<Rightarrow> 'a point" where
  "text_cursor_position K ls c =
     (case visual_clusters K c of
        (Some left, Some right) \<Rightarrow>
          if k_is_end_of_line K left then
            (if k_is_soft_line_break K left then
               (if k_is_rtl K left \<and> cursor_affinity c = Downstream \<or> \<not> k_is_rtl K left \<and> cursor_affinity c = Upstream
                then cursor_pos K left True else cursor_pos K right False)
             else cursor_pos K right False)
          else cursor_pos K left True
      | (Some left, None) \<Rightarrow> if k_is_hard_line_break K left then last_line_cursor_rect ls else cursor_pos K left True
      | (None, Some right) \<Rightarrow> cursor_pos K right False
      | (None, None) \<Rightarrow> last_line_cursor_rect ls)"

definition cursor_line ::
  "('a::linordered_idom, 'p, 'k) parley \<Rightarrow> ('a, 'c) clusters \<Rightarrow> ('a, 'p) text_layout \<Rightarrow> text_cursor \<Rightarrow> nat option" where
  "cursor_line P K l c = line_for_offset P (pt_y (text_cursor_position K (p_lines P (inner_layout l)) c)) l"

section \<open>Selections\<close>

record 'a selection =
  sel_anchor :: text_cursor
  sel_focus :: text_cursor
  h_pos :: "'a option"

definition selection_new :: "text_cursor \<Rightarrow> text_cursor \<Rightarrow> 'a selection" where
  "selection_new anchor focus = \<lparr>sel_anchor = anchor, sel_focus = focus, h_pos = None\<rparr>"

definition selection_from_range :: "('a, 'c) clusters \<Rightarrow> nat \<Rightarrow> nat \<Rightarrow> 'a selection" where
  "selection_from_range K s e = selection_new (cursor_at_byte K s) (cursor_at_byte K e)"

definition is_collapsed :: "'a selection \<Rightarrow> bool" where
  "is_collapsed s \<longleftrightarrow> cursor_index (sel_anchor s) = cursor_index (sel_focus s)"

definition collapse :: "'a selection \<Rightarrow> 'a selection" where
  "collapse s = selection_new (sel_focus s) (sel_focus s)"

definition selection_range :: "'a selection \<Rightarrow> nat \<times> nat" where
  "selection_range s =
     (min (cursor_index (sel_anchor s)) (cursor_index (sel_focus s)),
      max (cursor_index (sel_focus s)) (cursor_index (sel_anchor s)))"

definition selection_refresh :: "('a, 'c) clusters \<Rightarrow> 'a selection \<Rightarrow> 'a selection" where
  "selection_refresh K s =
     s\<lparr>sel_anchor := cursor_refresh K (sel_anchor s), sel_focus := cursor_refresh K (sel_focus s)\<rparr>"

text \<open>The walk over the items of a line: the boxes emitted so far, from where the next one starts, where the walk is, how many
  clusters were selected, the widths of inline boxes not yet passed, and whether a run was seen.\<close>

record 'a select_walk =
  emitted :: "('a \<times> 'a) list"
  start_x :: 'a
  cur_x :: 'a
  cluster_count :: nat
  box_advance :: 'a
  seen_runs :: bool

definition select_cluster :: "nat \<times> nat \<Rightarrow> 'a::linordered_idom \<times> nat \<Rightarrow> 'a select_walk \<Rightarrow> 'a select_walk" where
  "select_cluster r cluster w =
     (let advance = fst cluster + box_advance w; w = w\<lparr>box_advance := 0\<rparr> in
      if fst r \<le> snd cluster \<and> snd cluster < snd r
      then w\<lparr>cluster_count := cluster_count w + 1, cur_x := cur_x w + advance\<rparr>
      else
        let w = (if cur_x w \<noteq> start_x w then w\<lparr>emitted := emitted w @ [(start_x w, cur_x w - start_x w)]\<rparr> else w) in
        w\<lparr>cur_x := cur_x w + advance, start_x := cur_x w + advance\<rparr>)"

fun select_item :: "nat \<times> nat \<Rightarrow> 'a::linordered_idom line_item \<Rightarrow> 'a select_walk \<Rightarrow> 'a select_walk" where
  "select_item r (GlyphRun _ cs) w = fold (select_cluster r) cs (w\<lparr>seen_runs := True\<rparr>)"
| "select_item r (InlineBox wd) w =
     (let w = w\<lparr>box_advance := box_advance w + wd\<rparr> in
      if \<not> seen_runs w
      then w\<lparr>cur_x := cur_x w + box_advance w, start_x := cur_x w + box_advance w, box_advance := 0\<rparr> else w)"

text \<open>The boxes of the first and the last line of a selection, as places and widths; \<open>not_last\<close> says that the selection
  goes on below.\<close>

definition newline_whitespace :: "'a::linordered_field parley_line \<Rightarrow> 'a" where
  "newline_whitespace line = (if explicit_break line then (ascent line + descent line) * (1 / 4) else 0)"

definition edge_line_boxes :: "nat \<times> nat \<Rightarrow> bool \<Rightarrow> 'a::linordered_field parley_line \<Rightarrow> ('a \<times> 'a) list" where
  "edge_line_boxes r not_last line =
     (let x = line_offset line + inline_min_coord line;
          w = fold (select_item r) (line_items line)
                \<lparr>emitted = [], start_x = x, cur_x = x, cluster_count = 0, box_advance = 0, seen_runs = False\<rparr>;
          end_x = (if not_last \<or> (cluster_count w \<noteq> 0 \<and> line_advance line = 0)
                   then cur_x w + newline_whitespace line else cur_x w)
      in if end_x \<noteq> start_x w then emitted w @ [(start_x w, end_x - start_x w)] else emitted w)"

definition line_boxes :: "nat \<times> nat \<Rightarrow> nat \<Rightarrow> nat \<Rightarrow> 'a::linordered_field parley_line list \<Rightarrow> nat \<Rightarrow> (nat \<times> 'a bounds) list" where
  "line_boxes r line_start_ix line_end_ix ls line_ix =
     (case nth_opt ls line_ix of
        None \<Rightarrow> []
      | Some line \<Rightarrow>
          let xs = (if line_ix = line_start_ix \<or> line_ix = line_end_ix
                    then edge_line_boxes r (line_ix \<noteq> line_end_ix) line
                    else [(line_offset line + inline_min_coord line, line_advance line + newline_whitespace line)])
          in map (\<lambda>(x, w). (line_ix, \<lparr>origin = \<lparr>pt_x = x, pt_y = block_min_coord line\<rparr>,
                                      extent = \<lparr>width = w, height = block_max_coord line - block_min_coord line\<rparr>\<rparr>)) xs)"

definition selection_bounds ::
  "('a::linordered_field, 'p, 'k) parley \<Rightarrow> ('a, 'c) clusters \<Rightarrow> ('a, 'p) text_layout \<Rightarrow> 'a selection \<Rightarrow> (nat \<times> 'a bounds) list" where
  "selection_bounds P K l s =
     (if is_collapsed s then []
      else
        let (start, end) = (if cursor_index (sel_anchor s) > cursor_index (sel_focus s)
                            then (sel_focus s, sel_anchor s) else (sel_anchor s, sel_focus s));
            r = (cursor_index start, cursor_index end);
            line_start_ix = (case cursor_line P K l start of None \<Rightarrow> 0 | Some i \<Rightarrow> i);
            line_end_ix = (case cursor_line P K l end of None \<Rightarrow> num_lines P l + 1 | Some i \<Rightarrow> i)
        in concat (map (line_boxes r line_start_ix line_end_ix (p_lines P (inner_layout l))) [line_start_ix ..< Suc line_end_ix]))"

section \<open>What the boxes of an edge line cover\<close>

text \<open>The right edge of the first \<open>k\<close> clusters of a line that starts at \<open>x\<close>.\<close>

definition cluster_edge :: "'a::linordered_idom \<Rightarrow> ('a \<times> nat) list \<Rightarrow> nat \<Rightarrow> 'a" where
  "cluster_edge x cs k = x + sum_list (map fst (take k cs))"

definition box_covers :: "('a::linordered_idom \<times> 'a) list \<Rightarrow> 'a \<Rightarrow> bool" where
  "box_covers bs y \<longleftrightarrow> (\<exists>(b, w) \<in> set bs. b \<le> y \<and> y < b + w)"

lemma box_covers_Nil [simp]: "\<not> box_covers [] y"
  by (simp add: box_covers_def)

lemma box_covers_snoc [simp]: "box_covers (bs @ [(b, w)]) y \<longleftrightarrow> box_covers bs y \<or> (b \<le> y \<and> y < b + w)"
  by (auto simp: box_covers_def)

lemma cluster_edge_snoc:
  assumes "k \<le> length cs"
  shows "cluster_edge x (cs @ [c]) k = cluster_edge x cs k"
  using assms by (simp add: cluster_edge_def)

lemma cluster_edge_end: "cluster_edge x (cs @ [c]) (Suc (length cs)) = cluster_edge x cs (length cs) + fst c"
  by (simp add: cluster_edge_def algebra_simps)

text \<open>The clusters that the walk of a line passes, and the points of those that are selected.\<close>

definition in_selected :: "nat \<times> nat \<Rightarrow> 'a::linordered_idom \<Rightarrow> ('a \<times> nat) list \<Rightarrow> 'a \<Rightarrow> bool" where
  "in_selected r x cs y \<longleftrightarrow>
     (\<exists>k < length cs. fst r \<le> snd (cs ! k) \<and> snd (cs ! k) < snd r \<and>
        cluster_edge x cs k \<le> y \<and> y < cluster_edge x cs (Suc k))"

definition selected_among :: "nat \<times> nat \<Rightarrow> ('a \<times> nat) list \<Rightarrow> bool" where
  "selected_among r cs \<longleftrightarrow> (\<exists>c \<in> set cs. fst r \<le> snd c \<and> snd c < snd r)"

lemma in_selected_snoc:
  "in_selected r x (cs @ [c]) y \<longleftrightarrow> in_selected r x cs y \<or>
     (fst r \<le> snd c \<and> snd c < snd r \<and>
      cluster_edge x cs (length cs) \<le> y \<and> y < cluster_edge x cs (length cs) + fst c)"
proof -
  have split: "(\<exists>k < length (cs @ [c]). P k) \<longleftrightarrow> (\<exists>k < length cs. P k) \<or> P (length cs)" for P
    by (auto simp: less_Suc_eq)
  have "cluster_edge x (cs @ [c]) k = cluster_edge x cs k" if "k < length cs" for k
    using that by (simp add: cluster_edge_snoc)
  moreover have "cluster_edge x (cs @ [c]) (Suc k) = cluster_edge x cs (Suc k)" if "k < length cs" for k
    using that by (simp add: cluster_edge_snoc)
  ultimately show ?thesis
    unfolding in_selected_def split cluster_edge_end
    by (auto simp: nth_append cluster_edge_snoc)
qed

lemma selected_among_snoc [simp]:
  "selected_among r (cs @ [c]) \<longleftrightarrow> selected_among r cs \<or> (fst r \<le> snd c \<and> snd c < snd r)"
  by (auto simp: selected_among_def)

definition walk_ok :: "nat \<times> nat \<Rightarrow> 'a::linordered_idom \<Rightarrow> ('a \<times> nat) list \<Rightarrow> 'a select_walk \<Rightarrow> bool" where
  "walk_ok r x cs w \<longleftrightarrow>
     box_advance w = 0 \<and> cur_x w = cluster_edge x cs (length cs) \<and> start_x w \<le> cur_x w \<and>
     (\<forall>y. box_covers (emitted w) y \<or> (start_x w \<le> y \<and> y < cur_x w) \<longleftrightarrow> in_selected r x cs y) \<and>
     (\<forall>(b, d) \<in> set (emitted w). 0 < d) \<and> (cluster_count w \<noteq> 0 \<longleftrightarrow> selected_among r cs)"

lemma walk_ok_seen [simp]: "walk_ok r x cs (w\<lparr>seen_runs := b\<rparr>) = walk_ok r x cs w"
  by (cases w) (simp add: walk_ok_def)

lemma walk_ok_cluster:
  assumes ok: "walk_ok r x cs w" and adv: "0 \<le> fst c"
  shows "walk_ok r x (cs @ [c]) (select_cluster r c w)"
proof (cases "fst r \<le> snd c \<and> snd c < snd r")
  case True
  have "start_x w \<le> y \<and> y < cur_x w + fst c \<longleftrightarrow>
        (start_x w \<le> y \<and> y < cur_x w) \<or> (cur_x w \<le> y \<and> y < cur_x w + fst c)" for y
    using ok adv by (auto simp: walk_ok_def)
  then show ?thesis
    using ok adv True
    by (auto simp: walk_ok_def select_cluster_def Let_def in_selected_snoc cluster_edge_end)
next
  case False
  then show ?thesis
    using ok adv
    by (auto simp: walk_ok_def select_cluster_def Let_def in_selected_snoc cluster_edge_end)
qed

lemma walk_ok_clusters:
  assumes "walk_ok r x cs w" and "\<forall>c \<in> set ds. 0 \<le> fst c"
  shows "walk_ok r x (cs @ ds) (fold (select_cluster r) ds w)"
  using assms
proof (induction ds arbitrary: cs w)
  case (Cons d ds)
  then show ?case
    using Cons.IH [OF walk_ok_cluster [OF Cons.prems(1), of d]] by simp
qed simp

text \<open>The clusters of a line without inline boxes, in visual order.\<close>

fun run_clusters :: "'a line_item list \<Rightarrow> ('a \<times> nat) list" where
  "run_clusters [] = []"
| "run_clusters (GlyphRun _ cs # items) = cs @ run_clusters items"
| "run_clusters (InlineBox _ # items) = run_clusters items"

fun is_run :: "'a line_item \<Rightarrow> bool" where
  "is_run (GlyphRun _ _) = True"
| "is_run (InlineBox _) = False"

lemma walk_ok_items:
  assumes "walk_ok r x cs w" and "\<forall>i \<in> set items. is_run i" and "\<forall>c \<in> set (run_clusters items). 0 \<le> fst c"
  shows "walk_ok r x (cs @ run_clusters items) (fold (select_item r) items w)"
  using assms
proof (induction items arbitrary: cs w)
  case (Cons i items)
  obtain gs ds where i: "i = GlyphRun gs ds"
    using Cons.prems(2) by (cases i) auto
  have "walk_ok r x cs (w\<lparr>seen_runs := True\<rparr>)"
    using Cons.prems(1) by simp
  then have "walk_ok r x (cs @ ds) (select_item r i w)"
    using walk_ok_clusters [of r x cs "w\<lparr>seen_runs := True\<rparr>" ds] Cons.prems(3) by (simp add: i)
  then show ?case
    using Cons.IH Cons.prems by (fastforce simp: i)
qed simp

text \<open>On the first and on the last line of a selection, where the line has no inline boxes and no cluster has a negative
  advance, the boxes emitted cover exactly the points of the selected clusters, and behind the last cluster the width of the
  line break when the selection goes on below or the line has no width of its own but holds a selected cluster; and no box
  is empty.\<close>

theorem selection_boxes_cover:
  fixes line :: "'a::linordered_field parley_line"
  assumes "\<forall>i \<in> set (line_items line). is_run i" and "\<forall>c \<in> set (run_clusters (line_items line)). 0 \<le> fst c"
    and "0 \<le> newline_whitespace line"
  defines "x \<equiv> line_offset line + inline_min_coord line" and "cs \<equiv> run_clusters (line_items line)"
  shows "(box_covers (edge_line_boxes r not_last line) y \<longleftrightarrow> in_selected r x cs y \<or>
           ((not_last \<or> (selected_among r cs \<and> line_advance line = 0)) \<and>
            cluster_edge x cs (length cs) \<le> y \<and> y < cluster_edge x cs (length cs) + newline_whitespace line))
         \<and> (\<forall>(b, w) \<in> set (edge_line_boxes r not_last line). 0 < w)"
proof -
  define w where "w = fold (select_item r) (line_items line)
    \<lparr>emitted = [], start_x = x, cur_x = x, cluster_count = 0, box_advance = 0, seen_runs = False\<rparr>"
  define e where "e = (if not_last \<or> (cluster_count w \<noteq> 0 \<and> line_advance line = 0)
    then cur_x w + newline_whitespace line else cur_x w)"
  have "walk_ok r x [] \<lparr>emitted = [], start_x = x, cur_x = x, cluster_count = 0, box_advance = 0, seen_runs = False\<rparr>"
    by (simp add: walk_ok_def cluster_edge_def in_selected_def selected_among_def)
  from walk_ok_items [OF this assms(1,2)] have ok: "walk_ok r x cs w"
    by (simp add: cs_def w_def)
  have boxes: "edge_line_boxes r not_last line =
      (if e \<noteq> start_x w then emitted w @ [(start_x w, e - start_x w)] else emitted w)"
    by (simp add: edge_line_boxes_def Let_def e_def w_def x_def)
  have e: "start_x w \<le> cur_x w" "cur_x w \<le> e" "cur_x w = cluster_edge x cs (length cs)"
    using ok assms(3) by (auto simp: walk_ok_def e_def)
  have "box_covers (edge_line_boxes r not_last line) y \<longleftrightarrow>
      (box_covers (emitted w) y \<or> (start_x w \<le> y \<and> y < cur_x w)) \<or> (cur_x w \<le> y \<and> y < e)"
    using e by (auto simp: boxes)
  then have 1: "box_covers (edge_line_boxes r not_last line) y \<longleftrightarrow> in_selected r x cs y \<or>
           ((not_last \<or> (selected_among r cs \<and> line_advance line = 0)) \<and>
            cluster_edge x cs (length cs) \<le> y \<and> y < cluster_edge x cs (length cs) + newline_whitespace line)"
    using ok by (auto simp: walk_ok_def e_def)
  have "\<forall>(b, w) \<in> set (edge_line_boxes r not_last line). 0 < w"
    using ok e by (auto simp: boxes walk_ok_def)
  with 1 show ?thesis
    by simp
qed

definition select_line :: "rat parley_line" where
  "select_line = \<lparr>block_min_coord = 0, block_max_coord = 10, line_offset = 0, inline_min_coord = 1, line_advance = 6,
     ascent = 3, descent = 1, explicit_break = True, line_items = [GlyphRun [2, 2] [(2, 0), (2, 1)], GlyphRun [2] [(2, 2)]]\<rparr>"

theorem selection_boxes_cover_witness:
  "edge_line_boxes (1, 3) True select_line = [(3, 5)] \<and> box_covers (edge_line_boxes (1, 3) True select_line) 4 \<and>
   \<not> box_covers (edge_line_boxes (1, 3) True select_line) 2"
proof -
  have "\<forall>i \<in> set (line_items select_line). is_run i" "\<forall>c \<in> set (run_clusters (line_items select_line)). 0 \<le> fst c"
    "0 \<le> newline_whitespace select_line"
    by (simp_all add: select_line_def newline_whitespace_def)
  note cover = selection_boxes_cover [OF this]
  have "box_covers (edge_line_boxes (1, 3) True select_line) 4"
    unfolding cover [THEN conjunct1]
    by (rule disjI1) (auto simp: select_line_def in_selected_def cluster_edge_def intro!: exI [of _ 1])
  moreover have "edge_line_boxes (1, 3) True select_line = [(3, 5)]"
    by code_simp
  ultimately show ?thesis
    by (simp add: box_covers_def)
qed

end
