(* ===== verification/Frame.thy ===== *)
theory Frame
  imports DispatchTree TabStop Scene Pixel "HOL-Library.Word" "HOL-Library.Sublist"
begin

text \<open>
  The frames of a window: \<open>Frame\<close>, \<open>Hitbox\<close> and the drawing state of \<open>Window\<close> in
  \<open>crates/lucie/src/window.rs\<close>.  Drawing fills \<open>next_frame\<close>; the frame drawn before it, \<open>rendered_frame\<close>,
  serves the events and lends its parts to views that have not changed.

  Mouse listeners, input handlers, tooltips, elements, styles and element states are opaque values \<open>'o\<close>.  The key of
  an element state is the identifier of the element with that of the state's type.  \<open>None\<close> is a panic.
\<close>

section \<open>Hitboxes\<close>

datatype hitbox_behavior = Normal | BlockMouse | BlockMouseExceptScroll

datatype window_control_area = ControlDrag | ControlClose | ControlMax | ControlMin

record 'a hitbox =
  hitbox_id :: "64 word"
  hitbox_bounds :: "'a bounds"
  hitbox_mask :: "'a content_mask"
  behavior :: hitbox_behavior

record hit_test =
  hit_ids :: "64 word list"
  hover_hitbox_count :: nat

definition hitbox_id_next :: "64 word \<Rightarrow> 64 word" where
  "hitbox_id_next i = i + 1"

definition is_hovered :: "64 word \<Rightarrow> hit_test \<Rightarrow> bool" where
  "is_hovered i t \<longleftrightarrow> i \<in> set (take (hover_hitbox_count t) (hit_ids t))"

definition should_handle_scroll :: "64 word \<Rightarrow> hit_test \<Rightarrow> bool" where
  "should_handle_scroll i t \<longleftrightarrow> i \<in> set (hit_ids t)"

definition hit :: "'a::linordered_idom point \<Rightarrow> 'a hitbox \<Rightarrow> bool" where
  "hit p h \<longleftrightarrow> contains (intersect (hitbox_bounds h) (mask_bounds (hitbox_mask h))) p"

text \<open>The loop of \<open>Frame::hit_test\<close>; the flag says that \<open>hover_hitbox_count\<close> has been set.\<close>

fun hit_test_loop :: "'a::linordered_idom point \<Rightarrow> 'a hitbox list \<Rightarrow> bool \<Rightarrow> hit_test \<Rightarrow> bool \<times> hit_test" where
  "hit_test_loop p [] is_set t = (is_set, t)"
| "hit_test_loop p (h # hs) is_set t =
     (if hit p h then
        let t = t\<lparr>hit_ids := hit_ids t @ [hitbox_id h]\<rparr>;
            (is_set, t) = (if \<not> is_set \<and> behavior h = BlockMouseExceptScroll
                           then (True, t\<lparr>hover_hitbox_count := length (hit_ids t)\<rparr>) else (is_set, t))
        in if behavior h = BlockMouse then (is_set, t) else hit_test_loop p hs is_set t
      else hit_test_loop p hs is_set t)"

definition hit_test_at :: "'a::linordered_idom point \<Rightarrow> 'a hitbox list \<Rightarrow> hit_test" where
  "hit_test_at p hs =
     (let (is_set, t) = hit_test_loop p (rev hs) False \<lparr>hit_ids = [], hover_hitbox_count = 0\<rparr>
      in if \<not> is_set then t\<lparr>hover_hitbox_count := length (hit_ids t)\<rparr> else t)"

record 'o cursor_style_request =
  request_hitbox_id :: "64 word option"
  request_style :: 'o

text \<open>\<open>Frame::cursor_style\<close>: the fold over the requests from the last one on.\<close>

fun cursor_style_loop :: "hit_test \<Rightarrow> 'o cursor_style_request list \<Rightarrow> 'o option \<Rightarrow> 'o option" where
  "cursor_style_loop t [] style = style"
| "cursor_style_loop t (r # rs) style =
     (case request_hitbox_id r of
        None \<Rightarrow> Some (request_style r)
      | Some i \<Rightarrow> cursor_style_loop t rs
                    (case style of Some s \<Rightarrow> Some s | None \<Rightarrow> if is_hovered i t then Some (request_style r) else None))"

definition cursor_style_of :: "hit_test \<Rightarrow> 'o cursor_style_request list \<Rightarrow> 'o option" where
  "cursor_style_of t rs = cursor_style_loop t (rev rs) None"

section \<open>Frames\<close>

text \<open>The identifier of an element within the window, and that of the type of its state.\<close>

datatype element_key = ElementKey nat nat

record prepaint_state_index =
  hitboxes_index :: nat
  tooltips_index :: nat
  deferred_draws_index :: nat
  dispatch_tree_index :: nat
  prepaint_states_index :: nat

record frame_paint_index =
  scene_index :: nat
  mouse_listeners_index :: nat
  input_handlers_index :: nat
  cursor_styles_index :: nat
  paint_states_index :: nat
  tab_handle_index :: nat

record ('a, 'o) deferred_draw =
  current_view :: nat
  draw_priority :: nat
  parent_node :: nat
  draw_id_stack :: "nat list"
  draw_text_styles :: "'o list"
  draw_rem_size :: 'a
  draw_element :: "'o option"
  absolute_offset :: "'a point"
  prepaint_range :: "prepaint_state_index \<times> prepaint_state_index"
  paint_range :: "frame_paint_index \<times> frame_paint_index"

record ('a, 'l, 'p, 'o) frame =
  frame_focus :: "nat option"
  frame_active :: bool
  element_states :: "element_key \<Rightarrow> 'o option"
  accessed_element_states :: "element_key list"
  mouse_listeners :: "'o option list"
  frame_tree :: "'l dispatch_tree"
  frame_scene :: "('a, 'p) scene"
  hitboxes :: "'a hitbox list"
  window_control_hitboxes :: "(window_control_area \<times> 'a hitbox) list"
  deferred_draws :: "('a, 'o) deferred_draw list"
  input_handlers :: "'o option list"
  tooltip_requests :: "'o option list"
  cursor_styles :: "'o cursor_style_request list"
  frame_tab_stops :: tab_stop_map

definition frame_new :: "('a, 'l, 'p, 'o) frame" where
  "frame_new =
     \<lparr>frame_focus = None, frame_active = False, element_states = (\<lambda>_. None), accessed_element_states = [],
      mouse_listeners = [], frame_tree = tree_new, frame_scene = scene_default, hitboxes = [],
      window_control_hitboxes = [], deferred_draws = [], input_handlers = [], tooltip_requests = [], cursor_styles = [],
      frame_tab_stops = tab_default\<rparr>"

definition frame_clear :: "('a, 'l, 'p, 'o) frame \<Rightarrow> ('a, 'l, 'p, 'o) frame" where
  "frame_clear f =
     f\<lparr>element_states := (\<lambda>_. None), accessed_element_states := [], mouse_listeners := [],
       frame_tree := tree_clear (frame_tree f), frame_scene := scene_clear (frame_scene f), input_handlers := [],
       tooltip_requests := [], cursor_styles := [], hitboxes := [], window_control_hitboxes := [], deferred_draws := [],
       frame_tab_stops := tab_clear (frame_tab_stops f), frame_focus := None\<rparr>"

text \<open>\<open>Frame::finish\<close>: the states that were accessed move over from the previous frame; it gives both frames.\<close>

fun carry_states :: "element_key list \<Rightarrow> (element_key \<Rightarrow> 'o option) \<Rightarrow> (element_key \<Rightarrow> 'o option) \<Rightarrow>
    (element_key \<Rightarrow> 'o option) \<times> (element_key \<Rightarrow> 'o option)" where
  "carry_states [] new old = (new, old)"
| "carry_states (k # ks) new old =
     (case old k of
        Some s \<Rightarrow> carry_states ks (new(k \<mapsto> s)) (old(k := None))
      | None \<Rightarrow> carry_states ks new old)"

definition frame_finish ::
  "('a, 'l, 'p, 'o) frame \<Rightarrow> ('a, 'l, 'p, 'o) frame \<Rightarrow> ('a, 'l, 'p, 'o) frame \<times> ('a, 'l, 'p, 'o) frame" where
  "frame_finish f prev =
     (let (new, old) = carry_states (accessed_element_states f) (element_states f) (element_states prev)
      in (f\<lparr>element_states := new, frame_scene := scene_finish (frame_scene f)\<rparr>, prev\<lparr>element_states := old\<rparr>))"

definition frame_focus_path :: "('a, 'l, 'p, 'o) frame \<Rightarrow> nat list option" where
  "frame_focus_path f = (case frame_focus f of None \<Rightarrow> Some [] | Some i \<Rightarrow> focus_path i (frame_tree f))"

section \<open>The drawing state of a window\<close>

datatype draw_phase = PhaseNone | PhasePrepaint | PhasePaint | PhaseFocus

record ('a, 'l, 'p, 'o) drawing =
  rendered_frame :: "('a, 'l, 'p, 'o) frame"
  next_frame :: "('a, 'l, 'p, 'o) frame"
  window_focus :: "nat option"
  phase :: draw_phase
  viewport_size :: "'a extent"
  content_mask_stack :: "'a content_mask list"
  element_offset_stack :: "'a point list"
  element_opacity :: 'a
  element_id_stack :: "nat list"
  rendered_entity_stack :: "nat list"
  text_style_stack :: "'o list"
  next_hitbox_id :: "64 word"
  next_tooltip_id :: nat

text \<open>The assertions of a debug build.\<close>

definition debug_assert_paint :: "('a, 'l, 'p, 'o) drawing \<Rightarrow> unit option" where
  "debug_assert_paint w = (if phase w = PhasePaint then Some () else None)"

definition debug_assert_prepaint :: "('a, 'l, 'p, 'o) drawing \<Rightarrow> unit option" where
  "debug_assert_prepaint w = (if phase w = PhasePrepaint then Some () else None)"

definition debug_assert_paint_or_prepaint :: "('a, 'l, 'p, 'o) drawing \<Rightarrow> unit option" where
  "debug_assert_paint_or_prepaint w = (if phase w = PhasePaint \<or> phase w = PhasePrepaint then Some () else None)"

abbreviation update_next ::
  "(('a, 'l, 'p, 'o) frame \<Rightarrow> ('a, 'l, 'p, 'o) frame) \<Rightarrow> ('a, 'l, 'p, 'o) drawing \<Rightarrow> ('a, 'l, 'p, 'o) drawing" where
  "update_next f w \<equiv> w\<lparr>next_frame := f (next_frame w)\<rparr>"

definition content_mask_of :: "('a::linordered_idom, 'l, 'p, 'o) drawing \<Rightarrow> 'a content_mask option" where
  "content_mask_of w = do {
     debug_assert_paint_or_prepaint w;
     Some (case content_mask_stack w of
             [] \<Rightarrow> \<lparr>mask_bounds = \<lparr>origin = point_zero, extent = viewport_size w\<rparr>\<rparr>
           | ms \<Rightarrow> last ms) }"

definition element_offset :: "('a::linordered_idom, 'l, 'p, 'o) drawing \<Rightarrow> 'a point option" where
  "element_offset w = do {
     debug_assert_prepaint w;
     Some (case element_offset_stack w of [] \<Rightarrow> point_zero | ps \<Rightarrow> last ps) }"

text \<open>The methods that run a closure in a changed context take it as a function of the state.\<close>

definition with_content_mask ::
  "'a content_mask option \<Rightarrow> (('a::linordered_idom, 'l, 'p, 'o) drawing \<Rightarrow> ('r \<times> ('a, 'l, 'p, 'o) drawing) option) \<Rightarrow>
     ('a, 'l, 'p, 'o) drawing \<Rightarrow> ('r \<times> ('a, 'l, 'p, 'o) drawing) option" where
  "with_content_mask new_mask f w = do {
     debug_assert_paint_or_prepaint w;
     (case new_mask of
        None \<Rightarrow> f w
      | Some m \<Rightarrow> do {
          current \<leftarrow> content_mask_of w;
          (r, w) \<leftarrow> f (w\<lparr>content_mask_stack := content_mask_stack w @ [mask_intersect m current]\<rparr>);
          Some (r, w\<lparr>content_mask_stack := butlast (content_mask_stack w)\<rparr>) }) }"

definition with_absolute_element_offset ::
  "'a point \<Rightarrow> (('a::linordered_idom, 'l, 'p, 'o) drawing \<Rightarrow> ('r \<times> ('a, 'l, 'p, 'o) drawing) option) \<Rightarrow>
     ('a, 'l, 'p, 'o) drawing \<Rightarrow> ('r \<times> ('a, 'l, 'p, 'o) drawing) option" where
  "with_absolute_element_offset offset f w = do {
     debug_assert_prepaint w;
     (r, w) \<leftarrow> f (w\<lparr>element_offset_stack := element_offset_stack w @ [offset]\<rparr>);
     Some (r, w\<lparr>element_offset_stack := butlast (element_offset_stack w)\<rparr>) }"

definition with_element_offset ::
  "'a point \<Rightarrow> (('a::linordered_idom, 'l, 'p, 'o) drawing \<Rightarrow> ('r \<times> ('a, 'l, 'p, 'o) drawing) option) \<Rightarrow>
     ('a, 'l, 'p, 'o) drawing \<Rightarrow> ('r \<times> ('a, 'l, 'p, 'o) drawing) option" where
  "with_element_offset offset f w = do {
     debug_assert_prepaint w;
     if offset = point_zero then f w
     else do {
       current \<leftarrow> element_offset w;
       with_absolute_element_offset (point_add current offset) f w } }"

definition with_element_opacity ::
  "'a option \<Rightarrow> (('a::linordered_idom, 'l, 'p, 'o) drawing \<Rightarrow> ('r \<times> ('a, 'l, 'p, 'o) drawing) option) \<Rightarrow>
     ('a, 'l, 'p, 'o) drawing \<Rightarrow> ('r \<times> ('a, 'l, 'p, 'o) drawing) option" where
  "with_element_opacity opacity f w = do {
     debug_assert_paint_or_prepaint w;
     (case opacity of
        None \<Rightarrow> f w
      | Some opacity \<Rightarrow> do {
          let previous_opacity = element_opacity w;
          (r, w) \<leftarrow> f (w\<lparr>element_opacity := previous_opacity * opacity\<rparr>);
          Some (r, w\<lparr>element_opacity := previous_opacity\<rparr>) }) }"

definition with_text_style ::
  "'o option \<Rightarrow> (('a, 'l, 'p, 'o) drawing \<Rightarrow> ('r \<times> ('a, 'l, 'p, 'o) drawing) option) \<Rightarrow>
     ('a, 'l, 'p, 'o) drawing \<Rightarrow> ('r \<times> ('a, 'l, 'p, 'o) drawing) option" where
  "with_text_style style f w = do {
     debug_assert_paint_or_prepaint w;
     (case style of
        None \<Rightarrow> f w
      | Some style \<Rightarrow> do {
          (r, w) \<leftarrow> f (w\<lparr>text_style_stack := text_style_stack w @ [style]\<rparr>);
          Some (r, w\<lparr>text_style_stack := butlast (text_style_stack w)\<rparr>) }) }"

definition with_element_namespace ::
  "nat \<Rightarrow> (('a, 'l, 'p, 'o) drawing \<Rightarrow> ('r \<times> ('a, 'l, 'p, 'o) drawing) option) \<Rightarrow>
     ('a, 'l, 'p, 'o) drawing \<Rightarrow> ('r \<times> ('a, 'l, 'p, 'o) drawing) option" where
  "with_element_namespace i f w = do {
     (r, w) \<leftarrow> f (w\<lparr>element_id_stack := element_id_stack w @ [i]\<rparr>);
     Some (r, w\<lparr>element_id_stack := butlast (element_id_stack w)\<rparr>) }"

definition with_rendered_view ::
  "nat \<Rightarrow> (('a, 'l, 'p, 'o) drawing \<Rightarrow> ('r \<times> ('a, 'l, 'p, 'o) drawing) option) \<Rightarrow>
     ('a, 'l, 'p, 'o) drawing \<Rightarrow> ('r \<times> ('a, 'l, 'p, 'o) drawing) option" where
  "with_rendered_view i f w = do {
     (r, w) \<leftarrow> f (w\<lparr>rendered_entity_stack := rendered_entity_stack w @ [i]\<rparr>);
     Some (r, w\<lparr>rendered_entity_stack := butlast (rendered_entity_stack w)\<rparr>) }"

definition with_tab_group ::
  "int option \<Rightarrow> (('a, 'l, 'p, 'o) drawing \<Rightarrow> ('r \<times> ('a, 'l, 'p, 'o) drawing) option) \<Rightarrow>
     ('a, 'l, 'p, 'o) drawing \<Rightarrow> ('r \<times> ('a, 'l, 'p, 'o) drawing) option" where
  "with_tab_group index f w =
     (case index of
        None \<Rightarrow> f w
      | Some index \<Rightarrow> do {
          let w = update_next (\<lambda>n. n\<lparr>frame_tab_stops := begin_group index (frame_tab_stops n)\<rparr>) w;
          (r, w) \<leftarrow> f w;
          Some (r, update_next (\<lambda>n. n\<lparr>frame_tab_stops := end_group (frame_tab_stops n)\<rparr>) w) })"

section \<open>What elements add to the next frame\<close>

definition insert_hitbox ::
  "'a bounds \<Rightarrow> hitbox_behavior \<Rightarrow> ('a::linordered_idom, 'l, 'p, 'o) drawing \<Rightarrow> ('a hitbox \<times> ('a, 'l, 'p, 'o) drawing) option" where
  "insert_hitbox b behave w = do {
     debug_assert_prepaint w;
     m \<leftarrow> content_mask_of w;
     let h = \<lparr>hitbox_id = next_hitbox_id w, hitbox_bounds = b, hitbox_mask = m, behavior = behave\<rparr>;
     let w = w\<lparr>next_hitbox_id := hitbox_id_next (next_hitbox_id w)\<rparr>;
     Some (h, update_next (\<lambda>n. n\<lparr>hitboxes := hitboxes n @ [h]\<rparr>) w) }"

definition insert_window_control_hitbox ::
  "window_control_area \<Rightarrow> 'a hitbox \<Rightarrow> ('a, 'l, 'p, 'o) drawing \<Rightarrow> ('a, 'l, 'p, 'o) drawing option" where
  "insert_window_control_hitbox area h w = do {
     debug_assert_paint w;
     Some (update_next (\<lambda>n. n\<lparr>window_control_hitboxes := window_control_hitboxes n @ [(area, h)]\<rparr>) w) }"

definition set_cursor_style :: "'o \<Rightarrow> 'a hitbox \<Rightarrow> ('a, 'l, 'p, 'o) drawing \<Rightarrow> ('a, 'l, 'p, 'o) drawing option" where
  "set_cursor_style style h w = do {
     debug_assert_paint w;
     Some (update_next (\<lambda>n. n\<lparr>cursor_styles := cursor_styles n @
       [\<lparr>request_hitbox_id = Some (hitbox_id h), request_style = style\<rparr>]\<rparr>) w) }"

definition set_window_cursor_style :: "'o \<Rightarrow> ('a, 'l, 'p, 'o) drawing \<Rightarrow> ('a, 'l, 'p, 'o) drawing option" where
  "set_window_cursor_style style w = do {
     debug_assert_paint w;
     Some (update_next (\<lambda>n. n\<lparr>cursor_styles := cursor_styles n @ [\<lparr>request_hitbox_id = None, request_style = style\<rparr>]\<rparr>) w) }"

text \<open>A tooltip request carries its number, which \<open>request\<close> joins to the tooltip.\<close>

definition set_tooltip ::
  "(nat \<Rightarrow> 'o) \<Rightarrow> ('a, 'l, 'p, 'o) drawing \<Rightarrow> (nat \<times> ('a, 'l, 'p, 'o) drawing) option" where
  "set_tooltip request w = do {
     debug_assert_prepaint w;
     let i = next_tooltip_id w;
     let w = w\<lparr>next_tooltip_id := i + 1\<rparr>;
     Some (i, update_next (\<lambda>n. n\<lparr>tooltip_requests := tooltip_requests n @ [Some (request i)]\<rparr>) w) }"

definition set_focus_handle :: "nat \<Rightarrow> ('a, 'l, 'p, 'o) drawing \<Rightarrow> ('a, 'l, 'p, 'o) drawing option" where
  "set_focus_handle i w = do {
     debug_assert_prepaint w;
     let w = (if window_focus w = Some i then update_next (\<lambda>n. n\<lparr>frame_focus := Some i\<rparr>) w else w);
     t \<leftarrow> set_focus_id i (frame_tree (next_frame w));
     Some (update_next (\<lambda>n. n\<lparr>frame_tree := t\<rparr>) w) }"

definition frame_set_view_id :: "nat \<Rightarrow> ('a, 'l, 'p, 'o) drawing \<Rightarrow> ('a, 'l, 'p, 'o) drawing option" where
  "frame_set_view_id i w = do {
     debug_assert_prepaint w;
     t \<leftarrow> set_view_id i (frame_tree (next_frame w));
     Some (update_next (\<lambda>n. n\<lparr>frame_tree := t\<rparr>) w) }"

definition on_mouse_event :: "'o \<Rightarrow> ('a, 'l, 'p, 'o) drawing \<Rightarrow> ('a, 'l, 'p, 'o) drawing option" where
  "on_mouse_event listener w = do {
     debug_assert_paint w;
     Some (update_next (\<lambda>n. n\<lparr>mouse_listeners := mouse_listeners n @ [Some listener]\<rparr>) w) }"

definition current_view_of :: "('a, 'l, 'p, 'o) drawing \<Rightarrow> nat option" where
  "current_view_of w = do { debug_assert_paint_or_prepaint w; last_opt (rendered_entity_stack w) }"

definition default_prepaint_index :: prepaint_state_index where
  "default_prepaint_index = \<lparr>hitboxes_index = 0, tooltips_index = 0, deferred_draws_index = 0, dispatch_tree_index = 0,
     prepaint_states_index = 0\<rparr>"

definition default_paint_index :: frame_paint_index where
  "default_paint_index = \<lparr>scene_index = 0, mouse_listeners_index = 0, input_handlers_index = 0, cursor_styles_index = 0,
     paint_states_index = 0, tab_handle_index = 0\<rparr>"

definition defer_draw :: "'o \<Rightarrow> 'a point \<Rightarrow> nat \<Rightarrow> 'a \<Rightarrow> ('a, 'l, 'p, 'o) drawing \<Rightarrow> ('a, 'l, 'p, 'o) drawing option" where
  "defer_draw el offset prio rem_size w = do {
     debug_assert_prepaint w;
     parent \<leftarrow> active_node_id (frame_tree (next_frame w));
     view \<leftarrow> current_view_of w;
     let d = \<lparr>current_view = view, draw_priority = prio, parent_node = parent, draw_id_stack = element_id_stack w,
              draw_text_styles = text_style_stack w, draw_rem_size = rem_size, draw_element = Some el,
              absolute_offset = offset, prepaint_range = (default_prepaint_index, default_prepaint_index),
              paint_range = (default_paint_index, default_paint_index)\<rparr>;
     Some (update_next (\<lambda>n. n\<lparr>deferred_draws := deferred_draws n @ [d]\<rparr>) w) }"

section \<open>Element states\<close>

text \<open>The state is taken out of its box and the box out of the map while the closure runs.\<close>

definition with_element_state ::
  "element_key \<Rightarrow> ('o option \<Rightarrow> ('a, 'l, 'p, 'o) drawing \<Rightarrow> ('r \<times> 'o \<times> ('a, 'l, 'p, 'o) drawing) option) \<Rightarrow>
     ('a, 'l, 'p, 'o) drawing \<Rightarrow> ('r \<times> ('a, 'l, 'p, 'o) drawing) option" where
  "with_element_state k f w = do {
     debug_assert_paint_or_prepaint w;
     let w = update_next (\<lambda>n. n\<lparr>accessed_element_states := accessed_element_states n @ [k]\<rparr>) w;
     let (state, w) =
       (case element_states (next_frame w) k of
          Some s \<Rightarrow> (Some s, update_next (\<lambda>n. n\<lparr>element_states := (element_states n)(k := None)\<rparr>) w)
        | None \<Rightarrow>
            (case element_states (rendered_frame w) k of
               Some s \<Rightarrow> (Some s, w\<lparr>rendered_frame := (rendered_frame w)\<lparr>element_states :=
                                     (element_states (rendered_frame w))(k := None)\<rparr>\<rparr>)
             | None \<Rightarrow> (None, w)));
     (r, s, w) \<leftarrow> f state w;
     Some (r, update_next (\<lambda>n. n\<lparr>element_states := (element_states n)(k \<mapsto> s)\<rparr>) w) }"

text \<open>The end of \<open>Window::draw\<close>: the new frame is finished and becomes the rendered one.\<close>

definition finish_draw :: "('a, 'l, 'p, 'o) drawing \<Rightarrow> ('a, 'l, 'p, 'o) drawing" where
  "finish_draw w =
     (let (new, old) = frame_finish (next_frame w) (rendered_frame w)
      in w\<lparr>phase := PhaseNone, rendered_frame := new, next_frame := frame_clear old\<rparr>)"

section \<open>Ranges of a frame\<close>

definition prepaint_index_of :: "('a, 'l, 'p, 'o) drawing \<Rightarrow> prepaint_state_index" where
  "prepaint_index_of w =
     (let n = next_frame w in
      \<lparr>hitboxes_index = length (hitboxes n), tooltips_index = length (tooltip_requests n),
       deferred_draws_index = length (deferred_draws n), dispatch_tree_index = tree_len (frame_tree n),
       prepaint_states_index = length (accessed_element_states n)\<rparr>)"

definition paint_index_of :: "('a, 'l, 'p, 'o) drawing \<Rightarrow> frame_paint_index" where
  "paint_index_of w =
     (let n = next_frame w in
      \<lparr>scene_index = scene_len (frame_scene n), mouse_listeners_index = length (mouse_listeners n),
       input_handlers_index = length (input_handlers n), cursor_styles_index = length (cursor_styles n),
       paint_states_index = length (accessed_element_states n), tab_handle_index = paint_index (frame_tab_stops n)\<rparr>)"

text \<open>A slice of a vector, which panics when it is out of range, and the vector whose slice has been taken from.\<close>

definition slice_of :: "nat \<Rightarrow> nat \<Rightarrow> 'b list \<Rightarrow> 'b list option" where
  "slice_of a e xs = (if a \<le> e \<and> e \<le> length xs then Some (drop a (take e xs)) else None)"

definition take_slice :: "nat \<Rightarrow> nat \<Rightarrow> 'b option list \<Rightarrow> 'b option list" where
  "take_slice a e xs = take a xs @ replicate (e - a) None @ drop e xs"

fun refresh_draws :: "reused_subtree \<Rightarrow> ('a, 'o) deferred_draw list \<Rightarrow> ('a, 'o) deferred_draw list option" where
  "refresh_draws r [] = Some []"
| "refresh_draws r (d # ds) = do {
     p \<leftarrow> refresh_node_id r (parent_node d);
     ds \<leftarrow> refresh_draws r ds;
     Some (d\<lparr>parent_node := p, draw_element := None\<rparr> # ds) }"

definition reuse_prepaint ::
  "prepaint_state_index \<times> prepaint_state_index \<Rightarrow> ('a, 'l, 'p, 'o) drawing \<Rightarrow> ('a, 'l, 'p, 'o) drawing option" where
  "reuse_prepaint r w = do {
     let (s, e) = r;
     let old = rendered_frame w;
     let n = next_frame w;
     hs \<leftarrow> slice_of (hitboxes_index s) (hitboxes_index e) (hitboxes old);
     ts \<leftarrow> slice_of (tooltips_index s) (tooltips_index e) (tooltip_requests old);
     ks \<leftarrow> slice_of (prepaint_states_index s) (prepaint_states_index e) (accessed_element_states old);
     (t, old_tree, reused) \<leftarrow> reuse_subtree (dispatch_tree_index s, dispatch_tree_index e) (frame_tree old)
                              (window_focus w) (frame_tree n);
     ds \<leftarrow> slice_of (deferred_draws_index s) (deferred_draws_index e) (deferred_draws old);
     ds \<leftarrow> refresh_draws reused ds;
     Some (w\<lparr>
       rendered_frame := old\<lparr>
         tooltip_requests := take_slice (tooltips_index s) (tooltips_index e) (tooltip_requests old),
         frame_tree := old_tree\<rparr>,
       next_frame := n\<lparr>
         hitboxes := hitboxes n @ hs,
         tooltip_requests := tooltip_requests n @ ts,
         accessed_element_states := accessed_element_states n @ ks,
         frame_tree := t,
         frame_focus := (if contains_focus reused then window_focus w else frame_focus n),
         deferred_draws := deferred_draws n @ ds\<rparr>\<rparr>) }"

definition reuse_paint ::
  "frame_paint_index \<times> frame_paint_index \<Rightarrow> ('a::linordered_idom, 'l, 'p, 'o) drawing \<Rightarrow> ('a, 'l, 'p, 'o) drawing option" where
  "reuse_paint r w = do {
     let (s, e) = r;
     let old = rendered_frame w;
     let n = next_frame w;
     cs \<leftarrow> slice_of (cursor_styles_index s) (cursor_styles_index e) (cursor_styles old);
     hs \<leftarrow> slice_of (input_handlers_index s) (input_handlers_index e) (input_handlers old);
     ms \<leftarrow> slice_of (mouse_listeners_index s) (mouse_listeners_index e) (mouse_listeners old);
     ks \<leftarrow> slice_of (paint_states_index s) (paint_states_index e) (accessed_element_states old);
     ops \<leftarrow> slice_of (tab_handle_index s) (tab_handle_index e) (insertion_history (frame_tab_stops old));
     tabs \<leftarrow> tab_replay ops (frame_tab_stops n);
     sc \<leftarrow> scene_replay (scene_index s) (scene_index e) (frame_scene old) (frame_scene n);
     Some (w\<lparr>
       rendered_frame := old\<lparr>
         input_handlers := take_slice (input_handlers_index s) (input_handlers_index e) (input_handlers old),
         mouse_listeners := take_slice (mouse_listeners_index s) (mouse_listeners_index e) (mouse_listeners old)\<rparr>,
       next_frame := n\<lparr>
         cursor_styles := cursor_styles n @ cs,
         input_handlers := input_handlers n @ hs,
         mouse_listeners := mouse_listeners n @ ms,
         accessed_element_states := accessed_element_states n @ ks,
         frame_tab_stops := tabs,
         frame_scene := sc\<rparr>\<rparr>) }"

text \<open>\<open>transact\<close>: prepainting that fails is taken back.\<close>

definition transact ::
  "(('a, 'l, 'p, 'o) drawing \<Rightarrow> (('u + 't) \<times> ('a, 'l, 'p, 'o) drawing) option) \<Rightarrow> ('a, 'l, 'p, 'o) drawing \<Rightarrow>
     (('u + 't) \<times> ('a, 'l, 'p, 'o) drawing) option" where
  "transact f w = do {
     debug_assert_prepaint w;
     let index = prepaint_index_of w;
     (result, w) \<leftarrow> f w;
     (case result of
        Inr _ \<Rightarrow> Some (result, w)
      | Inl _ \<Rightarrow> do {
          let n = next_frame w;
          t \<leftarrow> DispatchTree.truncate (dispatch_tree_index index) (frame_tree n);
          Some (result, w\<lparr>next_frame := n\<lparr>
            hitboxes := take (hitboxes_index index) (hitboxes n),
            tooltip_requests := take (tooltips_index index) (tooltip_requests n),
            deferred_draws := take (deferred_draws_index index) (deferred_draws n),
            frame_tree := t,
            accessed_element_states := take (prepaint_states_index index) (accessed_element_states n)\<rparr>\<rparr>) }) }"

section \<open>What a hit test finds\<close>

text \<open>The hitboxes that a point meets, from the front to the first that blocks it, and those that it hovers.\<close>

fun hit_from_front :: "'a::linordered_idom point \<Rightarrow> 'a hitbox list \<Rightarrow> 'a hitbox list" where
  "hit_from_front p [] = []"
| "hit_from_front p (h # hs) =
     (if hit p h then if behavior h = BlockMouse then [h] else h # hit_from_front p hs else hit_from_front p hs)"

fun hovered_from_front :: "'a::linordered_idom point \<Rightarrow> 'a hitbox list \<Rightarrow> 'a hitbox list" where
  "hovered_from_front p [] = []"
| "hovered_from_front p (h # hs) =
     (if hit p h then if behavior h = Normal then h # hovered_from_front p hs else [h] else hovered_from_front p hs)"

lemma hit_test_loop_set:
  "hit_test_loop p hs True t = (True, t\<lparr>hit_ids := hit_ids t @ map hitbox_id (hit_from_front p hs)\<rparr>)"
  by (induction hs arbitrary: t) (simp_all add: Let_def)

lemma hit_test_loop_eq:
  "(let (is_set, t') = hit_test_loop p hs False t in
      if \<not> is_set then t'\<lparr>hover_hitbox_count := length (hit_ids t')\<rparr> else t') =
   \<lparr>hit_ids = hit_ids t @ map hitbox_id (hit_from_front p hs),
    hover_hitbox_count = length (hit_ids t) + length (hovered_from_front p hs)\<rparr>"
proof (induction hs arbitrary: t)
  case Nil
  then show ?case by simp
next
  case (Cons h hs)
  then show ?case
    by (cases "behavior h") (simp_all add: Let_def hit_test_loop_set)
qed

lemma hovered_prefix: "take (length (hovered_from_front p hs)) (hit_from_front p hs) = hovered_from_front p hs"
proof (induction hs)
  case (Cons h hs)
  then show ?case by (cases "behavior h") simp_all
qed simp

lemma hit_test_at_eq:
  "hit_test_at p hs = \<lparr>hit_ids = map hitbox_id (hit_from_front p (rev hs)),
     hover_hitbox_count = length (hovered_from_front p (rev hs))\<rparr>"
  using hit_test_loop_eq [of p "rev hs" "\<lparr>hit_ids = [], hover_hitbox_count = 0\<rparr>"] by (simp add: hit_test_at_def)

lemma hit_from_front_subset: "set (hit_from_front p hs) \<subseteq> set hs" "set (hovered_from_front p hs) \<subseteq> set hs"
  by (induction hs) auto

lemma id_among:
  assumes "xs \<subseteq> set fs \<union> insert h (set bs)" and "hitbox_id h \<notin> hitbox_id ` (set fs \<union> set bs)"
  shows "hitbox_id h \<in> hitbox_id ` xs \<longleftrightarrow> h \<in> xs"
  using assms by (auto simp: image_iff)

lemma hit_from_front_split:
  assumes "h \<notin> set fs"
  shows "h \<in> set (hit_from_front p (fs @ h # bs)) \<longleftrightarrow>
           (hit p h \<or> h \<in> set (hit_from_front p bs)) \<and> (\<forall>g \<in> set fs. hit p g \<longrightarrow> behavior g \<noteq> BlockMouse)"
    and "h \<in> set (hovered_from_front p (fs @ h # bs)) \<longleftrightarrow>
           (hit p h \<or> h \<in> set (hovered_from_front p bs)) \<and> (\<forall>g \<in> set fs. hit p g \<longrightarrow> behavior g = Normal)"
  using assms by (induction fs) auto

text \<open>C15: a hitbox handles scrolling exactly when the point is in it, clipped by its mask, and in no hitbox in front of it
  that blocks the mouse; it is hovered exactly when the point is in it and in no hitbox in front of it that blocks the mouse
  in either way.\<close>

theorem hit_test_front_to_back:
  assumes "distinct (map hitbox_id (back @ h # front))"
  shows "(should_handle_scroll (hitbox_id h) (hit_test_at p (back @ h # front)) \<longleftrightarrow>
            hit p h \<and> (\<forall>g \<in> set front. hit p g \<longrightarrow> behavior g \<noteq> BlockMouse)) \<and>
         (is_hovered (hitbox_id h) (hit_test_at p (back @ h # front)) \<longleftrightarrow>
            hit p h \<and> (\<forall>g \<in> set front. hit p g \<longrightarrow> behavior g = Normal))"
proof -
  let ?all = "rev front @ h # rev back"
  have other: "hitbox_id h \<notin> hitbox_id ` (set (rev front) \<union> set (rev back))"
    using assms by auto
  then have out: "h \<notin> set (rev front)" "h \<notin> set (rev back)"
    by auto
  have "hitbox_id h \<in> hitbox_id ` set (hit_from_front p ?all) \<longleftrightarrow> h \<in> set (hit_from_front p ?all)"
    "hitbox_id h \<in> hitbox_id ` set (hovered_from_front p ?all) \<longleftrightarrow> h \<in> set (hovered_from_front p ?all)"
    using id_among [OF _ other] hit_from_front_subset [of p ?all] by auto
  moreover have "h \<notin> set (hit_from_front p (rev back))" "h \<notin> set (hovered_from_front p (rev back))"
    using hit_from_front_subset [of p "rev back"] out by auto
  ultimately show ?thesis
    using hit_from_front_split [OF out(1), of p "rev back"]
    by (simp add: should_handle_scroll_def is_hovered_def hit_test_at_eq take_map hovered_prefix)
qed

definition three_boxes :: "rat hitbox list" where
  "three_boxes =
     (let b = \<lparr>origin = \<lparr>pt_x = 0, pt_y = 0\<rparr>, extent = \<lparr>width = 4, height = 4\<rparr>\<rparr>; m = \<lparr>mask_bounds = b\<rparr> in
      [\<lparr>hitbox_id = 1, hitbox_bounds = b, hitbox_mask = m, behavior = Normal\<rparr>,
       \<lparr>hitbox_id = 2, hitbox_bounds = b, hitbox_mask = m, behavior = BlockMouseExceptScroll\<rparr>,
       \<lparr>hitbox_id = 3, hitbox_bounds = b, hitbox_mask = m, behavior = Normal\<rparr>])"

theorem hit_test_front_to_back_witness:
  "should_handle_scroll 1 (hit_test_at \<lparr>pt_x = 1, pt_y = 1\<rparr> three_boxes) \<and>
   \<not> is_hovered 1 (hit_test_at \<lparr>pt_x = 1, pt_y = 1\<rparr> three_boxes)"
proof -
  have split: "three_boxes = [] @ hd three_boxes # tl three_boxes"
    by (simp add: three_boxes_def Let_def)
  have "distinct (map hitbox_id ([] @ hd three_boxes # tl three_boxes))"
    by (simp add: three_boxes_def Let_def)
  note spec = hit_test_front_to_back [OF this, of "\<lparr>pt_x = 1, pt_y = 1\<rparr>", folded split]
  have first: "hitbox_id (hd three_boxes) = 1" "hit \<lparr>pt_x = 1, pt_y = 1\<rparr> (hd three_boxes)"
    "\<forall>g \<in> set (tl three_boxes). behavior g \<noteq> BlockMouse"
    "\<exists>g \<in> set (tl three_boxes). hit \<lparr>pt_x = 1, pt_y = 1\<rparr> g \<and> behavior g \<noteq> Normal"
    by (simp_all add: three_boxes_def Let_def hit_def contains_def intersect_def point_max_def point_min_def
        bottom_right_def from_corners_def)
  show ?thesis
    using spec first by auto
qed

section \<open>The life of element states\<close>

text \<open>The state that \<open>with_element_state\<close> finds under a key.\<close>

definition state_of :: "element_key \<Rightarrow> ('a, 'l, 'p, 'o) drawing \<Rightarrow> 'o option" where
  "state_of k w = (case element_states (next_frame w) k of Some s \<Rightarrow> Some s | None \<Rightarrow> element_states (rendered_frame w) k)"

text \<open>A state is in one frame only, and in the next frame only under a key that has been accessed.\<close>

definition states_ok :: "('a, 'l, 'p, 'o) drawing \<Rightarrow> bool" where
  "states_ok w \<longleftrightarrow> (\<forall>k. element_states (next_frame w) k \<noteq> None \<longrightarrow>
     element_states (rendered_frame w) k = None \<and> k \<in> set (accessed_element_states (next_frame w)))"

lemma carry_states_eq:
  "fst (carry_states ks new old) k = (if k \<in> set ks \<and> old k \<noteq> None then old k else new k)"
proof (induction ks arbitrary: new old)
  case (Cons j ks)
  then show ?case by (cases "old j") auto
qed simp

lemma finish_draw_frames:
  "element_states (rendered_frame (finish_draw w)) k =
     (if k \<in> set (accessed_element_states (next_frame w)) \<and> element_states (rendered_frame w) k \<noteq> None
      then element_states (rendered_frame w) k else element_states (next_frame w) k)"
  "element_states (next_frame (finish_draw w)) = (\<lambda>_. None)"
  by (simp_all add: finish_draw_def frame_finish_def frame_clear_def Let_def split_def carry_states_eq)

lemma states_ok_start [simp]: "states_ok (finish_draw w)"
  by (simp add: states_ok_def finish_draw_frames)

text \<open>What a closure may do to the states: use them through \<open>with_element_state\<close>.\<close>

definition keeps_states :: "(('a, 'l, 'p, 'o) drawing \<Rightarrow> ('r \<times> 'o \<times> ('a, 'l, 'p, 'o) drawing) option) \<Rightarrow> bool" where
  "keeps_states f \<longleftrightarrow> (\<forall>w r s w'. states_ok w \<longrightarrow> f w = Some (r, s, w') \<longrightarrow> states_ok w' \<and>
     set (accessed_element_states (next_frame w)) \<subseteq> set (accessed_element_states (next_frame w')) \<and>
     (\<forall>k. element_states (rendered_frame w) k = None \<longrightarrow> element_states (rendered_frame w') k = None))"

lemma with_element_state_spec:
  assumes run: "with_element_state k f w = Some (r, w')" and ok: "states_ok w" and f: "\<And>st. keeps_states (f st)"
  shows "\<exists>w1 s w2. f (state_of k w) w1 = Some (r, s, w2) \<and> state_of k w1 = None \<and> states_ok w' \<and>
    state_of k w' = Some s \<and> set (accessed_element_states (next_frame w)) \<subseteq> set (accessed_element_states (next_frame w')) \<and>
    k \<in> set (accessed_element_states (next_frame w'))"
proof -
  define w0 where "w0 = update_next (\<lambda>n. n\<lparr>accessed_element_states := accessed_element_states n @ [k]\<rparr>) w"
  define w1 where "w1 =
    (case element_states (next_frame w0) k of
       Some s \<Rightarrow> update_next (\<lambda>n. n\<lparr>element_states := (element_states n)(k := None)\<rparr>) w0
     | None \<Rightarrow>
         (case element_states (rendered_frame w0) k of
            Some s \<Rightarrow> w0\<lparr>rendered_frame := (rendered_frame w0)\<lparr>element_states :=
                            (element_states (rendered_frame w0))(k := None)\<rparr>\<rparr>
          | None \<Rightarrow> w0))"
  obtain s w2 where f_run: "f (state_of k w) w1 = Some (r, s, w2)" and
    w': "w' = update_next (\<lambda>n. n\<lparr>element_states := (element_states n)(k \<mapsto> s)\<rparr>) w2"
    using run
    by (auto simp: with_element_state_def Let_def w0_def w1_def state_of_def split: option.splits bind_splits)
  have w1: "element_states (next_frame w1) = (element_states (next_frame w))(k := None)"
    "element_states (rendered_frame w1) = (element_states (rendered_frame w))(k := None)"
    "accessed_element_states (next_frame w1) = accessed_element_states (next_frame w) @ [k]"
    using ok by (auto simp: w1_def w0_def states_ok_def fun_eq_iff split: option.split)
  have ok1: "states_ok w1"
    using ok by (auto simp: states_ok_def w1)
  have "states_ok w2" "set (accessed_element_states (next_frame w1)) \<subseteq> set (accessed_element_states (next_frame w2))"
    "element_states (rendered_frame w2) k = None"
    using f [of "state_of k w"] ok1 f_run w1(2) unfolding keeps_states_def by force+
  then show ?thesis
    using f_run w1 by (intro exI [of _ w1] exI [of _ s] exI [of _ w2]) (auto simp: w' states_ok_def state_of_def)
qed


definition a_drawing :: "(rat, unit, unit, nat) drawing" where
  "a_drawing = \<lparr>rendered_frame = frame_new, next_frame = frame_new, window_focus = None, phase = PhasePrepaint,
     viewport_size = \<lparr>width = 10, height = 10\<rparr>, content_mask_stack = [], element_offset_stack = [], element_opacity = 1,
     element_id_stack = [], rendered_entity_stack = [], text_style_stack = [], next_hitbox_id = 0, next_tooltip_id = 0\<rparr>"

definition count_up :: "nat option \<Rightarrow> ('a, 'l, 'p, nat) drawing \<Rightarrow> (nat \<times> nat \<times> ('a, 'l, 'p, nat) drawing) option" where
  "count_up st w = (case st of None \<Rightarrow> Some (0, 1, w) | Some n \<Rightarrow> Some (n, n + 1, w))"


text \<open>A closure that asks for the state it has been given finds none, and what it stores is lost: the check for a re-entrant
  call does not see it.\<close>

lemma reentrant_state_lost:
  assumes "phase w = PhasePrepaint" and "states_ok w"
  shows "\<exists>w'. with_element_state k
      (\<lambda>outer w. do { (inner, w) \<leftarrow> with_element_state k (\<lambda>st w. Some (st, new, w)) w; Some (inner, old, w) }) w = Some (None, w') \<and>
    state_of k w' = Some old"
  using assms
  by (cases "element_states (next_frame w) k"; cases "element_states (rendered_frame w) k")
    (auto simp: with_element_state_def debug_assert_paint_or_prepaint_def states_ok_def state_of_def)

section \<open>Taking back and reusing\<close>

text \<open>What prepainting does to the next frame: it adds at the ends.\<close>

definition extends_frame :: "('a, 'l, 'p, 'o) frame \<Rightarrow> ('a, 'l, 'p, 'o) frame \<Rightarrow> bool" where
  "extends_frame n n' \<longleftrightarrow>
     prefix (hitboxes n) (hitboxes n') \<and> prefix (tooltip_requests n) (tooltip_requests n') \<and>
     prefix (deferred_draws n) (deferred_draws n') \<and> prefix (accessed_element_states n) (accessed_element_states n') \<and>
     prefix (nodes (frame_tree n)) (nodes (frame_tree n')) \<and>
     node_stack (frame_tree n') = node_stack (frame_tree n) \<and>
     context_stack (frame_tree n') = context_stack (frame_tree n) \<and> view_stack (frame_tree n') = view_stack (frame_tree n)"

lemma take_prefix: "prefix xs ys \<Longrightarrow> take (length xs) ys = xs"
  by (auto simp: prefix_def)

lemma path_from_bound: "path_from ns p is \<Longrightarrow> i \<in> set is \<Longrightarrow> i < length ns"
  by (induction ns p "is" rule: path_from.induct) auto


definition failing_prepaint :: "(rat, unit, unit, nat) drawing \<Rightarrow> ((unit + unit) \<times> (rat, unit, unit, nat) drawing) option" where
  "failing_prepaint w = map_option (\<lambda>(_, w). (Inl (), w))
     (insert_hitbox \<lparr>origin = \<lparr>pt_x = 0, pt_y = 0\<rparr>, extent = \<lparr>width = 4, height = 4\<rparr>\<rparr> Normal w)"


lemma slice_of_total: "a \<le> e \<Longrightarrow> e \<le> length xs \<Longrightarrow> slice_of a e xs = Some (drop a (take e xs))"
  by (simp add: slice_of_def)

text \<open>A range of the rendered frame that its indices delimit.\<close>

definition prepaint_range_ok :: "prepaint_state_index \<times> prepaint_state_index \<Rightarrow> ('a, 'l, 'p, 'o) frame \<Rightarrow> bool" where
  "prepaint_range_ok r f \<longleftrightarrow> (let (s, e) = r in
     hitboxes_index s \<le> hitboxes_index e \<and> hitboxes_index e \<le> length (hitboxes f) \<and>
     tooltips_index s \<le> tooltips_index e \<and> tooltips_index e \<le> length (tooltip_requests f) \<and>
     deferred_draws_index s \<le> deferred_draws_index e \<and> deferred_draws_index e \<le> length (deferred_draws f) \<and>
     prepaint_states_index s \<le> prepaint_states_index e \<and> prepaint_states_index e \<le> length (accessed_element_states f) \<and>
     preorder_range (dispatch_tree_index s) (dispatch_tree_index e) (frame_tree f) \<and>
     (\<forall>d \<in> set (drop (deferred_draws_index s) (take (deferred_draws_index e) (deferred_draws f))).
        dispatch_tree_index s \<le> parent_node d \<and> parent_node d < dispatch_tree_index e))"

text \<open>A deferred draw as it is in the next frame: without its element, under the moved node.\<close>

definition moved_draw :: "nat \<Rightarrow> nat \<Rightarrow> ('a, 'o) deferred_draw \<Rightarrow> ('a, 'o) deferred_draw" where
  "moved_draw a n d = d\<lparr>parent_node := parent_node d - a + n, draw_element := None\<rparr>"

lemma refresh_draws_eq:
  assumes "\<forall>d \<in> set ds. a \<le> parent_node d \<and> parent_node d < e" and "old_range r = (a, e)" and "fst (new_range r) = n"
  shows "refresh_draws r ds = Some (map (moved_draw a n) ds)"
  using assms(1) by (induction ds) (auto simp: refresh_node_id_def assms(2,3) moved_draw_def)

text \<open>C40: a view that has not changed is prepainted again from the frame before, without a panic: its hitboxes, tooltips,
  states and dispatch nodes are appended in their order, its deferred draws under the moved nodes, and every index of the
  next frame grows by the length of the range, so that the range can be reused in the frame after it.\<close>

theorem reuse_prepaint_spec:
  assumes "tree_inv (frame_tree (rendered_frame w))" and "tree_inv (frame_tree (next_frame w))"
    and "prepaint_range_ok (s, e) (rendered_frame w)"
  shows "\<exists>w'. reuse_prepaint (s, e) w = Some w' \<and>
    hitboxes (next_frame w') = hitboxes (next_frame w) @
      drop (hitboxes_index s) (take (hitboxes_index e) (hitboxes (rendered_frame w))) \<and>
    tooltip_requests (next_frame w') = tooltip_requests (next_frame w) @
      drop (tooltips_index s) (take (tooltips_index e) (tooltip_requests (rendered_frame w))) \<and>
    accessed_element_states (next_frame w') = accessed_element_states (next_frame w) @
      drop (prepaint_states_index s) (take (prepaint_states_index e) (accessed_element_states (rendered_frame w))) \<and>
    deferred_draws (next_frame w') = deferred_draws (next_frame w) @
      map (moved_draw (dispatch_tree_index s) (tree_len (frame_tree (next_frame w))))
        (drop (deferred_draws_index s) (take (deferred_draws_index e) (deferred_draws (rendered_frame w)))) \<and>
    tree_inv (frame_tree (next_frame w')) \<and>
    prepaint_index_of w' =
      (let i = prepaint_index_of w in
       \<lparr>hitboxes_index = hitboxes_index i + (hitboxes_index e - hitboxes_index s),
        tooltips_index = tooltips_index i + (tooltips_index e - tooltips_index s),
        deferred_draws_index = deferred_draws_index i + (deferred_draws_index e - deferred_draws_index s),
        dispatch_tree_index = dispatch_tree_index i + (dispatch_tree_index e - dispatch_tree_index s),
        prepaint_states_index = prepaint_states_index i + (prepaint_states_index e - prepaint_states_index s)\<rparr>)"
proof -
  note ok = assms(3)[unfolded prepaint_range_ok_def Let_def prod.case]
  let ?a = "dispatch_tree_index s" and ?e = "dispatch_tree_index e" and ?t = "frame_tree (next_frame w)"
  obtain t' s' r new where reuse: "reuse_subtree (?a, ?e) (frame_tree (rendered_frame w)) (window_focus w) ?t = Some (t', s', r)"
    and t': "tree_inv t'" "nodes t' = nodes ?t @ new" "length new = ?e - ?a"
    and r: "old_range r = (?a, ?e)" "fst (new_range r) = tree_len ?t"
  proof -
    have "preorder_range ?a ?e (frame_tree (rendered_frame w))"
      using ok by simp
    from reuse_subtree_eq [OF assms(2,1) this, of "window_focus w"] show thesis
      using that by (auto simp: tree_len_def dest: list_all2_lengthD)
  qed
  have draws: "refresh_draws r (drop (deferred_draws_index s) (take (deferred_draws_index e) (deferred_draws (rendered_frame w)))) =
      Some (map (moved_draw ?a (tree_len ?t))
        (drop (deferred_draws_index s) (take (deferred_draws_index e) (deferred_draws (rendered_frame w)))))"
    using ok r by (intro refresh_draws_eq) auto
  show ?thesis
    using ok t' reuse draws
    by (simp add: reuse_prepaint_def slice_of_total Let_def prepaint_index_of_def tree_len_def)
qed

definition rendered_drawing :: "(rat, unit, unit, nat) drawing" where
  "rendered_drawing = a_drawing\<lparr>rendered_frame := frame_new\<lparr>hitboxes := three_boxes, frame_tree := two_focused\<rparr>\<rparr>"

theorem reuse_prepaint_spec_witness:
  "\<exists>w'. reuse_prepaint (default_prepaint_index, default_prepaint_index\<lparr>hitboxes_index := 2, dispatch_tree_index := 2\<rparr>) rendered_drawing
       = Some w' \<and> hitboxes (next_frame w') = take 2 three_boxes \<and> hitboxes_index (prepaint_index_of w') = 2"
proof -
  have tree: "tree_inv (frame_tree (rendered_frame rendered_drawing))" "tree_inv (frame_tree (next_frame rendered_drawing))"
    using tree_reachable_inv [OF tr_new] tree_reachable_inv [OF two_focused_reachable]
    by (simp_all add: rendered_drawing_def a_drawing_def frame_new_def)
  have "preorder_range 0 2 two_focused"
    using two_focused_path by (auto simp: preorder_range_def two_focused_eval default_node_def)
  then have "prepaint_range_ok (default_prepaint_index, default_prepaint_index\<lparr>hitboxes_index := 2, dispatch_tree_index := 2\<rparr>)
      (rendered_frame rendered_drawing)"
    by (simp add: prepaint_range_ok_def default_prepaint_index_def rendered_drawing_def a_drawing_def frame_new_def
        three_boxes_def Let_def)
  from reuse_prepaint_spec [OF tree this] show ?thesis
    by (auto simp: rendered_drawing_def a_drawing_def frame_new_def default_prepaint_index_def prepaint_index_of_def)
qed

text \<open>The window control areas of a reused view are lost: no range counts them.\<close>

lemma reuse_loses_control_areas:
  assumes "reuse_prepaint r w = Some w1" and "reuse_paint q w1 = Some w2"
  shows "window_control_hitboxes (next_frame w2) = window_control_hitboxes (next_frame w)"
  using assms by (auto simp: reuse_prepaint_def reuse_paint_def Let_def split: bind_splits prod.splits if_splits)

section \<open>Where a tooltip goes\<close>

text \<open>One axis of \<open>prepaint_tooltip\<close>: the mouse, the length of the tooltip and that of the window.\<close>

definition place_axis :: "'a::linordered_idom \<Rightarrow> 'a \<Rightarrow> 'a \<Rightarrow> 'a" where
  "place_axis mouse len limit =
     (let start = mouse + 1; stop = start + len in
      if stop > limit then
        (let new_start = mouse - len - 1 in
         if new_start \<ge> 0 then new_start else max 0 (start - stop - limit))
      else start)"

definition tooltip_bounds :: "'a::linordered_idom point \<Rightarrow> 'a extent \<Rightarrow> 'a extent \<Rightarrow> 'a bounds" where
  "tooltip_bounds mouse tooltip_size viewport =
     \<lparr>origin = \<lparr>pt_x = place_axis (pt_x mouse) (width tooltip_size) (width viewport),
                pt_y = place_axis (pt_y mouse) (height tooltip_size) (height viewport)\<rparr>,
      extent = tooltip_size\<rparr>"

lemma place_axis_fits:
  assumes "0 \<le> mouse" "mouse \<le> limit" "0 \<le> len" "mouse + 1 + len \<le> limit \<or> len + 1 \<le> mouse"
  shows "0 \<le> place_axis mouse len limit \<and> place_axis mouse len limit + len \<le> limit"
  using assms by (auto simp: place_axis_def Let_def)

text \<open>Where it fits on neither side of the mouse the tooltip starts at the edge of the window: the subtraction that should
  move it back by what it sticks out has the wrong sign.\<close>

lemma tooltip_jumps_to_edge:
  assumes "0 \<le> limit" "0 \<le> len" "mouse + 1 + len > limit" "mouse < len + 1"
  shows "place_axis mouse len limit = (0::'a::linordered_idom)"
  using assms by (auto simp: place_axis_def Let_def)

end
