(* ===== verification/InputEvents.thy ===== *)
theory InputEvents
  imports Keystroke Pixel
begin

text \<open>
  Input events: \<open>crates/lucie/src/interactive.rs\<close>.  Lengths are the elements of an ordered ring; the paths of dropped
  files are opaque.
\<close>

record key_down_event =
  down_keystroke :: keystroke
  is_held :: bool
  prefer_character_input :: bool

record key_up_event =
  up_keystroke :: keystroke

record modifiers_changed_event =
  changed_modifiers :: modifiers
  changed_capslock :: bool

datatype touch_phase = TouchStarted | TouchMoved | TouchEnded

datatype navigation_direction = NavBack | NavForward

datatype mouse_button = LeftButton | RightButton | MiddleButton | Navigate navigation_direction

definition all_buttons :: "mouse_button list" where
  "all_buttons = [LeftButton, RightButton, MiddleButton, Navigate NavBack, Navigate NavForward]"

record 'a mouse_down_event =
  down_button :: mouse_button
  down_position :: "'a point"
  down_modifiers :: modifiers
  down_click_count :: nat
  first_mouse :: bool

record 'a mouse_up_event =
  up_button :: mouse_button
  up_position :: "'a point"
  up_modifiers :: modifiers
  up_click_count :: nat

definition down_is_focusing :: "'a mouse_down_event \<Rightarrow> bool" where
  "down_is_focusing e = (case down_button e of LeftButton \<Rightarrow> True | _ \<Rightarrow> False)"

definition up_is_focusing :: "'a mouse_up_event \<Rightarrow> bool" where
  "up_is_focusing e = (case up_button e of LeftButton \<Rightarrow> True | _ \<Rightarrow> False)"

datatype pressure_stage = PressureZero | PressureNormal | PressureForce

record 'a mouse_pressure_event =
  pressure :: 'a
  pressure_stage :: pressure_stage
  pressure_position :: "'a point"
  pressure_modifiers :: modifiers

record 'a mouse_move_event =
  move_position :: "'a point"
  move_pressed_button :: "mouse_button option"
  move_modifiers :: modifiers

definition dragging :: "'a mouse_move_event \<Rightarrow> bool" where
  "dragging e \<longleftrightarrow> move_pressed_button e = Some LeftButton"

record 'a mouse_exit_event =
  exit_position :: "'a point"
  exit_pressed_button :: "mouse_button option"
  exit_modifiers :: modifiers

section \<open>Clicks\<close>

record 'a mouse_click_event =
  click_down :: "'a mouse_down_event"
  click_up :: "'a mouse_up_event"

datatype keyboard_button = EnterKey | SpaceKey

record 'a keyboard_click_event =
  click_key :: keyboard_button
  click_bounds :: "'a bounds"

datatype 'a click_event = MouseClick "'a mouse_click_event" | KeyboardClick "'a keyboard_click_event"

fun click_modifiers :: "'a click_event \<Rightarrow> modifiers" where
  "click_modifiers (KeyboardClick _) = mods_none"
| "click_modifiers (MouseClick e) = up_modifiers (click_up e)"

fun click_position :: "'a::linordered_idom click_event \<Rightarrow> 'a point" where
  "click_position (KeyboardClick e) = bottom_left (click_bounds e)"
| "click_position (MouseClick e) = up_position (click_up e)"

fun click_mouse_position :: "'a click_event \<Rightarrow> 'a point option" where
  "click_mouse_position (KeyboardClick _) = None"
| "click_mouse_position (MouseClick e) = Some (up_position (click_up e))"

fun is_right_click :: "'a click_event \<Rightarrow> bool" where
  "is_right_click (KeyboardClick _) = False"
| "is_right_click (MouseClick e) = (down_button (click_down e) = RightButton \<and> up_button (click_up e) = RightButton)"

fun is_middle_click :: "'a click_event \<Rightarrow> bool" where
  "is_middle_click (KeyboardClick _) = False"
| "is_middle_click (MouseClick e) = (down_button (click_down e) = MiddleButton \<and> up_button (click_up e) = MiddleButton)"

fun standard_click :: "'a click_event \<Rightarrow> bool" where
  "standard_click (KeyboardClick _) = True"
| "standard_click (MouseClick e) = (down_button (click_down e) = LeftButton \<and> up_button (click_up e) = LeftButton)"

fun first_focus :: "'a click_event \<Rightarrow> bool" where
  "first_focus (KeyboardClick _) = False"
| "first_focus (MouseClick e) = first_mouse (click_down e)"

fun click_count :: "'a click_event \<Rightarrow> nat" where
  "click_count (KeyboardClick _) = 1"
| "click_count (MouseClick e) = up_click_count (click_up e)"

fun is_keyboard :: "'a click_event \<Rightarrow> bool" where
  "is_keyboard (MouseClick _) = False"
| "is_keyboard (KeyboardClick _) = True"

section \<open>Scrolling\<close>

datatype 'a scroll_delta = PixelsDelta "'a point" | LinesDelta "'a point"

fun precise :: "'a scroll_delta \<Rightarrow> bool" where
  "precise (PixelsDelta _) = True"
| "precise (LinesDelta _) = False"

fun pixel_delta :: "'a::linordered_idom \<Rightarrow> 'a scroll_delta \<Rightarrow> 'a point" where
  "pixel_delta line_height (PixelsDelta d) = d"
| "pixel_delta line_height (LinesDelta d) = point_new (line_height * pt_x d) (line_height * pt_y d)"

text \<open>The standard library's \<open>signum\<close>, where there is no negative zero: that of zero is one.\<close>

definition signum :: "'a::linordered_idom \<Rightarrow> 'a" where
  "signum x = (if x < 0 then - 1 else 1)"

definition coalesce_axis :: "'a::linordered_idom \<Rightarrow> 'a \<Rightarrow> 'a" where
  "coalesce_axis a b = (if signum a = signum b then a + b else b)"

fun scroll_coalesce :: "'a::linordered_idom scroll_delta \<Rightarrow> 'a scroll_delta \<Rightarrow> 'a scroll_delta" where
  "scroll_coalesce (PixelsDelta a) (PixelsDelta b) =
     PixelsDelta (point_new (coalesce_axis (pt_x a) (pt_x b)) (coalesce_axis (pt_y a) (pt_y b)))"
| "scroll_coalesce (LinesDelta a) (LinesDelta b) =
     LinesDelta (point_new (coalesce_axis (pt_x a) (pt_x b)) (coalesce_axis (pt_y a) (pt_y b)))"
| "scroll_coalesce _ other = other"

record 'a scroll_wheel_event =
  wheel_position :: "'a point"
  wheel_delta :: "'a scroll_delta"
  wheel_modifiers :: modifiers
  wheel_phase :: touch_phase

section \<open>Platform input\<close>

datatype ('a, 'o) file_drop_event = DropEntered "'a point" 'o | DropPending "'a point" | DropSubmit "'a point" | DropExited

datatype ('a, 'o) platform_input =
    KeyDown key_down_event
  | KeyUp key_up_event
  | ModifiersChanged modifiers_changed_event
  | MouseDown "'a mouse_down_event"
  | MouseUp "'a mouse_up_event"
  | MousePressure "'a mouse_pressure_event"
  | MouseMove "'a mouse_move_event"
  | MouseExited "'a mouse_exit_event"
  | ScrollWheel "'a scroll_wheel_event"
  | FileDrop "('a, 'o) file_drop_event"

text \<open>The methods \<open>mouse_event\<close> and \<open>keyboard_event\<close> return the event itself; here they say whether it is one.\<close>

fun is_keyboard_event :: "('a, 'o) platform_input \<Rightarrow> bool" where
  "is_keyboard_event (KeyDown _) = True"
| "is_keyboard_event (KeyUp _) = True"
| "is_keyboard_event (ModifiersChanged _) = True"
| "is_keyboard_event _ = False"

fun is_mouse_event :: "('a, 'o) platform_input \<Rightarrow> bool" where
  "is_mouse_event (KeyDown _) = False"
| "is_mouse_event (KeyUp _) = False"
| "is_mouse_event (ModifiersChanged _) = False"
| "is_mouse_event (MouseDown _) = True"
| "is_mouse_event (MouseUp _) = True"
| "is_mouse_event (MousePressure _) = True"
| "is_mouse_event (MouseMove _) = True"
| "is_mouse_event (MouseExited _) = True"
| "is_mouse_event (ScrollWheel _) = True"
| "is_mouse_event (FileDrop _) = True"

lemma mouse_or_keyboard: "is_mouse_event e \<longleftrightarrow> \<not> is_keyboard_event e"
  by (cases e) simp_all

text \<open>An axis that does not move is taken for one that moves forward: scrolling backwards along it is forgotten.\<close>

lemma coalesce_loses_backward: "a < 0 \<Longrightarrow> coalesce_axis a 0 = 0"
  by (simp add: coalesce_axis_def signum_def)

end
