(* ===== verification/EventDispatch.thy ===== *)
theory EventDispatch
  imports KeyDispatch Frame InputEvents Subscription
begin

text \<open>
  Dispatch of input: \<open>Window::dispatch_event\<close> and what it calls in \<open>crates/lucie/src/window.rs\<close>, with the global
  actions of \<open>crates/lucie/src/app.rs\<close>.  The state holds the fields of the window and of the application that dispatch
  reads and writes.

  Listeners, observers and the platform's input handler are the program's own code: names \<open>'l\<close>, run by
  the field \<open>call\<close> of the environment on a message and the state, which they may change in any way; what they return matters for
  observers (whether they stay) and for the input handler (whether it takes text).  Drawing the window, the clock and
  the standard library's upper case are also fields of the environment.  \<open>None\<close> is a panic.
\<close>

section \<open>State\<close>

datatype dispatch_phase = Capture | Bubble

datatype input_modality = MouseModality | KeyboardModality

record modifier_state =
  state_modifiers :: modifiers
  saw_keystroke :: bool

text \<open>The timer of a pending input is a task that runs \<open>pending_timeout\<close>, unless it is dropped before.\<close>

record pending_input_state =
  pending_keystrokes :: "keystroke list"
  pending_focus :: "nat option"
  timer_set :: bool
  needs_timeout :: bool

text \<open>Times are in nanoseconds.\<close>

record input_rate_tracker =
  timestamps :: "nat list"
  rate_window :: nat
  inputs_per_second :: nat
  sustain_until :: nat
  sustain_duration :: nat

definition rate_default :: "nat \<Rightarrow> input_rate_tracker" where
  "rate_default now = \<lparr>timestamps = [], rate_window = 100000000, inputs_per_second = 60, sustain_until = now,
     sustain_duration = 1000000000\<rparr>"

definition prune_old_timestamps :: "nat \<Rightarrow> input_rate_tracker \<Rightarrow> input_rate_tracker" where
  "prune_old_timestamps now r = r\<lparr>timestamps := filter (\<lambda>t. now - t \<le> rate_window r) (timestamps r)\<rparr>"

definition record_input :: "nat \<Rightarrow> input_rate_tracker \<Rightarrow> input_rate_tracker" where
  "record_input now r =
     (let r = prune_old_timestamps now (r\<lparr>timestamps := timestamps r @ [now]\<rparr>);
          min_events = inputs_per_second r * (rate_window r div 1000000) div 1000
      in if min_events \<le> length (timestamps r) then r\<lparr>sustain_until := now + sustain_duration r\<rparr> else r)"

definition is_high_rate :: "nat \<Rightarrow> input_rate_tracker \<Rightarrow> bool" where
  "is_high_rate now r \<longleftrightarrow> now < sustain_until r"

record ('a, 'l) any_drag =
  drag_value :: 'l
  cursor_offset :: "'a point"
  drag_cursor :: "'l option"

datatype 'l cursor = ArrowCursor | StyledCursor 'l

record ('a, 'l, 'p, 'q) ui =
  propagate_event :: bool
  default_prevented :: bool
  last_input_modality :: input_modality
  mouse_position :: "'a point"
  held_modifiers :: modifiers
  capslock :: bool
  active_drag :: "('a, 'l) any_drag option"
  focus_enabled :: bool
  window_focus :: "nat option"
  rendered_frame :: "('a, 'l, 'p, 'l) frame"
  mouse_hit_test :: hit_test
  pending_modifier :: modifier_state
  pending_input :: "pending_input_state option"
  global_action_listeners :: "nat \<Rightarrow> 'l list option"
  keystroke_interceptors :: "(unit, 'l) subscriber_set"
  keystroke_observers :: "(unit, 'l) subscriber_set"
  pending_input_observers :: "(unit, 'l) subscriber_set"
  input_handler :: "'l option"
  ui_keymap :: "'q keymap"
  dirty :: bool
  not_drawing :: bool
  refreshing :: bool
  hovered :: bool
  window_active :: bool
  platform_cursor :: "'l cursor"
  app_activated :: bool
  deferred_pending_changed :: nat
  input_rate :: input_rate_tracker

datatype ('a, 'l, 'q) message =
    OnMouse "('a, 'l) platform_input" dispatch_phase
  | OnKey "('a, 'l) platform_input" dispatch_phase
  | OnModifiers modifiers_changed_event
  | OnAction "'q action" dispatch_phase
  | OnKeystroke keystroke "'q action option" "key_context list"
  | OnPendingInput
  | AcceptsTextInput
  | TextInput str

record ('a, 'l, 'p, 'q) env =
  call :: "'l \<Rightarrow> ('a, 'l, 'q) message \<Rightarrow> ('a, 'l, 'p, 'q) ui \<Rightarrow> bool \<times> ('a, 'l, 'p, 'q) ui"
  draw_window :: "('a, 'l, 'p, 'q) ui \<Rightarrow> ('a, 'l, 'p, 'q) ui"
  clock :: "('a, 'l, 'p, 'q) ui \<Rightarrow> nat"
  upper :: "str \<Rightarrow> str"
  env_os :: target_os

section \<open>Operations that listeners use\<close>

definition stop_propagation :: "('a, 'l, 'p, 'q) ui \<Rightarrow> ('a, 'l, 'p, 'q) ui" where
  "stop_propagation s = s\<lparr>propagate_event := False\<rparr>"

definition propagate_on :: "('a, 'l, 'p, 'q) ui \<Rightarrow> ('a, 'l, 'p, 'q) ui" where
  "propagate_on s = s\<lparr>propagate_event := True\<rparr>"

definition prevent_default :: "('a, 'l, 'p, 'q) ui \<Rightarrow> ('a, 'l, 'p, 'q) ui" where
  "prevent_default s = s\<lparr>default_prevented := True\<rparr>"

definition refresh :: "('a, 'l, 'p, 'q) ui \<Rightarrow> ('a, 'l, 'p, 'q) ui" where
  "refresh s = (if not_drawing s then s\<lparr>refreshing := True, dirty := True\<rparr> else s)"

definition has_active_drag :: "('a, 'l, 'p, 'q) ui \<Rightarrow> bool" where
  "has_active_drag s \<longleftrightarrow> active_drag s \<noteq> None"

definition stop_active_drag :: "('a, 'l, 'p, 'q) ui \<Rightarrow> bool \<times> ('a, 'l, 'p, 'q) ui" where
  "stop_active_drag s =
     (if active_drag s \<noteq> None then (True, refresh (s\<lparr>active_drag := None\<rparr>)) else (False, s))"

definition set_active_drag_cursor_style :: "'l \<Rightarrow> ('a, 'l, 'p, 'q) ui \<Rightarrow> bool \<times> ('a, 'l, 'p, 'q) ui" where
  "set_active_drag_cursor_style c s =
     (case active_drag s of
        Some d \<Rightarrow> (True, refresh (s\<lparr>active_drag := Some (d\<lparr>drag_cursor := Some c\<rparr>)\<rparr>))
      | None \<Rightarrow> (False, s))"

definition clear_pending_keystrokes :: "('a, 'l, 'p, 'q) ui \<Rightarrow> ('a, 'l, 'p, 'q) ui" where
  "clear_pending_keystrokes s = s\<lparr>pending_input := None\<rparr>"

definition has_pending_keystrokes :: "('a, 'l, 'p, 'q) ui \<Rightarrow> bool" where
  "has_pending_keystrokes s \<longleftrightarrow> pending_input s \<noteq> None"

definition pending_input_keystrokes :: "('a, 'l, 'p, 'q) ui \<Rightarrow> keystroke list option" where
  "pending_input_keystrokes s = map_option pending_keystrokes (pending_input s)"

text \<open>\<open>Window::focus\<close> leaves the notice of its observers to the end of the effect cycle: \<open>deferred_pending_changed\<close> counts it.\<close>

definition focus_on :: "nat \<Rightarrow> ('a, 'l, 'p, 'q) ui \<Rightarrow> ('a, 'l, 'p, 'q) ui" where
  "focus_on h s =
     (if \<not> focus_enabled s \<or> window_focus s = Some h then s
      else refresh ((clear_pending_keystrokes (s\<lparr>window_focus := Some h\<rparr>))
             \<lparr>deferred_pending_changed := deferred_pending_changed s + 1\<rparr>))"

definition blur :: "('a, 'l, 'p, 'q) ui \<Rightarrow> ('a, 'l, 'p, 'q) ui" where
  "blur s = (if \<not> focus_enabled s then s else refresh (s\<lparr>window_focus := None\<rparr>))"

definition disable_focus :: "('a, 'l, 'p, 'q) ui \<Rightarrow> ('a, 'l, 'p, 'q) ui" where
  "disable_focus s = (blur s)\<lparr>focus_enabled := False\<rparr>"

definition is_window_hovered :: "target_os \<Rightarrow> ('a, 'l, 'p, 'q) ui \<Rightarrow> bool" where
  "is_window_hovered os s = (if os \<in> {Windows, Linux, FreeBSD} then hovered s else window_active s)"

definition reset_cursor_style :: "target_os \<Rightarrow> ('a, 'l, 'p, 'q) ui \<Rightarrow> ('a, 'l, 'p, 'q) ui" where
  "reset_cursor_style os s =
     (if is_window_hovered os s then
        s\<lparr>platform_cursor := (case cursor_style_of (mouse_hit_test s) (cursor_styles (rendered_frame s)) of
            Some c \<Rightarrow> StyledCursor c | None \<Rightarrow> ArrowCursor)\<rparr>
      else s)"

definition focus_next :: "('a, 'l, 'p, 'q) ui \<Rightarrow> ('a, 'l, 'p, 'q) ui option" where
  "focus_next s =
     (if \<not> focus_enabled s then Some s
      else do {
        h \<leftarrow> tab_next (window_focus s) (frame_tab_stops (rendered_frame s));
        Some (case h of Some h \<Rightarrow> focus_on (handle_id h) s | None \<Rightarrow> s) })"

definition focus_prev :: "('a, 'l, 'p, 'q) ui \<Rightarrow> ('a, 'l, 'p, 'q) ui option" where
  "focus_prev s =
     (if \<not> focus_enabled s then Some s
      else do {
        h \<leftarrow> tab_prev (window_focus s) (frame_tab_stops (rendered_frame s));
        Some (case h of Some h \<Rightarrow> focus_on (handle_id h) s | None \<Rightarrow> s) })"

abbreviation ui_tree :: "('a, 'l, 'p, 'q) ui \<Rightarrow> 'l dispatch_tree" where
  "ui_tree s \<equiv> frame_tree (rendered_frame s)"

definition focus_node_id_in_rendered_frame :: "nat option \<Rightarrow> ('a, 'l, 'p, 'q) ui \<Rightarrow> nat option" where
  "focus_node_id_in_rendered_frame f s =
     (case Option.bind f (\<lambda>i. focusable_node_id i (ui_tree s)) of Some n \<Rightarrow> Some n | None \<Rightarrow> root_node_id (ui_tree s))"

definition ui_context_stack :: "('a, 'l, 'p, 'q) ui \<Rightarrow> key_context list option" where
  "ui_context_stack s = do {
     n \<leftarrow> focus_node_id_in_rendered_frame (window_focus s) s;
     path \<leftarrow> dispatch_path n (ui_tree s);
     path_contexts (ui_tree s) path }"

definition context_stack_for_focus_handle :: "nat \<Rightarrow> ('a, 'l, 'p, 'q) ui \<Rightarrow> key_context list option option" where
  "context_stack_for_focus_handle h s =
     (case focusable_node_id h (ui_tree s) of
        None \<Rightarrow> Some None
      | Some n \<Rightarrow> do {
          path \<leftarrow> dispatch_path n (ui_tree s);
          ctxs \<leftarrow> path_contexts (ui_tree s) path;
          Some (Some ctxs) })"

definition run_callback :: "('a, 'l, 'p, 'q) env \<Rightarrow> ('a, 'l, 'q) message \<Rightarrow> 'l \<Rightarrow> ('a, 'l, 'p, 'q) ui \<Rightarrow> ('a, 'l, 'p, 'q) ui" where
  "run_callback env m l s = snd (call env l m s)"

section \<open>Mouse events\<close>

text \<open>A loop over mouse listeners that breaks when propagation stops; a listener that was taken makes \<open>unwrap\<close> panic.\<close>

fun run_mouse_listeners ::
  "('l \<Rightarrow> ('a, 'l, 'p, 'q) ui \<Rightarrow> ('a, 'l, 'p, 'q) ui) \<Rightarrow> 'l option list \<Rightarrow> ('a, 'l, 'p, 'q) ui \<Rightarrow> ('a, 'l, 'p, 'q) ui option" where
  "run_mouse_listeners f [] s = Some s"
| "run_mouse_listeners f (None # ls) s = None"
| "run_mouse_listeners f (Some l # ls) s =
     (let s = f l s in if \<not> propagate_event s then Some s else run_mouse_listeners f ls s)"

definition set_mouse_listeners :: "'l option list \<Rightarrow> ('a, 'l, 'p, 'q) ui \<Rightarrow> ('a, 'l, 'p, 'q) ui" where
  "set_mouse_listeners ls s = s\<lparr>rendered_frame := (rendered_frame s)\<lparr>mouse_listeners := ls\<rparr>\<rparr>"

text \<open>The three parts of \<open>dispatch_mouse_event\<close>: before, during and after the listeners run.\<close>

definition update_mouse_hit_test ::
  "target_os \<Rightarrow> ('a::linordered_idom, 'l, 'p, 'q) ui \<Rightarrow> ('a, 'l, 'p, 'q) ui" where
  "update_mouse_hit_test os s =
     (let hit = hit_test_at (mouse_position s) (hitboxes (rendered_frame s)) in
      if hit \<noteq> mouse_hit_test s then reset_cursor_style os (s\<lparr>mouse_hit_test := hit\<rparr>) else s)"

definition follow_drag :: "('a, 'l) platform_input \<Rightarrow> ('a, 'l, 'p, 'q) ui \<Rightarrow> ('a, 'l, 'p, 'q) ui" where
  "follow_drag event s =
     (if has_active_drag s then
        (case event of
           MouseMove _ \<Rightarrow> refresh s
         | MouseUp _ \<Rightarrow> refresh (s\<lparr>active_drag := None\<rparr>)
         | _ \<Rightarrow> s)
      else s)"

definition dispatch_mouse_event ::
  "('a::linordered_idom, 'l, 'p, 'q) env \<Rightarrow> ('a, 'l) platform_input \<Rightarrow> ('a, 'l, 'p, 'q) ui \<Rightarrow> ('a, 'l, 'p, 'q) ui option" where
  "dispatch_mouse_event env event s =
     (let s = update_mouse_hit_test (env_os env) s;
          ls = mouse_listeners (rendered_frame s);
          s = set_mouse_listeners [] s
      in do {
        s \<leftarrow> run_mouse_listeners (run_callback env (OnMouse event Capture)) ls s;
        s \<leftarrow> (if propagate_event s then run_mouse_listeners (run_callback env (OnMouse event Bubble)) (rev ls) s else Some s);
        Some (follow_drag event (set_mouse_listeners ls s)) })"

section \<open>Actions\<close>

text \<open>Loops that return from the function when propagation stops: the flag says that they did.\<close>

fun run_listeners ::
  "('l \<Rightarrow> ('a, 'l, 'p, 'q) ui \<Rightarrow> ('a, 'l, 'p, 'q) ui) \<Rightarrow> 'l list \<Rightarrow> ('a, 'l, 'p, 'q) ui \<Rightarrow> bool \<times> ('a, 'l, 'p, 'q) ui" where
  "run_listeners f [] s = (False, s)"
| "run_listeners f (l # ls) s = (let s = f l s in if \<not> propagate_event s then (True, s) else run_listeners f ls s)"

text \<open>A loop over the nodes of a path, each read from the rendered frame when its turn comes.\<close>

fun run_path ::
  "('l dispatch_node \<Rightarrow> 'l list) \<Rightarrow> ('l \<Rightarrow> ('a, 'l, 'p, 'q) ui \<Rightarrow> ('a, 'l, 'p, 'q) ui) \<Rightarrow> nat list \<Rightarrow>
     ('a, 'l, 'p, 'q) ui \<Rightarrow> (bool \<times> ('a, 'l, 'p, 'q) ui) option" where
  "run_path listeners f [] s = Some (False, s)"
| "run_path listeners f (i # path) s = do {
     n \<leftarrow> nth_opt (nodes (ui_tree s)) i;
     let (returned, s) = run_listeners f (listeners n) s
     in if returned then Some (True, s) else run_path listeners f path s }"

definition listeners_of_type :: "nat \<Rightarrow> 'l dispatch_node \<Rightarrow> 'l list" where
  "listeners_of_type ty n = map snd (filter (\<lambda>(t, _). t = ty) (action_listeners n))"

text \<open>The listeners of a global action are taken out while they run; those added meanwhile come after them.\<close>

definition take_out_globals :: "nat \<Rightarrow> ('a, 'l, 'p, 'q) ui \<Rightarrow> ('a, 'l, 'p, 'q) ui" where
  "take_out_globals ty s = s\<lparr>global_action_listeners := (global_action_listeners s)(ty := None)\<rparr>"

definition put_back_globals :: "nat \<Rightarrow> 'l list \<Rightarrow> ('a, 'l, 'p, 'q) ui \<Rightarrow> ('a, 'l, 'p, 'q) ui" where
  "put_back_globals ty ls s =
     (let added = (case global_action_listeners s ty of Some new \<Rightarrow> new | None \<Rightarrow> []) in
      s\<lparr>global_action_listeners := (global_action_listeners s)(ty \<mapsto> ls @ added)\<rparr>)"

definition global_listeners ::
  "('l list \<Rightarrow> 'l list) \<Rightarrow> ('l \<Rightarrow> ('a, 'l, 'p, 'q) ui \<Rightarrow> ('a, 'l, 'p, 'q) ui) \<Rightarrow> nat \<Rightarrow> ('a, 'l, 'p, 'q) ui \<Rightarrow> ('a, 'l, 'p, 'q) ui" where
  "global_listeners order f ty s =
     (case global_action_listeners s ty of
        None \<Rightarrow> s
      | Some ls \<Rightarrow>
          put_back_globals ty ls
            (snd (run_listeners f (order ls) (take_out_globals ty s))))"

definition bubble_action ::
  "('a, 'l, 'p, 'q) env \<Rightarrow> 'q action \<Rightarrow> 'l \<Rightarrow> ('a, 'l, 'p, 'q) ui \<Rightarrow> ('a, 'l, 'p, 'q) ui" where
  "bubble_action env act l s = run_callback env (OnAction act Bubble) l (s\<lparr>propagate_event := False\<rparr>)"

definition dispatch_action_on_node ::
  "('a, 'l, 'p, 'q) env \<Rightarrow> nat \<Rightarrow> 'q action \<Rightarrow> ('a, 'l, 'p, 'q) ui \<Rightarrow> ('a, 'l, 'p, 'q) ui option" where
  "dispatch_action_on_node env nid act s = do {
     path \<leftarrow> dispatch_path nid (ui_tree s);
     let ty = action_type act;
         s = global_listeners (\<lambda>ls. ls) (run_callback env (OnAction act Capture)) ty (s\<lparr>propagate_event := True\<rparr>)
     in if \<not> propagate_event s then Some s
     else do {
       (returned, s) \<leftarrow> run_path (listeners_of_type ty) (run_callback env (OnAction act Capture)) path s;
       if returned then Some s
       else do {
         (returned, s) \<leftarrow> run_path (listeners_of_type ty) (bubble_action env act) (rev path) s;
         if returned then Some s
         else Some (global_listeners rev (bubble_action env act) ty s) }}}"

definition handle_dispatch_action ::
  "('a, 'l, 'p, 'q) env \<Rightarrow> nat \<Rightarrow> 'q action \<Rightarrow> ('a, 'l, 'p, 'q) ui \<Rightarrow> ('a, 'l, 'p, 'q) ui option" where
  "handle_dispatch_action env h act s =
     (case focusable_node_id h (ui_tree s) of Some n \<Rightarrow> dispatch_action_on_node env n act s | None \<Rightarrow> Some s)"

text \<open>\<open>App::dispatch_global_action\<close>, when no window is active.\<close>

definition dispatch_global_action ::
  "('a, 'l, 'p, 'q) env \<Rightarrow> 'q action \<Rightarrow> ('a, 'l, 'p, 'q) ui \<Rightarrow> ('a, 'l, 'p, 'q) ui" where
  "dispatch_global_action env act s =
     (let ty = action_type act;
          s = global_listeners (\<lambda>ls. ls) (run_callback env (OnAction act Capture)) ty (s\<lparr>propagate_event := True\<rparr>)
      in if propagate_event s then global_listeners rev (run_callback env (OnAction act Bubble)) ty s else s)"

text \<open>\<open>App::on_action\<close>.\<close>

definition on_global_action :: "nat \<Rightarrow> 'l \<Rightarrow> ('a, 'l, 'p, 'q) ui \<Rightarrow> ('a, 'l, 'p, 'q) ui" where
  "on_global_action ty l s =
     (let ls = (case global_action_listeners s ty of Some ls \<Rightarrow> ls | None \<Rightarrow> []) in
      s\<lparr>global_action_listeners := (global_action_listeners s)(ty \<mapsto> ls @ [l])\<rparr>)"

section \<open>Key events\<close>

definition run_observer ::
  "('a, 'l, 'p, 'q) env \<Rightarrow> ('a, 'l, 'q) message \<Rightarrow> 'l \<Rightarrow> ('a, 'l, 'p, 'q) ui \<Rightarrow> ('l \<times> bool \<times> ('a, 'l, 'p, 'q) ui) option" where
  "run_observer env m l s = (let (keep, s) = call env l m s in Some (l, keep, s))"

definition dispatch_keystroke_observers ::
  "('a, 'l, 'p, 'q) env \<Rightarrow> ('a, 'l) platform_input \<Rightarrow> 'q action option \<Rightarrow> key_context list \<Rightarrow> ('a, 'l, 'p, 'q) ui \<Rightarrow>
     ('a, 'l, 'p, 'q) ui option" where
  "dispatch_keystroke_observers env event act ctxs s =
     (case event of
        KeyDown e \<Rightarrow> subscriber_retain keystroke_observers (\<lambda>x s. s\<lparr>keystroke_observers := x\<rparr>) ()
                      (run_observer env (OnKeystroke (down_keystroke e) act ctxs)) s
      | _ \<Rightarrow> Some s)"

definition dispatch_keystroke_interceptors ::
  "('a, 'l, 'p, 'q) env \<Rightarrow> ('a, 'l) platform_input \<Rightarrow> key_context list \<Rightarrow> ('a, 'l, 'p, 'q) ui \<Rightarrow> ('a, 'l, 'p, 'q) ui option" where
  "dispatch_keystroke_interceptors env event ctxs s =
     (case event of
        KeyDown e \<Rightarrow> subscriber_retain keystroke_interceptors (\<lambda>x s. s\<lparr>keystroke_interceptors := x\<rparr>) ()
                      (run_observer env (OnKeystroke (down_keystroke e) None ctxs)) s
      | _ \<Rightarrow> Some s)"

definition pending_input_changed ::
  "('a, 'l, 'p, 'q) env \<Rightarrow> ('a, 'l, 'p, 'q) ui \<Rightarrow> ('a, 'l, 'p, 'q) ui option" where
  "pending_input_changed env s =
     subscriber_retain pending_input_observers (\<lambda>x s. s\<lparr>pending_input_observers := x\<rparr>) () (run_observer env OnPendingInput) s"

definition dispatch_key_down_up_event ::
  "('a, 'l, 'p, 'q) env \<Rightarrow> ('a, 'l) platform_input \<Rightarrow> nat list \<Rightarrow> ('a, 'l, 'p, 'q) ui \<Rightarrow> ('a, 'l, 'p, 'q) ui option" where
  "dispatch_key_down_up_event env event path s = do {
     (returned, s) \<leftarrow> run_path key_listeners (run_callback env (OnKey event Capture)) path s;
     if returned then Some s
     else map_option snd (run_path key_listeners (run_callback env (OnKey event Bubble)) (rev path) s) }"

definition dispatch_modifiers_changed_event ::
  "('a, 'l, 'p, 'q) env \<Rightarrow> ('a, 'l) platform_input \<Rightarrow> nat list \<Rightarrow> ('a, 'l, 'p, 'q) ui \<Rightarrow> ('a, 'l, 'p, 'q) ui option" where
  "dispatch_modifiers_changed_event env event path s =
     (case event of
        ModifiersChanged e \<Rightarrow>
          map_option snd (run_path modifiers_changed_listeners (run_callback env (OnModifiers e)) (rev path) s)
      | _ \<Rightarrow> Some s)"

definition finish_dispatch_key_event ::
  "('a, 'l, 'p, 'q) env \<Rightarrow> ('a, 'l) platform_input \<Rightarrow> nat list \<Rightarrow> key_context list \<Rightarrow> ('a, 'l, 'p, 'q) ui \<Rightarrow>
     ('a, 'l, 'p, 'q) ui option" where
  "finish_dispatch_key_event env event path ctxs s = do {
     s \<leftarrow> dispatch_key_down_up_event env event path s;
     if \<not> propagate_event s then Some s
     else do {
       s \<leftarrow> dispatch_modifiers_changed_event env event path s;
       if \<not> propagate_event s then Some s
       else dispatch_keystroke_observers env event None ctxs s }}"

text \<open>\<open>take_input_handler\<close>, a call on the handler and \<open>set_input_handler\<close>: what it says, if there is one.\<close>

definition with_input_handler ::
  "('a, 'l, 'p, 'q) env \<Rightarrow> ('a, 'l, 'q) message \<Rightarrow> ('a, 'l, 'p, 'q) ui \<Rightarrow> bool option \<times> ('a, 'l, 'p, 'q) ui" where
  "with_input_handler env m s =
     (case input_handler s of
        None \<Rightarrow> (None, s)
      | Some h \<Rightarrow>
          let (answer, s) = call env h m (s\<lparr>input_handler := None\<rparr>) in (Some answer, s\<lparr>input_handler := Some h\<rparr>))"

text \<open>The loops over the bindings of a key stroke: the action that stopped the propagation, if one did.\<close>

fun dispatch_bindings ::
  "('a, 'l, 'p, 'q) env \<Rightarrow> nat \<Rightarrow> 'q key_binding list \<Rightarrow> ('a, 'l, 'p, 'q) ui \<Rightarrow> ('q action option \<times> ('a, 'l, 'p, 'q) ui) option" where
  "dispatch_bindings env nid [] s = Some (None, s)"
| "dispatch_bindings env nid (b # bs) s = do {
     s \<leftarrow> dispatch_action_on_node env nid (action b) s;
     if \<not> propagate_event s then Some (Some (action b), s) else dispatch_bindings env nid bs s }"

definition replayed_event :: "keystroke \<Rightarrow> ('a, 'l) platform_input" where
  "replayed_event k = KeyDown \<lparr>down_keystroke = k, is_held = False, prefer_character_input = True\<rparr>"

text \<open>The body of the loop of \<open>replay_pending_input\<close>.\<close>

definition replay_one ::
  "('a, 'l, 'p, 'q) env \<Rightarrow> nat \<Rightarrow> nat list \<Rightarrow> 'q replay \<Rightarrow> ('a, 'l, 'p, 'q) ui \<Rightarrow> ('a, 'l, 'p, 'q) ui option" where
  "replay_one env nid path r s = do {
     let event = replayed_event (replay_keystroke r);
     (handled, s) \<leftarrow> dispatch_bindings env nid (replay_bindings r) (s\<lparr>propagate_event := True\<rparr>);
     (case handled of
        Some act \<Rightarrow> dispatch_keystroke_observers env event (Some act) [] s
      | None \<Rightarrow> do {
          s \<leftarrow> dispatch_key_down_up_event env event path s;
          if \<not> propagate_event s then Some s
          else Some (case key_char (replay_keystroke r) of
                       Some input \<Rightarrow> snd (with_input_handler env (TextInput input) s)
                     | None \<Rightarrow> s) }) }"

fun replay_all ::
  "('a, 'l, 'p, 'q) env \<Rightarrow> nat \<Rightarrow> nat list \<Rightarrow> 'q replay list \<Rightarrow> ('a, 'l, 'p, 'q) ui \<Rightarrow> ('a, 'l, 'p, 'q) ui option" where
  "replay_all env nid path [] s = Some s"
| "replay_all env nid path (r # rs) s = do { s \<leftarrow> replay_one env nid path r s; replay_all env nid path rs s }"

definition replay_pending_input ::
  "('a, 'l, 'p, 'q) env \<Rightarrow> 'q replay list \<Rightarrow> ('a, 'l, 'p, 'q) ui \<Rightarrow> ('a, 'l, 'p, 'q) ui option" where
  "replay_pending_input env rs s = do {
     nid \<leftarrow> focus_node_id_in_rendered_frame (window_focus s) s;
     path \<leftarrow> dispatch_path nid (ui_tree s);
     replay_all env nid path rs s }"

text \<open>The task of the timer, a second after the last key stroke.\<close>

definition pending_timeout ::
  "('a, 'l, 'p, 'q) env \<Rightarrow> ('a, 'l, 'p, 'q) ui \<Rightarrow> ('a, 'l, 'p, 'q) ui option" where
  "pending_timeout env s =
     (case pending_input s of
        None \<Rightarrow> Some s
      | Some p \<Rightarrow>
          let s = s\<lparr>pending_input := None\<rparr> in
          if pending_focus p \<noteq> window_focus s then Some s
          else do {
            nid \<leftarrow> focus_node_id_in_rendered_frame (window_focus s) s;
            path \<leftarrow> dispatch_path nid (ui_tree s);
            rs \<leftarrow> flush_dispatch (env_os env) (ui_keymap s) (ui_tree s) (pending_keystrokes p) path;
            s \<leftarrow> pending_input_changed env s;
            replay_pending_input env rs s })"

text \<open>The key stroke of a modifier pressed and released alone; the match takes the first one that is down.\<close>

definition modifier_key :: "modifiers \<Rightarrow> str option" where
  "modifier_key m =
     (if shift m then Some ''shift'' else if control m then Some ''control'' else if alt m then Some ''alt''
      else if platform m then Some ''platform'' else if function_key m then Some ''function'' else None)"

definition track_modifiers ::
  "('a, 'l) platform_input \<Rightarrow> modifier_state \<Rightarrow> keystroke option \<times> modifier_state" where
  "track_modifiers event p =
     (case event of
        ModifiersChanged e \<Rightarrow>
          let now = changed_modifiers e;
              tap = (if number_of_modifiers now = 0 \<and> number_of_modifiers (state_modifiers p) = 1 \<and> \<not> saw_keystroke p
                     then map_option (\<lambda>k. \<lparr>modifiers = mods_none, key = k, key_char = None\<rparr>) (modifier_key (state_modifiers p))
                     else None);
              p = (if number_of_modifiers (state_modifiers p) = 0 \<and> number_of_modifiers now = 1
                   then p\<lparr>saw_keystroke := False\<rparr> else p)
          in (tap, p\<lparr>state_modifiers := now\<rparr>)
      | KeyDown e \<Rightarrow> (Some (down_keystroke e), p\<lparr>saw_keystroke := True\<rparr>)
      | _ \<Rightarrow> (None, p))"

definition pending_default :: pending_input_state where
  "pending_default = \<lparr>pending_keystrokes = [], pending_focus = None, timer_set = False, needs_timeout = False\<rparr>"

definition take_pending_input :: "('a, 'l, 'p, 'q) ui \<Rightarrow> pending_input_state \<times> ('a, 'l, 'p, 'q) ui" where
  "take_pending_input s =
     (let p = (case pending_input s of Some p \<Rightarrow> p | None \<Rightarrow> pending_default);
          p = (if pending_focus p \<noteq> None \<and> pending_focus p \<noteq> window_focus s then pending_default else p)
      in (p, s\<lparr>pending_input := None\<rparr>))"

text \<open>What the event says of text: whether it could be text, and whether text goes before bindings.\<close>

definition could_be_text :: "('a, 'l) platform_input \<Rightarrow> bool" where
  "could_be_text event = (case event of KeyDown e \<Rightarrow> key_char (down_keystroke e) \<noteq> None | _ \<Rightarrow> False)"

definition prefers_text :: "('a, 'l) platform_input \<Rightarrow> bool" where
  "prefers_text event = (case event of KeyDown e \<Rightarrow> prefer_character_input e | _ \<Rightarrow> False)"

definition accepts_text ::
  "('a, 'l, 'p, 'q) env \<Rightarrow> bool \<Rightarrow> ('a, 'l, 'p, 'q) ui \<Rightarrow> bool \<times> ('a, 'l, 'p, 'q) ui" where
  "accepts_text env asks s =
     (if asks then (let (answer, s) = with_input_handler env AcceptsTextInput s in (answer = Some True, s)) else (False, s))"

text \<open>The branch of \<open>dispatch_key_event\<close> that waits for more key strokes.\<close>

definition keep_pending ::
  "('a, 'l, 'p, 'q) env \<Rightarrow> ('a, 'l) platform_input \<Rightarrow> 'q dispatch_result \<Rightarrow> pending_input_state \<Rightarrow> ('a, 'l, 'p, 'q) ui \<Rightarrow>
     ('a, 'l, 'p, 'q) ui option" where
  "keep_pending env event r p s = do {
     let p = p\<lparr>timer_set := False, pending_keystrokes := pending r, pending_focus := window_focus s\<rparr>;
     let (is_text, s) = accepts_text env (could_be_text event) s;
     let wait = needs_timeout p \<or> pending_has_binding r \<or> is_text;
     let p = p\<lparr>needs_timeout := wait, timer_set := wait\<rparr>;
     s \<leftarrow> pending_input_changed env (s\<lparr>pending_input := Some p\<rparr>);
     Some (s\<lparr>propagate_event := False\<rparr>) }"

text \<open>The branch that dispatches the actions of the bindings, and the listeners of the key when none of them is handled.\<close>

definition dispatch_match ::
  "('a, 'l, 'p, 'q) env \<Rightarrow> ('a, 'l) platform_input \<Rightarrow> nat \<Rightarrow> nat list \<Rightarrow> 'q dispatch_result \<Rightarrow> ('a, 'l, 'p, 'q) ui \<Rightarrow>
     ('a, 'l, 'p, 'q) ui option" where
  "dispatch_match env event nid path r s = do {
     let (skip_bindings, s) = accepts_text env (prefers_text event) s;
     (handled, s) \<leftarrow> (if skip_bindings then Some (None, s) else dispatch_bindings env nid (result_bindings r) s);
     (case handled of
        Some act \<Rightarrow> do {
          s \<leftarrow> dispatch_keystroke_observers env event (Some act) (result_context_stack r) s;
          pending_input_changed env s }
      | None \<Rightarrow> do {
          s \<leftarrow> finish_dispatch_key_event env event path (result_context_stack r) s;
          pending_input_changed env s }) }"

text \<open>\<open>dispatch_key_event\<close> for an event that gives a key stroke.\<close>

definition dispatch_key_stroke ::
  "('a, 'l, 'p, 'q) env \<Rightarrow> ('a, 'l) platform_input \<Rightarrow> nat \<Rightarrow> nat list \<Rightarrow> keystroke \<Rightarrow> ('a, 'l, 'p, 'q) ui \<Rightarrow>
     ('a, 'l, 'p, 'q) ui option" where
  "dispatch_key_stroke env event nid path k s = do {
     ctxs \<leftarrow> ui_context_stack s;
     s \<leftarrow> dispatch_keystroke_interceptors env event ctxs (s\<lparr>propagate_event := True\<rparr>);
     if \<not> propagate_event s then do {
       ctxs \<leftarrow> ui_context_stack s;
       finish_dispatch_key_event env event path ctxs s }
     else do {
       let (p, s) = take_pending_input s;
       r \<leftarrow> dispatch_key (env_os env) (ui_keymap s) (ui_tree s) (pending_keystrokes p) k path;
       s \<leftarrow> (if to_replay r \<noteq> [] then do {
                s \<leftarrow> replay_pending_input env (to_replay r) s;
                Some (s\<lparr>propagate_event := True\<rparr>) }
             else Some s);
       if pending r \<noteq> [] then keep_pending env event r p s
       else dispatch_match env event nid path r s }}"

definition dispatch_key_event ::
  "('a, 'l, 'p, 'q) env \<Rightarrow> ('a, 'l) platform_input \<Rightarrow> ('a, 'l, 'p, 'q) ui \<Rightarrow> ('a, 'l, 'p, 'q) ui option" where
  "dispatch_key_event env event s = do {
     let s = (if dirty s then draw_window env s else s);
     nid \<leftarrow> focus_node_id_in_rendered_frame (window_focus s) s;
     path \<leftarrow> dispatch_path nid (ui_tree s);
     let (k, m) = track_modifiers event (pending_modifier s);
     let s = s\<lparr>pending_modifier := m\<rparr>;
     (case k of
        None \<Rightarrow> do { ctxs \<leftarrow> ui_context_stack s; finish_dispatch_key_event env event path ctxs s }
      | Some k \<Rightarrow> dispatch_key_stroke env event nid path k s) }"

section \<open>Events\<close>

definition modality_of :: "('a, 'l) platform_input \<Rightarrow> input_modality \<Rightarrow> input_modality" where
  "modality_of event m =
     (case event of
        KeyDown _ \<Rightarrow> KeyboardModality
      | ModifiersChanged _ \<Rightarrow> KeyboardModality
      | MouseDown e \<Rightarrow> if down_is_focusing e then MouseModality else m
      | _ \<Rightarrow> m)"

definition dragged_to :: "'a point \<Rightarrow> ('a, 'l) platform_input" where
  "dragged_to p = MouseMove \<lparr>move_position = p, move_pressed_button = Some LeftButton, move_modifiers = mods_none\<rparr>"

text \<open>The match on the event: what the window takes down from it, and the event that goes on.\<close>

fun receive_event ::
  "('a, 'l) platform_input \<Rightarrow> ('a, 'l, 'p, 'q) ui \<Rightarrow> ('a, 'l) platform_input \<times> ('a, 'l, 'p, 'q) ui" where
  "receive_event (MouseMove e) s = (MouseMove e, s\<lparr>mouse_position := move_position e, held_modifiers := move_modifiers e\<rparr>)"
| "receive_event (MouseDown e) s = (MouseDown e, s\<lparr>mouse_position := down_position e, held_modifiers := down_modifiers e\<rparr>)"
| "receive_event (MouseUp e) s = (MouseUp e, s\<lparr>mouse_position := up_position e, held_modifiers := up_modifiers e\<rparr>)"
| "receive_event (MousePressure e) s = (MousePressure e, s)"
| "receive_event (MouseExited e) s = (MouseExited e, s\<lparr>held_modifiers := exit_modifiers e\<rparr>)"
| "receive_event (ModifiersChanged e) s =
     (ModifiersChanged e, s\<lparr>held_modifiers := changed_modifiers e, capslock := changed_capslock e\<rparr>)"
| "receive_event (ScrollWheel e) s = (ScrollWheel e, s\<lparr>mouse_position := wheel_position e, held_modifiers := wheel_modifiers e\<rparr>)"
| "receive_event (FileDrop (DropEntered p files)) s =
     (dragged_to p, s\<lparr>mouse_position := p,
        active_drag := (case active_drag s of
            None \<Rightarrow> Some \<lparr>drag_value = files, cursor_offset = p, drag_cursor = None\<rparr> | Some d \<Rightarrow> Some d)\<rparr>)"
| "receive_event (FileDrop (DropPending p)) s = (dragged_to p, s\<lparr>mouse_position := p\<rparr>)"
| "receive_event (FileDrop (DropSubmit p)) s =
     (MouseUp \<lparr>up_button = LeftButton, up_position = p, up_modifiers = mods_none, up_click_count = 1\<rparr>,
      s\<lparr>app_activated := True, mouse_position := p\<rparr>)"
| "receive_event (FileDrop DropExited) s = (FileDrop DropExited, s\<lparr>active_drag := None\<rparr>)"
| "receive_event (KeyDown e) s = (KeyDown e, s)"
| "receive_event (KeyUp e) s = (KeyUp e, s)"

text \<open>The result is whether to propagate and whether the default is prevented.\<close>

definition dispatch_event ::
  "('a::linordered_idom, 'l, 'p, 'q) env \<Rightarrow> ('a, 'l) platform_input \<Rightarrow> ('a, 'l, 'p, 'q) ui \<Rightarrow>
     ((bool \<times> bool) \<times> ('a, 'l, 'p, 'q) ui) option" where
  "dispatch_event env event s = do {
     let s = s\<lparr>last_input_modality := modality_of event (last_input_modality s), propagate_event := True,
               default_prevented := False\<rparr>;
     let (event, s) = receive_event event s;
     s \<leftarrow> (if is_mouse_event event then dispatch_mouse_event env event s
           else if is_keyboard_event event then dispatch_key_event env event s else Some s);
     let s = (if dirty s then s\<lparr>input_rate := record_input (clock env s) (input_rate s)\<rparr> else s);
     Some ((propagate_event s, default_prevented s), s) }"

definition dispatch_keystroke ::
  "('a::linordered_idom, 'l, 'p, 'q) env \<Rightarrow> keystroke \<Rightarrow> ('a, 'l, 'p, 'q) ui \<Rightarrow> (bool \<times> ('a, 'l, 'p, 'q) ui) option" where
  "dispatch_keystroke env k s = do {
     let k = with_simulated_ime (upper env) k;
     (result, s) \<leftarrow> dispatch_event env (KeyDown \<lparr>down_keystroke = k, is_held = False, prefer_character_input = False\<rparr>) s;
     if \<not> fst result then Some (True, s)
     else (case key_char k of
             None \<Rightarrow> Some (False, s)
           | Some input \<Rightarrow>
               let (answer, s) = with_input_handler env (TextInput input) s in Some (answer \<noteq> None, s)) }"

section \<open>The order of the calls\<close>

text \<open>The calls are made from the first on, up to the end or to the first one after which propagation is stopped.\<close>

definition apply_calls :: "(('a, 'l, 'p, 'q) ui \<Rightarrow> ('a, 'l, 'p, 'q) ui) list \<Rightarrow> ('a, 'l, 'p, 'q) ui \<Rightarrow> ('a, 'l, 'p, 'q) ui" where
  "apply_calls fs s = fold (\<lambda>f s. f s) fs s"

definition delivered ::
  "(('a, 'l, 'p, 'q) ui \<Rightarrow> ('a, 'l, 'p, 'q) ui) list \<Rightarrow> ('a, 'l, 'p, 'q) ui \<Rightarrow> ('a, 'l, 'p, 'q) ui \<Rightarrow> bool" where
  "delivered fs s s' \<longleftrightarrow>
     (\<exists>n \<le> length fs. s' = apply_calls (take n fs) s \<and> (n = length fs \<or> 0 < n \<and> \<not> propagate_event s') \<and>
        (\<forall>m. 0 < m \<and> m < n \<longrightarrow> propagate_event (apply_calls (take m fs) s)))"

fun run_calls :: "(('a, 'l, 'p, 'q) ui \<Rightarrow> ('a, 'l, 'p, 'q) ui) list \<Rightarrow> ('a, 'l, 'p, 'q) ui \<Rightarrow> ('a, 'l, 'p, 'q) ui" where
  "run_calls [] s = s"
| "run_calls (f # fs) s = (if propagate_event (f s) then run_calls fs (f s) else f s)"

lemma apply_calls_simps [simp]: "apply_calls [] s = s" "apply_calls (f # fs) s = apply_calls fs (f s)"
  by (simp_all add: apply_calls_def)

lemma run_calls_delivered: "delivered fs s (run_calls fs s)"
proof (induction fs arbitrary: s)
  case Nil
  then show ?case by (simp add: delivered_def)
next
  case (Cons f fs)
  show ?case
  proof (cases "propagate_event (f s)")
    case True
    obtain n where n: "n \<le> length fs" "run_calls fs (f s) = apply_calls (take n fs) (f s)"
      "n = length fs \<or> 0 < n \<and> \<not> propagate_event (run_calls fs (f s))"
      "\<forall>m. 0 < m \<and> m < n \<longrightarrow> propagate_event (apply_calls (take m fs) (f s))"
      using Cons [of "f s"] by (auto simp: delivered_def)
    have "propagate_event (apply_calls (take m (f # fs)) s)" if "0 < m \<and> m < Suc n" for m
      using that n(4) True by (cases m; cases "m - 1 = 0") auto
    then show ?thesis using n True by (auto simp: delivered_def intro!: exI [of _ "Suc n"])
  next
    case False
    then show ?thesis by (auto simp: delivered_def intro!: exI [of _ 1])
  qed
qed

lemma run_calls_append:
  "propagate_event s \<Longrightarrow>
     run_calls (fs @ gs) s = (if propagate_event (run_calls fs s) then run_calls gs (run_calls fs s) else run_calls fs s)"
  by (induction fs arbitrary: s) auto

lemma run_mouse_listeners_eq: "run_mouse_listeners f (map Some ls) s = Some (run_calls (map f ls) s)"
  by (induction ls arbitrary: s) (auto simp: Let_def)

lemma run_listeners_eq:
  "propagate_event s \<Longrightarrow>
     run_listeners f ls s = (\<not> propagate_event (run_calls (map f ls) s), run_calls (map f ls) s)"
  by (induction ls arbitrary: s) (auto simp: Let_def)

lemma run_calls_keeps:
  "(\<And>f t. f \<in> set fs \<Longrightarrow> g (f t) = g t) \<Longrightarrow> g (run_calls fs s) = g s"
  by (induction fs arbitrary: s) auto

lemma run_path_eq:
  fixes f :: "'l \<Rightarrow> ('a, 'l, 'p, 'q) ui \<Rightarrow> ('a, 'l, 'p, 'q) ui"
  assumes keeps: "\<And>l t. ui_tree (f l t) = ui_tree t"
  shows "propagate_event s \<Longrightarrow> ui_tree s = t \<Longrightarrow> \<forall>i \<in> set path. i < length (nodes t) \<Longrightarrow>
    run_path L f path s =
      (let s' = run_calls (concat (map (\<lambda>i. map f (L (nodes t ! i))) path)) s in Some (\<not> propagate_event s', s'))"
proof (induction path arbitrary: s)
  case (Cons i path)
  let ?s = "run_calls (map f (L (nodes t ! i))) s"
  have "ui_tree ?s = t" using Cons.prems(2) by (subst run_calls_keeps) (auto simp: keeps)
  then show ?case using Cons by (auto simp: nth_opt_def run_listeners_eq run_calls_append Let_def)
qed simp

text \<open>A global listener runs while the listeners of its action are taken out of the table.\<close>

definition taken_out ::
  "nat \<Rightarrow> 'l list \<Rightarrow> (('a, 'l, 'p, 'q) ui \<Rightarrow> ('a, 'l, 'p, 'q) ui) \<Rightarrow> ('a, 'l, 'p, 'q) ui \<Rightarrow> ('a, 'l, 'p, 'q) ui" where
  "taken_out ty ls f s =
     put_back_globals ty ls (f (take_out_globals ty s))"

lemma put_back_propagate [simp]: "propagate_event (put_back_globals ty ls s) = propagate_event s"
  "rendered_frame (put_back_globals ty ls s) = rendered_frame s"
  by (simp_all add: put_back_globals_def Let_def)

lemma global_listeners_eq:
  fixes f :: "'l \<Rightarrow> ('a, 'l, 'p, 'q) ui \<Rightarrow> ('a, 'l, 'p, 'q) ui"
  assumes keeps: "\<And>l t. global_action_listeners (f l t) = global_action_listeners t"
    and s: "propagate_event s" "global_action_listeners s ty = Some ls"
  shows "global_listeners order f ty s = run_calls (map (\<lambda>l. taken_out ty ls (f l)) (order ls)) s"
proof -
  have restore: "put_back_globals ty ls (take_out_globals ty s) = s" if "global_action_listeners s ty = Some ls" for s :: "('a, 'l, 'p, 'q) ui"
  proof -
    have "(global_action_listeners s)(ty \<mapsto> ls) = global_action_listeners s" using that by auto
    then show ?thesis by (simp add: put_back_globals_def take_out_globals_def)
  qed
  have step: "take_out_globals ty (taken_out ty ls (f l) s) = f l (take_out_globals ty s)"
    "global_action_listeners (taken_out ty ls (f l) s) ty = Some ls" for l and s :: "('a, 'l, 'p, 'q) ui"
  proof -
    have "(global_action_listeners (f l (take_out_globals ty s)))(ty := None) = global_action_listeners (f l (take_out_globals ty s))"
      using keeps by (auto simp: take_out_globals_def)
    then show "take_out_globals ty (taken_out ty ls (f l) s) = f l (take_out_globals ty s)"
      by (simp add: taken_out_def put_back_globals_def take_out_globals_def Let_def)
    show "global_action_listeners (taken_out ty ls (f l) s) ty = Some ls"
      using keeps by (simp add: taken_out_def put_back_globals_def take_out_globals_def Let_def)
  qed
  have "put_back_globals ty ls (snd (run_listeners f xs (take_out_globals ty s))) = run_calls (map (\<lambda>l. taken_out ty ls (f l)) xs) s"
    if "propagate_event s" "global_action_listeners s ty = Some ls" for xs and s :: "('a, 'l, 'p, 'q) ui"
    using that
  proof (induction xs arbitrary: s)
    case Nil
    then show ?case by (simp add: restore)
  next
    case (Cons l xs)
    have p: "propagate_event (taken_out ty ls (f l) s) = propagate_event (f l (take_out_globals ty s))"
      by (simp add: taken_out_def)
    show ?case
    proof (cases "propagate_event (f l (take_out_globals ty s))")
      case True
      then show ?thesis using Cons.IH [of "taken_out ty ls (f l) s"] p step by (simp add: Let_def)
    next
      case False
      then show ?thesis using p by (simp add: Let_def taken_out_def)
    qed
  qed
  then show ?thesis using s by (simp add: global_listeners_def)
qed

text \<open>The calls to the listeners of an action on the nodes of a path, and to the global ones in their order.\<close>

definition node_calls ::
  "('l \<Rightarrow> ('a, 'l, 'p, 'q) ui \<Rightarrow> ('a, 'l, 'p, 'q) ui) \<Rightarrow> nat \<Rightarrow> ('a, 'l, 'p, 'q) ui \<Rightarrow> nat list \<Rightarrow>
     (('a, 'l, 'p, 'q) ui \<Rightarrow> ('a, 'l, 'p, 'q) ui) list" where
  "node_calls f ty s path = concat (map (\<lambda>i. map f (listeners_of_type ty (nodes (ui_tree s) ! i))) path)"

definition global_calls ::
  "('l \<Rightarrow> ('a, 'l, 'p, 'q) ui \<Rightarrow> ('a, 'l, 'p, 'q) ui) \<Rightarrow> nat \<Rightarrow> ('a, 'l, 'p, 'q) ui \<Rightarrow>
     (('a, 'l, 'p, 'q) ui \<Rightarrow> ('a, 'l, 'p, 'q) ui) list" where
  "global_calls f ty s =
     (case global_action_listeners s ty of None \<Rightarrow> [] | Some ls \<Rightarrow> map (\<lambda>l. taken_out ty ls (f l)) ls)"

lemma global_listeners_calls:
  fixes f :: "'l \<Rightarrow> ('a, 'l, 'p, 'q) ui \<Rightarrow> ('a, 'l, 'p, 'q) ui"
  assumes keeps: "\<And>l t. global_action_listeners (f l t) = global_action_listeners t" and s: "propagate_event s"
  shows "global_listeners (\<lambda>ls. ls) f ty s = run_calls (global_calls f ty s) s"
    "global_listeners rev f ty s = run_calls (rev (global_calls f ty s)) s"
  using global_listeners_eq [of f s ty _ "\<lambda>ls. ls", OF keeps s] global_listeners_eq [of f s ty _ rev, OF keeps s]
  by (auto simp: global_calls_def global_listeners_def rev_map split: option.splits)

lemma taken_out_keeps:
  assumes "\<And>t. ui_tree (f t) = ui_tree t" "\<And>t. global_action_listeners (f t) = global_action_listeners t"
    "global_action_listeners t ty = Some ls"
  shows "ui_tree (taken_out ty ls f t) = ui_tree t" "global_action_listeners (taken_out ty ls f t) = global_action_listeners t"
  using assms by (auto simp: taken_out_def put_back_globals_def take_out_globals_def Let_def)

lemma global_run_keeps:
  assumes "\<And>l t. ui_tree (f l t) = ui_tree t" "\<And>l t. global_action_listeners (f l t) = global_action_listeners t"
    "global_action_listeners t ty = Some ls"
  shows "ui_tree (run_calls (map (\<lambda>l. taken_out ty ls (f l)) xs) t) = ui_tree t \<and>
    global_action_listeners (run_calls (map (\<lambda>l. taken_out ty ls (f l)) xs) t) = global_action_listeners t"
  using assms(3)
proof (induction xs arbitrary: t)
  case (Cons l xs)
  note k = taken_out_keeps [of "f l", OF assms(1,2) Cons.prems]
  show ?case using Cons.IH [of "taken_out ty ls (f l) t"] Cons.prems k by simp
qed simp

lemma run_append_eq:
  assumes "propagate_event s" "r = run_calls fs s" "propagate_event r \<Longrightarrow> run_calls gs r = q" "\<not> propagate_event r \<Longrightarrow> r = q"
  shows "q = run_calls (fs @ gs) s"
  using assms by (auto simp: run_calls_append)

lemma node_calls_keep:
  "(\<And>l t. g (f l t) = g t) \<Longrightarrow> g (run_calls (node_calls f ty s path) t) = g t"
  by (rule run_calls_keeps) (auto simp: node_calls_def)

lemma global_calls_keep:
  assumes "\<And>l t. ui_tree (f l t) = ui_tree t" "\<And>l t. global_action_listeners (f l t) = global_action_listeners t"
  shows "ui_tree (run_calls (global_calls f ty t) t) = ui_tree t"
    "global_action_listeners (run_calls (global_calls f ty t) t) = global_action_listeners t"
  using global_run_keeps [of f t ty, OF assms] by (auto simp: global_calls_def split: option.splits)

lemma dispatch_action_eq:
  assumes path: "path_from (nodes (ui_tree s)) None (up @ [nid])"
    and tree: "\<And>l ph t. ui_tree (run_callback env (OnAction act ph) l t) = ui_tree t"
    and globals: "\<And>l ph t. global_action_listeners (run_callback env (OnAction act ph) l t) = global_action_listeners t"
  shows "dispatch_action_on_node env nid act s =
    Some (run_calls (global_calls (run_callback env (OnAction act Capture)) (action_type act) s @
        node_calls (run_callback env (OnAction act Capture)) (action_type act) s (up @ [nid]) @
        node_calls (bubble_action env act) (action_type act) s (rev (up @ [nid])) @
        rev (global_calls (bubble_action env act) (action_type act) s))
      (s\<lparr>propagate_event := True\<rparr>))"
proof -
  let ?ty = "action_type act" and ?c = "run_callback env (OnAction act Capture)" and ?b = "bubble_action env act"
  let ?s = "s\<lparr>propagate_event := True\<rparr>" and ?path = "up @ [nid]"
  have b: "ui_tree (?b l t) = ui_tree t" "global_action_listeners (?b l t) = global_action_listeners t" for l t
    using tree globals by (simp_all add: bubble_action_def)
  have d: "dispatch_path nid (ui_tree s) = Some ?path" using dispatch_path_eq path by blast
  have valid: "\<forall>i \<in> set ?path. i < length (nodes (ui_tree s))" using path path_from_range by blast
  have same: "global_calls f ?ty ?s = global_calls f ?ty s" "node_calls f ?ty ?s p = node_calls f ?ty s p" for f p
    by (simp_all add: global_calls_def node_calls_def)
  let ?s1 = "run_calls (global_calls ?c ?ty s) ?s"
  have s1: "global_listeners (\<lambda>ls. ls) ?c ?ty ?s = ?s1"
    using global_listeners_calls (1) [of ?c ?s ?ty] globals by (simp add: same)
  have k1: "ui_tree ?s1 = ui_tree s" "global_action_listeners ?s1 = global_action_listeners s"
    using global_calls_keep [of ?c ?ty ?s] tree globals by (simp_all add: same)
  let ?s2 = "run_calls (node_calls ?c ?ty s ?path) ?s1"
  have s2: "run_path (listeners_of_type ?ty) ?c ?path ?s1 = Some (\<not> propagate_event ?s2, ?s2)" if "propagate_event ?s1"
    using run_path_eq [of ?c ?s1, OF tree that k1(1) valid] by (simp add: node_calls_def Let_def)
  have k2: "ui_tree ?s2 = ui_tree s" "global_action_listeners ?s2 = global_action_listeners s"
    using node_calls_keep [of ui_tree ?c] node_calls_keep [of global_action_listeners ?c] tree globals k1 by simp_all
  let ?s3 = "run_calls (node_calls ?b ?ty s (rev ?path)) ?s2"
  have s3: "run_path (listeners_of_type ?ty) ?b (rev ?path) ?s2 = Some (\<not> propagate_event ?s3, ?s3)" if "propagate_event ?s2"
    using run_path_eq [of ?b ?s2, OF b(1) that k2(1), of "rev ?path"] valid by (simp add: node_calls_def Let_def)
  have k3: "global_action_listeners ?s3 = global_action_listeners s"
    using node_calls_keep [of global_action_listeners ?b] b(2) k2(2) by simp
  have s4: "global_listeners rev ?b ?ty ?s3 = run_calls (rev (global_calls ?b ?ty s)) ?s3" if "propagate_event ?s3"
    using global_listeners_calls (2) [of ?b ?s3 ?ty, OF b(2) that] k3 by (simp add: global_calls_def)
  show ?thesis
    unfolding dispatch_action_on_node_def d Let_def
    using s1 s2 s3 s4 by (simp del: append_assoc rev_append add: run_calls_append)
qed

text \<open>The key strokes that modifiers give over a sequence of events.\<close>

definition track_all :: "('a, 'l) platform_input list \<Rightarrow> modifier_state \<Rightarrow> modifier_state" where
  "track_all es p = fold (\<lambda>e p. snd (track_modifiers e p)) es p"

fun modifiers_after :: "modifiers \<Rightarrow> ('a, 'l) platform_input list \<Rightarrow> modifiers" where
  "modifiers_after m [] = m"
| "modifiers_after m (ModifiersChanged e # es) = modifiers_after (changed_modifiers e) es"
| "modifiers_after m (_ # es) = modifiers_after m es"

fun is_key_down :: "('a, 'l) platform_input \<Rightarrow> bool" where
  "is_key_down (KeyDown _) = True"
| "is_key_down _ = False"

fun holds_modifiers :: "('a, 'l) platform_input \<Rightarrow> bool" where
  "holds_modifiers (ModifiersChanged e) = (0 < number_of_modifiers (changed_modifiers e))"
| "holds_modifiers _ = True"

lemma track_all_held:
  "\<forall>e \<in> set es. holds_modifiers e \<Longrightarrow> 0 < number_of_modifiers (state_modifiers p) \<Longrightarrow>
     track_all es p = p\<lparr>state_modifiers := modifiers_after (state_modifiers p) es,
       saw_keystroke := saw_keystroke p \<or> (\<exists>e \<in> set es. is_key_down e)\<rparr>"
proof (induction es arbitrary: p)
  case Nil
  then show ?case by (simp add: track_all_def)
next
  case (Cons e es)
  then have "track_all (e # es) p = track_all es (snd (track_modifiers e p))" by (simp add: track_all_def)
  then show ?case using Cons by (cases e) (simp_all add: track_modifiers_def Let_def)
qed

lemma modifier_key_ex: "number_of_modifiers m = 1 \<Longrightarrow> modifier_key m \<noteq> None"
  by (auto simp: number_of_modifiers_def modifier_key_def of_bool_def split: if_splits)

section \<open>Properties\<close>

text \<open>C6: the listeners of a mouse event are called in the order in which they were painted in the capture phase and
  backwards in the bubble phase, up to the first one after which propagation is stopped; the dispatch does not panic
  and leaves the listeners in place.\<close>

theorem mouse_listeners_called:
  assumes "mouse_listeners (rendered_frame s) = map Some ls" and "propagate_event s"
  shows "\<exists>s'. dispatch_mouse_event env event s = Some (follow_drag event (set_mouse_listeners (map Some ls) s')) \<and>
    delivered (map (run_callback env (OnMouse event Capture)) ls @ map (run_callback env (OnMouse event Bubble)) (rev ls))
      (set_mouse_listeners [] (update_mouse_hit_test (env_os env) s)) s'"
proof -
  let ?start = "set_mouse_listeners [] (update_mouse_hit_test (env_os env) s)"
  let ?calls = "\<lambda>ph. map (run_callback env (OnMouse event ph))"
  have "mouse_listeners (rendered_frame (update_mouse_hit_test (env_os env) s)) = map Some ls"
    "propagate_event ?start"
    using assms by (simp_all add: update_mouse_hit_test_def reset_cursor_style_def set_mouse_listeners_def Let_def)
  then have "dispatch_mouse_event env event s = Some (follow_drag event (set_mouse_listeners (map Some ls)
      (run_calls (?calls Capture ls @ ?calls Bubble (rev ls)) ?start)))"
    by (simp add: dispatch_mouse_event_def Let_def run_mouse_listeners_eq run_calls_append rev_map)
  then show ?thesis using run_calls_delivered by blast
qed



text \<open>When one modifier goes down and then, with at least one held in between, all go up, the last event gives the key
  stroke of the modifier that was held last exactly when it was held alone and no key went down in between.\<close>

theorem modifier_tap:
  assumes "number_of_modifiers (state_modifiers p) = 0" and "number_of_modifiers (changed_modifiers down) = 1"
    and "\<forall>e \<in> set es. holds_modifiers e" and "number_of_modifiers (changed_modifiers up) = 0"
  defines "last_held \<equiv> modifiers_after (changed_modifiers down) es"
  shows "fst (track_modifiers (ModifiersChanged up) (track_all (ModifiersChanged down # es) p)) =
    (if number_of_modifiers last_held = 1 \<and> \<not> (\<exists>e \<in> set es. is_key_down e)
     then Some \<lparr>modifiers = mods_none, key = the (modifier_key last_held), key_char = None\<rparr> else None)"
proof -
  let ?p = "p\<lparr>saw_keystroke := False, state_modifiers := changed_modifiers down\<rparr>"
  have "track_all (ModifiersChanged down # es) p = track_all es ?p"
    using assms(1,2) by (simp add: track_all_def track_modifiers_def)
  also have "\<dots> = ?p\<lparr>state_modifiers := last_held, saw_keystroke := \<exists>e \<in> set es. is_key_down e\<rparr>"
    using track_all_held [OF assms(3), of ?p] assms(2) by (simp add: last_held_def)
  finally show ?thesis
    using assms(4) modifier_key_ex [of last_held] by (auto simp: track_modifiers_def Let_def)
qed

text \<open>An interceptor that stops the propagation prevents the actions, but the first listener of the key still runs.\<close>

lemma interceptor_leaves_first_listener:
  assumes "\<not> propagate_event s" "i < length (nodes (ui_tree s))" "key_listeners (nodes (ui_tree s) ! i) = l # ls"
    and "\<not> propagate_event (run_callback env (OnKey event Capture) l s)"
  shows "finish_dispatch_key_event env event (i # path) ctxs s = Some (run_callback env (OnKey event Capture) l s)"
  using assms by (simp add: finish_dispatch_key_event_def dispatch_key_down_up_event_def nth_opt_def)

text \<open>Without a window, the listeners of an action do not stop its propagation by default.\<close>

lemma global_action_not_stopped:
  assumes "\<And>l ph t. propagate_event (run_callback env (OnAction act ph) l t) = propagate_event t"
  shows "propagate_event (dispatch_global_action env act s)"
proof -
  have r: "propagate_event (snd (run_listeners (run_callback env (OnAction act ph)) ls t)) = propagate_event t" for ph ls t
    using assms by (induction ls arbitrary: t) (auto simp: Let_def)
  have g: "propagate_event (global_listeners order (run_callback env (OnAction act ph)) ty t) = propagate_event t" for order ph ty t
    by (simp add: global_listeners_def take_out_globals_def r split: option.split)
  show ?thesis by (simp add: dispatch_global_action_def g Let_def)
qed

section \<open>Witnesses\<close>

text \<open>A window without anything in it; its listeners write their number down in \<open>deferred_pending_changed\<close>, and the second stops
  the propagation in the bubble phase.\<close>

definition quiet_ui :: "(rat, nat, unit, unit) ui" where
  "quiet_ui =
     \<lparr>propagate_event = True, default_prevented = False, last_input_modality = MouseModality, mouse_position = point_new 0 0,
      held_modifiers = mods_none, capslock = False, active_drag = None, focus_enabled = True, window_focus = None,
      rendered_frame = frame_new, mouse_hit_test = \<lparr>hit_ids = [], hover_hitbox_count = 0\<rparr>,
      pending_modifier = \<lparr>state_modifiers = mods_none, saw_keystroke = False\<rparr>, pending_input = None,
      global_action_listeners = (\<lambda>_. None), keystroke_interceptors = subscriber_set_new,
      keystroke_observers = subscriber_set_new, pending_input_observers = subscriber_set_new, input_handler = None,
      ui_keymap = keymap_default, dirty = False, not_drawing = True, refreshing = False, hovered = True, window_active = True,
      platform_cursor = ArrowCursor, app_activated = False, deferred_pending_changed = 0, input_rate = rate_default 0\<rparr>"

fun in_bubble_phase :: "('a, 'l, 'q) message \<Rightarrow> bool" where
  "in_bubble_phase (OnMouse _ ph) = (ph = Bubble)"
| "in_bubble_phase (OnAction _ ph) = (ph = Bubble)"
| "in_bubble_phase _ = False"

definition logging_env :: "(rat, nat, unit, unit) env" where
  "logging_env =
     \<lparr>call = (\<lambda>l m s. (True, s\<lparr>deferred_pending_changed := 10 * deferred_pending_changed s + l,
                              propagate_event := (\<not> in_bubble_phase m \<or> l \<noteq> 2)\<rparr>)),
      draw_window = (\<lambda>s. s), clock = (\<lambda>_. 0), upper = (\<lambda>x. x), env_os = MacOS\<rparr>"

definition three_listeners :: "(rat, nat, unit, unit) ui" where
  "three_listeners = set_mouse_listeners (map Some [1, 2, 3]) quiet_ui"

lemmas ui_eval = quiet_ui_def logging_env_def three_listeners_def set_mouse_listeners_def frame_new_def run_callback_def

theorem mouse_listeners_called_witness:
  "map_option deferred_pending_changed
     (dispatch_mouse_event logging_env (MouseExited \<lparr>exit_position = point_new 0 0, exit_pressed_button = None, exit_modifiers = mods_none\<rparr>)
        three_listeners) = Some 12332 \<and>
   (\<exists>s'. delivered (map (run_callback logging_env
        (OnMouse (MouseExited \<lparr>exit_position = point_new 0 0, exit_pressed_button = None, exit_modifiers = mods_none\<rparr>) Capture)) [1, 2, 3] @
      map (run_callback logging_env
        (OnMouse (MouseExited \<lparr>exit_position = point_new 0 0, exit_pressed_button = None, exit_modifiers = mods_none\<rparr>) Bubble)) (rev [1, 2, 3]))
     (set_mouse_listeners [] (update_mouse_hit_test MacOS three_listeners)) s')"
proof -
  have "mouse_listeners (rendered_frame three_listeners) = map Some [1, 2, 3]" "propagate_event three_listeners"
    by (simp_all add: ui_eval)
  from mouse_listeners_called [OF this, of logging_env
      "MouseExited \<lparr>exit_position = point_new 0 0, exit_pressed_button = None, exit_modifiers = mods_none\<rparr>"]
  show ?thesis
    by (auto simp: ui_eval dispatch_mouse_event_def update_mouse_hit_test_def hit_test_at_def follow_drag_def
        has_active_drag_def Let_def)
qed

definition one_node_ui :: "(rat, nat, unit, unit) ui" where
  "one_node_ui = quiet_ui\<lparr>rendered_frame := frame_new\<lparr>frame_tree :=
     tree_new\<lparr>nodes := [default_node\<lparr>action_listeners := [(7, 1), (8, 5), (7, 2), (7, 3)]\<rparr>]\<rparr>\<rparr>,
     global_action_listeners := [7 \<mapsto> [4]]\<rparr>"

abbreviation an_action :: "unit action" where
  "an_action \<equiv> \<lparr>action_type = 7, action_value = ()\<rparr>"


theorem modifier_tap_witness:
  "fst (track_modifiers (ModifiersChanged \<lparr>changed_modifiers = mods_none, changed_capslock = False\<rparr>)
     (track_all [ModifiersChanged \<lparr>changed_modifiers = mods_shift, changed_capslock = False\<rparr>,
        KeyUp \<lparr>up_keystroke = \<lparr>modifiers = mods_none, key = ''a'', key_char = None\<rparr>\<rparr>]
       \<lparr>state_modifiers = mods_none, saw_keystroke = True\<rparr> :: modifier_state)) =
   Some \<lparr>modifiers = mods_none, key = ''shift'', key_char = None\<rparr>"
  using modifier_tap [where p = "\<lparr>state_modifiers = mods_none, saw_keystroke = True\<rparr>"
      and down = "\<lparr>changed_modifiers = mods_shift, changed_capslock = False\<rparr>"
      and up = "\<lparr>changed_modifiers = mods_none, changed_capslock = False\<rparr>"
      and es = "[KeyUp \<lparr>up_keystroke = \<lparr>modifiers = mods_none, key = ''a'', key_char = None\<rparr>\<rparr>]"]
  by (simp add: mods_shift_def mods_none_def number_of_modifiers_def modifier_key_def)

end
