(* ===== verification/Interactivity.thy ===== *)
theory Interactivity
  imports EventDispatch
begin

text \<open>
  The interaction of an element with the mouse: \<open>Interactivity\<close> in \<open>crates/lucie/src/elements/div.rs\<close>, the listeners
  that \<open>paint_mouse_listeners\<close> registers for an element and the state they keep from frame to frame.

  The window and the application are the \<open>ui\<close> of the event dispatch.  The program's callbacks are opaque values, and what they do
  to the window is given by \<open>callbacks\<close>; they cannot reach the element's own state.  A call is written down, with its argument,
  in \<open>calls\<close>.  \<open>None\<close> is a panic.
\<close>

section \<open>State\<close>

record clicked_state =
  clicked_group :: bool
  clicked_element :: bool

definition clicked_default :: clicked_state where
  "clicked_default = \<lparr>clicked_group = False, clicked_element = False\<rparr>"

definition is_clicked :: "clicked_state \<Rightarrow> bool" where
  "is_clicked c \<longleftrightarrow> clicked_group c \<or> clicked_element c"

record hover_state =
  hover_group :: bool
  hover_element :: bool

definition hover_default :: hover_state where
  "hover_default = \<lparr>hover_group = False, hover_element = False\<rparr>"

text \<open>A tooltip has the position of the mouse when it came up.  The timers are steps of the environment; a state that is dropped
  takes its timer with it.\<close>

datatype 'a active_tooltip = WaitingForShow | Visible "'a point" bool | WaitingForHide "'a point"

text \<open>The cells of \<open>InteractiveElementState\<close>; an optional cell that listeners create when they are registered is given from the
  start.  The two variables at the end belong to the closures of the frame: the press that the release has taken, and whether there is
  a drag listener left.\<close>

record 'a element_cells =
  clicked_state :: clicked_state
  hover_state :: "hover_state option"
  hover_listener_state :: bool
  pending_mouse_down :: "'a mouse_down_event option"
  active_tooltip :: "'a active_tooltip option"
  captured_mouse_down :: "'a mouse_down_event option"
  has_drag_listener :: bool

datatype ('a, 'l) user_event =
    UserDown "'a mouse_down_event"
  | UserUp "'a mouse_up_event"
  | UserPressure "'a mouse_pressure_event"
  | UserMove "'a mouse_move_event"
  | UserScroll "'a scroll_wheel_event"
  | UserDragMove "'a mouse_move_event" "'a bounds" 'l
  | UserDrop 'l
  | UserDrag 'l "'a point"
  | UserClick "'a click_event"
  | UserHover bool

record ('a, 'l, 'p, 'q) pointer =
  window :: "('a, 'l, 'p, 'q) ui"
  cells :: "'a element_cells"
  notices :: "nat list"
  calls :: "('l \<times> ('a, 'l) user_event) list"

record ('a, 'l, 'p, 'q) callbacks =
  user :: "'l \<Rightarrow> ('a, 'l) user_event \<Rightarrow> ('a, 'l, 'p, 'q) ui \<Rightarrow> ('a, 'l, 'p, 'q) ui"
  accepts :: "'l \<Rightarrow> 'l \<Rightarrow> ('a, 'l, 'p, 'q) ui \<Rightarrow> bool \<times> ('a, 'l, 'p, 'q) ui"
  type_of :: "'l \<Rightarrow> nat"
  build_tooltip :: "('a, 'l, 'p, 'q) ui \<Rightarrow> ('a, 'l, 'p, 'q) ui"

text \<open>Listeners that an element is given, by the method that binds them.\<close>

datatype 'l down_binding = OnMouseDown mouse_button 'l | CaptureAnyMouseDown 'l | OnAnyMouseDown 'l | OnMouseDownOut 'l

datatype 'l up_binding = OnMouseUp mouse_button 'l | CaptureAnyMouseUp 'l | OnAnyMouseUp 'l | OnMouseUpOut mouse_button 'l

datatype 'l pressure_binding = OnMousePressure 'l | CaptureMousePressure 'l

datatype 'l move_binding = OnMouseMove 'l | OnDragMove nat 'l

text \<open>What \<open>Interactivity\<close> keeps for the mouse.  The styles only matter for being there; the groups of the styles are given by the hitbox
  of the group when the element is painted, if there is one, and the view by its number.\<close>

record ('a, 'l) interactivity =
  el_hitbox :: "'a hitbox"
  el_view :: nat
  tracked_focus_handle :: "nat option"
  mouse_down_listeners :: "'l down_binding list"
  mouse_up_listeners :: "'l up_binding list"
  mouse_pressure_listeners :: "'l pressure_binding list"
  mouse_move_listeners :: "'l move_binding list"
  scroll_wheel_listeners :: "'l list"
  has_hover_style :: bool
  base_cursor :: "'l option"
  has_drag_over_styles :: bool
  group_hover :: "64 word option option"
  group_active :: "64 word option"
  drop_listeners :: "(nat \<times> 'l) list"
  can_drop_predicate :: "'l option"
  click_listeners :: "'l list"
  aux_click_listeners :: "'l list"
  drag_listener :: "('l \<times> 'l) option"
  hover_listener :: "'l option"
  tooltip_hoverable :: "bool option"

section \<open>Steps of listeners\<close>

abbreviation on_window ::
  "(('a, 'l, 'p, 'q) ui \<Rightarrow> ('a, 'l, 'p, 'q) ui) \<Rightarrow> ('a, 'l, 'p, 'q) pointer \<Rightarrow> ('a, 'l, 'p, 'q) pointer" where
  "on_window f s \<equiv> s\<lparr>window := f (window s)\<rparr>"

abbreviation on_cells ::
  "('a element_cells \<Rightarrow> 'a element_cells) \<Rightarrow> ('a, 'l, 'p, 'q) pointer \<Rightarrow> ('a, 'l, 'p, 'q) pointer" where
  "on_cells f s \<equiv> s\<lparr>cells := f (cells s)\<rparr>"

definition call_user ::
  "('a, 'l, 'p, 'q) callbacks \<Rightarrow> 'l \<Rightarrow> ('a, 'l) user_event \<Rightarrow> ('a, 'l, 'p, 'q) pointer \<Rightarrow> ('a, 'l, 'p, 'q) pointer" where
  "call_user env l e s = s\<lparr>window := user env l e (window s), calls := calls s @ [(l, e)]\<rparr>"

definition call_users ::
  "('a, 'l, 'p, 'q) callbacks \<Rightarrow> 'l list \<Rightarrow> ('a, 'l) user_event \<Rightarrow> ('a, 'l, 'p, 'q) pointer \<Rightarrow> ('a, 'l, 'p, 'q) pointer" where
  "call_users env ls e s = fold (\<lambda>l. call_user env l e) ls s"

definition hovers :: "64 word \<Rightarrow> ('a, 'l, 'p, 'q) pointer \<Rightarrow> bool" where
  "hovers i s \<longleftrightarrow> is_hovered i (mouse_hit_test (window s))"

abbreviation el_hovered :: "('a, 'l) interactivity \<Rightarrow> ('a, 'l, 'p, 'q) pointer \<Rightarrow> bool" where
  "el_hovered el s \<equiv> hovers (hitbox_id (el_hitbox el)) s"

section \<open>The bound listeners\<close>

fun run_down_binding ::
  "('a::linordered_idom, 'l, 'p, 'q) callbacks \<Rightarrow> ('a, 'l) interactivity \<Rightarrow> 'l down_binding \<Rightarrow> dispatch_phase \<Rightarrow>
     'a mouse_down_event \<Rightarrow> ('a, 'l, 'p, 'q) pointer \<Rightarrow> ('a, 'l, 'p, 'q) pointer" where
  "run_down_binding env el (OnMouseDown button l) ph e s =
     (if ph = Bubble \<and> down_button e = button \<and> el_hovered el s then call_user env l (UserDown e) s else s)"
| "run_down_binding env el (CaptureAnyMouseDown l) ph e s =
     (if ph = Capture \<and> el_hovered el s then call_user env l (UserDown e) s else s)"
| "run_down_binding env el (OnAnyMouseDown l) ph e s =
     (if ph = Bubble \<and> el_hovered el s then call_user env l (UserDown e) s else s)"
| "run_down_binding env el (OnMouseDownOut l) ph e s =
     (if ph = Capture \<and> \<not> contains (hitbox_bounds (el_hitbox el)) (mouse_position (window s))
      then call_user env l (UserDown e) s else s)"

fun run_up_binding ::
  "('a, 'l, 'p, 'q) callbacks \<Rightarrow> ('a, 'l) interactivity \<Rightarrow> 'l up_binding \<Rightarrow> dispatch_phase \<Rightarrow>
     'a mouse_up_event \<Rightarrow> ('a, 'l, 'p, 'q) pointer \<Rightarrow> ('a, 'l, 'p, 'q) pointer" where
  "run_up_binding env el (OnMouseUp button l) ph e s =
     (if ph = Bubble \<and> up_button e = button \<and> el_hovered el s then call_user env l (UserUp e) s else s)"
| "run_up_binding env el (CaptureAnyMouseUp l) ph e s =
     (if ph = Capture \<and> el_hovered el s then call_user env l (UserUp e) s else s)"
| "run_up_binding env el (OnAnyMouseUp l) ph e s =
     (if ph = Bubble \<and> el_hovered el s then call_user env l (UserUp e) s else s)"
| "run_up_binding env el (OnMouseUpOut button l) ph e s =
     (if ph = Capture \<and> up_button e = button \<and> \<not> el_hovered el s then call_user env l (UserUp e) s else s)"

fun run_pressure_binding ::
  "('a, 'l, 'p, 'q) callbacks \<Rightarrow> ('a, 'l) interactivity \<Rightarrow> 'l pressure_binding \<Rightarrow> dispatch_phase \<Rightarrow>
     'a mouse_pressure_event \<Rightarrow> ('a, 'l, 'p, 'q) pointer \<Rightarrow> ('a, 'l, 'p, 'q) pointer" where
  "run_pressure_binding env el (OnMousePressure l) ph e s =
     (if ph = Bubble \<and> el_hovered el s then call_user env l (UserPressure e) s else s)"
| "run_pressure_binding env el (CaptureMousePressure l) ph e s =
     (if ph = Capture \<and> el_hovered el s then call_user env l (UserPressure e) s else s)"

fun run_move_binding ::
  "('a, 'l, 'p, 'q) callbacks \<Rightarrow> ('a, 'l) interactivity \<Rightarrow> 'l move_binding \<Rightarrow> dispatch_phase \<Rightarrow>
     'a mouse_move_event \<Rightarrow> ('a, 'l, 'p, 'q) pointer \<Rightarrow> ('a, 'l, 'p, 'q) pointer" where
  "run_move_binding env el (OnMouseMove l) ph e s =
     (if ph = Bubble \<and> el_hovered el s then call_user env l (UserMove e) s else s)"
| "run_move_binding env el (OnDragMove ty l) ph e s =
     (case active_drag (window s) of
        Some drag \<Rightarrow>
          if ph = Capture \<and> type_of env (drag_value drag) = ty
          then call_user env l (UserDragMove e (hitbox_bounds (el_hitbox el)) (drag_value drag)) s else s
      | None \<Rightarrow> s)"

definition run_scroll_listener ::
  "('a, 'l, 'p, 'q) callbacks \<Rightarrow> ('a, 'l) interactivity \<Rightarrow> 'l \<Rightarrow> dispatch_phase \<Rightarrow>
     'a scroll_wheel_event \<Rightarrow> ('a, 'l, 'p, 'q) pointer \<Rightarrow> ('a, 'l, 'p, 'q) pointer" where
  "run_scroll_listener env el l ph e s =
     (if ph = Bubble \<and> should_handle_scroll (hitbox_id (el_hitbox el)) (mouse_hit_test (window s))
      then call_user env l (UserScroll e) s else s)"

section \<open>Focus, hovering and dropping\<close>

definition focus_listener ::
  "('a, 'l) interactivity \<Rightarrow> nat \<Rightarrow> dispatch_phase \<Rightarrow> ('a, 'l, 'p, 'q) pointer \<Rightarrow> ('a, 'l, 'p, 'q) pointer" where
  "focus_listener el h ph s =
     (if ph = Bubble \<and> el_hovered el s \<and> \<not> default_prevented (window s)
      then on_window (\<lambda>w. prevent_default (focus_on h w)) s else s)"

text \<open>The listener has the hover state only when the element has a hover style; an element without an identifier has none at all.\<close>

definition hover_style_listener ::
  "('a, 'l) interactivity \<Rightarrow> dispatch_phase \<Rightarrow> ('a, 'l, 'p, 'q) pointer \<Rightarrow> ('a, 'l, 'p, 'q) pointer" where
  "hover_style_listener el ph s =
     (let hovered = el_hovered el s;
          state = (if has_hover_style el then hover_state (cells s) else None);
          was_hovered = (case state of Some h \<Rightarrow> hover_element h | None \<Rightarrow> False)
      in if ph = Capture \<and> hovered \<noteq> was_hovered then
           (case state of
              Some h \<Rightarrow> s\<lparr>cells := (cells s)\<lparr>hover_state := Some (h\<lparr>hover_element := hovered\<rparr>)\<rparr>,
                          notices := notices s @ [el_view el]\<rparr>
            | None \<Rightarrow> s)
         else s)"

definition group_hover_listener ::
  "('a, 'l) interactivity \<Rightarrow> 64 word \<Rightarrow> dispatch_phase \<Rightarrow> ('a, 'l, 'p, 'q) pointer \<Rightarrow> ('a, 'l, 'p, 'q) pointer" where
  "group_hover_listener el grp ph s =
     (let hovered = hovers grp s;
          was_hovered = (case hover_state (cells s) of Some h \<Rightarrow> hover_group h | None \<Rightarrow> False)
      in if ph = Capture \<and> hovered \<noteq> was_hovered then
           (let s = (case hover_state (cells s) of
                Some h \<Rightarrow> on_cells (hover_state_update (\<lambda>_. Some (h\<lparr>hover_group := hovered\<rparr>))) s
              | None \<Rightarrow> s)
            in s\<lparr>notices := notices s @ [el_view el]\<rparr>)
         else s)"

text \<open>The loop over the drop listeners; \<open>expect\<close> panics when the drag has been taken already.\<close>

fun drop_loop ::
  "('a, 'l, 'p, 'q) callbacks \<Rightarrow> ('a, 'l) interactivity \<Rightarrow> nat \<Rightarrow> (nat \<times> 'l) list \<Rightarrow> ('a, 'l, 'p, 'q) pointer \<Rightarrow>
     ('a, 'l, 'p, 'q) pointer option" where
  "drop_loop env el ty [] s = Some s"
| "drop_loop env el ty ((t, l) # ls) s =
     (if t = ty then do {
        drag \<leftarrow> active_drag (window s);
        let s = on_window (active_drag_update (\<lambda>_. None)) s;
        let (can_drop, s) =
          (case can_drop_predicate el of
             Some p \<Rightarrow> let (ok, w) = accepts env p (drag_value drag) (window s) in (ok, s\<lparr>window := w\<rparr>)
           | None \<Rightarrow> (True, s));
        let s = (if can_drop then on_window (\<lambda>w. stop_propagation (refresh w)) (call_user env l (UserDrop (drag_value drag)) s) else s);
        drop_loop env el ty ls s }
      else drop_loop env el ty ls s)"

definition drop_listener ::
  "('a, 'l, 'p, 'q) callbacks \<Rightarrow> ('a, 'l) interactivity \<Rightarrow> dispatch_phase \<Rightarrow> ('a, 'l, 'p, 'q) pointer \<Rightarrow>
     ('a, 'l, 'p, 'q) pointer option" where
  "drop_listener env el ph s =
     (case active_drag (window s) of
        Some drag \<Rightarrow>
          if ph = Bubble \<and> el_hovered el s then drop_loop env el (type_of env (drag_value drag)) (drop_listeners el) s else Some s
      | None \<Rightarrow> Some s)"

section \<open>Clicks and drags\<close>

definition click_down_listener ::
  "('a, 'l) interactivity \<Rightarrow> dispatch_phase \<Rightarrow> 'a mouse_down_event \<Rightarrow> ('a, 'l, 'p, 'q) pointer \<Rightarrow> ('a, 'l, 'p, 'q) pointer" where
  "click_down_listener el ph e s =
     (if ph = Bubble \<and> (down_button e = LeftButton \<or> aux_click_listeners el \<noteq> []) \<and> el_hovered el s
      then on_window refresh (on_cells (pending_mouse_down_update (\<lambda>_. Some e)) s) else s)"

text \<open>A distance of more than two: its square is more than four.\<close>

definition beyond_drag_threshold :: "'a::linordered_idom point \<Rightarrow> 'a point \<Rightarrow> bool" where
  "beyond_drag_threshold p q \<longleftrightarrow> (let d = point_sub p q in 4 < pt_x d * pt_x d + pt_y d * pt_y d)"

text \<open>The conditions are looked at in this order: the drag listener is taken before the button is looked at.\<close>

definition drag_start_listener ::
  "('a::linordered_idom, 'l, 'p, 'q) callbacks \<Rightarrow> ('a, 'l) interactivity \<Rightarrow> dispatch_phase \<Rightarrow> 'a mouse_move_event \<Rightarrow>
     ('a, 'l, 'p, 'q) pointer \<Rightarrow> ('a, 'l, 'p, 'q) pointer" where
  "drag_start_listener env el ph e s =
     (if ph = Capture then s
      else
        (case pending_mouse_down (cells s) of
           None \<Rightarrow> s
         | Some down \<Rightarrow>
             if \<not> has_active_drag (window s) \<and> beyond_drag_threshold (move_position e) (down_position down) then
               (case drag_listener el of
                  Some (v, l) \<Rightarrow>
                    if has_drag_listener (cells s) then
                      (let s = on_cells (has_drag_listener_update (\<lambda>_. False)) s in
                       if down_button down = LeftButton then
                         (let s = on_cells (clicked_state_update (\<lambda>_. clicked_default)) s;
                              offset = point_sub (move_position e) (origin (hitbox_bounds (el_hitbox el)));
                              s = call_user env l (UserDrag v offset) s;
                              s = on_window (active_drag_update (\<lambda>_. Some
                                    \<lparr>drag_value = v, cursor_offset = offset, drag_cursor = base_cursor el\<rparr>)) s;
                              s = on_cells (pending_mouse_down_update (\<lambda>_. None)) s
                          in on_window (\<lambda>w. stop_propagation (refresh w)) s)
                       else s)
                    else s
                | None \<Rightarrow> s)
             else s))"

definition click_key_listener ::
  "('a, 'l, 'p, 'q) callbacks \<Rightarrow> ('a, 'l) interactivity \<Rightarrow> dispatch_phase \<Rightarrow> key_up_event \<Rightarrow>
     ('a, 'l, 'p, 'q) pointer \<Rightarrow> ('a, 'l, 'p, 'q) pointer" where
  "click_key_listener env el ph e s =
     (if ph = Bubble \<and> \<not> default_prevented (window s) then
        (let stroke = up_keystroke e;
             button = (if key stroke = ''enter'' then Some EnterKey else if key stroke = ''space'' then Some SpaceKey else None)
         in case button of
              Some b \<Rightarrow>
                if \<not> modified (modifiers stroke) then
                  call_users env (click_listeners el)
                    (UserClick (KeyboardClick \<lparr>click_key = b, click_bounds = hitbox_bounds (el_hitbox el)\<rparr>)) s
                else s
            | None \<Rightarrow> s)
      else s)"

definition click_up_listener ::
  "('a, 'l, 'p, 'q) callbacks \<Rightarrow> ('a, 'l) interactivity \<Rightarrow> dispatch_phase \<Rightarrow> 'a mouse_up_event \<Rightarrow>
     ('a, 'l, 'p, 'q) pointer \<Rightarrow> ('a, 'l, 'p, 'q) pointer" where
  "click_up_listener env el ph e s =
     (case ph of
        Capture \<Rightarrow>
          (case pending_mouse_down (cells s) of
             Some down \<Rightarrow>
               if el_hovered el s
               then on_window refresh (on_cells (\<lambda>c. c\<lparr>captured_mouse_down := Some down, pending_mouse_down := None\<rparr>) s)
               else on_window refresh (on_cells (pending_mouse_down_update (\<lambda>_. None)) s)
           | None \<Rightarrow> s)
      | Bubble \<Rightarrow>
          (case captured_mouse_down (cells s) of
             Some down \<Rightarrow>
               call_users env (if down_button down = LeftButton then click_listeners el else aux_click_listeners el)
                 (UserClick (MouseClick \<lparr>click_down = down, click_up = e\<rparr>))
                 (on_cells (captured_mouse_down_update (\<lambda>_. None)) s)
           | None \<Rightarrow> s))"

definition hover_listener_step ::
  "('a, 'l, 'p, 'q) callbacks \<Rightarrow> ('a, 'l) interactivity \<Rightarrow> 'l \<Rightarrow> dispatch_phase \<Rightarrow> ('a, 'l, 'p, 'q) pointer \<Rightarrow> ('a, 'l, 'p, 'q) pointer" where
  "hover_listener_step env el l ph s =
     (if ph \<noteq> Bubble then s
      else
        (let hovered = (pending_mouse_down (cells s) = None \<and> \<not> has_active_drag (window s) \<and> el_hovered el s) in
         if hovered \<noteq> hover_listener_state (cells s)
         then call_user env l (UserHover hovered) (on_cells (hover_listener_state_update (\<lambda>_. hovered)) s)
         else s))"

section \<open>The active state\<close>

definition active_up_listener :: "dispatch_phase \<Rightarrow> ('a, 'l, 'p, 'q) pointer \<Rightarrow> ('a, 'l, 'p, 'q) pointer" where
  "active_up_listener ph s =
     (if ph = Capture then on_window refresh (on_cells (clicked_state_update (\<lambda>_. clicked_default)) s) else s)"

definition active_down_listener ::
  "('a, 'l) interactivity \<Rightarrow> dispatch_phase \<Rightarrow> ('a, 'l, 'p, 'q) pointer \<Rightarrow> ('a, 'l, 'p, 'q) pointer" where
  "active_down_listener el ph s =
     (if ph = Bubble \<and> \<not> default_prevented (window s) then
        (let group_hovered = (case group_active el of Some g \<Rightarrow> hovers g s | None \<Rightarrow> False);
             element_hovered = el_hovered el s
         in if group_hovered \<or> element_hovered then
              on_window refresh (on_cells (clicked_state_update (\<lambda>_.
                \<lparr>clicked_group = group_hovered, clicked_element = element_hovered\<rparr>)) s)
            else s)
      else s)"

section \<open>Tooltips\<close>

definition clear_active_tooltip :: "('a, 'l, 'p, 'q) pointer \<Rightarrow> ('a, 'l, 'p, 'q) pointer" where
  "clear_active_tooltip s =
     (let tip = active_tooltip (cells s);
          s = on_cells (active_tooltip_update (\<lambda>_. None)) s
      in case tip of
           None \<Rightarrow> s
         | Some WaitingForShow \<Rightarrow> s
         | Some (Visible _ _) \<Rightarrow> on_window refresh s
         | Some (WaitingForHide _) \<Rightarrow> on_window refresh s)"

definition clear_active_tooltip_if_not_hoverable :: "('a, 'l, 'p, 'q) pointer \<Rightarrow> ('a, 'l, 'p, 'q) pointer" where
  "clear_active_tooltip_if_not_hoverable s =
     (let should_clear = (case active_tooltip (cells s) of
          None \<Rightarrow> False
        | Some WaitingForShow \<Rightarrow> False
        | Some (Visible _ hoverable) \<Rightarrow> \<not> hoverable
        | Some (WaitingForHide _) \<Rightarrow> False)
      in if should_clear then on_window refresh (on_cells (active_tooltip_update (\<lambda>_. None)) s) else s)"

text \<open>What \<open>check_is_hovered\<close> and \<open>check_is_hovered_during_prepaint\<close> look at.\<close>

definition check_is_hovered :: "('a, 'l) interactivity \<Rightarrow> ('a, 'l, 'p, 'q) pointer \<Rightarrow> bool" where
  "check_is_hovered el s \<longleftrightarrow> pending_mouse_down (cells s) = None \<and> el_hovered el s"

definition check_is_hovered_during_prepaint ::
  "('a::linordered_idom, 'l) interactivity \<Rightarrow> ('a, 'l, 'p, 'q) pointer \<Rightarrow> bool" where
  "check_is_hovered_during_prepaint el s \<longleftrightarrow>
     pending_mouse_down (cells s) = None \<and> contains (hitbox_bounds (el_hitbox el)) (mouse_position (window s))"

text \<open>The timer of \<open>ScheduleShow\<close> is set by the change of the state.\<close>

definition tooltip_mouse_move ::
  "('a, 'l) interactivity \<Rightarrow> dispatch_phase \<Rightarrow> ('a, 'l, 'p, 'q) pointer \<Rightarrow> ('a, 'l, 'p, 'q) pointer" where
  "tooltip_mouse_move el ph s =
     (case active_tooltip (cells s) of
        None \<Rightarrow>
          if check_is_hovered el s \<and> ph = Bubble then on_cells (active_tooltip_update (\<lambda>_. Some WaitingForShow)) s else s
      | Some WaitingForShow \<Rightarrow>
          if check_is_hovered el s then s else on_cells (active_tooltip_update (\<lambda>_. None)) s
      | Some _ \<Rightarrow> s)"

definition tooltip_show_timer ::
  "('a, 'l, 'p, 'q) callbacks \<Rightarrow> bool \<Rightarrow> ('a, 'l, 'p, 'q) pointer \<Rightarrow> ('a, 'l, 'p, 'q) pointer" where
  "tooltip_show_timer env hoverable s =
     (let s = on_window (build_tooltip env) s;
          s = on_cells (active_tooltip_update (\<lambda>_. Some (Visible (mouse_position (window s)) hoverable))) s
      in on_window refresh s)"

definition tooltip_check_visible_and_update ::
  "('a::linordered_idom, 'l) interactivity \<Rightarrow> bool \<Rightarrow> 'a bounds \<Rightarrow> ('a, 'l, 'p, 'q) pointer \<Rightarrow> bool \<times> ('a, 'l, 'p, 'q) pointer" where
  "tooltip_check_visible_and_update el hoverable tip_bounds s =
     (let hovered = (check_is_hovered_during_prepaint el s \<or> hoverable \<and> contains tip_bounds (mouse_position (window s)));
          s = (case active_tooltip (cells s) of
                 Some (Visible p _) \<Rightarrow>
                   if hovered then s
                   else if hoverable then on_cells (active_tooltip_update (\<lambda>_. Some (WaitingForHide p))) s
                   else clear_active_tooltip s
               | Some (WaitingForHide p) \<Rightarrow>
                   if hovered then on_cells (active_tooltip_update (\<lambda>_. Some (Visible p True))) s else s
               | _ \<Rightarrow> s)
      in (active_tooltip (cells s) \<noteq> None, s))"

definition tooltip_hide_timer :: "('a, 'l, 'p, 'q) pointer \<Rightarrow> ('a, 'l, 'p, 'q) pointer" where
  "tooltip_hide_timer s =
     (if active_tooltip (cells s) \<noteq> None then on_window refresh (on_cells (active_tooltip_update (\<lambda>_. None)) s) else s)"

section \<open>Registration and dispatch\<close>

text \<open>A listener of the window looks at events of one kind.\<close>

type_synonym ('a, 'l, 'p, 'q) handler =
  "('a, 'l) platform_input \<Rightarrow> dispatch_phase \<Rightarrow> ('a, 'l, 'p, 'q) pointer \<Rightarrow> ('a, 'l, 'p, 'q) pointer option"

definition on_down ::
  "(dispatch_phase \<Rightarrow> 'a mouse_down_event \<Rightarrow> ('a, 'l, 'p, 'q) pointer \<Rightarrow> ('a, 'l, 'p, 'q) pointer) \<Rightarrow> ('a, 'l, 'p, 'q) handler" where
  "on_down f event ph s = Some (case event of MouseDown e \<Rightarrow> f ph e s | _ \<Rightarrow> s)"

definition on_up ::
  "(dispatch_phase \<Rightarrow> 'a mouse_up_event \<Rightarrow> ('a, 'l, 'p, 'q) pointer \<Rightarrow> ('a, 'l, 'p, 'q) pointer) \<Rightarrow> ('a, 'l, 'p, 'q) handler" where
  "on_up f event ph s = Some (case event of MouseUp e \<Rightarrow> f ph e s | _ \<Rightarrow> s)"

definition on_move ::
  "(dispatch_phase \<Rightarrow> 'a mouse_move_event \<Rightarrow> ('a, 'l, 'p, 'q) pointer \<Rightarrow> ('a, 'l, 'p, 'q) pointer) \<Rightarrow> ('a, 'l, 'p, 'q) handler" where
  "on_move f event ph s = Some (case event of MouseMove e \<Rightarrow> f ph e s | _ \<Rightarrow> s)"

definition on_pressure ::
  "(dispatch_phase \<Rightarrow> 'a mouse_pressure_event \<Rightarrow> ('a, 'l, 'p, 'q) pointer \<Rightarrow> ('a, 'l, 'p, 'q) pointer) \<Rightarrow> ('a, 'l, 'p, 'q) handler" where
  "on_pressure f event ph s = Some (case event of MousePressure e \<Rightarrow> f ph e s | _ \<Rightarrow> s)"

definition on_scroll ::
  "(dispatch_phase \<Rightarrow> 'a scroll_wheel_event \<Rightarrow> ('a, 'l, 'p, 'q) pointer \<Rightarrow> ('a, 'l, 'p, 'q) pointer) \<Rightarrow> ('a, 'l, 'p, 'q) handler" where
  "on_scroll f event ph s = Some (case event of ScrollWheel e \<Rightarrow> f ph e s | _ \<Rightarrow> s)"

text \<open>The listeners that need no state of the element, in the order they are registered.\<close>

definition plain_listeners ::
  "('a::linordered_idom, 'l, 'p, 'q) callbacks \<Rightarrow> ('a, 'l) interactivity \<Rightarrow> bool \<Rightarrow> ('a, 'l, 'p, 'q) handler list" where
  "plain_listeners env el during_drag =
     (case tracked_focus_handle el of Some h \<Rightarrow> [on_down (\<lambda>ph _. focus_listener el h ph)] | None \<Rightarrow> []) @
     map (\<lambda>l. on_down (run_down_binding env el l)) (mouse_down_listeners el) @
     map (\<lambda>l. on_up (run_up_binding env el l)) (mouse_up_listeners el) @
     map (\<lambda>l. on_pressure (run_pressure_binding env el l)) (mouse_pressure_listeners el) @
     map (\<lambda>l. on_move (run_move_binding env el l)) (mouse_move_listeners el) @
     map (\<lambda>l. on_scroll (run_scroll_listener env el l)) (scroll_wheel_listeners el) @
     (if has_hover_style el \<or> base_cursor el \<noteq> None \<or> during_drag \<and> has_drag_over_styles el
      then [on_move (\<lambda>ph _. hover_style_listener el ph)] else []) @
     (case group_hover el of Some (Some g) \<Rightarrow> [on_move (\<lambda>ph _. group_hover_listener el g ph)] | _ \<Rightarrow> []) @
     (if drop_listeners el \<noteq> []
      then [\<lambda>event ph s. case event of MouseUp _ \<Rightarrow> drop_listener env el ph s | _ \<Rightarrow> Some s] else [])"

definition tooltip_listeners ::
  "('a, 'l) interactivity \<Rightarrow> (('a, 'l, 'p, 'q) pointer \<Rightarrow> bool) \<Rightarrow> ('a, 'l, 'p, 'q) handler list" where
  "tooltip_listeners el tooltip_hovered =
     (let clear = (\<lambda>s. if \<not> tooltip_hovered s then clear_active_tooltip_if_not_hoverable s else s)
      in [on_move (\<lambda>ph _. tooltip_mouse_move el ph), on_down (\<lambda>_ _. clear), on_scroll (\<lambda>_ _. clear)])"

definition stateful_listeners ::
  "('a::linordered_idom, 'l, 'p, 'q) callbacks \<Rightarrow> ('a, 'l) interactivity \<Rightarrow> (('a, 'l, 'p, 'q) pointer \<Rightarrow> bool) \<Rightarrow> clicked_state \<Rightarrow>
     ('a, 'l, 'p, 'q) handler list" where
  "stateful_listeners env el tooltip_hovered clicked =
     (if click_listeners el \<noteq> [] \<or> aux_click_listeners el \<noteq> [] \<or> drag_listener el \<noteq> None
      then [on_down (click_down_listener el), on_move (drag_start_listener env el), on_up (click_up_listener env el)] else []) @
     (case hover_listener el of Some l \<Rightarrow> [on_move (\<lambda>ph _. hover_listener_step env el l ph)] | None \<Rightarrow> []) @
     (if tooltip_hoverable el \<noteq> None then tooltip_listeners el tooltip_hovered else []) @
     (if is_clicked clicked then [on_up (\<lambda>ph _. active_up_listener ph)] else [on_down (\<lambda>ph _. active_down_listener el ph)])"

text \<open>\<open>paint_mouse_listeners\<close>, for an element that has an identifier and so a state or for one that has none: the closures' own
  variables start anew.\<close>

definition paint_mouse_listeners ::
  "('a::linordered_idom, 'l, 'p, 'q) callbacks \<Rightarrow> ('a, 'l) interactivity \<Rightarrow> bool \<Rightarrow> (('a, 'l, 'p, 'q) pointer \<Rightarrow> bool) \<Rightarrow>
     ('a, 'l, 'p, 'q) pointer \<Rightarrow> ('a, 'l, 'p, 'q) handler list \<times> ('a, 'l, 'p, 'q) pointer" where
  "paint_mouse_listeners env el stateful tooltip_hovered s =
     (plain_listeners env el (has_active_drag (window s)) @
        (if stateful then stateful_listeners env el tooltip_hovered (clicked_state (cells s)) else []),
      on_cells (\<lambda>c. c\<lparr>captured_mouse_down := None, has_drag_listener := drag_listener el \<noteq> None\<rparr>) s)"

text \<open>What \<open>Interactivity::prepaint\<close> does to the cells.\<close>

definition prepaint_cells :: "('a, 'l) interactivity \<Rightarrow> 'a element_cells \<Rightarrow> 'a element_cells" where
  "prepaint_cells el c =
     c\<lparr>hover_state :=
         (if (has_hover_style el \<or> group_hover el \<noteq> None) \<and> hover_state c = None then Some hover_default else hover_state c),
       active_tooltip := (if tooltip_hoverable el = None then None else active_tooltip c)\<rparr>"

text \<open>\<open>dispatch_mouse_event\<close> for the listeners of one element.\<close>

fun run_handlers ::
  "('a, 'l) platform_input \<Rightarrow> dispatch_phase \<Rightarrow> ('a, 'l, 'p, 'q) handler list \<Rightarrow> ('a, 'l, 'p, 'q) pointer \<Rightarrow>
     ('a, 'l, 'p, 'q) pointer option" where
  "run_handlers event ph [] s = Some s"
| "run_handlers event ph (h # hs) s = do {
     s \<leftarrow> h event ph s;
     if \<not> propagate_event (window s) then Some s else run_handlers event ph hs s }"

definition dispatch_to_element ::
  "('a, 'l, 'p, 'q) handler list \<Rightarrow> ('a, 'l) platform_input \<Rightarrow> ('a, 'l, 'p, 'q) pointer \<Rightarrow> ('a, 'l, 'p, 'q) pointer option" where
  "dispatch_to_element hs event s = do {
     s \<leftarrow> run_handlers event Capture hs s;
     s \<leftarrow> (if propagate_event (window s) then run_handlers event Bubble (rev hs) s else Some s);
     Some (on_window (follow_drag event) s) }"

section \<open>What happens to an element\<close>

text \<open>Between the events the rest of the program does what it likes to the window: every step starts from a window \<open>w\<close> of its own.  The
  timers only fire in the states that hold them.\<close>

datatype ('a, 'l, 'p, 'q) el_step =
    Event "('a, 'l) platform_input" "('a, 'l, 'p, 'q) ui"
  | Paint "('a, 'l, 'p, 'q) ui"
  | CheckTooltip "'a bounds" "('a, 'l, 'p, 'q) ui"
  | ShowTimer "('a, 'l, 'p, 'q) ui"
  | HideTimer "('a, 'l, 'p, 'q) ui"

fun run_el_step ::
  "('a::linordered_idom, 'l, 'p, 'q) callbacks \<Rightarrow> ('a, 'l) interactivity \<Rightarrow> (('a, 'l, 'p, 'q) pointer \<Rightarrow> bool) \<Rightarrow>
     ('a, 'l, 'p, 'q) el_step \<Rightarrow> ('a, 'l, 'p, 'q) handler list \<times> ('a, 'l, 'p, 'q) pointer \<Rightarrow>
     (('a, 'l, 'p, 'q) handler list \<times> ('a, 'l, 'p, 'q) pointer) option" where
  "run_el_step env el tip (Event event w) (hs, s) = map_option (Pair hs) (dispatch_to_element hs event (s\<lparr>window := w\<rparr>))"
| "run_el_step env el tip (Paint w) (hs, s) = 
     Some (paint_mouse_listeners env el True tip (on_cells (prepaint_cells el) (s\<lparr>window := w\<rparr>)))"
| "run_el_step env el tip (CheckTooltip b w) (hs, s) =
     Some (hs, snd (tooltip_check_visible_and_update el (tooltip_hoverable el = Some True) b (s\<lparr>window := w\<rparr>)))"
| "run_el_step env el tip (ShowTimer w) (hs, s) =
     Some (hs, if active_tooltip (cells s) = Some WaitingForShow
               then tooltip_show_timer env (tooltip_hoverable el = Some True) (s\<lparr>window := w\<rparr>) else s)"
| "run_el_step env el tip (HideTimer w) (hs, s) =
     Some (hs, case active_tooltip (cells s) of Some (WaitingForHide _) \<Rightarrow> tooltip_hide_timer (s\<lparr>window := w\<rparr>) | _ \<Rightarrow> s)"

fun run_el_steps ::
  "('a::linordered_idom, 'l, 'p, 'q) callbacks \<Rightarrow> ('a, 'l) interactivity \<Rightarrow> (('a, 'l, 'p, 'q) pointer \<Rightarrow> bool) \<Rightarrow>
     ('a, 'l, 'p, 'q) el_step list \<Rightarrow> ('a, 'l, 'p, 'q) handler list \<times> ('a, 'l, 'p, 'q) pointer \<Rightarrow>
     (('a, 'l, 'p, 'q) handler list \<times> ('a, 'l, 'p, 'q) pointer) option" where
  "run_el_steps env el tip [] s = Some s"
| "run_el_steps env el tip (x # xs) s = Option.bind (run_el_step env el tip x s) (run_el_steps env el tip xs)"

definition element_new :: "('a, 'l, 'p, 'q) ui \<Rightarrow> ('a, 'l, 'p, 'q) pointer" where
  "element_new w =
     \<lparr>window = w, cells = \<lparr>clicked_state = clicked_default, hover_state = None, hover_listener_state = False,
        pending_mouse_down = None, active_tooltip = None, captured_mouse_down = None, has_drag_listener = False\<rparr>,
      notices = [], calls = []\<rparr>"

section \<open>The steps of the press\<close>

text \<open>What a listener may do to the press that is pending, the one that a release has taken, the flag of the hover listener and the calls:
  the other calls are neither clicks of the mouse nor notices of hovering.\<close>

fun plain_call :: "('a, 'l) user_event \<Rightarrow> bool" where
  "plain_call (UserClick (MouseClick _)) = False"
| "plain_call (UserHover _) = False"
| "plain_call _ = True"

record ('a, 'l) press =
  flag :: bool
  pressed :: "'a mouse_down_event option"
  taken :: "'a mouse_down_event option"
  log :: "('l \<times> ('a, 'l) user_event) list"

definition press_of :: "('a, 'l, 'p, 'q) pointer \<Rightarrow> ('a, 'l) press" where
  "press_of s = \<lparr>flag = hover_listener_state (cells s), pressed = pending_mouse_down (cells s),
     taken = captured_mouse_down (cells s), log = calls s\<rparr>"

inductive moves :: "('a, 'l) interactivity \<Rightarrow> ('a, 'l) platform_input \<Rightarrow> ('a, 'l) press \<Rightarrow> ('a, 'l) press \<Rightarrow> bool"
  for el event where
  Stay: "\<forall>c \<in> set cs. plain_call (snd c) \<Longrightarrow> moves el event p (p\<lparr>log := log p @ cs\<rparr>)"
| Press: "event = MouseDown e \<Longrightarrow> moves el event p (p\<lparr>pressed := Some e\<rparr>)"
| Drag: "event = MouseMove e \<Longrightarrow> \<forall>c \<in> set cs. plain_call (snd c) \<Longrightarrow> moves el event p (p\<lparr>pressed := None, log := log p @ cs\<rparr>)"
| Miss: "event = MouseUp e \<Longrightarrow> moves el event p (p\<lparr>pressed := None\<rparr>)"
| Take: "event = MouseUp e \<Longrightarrow> pressed p = Some d \<Longrightarrow> moves el event p (p\<lparr>pressed := None, taken := Some d\<rparr>)"
| Click: "event = MouseUp e \<Longrightarrow> taken p = Some d \<Longrightarrow>
    moves el event p (p\<lparr>taken := None, log := log p @
      map (\<lambda>l. (l, UserClick (MouseClick \<lparr>click_down = d, click_up = e\<rparr>)))
        (if down_button d = LeftButton then click_listeners el else aux_click_listeners el)\<rparr>)"
| Hover: "moves el event p (p\<lparr>flag := \<not> flag p, log := log p @ [(l, UserHover (\<not> flag p))]\<rparr>)"

lemma stay_same: "press_of s' = press_of s \<Longrightarrow> moves el event (press_of s) (press_of s')"
  using Stay [of "[]" el event "press_of s"] by simp

lemma stay_call: "plain_call e \<Longrightarrow> moves el event (press_of s) (press_of (call_user env l e s))"
  using Stay [of "[(l, e)]" el event "press_of s"] by (simp add: press_of_def call_user_def)

lemma call_users_eq: "call_users env ls e s =
    s\<lparr>window := fold (\<lambda>l. user env l e) ls (window s), calls := calls s @ map (\<lambda>l. (l, e)) ls\<rparr>"
  by (induction ls arbitrary: s) (simp_all add: call_users_def call_user_def)

text \<open>Every listener of an element moves its press so.\<close>

definition handler_moves :: "('a, 'l) interactivity \<Rightarrow> ('a, 'l, 'p, 'q) handler \<Rightarrow> bool" where
  "handler_moves el h \<longleftrightarrow> (\<forall>event ph s s'. h event ph s = Some s' \<longrightarrow> (moves el event)\<^sup>*\<^sup>* (press_of s) (press_of s'))"

lemma one_move: "moves el event p q \<Longrightarrow> (moves el event)\<^sup>*\<^sup>* p q"
  by (rule r_into_rtranclp)

named_theorems press_steps

lemma binding_moves [press_steps]:
  "handler_moves el (on_down (run_down_binding env el l1))" "handler_moves el (on_up (run_up_binding env el l2))"
  "handler_moves el (on_pressure (run_pressure_binding env el l3))" "handler_moves el (on_move (run_move_binding env el l4))"
  "handler_moves el (on_scroll (run_scroll_listener env el l))"
proof -
  show "handler_moves el (on_down (run_down_binding env el l1))"
    by (cases l1) (auto simp: handler_moves_def on_down_def intro!: one_move stay_call split: platform_input.splits)
  show "handler_moves el (on_up (run_up_binding env el l2))"
    by (cases l2) (auto simp: handler_moves_def on_up_def intro!: one_move stay_call split: platform_input.splits)
  show "handler_moves el (on_pressure (run_pressure_binding env el l3))"
    by (cases l3) (auto simp: handler_moves_def on_pressure_def intro!: one_move stay_call split: platform_input.splits)
  show "handler_moves el (on_move (run_move_binding env el l4))"
    by (cases l4) (auto simp: handler_moves_def on_move_def intro!: one_move stay_call split: platform_input.splits option.splits)
  show "handler_moves el (on_scroll (run_scroll_listener env el l))"
    by (auto simp: handler_moves_def on_scroll_def run_scroll_listener_def intro!: one_move stay_call split: platform_input.splits)
qed

lemma plain_moves [press_steps]:
  "handler_moves el (on_down (\<lambda>ph _. focus_listener el h ph))"
  "handler_moves el (on_move (\<lambda>ph _. hover_style_listener el ph))"
  "handler_moves el (on_move (\<lambda>ph _. group_hover_listener el g ph))"
  by (auto simp: handler_moves_def on_down_def on_move_def focus_listener_def hover_style_listener_def group_hover_listener_def
      Let_def press_of_def intro!: one_move stay_same split: platform_input.splits option.splits)

lemma drop_loop_moves:
  "drop_loop env el ty ls s = Some s' \<Longrightarrow> (moves el event)\<^sup>*\<^sup>* (press_of s) (press_of s')"
proof (induction env el ty ls s rule: drop_loop.induct)
  case (2 env el ty t l ls s)
  show ?case
  proof (cases "t = ty")
    case True
    then obtain drag where drag: "active_drag (window s) = Some drag" using 2(3) by (cases "active_drag (window s)") auto
    let ?s = "on_window (active_drag_update (\<lambda>_. None)) s"
    obtain ok u where u: "(case can_drop_predicate el of
        Some p \<Rightarrow> let (ok, w) = accepts env p (drag_value drag) (window ?s) in (ok, ?s\<lparr>window := w\<rparr>) | None \<Rightarrow> (True, ?s)) = (ok, u)"
      by fastforce
    then have pu: "press_of u = press_of s" by (auto simp: press_of_def split: option.splits prod.splits)
    let ?t = "if ok then on_window (\<lambda>w. stop_propagation (refresh w)) (call_user env l (UserDrop (drag_value drag)) u) else u"
    have rest: "drop_loop env el ty ls ?t = Some s'" using 2(3) True drag u by (simp add: Let_def)
    have "press_of ?t = (if ok then press_of (call_user env l (UserDrop (drag_value drag)) u) else press_of u)"
      by (simp add: press_of_def)
    then have "(moves el event)\<^sup>*\<^sup>* (press_of s) (press_of ?t)"
      using stay_call [of "UserDrop (drag_value drag)" el event u env l] pu by (auto intro: one_move)
    moreover have "(moves el event)\<^sup>*\<^sup>* (press_of ?t) (press_of s')"
      using 2(1) [OF True drag refl u [symmetric] refl refl rest] by simp
    ultimately show ?thesis by (rule rtranclp_trans)
  next
    case False
    then show ?thesis using 2(2,3) by simp
  qed
qed simp

lemma drop_moves [press_steps]:
  "handler_moves el (\<lambda>event ph s. case event of MouseUp _ \<Rightarrow> drop_listener env el ph s | _ \<Rightarrow> Some s)"
  by (auto simp: handler_moves_def drop_listener_def intro: drop_loop_moves split: platform_input.splits option.splits if_splits)

lemma click_moves [press_steps]:
  "handler_moves el (on_down (click_down_listener el))" "handler_moves el (on_up (click_up_listener env el))"
proof -
  have "moves el (MouseDown e) (press_of s) (press_of (click_down_listener el ph e s))" for e ph s
    using Press [OF refl, of el e "press_of s"] Stay [of "[]" el "MouseDown e" "press_of s"]
    by (auto simp: click_down_listener_def press_of_def)
  then show "handler_moves el (on_down (click_down_listener el))"
    by (auto simp: handler_moves_def on_down_def intro: one_move split: platform_input.splits)
  have "moves el (MouseUp e) (press_of s) (press_of (click_up_listener env el ph e s))" for e ph s
  proof (cases ph)
    case Capture
    show ?thesis
    proof (cases "pending_mouse_down (cells s)")
      case None
      then show ?thesis using Capture by (simp add: click_up_listener_def stay_same)
    next
      case (Some d)
      then show ?thesis
        using Capture moves.Miss [OF refl, of el e "press_of s"] moves.Take [OF refl, of "press_of s" d el e]
        by (auto simp: click_up_listener_def press_of_def)
    qed
  next
    case Bubble
    show ?thesis
    proof (cases "captured_mouse_down (cells s)")
      case None
      then show ?thesis using Bubble by (simp add: click_up_listener_def stay_same)
    next
      case (Some d)
      then show ?thesis using Bubble moves.Click [OF refl, of "press_of s" d el e]
        by (simp add: click_up_listener_def press_of_def call_users_eq)
    qed
  qed
  then show "handler_moves el (on_up (click_up_listener env el))"
    by (auto simp: handler_moves_def on_up_def intro: one_move split: platform_input.splits)
qed

lemma drag_moves [press_steps]: "handler_moves el (on_move (drag_start_listener env el))"
proof -
  have "moves el (MouseMove e) (press_of s) (press_of (drag_start_listener env el ph e s))" for e ph s
    using Drag [OF refl, of "[(l, UserDrag v d)]" el e "press_of s" for l v d] Stay [of "[]" el "MouseMove e" "press_of s"]
    by (auto simp: drag_start_listener_def press_of_def call_user_def Let_def split: option.splits)
  then show ?thesis by (auto simp: handler_moves_def on_move_def intro: one_move split: platform_input.splits)
qed

lemma hover_moves [press_steps]: "handler_moves el (on_move (\<lambda>ph _. hover_listener_step env el l ph))"
proof -
  have "moves el event (press_of s) (press_of (hover_listener_step env el l ph s))" for event ph s
    using Hover [of el event "press_of s" l] Stay [of "[]" el event "press_of s"]
    by (auto simp: hover_listener_step_def press_of_def call_user_def Let_def)
  then show ?thesis by (auto simp: handler_moves_def on_move_def intro: one_move split: platform_input.splits)
qed

lemma press_of_simps [simp]:
  "press_of (s\<lparr>window := w\<rparr>) = press_of s" "press_of (on_cells (active_tooltip_update f) s) = press_of s"
  "press_of (s\<lparr>window := w, cells := (cells s)\<lparr>active_tooltip := tip\<rparr>\<rparr>) = press_of s"
  by (simp_all add: press_of_def)

lemma tip_press: "press_of (clear_active_tooltip_if_not_hoverable s) = press_of s" "press_of (tooltip_mouse_move el ph s) = press_of s"
  "press_of (clear_active_tooltip s) = press_of s"
  by (auto simp: clear_active_tooltip_if_not_hoverable_def clear_active_tooltip_def tooltip_mouse_move_def press_of_def Let_def
      split: option.splits active_tooltip.splits)

lemma tooltip_moves [press_steps]: "h \<in> set (tooltip_listeners el tip) \<Longrightarrow> handler_moves el h"
  by (auto simp: tooltip_listeners_def handler_moves_def on_move_def on_down_def on_scroll_def tip_press Let_def
      intro!: one_move stay_same split: platform_input.splits)

lemma active_moves [press_steps]:
  "handler_moves el (on_up (\<lambda>ph _. active_up_listener ph))" "handler_moves el (on_down (\<lambda>ph _. active_down_listener el ph))"
  by (auto simp: handler_moves_def on_up_def on_down_def active_up_listener_def active_down_listener_def press_of_def Let_def
      intro!: one_move stay_same split: platform_input.splits)

lemma listeners_move:
  "h \<in> set (fst (paint_mouse_listeners env el stateful tip s)) \<Longrightarrow> handler_moves el h"
  using press_steps
  by (auto simp: paint_mouse_listeners_def plain_listeners_def stateful_listeners_def split: option.splits if_splits)

lemma run_handlers_move:
  "\<forall>h \<in> set hs. handler_moves el h \<Longrightarrow> run_handlers event ph hs s = Some s' \<Longrightarrow> (moves el event)\<^sup>*\<^sup>* (press_of s) (press_of s')"
proof (induction hs arbitrary: s)
  case (Cons h hs)
  then obtain t where t: "h event ph s = Some t" "(if \<not> propagate_event (window t) then Some t else run_handlers event ph hs t) = Some s'"
    by (auto simp: bind_eq_Some_conv)
  then have "(moves el event)\<^sup>*\<^sup>* (press_of s) (press_of t)" using Cons.prems(1) by (simp add: handler_moves_def)
  moreover have "(moves el event)\<^sup>*\<^sup>* (press_of t) (press_of s')" using Cons t(2) by (auto split: if_splits)
  ultimately show ?case by (rule rtranclp_trans)
qed simp

lemma dispatch_moves:
  assumes "\<forall>h \<in> set hs. handler_moves el h" "dispatch_to_element hs event s = Some s'"
  shows "(moves el event)\<^sup>*\<^sup>* (press_of s) (press_of s')"
proof -
  obtain t u where t: "run_handlers event Capture hs s = Some t"
    and u: "(if propagate_event (window t) then run_handlers event Bubble (rev hs) t else Some t) = Some u"
    and s': "s' = on_window (follow_drag event) u"
    using assms(2) by (auto simp: dispatch_to_element_def bind_eq_Some_conv)
  have "(moves el event)\<^sup>*\<^sup>* (press_of s) (press_of t)" using run_handlers_move assms(1) t by blast
  moreover have "(moves el event)\<^sup>*\<^sup>* (press_of t) (press_of u)"
    using run_handlers_move [of "rev hs"] assms(1) u by (auto split: if_splits)
  moreover have "press_of s' = press_of u" by (simp add: s' press_of_def)
  ultimately show ?thesis by simp
qed

lemma step_moves:
  assumes hs: "\<forall>h \<in> set hs. handler_moves el h" and run: "run_el_step env el tip x (hs, s) = Some (hs', s')"
  shows "\<forall>h \<in> set hs'. handler_moves el h"
    and "case x of Event event w \<Rightarrow> (moves el event)\<^sup>*\<^sup>* (press_of s) (press_of s')
      | Paint _ \<Rightarrow> press_of s' = (press_of s)\<lparr>taken := None\<rparr> | _ \<Rightarrow> press_of s' = press_of s"
proof -
  show "\<forall>h \<in> set hs'. handler_moves el h"
    using hs run listeners_move [of _ env el True tip] by (cases x) (auto, metis fst_conv)
  show "case x of Event event w \<Rightarrow> (moves el event)\<^sup>*\<^sup>* (press_of s) (press_of s')
      | Paint _ \<Rightarrow> press_of s' = (press_of s)\<lparr>taken := None\<rparr> | _ \<Rightarrow> press_of s' = press_of s"
  proof (cases x)
    case (Event event w)
    then show ?thesis using run dispatch_moves [OF hs, of event "s\<lparr>window := w\<rparr>" s'] by auto
  next
    case (Paint w)
    then show ?thesis using run by (auto simp: paint_mouse_listeners_def prepaint_cells_def press_of_def)
  next
    case (CheckTooltip b w)
    then show ?thesis using run
      by (auto simp: tooltip_check_visible_and_update_def tip_press Let_def split: option.split active_tooltip.split)
  next
    case (ShowTimer w)
    then show ?thesis using run by (auto simp: tooltip_show_timer_def press_of_def Let_def split: if_splits)
  next
    case (HideTimer w)
    then show ?thesis using run
      by (auto simp: tooltip_hide_timer_def press_of_def split: option.splits active_tooltip.splits if_splits)
  qed
qed

section \<open>Hovering\<close>

fun hover_flag :: "('a, 'l) user_event \<Rightarrow> bool option" where
  "hover_flag (UserHover b) = Some b"
| "hover_flag _ = None"

definition hover_log :: "('l \<times> ('a, 'l) user_event) list \<Rightarrow> bool list" where
  "hover_log cs = List.map_filter (\<lambda>c. hover_flag (snd c)) cs"

definition alternating :: "bool list \<Rightarrow> bool" where
  "alternating bs \<longleftrightarrow> bs = map even [0..<length bs]"

lemma hover_log_hover [simp]: "hover_log [(l, UserHover b)] = [b]"
  by (simp add: hover_log_def List.map_filter_def)

lemma hover_log_append: "hover_log (xs @ ys) = hover_log xs @ hover_log ys"
  by (simp add: hover_log_def List.map_filter_def)

lemma plain_no_hover: "\<forall>c \<in> set cs. plain_call (snd c) \<Longrightarrow> hover_log cs = []"
proof (induction cs)
  case (Cons c cs)
  moreover have "hover_flag (snd c) = None" using Cons.prems by (cases "snd c") auto
  ultimately show ?case by (simp add: hover_log_def List.map_filter_def)
qed (simp add: hover_log_def List.map_filter_def)

lemma clicks_no_hover: "hover_log (map (\<lambda>l. (l, UserClick c)) ls) = []"
  by (induction ls) (auto simp: hover_log_def List.map_filter_def)

definition hovers_tracked :: "('a, 'l) press \<Rightarrow> bool" where
  "hovers_tracked p \<longleftrightarrow> alternating (hover_log (log p)) \<and> flag p = odd (length (hover_log (log p)))"

lemma alternating_snoc: "alternating bs \<Longrightarrow> alternating (bs @ [even (length bs)])"
  by (simp add: alternating_def)

lemma moves_hovers: "moves el event p q \<Longrightarrow> hovers_tracked p \<Longrightarrow> hovers_tracked q"
proof (induction rule: moves.induct)
  case (Hover p l)
  then show ?case using alternating_snoc [of "hover_log (log p)"] by (auto simp: hovers_tracked_def hover_log_append)
qed (auto simp: hovers_tracked_def hover_log_append plain_no_hover clicks_no_hover)

lemma run_steps_inv:
  assumes paint: "\<And>p. Q p \<Longrightarrow> Q (p\<lparr>taken := None\<rparr>)" and ev: "\<And>event p q. moves el event p q \<Longrightarrow> Q p \<Longrightarrow> Q q"
  shows "\<forall>h \<in> set hs. handler_moves el h \<Longrightarrow> Q (press_of s) \<Longrightarrow>
    run_el_steps env el tip xs (hs, s) = Some (hs', s') \<Longrightarrow> Q (press_of s')"
proof (induction xs arbitrary: hs s)
  case (Cons x xs)
  obtain hs1 s1 where 1: "run_el_step env el tip x (hs, s) = Some (hs1, s1)"
    "run_el_steps env el tip xs (hs1, s1) = Some (hs', s')"
    using Cons.prems(3) by (auto simp: bind_eq_Some_conv)
  have star: "(moves el event)\<^sup>*\<^sup>* p q \<Longrightarrow> Q p \<Longrightarrow> Q q" for event p q
    by (induction rule: rtranclp_induct) (use ev in auto)
  have "Q (press_of s1)"
    using step_moves(2) [OF Cons.prems(1) 1(1)] Cons.prems(2) paint star by (cases x) auto
  then show ?case using Cons.IH [OF step_moves(1) [OF Cons.prems(1) 1(1)]] 1(2) by blast
qed simp

text \<open>C10: Whatever events come and whatever the callbacks of the program do in between, the hover listener of an element is called with
  true and false in turn, beginning with true.\<close>
theorem hover_calls_alternate:
  assumes "run_el_steps env el tip xs ([], element_new w) = Some (hs, s)"
  shows "alternating (hover_log (calls s))"
proof -
  have new: "hovers_tracked (press_of (element_new w))"
    by (simp add: hovers_tracked_def press_of_def element_new_def hover_log_def List.map_filter_def alternating_def)
  have "hovers_tracked (press_of s)"
  proof (rule run_steps_inv [where Q = hovers_tracked])
    show "hovers_tracked q" if "moves el event p q" "hovers_tracked p" for event p q
      using moves_hovers that .
  qed (use new assms in \<open>simp_all add: hovers_tracked_def\<close>)
  then show ?thesis by (simp add: hovers_tracked_def press_of_def)
qed

section \<open>Clicks\<close>

fun click_of :: "'a mouse_down_event \<Rightarrow> ('a, 'l) user_event \<Rightarrow> bool" where
  "click_of d (UserClick (MouseClick c)) = (click_down c = d)"
| "click_of d _ = False"

definition clicks_for :: "'l \<Rightarrow> 'a mouse_down_event \<Rightarrow> ('l \<times> ('a, 'l) user_event) list \<Rightarrow> nat" where
  "clicks_for l d cs = length (filter (\<lambda>(k, e). k = l \<and> click_of d e) cs)"

definition presses :: "'a mouse_down_event \<Rightarrow> ('a, 'l, 'p, 'q) el_step list \<Rightarrow> nat" where
  "presses d xs = length (filter (\<lambda>x. case x of Event (MouseDown e) _ \<Rightarrow> e = d | _ \<Rightarrow> False) xs)"

definition bound_for :: "('a, 'l) interactivity \<Rightarrow> 'a mouse_down_event \<Rightarrow> 'l \<Rightarrow> nat" where
  "bound_for el d l = count_list (if down_button d = LeftButton then click_listeners el else aux_click_listeners el) l"

definition press_left :: "('a, 'l) interactivity \<Rightarrow> 'l \<Rightarrow> 'a mouse_down_event \<Rightarrow> nat \<Rightarrow> ('a, 'l) press \<Rightarrow> bool" where
  "press_left el l d n p \<longleftrightarrow>
     clicks_for l d (log p) + bound_for el d l * (of_bool (pressed p = Some d) + of_bool (taken p = Some d)) \<le> bound_for el d l * n"

lemma clicks_for_append: "clicks_for l d (xs @ ys) = clicks_for l d xs + clicks_for l d ys"
  by (simp add: clicks_for_def)

lemma plain_not_click: "plain_call e \<Longrightarrow> \<not> click_of d e"
  by (cases "(d, e)" rule: click_of.cases) auto

lemma plain_no_click: "\<forall>c \<in> set cs. plain_call (snd c) \<Longrightarrow> clicks_for l d cs = 0"
  by (fastforce simp: clicks_for_def filter_empty_conv dest: plain_not_click)

lemma hover_no_click: "clicks_for l d [(k, UserHover b)] = 0"
  by (simp add: clicks_for_def)

lemma round_clicks:
  "clicks_for l d (map (\<lambda>k. (k, UserClick (MouseClick \<lparr>click_down = e, click_up = u\<rparr>))) ks) = (if e = d then count_list ks l else 0)"
  by (induction ks) (auto simp: clicks_for_def)

lemma moves_press_left: "moves el event p q \<Longrightarrow> event \<noteq> MouseDown d \<Longrightarrow> press_left el l d n p \<Longrightarrow> press_left el l d n q"
  by (induction rule: moves.induct)
    (auto simp: press_left_def clicks_for_append plain_no_click hover_no_click round_clicks bound_for_def of_bool_def split: if_splits)

text \<open>The event that is the press itself makes room for it.\<close>

lemma moves_pressing:
  assumes "moves el (MouseDown d) p q" "clicks_for l d (log p) + bound_for el d l * of_bool (taken p = Some d) \<le> bound_for el d l * n"
  shows "clicks_for l d (log q) + bound_for el d l * of_bool (taken q = Some d) \<le> bound_for el d l * n"
  using assms by (cases rule: moves.cases) (auto simp: clicks_for_append plain_no_click hover_no_click)

lemma event_press_left:
  assumes "(moves el event)\<^sup>*\<^sup>* p q" "press_left el l d n p"
  shows "press_left el l d (n + of_bool (event = MouseDown d)) q"
proof (cases "event = MouseDown d")
  case True
  have "clicks_for l d (log p) + bound_for el d l * of_bool (taken p = Some d) \<le> bound_for el d l * n"
    using assms(2) by (simp add: press_left_def algebra_simps)
  with assms(1) have "clicks_for l d (log q) + bound_for el d l * of_bool (taken q = Some d) \<le> bound_for el d l * n"
    unfolding True
  proof (induction rule: rtranclp_induct)
    case (step y z)
    show ?case by (rule moves_pressing [OF step.hyps(2)]) (use step in simp)
  qed simp
  then show ?thesis using True by (auto simp: press_left_def algebra_simps of_bool_def)
next
  case False
  from assms(1) have "press_left el l d n q"
  proof (induction rule: rtranclp_induct)
    case (step y z)
    show ?case by (rule moves_press_left [OF step.hyps(2) False step.IH])
  qed (rule assms(2))
  then show ?thesis using False by simp
qed

lemma run_steps_press_left:
  "\<forall>h \<in> set hs. handler_moves el h \<Longrightarrow> press_left el l d n (press_of s) \<Longrightarrow>
    run_el_steps env el tip xs (hs, s) = Some (hs', s') \<Longrightarrow> press_left el l d (n + presses d xs) (press_of s')"
proof (induction xs arbitrary: hs s n)
  case (Cons x xs)
  obtain hs1 s1 where 1: "run_el_step env el tip x (hs, s) = Some (hs1, s1)"
    "run_el_steps env el tip xs (hs1, s1) = Some (hs', s')"
    using Cons.prems(3) by (auto simp: bind_eq_Some_conv)
  have "press_left el l d (n + presses d [x]) (press_of s1)"
  proof (cases x)
    case (Event event w)
    then have "presses d [x] = of_bool (event = MouseDown d)" by (cases event) (auto simp: presses_def)
    then show ?thesis using step_moves(2) [OF Cons.prems(1) 1(1)] Event event_press_left [OF _ Cons.prems(2)] by auto
  qed (use step_moves(2) [OF Cons.prems(1) 1(1)] Cons.prems(2) in \<open>auto simp: press_left_def presses_def algebra_simps\<close>)
  moreover have "presses d (x # xs) = presses d [x] + presses d xs" by (simp add: presses_def)
  ultimately show ?case using Cons.IH [OF step_moves(1) [OF Cons.prems(1) 1(1)] _ 1(2), of "n + presses d [x]"]
    by (simp only: add.assoc)
qed (simp add: presses_def)

text \<open>C8: A press of the mouse makes an element call each of its click listeners at most once for every time it is bound, whatever happens
  in between: there is no click without a press, and a drag or a release takes the press away.\<close>
theorem click_once_per_press:
  assumes "run_el_steps env el tip xs ([], element_new w) = Some (hs, s)"
  shows "clicks_for l d (calls s) \<le> bound_for el d l * presses d xs"
proof -
  have "press_left el l d 0 (press_of (element_new w))"
    by (simp add: press_left_def press_of_def element_new_def clicks_for_def)
  then have "press_left el l d (0 + presses d xs) (press_of s)"
    using run_steps_press_left [of "[]" el l d 0 "element_new w" env tip xs hs s] assms by simp
  then show ?thesis by (simp add: press_left_def press_of_def)
qed

section \<open>A press and a release\<close>

text \<open>Callbacks that do not stop the propagation, start no drag and leave the hit test alone.\<close>

definition tame :: "('a, 'l, 'p, 'q) callbacks \<Rightarrow> bool" where
  "tame env \<longleftrightarrow> (\<forall>l e w. propagate_event (user env l e w) = propagate_event w \<and>
     mouse_hit_test (user env l e w) = mouse_hit_test w \<and> active_drag (user env l e w) = active_drag w)"

definition ready :: "('a, 'l) interactivity \<Rightarrow> ('a, 'l, 'p, 'q) pointer \<Rightarrow> bool" where
  "ready el s \<longleftrightarrow> propagate_event (window s) \<and> active_drag (window s) = None \<and> el_hovered el s"

fun mouse_click_call :: "'l \<times> ('a, 'l) user_event \<Rightarrow> bool" where
  "mouse_click_call (_, UserClick (MouseClick _)) = True"
| "mouse_click_call _ = False"

definition core ::
  "('a, 'l, 'p, 'q) pointer \<Rightarrow> 'a mouse_down_event option \<times> 'a mouse_down_event option \<times> ('l \<times> ('a, 'l) user_event) list" where
  "core s = (pending_mouse_down (cells s), captured_mouse_down (cells s), filter mouse_click_call (calls s))"

definition calm ::
  "('a, 'l) interactivity \<Rightarrow> ('a, 'l) platform_input \<Rightarrow> dispatch_phase \<Rightarrow> ('a, 'l, 'p, 'q) handler \<Rightarrow> bool" where
  "calm el event ph h \<longleftrightarrow> (\<forall>s. ready el s \<longrightarrow> (\<exists>t. h event ph s = Some t \<and> ready el t \<and> core t = core s))"

lemma run_calm:
  "\<forall>h \<in> set hs. calm el event ph h \<Longrightarrow> ready el s \<Longrightarrow>
    \<exists>t. run_handlers event ph (hs @ hs') s = run_handlers event ph hs' t \<and> ready el t \<and> core t = core s"
proof (induction hs arbitrary: s)
  case (Cons h hs)
  then obtain u where u: "h event ph s = Some u" "ready el u" "core u = core s" by (auto simp: calm_def)
  then have "run_handlers event ph ((h # hs) @ hs') s = run_handlers event ph (hs @ hs') u" by (simp add: ready_def)
  then show ?case using Cons.IH [OF _ u(2)] Cons.prems(1) u(3) by auto
qed auto

lemma run_calm_one:
  assumes "\<forall>h \<in> set hs \<union> set hs'. calm el event ph h" "ready el s"
    and h: "\<And>t. ready el t \<Longrightarrow> core t = core s \<Longrightarrow> \<exists>u. h event ph t = Some u \<and> ready el u \<and> core u = c"
  shows "\<exists>u. run_handlers event ph (hs @ h # hs') s = Some u \<and> ready el u \<and> core u = c"
proof -
  obtain t where t: "run_handlers event ph (hs @ h # hs') s = run_handlers event ph (h # hs') t" "ready el t" "core t = core s"
    using run_calm [of hs el event ph s "h # hs'"] assms(1,2) by auto
  obtain u where u: "h event ph t = Some u" "ready el u" "core u = c" using h t(2,3) by blast
  obtain v where "run_handlers event ph (hs' @ []) u = run_handlers event ph [] v" "ready el v" "core v = core u"
    using run_calm [of hs' el event ph u "[]"] assms(1) u(2) by auto
  then show ?thesis using t(1) u by (auto simp: ready_def)
qed

lemma ready_call: "tame env \<Longrightarrow> ready el (call_user env l e s) = ready el s"
  by (auto simp: ready_def tame_def call_user_def hovers_def)

lemma ready_calls: "tame env \<Longrightarrow> ready el (call_users env ls e s) = ready el s"
  by (induction ls arbitrary: s) (simp_all add: call_users_def ready_call)

lemma core_call: "\<not> mouse_click_call (l, e) \<Longrightarrow> core (call_user env l e s) = core s"
  by (simp add: core_def call_user_def)

lemma ready_window: "mouse_hit_test (f w) = mouse_hit_test w \<Longrightarrow> propagate_event (f w) = propagate_event w \<Longrightarrow>
    active_drag (f w) = active_drag w \<Longrightarrow> w = window s \<Longrightarrow> ready el (s\<lparr>window := f w\<rparr>) = ready el s"
  by (simp add: ready_def hovers_def)

lemma refresh_keeps [simp]:
  "mouse_hit_test (refresh w) = mouse_hit_test w" "propagate_event (refresh w) = propagate_event w" "active_drag (refresh w) = active_drag w"
  by (simp_all add: refresh_def)

lemma focus_on_keeps [simp]:
  "mouse_hit_test (focus_on h w) = mouse_hit_test w" "propagate_event (focus_on h w) = propagate_event w"
  "active_drag (focus_on h w) = active_drag w"
  by (simp_all add: focus_on_def clear_pending_keystrokes_def)

text \<open>Every listener is calm in presses and releases but the two that take them.\<close>

abbreviation press_or_release :: "('a, 'l) platform_input \<Rightarrow> bool" where
  "press_or_release event \<equiv> (\<exists>e. event = MouseDown e) \<or> (\<exists>e. event = MouseUp e)"

lemmas calm_defs = calm_def on_down_def on_up_def on_move_def on_pressure_def on_scroll_def

lemma plain_calm:
  assumes env: "tame env" and event: "press_or_release event" and h: "h \<in> set (plain_listeners env el drag)"
  shows "calm el event ph h"
proof -
  have down: "calm el event ph (on_down (run_down_binding env el b))" for b
    by (cases b) (auto simp: calm_defs ready_call [OF env] core_call split: platform_input.split)
  have up: "calm el event ph (on_up (run_up_binding env el b))" for b
    by (cases b) (auto simp: calm_defs ready_call [OF env] core_call split: platform_input.split)
  have focus: "calm el event ph (on_down (\<lambda>ph _. focus_listener el f ph))" for f
    by (auto simp: calm_defs focus_listener_def prevent_default_def ready_def hovers_def core_def split: platform_input.split)
  have other: "calm el event ph (on_move f)" "calm el event ph (on_pressure g)" "calm el event ph (on_scroll k)" for f g k
    using event by (auto simp: calm_defs)
  have drop: "calm el event ph (\<lambda>event ph s. case event of MouseUp _ \<Rightarrow> drop_listener env el ph s | _ \<Rightarrow> Some s)"
    by (auto simp: calm_defs drop_listener_def ready_def split: platform_input.split)
  show ?thesis using h down up focus other drop by (auto simp: plain_listeners_def split: option.splits if_splits)
qed

definition click_group :: "('a::linordered_idom, 'l, 'p, 'q) callbacks \<Rightarrow> ('a, 'l) interactivity \<Rightarrow> ('a, 'l, 'p, 'q) handler list" where
  "click_group env el = [on_down (click_down_listener el), on_move (drag_start_listener env el), on_up (click_up_listener env el)]"

lemma stateful_split:
  assumes event: "press_or_release event" and click: "click_listeners el \<noteq> []"
  shows "\<exists>rest. stateful_listeners env el tip c = click_group env el @ rest \<and> (\<forall>h \<in> set rest. \<forall>ph. calm el event ph h)"
proof -
  have move: "calm el event ph (on_move f)" "calm el event ph (on_scroll g)" for f g ph using event by (auto simp: calm_defs)
  have clear: "calm el event ph (on_down (\<lambda>_ _ s. if \<not> tip s then clear_active_tooltip_if_not_hoverable s else s))" for ph
    by (auto simp: calm_defs clear_active_tooltip_if_not_hoverable_def ready_def hovers_def core_def Let_def
        split: platform_input.split option.split active_tooltip.split)
  have active: "calm el event ph (on_up (\<lambda>ph _. active_up_listener ph))" "calm el event ph (on_down (\<lambda>ph _. active_down_listener el ph))" for ph
    by (auto simp: calm_defs active_up_listener_def active_down_listener_def ready_def hovers_def core_def Let_def
        split: platform_input.split)
  show ?thesis using click move clear active
    by (auto simp: stateful_listeners_def click_group_def tooltip_listeners_def Let_def split: option.split)
qed

lemma press_dispatched:
  assumes env: "tame env" and click: "click_listeners el \<noteq> []" and left: "down_button d = LeftButton"
    and hs: "hs = plain_listeners env el drag @ stateful_listeners env el tip c" and s: "ready el s"
  shows "\<exists>t. dispatch_to_element hs (MouseDown d) s = Some t \<and>
    core t = (Some d, captured_mouse_down (cells s), filter mouse_click_call (calls s))"
proof -
  let ?e = "MouseDown d"
  have e: "press_or_release ?e" by simp
  note plain = plain_calm [OF env e]
  have idle: "calm el ?e ph (on_move f)" "calm el ?e ph (on_up g)" for f g ph by (simp_all add: calm_defs)
  obtain rest where rest: "stateful_listeners env el tip c = click_group env el @ rest" "\<forall>h \<in> set rest. \<forall>ph. calm el ?e ph h"
    using stateful_split [OF e click] by blast
  have down_capture: "calm el ?e Capture (on_down (click_down_listener el))"
    by (simp add: calm_defs click_down_listener_def)
  have "\<forall>h \<in> set hs. calm el ?e Capture h" using plain rest idle down_capture by (auto simp: hs click_group_def)
  then obtain t where t: "run_handlers ?e Capture hs s = Some t" "ready el t" "core t = core s"
    using run_calm [of hs el ?e Capture s "[]"] s by auto
  have rev: "rev hs = (rev rest @ [on_up (click_up_listener env el), on_move (drag_start_listener env el)]) @
      on_down (click_down_listener el) # rev (plain_listeners env el drag)"
    by (simp add: hs rest(1) click_group_def)
  have take: "\<exists>v. on_down (click_down_listener el) ?e Bubble u = Some v \<and> ready el v \<and>
      core v = (Some d, captured_mouse_down (cells s), filter mouse_click_call (calls s))" if "ready el u" "core u = core t" for u
    using that left t(3) by (auto simp: on_down_def click_down_listener_def ready_def hovers_def core_def)
  have "\<exists>u. run_handlers ?e Bubble (rev hs) t = Some u \<and> ready el u \<and>
      core u = (Some d, captured_mouse_down (cells s), filter mouse_click_call (calls s))"
    unfolding rev by (rule run_calm_one [OF _ t(2)]) (use plain rest(2) idle take in auto)
  then show ?thesis using t(1,2)
    by (auto simp: dispatch_to_element_def ready_def follow_drag_def has_active_drag_def core_def)
qed

lemma release_dispatched:
  assumes env: "tame env" and click: "click_listeners el \<noteq> []" and left: "down_button d = LeftButton"
    and hs: "hs = plain_listeners env el drag @ stateful_listeners env el tip c" and s: "ready el s"
    and pending: "pending_mouse_down (cells s) = Some d"
  shows "\<exists>t. dispatch_to_element hs (MouseUp u) s = Some t \<and>
    core t = (None, None, filter mouse_click_call (calls s) @
      map (\<lambda>l. (l, UserClick (MouseClick \<lparr>click_down = d, click_up = u\<rparr>))) (click_listeners el))"
proof -
  let ?e = "MouseUp u"
  have e: "press_or_release ?e" by simp
  note plain = plain_calm [OF env e]
  have idle: "calm el ?e ph (on_move f)" "calm el ?e ph (on_down g)" for f g ph by (simp_all add: calm_defs)
  obtain rest where rest: "stateful_listeners env el tip c = click_group env el @ rest" "\<forall>h \<in> set rest. \<forall>ph. calm el ?e ph h"
    using stateful_split [OF e click] by blast
  let ?before = "plain_listeners env el drag @ [on_down (click_down_listener el), on_move (drag_start_listener env el)]"
  have split: "hs = ?before @ on_up (click_up_listener env el) # rest"
    "rev hs = rev rest @ on_up (click_up_listener env el) # rev ?before"
    by (simp_all add: hs rest(1) click_group_def)
  have take: "\<exists>v. on_up (click_up_listener env el) ?e Capture t = Some v \<and> ready el v \<and>
      core v = (None, Some d, filter mouse_click_call (calls s))" if "ready el t" "core t = core s" for t
    using that pending by (auto simp: on_up_def click_up_listener_def ready_def hovers_def core_def)
  have "\<exists>t. run_handlers ?e Capture hs s = Some t \<and> ready el t \<and> core t = (None, Some d, filter mouse_click_call (calls s))"
    unfolding split(1) by (rule run_calm_one [OF _ s]) (use plain rest(2) idle take in auto)
  then obtain t where t: "run_handlers ?e Capture hs s = Some t" "ready el t" "core t = (None, Some d, filter mouse_click_call (calls s))"
    by blast
  let ?clicks = "map (\<lambda>l. (l, UserClick (MouseClick \<lparr>click_down = d, click_up = u\<rparr>))) (click_listeners el)"
  have fire: "\<exists>w. on_up (click_up_listener env el) ?e Bubble v = Some w \<and> ready el w \<and>
      core w = (None, None, filter mouse_click_call (calls s) @ ?clicks)" if "ready el v" "core v = core t" for v
  proof -
    have taken: "captured_mouse_down (cells v) = Some d" using that(2) t(3) by (simp add: core_def)
    have "ready el (on_cells (captured_mouse_down_update (\<lambda>_. None)) v)" using that(1) by (simp add: ready_def hovers_def)
    then show ?thesis using taken left that(2) t(3)
      by (simp add: on_up_def click_up_listener_def ready_calls [OF env]) (simp add: core_def call_users_eq filter_map comp_def)
  qed
  have "\<exists>w. run_handlers ?e Bubble (rev hs) t = Some w \<and> ready el w \<and>
      core w = (None, None, filter mouse_click_call (calls s) @ ?clicks)"
    unfolding split(2) by (rule run_calm_one [OF _ t(2)]) (use plain rest(2) idle fire in auto)
  then show ?thesis using t(1,2)
    by (auto simp: dispatch_to_element_def ready_def follow_drag_def has_active_drag_def core_def)
qed

text \<open>What a repaint between the events leaves alone.\<close>

lemma paints_between:
  "fst (hs, s) = plain_listeners env el drag @ stateful_listeners env el tip c \<Longrightarrow>
    \<exists>hs' s' drag c. run_el_steps env el tip (map Paint ws) (hs, s) = Some (hs', s') \<and>
      hs' = plain_listeners env el drag @ stateful_listeners env el tip c \<and>
      pending_mouse_down (cells s') = pending_mouse_down (cells s) \<and> calls s' = calls s"
proof (induction ws arbitrary: hs s drag c)
  case (Cons w ws)
  let ?p = "paint_mouse_listeners env el True tip (on_cells (prepaint_cells el) (s\<lparr>window := w\<rparr>))"
  have p: "fst ?p = plain_listeners env el (has_active_drag w) @
        stateful_listeners env el tip (clicked_state (prepaint_cells el (cells s)))"
    "pending_mouse_down (cells (snd ?p)) = pending_mouse_down (cells s)" "calls (snd ?p) = calls s"
    by (simp_all add: paint_mouse_listeners_def prepaint_cells_def)
  have "fst (fst ?p, snd ?p) = plain_listeners env el (has_active_drag w) @
      stateful_listeners env el tip (clicked_state (prepaint_cells el (cells s)))" using p(1) by (simp only: fst_conv)
  from Cons.IH [OF this] obtain hs' s' drag c where
    "run_el_steps env el tip (map Paint ws) (fst ?p, snd ?p) = Some (hs', s')"
    "hs' = plain_listeners env el drag @ stateful_listeners env el tip c"
    "pending_mouse_down (cells s') = pending_mouse_down (cells (snd ?p))" "calls s' = calls (snd ?p)" by blast
  then show ?case using p(2,3) by (intro exI [of _ hs'] exI [of _ s'] exI [of _ drag] exI [of _ c]) (simp only: list.map
      run_el_steps.simps run_el_step.simps bind.simps prod.collapse)
qed auto

lemma run_steps_append:
  "run_el_steps env el tip (xs @ ys) s = Option.bind (run_el_steps env el tip xs s) (run_el_steps env el tip ys)"
  by (induction xs arbitrary: s) (auto split: bind_splits)


section \<open>Drops and drags that go wrong\<close>

text \<open>A second drop listener for the type that is dropped panics.\<close>

lemma second_drop_listener_panics:
  assumes "active_drag (window s) = Some drag" "el_hovered el s" "can_drop_predicate el = None"
    and "drop_listeners el = [(type_of env (drag_value drag), l), (type_of env (drag_value drag), k)]"
    and "\<And>v w. active_drag w = None \<Longrightarrow> active_drag (user env l (UserDrop v) w) = None"
  shows "drop_listener env el Bubble s = None"
  using assms by (simp add: drop_listener_def call_user_def refresh_def stop_propagation_def Let_def)

text \<open>A move with another button pressed takes the drag listener away.\<close>

lemma other_button_loses_drag:
  assumes "pending_mouse_down (cells s) = Some d" "down_button d = RightButton" "\<not> has_active_drag (window s)"
    "beyond_drag_threshold (move_position e) (down_position d)" "drag_listener el = Some (v, l)" "has_drag_listener (cells s)"
  shows "drag_start_listener env el Bubble e s = on_cells (has_drag_listener_update (\<lambda>_. False)) s"
  using assms by (simp add: drag_start_listener_def)

text \<open>A drag listener runs for every drag of its type, wherever the drag began.\<close>

lemma drag_move_anywhere:
  assumes "active_drag (window s) = Some drag" "type_of env (drag_value drag) = ty"
  shows "run_move_binding env el (OnDragMove ty l) Capture e s =
    call_user env l (UserDragMove e (hitbox_bounds (el_hitbox el)) (drag_value drag)) s"
  using assms by simp

section \<open>Witnesses\<close>

text \<open>A box with two click listeners and a hover listener under the mouse, whose callbacks do nothing.\<close>

definition a_box :: "(rat, nat) interactivity" where
  "a_box =
     \<lparr>el_hitbox = \<lparr>hitbox_id = 7, hitbox_bounds = \<lparr>origin = point_new 0 0, extent = \<lparr>width = 10, height = 10\<rparr>\<rparr>,
        hitbox_mask = \<lparr>mask_bounds = \<lparr>origin = point_new 0 0, extent = \<lparr>width = 10, height = 10\<rparr>\<rparr>\<rparr>, behavior = Normal\<rparr>,
      el_view = 0, tracked_focus_handle = None, mouse_down_listeners = [], mouse_up_listeners = [],
      mouse_pressure_listeners = [], mouse_move_listeners = [], scroll_wheel_listeners = [], has_hover_style = False,
      base_cursor = None, has_drag_over_styles = False, group_hover = None, group_active = None, drop_listeners = [],
      can_drop_predicate = None, click_listeners = [1, 2], aux_click_listeners = [], drag_listener = None,
      hover_listener = Some 3, tooltip_hoverable = None\<rparr>"

definition quiet_callbacks :: "(rat, nat, unit, unit) callbacks" where
  "quiet_callbacks = \<lparr>user = (\<lambda>_ _ w. w), accepts = (\<lambda>_ _ w. (True, w)), type_of = (\<lambda>_. 0), build_tooltip = (\<lambda>w. w)\<rparr>"

definition over_box :: "(rat, nat, unit, unit) ui" where
  "over_box = quiet_ui\<lparr>mouse_hit_test := \<lparr>hit_ids = [7], hover_hitbox_count = 1\<rparr>\<rparr>"

definition left_down :: "rat mouse_down_event" where
  "left_down = \<lparr>down_button = LeftButton, down_position = point_new 1 1, down_modifiers = mods_none, down_click_count = 1, first_mouse = False\<rparr>"

definition left_up :: "rat mouse_up_event" where
  "left_up = \<lparr>up_button = LeftButton, up_position = point_new 1 1, up_modifiers = mods_none, up_click_count = 1\<rparr>"

definition a_move :: "rat mouse_move_event" where
  "a_move = \<lparr>move_position = point_new 2 2, move_pressed_button = None, move_modifiers = mods_none\<rparr>"

lemmas box_eval = a_box_def quiet_callbacks_def over_box_def quiet_ui_def left_down_def left_up_def a_move_def paint_mouse_listeners_def
  plain_listeners_def stateful_listeners_def dispatch_to_element_def on_down_def on_move_def on_up_def click_down_listener_def
  drag_start_listener_def click_up_listener_def hover_listener_step_def active_down_listener_def active_up_listener_def
  hovers_def is_hovered_def has_active_drag_def follow_drag_def refresh_def element_new_def prepaint_cells_def is_clicked_def
  clicked_default_def call_users_eq call_user_def


theorem hover_calls_alternate_witness:
  "let run = run_el_steps quiet_callbacks a_box (\<lambda>_. False) [Paint over_box, Event (MouseMove a_move) over_box] ([], element_new over_box)
   in run \<noteq> None \<and> alternating (hover_log (calls (snd (the run))))"
proof -
  let ?run = "run_el_steps quiet_callbacks a_box (\<lambda>_. False) [Paint over_box, Event (MouseMove a_move) over_box] ([], element_new over_box)"
  obtain hs s where run: "?run = Some (hs, s)" by (simp add: box_eval Let_def)
  show ?thesis unfolding run Let_def using hover_calls_alternate [OF run] by simp
qed

theorem click_once_per_press_witness:
  "let run = run_el_steps quiet_callbacks a_box (\<lambda>_. False)
      [Paint over_box, Event (MouseDown left_down) over_box, Event (MouseUp left_up) over_box] ([], element_new over_box)
   in run \<noteq> None \<and> clicks_for 1 left_down (calls (snd (the run))) \<le> 1"
proof -
  let ?xs = "[Paint over_box, Event (MouseDown left_down) over_box, Event (MouseUp left_up) over_box]"
  let ?run = "run_el_steps quiet_callbacks a_box (\<lambda>_. False) ?xs ([], element_new over_box)"
  obtain hs s where run: "?run = Some (hs, s)" by (simp add: box_eval Let_def)
  have "bound_for a_box left_down 1 * presses left_down ?xs = 1" by (simp add: bound_for_def presses_def a_box_def left_down_def)
  then show ?thesis unfolding run Let_def using click_once_per_press [OF run, of 1 left_down] by simp
qed

end
