(* ===== verification/AppEffects.thy ===== *)
theory AppEffects
  imports Subscription EntityMap Keystroke
begin

text \<open>
  The update cycle of the application: \<open>App\<close> in \<open>crates/lucie/src/app.rs\<close>, with \<open>Context::emit\<close> and
  \<open>WindowInvalidator\<close>.  An update counts itself in; when the outermost one ends, the effects that were pushed
  meanwhile are applied one after the other, until none is left.

  Callbacks are the program's own code: names \<open>'c\<close>.  What a callback does, when it is called with an argument in
  a state, is given by the parameter \<open>script\<close>: the commands it runs, which may be updates with commands inside them and calls that
  look at the state again, and whether it stays subscribed.  Entities, windows and types are numbers, the values of entities and
  globals opaque; an event is kept with the generation of the arena it is allocated in, which a clear ends.

  A run has fuel for the depth of its calls, which bounds nothing in the code: \<open>None\<close> is a panic, the use of an event
  after its arena has been cleared, or fuel that is used up.
\<close>

section \<open>State\<close>

datatype quit_mode = QuitDefault | LastWindowClosed | QuitExplicit

record invalidator =
  inv_dirty :: bool
  inv_not_drawing :: bool
  dirty_views :: "nat set"

record app_window =
  win_root :: nat
  win_focus :: "nat option"
  win_focus_enabled :: bool
  win_refreshing :: bool
  win_removed :: bool

text \<open>The closures that are deferred: one of the program, or one that activates a subscription.\<close>

datatype 'c deferred = RunDeferred 'c | ActivateObserver nat | ActivateListener nat | ActivateGlobalObserver nat

datatype ('c, 'e) effect =
    Notify nat
  | Emit nat nat nat 'e
  | RefreshWindows
  | NotifyGlobalObservers nat
  | Defer "'c deferred"
  | EntityCreated nat nat "nat option"

text \<open>The windows that running updates have taken out are on the machine's stack, the innermost first: \<open>held_windows\<close>.  An
  invalidator is shared by its window and the entities drawn in it: a store by the number of the window.  The strong counts of the focus
  handles are \<open>focus_handles\<close>.\<close>

record ('c, 'e, 'v, 'g) app =
  flushing_effects :: bool
  pending_updates :: nat
  quitting :: bool
  quit_requests :: nat
  quit_mode :: quit_mode
  globals_by_type :: "nat \<Rightarrow> 'g option"
  app_entities :: "(nat, 'v) entity_map"
  window_update_stack :: "nat list"
  windows :: "(nat \<times> app_window option) list"
  window_handles :: "nat set"
  held_windows :: "app_window list"
  invalidators :: "nat \<Rightarrow> invalidator"
  window_invalidators_by_entity :: "nat \<Rightarrow> nat list"
  tracked_entities :: "nat \<Rightarrow> nat set"
  focus_handles :: "(nat \<times> nat) list"
  pending_effects :: "('c, 'e) effect list"
  pending_notifications :: "nat set"
  pending_global_notifications :: "nat set"
  observers :: "(nat, 'c) subscriber_set"
  event_listeners :: "(nat, nat \<times> 'c) subscriber_set"
  release_listeners :: "(nat, 'c) subscriber_set"
  global_observers :: "(nat, 'c) subscriber_set"
  new_entity_observers :: "(nat, 'c) subscriber_set"
  window_closed_observers :: "(unit, 'c) subscriber_set"
  quit_observers :: "(unit, 'c) subscriber_set"
  arena_generation :: nat

datatype ('e, 'v) argument =
    NoArgument
  | ForEntity nat
  | ForEvent nat 'e
  | Released nat 'v
  | NewEntity nat "nat option"

text \<open>What a callback may do; the innermost held window is the one it has in its hands.\<close>

datatype ('c, 'e, 'v, 'g) command =
    DoNotify nat
  | DoEmit nat nat 'e
  | DoRefreshWindows
  | DoDefer 'c
  | DoSetGlobal nat 'g
  | DoGlobalMut nat
  | DoDefaultGlobal nat 'g
  | DoRemoveGlobal nat
  | DoUpdateGlobal nat 'g "('c, 'e, 'v, 'g) command list"
  | DoObserve nat 'c
  | DoSubscribe nat nat 'c
  | DoObserveGlobal nat 'c
  | DoObserveNew nat 'c
  | DoObserveRelease nat 'c
  | DoOnWindowClosed 'c
  | DoOnQuit 'c
  | DoUnobserve nat nat
  | DoUnsubscribe nat nat
  | DoUnobserveGlobal nat nat
  | DoUpdate "('c, 'e, 'v, 'g) command list"
  | DoNew nat 'v "('c, 'e, 'v, 'g) command list"
  | DoReserve
  | DoInsertEntity nat 'v "('c, 'e, 'v, 'g) command list"
  | DoUpdateEntity nat "('c, 'e, 'v, 'g) command list"
  | DoBorrow nat "('c, 'e, 'v, 'g) command list"
  | DoCloneHandle nat
  | DoDropHandle nat
  | DoUpdateWindow nat "('c, 'e, 'v, 'g) command list"
  | DoRemoveWindow
  | DoDropFocusHandle nat
  | DoCall 'c
  | DoShutdown

section \<open>Effects\<close>

definition push_effect :: "('c, 'e) effect \<Rightarrow> ('c, 'e, 'v, 'g) app \<Rightarrow> ('c, 'e, 'v, 'g) app" where
  "push_effect e s =
     (case e of
        Notify i \<Rightarrow>
          if i \<in> pending_notifications s then s
          else s\<lparr>pending_notifications := insert i (pending_notifications s), pending_effects := pending_effects s @ [e]\<rparr>
      | NotifyGlobalObservers t \<Rightarrow>
          if t \<in> pending_global_notifications s then s
          else s\<lparr>pending_global_notifications := insert t (pending_global_notifications s),
                 pending_effects := pending_effects s @ [e]\<rparr>
      | _ \<Rightarrow> s\<lparr>pending_effects := pending_effects s @ [e]\<rparr>)"

definition app_defer :: "'c deferred \<Rightarrow> ('c, 'e, 'v, 'g) app \<Rightarrow> ('c, 'e, 'v, 'g) app" where
  "app_defer d s = push_effect (Defer d) s"

definition refresh_windows :: "('c, 'e, 'v, 'g) app \<Rightarrow> ('c, 'e, 'v, 'g) app" where
  "refresh_windows s = s\<lparr>pending_effects := pending_effects s @ [RefreshWindows]\<rparr>"

definition context_emit :: "nat \<Rightarrow> nat \<Rightarrow> 'e \<Rightarrow> ('c, 'e, 'v, 'g) app \<Rightarrow> ('c, 'e, 'v, 'g) app" where
  "context_emit i ty e s = s\<lparr>pending_effects := pending_effects s @ [Emit i ty (arena_generation s) e]\<rparr>"

text \<open>\<open>WindowInvalidator::invalidate_view\<close>; whether it was invalidated outside of drawing is not used by the callers here.\<close>

definition invalidate_view :: "nat \<Rightarrow> nat \<Rightarrow> ('c, 'e, 'v, 'g) app \<Rightarrow> ('c, 'e, 'v, 'g) app" where
  "invalidate_view i w s =
     (let inv = (invalidators s w)\<lparr>dirty_views := insert i (dirty_views (invalidators s w))\<rparr> in
      if inv_not_drawing inv then
        push_effect (Notify i) (s\<lparr>invalidators := (invalidators s)(w := inv\<lparr>inv_dirty := True\<rparr>)\<rparr>)
      else s\<lparr>invalidators := (invalidators s)(w := inv)\<rparr>)"

definition app_notify :: "nat \<Rightarrow> ('c, 'e, 'v, 'g) app \<Rightarrow> ('c, 'e, 'v, 'g) app" where
  "app_notify i s =
     (let ws = window_invalidators_by_entity s i in
      if ws = [] then push_effect (Notify i) s else fold (invalidate_view i) ws s)"

text \<open>\<open>record_entities_accessed\<close>, after a window has been drawn from these entities.\<close>

definition record_entities_accessed :: "nat \<Rightarrow> nat set \<Rightarrow> ('c, 'e, 'v, 'g) app \<Rightarrow> ('c, 'e, 'v, 'g) app" where
  "record_entities_accessed w accessed s =
     (let without = (\<lambda>i. if i \<in> tracked_entities s w then removeAll w (window_invalidators_by_entity s i)
                         else window_invalidators_by_entity s i)
      in s\<lparr>window_invalidators_by_entity := (\<lambda>i. if i \<in> accessed then List.insert w (without i) else without i),
           tracked_entities := (tracked_entities s)(w := accessed)\<rparr>)"

section \<open>Globals\<close>

definition has_global :: "nat \<Rightarrow> ('c, 'e, 'v, 'g) app \<Rightarrow> bool" where
  "has_global t s \<longleftrightarrow> globals_by_type s t \<noteq> None"

definition set_global :: "nat \<Rightarrow> 'g \<Rightarrow> ('c, 'e, 'v, 'g) app \<Rightarrow> ('c, 'e, 'v, 'g) app" where
  "set_global t g s =
     (push_effect (NotifyGlobalObservers t) s)\<lparr>globals_by_type := (globals_by_type s)(t \<mapsto> g)\<rparr>"

definition global_mut :: "nat \<Rightarrow> ('c, 'e, 'v, 'g) app \<Rightarrow> ('c, 'e, 'v, 'g) app option" where
  "global_mut t s =
     (let s = push_effect (NotifyGlobalObservers t) s in if globals_by_type s t = None then None else Some s)"

definition default_global :: "nat \<Rightarrow> 'g \<Rightarrow> ('c, 'e, 'v, 'g) app \<Rightarrow> ('c, 'e, 'v, 'g) app" where
  "default_global t g s =
     (let s = push_effect (NotifyGlobalObservers t) s in
      if globals_by_type s t = None then s\<lparr>globals_by_type := (globals_by_type s)(t \<mapsto> g)\<rparr> else s)"

definition remove_global :: "nat \<Rightarrow> ('c, 'e, 'v, 'g) app \<Rightarrow> ('g \<times> ('c, 'e, 'v, 'g) app) option" where
  "remove_global t s =
     (let s = push_effect (NotifyGlobalObservers t) s in
      map_option (\<lambda>g. (g, s\<lparr>globals_by_type := (globals_by_type s)(t := None)\<rparr>)) (globals_by_type s t))"

definition lease_global :: "nat \<Rightarrow> ('c, 'e, 'v, 'g) app \<Rightarrow> ('g \<times> ('c, 'e, 'v, 'g) app) option" where
  "lease_global t s =
     map_option (\<lambda>g. (g, s\<lparr>globals_by_type := (globals_by_type s)(t := None)\<rparr>)) (globals_by_type s t)"

definition end_global_lease :: "nat \<Rightarrow> 'g \<Rightarrow> ('c, 'e, 'v, 'g) app \<Rightarrow> ('c, 'e, 'v, 'g) app" where
  "end_global_lease t g s =
     (push_effect (NotifyGlobalObservers t) s)\<lparr>globals_by_type := (globals_by_type s)(t \<mapsto> g)\<rparr>"

section \<open>Subscriptions\<close>

text \<open>A subscription to an entity or a global is activated at the end of the cycle, the others at once.\<close>

definition new_observer :: "nat \<Rightarrow> 'c \<Rightarrow> ('c, 'e, 'v, 'g) app \<Rightarrow> ('c, 'e, 'v, 'g) app" where
  "new_observer i c s =
     app_defer (ActivateObserver (next_subscriber_id (observers s)))
       (s\<lparr>observers := snd (snd (subscriber_insert i c (observers s)))\<rparr>)"

definition new_subscription :: "nat \<Rightarrow> nat \<Rightarrow> 'c \<Rightarrow> ('c, 'e, 'v, 'g) app \<Rightarrow> ('c, 'e, 'v, 'g) app" where
  "new_subscription i ty c s =
     app_defer (ActivateListener (next_subscriber_id (event_listeners s)))
       (s\<lparr>event_listeners := snd (snd (subscriber_insert i (ty, c) (event_listeners s)))\<rparr>)"

definition observe_global :: "nat \<Rightarrow> 'c \<Rightarrow> ('c, 'e, 'v, 'g) app \<Rightarrow> ('c, 'e, 'v, 'g) app" where
  "observe_global t c s =
     app_defer (ActivateGlobalObserver (next_subscriber_id (global_observers s)))
       (s\<lparr>global_observers := snd (snd (subscriber_insert t c (global_observers s)))\<rparr>)"

definition insert_active :: "'k \<Rightarrow> 'c \<Rightarrow> ('k, 'c) subscriber_set \<Rightarrow> ('k, 'c) subscriber_set" where
  "insert_active k c ss = (let (_, act, ss) = subscriber_insert k c ss in act ss)"

definition new_entity_observer :: "nat \<Rightarrow> 'c \<Rightarrow> ('c, 'e, 'v, 'g) app \<Rightarrow> ('c, 'e, 'v, 'g) app" where
  "new_entity_observer ty c s = s\<lparr>new_entity_observers := insert_active ty c (new_entity_observers s)\<rparr>"

definition observe_release :: "nat \<Rightarrow> 'c \<Rightarrow> ('c, 'e, 'v, 'g) app \<Rightarrow> ('c, 'e, 'v, 'g) app" where
  "observe_release i c s = s\<lparr>release_listeners := insert_active i c (release_listeners s)\<rparr>"

definition on_window_closed :: "'c \<Rightarrow> ('c, 'e, 'v, 'g) app \<Rightarrow> ('c, 'e, 'v, 'g) app" where
  "on_window_closed c s = s\<lparr>window_closed_observers := insert_active () c (window_closed_observers s)\<rparr>"

definition on_app_quit :: "'c \<Rightarrow> ('c, 'e, 'v, 'g) app \<Rightarrow> ('c, 'e, 'v, 'g) app" where
  "on_app_quit c s = s\<lparr>quit_observers := insert_active () c (quit_observers s)\<rparr>"

section \<open>The cycle\<close>

text \<open>
  What a run may be asked for: the commands of a body, a call of a callback, which says whether to keep it, and
  \<open>flush_effects\<close>.  Every part of the cycle is a function of \<open>rec\<close>, the runs with less fuel.
\<close>

datatype ('c, 'e, 'v, 'g) task =
    Body "('c, 'e, 'v, 'g) command list"
  | Call 'c "('e, 'v) argument"
  | Flush

type_synonym ('c, 'e, 'v, 'g) runner =
  "('c, 'e, 'v, 'g) task \<Rightarrow> ('c, 'e, 'v, 'g) app \<Rightarrow> (bool \<times> ('c, 'e, 'v, 'g) app) option"

type_synonym ('c, 'e, 'v, 'g) script =
  "'c \<Rightarrow> ('e, 'v) argument \<Rightarrow> ('c, 'e, 'v, 'g) app \<Rightarrow> ('c, 'e, 'v, 'g) command list \<times> bool"

definition do_body ::
  "('c, 'e, 'v, 'g) runner \<Rightarrow> ('c, 'e, 'v, 'g) command list \<Rightarrow> ('c, 'e, 'v, 'g) app \<Rightarrow> ('c, 'e, 'v, 'g) app option" where
  "do_body rec body s = map_option snd (rec (Body body) s)"

definition start_update :: "('c, 'e, 'v, 'g) app \<Rightarrow> ('c, 'e, 'v, 'g) app" where
  "start_update s = s\<lparr>pending_updates := pending_updates s + 1\<rparr>"

definition finish_update ::
  "('c, 'e, 'v, 'g) runner \<Rightarrow> ('c, 'e, 'v, 'g) app \<Rightarrow> ('c, 'e, 'v, 'g) app option" where
  "finish_update rec s = do {
     s \<leftarrow> (if \<not> flushing_effects s \<and> pending_updates s = 1 then do {
             (_, s) \<leftarrow> rec Flush (s\<lparr>flushing_effects := True\<rparr>);
             Some (s\<lparr>flushing_effects := False\<rparr>) }
           else Some s);
     Some (s\<lparr>pending_updates := pending_updates s - 1\<rparr>) }"

text \<open>\<open>App::update\<close> with its closure.\<close>

definition app_update ::
  "('c, 'e, 'v, 'g) runner \<Rightarrow> (('c, 'e, 'v, 'g) app \<Rightarrow> ('r \<times> ('c, 'e, 'v, 'g) app) option) \<Rightarrow> ('c, 'e, 'v, 'g) app \<Rightarrow>
     ('r \<times> ('c, 'e, 'v, 'g) app) option" where
  "app_update rec f s = do {
     (r, s) \<leftarrow> f (start_update s);
     s \<leftarrow> finish_update rec s;
     Some (r, s) }"

text \<open>The entity map within the application; dropping handles may leave entities to be released.\<close>

definition on_entities ::
  "((nat, 'v) entity_map \<Rightarrow> (nat, 'v) entity_map option) \<Rightarrow> ('c, 'e, 'v, 'g) app \<Rightarrow> ('c, 'e, 'v, 'g) app option" where
  "on_entities f s = map_option (\<lambda>m. s\<lparr>app_entities := m\<rparr>) (f (app_entities s))"

definition new_entity ::
  "(nat \<Rightarrow> nat) \<Rightarrow> ('c, 'e, 'v, 'g) runner \<Rightarrow> nat \<Rightarrow> 'v \<Rightarrow> ('c, 'e, 'v, 'g) command list \<Rightarrow> ('c, 'e, 'v, 'g) app \<Rightarrow>
     (nat \<times> ('c, 'e, 'v, 'g) app) option" where
  "new_entity alloc rec ty v body = app_update rec (\<lambda>s. do {
     let (i, m) = em_reserve alloc (app_entities s);
     s \<leftarrow> on_entities (handle_clone i) (s\<lparr>app_entities := m\<rparr>);
     s \<leftarrow> do_body rec body s;
     s \<leftarrow> on_entities (handle_clone i) s;
     let s = push_effect (EntityCreated i ty (last_opt (window_update_stack s))) s;
     s \<leftarrow> on_entities (\<lambda>m. handle_drop i (em_insert i v m)) s;
     Some (i, s) })"

definition insert_entity ::
  "('c, 'e, 'v, 'g) runner \<Rightarrow> nat \<Rightarrow> 'v \<Rightarrow> ('c, 'e, 'v, 'g) command list \<Rightarrow> ('c, 'e, 'v, 'g) app \<Rightarrow>
     (unit \<times> ('c, 'e, 'v, 'g) app) option" where
  "insert_entity rec i v body = app_update rec (\<lambda>s. do {
     s \<leftarrow> do_body rec body s;
     s \<leftarrow> on_entities (\<lambda>m. Some (em_insert i v m)) s;
     Some ((), s) })"

text \<open>The closure of \<open>update_entity\<close> runs between the lease and its end.\<close>

definition with_lease ::
  "nat \<Rightarrow> (('c, 'e, 'v, 'g) app \<Rightarrow> ('r \<times> ('c, 'e, 'v, 'g) app) option) \<Rightarrow> ('c, 'e, 'v, 'g) app \<Rightarrow>
     ('r \<times> ('c, 'e, 'v, 'g) app) option" where
  "with_lease i f s = do {
     (v, m) \<leftarrow> em_lease i (app_entities s);
     (r, s) \<leftarrow> f (s\<lparr>app_entities := m\<rparr>);
     Some (r, s\<lparr>app_entities := em_end_lease i v (app_entities s)\<rparr>) }"

definition update_entity ::
  "('c, 'e, 'v, 'g) runner \<Rightarrow> nat \<Rightarrow> (('c, 'e, 'v, 'g) app \<Rightarrow> ('r \<times> ('c, 'e, 'v, 'g) app) option) \<Rightarrow>
     ('c, 'e, 'v, 'g) app \<Rightarrow> ('r \<times> ('c, 'e, 'v, 'g) app) option" where
  "update_entity rec i f = app_update rec (with_lease i f)"

text \<open>\<open>as_mut\<close>: the borrowed entity is used by the body and then dropped.\<close>

definition borrow_entity ::
  "('c, 'e, 'v, 'g) runner \<Rightarrow> nat \<Rightarrow> ('c, 'e, 'v, 'g) command list \<Rightarrow> ('c, 'e, 'v, 'g) app \<Rightarrow>
     (unit \<times> ('c, 'e, 'v, 'g) app) option" where
  "borrow_entity rec i body = app_update rec (with_lease i (\<lambda>s. do {
     s \<leftarrow> do_body rec body s;
     Some ((), app_notify i s) }))"

section \<open>Windows\<close>

definition request_quit :: "('c, 'e, 'v, 'g) app \<Rightarrow> ('c, 'e, 'v, 'g) app" where
  "request_quit s = s\<lparr>quit_requests := quit_requests s + 1\<rparr>"

definition quit_on_empty :: "target_os \<Rightarrow> quit_mode \<Rightarrow> bool" where
  "quit_on_empty os m = (case m of QuitExplicit \<Rightarrow> False | LastWindowClosed \<Rightarrow> True | QuitDefault \<Rightarrow> os \<noteq> MacOS)"

text \<open>A window that is taken out of its slot, and one put back; \<open>None\<close> when there is no slot.\<close>

fun set_window :: "nat \<Rightarrow> app_window option \<Rightarrow> (nat \<times> app_window option) list \<Rightarrow> (nat \<times> app_window option) list option" where
  "set_window i w [] = None"
| "set_window i w ((j, x) # ws) = (if i = j then Some ((j, w) # ws) else map_option ((#) (j, x)) (set_window i w ws))"

text \<open>The function \<open>trail\<close> of \<open>update_window_id\<close>: whether the slot was still there.\<close>

definition window_trail ::
  "target_os \<Rightarrow> ('c, 'e, 'v, 'g) runner \<Rightarrow> nat \<Rightarrow> app_window \<Rightarrow> ('c, 'e, 'v, 'g) app \<Rightarrow> (bool \<times> ('c, 'e, 'v, 'g) app) option" where
  "window_trail os rec i w s =
     (let s = s\<lparr>window_update_stack := butlast (window_update_stack s)\<rparr> in
      if win_removed w then do {
        let s = s\<lparr>window_handles := window_handles s - {i}, windows := filter (\<lambda>(j, _). j \<noteq> i) (windows s)\<rparr>;
        s \<leftarrow> subscriber_retain window_closed_observers (\<lambda>x s. s\<lparr>window_closed_observers := x\<rparr>) ()
               (\<lambda>c s. do { (_, s) \<leftarrow> rec (Call c NoArgument) s; Some (c, True, s) }) s;
        let s = (if quit_on_empty os (quit_mode s) \<and> windows s = [] then request_quit s else s);
        s \<leftarrow> on_entities (handle_drop (win_root w)) s;
        Some (True, s) }
      else
        (case set_window i (Some w) (windows s) of
           Some ws \<Rightarrow> Some (True, s\<lparr>windows := ws\<rparr>)
         | None \<Rightarrow> do {
             s \<leftarrow> on_entities (handle_drop (win_root w)) s;
             Some (False, s) }))"

text \<open>\<open>update_window_id\<close>: whether the window was found; the closure also gets the root view, a handle.\<close>

definition update_window_id ::
  "target_os \<Rightarrow> ('c, 'e, 'v, 'g) runner \<Rightarrow> nat \<Rightarrow> (('c, 'e, 'v, 'g) app \<Rightarrow> ('c, 'e, 'v, 'g) app option) \<Rightarrow>
     ('c, 'e, 'v, 'g) app \<Rightarrow> (bool \<times> ('c, 'e, 'v, 'g) app) option" where
  "update_window_id os rec i f = app_update rec (\<lambda>s.
     case map_of (windows s) i of
       Some (Some w) \<Rightarrow> do {
         ws \<leftarrow> set_window i None (windows s);
         s \<leftarrow> on_entities (handle_clone (win_root w)) (s\<lparr>windows := ws\<rparr>);
         s \<leftarrow> f (s\<lparr>window_update_stack := window_update_stack s @ [i], held_windows := w # held_windows s\<rparr>);
         s \<leftarrow> on_entities (handle_drop (win_root w)) s;
         (case held_windows s of
            [] \<Rightarrow> None
          | w # rest \<Rightarrow> window_trail os rec i w (s\<lparr>held_windows := rest\<rparr>)) }
     | _ \<Rightarrow> Some (False, s))"

text \<open>An operation on the window that a callback has in its hands.\<close>

definition on_held_window :: "(app_window \<Rightarrow> app_window) \<Rightarrow> ('c, 'e, 'v, 'g) app \<Rightarrow> ('c, 'e, 'v, 'g) app" where
  "on_held_window f s = (case held_windows s of [] \<Rightarrow> s | w # ws \<Rightarrow> s\<lparr>held_windows := f w # ws\<rparr>)"

definition blur_held :: "nat \<Rightarrow> ('c, 'e, 'v, 'g) app \<Rightarrow> ('c, 'e, 'v, 'g) app" where
  "blur_held i s =
     (case held_windows s of
        [] \<Rightarrow> s
      | w # ws \<Rightarrow>
          if \<not> win_focus_enabled w then s
          else
            let w = w\<lparr>win_focus := None\<rparr>; inv = invalidators s i in
            if inv_not_drawing inv then
              s\<lparr>held_windows := w\<lparr>win_refreshing := True\<rparr> # ws, invalidators := (invalidators s)(i := inv\<lparr>inv_dirty := True\<rparr>)\<rparr>
            else s\<lparr>held_windows := w # ws\<rparr>)"

definition remove_window :: "app_window \<Rightarrow> app_window" where
  "remove_window w = w\<lparr>win_removed := True\<rparr>"

definition windows_of :: "('c, 'e, 'v, 'g) app \<Rightarrow> nat list" where
  "windows_of s = filter (\<lambda>i. i \<in> window_handles s) (map fst (windows s))"

section \<open>Flushing\<close>

text \<open>An entity that is released: its observers and listeners go, and its release listeners are called.\<close>

fun call_all ::
  "(('c, 'e, 'v, 'g) app \<Rightarrow> 'c \<Rightarrow> ('c, 'e, 'v, 'g) app option) \<Rightarrow> 'c list \<Rightarrow> ('c, 'e, 'v, 'g) app \<Rightarrow> ('c, 'e, 'v, 'g) app option" where
  "call_all f [] s = Some s"
| "call_all f (c # cs) s = do { s \<leftarrow> f s c; call_all f cs s }"

fun release_entities ::
  "('c, 'e, 'v, 'g) runner \<Rightarrow> (nat \<times> 'v) list \<Rightarrow> ('c, 'e, 'v, 'g) app \<Rightarrow> ('c, 'e, 'v, 'g) app option" where
  "release_entities rec [] s = Some s"
| "release_entities rec ((i, v) # dropped) s = do {
     let s = s\<lparr>observers := snd (subscriber_remove i (observers s)),
               event_listeners := snd (subscriber_remove i (event_listeners s))\<rparr>;
     let (cs, ls) = subscriber_remove i (release_listeners s);
     s \<leftarrow> call_all (\<lambda>s c. map_option snd (rec (Call c (Released i v)) s)) cs (s\<lparr>release_listeners := ls\<rparr>);
     release_entities rec dropped s }"

text \<open>The windows lose the focus of a handle that nobody holds any more; \<open>unwrap\<close> panics when a window is being updated.\<close>

fun blur_windows ::
  "target_os \<Rightarrow> ('c, 'e, 'v, 'g) runner \<Rightarrow> nat \<Rightarrow> nat list \<Rightarrow> ('c, 'e, 'v, 'g) app \<Rightarrow> ('c, 'e, 'v, 'g) app option" where
  "blur_windows os rec h [] s = Some s"
| "blur_windows os rec h (i # is) s = do {
     (found, s) \<leftarrow> update_window_id os rec i
       (\<lambda>s. Some (case held_windows s of
          w # _ \<Rightarrow> if win_focus w = Some h then blur_held i s else s
        | [] \<Rightarrow> s)) s;
     if found then blur_windows os rec h is s else None }"

fun release_focus_handles ::
  "target_os \<Rightarrow> ('c, 'e, 'v, 'g) runner \<Rightarrow> (nat \<times> nat) list \<Rightarrow> ('c, 'e, 'v, 'g) app \<Rightarrow>
     ((nat \<times> nat) list \<times> ('c, 'e, 'v, 'g) app) option" where
  "release_focus_handles os rec [] s = Some ([], s)"
| "release_focus_handles os rec ((h, n) # hs) s =
     (if n = 0 then do {
        s \<leftarrow> blur_windows os rec h (windows_of s) s;
        release_focus_handles os rec hs s }
      else do {
        (hs, s) \<leftarrow> release_focus_handles os rec hs s;
        Some ((h, n) # hs, s) })"

definition release_dropped_focus_handles ::
  "target_os \<Rightarrow> ('c, 'e, 'v, 'g) runner \<Rightarrow> ('c, 'e, 'v, 'g) app \<Rightarrow> ('c, 'e, 'v, 'g) app option" where
  "release_dropped_focus_handles os rec s = do {
     (hs, s) \<leftarrow> release_focus_handles os rec (focus_handles s) s;
     Some (s\<lparr>focus_handles := hs\<rparr>) }"

text \<open>The closures that \<open>observe_internal\<close> and \<open>subscribe_internal\<close> wrap around a callback: it is called with a handle to the entity, as
  long as there is one.\<close>

definition with_upgrade ::
  "('c, 'e, 'v, 'g) runner \<Rightarrow> nat \<Rightarrow> 'c \<Rightarrow> ('e, 'v) argument \<Rightarrow> ('c, 'e, 'v, 'g) app \<Rightarrow> (bool \<times> ('c, 'e, 'v, 'g) app) option" where
  "with_upgrade rec i c arg s =
     (let (handle, m) = weak_upgrade i (app_entities s) in
      case handle of
        None \<Rightarrow> Some (False, s)
      | Some _ \<Rightarrow> do {
          (keep, s) \<leftarrow> rec (Call c arg) (s\<lparr>app_entities := m\<rparr>);
          s \<leftarrow> on_entities (handle_drop i) s;
          Some (keep, s) })"

definition apply_notify_effect ::
  "('c, 'e, 'v, 'g) runner \<Rightarrow> nat \<Rightarrow> ('c, 'e, 'v, 'g) app \<Rightarrow> ('c, 'e, 'v, 'g) app option" where
  "apply_notify_effect rec i s =
     subscriber_retain observers (\<lambda>x s. s\<lparr>observers := x\<rparr>) i
       (\<lambda>c s. do { (keep, s) \<leftarrow> with_upgrade rec i c (ForEntity i) s; Some (c, keep, s) })
       (s\<lparr>pending_notifications := pending_notifications s - {i}\<rparr>)"

text \<open>An event can be read as long as the arena has not been cleared since it was allocated.\<close>

definition apply_emit_effect ::
  "('c, 'e, 'v, 'g) runner \<Rightarrow> nat \<Rightarrow> nat \<Rightarrow> nat \<Rightarrow> 'e \<Rightarrow> ('c, 'e, 'v, 'g) app \<Rightarrow> ('c, 'e, 'v, 'g) app option" where
  "apply_emit_effect rec i ty gen e s =
     (if gen \<noteq> arena_generation s then None
      else subscriber_retain event_listeners (\<lambda>x s. s\<lparr>event_listeners := x\<rparr>) i
        (\<lambda>(stored, c) s.
           if stored = ty then
             (if gen \<noteq> arena_generation s then None
              else do { (keep, s) \<leftarrow> with_upgrade rec i c (ForEvent i e) s; Some ((stored, c), keep, s) })
           else Some ((stored, c), True, s)) s)"

definition apply_refresh_effect :: "('c, 'e, 'v, 'g) app \<Rightarrow> ('c, 'e, 'v, 'g) app" where
  "apply_refresh_effect s =
     s\<lparr>windows := map (\<lambda>(i, w). (i, map_option (\<lambda>w. w\<lparr>win_refreshing := True\<rparr>) w)) (windows s),
       invalidators := (\<lambda>i. if (\<exists>w. map_of (windows s) i = Some (Some w)) then (invalidators s i)\<lparr>inv_dirty := True\<rparr> else invalidators s i)\<rparr>"

definition apply_notify_global_observers_effect ::
  "('c, 'e, 'v, 'g) runner \<Rightarrow> nat \<Rightarrow> ('c, 'e, 'v, 'g) app \<Rightarrow> ('c, 'e, 'v, 'g) app option" where
  "apply_notify_global_observers_effect rec t s =
     subscriber_retain global_observers (\<lambda>x s. s\<lparr>global_observers := x\<rparr>) t
       (\<lambda>c s. do { (_, s) \<leftarrow> rec (Call c NoArgument) s; Some (c, True, s) })
       (s\<lparr>pending_global_notifications := pending_global_notifications s - {t}\<rparr>)"

definition apply_defer_effect ::
  "('c, 'e, 'v, 'g) runner \<Rightarrow> 'c deferred \<Rightarrow> ('c, 'e, 'v, 'g) app \<Rightarrow> ('c, 'e, 'v, 'g) app option" where
  "apply_defer_effect rec d s =
     (case d of
        RunDeferred c \<Rightarrow> map_option snd (rec (Call c NoArgument) s)
      | ActivateObserver n \<Rightarrow> Some (s\<lparr>observers := activate n (observers s)\<rparr>)
      | ActivateListener n \<Rightarrow> Some (s\<lparr>event_listeners := activate n (event_listeners s)\<rparr>)
      | ActivateGlobalObserver n \<Rightarrow> Some (s\<lparr>global_observers := activate n (global_observers s)\<rparr>))"

text \<open>The closure of \<open>observe_new\<close> updates the entity it gets.\<close>

definition call_new_observer ::
  "('c, 'e, 'v, 'g) runner \<Rightarrow> nat \<Rightarrow> nat option \<Rightarrow> 'c \<Rightarrow> ('c, 'e, 'v, 'g) app \<Rightarrow> ('c, 'e, 'v, 'g) app option" where
  "call_new_observer rec i w c s = do {
     s \<leftarrow> on_entities (handle_clone i) s;
     (_, s) \<leftarrow> update_entity rec i (rec (Call c (NewEntity i w))) s;
     on_entities (handle_drop i) s }"

definition apply_entity_created_effect ::
  "target_os \<Rightarrow> ('c, 'e, 'v, 'g) runner \<Rightarrow> nat \<Rightarrow> nat \<Rightarrow> nat option \<Rightarrow> ('c, 'e, 'v, 'g) app \<Rightarrow> ('c, 'e, 'v, 'g) app option" where
  "apply_entity_created_effect os rec i ty w s = do {
     s \<leftarrow> subscriber_retain new_entity_observers (\<lambda>x s. s\<lparr>new_entity_observers := x\<rparr>) ty
       (\<lambda>c s. do {
          s \<leftarrow> (case w of
                  Some j \<Rightarrow> do {
                    (found, s) \<leftarrow> update_window_id os rec j (call_new_observer rec i w c) s;
                    if found then Some s else None }
                | None \<Rightarrow> call_new_observer rec i None c s);
          Some (c, True, s) }) s;
     on_entities (handle_drop i) s }"

definition apply_effect ::
  "target_os \<Rightarrow> ('c, 'e, 'v, 'g) runner \<Rightarrow> ('c, 'e) effect \<Rightarrow> ('c, 'e, 'v, 'g) app \<Rightarrow> ('c, 'e, 'v, 'g) app option" where
  "apply_effect os rec e s =
     (case e of
        Notify i \<Rightarrow> apply_notify_effect rec i s
      | Emit i ty gen ev \<Rightarrow> apply_emit_effect rec i ty gen ev s
      | RefreshWindows \<Rightarrow> Some (apply_refresh_effect s)
      | NotifyGlobalObservers t \<Rightarrow> apply_notify_global_observers_effect rec t s
      | Defer d \<Rightarrow> apply_defer_effect rec d s
      | EntityCreated i ty w \<Rightarrow> apply_entity_created_effect os rec i ty w s)"

text \<open>One turn of the loop of \<open>flush_effects\<close>; while there are dropped entities, the loop of \<open>release_dropped_entities\<close> goes on.\<close>

definition flush_turn ::
  "target_os \<Rightarrow> ('c, 'e, 'v, 'g) runner \<Rightarrow> ('c, 'e, 'v, 'g) app \<Rightarrow> (bool \<times> ('c, 'e, 'v, 'g) app) option" where
  "flush_turn os rec s = do {
     (dropped, m) \<leftarrow> em_take_dropped (app_entities s);
     let s = s\<lparr>app_entities := m\<rparr>;
     if dropped \<noteq> [] then do {
       s \<leftarrow> release_entities rec dropped s;
       rec Flush s }
     else do {
       s \<leftarrow> release_dropped_focus_handles os rec s;
       (case pending_effects s of
          [] \<Rightarrow> Some (True, s\<lparr>arena_generation := arena_generation s + 1\<rparr>)
        | e # es \<Rightarrow> do {
            s \<leftarrow> apply_effect os rec e (s\<lparr>pending_effects := es\<rparr>);
            rec Flush s }) }}"

fun drop_handles :: "nat list \<Rightarrow> ('c, 'e, 'v, 'g) app \<Rightarrow> ('c, 'e, 'v, 'g) app option" where
  "drop_handles [] s = Some s"
| "drop_handles (i # is) s = do { s \<leftarrow> on_entities (handle_drop i) s; drop_handles is s }"

text \<open>\<open>shutdown\<close>, up to the futures of the quit observers, which are waited for outside.\<close>

definition shutdown ::
  "('c, 'e, 'v, 'g) runner \<Rightarrow> ('c, 'e, 'v, 'g) app \<Rightarrow> ('c, 'e, 'v, 'g) app option" where
  "shutdown rec s = do {
     let (cs, qs) = subscriber_remove () (quit_observers s);
     s \<leftarrow> call_all (\<lambda>s c. map_option snd (rec (Call c NoArgument) s)) cs (s\<lparr>quit_observers := qs\<rparr>);
     let roots = List.map_filter (\<lambda>(_, w). map_option win_root w) (windows s);
     s \<leftarrow> drop_handles roots (s\<lparr>windows := [], window_handles := {}\<rparr>);
     (_, s) \<leftarrow> rec Flush s;
     Some (s\<lparr>quitting := False\<rparr>) }"

section \<open>Running\<close>

definition drop_focus_handle :: "nat \<Rightarrow> ('c, 'e, 'v, 'g) app \<Rightarrow> ('c, 'e, 'v, 'g) app" where
  "drop_focus_handle h s = s\<lparr>focus_handles := map (\<lambda>(i, n). (i, if i = h then n - 1 else n)) (focus_handles s)\<rparr>"

definition update_global ::
  "('c, 'e, 'v, 'g) runner \<Rightarrow> nat \<Rightarrow> 'g \<Rightarrow> ('c, 'e, 'v, 'g) command list \<Rightarrow> ('c, 'e, 'v, 'g) app \<Rightarrow> ('c, 'e, 'v, 'g) app option" where
  "update_global rec t g body s = do {
     (_, s) \<leftarrow> lease_global t s;
     s \<leftarrow> do_body rec body s;
     Some (end_global_lease t g s) }"

definition run_command ::
  "(nat \<Rightarrow> nat) \<Rightarrow> target_os \<Rightarrow> ('c, 'e, 'v, 'g) runner \<Rightarrow> ('c, 'e, 'v, 'g) command \<Rightarrow> ('c, 'e, 'v, 'g) app \<Rightarrow>
     ('c, 'e, 'v, 'g) app option" where
  "run_command alloc os rec c s =
     (case c of
        DoNotify i \<Rightarrow> Some (app_notify i s)
      | DoEmit i ty e \<Rightarrow> Some (context_emit i ty e s)
      | DoRefreshWindows \<Rightarrow> Some (refresh_windows s)
      | DoDefer c \<Rightarrow> Some (app_defer (RunDeferred c) s)
      | DoSetGlobal t g \<Rightarrow> Some (set_global t g s)
      | DoGlobalMut t \<Rightarrow> global_mut t s
      | DoDefaultGlobal t g \<Rightarrow> Some (default_global t g s)
      | DoRemoveGlobal t \<Rightarrow> map_option snd (remove_global t s)
      | DoUpdateGlobal t g body \<Rightarrow> update_global rec t g body s
      | DoObserve i c \<Rightarrow> Some (new_observer i c s)
      | DoSubscribe i ty c \<Rightarrow> Some (new_subscription i ty c s)
      | DoObserveGlobal t c \<Rightarrow> Some (observe_global t c s)
      | DoObserveNew ty c \<Rightarrow> Some (new_entity_observer ty c s)
      | DoObserveRelease i c \<Rightarrow> Some (observe_release i c s)
      | DoOnWindowClosed c \<Rightarrow> Some (on_window_closed c s)
      | DoOnQuit c \<Rightarrow> Some (on_app_quit c s)
      | DoUnobserve i n \<Rightarrow> Some (s\<lparr>observers := unsubscribe i n (observers s)\<rparr>)
      | DoUnsubscribe i n \<Rightarrow> Some (s\<lparr>event_listeners := unsubscribe i n (event_listeners s)\<rparr>)
      | DoUnobserveGlobal t n \<Rightarrow> Some (s\<lparr>global_observers := unsubscribe t n (global_observers s)\<rparr>)
      | DoUpdate body \<Rightarrow> map_option snd (app_update rec (\<lambda>s. map_option (Pair ()) (do_body rec body s)) s)
      | DoNew ty v body \<Rightarrow> map_option snd (new_entity alloc rec ty v body s)
      | DoReserve \<Rightarrow> Some (s\<lparr>app_entities := snd (em_reserve alloc (app_entities s))\<rparr>)
      | DoInsertEntity i v body \<Rightarrow> map_option snd (insert_entity rec i v body s)
      | DoUpdateEntity i body \<Rightarrow> map_option snd (update_entity rec i (\<lambda>s. map_option (Pair ()) (do_body rec body s)) s)
      | DoBorrow i body \<Rightarrow> map_option snd (borrow_entity rec i body s)
      | DoCloneHandle i \<Rightarrow> on_entities (handle_clone i) s
      | DoDropHandle i \<Rightarrow> on_entities (handle_drop i) s
      | DoUpdateWindow i body \<Rightarrow> map_option snd (update_window_id os rec i (do_body rec body) s)
      | DoRemoveWindow \<Rightarrow> Some (on_held_window remove_window s)
      | DoDropFocusHandle h \<Rightarrow> Some (drop_focus_handle h s)
      | DoCall c \<Rightarrow> map_option snd (rec (Call c NoArgument) s)
      | DoShutdown \<Rightarrow> shutdown rec s)"

definition run_step ::
  "(nat \<Rightarrow> nat) \<Rightarrow> target_os \<Rightarrow> ('c, 'e, 'v, 'g) script \<Rightarrow> ('c, 'e, 'v, 'g) runner \<Rightarrow> ('c, 'e, 'v, 'g) runner" where
  "run_step alloc os script rec t s =
     (case t of
        Body [] \<Rightarrow> Some (True, s)
      | Body (c # cs) \<Rightarrow> do { s \<leftarrow> run_command alloc os rec c s; rec (Body cs) s }
      | Call c arg \<Rightarrow> (let (body, keep) = script c arg s in map_option (\<lambda>s. (keep, s)) (do_body rec body s))
      | Flush \<Rightarrow> flush_turn os rec s)"

primrec run_task ::
  "nat \<Rightarrow> (nat \<Rightarrow> nat) \<Rightarrow> target_os \<Rightarrow> ('c, 'e, 'v, 'g) script \<Rightarrow> ('c, 'e, 'v, 'g) runner" where
  "run_task 0 alloc os script = (\<lambda>t s. None)"
| "run_task (Suc n) alloc os script = run_step alloc os script (run_task n alloc os script)"

text \<open>What \<open>App::new_app\<close> starts with: nothing but the controller \<open>g\<close> of the window tabs, a global of type
  \<open>t\<close>, whose observers are to be notified.\<close>

definition new_app :: "nat \<Rightarrow> 'g \<Rightarrow> ('c, 'e, 'v, 'g) app" where
  "new_app t g = set_global t g
     \<lparr>flushing_effects = False, pending_updates = 0, quitting = False, quit_requests = 0, quit_mode = QuitDefault,
      globals_by_type = (\<lambda>_. None), app_entities = entity_map_new, window_update_stack = [], windows = [],
      window_handles = {}, held_windows = [],
      invalidators = (\<lambda>_. \<lparr>inv_dirty = False, inv_not_drawing = True, dirty_views = {}\<rparr>),
      window_invalidators_by_entity = (\<lambda>_. []), tracked_entities = (\<lambda>_. {}), focus_handles = [],
      pending_effects = [], pending_notifications = {}, pending_global_notifications = {},
      observers = subscriber_set_new, event_listeners = subscriber_set_new, release_listeners = subscriber_set_new,
      global_observers = subscriber_set_new, new_entity_observers = subscriber_set_new,
      window_closed_observers = subscriber_set_new, quit_observers = subscriber_set_new, arena_generation = 0\<rparr>"

lemma retain_loop_stuck:
  "(\<And>c. F c w = None) \<Longrightarrow> \<exists>(n, c) \<in> set xs. n \<in> activated (get w) \<Longrightarrow> retain_loop get F xs w = None"
proof (induction xs)
  case (Cons x xs)
  show ?case
  proof (cases "fst x \<in> activated (get w)")
    case False
    then have "retain_loop get F xs w = None" using Cons by auto
    then show ?thesis using False by (cases x) simp
  qed (cases x; use Cons.prems(1) in simp)
qed simp

text \<open>A view made in a window that is removed in the same update makes the application panic, when views of that type are
  observed.\<close>

lemma created_in_removed_window:
  assumes window: "map_of (windows s) j = None"
    and "subscribers (new_entity_observers s) ty = Some (Some m)" "\<exists>(n, c) \<in> set m. n \<in> activated (new_entity_observers s)"
  shows "apply_entity_created_effect os rec i ty (Some j) s = None"
proof -
  have "update_window_id os rec j f w \<noteq> Some (True, w')" if "map_of (windows w) j = None" for f w w'
    using that by (auto simp: update_window_id_def app_update_def start_update_def bind_eq_Some_conv)
  then have call: "Option.bind (update_window_id os rec j f w) (\<lambda>(found, s). if found then Some s else None) = None"
    if "map_of (windows w) j = None" for f w using that by (cases "update_window_id os rec j f w") auto
  let ?F = "\<lambda>c s. do {
      s \<leftarrow> do { (found, s) \<leftarrow> update_window_id os rec j (call_new_observer rec i (Some j) c) s; if found then Some s else None };
      Some (c, True, s) }"
  let ?w = "s\<lparr>new_entity_observers := (new_entity_observers s)
      \<lparr>subscribers := (subscribers (new_entity_observers s))(ty \<mapsto> None)\<rparr>\<rparr>"
  have "map_of (windows ?w) j = None" using window by simp
  then have "?F c ?w = None" for c using call [of ?w "call_new_observer rec i (Some j) c"] by (simp only: bind.simps)
  moreover have "\<exists>(n, c) \<in> set m. n \<in> activated (new_entity_observers ?w)" using assms(3) by simp
  ultimately have "retain_loop new_entity_observers ?F m ?w = None" by (rule retain_loop_stuck)
  then show ?thesis using assms(2)
    by (simp only: apply_entity_created_effect_def subscriber_retain_def option.case bind.simps)
qed

end
