(* ===== verification/AppCycle.thy ===== *)
theory AppCycle
  imports AppEffects
begin

text \<open>
  Invariants of the update cycle.  The locale \<open>app_steps\<close> says what a property of the application's state needs to be kept by every
  operation of a callback, and \<open>app_cycle\<close> by the cycle; with it a run of any length is one lemma.  The first instance is that
  nothing happens during an update but that effects are queued, the second that every notice is queued once.
\<close>

section \<open>Rounds of callbacks\<close>

text \<open>What every call keeps, a round keeps.\<close>

lemma retain_loop_inv:
  assumes f: "\<And>c s c' k s'. J s \<Longrightarrow> f c s = Some (c', k, s') \<Longrightarrow> J s'"
  shows "J s \<Longrightarrow> retain_loop get f xs s = Some (ys, s') \<Longrightarrow> J s'"
proof (induction xs arbitrary: s ys)
  case Nil
  then show ?case by simp
next
  case (Cons x xs)
  obtain i c where x: "x = (i, c)" by (cases x)
  show ?case
  proof (cases "i \<in> activated (get s)")
    case True
    then obtain c' k t ys' where t: "f c s = Some (c', k, t)" "retain_loop get f xs t = Some (ys', s')"
      using Cons.prems(2) x by (auto simp: bind_eq_Some_conv)
    then show ?thesis using Cons.IH [OF f [OF Cons.prems(1) t(1)]] by blast
  next
    case False
    then obtain ys' where "retain_loop get f xs s = Some (ys', s')"
      using Cons.prems(2) x by (auto simp: bind_eq_Some_conv)
    then show ?thesis using Cons.IH Cons.prems(1) by blast
  qed
qed

lemma retain_inv:
  assumes f: "\<And>c s c' k s'. J s \<Longrightarrow> f c s = Some (c', k, s') \<Longrightarrow> J s'"
    and put: "\<And>x s. J s \<Longrightarrow> J (put x s)"
    and s: "J s" "subscriber_retain get put k f s = Some s'"
  shows "J s'"
proof (cases "\<exists>m. subscribers (get s) k = Some (Some m)")
  case True
  then obtain m where m: "subscribers (get s) k = Some (Some m)" by blast
  let ?s = "put ((get s)\<lparr>subscribers := (subscribers (get s))(k \<mapsto> None)\<rparr>) s"
  obtain ys t x where t: "retain_loop get f m ?s = Some (ys, t)" "s' = put x t"
    using s(2) m by (auto simp: subscriber_retain_def bind_eq_Some_conv)
  have "J t" using retain_loop_inv [of J f, OF f put [OF s(1)] t(1)] .
  then show ?thesis using put t(2) by blast
next
  case False
  then have "s' = s" using s(2) by (auto simp: subscriber_retain_def split: option.splits)
  then show ?thesis using s(1) by simp
qed

lemma plain_effects:
  "context_emit i ty e s = push_effect (Emit i ty (arena_generation s) e) s" "refresh_windows s = push_effect RefreshWindows s"
  by (simp_all add: context_emit_def refresh_windows_def push_effect_def)

section \<open>What every part of the cycle keeps\<close>

text \<open>The part of the state that the cycle itself works on.\<close>

definition same_cycle :: "('c, 'e, 'v, 'g) app \<Rightarrow> ('c, 'e, 'v, 'g) app \<Rightarrow> bool" where
  "same_cycle s s' \<longleftrightarrow>
     pending_effects s' = pending_effects s \<and> pending_notifications s' = pending_notifications s \<and>
     pending_global_notifications s' = pending_global_notifications s \<and> pending_updates s' = pending_updates s \<and>
     flushing_effects s' = flushing_effects s \<and> arena_generation s' = arena_generation s"

fun bodies :: "('c, 'e, 'v, 'g) command \<Rightarrow> ('c, 'e, 'v, 'g) command list" where
  "bodies (DoUpdateGlobal _ _ body) = body"
| "bodies (DoUpdate body) = body"
| "bodies (DoNew _ _ body) = body"
| "bodies (DoInsertEntity _ _ body) = body"
| "bodies (DoUpdateEntity _ body) = body"
| "bodies (DoBorrow _ body) = body"
| "bodies (DoUpdateWindow _ body) = body"
| "bodies _ = []"

text \<open>
  The interface between the operations and the cycle: \<open>P\<close> is kept and \<open>R\<close> relates the states before and after.  It
  asks for this of the steps that touch the cycle's part of the state, and of an update whose closure keeps it; \<open>allowed\<close> says which
  commands are run, and \<open>flushes\<close> whether a flush may be one of them.
\<close>

locale app_steps =
  fixes P :: "('c, 'e, 'v, 'g) app \<Rightarrow> bool" and R :: "('c, 'e, 'v, 'g) app \<Rightarrow> ('c, 'e, 'v, 'g) app \<Rightarrow> bool"
    and allowed :: "('c, 'e, 'v, 'g) command \<Rightarrow> bool" and flushes :: bool
    and script :: "('c, 'e, 'v, 'g) script" and os :: target_os and alloc :: "nat \<Rightarrow> nat"
  assumes R_refl: "R s s" and R_trans: "R s t \<Longrightarrow> R t u \<Longrightarrow> R s u"
    and same: "P s \<Longrightarrow> same_cycle s s' \<Longrightarrow> P s' \<and> R s s'"
    and push: "P s \<Longrightarrow> P (push_effect e s) \<and> R s (push_effect e s)"
    and bodies_allowed: "allowed cmd \<Longrightarrow> list_all allowed (bodies cmd)"
    and script_allowed: "list_all allowed (fst (script c arg s))"
    and start: "P s \<Longrightarrow> P (start_update s)"
    and finish: "(\<And>s b s'. flushes \<Longrightarrow> P s \<Longrightarrow> rec Flush s = Some (b, s') \<Longrightarrow> P s' \<and> R s s') \<Longrightarrow>
      P s \<Longrightarrow> P t \<Longrightarrow> R (start_update s) t \<Longrightarrow> finish_update rec t = Some u \<Longrightarrow> P u \<and> R s u"
begin

fun task_allowed :: "('c, 'e, 'v, 'g) task \<Rightarrow> bool" where
  "task_allowed (Body cs) = list_all allowed cs"
| "task_allowed (Call _ _) = True"
| "task_allowed Flush = flushes"

definition keeps :: "('c, 'e, 'v, 'g) runner \<Rightarrow> bool" where
  "keeps rec \<longleftrightarrow> (\<forall>t s b s'. task_allowed t \<longrightarrow> P s \<longrightarrow> rec t s = Some (b, s') \<longrightarrow> P s' \<and> R s s')"

lemma keepsD: "keeps rec \<Longrightarrow> task_allowed t \<Longrightarrow> P s \<Longrightarrow> rec t s = Some (b, s') \<Longrightarrow> P s' \<and> R s s'"
  unfolding keeps_def by blast

definition op_keeps :: "(('c, 'e, 'v, 'g) app \<Rightarrow> ('c, 'e, 'v, 'g) app option) \<Rightarrow> bool" where
  "op_keeps f \<longleftrightarrow> (\<forall>s s'. P s \<longrightarrow> f s = Some s' \<longrightarrow> P s' \<and> R s s')"

lemma op_keepsI: "(\<And>s s'. P s \<Longrightarrow> f s = Some s' \<Longrightarrow> P s' \<and> R s s') \<Longrightarrow> op_keeps f"
  by (simp add: op_keeps_def)

lemma op_keepsD: "op_keeps f \<Longrightarrow> P s \<Longrightarrow> f s = Some s' \<Longrightarrow> P s' \<and> R s s'"
  by (simp add: op_keeps_def)

lemma same_Some: "(\<And>s s'. f s = Some s' \<Longrightarrow> same_cycle s s') \<Longrightarrow> op_keeps f"
  using same by (simp add: op_keeps_def)

lemma op_keeps_bind:
  assumes fg: "op_keeps f" "op_keeps g"
  shows "op_keeps (\<lambda>s. Option.bind (f s) g)"
proof (rule op_keepsI)
  fix s s' assume s: "P s" "Option.bind (f s) g = Some s'"
  then obtain t where t: "f s = Some t" "g t = Some s'" by (auto simp: bind_eq_Some_conv)
  then show "P s' \<and> R s s'" using op_keepsD [OF fg(1) s(1) t(1)] op_keepsD [OF fg(2) _ t(2)] R_trans by blast
qed

lemma on_entities_keeps: "op_keeps (on_entities f)"
  by (rule same_Some) (auto simp: on_entities_def same_cycle_def)

lemma body_keeps: "keeps rec \<Longrightarrow> list_all allowed body \<Longrightarrow> op_keeps (do_body rec body)"
  using keepsD [of rec "Body body"] by (auto simp: op_keeps_def do_body_def)

lemma call_keeps: "keeps rec \<Longrightarrow> P s \<Longrightarrow> rec (Call c arg) s = Some (b, s') \<Longrightarrow> P s' \<and> R s s'"
  using keepsD [of rec "Call c arg"] by simp

lemma update_keeps:
  assumes rec: "keeps rec" and f: "\<And>s r s'. P s \<Longrightarrow> f s = Some (r, s') \<Longrightarrow> P s' \<and> R s s'"
    and s: "P s" "app_update rec f s = Some (r, s')"
  shows "P s' \<and> R s s'"
proof -
  obtain t where t: "f (start_update s) = Some (r, t)" "finish_update rec t = Some s'"
    using s(2) by (auto simp: app_update_def bind_eq_Some_conv)
  have "P t \<and> R (start_update s) t" using f [OF start [OF s(1)] t(1)] .
  then show ?thesis using finish [OF _ s(1) _ _ t(2)] keepsD [OF rec, of Flush] by auto
qed

lemma lease_keeps:
  assumes f: "\<And>s r s'. P s \<Longrightarrow> f s = Some (r, s') \<Longrightarrow> P s' \<and> R s s'" and s: "P s" "with_lease i f s = Some (r, s')"
  shows "P s' \<and> R s s'"
proof -
  obtain v m t where t: "f (s\<lparr>app_entities := m\<rparr>) = Some (r, t)" "s' = t\<lparr>app_entities := em_end_lease i v (app_entities t)\<rparr>"
    using s(2) by (auto simp: with_lease_def bind_eq_Some_conv)
  have a: "P (s\<lparr>app_entities := m\<rparr>) \<and> R s (s\<lparr>app_entities := m\<rparr>)" using same [OF s(1)] by (simp add: same_cycle_def)
  then have b: "P t \<and> R s t" using f [OF _ t(1)] R_trans by blast
  then have "P s' \<and> R t s'" using same [of t s'] t(2) by (simp add: same_cycle_def)
  then show ?thesis using b R_trans by blast
qed

lemma retain_keeps:
  assumes f: "\<And>c s c' k s'. P s \<Longrightarrow> f c s = Some (c', k, s') \<Longrightarrow> P s' \<and> R s s'"
    and put: "\<And>x s. same_cycle s (put x s)"
  shows "op_keeps (subscriber_retain get put k f)"
proof (rule op_keepsI)
  fix s s' assume s: "P s" "subscriber_retain get put k f s = Some s'"
  show "P s' \<and> R s s'"
  proof (rule retain_inv [where J = "\<lambda>t. P t \<and> R s t", OF _ _ _ s(2)])
    show "P s \<and> R s s" using s(1) R_refl by blast
    show "P t' \<and> R s t'" if "P t \<and> R s t" "f c t = Some (c', k', t')" for c t c' k' t'
      using f [OF _ that(2)] that(1) R_trans by blast
    show "P (put x t) \<and> R s (put x t)" if "P t \<and> R s t" for x t
      using same [OF _ put] that R_trans by blast
  qed
qed

lemma retain_kept:
  assumes s: "P s \<and> R s0 s" "subscriber_retain get put k f s = Some s'"
    and f: "\<And>c s c' k s'. P s \<Longrightarrow> f c s = Some (c', k, s') \<Longrightarrow> P s' \<and> R s s'"
    and put: "\<And>x s. same_cycle s (put x s)"
  shows "P s' \<and> R s0 s'"
proof -
  have "op_keeps (subscriber_retain get put k f)"
    by (rule retain_keeps) (auto dest: f intro: put)
  from op_keepsD [OF this _ s(2)] have "P s' \<and> R s s'" using s(1) by blast
  then show ?thesis using s(1) R_trans by blast
qed

lemma push_keeps: "op_keeps (\<lambda>s. Some (push_effect e s))"
  using push by (simp add: op_keeps_def)

text \<open>A state that a run has come to from another one.\<close>

definition kept :: "('c, 'e, 'v, 'g) app \<Rightarrow> ('c, 'e, 'v, 'g) app \<Rightarrow> bool" where
  "kept s0 s \<longleftrightarrow> P s \<and> R s0 s"

lemma kept_refl: "P s \<Longrightarrow> kept s s"
  using R_refl by (simp add: kept_def)

lemma kept_step: "kept s0 s \<Longrightarrow> (P s \<Longrightarrow> P s' \<and> R s s') \<Longrightarrow> kept s0 s'"
  using R_trans unfolding kept_def by blast

lemma kept_op: "kept s0 s \<Longrightarrow> f s = Some s' \<Longrightarrow> op_keeps f \<Longrightarrow> kept s0 s'"
  by (rule kept_step) (auto dest: op_keepsD)

lemma kept_same: "kept s0 s \<Longrightarrow> same_cycle s s' \<Longrightarrow> kept s0 s'"
  by (rule kept_step) (auto dest: same)

lemma kept_call: "kept s0 s \<Longrightarrow> rec (Call c arg) s = Some (b, s') \<Longrightarrow> keeps rec \<Longrightarrow> kept s0 s'"
  by (rule kept_step) (auto dest: call_keeps)

lemma kept_push: "kept s0 s \<Longrightarrow> kept s0 (push_effect e s)"
  by (rule kept_step) (auto dest: push)

lemma kept_entities: "kept s0 s \<Longrightarrow> on_entities f s = Some s' \<Longrightarrow> kept s0 s'"
  using kept_op [of s0 s "on_entities f" s'] on_entities_keeps by blast

lemma kept_opI: "(\<And>s s'. P s \<Longrightarrow> kept s s \<Longrightarrow> f s = Some s' \<Longrightarrow> kept s s') \<Longrightarrow> op_keeps f"
  using R_refl by (simp add: op_keeps_def kept_def)

lemma notify_kept: "kept s0 s \<Longrightarrow> kept s0 (app_notify i s)"
proof -
  have inv: "kept s0 (invalidate_view i w s)" if "kept s0 s" for w s
  proof -
    have "kept s0 (s\<lparr>invalidators := x\<rparr>)" for x
      by (rule kept_same [OF that]) (simp add: same_cycle_def)
    then show ?thesis by (auto simp: invalidate_view_def Let_def intro: kept_push)
  qed
  have "kept s0 s \<Longrightarrow> kept s0 (fold (invalidate_view i) ws s)" for ws
    by (induction ws arbitrary: s) (auto intro: inv)
  then show "kept s0 s \<Longrightarrow> kept s0 (app_notify i s)" by (simp add: app_notify_def Let_def kept_push)
qed

lemma trail_kept:
  assumes rec: "keeps rec" and s: "kept s0 s" "window_trail os rec i w s = Some (b, s')"
  shows "kept s0 s'"
proof -
  let ?out = "s\<lparr>window_update_stack := butlast (window_update_stack s)\<rparr>"
  show ?thesis
  proof (cases "win_removed w")
    case True
    let ?gone = "?out\<lparr>window_handles := window_handles s - {i}, windows := filter (\<lambda>(j, _). j \<noteq> i) (windows s)\<rparr>"
    obtain t where t: "subscriber_retain window_closed_observers (\<lambda>x s. s\<lparr>window_closed_observers := x\<rparr>) ()
        (\<lambda>c s. do { (_, s) \<leftarrow> rec (Call c NoArgument) s; Some (c, True, s) }) ?gone = Some t"
      "on_entities (handle_drop (win_root w)) (if quit_on_empty os (quit_mode t) \<and> windows t = [] then request_quit t else t) = Some s'"
      using s(2) True by (auto simp: window_trail_def Let_def bind_eq_Some_conv)
    have "kept s0 ?gone" by (rule kept_same [OF s(1)]) (simp add: same_cycle_def)
    then have "kept s0 t" unfolding kept_def
      by (rule retain_kept [OF _ t(1)]) (auto simp: same_cycle_def bind_eq_Some_conv dest: call_keeps [OF rec])
    then have "kept s0 (if quit_on_empty os (quit_mode t) \<and> windows t = [] then request_quit t else t)"
      by (rule kept_same) (simp add: same_cycle_def request_quit_def)
    then show ?thesis by (rule kept_entities [OF _ t(2)])
  next
    case False
    have out: "kept s0 ?out" by (rule kept_same [OF s(1)]) (simp add: same_cycle_def)
    show ?thesis
    proof (cases "set_window i (Some w) (windows s)")
      case None
      then have "on_entities (handle_drop (win_root w)) ?out = Some s'"
        using s(2) False by (auto simp: window_trail_def Let_def bind_eq_Some_conv)
      then show ?thesis by (rule kept_entities [OF out])
    next
      case (Some ws)
      then have "s' = ?out\<lparr>windows := ws\<rparr>" using s(2) False by (auto simp: window_trail_def Let_def)
      then show ?thesis by (auto intro: kept_same [OF out] simp: same_cycle_def)
    qed
  qed
qed

lemma update_window_keeps:
  assumes rec: "keeps rec" and f: "op_keeps f" and s: "P s" "update_window_id os rec i f s = Some (b, s')"
  shows "P s' \<and> R s s'"
  using _ s(1) s(2) [unfolded update_window_id_def]
proof (rule update_keeps [OF rec])
  fix s b s'
  assume s: "P s" and run: "(case map_of (windows s) i of
       Some (Some w) \<Rightarrow> do {
         ws \<leftarrow> set_window i None (windows s);
         s \<leftarrow> on_entities (handle_clone (win_root w)) (s\<lparr>windows := ws\<rparr>);
         s \<leftarrow> f (s\<lparr>window_update_stack := window_update_stack s @ [i], held_windows := w # held_windows s\<rparr>);
         s \<leftarrow> on_entities (handle_drop (win_root w)) s;
         (case held_windows s of
            [] \<Rightarrow> None
          | w # rest \<Rightarrow> window_trail os rec i w (s\<lparr>held_windows := rest\<rparr>)) }
     | _ \<Rightarrow> Some (False, s)) = Some (b, s')"
  show "P s' \<and> R s s'"
  proof (cases "\<exists>w. map_of (windows s) i = Some (Some w)")
    case True
    then obtain w where w: "map_of (windows s) i = Some (Some w)" by blast
    then obtain ws t u v where t: "on_entities (handle_clone (win_root w)) (s\<lparr>windows := ws\<rparr>) = Some t"
      "f (t\<lparr>window_update_stack := window_update_stack t @ [i], held_windows := w # held_windows t\<rparr>) = Some u"
      "on_entities (handle_drop (win_root w)) u = Some v"
      "(case held_windows v of [] \<Rightarrow> None | w # rest \<Rightarrow> window_trail os rec i w (v\<lparr>held_windows := rest\<rparr>)) = Some (b, s')"
      using run by (auto simp: bind_eq_Some_conv)
    then obtain w' rest where t5: "window_trail os rec i w' (v\<lparr>held_windows := rest\<rparr>) = Some (b, s')"
      by (cases "held_windows v") auto
    have "kept s (s\<lparr>windows := ws\<rparr>)" by (rule kept_same [OF kept_refl [OF s]]) (simp add: same_cycle_def)
    then have "kept s t" by (rule kept_entities [OF _ t(1)])
    then have "kept s (t\<lparr>window_update_stack := window_update_stack t @ [i], held_windows := w # held_windows t\<rparr>)"
      by (rule kept_same) (simp add: same_cycle_def)
    then have "kept s u" by (rule kept_op [where f = f, OF _ t(2) f])
    then have "kept s v" by (rule kept_entities [OF _ t(3)])
    then have "kept s (v\<lparr>held_windows := rest\<rparr>)" by (rule kept_same) (simp add: same_cycle_def)
    then show ?thesis using trail_kept [OF rec _ t5, of s] by (simp add: kept_def)
  next
    case False
    then have "s' = s" using run by (auto split: option.splits)
    then show ?thesis using s R_refl by simp
  qed
qed

lemma kept_window: "kept s0 s \<Longrightarrow> update_window_id os rec i f s = Some (b, s') \<Longrightarrow> keeps rec \<Longrightarrow> op_keeps f \<Longrightarrow> kept s0 s'"
  by (rule kept_step) (auto dest: update_window_keeps)

lemma new_entity_keeps:
  assumes rec: "keeps rec" and body: "list_all allowed body" and s: "P s" "new_entity alloc rec ty v body s = Some (r, s')"
  shows "P s' \<and> R s s'"
  using _ s(1) s(2) [unfolded new_entity_def]
proof (rule update_keeps [OF rec])
  fix s r s'
  assume s: "P s" and run: "do {
     let (i, m) = em_reserve alloc (app_entities s);
     s \<leftarrow> on_entities (handle_clone i) (s\<lparr>app_entities := m\<rparr>);
     s \<leftarrow> do_body rec body s;
     s \<leftarrow> on_entities (handle_clone i) s;
     let s = push_effect (EntityCreated i ty (last_opt (window_update_stack s))) s;
     s \<leftarrow> on_entities (\<lambda>m. handle_drop i (em_insert i v m)) s;
     Some (i, s) } = Some (r, s')"
  obtain i m where i: "em_reserve alloc (app_entities s) = (i, m)" by (cases "em_reserve alloc (app_entities s)")
  obtain t u w where t: "on_entities (handle_clone i) (s\<lparr>app_entities := m\<rparr>) = Some t" "do_body rec body t = Some u"
    "on_entities (handle_clone i) u = Some w"
    "on_entities (\<lambda>m. handle_drop i (em_insert i v m)) (push_effect (EntityCreated i ty (last_opt (window_update_stack w))) w) = Some s'"
    using run i by (auto simp: bind_eq_Some_conv Let_def)
  have "kept s (s\<lparr>app_entities := m\<rparr>)" by (rule kept_same [OF kept_refl [OF s]]) (simp add: same_cycle_def)
  then have "kept s t" by (rule kept_entities [OF _ t(1)])
  then have "kept s u" by (rule kept_op [where f = "do_body rec body", OF _ t(2) body_keeps [OF rec body]])
  then have "kept s w" by (rule kept_entities [OF _ t(3)])
  then have "kept s s'" by (rule kept_entities [OF kept_push t(4)])
  then show "P s' \<and> R s s'" by (simp add: kept_def)
qed

lemma kept_body: "kept s0 s \<Longrightarrow> do_body rec body s = Some s' \<Longrightarrow> keeps rec \<Longrightarrow> list_all allowed body \<Longrightarrow> kept s0 s'"
  using kept_op [where f = "do_body rec body"] body_keeps by blast

lemma closure_keeps:
  "keeps rec \<Longrightarrow> list_all allowed body \<Longrightarrow> P s \<Longrightarrow> map_option (Pair ()) (do_body rec body s) = Some (r, s') \<Longrightarrow> P s' \<and> R s s'"
  by (auto dest: op_keepsD [OF body_keeps])

lemma update_body_keeps:
  assumes "keeps rec" "list_all allowed body" "P s" "app_update rec (\<lambda>s. map_option (Pair ()) (do_body rec body s)) s = Some (r, s')"
  shows "P s' \<and> R s s'"
  using _ assms(3,4) by (rule update_keeps [OF assms(1)]) (rule closure_keeps [OF assms(1,2)])

lemma update_entity_keeps:
  assumes rec: "keeps rec" and f: "\<And>s r s'. P s \<Longrightarrow> f s = Some (r, s') \<Longrightarrow> P s' \<and> R s s'"
    and s: "P s" "update_entity rec i f s = Some (r, s')"
  shows "P s' \<and> R s s'"
  using _ s(1) s(2) [unfolded update_entity_def] by (rule update_keeps [OF rec]) (rule lease_keeps [OF f])

lemma update_entity_body_keeps:
  assumes "keeps rec" "list_all allowed body" "P s"
    "update_entity rec i (\<lambda>s. map_option (Pair ()) (do_body rec body s)) s = Some (r, s')"
  shows "P s' \<and> R s s'"
  using _ assms(3,4) by (rule update_entity_keeps [OF assms(1)]) (rule closure_keeps [OF assms(1,2)])

lemma insert_entity_keeps:
  assumes rec: "keeps rec" and body: "list_all allowed body" and s: "P s" "insert_entity rec i v body s = Some (r, s')"
  shows "P s' \<and> R s s'"
  using _ s(1) s(2) [unfolded insert_entity_def]
proof (rule update_keeps [OF rec])
  fix s r s'
  assume s: "P s" and run: "do {
     s \<leftarrow> do_body rec body s;
     s \<leftarrow> on_entities (\<lambda>m. Some (em_insert i v m)) s;
     Some ((), s) } = Some (r, s')"
  then show "P s' \<and> R s s'"
    using kept_entities [OF kept_body [OF kept_refl [OF s] _ rec body]] by (auto simp: bind_eq_Some_conv kept_def)
qed

lemma borrow_entity_keeps:
  assumes rec: "keeps rec" and body: "list_all allowed body" and s: "P s" "borrow_entity rec i body s = Some (r, s')"
  shows "P s' \<and> R s s'"
  using _ s(1) s(2) [unfolded borrow_entity_def]
proof (rule update_keeps [OF rec])
  fix s r s'
  assume "P s" "with_lease i (\<lambda>s. do { s \<leftarrow> do_body rec body s; Some ((), app_notify i s) }) s = Some (r, s')"
  then show "P s' \<and> R s s'"
  proof (rule lease_keeps [rotated])
    fix s r s'
    assume "P s" "do { s \<leftarrow> do_body rec body s; Some ((), app_notify i s) } = Some (r, s')"
    then show "P s' \<and> R s s'"
      using notify_kept [OF kept_body [OF kept_refl _ rec body]] by (auto simp: bind_eq_Some_conv kept_def)
  qed
qed

lemma subscriber_ops_kept:
  "kept s0 s \<Longrightarrow> kept s0 (new_observer i c s)" "kept s0 s \<Longrightarrow> kept s0 (new_subscription i ty c s)"
  "kept s0 s \<Longrightarrow> kept s0 (observe_global ty c s)" "kept s0 s \<Longrightarrow> kept s0 (new_entity_observer ty c s)"
  "kept s0 s \<Longrightarrow> kept s0 (observe_release i c s)" "kept s0 s \<Longrightarrow> kept s0 (on_window_closed c s)"
  "kept s0 s \<Longrightarrow> kept s0 (on_app_quit c s)" "kept s0 s \<Longrightarrow> kept s0 (s\<lparr>observers := x\<rparr>)"
  "kept s0 s \<Longrightarrow> kept s0 (s\<lparr>event_listeners := y\<rparr>)" "kept s0 s \<Longrightarrow> kept s0 (s\<lparr>global_observers := z\<rparr>)"
  unfolding new_observer_def new_subscription_def observe_global_def new_entity_observer_def observe_release_def
    on_window_closed_def on_app_quit_def app_defer_def
  by (auto intro!: kept_push intro: kept_same simp: same_cycle_def)

lemma global_ops_kept:
  assumes "kept s0 s"
  shows "kept s0 (set_global t g s)" "global_mut t s = Some s' \<Longrightarrow> kept s0 s'" "kept s0 (default_global t g s)"
    "remove_global t s = Some (g', s') \<Longrightarrow> kept s0 s'" "lease_global t s = Some (g', s') \<Longrightarrow> kept s0 s'"
    "kept s0 (end_global_lease t g s)"
proof -
  have p: "kept s0 (push_effect (NotifyGlobalObservers t) s)" using kept_push [OF assms] .
  have q: "kept s0 ((push_effect (NotifyGlobalObservers t) s)\<lparr>globals_by_type := x\<rparr>)" for x
    by (rule kept_same [OF p]) (simp add: same_cycle_def)
  have r: "kept s0 (s\<lparr>globals_by_type := x\<rparr>)" for x by (rule kept_same [OF assms]) (simp add: same_cycle_def)
  show "kept s0 (set_global t g s)" "global_mut t s = Some s' \<Longrightarrow> kept s0 s'" "kept s0 (default_global t g s)"
    "remove_global t s = Some (g', s') \<Longrightarrow> kept s0 s'" "lease_global t s = Some (g', s') \<Longrightarrow> kept s0 s'"
    "kept s0 (end_global_lease t g s)"
    using p q r by (auto simp: set_global_def global_mut_def default_global_def remove_global_def lease_global_def
        end_global_lease_def Let_def split: if_splits)
qed

lemma command_keeps:
  assumes rec: "keeps rec" and c: "allowed c" "c \<noteq> DoShutdown" and run: "kept s0 s" "run_command alloc os rec c s = Some s'"
  shows "kept s0 s'"
proof (cases c)
  case (DoUpdateGlobal t g body)
  then have b: "list_all allowed body" using bodies_allowed [OF c(1)] by simp
  obtain g' t' u where "lease_global t s = Some (g', t')" "do_body rec body t' = Some u" "s' = end_global_lease t g u"
    using run(2) DoUpdateGlobal by (auto simp: run_command_def update_global_def bind_eq_Some_conv)
  then show ?thesis using global_ops_kept(6) [OF kept_body [OF global_ops_kept(5) [OF run(1)] _ rec b]] by blast
next
  case (DoUpdate body)
  then have "list_all allowed body" using bodies_allowed [OF c(1)] by simp
  then show ?thesis
    using run DoUpdate kept_step [OF run(1) update_body_keeps [OF rec]] by (auto simp: run_command_def)
next
  case (DoNew ty v body)
  then have "list_all allowed body" using bodies_allowed [OF c(1)] by simp
  then show ?thesis using run DoNew kept_step [OF run(1) new_entity_keeps [OF rec]] by (auto simp: run_command_def)
next
  case (DoInsertEntity i v body)
  then have "list_all allowed body" using bodies_allowed [OF c(1)] by simp
  then show ?thesis using run DoInsertEntity kept_step [OF run(1) insert_entity_keeps [OF rec]] by (auto simp: run_command_def)
next
  case (DoBorrow i body)
  then have "list_all allowed body" using bodies_allowed [OF c(1)] by simp
  then show ?thesis using run DoBorrow kept_step [OF run(1) borrow_entity_keeps [OF rec]] by (auto simp: run_command_def)
next
  case (DoUpdateEntity i body)
  then have "list_all allowed body" using bodies_allowed [OF c(1)] by simp
  then show ?thesis
    using run DoUpdateEntity kept_step [OF run(1) update_entity_body_keeps [OF rec]]
    by (auto simp: run_command_def)
next
  case (DoUpdateWindow i body)
  then have "list_all allowed body" using bodies_allowed [OF c(1)] by simp
  then show ?thesis
    using run DoUpdateWindow kept_window [OF run(1) _ rec body_keeps [OF rec]] by (auto simp: run_command_def)
next
  case (DoCall c')
  then show ?thesis using run kept_call [OF run(1) _ rec] by (auto simp: run_command_def)
next
  case DoRemoveWindow
  then show ?thesis using run
    by (auto simp: run_command_def on_held_window_def same_cycle_def split: list.splits intro: kept_same)
qed (use run c in \<open>auto simp: run_command_def plain_effects app_defer_def drop_focus_handle_def same_cycle_def
    intro: notify_kept kept_push kept_same subscriber_ops_kept global_ops_kept kept_entities\<close>)

lemma call_all_kept:
  assumes "keeps rec"
  shows "kept s0 s \<Longrightarrow> call_all (\<lambda>s c. map_option snd (rec (Call c (arg c)) s)) cs s = Some s' \<Longrightarrow> kept s0 s'"
proof (induction cs arbitrary: s)
  case (Cons c cs)
  then obtain t b where "rec (Call c (arg c)) s = Some (b, t)"
    "call_all (\<lambda>s c. map_option snd (rec (Call c (arg c)) s)) cs t = Some s'" by (auto simp: bind_eq_Some_conv)
  then show ?case using Cons.IH kept_call [OF Cons.prems(1) _ assms] by blast
qed simp

lemma release_entities_kept:
  assumes rec: "keeps rec"
  shows "kept s0 s \<Longrightarrow> release_entities rec dropped s = Some s' \<Longrightarrow> kept s0 s'"
proof (induction dropped arbitrary: s)
  case (Cons x dropped)
  obtain i v where x: "x = (i, v)" by (cases x)
  obtain cs ls where ls: "subscriber_remove i (release_listeners s) = (cs, ls)"
    by (cases "subscriber_remove i (release_listeners s)")
  let ?s = "s\<lparr>observers := snd (subscriber_remove i (observers s)),
    event_listeners := snd (subscriber_remove i (event_listeners s)), release_listeners := ls\<rparr>"
  obtain t where t: "call_all (\<lambda>s c. map_option snd (rec (Call c (Released i v)) s)) cs ?s = Some t"
    "release_entities rec dropped t = Some s'"
    using Cons.prems(2) x ls by (auto simp: bind_eq_Some_conv Let_def)
  have "kept s0 ?s" by (rule kept_same [OF Cons.prems(1)]) (simp add: same_cycle_def)
  then show ?case using Cons.IH [OF call_all_kept [OF rec _ t(1)] t(2)] by blast
qed simp

lemma blur_windows_kept:
  assumes rec: "keeps rec"
  shows "kept s0 s \<Longrightarrow> blur_windows os rec h is s = Some s' \<Longrightarrow> kept s0 s'"
proof (induction "is" arbitrary: s)
  case (Cons i "is")
  let ?f = "\<lambda>s. Some (case held_windows s of w # _ \<Rightarrow> if win_focus w = Some h then blur_held i s else s | [] \<Rightarrow> s)"
  obtain t where t: "update_window_id os rec i ?f s = Some (True, t)" "blur_windows os rec h is t = Some s'"
    using Cons.prems(2) by (auto simp: bind_eq_Some_conv split: if_split_asm)
  have "op_keeps ?f"
    by (rule same_Some) (auto simp: blur_held_def same_cycle_def Let_def split: list.splits)
  then show ?case using Cons.IH [OF kept_window [OF Cons.prems(1) t(1) rec] t(2)] by blast
qed simp

lemma focus_handles_kept:
  assumes rec: "keeps rec"
  shows "kept s0 s \<Longrightarrow> release_focus_handles os rec hs s = Some (hs', s') \<Longrightarrow> kept s0 s'"
proof (induction hs arbitrary: s hs')
  case (Cons x hs)
  obtain h n where x: "x = (h, n)" by (cases x)
  show ?case
  proof (cases "n = 0")
    case True
    then obtain t where "blur_windows os rec h (windows_of s) s = Some t" "release_focus_handles os rec hs t = Some (hs', s')"
      using Cons.prems(2) x by (auto simp: bind_eq_Some_conv)
    then show ?thesis using Cons.IH blur_windows_kept [OF rec Cons.prems(1)] by blast
  next
    case False
    then show ?thesis using Cons x by (auto simp: bind_eq_Some_conv)
  qed
qed simp

lemma dropped_focus_kept:
  assumes rec: "keeps rec" and s: "kept s0 s" "release_dropped_focus_handles os rec s = Some s'"
  shows "kept s0 s'"
proof -
  obtain hs t where t: "release_focus_handles os rec (focus_handles s) s = Some (hs, t)" "s' = t\<lparr>focus_handles := hs\<rparr>"
    using s(2) by (auto simp: release_dropped_focus_handles_def bind_eq_Some_conv)
  have "kept s0 t" using focus_handles_kept [OF rec s(1) t(1)] .
  then show ?thesis by (rule kept_same) (simp add: same_cycle_def t(2))
qed

lemma upgrade_keeps:
  assumes rec: "keeps rec" and s: "P s" "with_upgrade rec i c arg s = Some (b, s')"
  shows "P s' \<and> R s s'"
proof -
  obtain handle m where m: "weak_upgrade i (app_entities s) = (handle, m)" by (cases "weak_upgrade i (app_entities s)")
  show ?thesis
  proof (cases handle)
    case None
    then show ?thesis using s m R_refl by (simp add: with_upgrade_def)
  next
    case (Some x)
    then obtain t where t: "rec (Call c arg) (s\<lparr>app_entities := m\<rparr>) = Some (b, t)" "on_entities (handle_drop i) t = Some s'"
      using s(2) m by (auto simp: with_upgrade_def bind_eq_Some_conv)
    have "kept s (s\<lparr>app_entities := m\<rparr>)" by (rule kept_same [OF kept_refl [OF s(1)]]) (simp add: same_cycle_def)
    then have "kept s s'" by (rule kept_entities [OF kept_call [OF _ t(1) rec] t(2)])
    then show ?thesis by (simp add: kept_def)
  qed
qed

text \<open>The effects, once their own mark is taken back.\<close>

lemma notify_effect_kept:
  assumes rec: "keeps rec" and s: "kept s0 (s\<lparr>pending_notifications := pending_notifications s - {i}\<rparr>)"
    "apply_notify_effect rec i s = Some s'"
  shows "kept s0 s'"
  unfolding kept_def
  by (rule retain_kept [OF s(1) [unfolded kept_def] s(2) [unfolded apply_notify_effect_def]])
    (auto simp: bind_eq_Some_conv same_cycle_def dest: upgrade_keeps [OF rec])

lemma global_effect_kept:
  assumes rec: "keeps rec" and s: "kept s0 (s\<lparr>pending_global_notifications := pending_global_notifications s - {i}\<rparr>)"
    "apply_notify_global_observers_effect rec i s = Some s'"
  shows "kept s0 s'"
  unfolding kept_def
  by (rule retain_kept [OF s(1) [unfolded kept_def] s(2) [unfolded apply_notify_global_observers_effect_def]])
    (auto simp: bind_eq_Some_conv same_cycle_def dest: call_keeps [OF rec])

lemma emit_effect_kept:
  assumes rec: "keeps rec" and s: "kept s0 s" "apply_emit_effect rec i ty gen e s = Some s'"
  shows "kept s0 s'"
proof -
  have run: "subscriber_retain event_listeners (\<lambda>x s. s\<lparr>event_listeners := x\<rparr>) i
        (\<lambda>(stored, c) s.
           if stored = ty then
             (if gen \<noteq> arena_generation s then None
              else do { (keep, s) \<leftarrow> with_upgrade rec i c (ForEvent i e) s; Some ((stored, c), keep, s) })
           else Some ((stored, c), True, s)) s = Some s'"
    using s(2) by (simp add: apply_emit_effect_def split: if_split_asm)
  show ?thesis
    unfolding kept_def
    by (rule retain_kept [OF s(1) [unfolded kept_def] run])
      (auto simp: bind_eq_Some_conv same_cycle_def R_refl split: if_split_asm dest: upgrade_keeps [OF rec])
qed

lemma new_observer_keeps:
  assumes rec: "keeps rec"
  shows "op_keeps (call_new_observer rec i w c)"
proof (rule kept_opI)
  fix s s' assume s: "kept s s" "call_new_observer rec i w c s = Some s'"
  obtain t u b where t: "on_entities (handle_clone i) s = Some t"
    "update_entity rec i (rec (Call c (NewEntity i w))) t = Some (b, u)" "on_entities (handle_drop i) u = Some s'"
    using s(2) by (auto simp: call_new_observer_def bind_eq_Some_conv)
  have "kept s t" by (rule kept_entities [OF s(1) t(1)])
  moreover have "P u \<and> R t u" if "P t"
    by (rule update_entity_keeps [OF rec _ that t(2)]) (rule call_keeps [OF rec])
  ultimately have "kept s u" by (rule kept_step)
  then show "kept s s'" by (rule kept_entities [OF _ t(3)])
qed

lemma created_effect_kept:
  assumes rec: "keeps rec" and s: "kept s0 s" "apply_entity_created_effect os rec i ty w s = Some s'"
  shows "kept s0 s'"
proof -
  let ?f = "\<lambda>c s. do {
          s \<leftarrow> (case w of
                  Some j \<Rightarrow> do {
                    (found, s) \<leftarrow> update_window_id os rec j (call_new_observer rec i w c) s;
                    if found then Some s else None }
                | None \<Rightarrow> call_new_observer rec i None c s);
          Some (c, True, s) }"
  obtain t where t: "subscriber_retain new_entity_observers (\<lambda>x s. s\<lparr>new_entity_observers := x\<rparr>) ty ?f s = Some t"
    "on_entities (handle_drop i) t = Some s'"
    using s(2) by (auto simp: apply_entity_created_effect_def bind_eq_Some_conv)
  have f: "P s' \<and> R s s'" if "P s" "?f c s = Some (c', k, s')" for c s c' k s'
  proof (cases w)
    case None
    then have "call_new_observer rec i None c s = Some s'" using that(2) by (auto simp: bind_eq_Some_conv)
    then show ?thesis using op_keepsD [OF new_observer_keeps [OF rec] that(1)] by blast
  next
    case (Some j)
    then have "update_window_id os rec j (call_new_observer rec i w c) s = Some (True, s')"
      using that(2) by (auto simp: bind_eq_Some_conv split: if_split_asm)
    then show ?thesis by (rule update_window_keeps [OF rec new_observer_keeps [OF rec] that(1)])
  qed
  have "kept s0 t" unfolding kept_def
    by (rule retain_kept [OF s(1) [unfolded kept_def] t(1)]) (use f in \<open>auto simp: same_cycle_def\<close>)
  then show ?thesis by (rule kept_entities [OF _ t(2)])
qed

lemma defer_effect_kept:
  assumes rec: "keeps rec" and s: "kept s0 s" "apply_defer_effect rec d s = Some s'"
  shows "kept s0 s'"
  using s by (cases d) (auto simp: apply_defer_effect_def same_cycle_def dest: kept_call [OF _ _ rec] intro: kept_same)

lemma refresh_effect_kept: "kept s0 s \<Longrightarrow> kept s0 (apply_refresh_effect s)"
  by (rule kept_same) (simp_all add: same_cycle_def apply_refresh_effect_def)

lemma shutdown_kept:
  assumes rec: "keeps rec" "flushes" and s: "kept s0 s" "shutdown rec s = Some s'"
  shows "kept s0 s'"
proof -
  obtain cs qs where qs: "subscriber_remove () (quit_observers s) = (cs, qs)" by (cases "subscriber_remove () (quit_observers s)")
  obtain t u v b where t: "call_all (\<lambda>s c. map_option snd (rec (Call c NoArgument) s)) cs (s\<lparr>quit_observers := qs\<rparr>) = Some t"
    "drop_handles (List.map_filter (\<lambda>(_, w). map_option win_root w) (windows t)) (t\<lparr>windows := [], window_handles := {}\<rparr>) = Some u"
    "rec Flush u = Some (b, v)" "s' = v\<lparr>quitting := False\<rparr>"
    using s(2) qs by (auto simp: shutdown_def bind_eq_Some_conv Let_def)
  have drops: "kept s0 x \<Longrightarrow> drop_handles is x = Some y \<Longrightarrow> kept s0 y" for "is" x y
    by (induction "is" arbitrary: x) (auto simp: bind_eq_Some_conv dest: kept_entities)
  have "kept s0 (s\<lparr>quit_observers := qs\<rparr>)" by (rule kept_same [OF s(1)]) (simp add: same_cycle_def)
  then have "kept s0 t" by (rule call_all_kept [OF rec(1) _ t(1)])
  then have "kept s0 (t\<lparr>windows := [], window_handles := {}\<rparr>)" by (rule kept_same) (simp add: same_cycle_def)
  then have "kept s0 u" by (rule drops [OF _ t(2)])
  moreover have "P v \<and> R u v" if "P u"
    by (rule keepsD [OF rec(1) _ that t(3)]) (unfold task_allowed.simps, rule rec(2))
  ultimately have "kept s0 v" by (rule kept_step)
  then show ?thesis by (rule kept_same) (simp add: same_cycle_def t(4))
qed

end

text \<open>With the turns of a flush, where one may be run, the whole cycle keeps it.\<close>

locale app_cycle = app_steps +
  assumes shutdown_flushes: "allowed DoShutdown \<Longrightarrow> flushes"
    and turn: "flushes \<Longrightarrow> app_steps.keeps P R allowed flushes rec \<Longrightarrow> P s \<Longrightarrow> flush_turn os rec s = Some (b, s') \<Longrightarrow> P s' \<and> R s s'"
begin

lemma run_keeps: "keeps (run_task n alloc os script)"
proof (induction n)
  case 0
  then show ?case by (simp add: keeps_def)
next
  case (Suc n)
  note rec = Suc
  let ?rec = "run_task n alloc os script"
  have "P s' \<and> R s s'" if t: "task_allowed t" and s: "P s" and run: "run_step alloc os script ?rec t s = Some (b, s')" for t s b s'
  proof (cases t)
    case (Body cs)
    show ?thesis
    proof (cases cs)
      case Nil
      then show ?thesis using Body run s R_refl by (simp add: run_step_def)
    next
      case (Cons c cs')
      then obtain u where u: "run_command alloc os ?rec c s = Some u" "?rec (Body cs') u = Some (b, s')"
        using Body run by (auto simp: run_step_def bind_eq_Some_conv)
      have c: "allowed c" "list_all allowed cs'" using t Body Cons by simp_all
      have "kept s u"
      proof (cases "c = DoShutdown")
        case True
        then show ?thesis
          using shutdown_kept [OF rec _ kept_refl [OF s]] shutdown_flushes c(1) u(1) by (simp add: run_command_def)
      next
        case False
        then show ?thesis using command_keeps [OF rec c(1) _ kept_refl [OF s] u(1)] by blast
      qed
      moreover have "P u \<Longrightarrow> P s' \<and> R u s'" using keepsD [OF rec, of "Body cs'"] c(2) u(2) by simp
      ultimately have "kept s s'" by (rule kept_step)
      then show ?thesis by (simp add: kept_def)
    qed
  next
    case (Call c arg)
    then have "do_body ?rec (fst (script c arg s)) s = Some s'"
      using run by (auto simp: run_step_def split: prod.split_asm)
    then show ?thesis using op_keepsD [OF body_keeps [OF rec script_allowed] s] by blast
  next
    case Flush
    then show ?thesis using turn [OF _ rec s] t run by (simp add: run_step_def)
  qed
  then show ?case unfolding keeps_def by simp
qed

lemma run_kept: "task_allowed t \<Longrightarrow> P s \<Longrightarrow> run_task n alloc os script t s = Some (b, s') \<Longrightarrow> P s' \<and> R s s'"
  using keepsD [OF run_keeps] .

end

section \<open>No effect is applied while an update is running\<close>

text \<open>What an update may do to the cycle's part of the state while it is not the outermost one: push effects.\<close>

definition in_update :: "('c, 'e, 'v, 'g) app \<Rightarrow> bool" where
  "in_update s \<longleftrightarrow> 0 < pending_updates s"

definition only_pushed :: "('c, 'e, 'v, 'g) app \<Rightarrow> ('c, 'e, 'v, 'g) app \<Rightarrow> bool" where
  "only_pushed s s' \<longleftrightarrow>
     (\<exists>new. pending_effects s' = pending_effects s @ new) \<and> pending_updates s' = pending_updates s \<and>
     flushing_effects s' = flushing_effects s \<and> arena_generation s' = arena_generation s"

fun no_shutdown :: "('c, 'e, 'v, 'g) command \<Rightarrow> bool" where
  "no_shutdown DoShutdown = False"
| "no_shutdown (DoUpdateGlobal _ _ body) = list_all no_shutdown body"
| "no_shutdown (DoUpdate body) = list_all no_shutdown body"
| "no_shutdown (DoNew _ _ body) = list_all no_shutdown body"
| "no_shutdown (DoInsertEntity _ _ body) = list_all no_shutdown body"
| "no_shutdown (DoUpdateEntity _ body) = list_all no_shutdown body"
| "no_shutdown (DoBorrow _ body) = list_all no_shutdown body"
| "no_shutdown (DoUpdateWindow _ body) = list_all no_shutdown body"
| "no_shutdown _ = True"

lemma only_pushed_push: "only_pushed s (push_effect e s)"
  by (cases e) (auto simp: only_pushed_def push_effect_def)

lemma no_shutdown_bodies: "no_shutdown c \<Longrightarrow> list_all no_shutdown (bodies c)"
  by (cases c) auto

lemma update_cycle:
  assumes "\<And>c arg s. list_all no_shutdown (fst (script c arg s))"
  shows "app_cycle in_update only_pushed no_shutdown False script os"
proof unfold_locales
  show "only_pushed s s" for s :: "('a, 'b, 'c, 'd) app" by (simp add: only_pushed_def)
  show "only_pushed s u" if "only_pushed s t" "only_pushed t u" for s t u :: "('a, 'b, 'c, 'd) app"
    using that by (auto simp: only_pushed_def)
  show "in_update s' \<and> only_pushed s s'" if "in_update s" "same_cycle s s'" for s s' :: "('a, 'b, 'c, 'd) app"
    using that by (auto simp: only_pushed_def in_update_def same_cycle_def)
  show "in_update (push_effect e s) \<and> only_pushed s (push_effect e s)" if "in_update s" for e and s :: "('a, 'b, 'c, 'd) app"
    using that only_pushed_push [of s e] by (auto simp: in_update_def only_pushed_def)
  show "in_update (start_update s)" for s :: "('a, 'b, 'c, 'd) app" by (simp add: in_update_def start_update_def)
  show "in_update u \<and> only_pushed s u"
    if "in_update s" "only_pushed (start_update s) t" "finish_update rec t = Some u" for rec and s t u :: "('a, 'b, 'c, 'd) app"
  proof -
    have "pending_updates t = pending_updates s + 1" using that(2) by (simp add: only_pushed_def start_update_def)
    then have "u = t\<lparr>pending_updates := pending_updates s\<rparr>"
      using that(1,3) by (auto simp: finish_update_def in_update_def)
    then show ?thesis using that(1,2) by (auto simp: in_update_def only_pushed_def start_update_def)
  qed
qed (use assms no_shutdown_bodies in auto)

section \<open>Every notice is queued once\<close>

definition notified :: "('c, 'e) effect list \<Rightarrow> nat list" where
  "notified es = List.map_filter (\<lambda>e. case e of Notify i \<Rightarrow> Some i | _ \<Rightarrow> None) es"

definition notified_globals :: "('c, 'e) effect list \<Rightarrow> nat list" where
  "notified_globals es = List.map_filter (\<lambda>e. case e of NotifyGlobalObservers t \<Rightarrow> Some t | _ \<Rightarrow> None) es"

definition queued_once :: "('c, 'e, 'v, 'g) app \<Rightarrow> bool" where
  "queued_once s \<longleftrightarrow>
     distinct (notified (pending_effects s)) \<and> set (notified (pending_effects s)) = pending_notifications s \<and>
     distinct (notified_globals (pending_effects s)) \<and> set (notified_globals (pending_effects s)) = pending_global_notifications s"

lemma notified_simps [simp]:
  "notified [] = []" "notified_globals [] = []"
  "notified (e # es) = (case e of Notify i \<Rightarrow> i # notified es | _ \<Rightarrow> notified es)"
  "notified_globals (e # es) = (case e of NotifyGlobalObservers t \<Rightarrow> t # notified_globals es | _ \<Rightarrow> notified_globals es)"
  "notified (es @ es') = notified es @ notified es'" "notified_globals (es @ es') = notified_globals es @ notified_globals es'"
  by (simp_all add: notified_def notified_globals_def List.map_filter_def split: effect.split)

lemma queued_once_push: "queued_once s \<Longrightarrow> queued_once (push_effect e s)"
  by (cases e) (auto simp: queued_once_def push_effect_def)

lemma queued_once_same: "queued_once s \<Longrightarrow> same_cycle s s' \<Longrightarrow> queued_once s'"
  by (simp add: queued_once_def same_cycle_def)

lemma once_steps: "app_steps queued_once (\<lambda>_ _. True) (\<lambda>_. True) True script"
proof unfold_locales
  show "queued_once u \<and> True"
    if flush: "\<And>s b s'. True \<Longrightarrow> queued_once s \<Longrightarrow> rec Flush s = Some (b, s') \<Longrightarrow> queued_once s' \<and> True"
      and t: "queued_once t" "finish_update rec t = Some u" for rec and t u :: "('a, 'b, 'c, 'd) app"
  proof -
    have start: "queued_once (t\<lparr>flushing_effects := True\<rparr>)" using t(1) by (simp add: queued_once_def)
    show ?thesis
    proof (cases "\<not> flushing_effects t \<and> pending_updates t = 1")
      case True
      then obtain b v where v: "rec Flush (t\<lparr>flushing_effects := True\<rparr>) = Some (b, v)"
        "u = v\<lparr>flushing_effects := False, pending_updates := pending_updates v - 1\<rparr>"
        using t(2) by (auto simp: finish_update_def bind_eq_Some_conv)
      then show ?thesis using flush [OF _ start v(1)] by (simp add: queued_once_def)
    next
      case False
      then have "u = t\<lparr>pending_updates := pending_updates t - 1\<rparr>" using t(2) by (auto simp: finish_update_def)
      then show ?thesis using t(1) by (simp add: queued_once_def)
    qed
  qed
  show "queued_once (start_update s)" if "queued_once s" for s :: "('a, 'b, 'c, 'd) app"
    using that by (simp add: queued_once_def start_update_def)
qed (auto simp: queued_once_push list_all_iff dest: queued_once_same)

interpretation once: app_steps queued_once "\<lambda>_ _. True" "\<lambda>_. True" True script os alloc for script os alloc
  by (rule once_steps)

lemma once_turn:
  assumes rec: "once.keeps rec" and s: "queued_once s" "flush_turn os rec s = Some (b, s')"
  shows "queued_once s'"
proof -
  have flush: "queued_once y" if "queued_once x" "rec Flush x = Some (b, y)" for x y
    using once.keepsD [OF rec _ that] by simp
  obtain ds m where m: "em_take_dropped (app_entities s) = Some (ds, m)"
    using s(2) by (auto simp: flush_turn_def bind_eq_Some_conv)
  let ?s = "s\<lparr>app_entities := m\<rparr>"
  have k: "once.kept ?s ?s" using s(1) by (simp add: once.kept_def queued_once_def)
  show ?thesis
  proof (cases "ds = []")
    case False
    then obtain t where t: "release_entities rec ds ?s = Some t" "rec Flush t = Some (b, s')"
      using s(2) m by (auto simp: flush_turn_def bind_eq_Some_conv Let_def)
    have "once.kept ?s t" by (rule once.release_entities_kept [OF rec k t(1)])
    then show ?thesis using flush t(2) by (simp add: once.kept_def)
  next
    case True
    then obtain t where t: "release_dropped_focus_handles os rec ?s = Some t"
      "(case pending_effects t of
          [] \<Rightarrow> Some (True, t\<lparr>arena_generation := arena_generation t + 1\<rparr>)
        | e # es \<Rightarrow> do {
            t \<leftarrow> apply_effect os rec e (t\<lparr>pending_effects := es\<rparr>);
            rec Flush t }) = Some (b, s')"
      using s(2) m by (auto simp: flush_turn_def bind_eq_Some_conv Let_def)
    have "once.kept ?s t" by (rule once.dropped_focus_kept [OF rec k t(1)])
    then have ok: "queued_once t" by (simp add: once.kept_def)
    show ?thesis
    proof (cases "pending_effects t")
      case Nil
      then have "s' = t\<lparr>arena_generation := arena_generation t + 1\<rparr>" using t(2) by simp
      then show ?thesis using ok by (simp add: queued_once_def)
    next
      case (Cons e es)
      let ?t = "t\<lparr>pending_effects := es\<rparr>"
      obtain u where u: "apply_effect os rec e ?t = Some u" "rec Flush u = Some (b, s')"
        using t(2) Cons by (auto simp: bind_eq_Some_conv)
      have popped: "once.kept ?t ?t" if "\<forall>i. e \<noteq> Notify i \<and> e \<noteq> NotifyGlobalObservers i"
        using ok Cons that by (cases e) (auto simp: once.kept_def queued_once_def)
      have "once.kept ?t u"
      proof (cases e)
        case (Notify i)
        then have "once.kept ?t (?t\<lparr>pending_notifications := pending_notifications ?t - {i}\<rparr>)"
          using ok Cons by (auto simp: once.kept_def queued_once_def)
        then show ?thesis by (rule once.notify_effect_kept [OF rec]) (use u(1) Notify in \<open>simp add: apply_effect_def\<close>)
      next
        case (NotifyGlobalObservers i)
        then have "once.kept ?t (?t\<lparr>pending_global_notifications := pending_global_notifications ?t - {i}\<rparr>)"
          using ok Cons by (auto simp: once.kept_def queued_once_def)
        then show ?thesis
          by (rule once.global_effect_kept [OF rec]) (use u(1) NotifyGlobalObservers in \<open>simp add: apply_effect_def\<close>)
      next
        case (Emit i ty gen ev)
        then show ?thesis using once.emit_effect_kept [OF rec popped] u(1) by (simp add: apply_effect_def)
      next
        case RefreshWindows
        then show ?thesis using once.refresh_effect_kept [OF popped] u(1) by (simp add: apply_effect_def)
      next
        case (Defer d)
        then show ?thesis using once.defer_effect_kept [OF rec popped] u(1) by (simp add: apply_effect_def)
      next
        case (EntityCreated i ty w)
        then show ?thesis using once.created_effect_kept [OF rec popped] u(1) by (simp add: apply_effect_def)
      qed
      then show ?thesis using flush u(2) by (simp add: once.kept_def)
    qed
  qed
qed

lemma once_cycle: "app_cycle queued_once (\<lambda>_ _. True) (\<lambda>_. True) True script os"
  by (intro app_cycle.intro once_steps app_cycle_axioms.intro) (use once_turn in auto)

interpretation once_run: app_cycle queued_once "\<lambda>_ _. True" "\<lambda>_. True" True script os alloc for script os alloc
  by (rule once_cycle)

section \<open>What a run keeps\<close>





end
