(* ===== verification/AppSettles.thy ===== *)
theory AppSettles
  imports AppCycle "HOL-Library.Multiset"
begin

text \<open>
  The update cycle ends.  Callbacks may go on notifying each other for ever; when there are levels for what they are told that
  go down in what they do, the cycle of the outermost update comes to an end, with the queue of effects empty: the levels in the queue
  go down in the order of multisets.
\<close>

section \<open>Results that do not depend on the fuel\<close>

text \<open>What a computation with fuel comes to, however much fuel there is beyond some bound.\<close>

definition eventual :: "(nat \<Rightarrow> 'b option) \<Rightarrow> 'b \<Rightarrow> bool" where
  "eventual f x \<longleftrightarrow> (\<exists>N. \<forall>n \<ge> N. f n = Some x)"

lemma eventual_Some [simp]: "eventual (\<lambda>n. Some x) y \<longleftrightarrow> x = y"
  by (auto simp: eventual_def)

lemma eventual_bind:
  assumes "eventual f x" "eventual (\<lambda>n. g n x) y"
  shows "eventual (\<lambda>n. Option.bind (f n) (g n)) y"
proof -
  obtain N M where "\<forall>n \<ge> N. f n = Some x" "\<forall>n \<ge> M. g n x = Some y" using assms by (auto simp: eventual_def)
  then have "\<forall>n \<ge> max N M. Option.bind (f n) (g n) = Some y" by simp
  then show ?thesis unfolding eventual_def by blast
qed

lemma eventual_map: "eventual f x \<Longrightarrow> eventual (\<lambda>n. map_option g (f n)) (g x)"
  by (auto simp: eventual_def)

lemma eventual_Suc: "eventual (\<lambda>n. f (Suc n)) x \<Longrightarrow> eventual f x"
proof -
  assume "eventual (\<lambda>n. f (Suc n)) x"
  then obtain N where N: "\<forall>n \<ge> N. f (Suc n) = Some x" by (auto simp: eventual_def)
  have "f n = Some x" if "n \<ge> Suc N" for n using N that by (cases n) auto
  then show ?thesis unfolding eventual_def by blast
qed

text \<open>The sets of subscribers whose callbacks all fit their key, and from which nobody has been dropped in a round.\<close>

definition fitting :: "('k \<Rightarrow> 'c \<Rightarrow> bool) \<Rightarrow> ('k, 'c) subscriber_set \<Rightarrow> bool" where
  "fitting Q ss \<longleftrightarrow> dropped_subscribers ss = {} \<and> (\<forall>k. \<forall>(i, c) \<in> set (live ss k). Q k c)"

lemma fittingD: "fitting Q ss \<Longrightarrow> (i, c) \<in> set (live ss k) \<Longrightarrow> Q k c"
  by (auto simp: fitting_def)

lemma btree_insert_set: "set (btree_insert i c xs) \<subseteq> insert (i, c) (set xs)"
  by (induction i c xs rule: btree_insert.induct) auto

lemma btree_extend_set: "set (btree_extend xs ys) \<subseteq> set xs \<union> set ys"
proof (induction ys arbitrary: xs)
  case Nil
  then show ?case by (simp add: btree_extend_def)
next
  case (Cons y ys)
  obtain i c where y: "y = (i, c)" by (cases y)
  have "btree_extend xs (y # ys) = btree_extend (btree_insert i c xs) ys" by (simp add: btree_extend_def y)
  then show ?case using Cons [of "btree_insert i c xs"] btree_insert_set [of i c xs] y by auto
qed

lemma fitting_insert:
  "fitting Q ss \<Longrightarrow> Q k c \<Longrightarrow> fitting Q (snd (snd (subscriber_insert k c ss)))"
  using btree_insert_set [of "next_subscriber_id ss" c "live ss k"]
  by (auto simp: fitting_def subscriber_insert_def live_def Let_def split: option.splits)

lemma fitting_activate: "fitting Q ss \<Longrightarrow> fitting Q (activate n ss)"
  by (simp add: fitting_def activate_def live_def)

lemma retain_loop_eventual:
  assumes F: "\<And>c w. Q c \<Longrightarrow> J w \<Longrightarrow> \<exists>b w'. eventual (\<lambda>n. F n c w) (c, b, w') \<and> J w'"
  shows "J w \<Longrightarrow> \<forall>(i, c) \<in> set xs. Q c \<Longrightarrow>
    \<exists>ys w'. eventual (\<lambda>n. retain_loop get (F n) xs w) (ys, w') \<and> J w' \<and> set ys \<subseteq> set xs"
proof (induction xs arbitrary: w)
  case Nil
  then show ?case by auto
next
  case (Cons x xs)
  obtain i c where x: "x = (i, c)" by (cases x)
  show ?case
  proof (cases "i \<in> activated (get w)")
    case True
    obtain b t where t: "eventual (\<lambda>n. F n c w) (c, b, t)" "J t" using F [of c w] Cons.prems x by auto
    obtain ys w' where w': "eventual (\<lambda>n. retain_loop get (F n) xs t) (ys, w')" "J w'" "set ys \<subseteq> set xs"
      using Cons.IH [OF t(2)] Cons.prems(2) by auto
    have "eventual (\<lambda>n. retain_loop get (F n) (x # xs) w) (if b then (i, c) # ys else ys, w')"
      using True x by (auto intro!: eventual_bind t(1) w'(1))
    moreover have "set (if b then (i, c) # ys else ys) \<subseteq> set (x # xs)" using w'(3) x by auto
    ultimately show ?thesis using w'(2) by blast
  next
    case False
    obtain ys w' where w': "eventual (\<lambda>n. retain_loop get (F n) xs w) (ys, w')" "J w'" "set ys \<subseteq> set xs"
      using Cons.IH [OF Cons.prems(1)] Cons.prems(2) by auto
    have "eventual (\<lambda>n. retain_loop get (F n) (x # xs) w) ((i, c) # ys, w')"
      using False x by (auto intro!: eventual_bind w'(1))
    moreover have "set ((i, c) # ys) \<subseteq> set (x # xs)" using w'(3) x by auto
    ultimately show ?thesis using w'(2) by blast
  qed
qed

lemma retain_eventual:
  assumes F: "\<And>c w. Q k c \<Longrightarrow> J w \<Longrightarrow> \<exists>b w'. eventual (\<lambda>n. F n c w) (c, b, w') \<and> J w'"
    and get: "\<And>w. J w \<Longrightarrow> fitting Q (get w)" and put: "\<And>x w. J w \<Longrightarrow> fitting Q x \<Longrightarrow> J (put x w)"
    and w: "J w"
  shows "\<exists>w'. eventual (\<lambda>n. subscriber_retain get put k (F n) w) w' \<and> J w'"
proof (cases "\<exists>m. subscribers (get w) k = Some (Some m)")
  case True
  then obtain m where m: "subscribers (get w) k = Some (Some m)" by blast
  let ?w = "put ((get w)\<lparr>subscribers := (subscribers (get w))(k \<mapsto> None)\<rparr>) w"
  have fit: "fitting Q (get w)" using get w .
  have "fitting Q ((get w)\<lparr>subscribers := (subscribers (get w))(k \<mapsto> None)\<rparr>)"
    using fit by (auto simp: fitting_def live_def)
  then have "J ?w" using put w by blast
  moreover have "\<forall>(i, c) \<in> set m. Q k c" using fit m by (auto simp: fitting_def live_def)
  ultimately obtain ys t where t: "eventual (\<lambda>n. retain_loop get (F n) m ?w) (ys, t)" "J t" "set ys \<subseteq> set m"
    using retain_loop_eventual [of "Q k" J F, OF F] by blast
  have fit_t: "fitting Q (get t)" using get t(2) .
  let ?ys = "btree_extend ys (live (get t) k)"
  have "live (get w) k = m" using m by (simp add: live_def)
  then have "\<forall>(i, c) \<in> set m \<union> set (live (get t) k). Q k c" using fittingD [OF fit] fittingD [OF fit_t] by auto
  moreover have "set ?ys \<subseteq> set m \<union> set (live (get t) k)" using btree_extend_set t(3) by fast
  ultimately have ys: "\<forall>(i, c) \<in> set ?ys. Q k c" by blast
  have ext: "btree_extend ys [] = ys" by (simp add: btree_extend_def)
  have fin: "retain_finish k ys (get t) = Some ((get t)\<lparr>dropped_subscribers := {},
      subscribers := (if ?ys = [] then (subscribers (get t))(k := None) else (subscribers (get t))(k \<mapsto> Some ?ys))\<rparr>)"
    using fit_t ext by (auto simp: retain_finish_def fitting_def live_def Let_def split: option.split)
  let ?ss = "(get t)\<lparr>dropped_subscribers := {},
      subscribers := (if ?ys = [] then (subscribers (get t))(k := None) else (subscribers (get t))(k \<mapsto> Some ?ys))\<rparr>"
  have "fitting Q ?ss" using fit_t ys by (auto simp: fitting_def live_def)
  then have "J (put ?ss t)" using put t(2) by blast
  moreover have "eventual (\<lambda>n. subscriber_retain get put k (F n) w) (put ?ss t)"
    unfolding subscriber_retain_def m option.case by (rule eventual_bind [OF t(1)]) (simp add: fin)
  ultimately show ?thesis by blast
next
  case False
  then have "subscriber_retain get put k (F n) w = Some w" for n
    by (auto simp: subscriber_retain_def split: option.splits)
  then show ?thesis using w by auto
qed

text \<open>Levels of what callbacks are told, and of what they do: a callback belongs below the level of the notices it gets, and only pushes
  effects of lower levels.\<close>

record 'c levels =
  notify_level :: "nat \<Rightarrow> nat"
  emit_level :: "nat \<Rightarrow> nat \<Rightarrow> nat"
  global_level :: "nat \<Rightarrow> nat"
  call_level :: "'c \<Rightarrow> nat"

fun effect_level :: "'c levels \<Rightarrow> ('c, 'e) effect \<Rightarrow> nat" where
  "effect_level L (Notify i) = notify_level L i"
| "effect_level L (Emit i ty _ _) = emit_level L i ty"
| "effect_level L (NotifyGlobalObservers t) = global_level L t"
| "effect_level L (Defer (RunDeferred c)) = call_level L c"
| "effect_level L _ = 0"

fun below :: "'c levels \<Rightarrow> nat \<Rightarrow> ('c, 'e, 'v, 'g) command \<Rightarrow> bool" where
  "below L l (DoNotify i) = (notify_level L i < l)"
| "below L l (DoEmit i ty _) = (emit_level L i ty < l)"
| "below L l DoRefreshWindows = (0 < l)"
| "below L l (DoDefer c) = (call_level L c < l)"
| "below L l (DoSetGlobal t _) = (global_level L t < l)"
| "below L l (DoDefaultGlobal t _) = (global_level L t < l)"
| "below L l (DoObserve i c) = (call_level L c \<le> notify_level L i \<and> 0 < l)"
| "below L l (DoSubscribe i ty c) = (call_level L c \<le> emit_level L i ty \<and> 0 < l)"
| "below L l (DoObserveGlobal t c) = (call_level L c \<le> global_level L t \<and> 0 < l)"
| "below L l (DoUpdate body) = list_all (below L l) body"
| "below L l (DoCall c) = (call_level L c < l)"
| "below L l _ = False"

definition levelled :: "'c levels \<Rightarrow> ('c, 'e, 'v, 'g) script \<Rightarrow> bool" where
  "levelled L script \<longleftrightarrow> (\<forall>c arg s. list_all (below L (call_level L c)) (fst (script c arg s)))"

text \<open>Nothing is to be released, every event in the queue can be read, and the callbacks fit the levels.\<close>

fun readable :: "nat \<Rightarrow> ('c, 'e) effect \<Rightarrow> bool" where
  "readable g (Emit _ _ gen _) = (gen = g)"
| "readable g (EntityCreated _ _ _) = False"
| "readable g _ = True"

definition steady :: "'c levels \<Rightarrow> ('c, 'e, 'v, 'g) app \<Rightarrow> bool" where
  "steady L s \<longleftrightarrow>
     dropped_entity_ids (app_entities s) = [] \<and> (\<forall>(h, n) \<in> set (focus_handles s). 0 < n) \<and>
     (\<forall>e \<in> set (pending_effects s). readable (arena_generation s) e) \<and>
     fitting (\<lambda>i c. call_level L c \<le> notify_level L i) (observers s) \<and>
     fitting (\<lambda>i (ty, c). call_level L c \<le> emit_level L i ty) (event_listeners s) \<and>
     fitting (\<lambda>t c. call_level L c \<le> global_level L t) (global_observers s)"

text \<open>What a body below a level does inside of an update.\<close>

definition pushed_below :: "'c levels \<Rightarrow> nat \<Rightarrow> ('c, 'e, 'v, 'g) app \<Rightarrow> ('c, 'e, 'v, 'g) app \<Rightarrow> bool" where
  "pushed_below L l s s' \<longleftrightarrow>
     (\<exists>new. pending_effects s' = pending_effects s @ new \<and> (\<forall>e \<in> set new. effect_level L e < l)) \<and>
     pending_updates s' = pending_updates s \<and> app_entities s' = app_entities s \<and> arena_generation s' = arena_generation s \<and>
     flushing_effects s' = flushing_effects s"

lemma pushed_refl: "pushed_below L l s s"
  by (simp add: pushed_below_def)

lemma pushed_trans: "pushed_below L l s t \<Longrightarrow> pushed_below L l t u \<Longrightarrow> pushed_below L l s u"
  unfolding pushed_below_def by (elim exE conjE) (auto simp: ball_Un)

lemma pushed_mono: "pushed_below L l s t \<Longrightarrow> l \<le> l' \<Longrightarrow> pushed_below L l' s t"
  unfolding pushed_below_def by (meson order_less_le_trans)

definition settles :: "'c levels \<Rightarrow> nat \<Rightarrow> (nat \<Rightarrow> ('c, 'e, 'v, 'g) app option) \<Rightarrow> ('c, 'e, 'v, 'g) app \<Rightarrow> bool" where
  "settles L l f s \<longleftrightarrow> (\<exists>s'. eventual f s' \<and> steady L s' \<and> pushed_below L l s s')"

lemma settles_Some: "steady L s' \<Longrightarrow> pushed_below L l s s' \<Longrightarrow> settles L l (\<lambda>n. Some s') s"
  by (auto simp: settles_def)

lemma push_settles:
  assumes "steady L s" "effect_level L e < l" "readable (arena_generation s) e"
  shows "steady L (push_effect e s)" "pushed_below L l s (push_effect e s)"
  using assms by (cases e; auto simp: steady_def push_effect_def pushed_below_def)+

lemma notify_settles:
  fixes s :: "('c, 'e, 'v, 'g) app"
  assumes "steady L s" "notify_level L i < l"
  shows "steady L (app_notify i s) \<and> pushed_below L l s (app_notify i s)"
proof -
  have inv: "steady L (invalidate_view i w t) \<and> pushed_below L l t (invalidate_view i w t)" if "steady L t" for w and t :: "('c, 'e, 'v, 'g) app"
  proof -
    have "steady L (t\<lparr>invalidators := x\<rparr>)" for x using that by (simp add: steady_def)
    moreover have "pushed_below L l t (t\<lparr>invalidators := x\<rparr>)" for x by (simp add: pushed_below_def)
    ultimately show ?thesis
      using push_settles [of L _ "Notify i" l] assms(2) pushed_trans by (fastforce simp: invalidate_view_def Let_def)
  qed
  have "steady L t \<Longrightarrow> steady L (fold (invalidate_view i) ws t) \<and> pushed_below L l t (fold (invalidate_view i) ws t)"
    for ws and t :: "('c, 'e, 'v, 'g) app"
  proof (induction ws arbitrary: t)
    case (Cons w ws)
    then show ?case using inv pushed_trans by fastforce
  qed (simp add: pushed_refl)
  then show ?thesis using assms push_settles [of L s "Notify i" l] by (simp add: app_notify_def Let_def)
qed

lemma observe_settles:
  assumes "steady L s" "0 < l"
  shows "call_level L c \<le> notify_level L i \<Longrightarrow> steady L (new_observer i c s) \<and> pushed_below L l s (new_observer i c s)"
    "call_level L c \<le> emit_level L i ty \<Longrightarrow> steady L (new_subscription i ty c s) \<and> pushed_below L l s (new_subscription i ty c s)"
    "call_level L c \<le> global_level L t \<Longrightarrow> steady L (observe_global t c s) \<and> pushed_below L l s (observe_global t c s)"
  using assms fitting_insert [of "\<lambda>i c. call_level L c \<le> notify_level L i" "observers s" i c]
    fitting_insert [of "\<lambda>i (ty, c). call_level L c \<le> emit_level L i ty" "event_listeners s" i "(ty, c)"]
    fitting_insert [of "\<lambda>t c. call_level L c \<le> global_level L t" "global_observers s" t c]
  by (auto simp: steady_def pushed_below_def new_observer_def new_subscription_def observe_global_def app_defer_def push_effect_def)

lemma run_Suc: "eventual (\<lambda>n. run_step alloc os script (run_task n alloc os script) t s) r \<Longrightarrow>
    eventual (\<lambda>n. run_task n alloc os script t s) r"
  by (rule eventual_Suc) simp

lemma call_settles:
  assumes "\<exists>t. eventual (\<lambda>n. run_task n alloc os script (Body (fst (script c arg s))) s) (True, t) \<and> Q t"
  shows "\<exists>t. eventual (\<lambda>n. run_task n alloc os script (Call c arg) s) (snd (script c arg s), t) \<and> Q t"
proof -
  obtain t where t: "eventual (\<lambda>n. run_task n alloc os script (Body (fst (script c arg s))) s) (True, t)" "Q t" using assms by blast
  have "eventual (\<lambda>n. run_step alloc os script (run_task n alloc os script) (Call c arg) s) (snd (script c arg s), t)"
    using eventual_map [OF t(1), of "\<lambda>r. (snd (script c arg s), snd r)"]
    by (simp add: run_step_def do_body_def case_prod_unfold option.map_comp comp_def Let_def)
  then show ?thesis using run_Suc t(2) by blast
qed

lemma update_settles:
  fixes s :: "('c, 'e, 'v, 'g) app"
  assumes "\<exists>t. eventual (\<lambda>n. run_task n alloc os script (Body body) (start_update s)) (True, t) \<and> steady L t \<and>
      pushed_below L l (start_update s) t" and "in_update s"
  shows "settles L l (\<lambda>n. run_command alloc os (run_task n alloc os script) (DoUpdate body) s) s"
proof -
  obtain t where t: "eventual (\<lambda>n. run_task n alloc os script (Body body) (start_update s)) (True, t)" "steady L t"
    "pushed_below L l (start_update s) t" using assms(1) by blast
  let ?t = "t\<lparr>pending_updates := pending_updates t - 1\<rparr>"
  have p: "pending_updates t = Suc (pending_updates s)" using t(3) by (simp add: pushed_below_def start_update_def)
  have fin: "finish_update (run_task n alloc os script) t = Some ?t" for n
    using p assms(2) by (simp add: finish_update_def in_update_def)
  have body: "eventual (\<lambda>n. map_option (Pair ()) (do_body (run_task n alloc os script) body (start_update s))) ((), t)"
    using eventual_map [OF t(1), of "\<lambda>r. ((), snd r)"] by (simp add: do_body_def option.map_comp comp_def)
  have "eventual (\<lambda>n. app_update (run_task n alloc os script)
      (\<lambda>s. map_option (Pair ()) (do_body (run_task n alloc os script) body s)) s) ((), ?t)"
    unfolding app_update_def by (rule eventual_bind [OF body]) (simp add: fin)
  then have "eventual (\<lambda>n. run_command alloc os (run_task n alloc os script) (DoUpdate body) s) ?t"
    using eventual_map [of _ "((), ?t)" snd] by (simp add: run_command_def)
  moreover have "steady L ?t" using t(2) by (simp add: steady_def)
  moreover have "pushed_below L l s ?t" using t(3) by (simp add: pushed_below_def start_update_def)
  ultimately show ?thesis unfolding settles_def by blast
qed

lemma body_settles:
  fixes s :: "('c, 'e, 'v, 'g) app"
  assumes "levelled L script"
  shows "list_all (below L l) cs \<Longrightarrow> steady L s \<Longrightarrow> in_update s \<Longrightarrow>
    \<exists>t. eventual (\<lambda>n. run_task n alloc os script (Body cs) s) (True, t) \<and> steady L t \<and> pushed_below L l s t"
proof (induction l arbitrary: cs s rule: less_induct)
  case (less l)
  note outer = less.IH
  show ?case using less.prems
  proof (induction cs arbitrary: s rule: measure_induct_rule [where f = "size_list size"])
    case (less cs)
    note inner = less.IH
    show ?case
    proof (cases cs)
      case Nil
      have "eventual (\<lambda>n. run_step alloc os script (run_task n alloc os script) (Body cs) s) (True, s)"
        using Nil by (simp add: run_step_def)
      then show ?thesis using run_Suc less.prems(2) pushed_refl by blast
    next
      case (Cons c cs')
      have c: "below L l c" "list_all (below L l) cs'" using less.prems(1) Cons by simp_all
      have "settles L l (\<lambda>n. run_command alloc os (run_task n alloc os script) c s) s"
      proof (cases c)
        case (DoNotify i)
        then show ?thesis using notify_settles [OF less.prems(2)] c(1) by (simp add: run_command_def settles_Some)
      next
        case (DoEmit i ty e)
        then show ?thesis using push_settles [OF less.prems(2), of "Emit i ty (arena_generation s) e" l] c(1)
          by (simp add: run_command_def plain_effects settles_Some)
      next
        case DoRefreshWindows
        then show ?thesis using push_settles [OF less.prems(2), of RefreshWindows l] c(1)
          by (simp add: run_command_def plain_effects settles_Some)
      next
        case (DoDefer d)
        then show ?thesis using push_settles [OF less.prems(2), of "Defer (RunDeferred d)" l] c(1)
          by (simp add: run_command_def app_defer_def settles_Some)
      next
        case (DoSetGlobal t g)
        then show ?thesis using push_settles [OF less.prems(2), of "NotifyGlobalObservers t" l] c(1)
          by (auto simp: run_command_def set_global_def steady_def pushed_below_def intro!: settles_Some)
      next
        case (DoDefaultGlobal t g)
        then show ?thesis using push_settles [OF less.prems(2), of "NotifyGlobalObservers t" l] c(1)
          by (auto simp: run_command_def default_global_def steady_def pushed_below_def Let_def intro!: settles_Some)
      next
        case (DoObserve i d)
        then show ?thesis using observe_settles(1) [OF less.prems(2), of l d i] c(1) by (auto simp: run_command_def intro!: settles_Some)
      next
        case (DoSubscribe i ty d)
        then show ?thesis using observe_settles(2) [OF less.prems(2), of l d i ty] c(1) by (auto simp: run_command_def intro!: settles_Some)
      next
        case (DoObserveGlobal t d)
        then show ?thesis using observe_settles(3) [OF less.prems(2), of l d t] c(1) by (auto simp: run_command_def intro!: settles_Some)
      next
        case (DoUpdate body)
        have st: "steady L (start_update s)" "in_update (start_update s)"
          using less.prems(2) by (simp_all add: steady_def start_update_def in_update_def)
        have sz: "size_list size body < size_list size cs" using DoUpdate Cons by simp
        have bel: "list_all (below L l) body" using c(1) DoUpdate by simp
        have "\<exists>t. eventual (\<lambda>n. run_task n alloc os script (Body body) (start_update s)) (True, t) \<and> steady L t \<and>
            pushed_below L l (start_update s) t"
          using inner [OF sz bel st] .
        then show ?thesis unfolding DoUpdate by (rule update_settles [OF _ less.prems(3)])
      next
        case (DoCall d)
        then have d: "call_level L d < l" using c(1) by simp
        have "list_all (below L (call_level L d)) (fst (script d NoArgument s))" using assms by (simp add: levelled_def)
        then have "\<exists>t. eventual (\<lambda>n. run_task n alloc os script (Body (fst (script d NoArgument s))) s) (True, t) \<and>
            (steady L t \<and> pushed_below L (call_level L d) s t)"
          by (rule outer [OF d _ less.prems(2,3)])
        from call_settles [where Q = "\<lambda>t. steady L t \<and> pushed_below L (call_level L d) s t", OF this]
        obtain t where t: "eventual (\<lambda>n. run_task n alloc os script (Call d NoArgument) s) (snd (script d NoArgument s), t)"
          "steady L t" "pushed_below L (call_level L d) s t" by blast
        have "eventual (\<lambda>n. run_command alloc os (run_task n alloc os script) c s) t"
          using eventual_map [OF t(1), of snd] DoCall by (simp add: run_command_def)
        moreover have "pushed_below L l s t" by (rule pushed_mono [OF t(3)]) (use d in simp)
        ultimately show ?thesis unfolding settles_def using t(2) by blast
      qed (use c(1) in auto)
      then obtain t where t: "eventual (\<lambda>n. run_command alloc os (run_task n alloc os script) c s) t" "steady L t" "pushed_below L l s t"
        unfolding settles_def by blast
      have sz: "size_list size cs' < size_list size cs" "in_update t" using Cons t(3) less.prems(3)
        by (simp_all add: pushed_below_def in_update_def)
      then obtain u where u: "eventual (\<lambda>n. run_task n alloc os script (Body cs') t) (True, u)" "steady L u" "pushed_below L l t u"
        using inner [OF sz(1) c(2) t(2) sz(2)] by blast
      have "eventual (\<lambda>n. run_step alloc os script (run_task n alloc os script) (Body cs) s) (True, u)"
        unfolding run_step_def task.case Cons list.case by (rule eventual_bind [OF t(1)]) (rule u(1))
      then show ?thesis using run_Suc u(2) pushed_trans [OF t(3) u(3)] by blast
    qed
  qed
qed

lemma callback_settles:
  fixes s :: "('c, 'e, 'v, 'g) app"
  assumes "levelled L script" "call_level L c \<le> l" "steady L s" "in_update s"
  shows "\<exists>b t. eventual (\<lambda>n. run_task n alloc os script (Call c arg) s) (b, t) \<and> steady L t \<and> pushed_below L l s t"
proof -
  have "list_all (below L (call_level L c)) (fst (script c arg s))" using assms(1) by (simp add: levelled_def)
  from body_settles [OF assms(1) this assms(3,4)]
  have "\<exists>t. eventual (\<lambda>n. run_task n alloc os script (Body (fst (script c arg s))) s) (True, t) \<and>
      (steady L t \<and> pushed_below L (call_level L c) s t)" .
  from call_settles [where Q = "\<lambda>t. steady L t \<and> pushed_below L (call_level L c) s t", OF this]
  show ?thesis using pushed_mono [OF _ assms(2)] by blast
qed

lemma upgrade_settles:
  fixes s :: "('c, 'e, 'v, 'g) app"
  assumes "levelled L script" "call_level L c \<le> l" "steady L s" "in_update s"
  shows "\<exists>b t. eventual (\<lambda>n. with_upgrade (run_task n alloc os script) i c arg s) (b, t) \<and> steady L t \<and> pushed_below L l s t"
proof (cases "counts (app_entities s) i = None \<or> counts (app_entities s) i = Some 0")
  case True
  then have "with_upgrade (run_task n alloc os script) i c arg s = Some (False, s)" for n
    by (auto simp: with_upgrade_def weak_upgrade_def)
  then show ?thesis using assms(3) pushed_refl by (intro exI [of _ False] exI [of _ s]) auto
next
  case False
  then obtain k where k: "counts (app_entities s) i = Some k" "0 < k" by auto
  let ?m = "(app_entities s)\<lparr>counts := (counts (app_entities s))(i \<mapsto> k + 1)\<rparr>"
  let ?s = "s\<lparr>app_entities := ?m\<rparr>"
  have "steady L ?s" "in_update ?s" using assms(3,4) by (simp_all add: steady_def in_update_def)
  then obtain b t where t: "eventual (\<lambda>n. run_task n alloc os script (Call c arg) ?s) (b, t)" "steady L t" "pushed_below L l ?s t"
    using callback_settles [OF assms(1,2)] by blast
  let ?t = "t\<lparr>app_entities := app_entities s\<rparr>"
  have m: "app_entities t = ?m" using t(3) by (simp add: pushed_below_def)
  have "(counts (app_entities s))(i \<mapsto> k) = counts (app_entities s)" using k by auto
  then have drop: "on_entities (handle_drop i) t = Some ?t"
    using k m by (auto simp: on_entities_def handle_drop_def Let_def)
  have up: "weak_upgrade i (app_entities s) = (Some i, ?m)" using k by (simp add: weak_upgrade_def)
  have "eventual (\<lambda>n. with_upgrade (run_task n alloc os script) i c arg s) (b, ?t)"
    unfolding with_upgrade_def up Let_def prod.case option.case
    by (rule eventual_bind [OF t(1)]) (simp add: drop)
  moreover have "steady L ?t" using t(2) assms(3) by (simp add: steady_def)
  moreover have "pushed_below L l s ?t" using t(3) by (simp add: pushed_below_def)
  ultimately show ?thesis by blast
qed

lemma round_settles:
  fixes s :: "('c, 'e, 'v, 'g) app"
  assumes F: "\<And>c w. Q k c \<Longrightarrow> steady L w \<Longrightarrow> in_update w \<Longrightarrow> pushed_below L l s w \<Longrightarrow>
      \<exists>b t. eventual (\<lambda>n. F n c w) (c, b, t) \<and> steady L t \<and> pushed_below L l w t"
    and get: "\<And>w. steady L w \<Longrightarrow> fitting Q (get w)"
    and put: "\<And>x w. steady L w \<Longrightarrow> fitting Q x \<Longrightarrow> steady L (put x w)" "\<And>x w. pushed_below L l w (put x w)"
    and s: "steady L s" "in_update s"
  shows "settles L l (\<lambda>n. subscriber_retain get put k (F n) s) s"
proof -
  have "\<exists>t. eventual (\<lambda>n. subscriber_retain get put k (F n) s) t \<and> (steady L t \<and> pushed_below L l s t)"
  proof (rule retain_eventual [where Q = Q])
    fix c w assume c: "Q k c" and w: "steady L w \<and> pushed_below L l s w"
    then have "in_update w" using s(2) by (simp add: pushed_below_def in_update_def)
    then show "\<exists>b t. eventual (\<lambda>n. F n c w) (c, b, t) \<and> (steady L t \<and> pushed_below L l s t)"
      using F [OF c] w pushed_trans by blast
  qed (use get put pushed_trans s(1) pushed_refl in blast)+
  then show ?thesis unfolding settles_def .
qed

lemma effect_settles:
  fixes s :: "('c, 'e, 'v, 'g) app"
  assumes lev: "levelled L script" and s: "steady L s" "in_update s" and e: "readable (arena_generation s) e"
  shows "settles L (effect_level L e) (\<lambda>n. apply_effect os (run_task n alloc os script) e s) s"
proof (cases e)
  case (Notify i)
  let ?s = "s\<lparr>pending_notifications := pending_notifications s - {i}\<rparr>"
  let ?F = "\<lambda>n c s. do { (keep, s) \<leftarrow> with_upgrade (run_task n alloc os script) i c (ForEntity i) s; Some (c, keep, s) }"
  have "settles L (notify_level L i) (\<lambda>n. subscriber_retain observers (\<lambda>x s. s\<lparr>observers := x\<rparr>) i (?F n) ?s) ?s"
  proof (rule round_settles [where Q = "\<lambda>i c. call_level L c \<le> notify_level L i"])
    fix c and w :: "('c, 'e, 'v, 'g) app" assume "call_level L c \<le> notify_level L i" "steady L w" "in_update w"
    then obtain b t where t: "eventual (\<lambda>n. with_upgrade (run_task n alloc os script) i c (ForEntity i) w) (b, t)"
      "steady L t" "pushed_below L (notify_level L i) w t" using upgrade_settles [OF lev] by blast
    have "eventual (\<lambda>n. ?F n c w) (c, b, t)" by (rule eventual_bind [OF t(1)]) simp
    then show "\<exists>b t. eventual (\<lambda>n. ?F n c w) (c, b, t) \<and> steady L t \<and> pushed_below L (notify_level L i) w t" using t by blast
  qed (use s in \<open>auto simp: steady_def pushed_below_def in_update_def\<close>)
  then show ?thesis using Notify by (simp add: apply_effect_def apply_notify_effect_def settles_def pushed_below_def)
next
  case (Emit i ty gen ev)
  let ?F = "\<lambda>n (stored, c) s.
           if stored = ty then
             (if gen \<noteq> arena_generation s then None
              else do { (keep, s) \<leftarrow> with_upgrade (run_task n alloc os script) i c (ForEvent i ev) s; Some ((stored, c), keep, s) })
           else Some ((stored, c), True, s)"
  have gen: "gen = arena_generation s" using e Emit by simp
  have "settles L (emit_level L i ty) (\<lambda>n. subscriber_retain event_listeners (\<lambda>x s. s\<lparr>event_listeners := x\<rparr>) i (?F n) s) s"
  proof (rule round_settles [where Q = "\<lambda>i (ty, c). call_level L c \<le> emit_level L i ty"])
    fix x and w :: "('c, 'e, 'v, 'g) app"
    assume x: "(\<lambda>(ty, c). call_level L c \<le> emit_level L i ty) x" and w: "steady L w" "in_update w"
      and p: "pushed_below L (emit_level L i ty) s w"
    obtain stored c where xc: "x = (stored, c)" by (cases x)
    show "\<exists>b t. eventual (\<lambda>n. ?F n x w) (x, b, t) \<and> steady L t \<and> pushed_below L (emit_level L i ty) w t"
    proof (cases "stored = ty")
      case True
      then have "call_level L c \<le> emit_level L i ty" using x xc by simp
      then obtain b t where t: "eventual (\<lambda>n. with_upgrade (run_task n alloc os script) i c (ForEvent i ev) w) (b, t)"
        "steady L t" "pushed_below L (emit_level L i ty) w t" using upgrade_settles [OF lev _ w] by blast
      have g: "gen = arena_generation w" using gen p by (simp add: pushed_below_def)
      have "eventual (\<lambda>n. do { (keep, s) \<leftarrow> with_upgrade (run_task n alloc os script) i c (ForEvent i ev) w; Some (x, keep, s) }) (x, b, t)"
        by (rule eventual_bind [OF t(1)]) simp
      then have "eventual (\<lambda>n. ?F n x w) (x, b, t)" using g True xc by simp
      then show ?thesis using t by blast
    next
      case False
      then have "eventual (\<lambda>n. ?F n x w) (x, True, w)" using xc by simp
      then show ?thesis using w pushed_refl by blast
    qed
  qed (use s in \<open>auto simp: steady_def pushed_below_def in_update_def\<close>)
  moreover have "apply_effect os (run_task n alloc os script) e s =
      subscriber_retain event_listeners (\<lambda>x s. s\<lparr>event_listeners := x\<rparr>) i (?F n) s" for n
    unfolding Emit apply_effect_def effect.case apply_emit_effect_def by (rule if_not_P) (simp add: gen)
  ultimately show ?thesis using Emit by simp
next
  case (NotifyGlobalObservers i)
  let ?s = "s\<lparr>pending_global_notifications := pending_global_notifications s - {i}\<rparr>"
  let ?F = "\<lambda>n c s. do { (_, s) \<leftarrow> run_task n alloc os script (Call c NoArgument) s; Some (c, True, s) }"
  have "settles L (global_level L i) (\<lambda>n. subscriber_retain global_observers (\<lambda>x s. s\<lparr>global_observers := x\<rparr>) i (?F n) ?s) ?s"
  proof (rule round_settles [where Q = "\<lambda>i c. call_level L c \<le> global_level L i"])
    fix c and w :: "('c, 'e, 'v, 'g) app" assume "call_level L c \<le> global_level L i" "steady L w" "in_update w"
    then obtain b t where t: "eventual (\<lambda>n. run_task n alloc os script (Call c NoArgument) w) (b, t)"
      "steady L t" "pushed_below L (global_level L i) w t" using callback_settles [OF lev] by blast
    have "eventual (\<lambda>n. ?F n c w) (c, True, t)" by (rule eventual_bind [OF t(1)]) simp
    then show "\<exists>b t. eventual (\<lambda>n. ?F n c w) (c, b, t) \<and> steady L t \<and> pushed_below L (global_level L i) w t" using t by blast
  qed (use s in \<open>auto simp: steady_def pushed_below_def in_update_def\<close>)
  then show ?thesis
    using NotifyGlobalObservers
    by (simp add: apply_effect_def apply_notify_global_observers_effect_def settles_def pushed_below_def)
next
  case RefreshWindows
  then show ?thesis using s by (auto simp: apply_effect_def apply_refresh_effect_def steady_def pushed_below_def intro!: settles_Some)
next
  case (Defer d)
  show ?thesis
  proof (cases d)
    case (RunDeferred c)
    obtain b t where t: "eventual (\<lambda>n. run_task n alloc os script (Call c NoArgument) s) (b, t)"
      "steady L t" "pushed_below L (call_level L c) s t" using callback_settles [OF lev _ s] by blast
    then show ?thesis using eventual_map [OF t(1), of snd] Defer RunDeferred
      by (auto simp: apply_effect_def apply_defer_effect_def settles_def)
  qed (use s Defer in \<open>auto simp: apply_effect_def apply_defer_effect_def steady_def pushed_below_def fitting_activate intro!: settles_Some\<close>)
next
  case (EntityCreated i ty w)
  then show ?thesis using e by simp
qed

lemma no_focus_to_release: "\<forall>(h, n) \<in> set hs. 0 < n \<Longrightarrow> release_focus_handles os rec hs s = Some (hs, s)"
  by (induction hs) auto

lemma steady_turn:
  assumes "steady L s"
  shows "flush_turn os rec s =
    (case pending_effects s of
       [] \<Rightarrow> Some (True, s\<lparr>arena_generation := arena_generation s + 1\<rparr>)
     | e # es \<Rightarrow> Option.bind (apply_effect os rec e (s\<lparr>pending_effects := es\<rparr>)) (rec Flush))"
proof -
  have d: "em_take_dropped (app_entities s) = Some ([], app_entities s)"
    using assms by (simp add: em_take_dropped_def steady_def)
  have f: "release_dropped_focus_handles os rec s = Some s"
  proof -
    have "\<forall>(h, n) \<in> set (focus_handles s). 0 < n" using assms by (simp add: steady_def)
    from no_focus_to_release [OF this, of os rec s] show ?thesis by (simp add: release_dropped_focus_handles_def)
  qed
  show ?thesis by (simp add: flush_turn_def d f Let_def)
qed

lemma flush_settles:
  fixes s :: "('c, 'e, 'v, 'g) app"
  assumes lev: "levelled L script"
  shows "steady L s \<Longrightarrow> in_update s \<Longrightarrow>
    \<exists>t. eventual (\<lambda>n. run_task n alloc os script Flush s) (True, t) \<and> pending_effects t = [] \<and> pending_updates t = pending_updates s"
proof (induction "mset (map (effect_level L) (pending_effects s))" arbitrary: s
    rule: wf_induct_rule [OF wf_mult [OF wf_less]])
  case less: (1 s)
  show ?case
  proof (cases "pending_effects s")
    case Nil
    let ?t = "s\<lparr>arena_generation := arena_generation s + 1\<rparr>"
    have "eventual (\<lambda>n. run_step alloc os script (run_task n alloc os script) Flush s) (True, ?t)"
      using Nil by (simp add: run_step_def steady_turn [OF less.prems(1)])
    then show ?thesis using run_Suc Nil by (intro exI [of _ ?t]) auto
  next
    case (Cons e es)
    let ?s = "s\<lparr>pending_effects := es\<rparr>"
    have s: "steady L ?s" "in_update ?s" "readable (arena_generation ?s) e"
      using less.prems Cons by (auto simp: steady_def in_update_def)
    obtain t where t: "eventual (\<lambda>n. apply_effect os (run_task n alloc os script) e ?s) t" "steady L t"
      "pushed_below L (effect_level L e) ?s t"
      using effect_settles [OF lev s] unfolding settles_def by blast
    obtain new where new: "pending_effects t = es @ new" "\<forall>x \<in> set new. effect_level L x < effect_level L e"
      using t(3) by (auto simp: pushed_below_def)
    have "(mset (map (effect_level L) (pending_effects t)), mset (map (effect_level L) (pending_effects s))) \<in> mult {(x, y). x < y}"
      using one_step_implies_mult [of "{#effect_level L e#}" "mset (map (effect_level L) new)" "{(x, y). x < y}" "mset (map (effect_level L) es)"]
        new Cons by auto
    moreover have "in_update t" using t(3) s(2) by (simp add: pushed_below_def in_update_def)
    ultimately obtain u where u: "eventual (\<lambda>n. run_task n alloc os script Flush t) (True, u)" "pending_effects u = []"
      "pending_updates u = pending_updates t"
      using less.hyps t(2) by blast
    have "eventual (\<lambda>n. run_step alloc os script (run_task n alloc os script) Flush s) (True, u)"
      unfolding run_step_def task.case steady_turn [OF less.prems(1)] Cons list.case
      by (rule eventual_bind [OF t(1)]) (rule u(1))
    then show ?thesis using run_Suc u(2,3) t(3) by (intro exI [of _ u]) (auto simp: pushed_below_def)
  qed
qed

section \<open>The outermost update returns\<close>




end
